(* ===== verification/Prelude.thy ===== *)
theory Prelude
  imports Main "HOL-Library.Word"
begin

text \<open>
  What every theory of the development shares: the machine types of the C program, the result
  type that carries undefined behaviour and non-termination as values, checked access to C
  arrays, counted loops, the byte layout of C integers in memory and on the wire, and the
  collections of simplification rules the component proofs use.

  A C \<open>char\<close> is a byte (\<open>8 word\<close>); where the code relies on the sign of a \<open>char\<close> the model
  uses \<open>scast\<close>. The host is little-endian, as the byte swaps of \<open>utils.c\<close> assume.
\<close>

unbundle bit_operations_syntax

section \<open>Machine types\<close>

type_synonym byte = "8 word"
type_synonym u16 = "16 word"
type_synonym u32 = "32 word"
type_synonym u64 = "64 word"

text \<open>
  A \<open>string_t\<close> of the program is a pointer to \<open>length\<close> bytes; the model keeps the bytes, whose
  number is the \<open>length\<close> field. It may hold zero bytes and carries no terminator.
\<close>

type_synonym string_t = "byte list"

section \<open>Results\<close>

text \<open>
  The ways a run of the C code can leave the language: an access outside an object, a use of a
  freed node, a null pointer, a read of indeterminate memory, an allocation that fails because its
  size is negative, a signed counter that overflows, a lock taken twice by the one thread, a failed assertion, a division by zero,
  a pointer that was never set, and a loop or recursion that does not come back.
\<close>

datatype c_error =
    Out_Of_Bounds
  | Use_After_Free
  | Null_Deref
  | Uninitialised
  | Bad_Alloc
  | Int_Overflow
  | Deadlock
  | Assertion_Failed
  | Division_By_Zero
  | Diverges

type_synonym 'a res = "c_error + 'a"

fun bindE :: "'a res \<Rightarrow> ('a \<Rightarrow> 'b res) \<Rightarrow> 'b res" where
  "bindE (Inl e) f = Inl e"
| "bindE (Inr x) f = f x"

named_theorems res_simps "rules that open a result"

lemma bindE_Inr_right [simp]: "bindE m Inr = m"
  by (cases m) auto

lemma bindE_assoc [simp]: "bindE (bindE m f) g = bindE m (\<lambda>x. bindE (f x) g)"
  by (cases m) auto

lemma bindE_eq_Inr_iff [res_simps]: "bindE m f = Inr y \<longleftrightarrow> (\<exists>x. m = Inr x \<and> f x = Inr y)"
  by (cases m) auto

lemma bindE_eq_Inl_iff [res_simps]:
  "bindE m f = Inl e \<longleftrightarrow> m = Inl e \<or> (\<exists>x. m = Inr x \<and> f x = Inl e)"
  by (cases m) auto

lemma bindE_cong [fundef_cong]:
  "m = m' \<Longrightarrow> (\<And>x. m' = Inr x \<Longrightarrow> f x = f' x) \<Longrightarrow> bindE m f = bindE m' f'"
  by (cases m') auto

text \<open>A read that yields \<open>None\<close> is a read of the given kind of bad memory.\<close>

fun or_fail :: "c_error \<Rightarrow> 'a option \<Rightarrow> 'a res" where
  "or_fail e None = Inl e"
| "or_fail e (Some x) = Inr x"

lemma or_fail_eq_Inr_iff [res_simps]: "or_fail e m = Inr x \<longleftrightarrow> m = Some x"
  by (cases m) auto

section \<open>Counted loops\<close>

text \<open>
  \<open>forE n i f s\<close> is the loop \<open>for (k = i; k < i + n; k++) s = f k s\<close>, left at the first error.
\<close>

fun forE :: "nat \<Rightarrow> nat \<Rightarrow> (nat \<Rightarrow> 's \<Rightarrow> 's res) \<Rightarrow> 's \<Rightarrow> 's res" where
  "forE 0 i f s = Inr s"
| "forE (Suc n) i f s = bindE (f i s) (forE n (Suc i) f)"

lemma forE_0 [simp]: "forE 0 i f = Inr"
  by (rule ext) simp

lemma forE_one: "forE (Suc 0) i f = f i"
  by (rule ext) simp

lemma forE_Suc_fun: "forE (Suc n) i f = (\<lambda>s. bindE (f i s) (forE n (Suc i) f))"
  by (rule ext) simp

lemma forE_append: "forE (m + n) i f s = bindE (forE m i f s) (forE n (i + m) f)"
proof (induction m arbitrary: i s)
  case (Suc m)
  then show ?case by (cases "f i s") auto
qed simp

lemma forE_Suc_right: "forE (Suc n) i f s = bindE (forE n i f s) (f (i + n))"
  using forE_append [of n "Suc 0" i f s] by (simp add: forE_one)

text \<open>The rule of a loop: an invariant indexed by the counter, kept by each round.\<close>

lemma forE_rule:
  assumes "I i s"
    and "\<And>k t. i \<le> k \<Longrightarrow> k < i + n \<Longrightarrow> I k t \<Longrightarrow> \<exists>t'. f k t = Inr t' \<and> I (Suc k) t'"
  shows "\<exists>s'. forE n i f s = Inr s' \<and> I (i + n) s'"
  using assms
proof (induction n arbitrary: i s)
  case 0
  then show ?case by simp
next
  case (Suc n)
  from Suc.prems(2) [of i s] Suc.prems(1) obtain t where
    t: "f i s = Inr t" "I (Suc i) t" by auto
  have "\<exists>s'. forE n (Suc i) f t = Inr s' \<and> I (Suc i + n) s'"
    by (rule Suc.IH) (use t Suc.prems(2) in auto)
  with t show ?case by simp
qed

text \<open>What a loop that came to its end has kept.\<close>

lemma forE_inv:
  assumes "forE n i f s = Inr s'" "I i s"
    and "\<And>k t t'. i \<le> k \<Longrightarrow> k < i + n \<Longrightarrow> I k t \<Longrightarrow> f k t = Inr t' \<Longrightarrow> I (Suc k) t'"
  shows "I (i + n) s'"
  using assms
proof (induction n arbitrary: i s)
  case (Suc n)
  then obtain t where t: "f i s = Inr t" "forE n (Suc i) f t = Inr s'"
    by (auto simp: bindE_eq_Inr_iff)
  have "I (Suc i) t" by (rule Suc.prems(3) [OF _ _ Suc.prems(2) t(1)]) simp_all
  from Suc.IH [OF t(2) this] Suc.prems(3) show ?case by simp
qed simp

lemma forE_cong:
  "(\<And>k t. i \<le> k \<Longrightarrow> k < i + n \<Longrightarrow> f k t = g k t) \<Longrightarrow> forE n i f s = forE n i g s"
proof (induction n arbitrary: i s)
  case (Suc n)
  have "f i s = g i s" using Suc.prems [of i s] by simp
  moreover have "forE n (Suc i) f t = forE n (Suc i) g t" for t
    by (rule Suc.IH) (use Suc.prems in auto)
  ultimately show ?case by (cases "g i s") auto
qed simp

section \<open>Runs of a step function\<close>

text \<open>A deterministic step function that comes back to a state never stops.\<close>

fun iter_opt :: "('s \<Rightarrow> 's option) \<Rightarrow> nat \<Rightarrow> 's \<Rightarrow> 's option" where
  "iter_opt f 0 s = Some s"
| "iter_opt f (Suc n) s = (case f s of None \<Rightarrow> None | Some s' \<Rightarrow> iter_opt f n s')"

lemma iter_opt_add: "iter_opt f (m + n) s = Option.bind (iter_opt f m s) (iter_opt f n)"
  by (induction m arbitrary: s) (auto split: option.splits)

lemma iter_opt_prefix: "iter_opt f n s \<noteq> None \<Longrightarrow> m \<le> n \<Longrightarrow> iter_opt f m s \<noteq> None"
  using iter_opt_add [of f m "n - m" s] by (cases "iter_opt f m s") auto

lemma iter_opt_cycle:
  assumes "i < j" "iter_opt f i s = iter_opt f j s" "iter_opt f j s \<noteq> None"
  shows "iter_opt f n s \<noteq> None"
proof (induction n rule: less_induct)
  case (less n)
  show ?case
  proof (cases "n \<le> j")
    case True
    then show ?thesis by (rule iter_opt_prefix [OF assms(3)])
  next
    case False
    then have "iter_opt f n s = iter_opt f (i + (n - j)) s"
      using iter_opt_add [of f j "n - j" s] iter_opt_add [of f i "n - j" s] assms(2) by simp
    with less [of "i + (n - j)"] False assms(1) show ?thesis by simp
  qed
qed

text \<open>So a run longer than the number of states it can pass through does not end.\<close>

lemma iter_opt_pigeonhole:
  assumes "finite S" and step: "\<And>s'. f s' \<noteq> None \<Longrightarrow> P s' \<Longrightarrow> s' \<in> S \<and> P (the (f s'))"
    and s: "P s" and long: "iter_opt f (Suc (card S)) s \<noteq> None"
  shows "iter_opt f n s \<noteq> None"
proof -
  let ?g = "\<lambda>k. the (iter_opt f k s)"
  have P: "iter_opt f k s \<noteq> None \<Longrightarrow> P (?g k)" for k
  proof (induction k)
    case (Suc k)
    from Suc.prems iter_opt_add [of f k 1 s] obtain t t' where
      t: "iter_opt f k s = Some t" "f t = Some t'" "iter_opt f (Suc k) s = Some t'"
      by (cases "iter_opt f k s") (auto split: option.splits)
    with Suc.IH step [of t] show ?case by simp
  qed (use s in simp)
  have "?g k \<in> S" if "k \<le> card S" for k
  proof -
    have "iter_opt f (Suc k) s \<noteq> None"
      by (rule iter_opt_prefix [OF long]) (use that in simp)
    with iter_opt_add [of f k 1 s] obtain t where "iter_opt f k s = Some t" "f t \<noteq> None"
      by (cases "iter_opt f k s") (auto split: option.splits)
    with P [of k] step [of t] show ?thesis by simp
  qed
  then have "card (?g ` {..card S}) \<le> card S" using \<open>finite S\<close> by (intro card_mono) auto
  then have "\<not> inj_on ?g {..card S}"
    using pigeonhole [of ?g "{..card S}"] by (simp add: less_Suc_eq_le)
  then obtain i j where ij: "i < j" "j \<le> card S" "?g i = ?g j"
    unfolding inj_on_def by (metis atMost_iff linorder_neqE_nat)
  have "iter_opt f i s \<noteq> None" "iter_opt f j s \<noteq> None"
    using iter_opt_prefix [OF long, of i] iter_opt_prefix [OF long, of j] ij by simp_all
  with ij(3) have "iter_opt f i s = iter_opt f j s" "iter_opt f j s \<noteq> None" by auto
  with ij(1) show ?thesis by (rule iter_opt_cycle)
qed

section \<open>Checked arrays\<close>

definition arr_get :: "'a list \<Rightarrow> nat \<Rightarrow> 'a res" where
  "arr_get a i = (if i < length a then Inr (a ! i) else Inl Out_Of_Bounds)"

definition arr_set :: "'a list \<Rightarrow> nat \<Rightarrow> 'a \<Rightarrow> 'a list res" where
  "arr_set a i v = (if i < length a then Inr (a[i := v]) else Inl Out_Of_Bounds)"

text \<open>\<open>memcpy\<close> from and to an array at an offset.\<close>

definition arr_read :: "'a list \<Rightarrow> nat \<Rightarrow> nat \<Rightarrow> 'a list res" where
  "arr_read a i n = (if i + n \<le> length a then Inr (take n (drop i a)) else Inl Out_Of_Bounds)"

definition arr_write :: "'a list \<Rightarrow> nat \<Rightarrow> 'a list \<Rightarrow> 'a list res" where
  "arr_write a i bs =
     (if i + length bs \<le> length a then Inr (take i a @ bs @ drop (i + length bs) a)
      else Inl Out_Of_Bounds)"

named_theorems arr_simps "checked access that is in bounds"

lemma arr_get_in [arr_simps]: "i < length a \<Longrightarrow> arr_get a i = Inr (a ! i)"
  by (simp add: arr_get_def)

lemma arr_set_in [arr_simps]: "i < length a \<Longrightarrow> arr_set a i v = Inr (a[i := v])"
  by (simp add: arr_set_def)

lemma arr_read_in [arr_simps]: "i + n \<le> length a \<Longrightarrow> arr_read a i n = Inr (take n (drop i a))"
  by (simp add: arr_read_def)

lemma arr_get_eq_Inr_iff [res_simps]: "arr_get a i = Inr v \<longleftrightarrow> i < length a \<and> a ! i = v"
  by (auto simp: arr_get_def)

lemma arr_set_eq_Inr_iff [res_simps]: "arr_set a i v = Inr a' \<longleftrightarrow> i < length a \<and> a' = a[i := v]"
  by (auto simp: arr_set_def)

lemma arr_read_eq_Inr_iff [res_simps]:
  "arr_read a i n = Inr bs \<longleftrightarrow> i + n \<le> length a \<and> bs = take n (drop i a)"
  by (auto simp: arr_read_def)

lemma arr_write_eq_Inr_iff [res_simps]:
  "arr_write a i bs = Inr a' \<longleftrightarrow>
     i + length bs \<le> length a \<and> a' = take i a @ bs @ drop (i + length bs) a"
  by (auto simp: arr_write_def)

lemma arr_write_length: "arr_write a i bs = Inr a' \<Longrightarrow> length a' = length a"
  by (auto simp: arr_write_def split: if_splits)

text \<open>Reading at the seam of two pieces of an array.\<close>

lemma arr_get_append [simp]: "arr_get (p @ x # q) (length p) = Inr x"
  by (simp add: arr_get_def)

lemma arr_read_append [simp]: "n = length bs \<Longrightarrow> arr_read (p @ bs @ q) (length p) n = Inr bs"
  by (simp add: arr_read_def)

lemma arr_write_append:
  "length old = length bs \<Longrightarrow> arr_write (p @ old @ q) (length p) bs = Inr (p @ bs @ q)"
  by (simp add: arr_write_def)

section \<open>Memory cells\<close>

text \<open>
  Memory that \<open>malloc\<close> returned is indeterminate until it is written: a cell is \<open>None\<close> until then.
  Reading such a cell is the error \<^const>\<open>Uninitialised\<close>.
\<close>

type_synonym cells = "byte option list"

definition malloc_cells :: "nat \<Rightarrow> cells" where
  "malloc_cells n = replicate n None"

fun cells_bytes :: "cells \<Rightarrow> byte list res" where
  "cells_bytes [] = Inr []"
| "cells_bytes (None # cs) = Inl Uninitialised"
| "cells_bytes (Some b # cs) = bindE (cells_bytes cs) (\<lambda>bs. Inr (b # bs))"

lemma cells_bytes_map_Some [simp]: "cells_bytes (map Some bs) = Inr bs"
  by (induction bs) auto

lemma cells_bytes_eq_Inr_iff [res_simps]: "cells_bytes cs = Inr bs \<longleftrightarrow> cs = map Some bs"
  by (induction cs arbitrary: bs rule: cells_bytes.induct) (auto simp: res_simps)

definition cells_read :: "cells \<Rightarrow> nat \<Rightarrow> nat \<Rightarrow> byte list res" where
  "cells_read cs i n = bindE (arr_read cs i n) cells_bytes"

definition cells_write :: "cells \<Rightarrow> nat \<Rightarrow> byte list \<Rightarrow> cells res" where
  "cells_write cs i bs = arr_write cs i (map Some bs)"

text \<open>
  The shape the encoders keep: the bytes written so far, then cells not yet touched. Appending at
  the end of the written part succeeds exactly while the object is large enough.
\<close>

definition filled :: "nat \<Rightarrow> byte list \<Rightarrow> cells" where
  "filled cap bs = map Some bs @ replicate (cap - length bs) None"

lemma filled_Nil: "filled cap [] = malloc_cells cap"
  by (simp add: filled_def malloc_cells_def)

lemma length_filled [simp]: "length bs \<le> cap \<Longrightarrow> length (filled cap bs) = cap"
  by (simp add: filled_def)

lemma cells_write_filled [arr_simps]:
  "length p + length bs \<le> cap \<Longrightarrow> i = length p \<Longrightarrow>
     cells_write (filled cap p) i bs = Inr (filled cap (p @ bs))"
  by (simp add: cells_write_def arr_write_def filled_def)

text \<open>Overwriting the end of the written part, with at least as many bytes as it had there.\<close>

lemma cells_write_filled_over:
  "length old \<le> length bs \<Longrightarrow> length p + length bs \<le> cap \<Longrightarrow> i = length p \<Longrightarrow>
     cells_write (filled cap (p @ old)) i bs = Inr (filled cap (p @ bs))"
  by (auto simp: cells_write_def arr_write_def filled_def drop_append)

lemma cells_write_filled_overflow [arr_simps]:
  "length p \<le> cap \<Longrightarrow> cap < length p + length bs \<Longrightarrow> i = length p \<Longrightarrow>
     cells_write (filled cap p) i bs = Inl Out_Of_Bounds"
  by (simp add: cells_write_def arr_write_def filled_def)

lemma cells_read_filled [arr_simps]:
  "i + n \<le> length bs \<Longrightarrow> cells_read (filled cap bs) i n = Inr (take n (drop i bs))"
  by (simp add: cells_read_def arr_read_def filled_def take_map drop_map)

section \<open>Integers in memory\<close>

text \<open>
  The bytes of a \<open>short\<close> and of an \<open>int\<close> in memory (least significant first) and on the wire
  (most significant first), and reading them back.
\<close>

definition le16 :: "u16 \<Rightarrow> byte list" where
  "le16 w = [ucast w, ucast (drop_bit 8 w)]"

definition be16 :: "u16 \<Rightarrow> byte list" where
  "be16 w = [ucast (drop_bit 8 w), ucast w]"

definition le32 :: "u32 \<Rightarrow> byte list" where
  "le32 w = [ucast w, ucast (drop_bit 8 w), ucast (drop_bit 16 w), ucast (drop_bit 24 w)]"

definition be32 :: "u32 \<Rightarrow> byte list" where
  "be32 w = [ucast (drop_bit 24 w), ucast (drop_bit 16 w), ucast (drop_bit 8 w), ucast w]"

definition of_le16 :: "byte \<Rightarrow> byte \<Rightarrow> u16" where
  "of_le16 a b = ucast a OR push_bit 8 (ucast b)"

definition of_le32 :: "byte \<Rightarrow> byte \<Rightarrow> byte \<Rightarrow> byte \<Rightarrow> u32" where
  "of_le32 a b c d =
     ucast a OR push_bit 8 (ucast b) OR push_bit 16 (ucast c) OR push_bit 24 (ucast d)"

lemma length_int_bytes [simp]:
  "length (le16 w) = 2" "length (be16 w) = 2" "length (le32 x) = 4" "length (be32 x) = 4"
  by (simp_all add: le16_def be16_def le32_def be32_def)

text \<open>Literal masks as \<^const>\<open>mask\<close>, for proofs bit by bit.\<close>

lemma word_masks:
  "(0xFF :: u32) = mask 8" "(0xFFFF :: u32) = mask 16"
  by (simp_all add: mask_eq_exp_minus_1)

lemma of_le16_le16: "of_le16 (ucast w) (ucast (drop_bit 8 w)) = w"
  unfolding of_le16_def by (rule bit_word_eqI) (auto simp: bit_simps)

lemma of_le32_le32:
  "of_le32 (ucast w) (ucast (drop_bit 8 w)) (ucast (drop_bit 16 w)) (ucast (drop_bit 24 w)) = w"
proof (rule bit_word_eqI)
  fix n
  assume "n < LENGTH(32)"
  then consider "n < 8" | "8 \<le> n" "n < 16" | "16 \<le> n" "n < 24" | "24 \<le> n" "n < 32"
    by force
  then show "bit (of_le32 (ucast w) (ucast (drop_bit 8 w)) (ucast (drop_bit 16 w))
      (ucast (drop_bit 24 w))) n \<longleftrightarrow> bit w n"
    by cases (auto simp: of_le32_def bit_simps)
qed

lemma le16_inject [simp]: "le16 v = le16 w \<longleftrightarrow> v = w"
  using of_le16_le16 [of v] of_le16_le16 [of w] unfolding le16_def by (metis list.inject)

section \<open>Characters and numerals\<close>

text \<open>ASCII literals as bytes, and \<open>snprintf\<close> of \<open>%d\<close>, \<open>%u\<close> and \<open>%.2x\<close> for small numbers.\<close>

definition ascii :: "string \<Rightarrow> byte list" where
  "ascii s = map of_char s"

fun dec_digits :: "nat \<Rightarrow> byte list" where
  "dec_digits n =
     (if n < 10 then [of_nat (48 + n)] else dec_digits (n div 10) @ [of_nat (48 + n mod 10)])"

declare dec_digits.simps [simp del]

definition hex_digit :: "nat \<Rightarrow> byte" where
  "hex_digit n = (if n < 10 then of_nat (48 + n) else of_nat (87 + n))"

definition hex2 :: "byte \<Rightarrow> byte list" where
  "hex2 b = [hex_digit (unat b div 16), hex_digit (unat b mod 16)]"

lemma dec_digits_nonempty [simp]: "dec_digits n \<noteq> []"
  by (subst dec_digits.simps) simp

lemma dec_digits_length_byte: "n < 256 \<Longrightarrow> length (dec_digits n) \<le> 3"
  by (subst dec_digits.simps, subst dec_digits.simps, subst dec_digits.simps) auto

fun hex_digits :: "nat \<Rightarrow> byte list" where
  "hex_digits n = (if n < 16 then [hex_digit n] else hex_digits (n div 16) @ [hex_digit (n mod 16)])"

declare hex_digits.simps [simp del]

text \<open>A C string ends at its first zero byte.\<close>

definition c_str :: "byte list \<Rightarrow> byte list" where
  "c_str = takeWhile (\<lambda>b. b \<noteq> 0)"

lemma c_str_no_zero [simp]: "0 \<notin> set bs \<Longrightarrow> c_str (bs @ 0 # q) = bs"
  unfolding c_str_def by (induction bs) auto

lemma c_str_self [simp]: "0 \<notin> set bs \<Longrightarrow> c_str bs = bs"
  unfolding c_str_def by (induction bs) auto

lemma zero_notin_c_str: "0 \<notin> set (c_str bs)"
  unfolding c_str_def by (induction bs) auto

section \<open>Error codes of libuv\<close>

definition UV_EINVAL :: int where "UV_EINVAL = -22"
definition UV_ENOSPC :: int where "UV_ENOSPC = -28"
definition UV_E2BIG :: int where "UV_E2BIG = -7"

end
