(* ===== verification/String_T.thy ===== *)
theory String_T
  imports Prelude
begin

text \<open>
  The counted strings of \<open>src/src/string_t.c\<close>: allocation and copying, comparison, splitting at a
  separator, the conversion to a C string, and the murmur3 hash the tables are indexed with.
  \<open>splits\<close> is the reference the index-driven \<open>string_split\<close> is proved equal to.
\<close>

unbundle bit_operations_syntax

section \<open>Allocation and copying\<close>

text \<open>
  \<open>string_malloc(&src[off], length)\<close>: a negative length turns into a huge \<open>size_t\<close>, so the
  allocation fails and the \<open>memcpy\<close> into it is undefined.
\<close>

definition string_malloc :: "byte list \<Rightarrow> nat \<Rightarrow> int \<Rightarrow> string_t res" where
  "string_malloc src off len = (if len < 0 then Inl Bad_Alloc else arr_read src off (nat len))"

definition string_dup :: "string_t \<Rightarrow> string_t" where
  "string_dup target = take (length target) target"

lemma string_dup_id [simp]: "string_dup s = s"
  by (simp add: string_dup_def)

lemma string_malloc_prefix [simp]: "string_malloc (s @ q) 0 (int (length s)) = Inr s"
  by (simp add: string_malloc_def arr_read_def)

text \<open>
  \<open>string_print\<close>: \<open>strncpy\<close> stops at a zero byte and pads with zeros; the last byte is the
  terminator.
\<close>

definition strncpy :: "byte list \<Rightarrow> nat \<Rightarrow> byte list" where
  "strncpy src n = c_str (take n src) @ replicate (n - length (c_str (take n src))) 0"

definition string_print :: "string_t \<Rightarrow> byte list" where
  "string_print str = strncpy str (length str) @ [0]"

lemma string_print_no_zero: "0 \<notin> set s \<Longrightarrow> string_print s = s @ [0]"
  by (simp add: string_print_def strncpy_def)

lemma c_str_string_print: "c_str (string_print s) = c_str s"
proof -
  have "c_str (c_str s @ replicate n 0 @ [0]) = c_str s" for n
    by (cases n) (use c_str_no_zero [OF zero_notin_c_str] in auto)
  then show ?thesis by (simp add: string_print_def strncpy_def)
qed

section \<open>Comparison\<close>

text \<open>Null pointers compare unequal to everything, themselves included.\<close>

function string_equal_from :: "string_t \<Rightarrow> string_t \<Rightarrow> nat \<Rightarrow> bool" where
  "string_equal_from a b i =
     (if i < length a then (if a ! i \<noteq> b ! i then False else string_equal_from a b (Suc i))
      else True)"
  by pat_completeness auto
termination
  by (relation "measure (\<lambda>(a, b, i). length a - i)") auto

declare string_equal_from.simps [simp del]

fun string_equal :: "string_t option \<Rightarrow> string_t option \<Rightarrow> bool" where
  "string_equal (Some a) (Some b) =
     (if length a \<noteq> length b then False else string_equal_from a b 0)"
| "string_equal _ _ = False"

lemma string_equal_from_iff:
  "length a = length b \<Longrightarrow> string_equal_from a b i \<longleftrightarrow> drop i a = drop i b"
proof (induction a b i rule: string_equal_from.induct)
  case (1 a b i)
  then show ?case
    by (cases "i < length a") (auto simp: string_equal_from.simps [of a b i] Cons_nth_drop_Suc [symmetric])
qed

lemma string_equal_Some [simp]: "string_equal (Some a) (Some b) \<longleftrightarrow> a = b"
  by (auto simp: string_equal_from_iff)

declare string_equal.simps(1) [simp del]

section \<open>Hashing\<close>

definition murmur_32_scramble :: "u32 \<Rightarrow> u32" where
  "murmur_32_scramble k =
     (let k = k * 0xcc9e2d51;
          k = push_bit 15 k OR drop_bit 17 k
      in k * 0x1b873593)"

text \<open>The loop over groups of four bytes, then the loop over the \<open>len & 3\<close> bytes that are left.\<close>

fun murmur_blocks :: "byte list \<Rightarrow> u32 \<Rightarrow> u32 \<times> byte list" where
  "murmur_blocks (a # b # c # d # key) h =
     (let h = h XOR murmur_32_scramble (of_le32 a b c d);
          h = push_bit 13 h OR drop_bit 19 h;
          h = h * 5 + 0xe6546b64
      in murmur_blocks key h)"
| "murmur_blocks key h = (h, key)"

fun murmur_tail :: "nat \<Rightarrow> byte list \<Rightarrow> u32 \<Rightarrow> u32" where
  "murmur_tail 0 key k = k"
| "murmur_tail (Suc i) key k = murmur_tail i key (push_bit 8 k OR ucast (key ! i))"

definition murmur3_32 :: "byte list \<Rightarrow> u32 \<Rightarrow> u32" where
  "murmur3_32 key seed =
     (let (h, rest) = murmur_blocks key seed;
          k = murmur_tail (length rest) rest 0;
          h = h XOR murmur_32_scramble k;
          h = h XOR of_nat (length key);
          h = h XOR drop_bit 16 h;
          h = h * 0x85ebca6b;
          h = h XOR drop_bit 13 h;
          h = h * 0xc2b2ae35;
          h = h XOR drop_bit 16 h
      in h)"

definition string_hash_code :: "string_t \<Rightarrow> u32" where
  "string_hash_code str = murmur3_32 str 0x54623413 AND 0x7fffffff"

text \<open>The tail has \<open>len mod 4\<close> bytes, so its loop reads \<open>key\<close> within bounds.\<close>

lemma murmur_blocks_rest: "length (snd (murmur_blocks key h)) = length key mod 4"
  by (induction key h rule: murmur_blocks.induct) (auto simp: Let_def)

lemma AND_7fffffff_less: "unat (w AND 0x7fffffff :: u32) < 2 ^ 31"
proof -
  have "w AND 0x7fffffff = take_bit 31 w"
    by (simp add: take_bit_eq_mask mask_eq_exp_minus_1)
  then have "unat (w AND 0x7fffffff) = take_bit 31 (unat w)"
    by (simp only: unsigned_take_bit_eq)
  then show ?thesis
    using take_bit_nat_less_exp [of 31 "unat w"] by simp
qed

lemma string_hash_code_nonneg: "unat (string_hash_code s) < 2 ^ 31"
  unfolding string_hash_code_def by (rule AND_7fffffff_less)

section \<open>Splitting\<close>

record split_array_t =
  array :: "string_t option list"
  split_length :: nat

definition split_count :: "string_t \<Rightarrow> byte \<Rightarrow> nat" where
  "split_count str sep = foldl (\<lambda>n c. if c = sep then Suc n else n) 1 str"

text \<open>The state of the second loop: the array, \<open>last_pos\<close> and \<open>pos\<close>.\<close>

definition split_step ::
    "string_t \<Rightarrow> byte \<Rightarrow> nat \<Rightarrow> string_t option list \<times> nat \<times> nat
       \<Rightarrow> (string_t option list \<times> nat \<times> nat) res" where
  "split_step str sep i = (\<lambda>(arr, last_pos, pos).
     if str ! i = sep then
       bindE (string_malloc str last_pos (int i - int last_pos)) (\<lambda>piece.
       bindE (arr_set arr pos (Some piece)) (\<lambda>arr.
       Inr (arr, i + 1, pos + 1)))
     else Inr (arr, last_pos, pos))"

definition string_split :: "string_t \<Rightarrow> byte \<Rightarrow> split_array_t res" where
  "string_split str sep =
     (let n = split_count str sep in
      bindE (forE (length str) 0 (split_step str sep) (replicate n None, 0, 0))
        (\<lambda>(arr, last_pos, pos).
      bindE (string_malloc str last_pos (int (length str) - int last_pos)) (\<lambda>piece.
      bindE (arr_set arr pos (Some piece)) (\<lambda>arr.
      Inr \<lparr>array = arr, split_length = n\<rparr>))))"

fun splits :: "byte \<Rightarrow> byte list \<Rightarrow> byte list list" where
  "splits sep [] = [[]]"
| "splits sep (c # cs) =
     (if c = sep then [] # splits sep cs
      else (case splits sep cs of [] \<Rightarrow> [[c]] | w # ws \<Rightarrow> (c # w) # ws))"

lemma splits_nonempty [simp]: "splits sep s \<noteq> []"
  by (induction s) (auto split: list.splits)

lemma splits_no_sep: "sep \<notin> set s \<Longrightarrow> splits sep s = [s]"
  by (induction s) auto

lemma splits_append: "sep \<notin> set u \<Longrightarrow> splits sep (u @ sep # v) = u # splits sep v"
  by (induction u) auto

lemma splits_pieces: "w \<in> set (splits sep s) \<Longrightarrow> sep \<notin> set w \<and> set w \<subseteq> set s"
  by (induction s arbitrary: w) (fastforce split: list.splits if_splits)+

lemma splits_join: "concat (map (\<lambda>w. w @ [sep]) (splits sep s)) = s @ [sep]"
  by (induction s) (auto split: list.splits)

lemma split_count_eq: "split_count s sep = length (splits sep s)"
proof -
  have "foldl (\<lambda>n c. if c = sep then Suc n else n) n s + 1 = length (splits sep s) + n" for n
    by (induction s arbitrary: n) (auto split: list.splits)
  from this [of 1] show ?thesis by (simp add: split_count_def)
qed

text \<open>
  The loop invariant: the first \<open>pos\<close> cells hold the pieces found so far, the text from
  \<open>last_pos\<close> on is still to be split, and the bytes up to \<open>i\<close> hold no separator.
\<close>

definition split_inv :: "string_t \<Rightarrow> byte \<Rightarrow> nat \<Rightarrow> string_t option list \<times> nat \<times> nat \<Rightarrow> bool" where
  "split_inv str sep i = (\<lambda>(arr, last_pos, pos). \<exists>ws.
     splits sep str = ws @ splits sep (drop last_pos str) \<and> last_pos \<le> i \<and> i \<le> length str \<and>
     sep \<notin> set (take (i - last_pos) (drop last_pos str)) \<and> pos = length ws \<and>
     arr = map Some ws @ replicate (split_count str sep - length ws) None)"

lemma split_step_inv:
  assumes inv: "split_inv str sep i st" and i: "i < length str"
  shows "\<exists>st'. split_step str sep i st = Inr st' \<and> split_inv str sep (Suc i) st'"
proof -
  obtain arr l p where st: "st = (arr, l, p)" by (cases st) auto
  with inv obtain ws where ws: "splits sep str = ws @ splits sep (drop l str)" "l \<le> i"
      "sep \<notin> set (take (i - l) (drop l str))" "p = length ws"
      "arr = map Some ws @ replicate (split_count str sep - length ws) None"
    by (auto simp: split_inv_def)
  let ?u = "take (i - l) (drop l str)"
  have cut: "drop l str = ?u @ str ! i # drop (Suc i) str"
    using i ws(2) by (metis Cons_nth_drop_Suc append_take_drop_id drop_drop le_add_diff_inverse2)
  show ?thesis
  proof (cases "str ! i = sep")
    case False
    have "take (Suc i - l) (drop l str) = ?u @ [str ! i]"
      using i ws(2) by (simp add: Suc_diff_le take_Suc_conv_app_nth)
    with False ws i st show ?thesis
      by (auto simp: split_step_def split_inv_def)
  next
    case True
    then have rest: "splits sep (drop l str) = ?u # splits sep (drop (Suc i) str)"
      using splits_append [OF ws(3), of "drop (Suc i) str"] cut by simp
    have n: "length ws < split_count str sep"
      by (simp add: split_count_eq ws(1))
    have piece: "string_malloc str l (int i - int l) = Inr ?u"
      using i ws(2) by (simp add: string_malloc_def arr_read_def nat_diff_distrib)
    have "replicate (split_count str sep - length ws) (None :: string_t option)
        = None # replicate (split_count str sep - Suc (length ws)) None"
      using n by (metis Suc_diff_Suc replicate_Suc)
    then have "arr[p := Some ?u] =
        map Some (ws @ [?u]) @ replicate (split_count str sep - Suc (length ws)) None"
      using ws(4,5) by (simp add: list_update_append)
    moreover have "p < length arr" using n ws(4,5) by simp
    ultimately have "split_step str sep i st = Inr (map Some (ws @ [?u]) @
        replicate (split_count str sep - Suc (length ws)) None, Suc i, Suc (length ws))"
      using True piece st ws(4) by (simp add: split_step_def arr_simps)
    moreover have "split_inv str sep (Suc i) (map Some (ws @ [?u]) @
        replicate (split_count str sep - Suc (length ws)) None, Suc i, Suc (length ws))"
      using rest ws(1) i unfolding split_inv_def by (auto intro!: exI [of _ "ws @ [?u]"])
    ultimately show ?thesis by blast
  qed
qed

text \<open>
  \<open>string_split\<close> stays inside the array it sized in its first pass, fills every cell of it and
  yields exactly the pieces between separators.
\<close>

lemma string_split_correct:
  "string_split str sep =
     Inr \<lparr>array = map Some (splits sep str), split_length = length (splits sep str)\<rparr>"
proof -
  have "split_inv str sep 0 (replicate (split_count str sep) None, 0, 0)"
    by (auto simp: split_inv_def)
  then obtain arr l p where
      run: "forE (length str) 0 (split_step str sep) (replicate (split_count str sep) None, 0, 0)
              = Inr (arr, l, p)"
    and inv: "split_inv str sep (length str) (arr, l, p)"
    using forE_rule [of "split_inv str sep" 0 _ "length str" "split_step str sep"] split_step_inv
    by (metis add_0 prod_cases3)
  from inv obtain ws where ws: "splits sep str = ws @ splits sep (drop l str)" "l \<le> length str"
      "sep \<notin> set (drop l str)" "p = length ws"
      "arr = map Some ws @ replicate (split_count str sep - length ws) None"
    by (auto simp: split_inv_def)
  have all: "splits sep str = ws @ [drop l str]"
    using ws(1) splits_no_sep [OF ws(3)] by simp
  then have n: "split_count str sep = Suc (length ws)"
    by (simp add: split_count_eq)
  have "string_malloc str l (int (length str) - int l) = Inr (drop l str)"
    using ws(2) by (simp add: string_malloc_def arr_read_def nat_diff_distrib)
  moreover have "arr_set arr p (Some (drop l str)) = Inr (map Some (splits sep str))"
    using ws(4,5) n all by (simp add: arr_set_def list_update_append)
  ultimately show ?thesis
    using run n all by (simp add: string_split_def Let_def split_count_eq)
qed

end
