(* ===== verification/Utils.thy ===== *)
theory Utils
  imports String_T
begin

text \<open>
  The helpers of \<open>src/src/utils.c\<close>: joining two bytes to a short, the textual form of IPv4 and IPv6
  addresses, reading addresses from response data, the buffer and send callbacks handed to libuv,
  and the byte swaps. The swaps are proved to be the change between host and wire order.
\<close>

unbundle bit_operations_syntax

section \<open>Bytes and addresses\<close>

text \<open>\<open>char\<close> is signed, so \<open>high\<close> and \<open>low\<close> are sign-extended to \<open>int\<close> first.\<close>

definition char2Short :: "byte \<Rightarrow> byte \<Rightarrow> u16" where
  "char2Short high low =
     ucast (push_bit 8 (0 OR (scast high :: u32)) OR ((scast low :: u32) AND 0xFF))"

lemma scast_low_byte: "(scast (l :: byte) :: u32) AND 0xFF = ucast l"
proof (rule bit_word_eqI)
  fix n :: nat
  have "min 7 n = n" if "bit l n" using bit_imp_le_length [OF that] by simp
  then show "bit ((scast l :: u32) AND 0xFF) n \<longleftrightarrow> bit (ucast l :: u32) n"
    unfolding word_masks by (auto simp: bit_simps dest: bit_imp_le_length)
qed

lemma char2Short_be: "char2Short h l = push_bit 8 (ucast h) OR ucast l"
  unfolding char2Short_def scast_low_byte
  by (rule bit_word_eqI) (auto simp: bit_simps dest: bit_imp_le_length)

lemma char2Short_be16 [simp]: "char2Short (ucast (drop_bit 8 w)) (ucast w) = w"
  unfolding char2Short_be by (rule bit_word_eqI) (auto simp: bit_simps)

definition string2inet4address :: "string_t \<Rightarrow> u32 res" where
  "string2inet4address address =
     bindE (arr_get address 0) (\<lambda>a0. bindE (arr_get address 1) (\<lambda>a1.
     bindE (arr_get address 2) (\<lambda>a2. bindE (arr_get address 3) (\<lambda>a3.
     let high = char2Short a0 a1; low = char2Short a2 a3
     in Inr (push_bit 16 (0 OR ucast high) OR (ucast low AND 0xFFFF))))))"

definition string2inet6address :: "string_t \<Rightarrow> byte list res" where
  "string2inet6address address = arr_read address 0 16"

lemma shorts_to_int:
  "push_bit 16 (ucast (char2Short a b) :: u32) OR (ucast (char2Short c d) AND 0xFFFF)
     = of_le32 d c b a"
  unfolding char2Short_be of_le32_def word_masks
  by (rule bit_word_eqI) (auto simp: bit_simps dest: bit_imp_le_length)

lemma string2inet4address_4:
  "string2inet4address [a, b, c, d] = Inr (of_le32 d c b a)"
  by (simp add: string2inet4address_def arr_get_def shorts_to_int Let_def numeral_2_eq_2 numeral_3_eq_3)

lemma string2inet4address_short: "length s < 4 \<Longrightarrow> string2inet4address s = Inl Out_Of_Bounds"
  by (auto simp: string2inet4address_def arr_get_def)

section \<open>Addresses as text\<close>

text \<open>The bytes of the address in memory are reversed, so the text has the top byte first.\<close>

definition inet4_divide :: "u32 \<Rightarrow> byte list" where
  "inet4_divide address = map (\<lambda>i. le32 address ! (3 - i)) [0..<4]"

definition inet4_step :: "byte list \<Rightarrow> nat \<Rightarrow> cells \<times> nat \<Rightarrow> (cells \<times> nat) res" where
  "inet4_step octets i = (\<lambda>(resultValue, pos).
     let numStr = take 3 (dec_digits (unat (octets ! i)))
     in bindE (cells_write resultValue pos numStr) (\<lambda>resultValue.
        let pos = pos + length numStr
        in if i < 3 then
             bindE (cells_write resultValue pos (ascii ''.'')) (\<lambda>resultValue.
             Inr (resultValue, pos + 1))
           else Inr (resultValue, pos)))"

definition inet4address2string :: "u32 \<Rightarrow> string_t res" where
  "inet4address2string address =
     bindE (forE 4 0 (inet4_step (inet4_divide address)) (malloc_cells 20, 0))
       (\<lambda>(resultValue, pos). cells_read resultValue 0 pos)"

definition inet6_step :: "byte list \<Rightarrow> nat \<Rightarrow> cells \<times> nat \<Rightarrow> (cells \<times> nat) res" where
  "inet6_step address i = (\<lambda>(resultValue, pos).
     bindE (arr_get address i) (\<lambda>num.
     let numStr = take 2 (hex2 num)
     in bindE (cells_write resultValue pos numStr) (\<lambda>resultValue.
        let pos = pos + length numStr
        in if i < 15 \<and> i mod 2 = 1 then
             bindE (cells_write resultValue pos (ascii '':'')) (\<lambda>resultValue.
             Inr (resultValue, pos + 1))
           else Inr (resultValue, pos))))"

definition inet6address2string :: "byte list \<Rightarrow> string_t res" where
  "inet6address2string address =
     bindE (forE 16 0 (inet6_step address) (malloc_cells 60, 0))
       (\<lambda>(resultValue, pos). cells_read resultValue 0 pos)"

lemma inet4_divide_be32: "inet4_divide address = be32 address"
  by (simp add: inet4_divide_def le32_def be32_def upt_rec numeral_2_eq_2 numeral_3_eq_3)

lemma byte_digits:
  "take 3 (dec_digits (unat (b :: byte))) = dec_digits (unat b)" "length (dec_digits (unat b)) \<le> 3"
  using dec_digits_length_byte [of "unat b"] unsigned_less [of b, where 'a = nat] by simp_all

text \<open>Dotted decimal, most significant byte first; the 20 bytes of the buffer are enough.\<close>

lemma inet4address2string_text:
  "inet4address2string address =
     (let d = (\<lambda>i. dec_digits (unat (be32 address ! i)))
      in Inr (d 0 @ ascii ''.'' @ d 1 @ ascii ''.'' @ d 2 @ ascii ''.'' @ d 3))"
proof -
  have len: "length (dec_digits (unat (be32 address ! i))) \<le> 3" for i
    by (rule byte_digits)
  have a: "length (ascii ''.'') = 1" by (simp add: ascii_def)
  have four: "forE 4 0 f s = bindE (f 0 s) (\<lambda>s. bindE (f 1 s) (\<lambda>s. bindE (f 2 s) (f 3)))"
    for f :: "nat \<Rightarrow> cells \<times> nat \<Rightarrow> (cells \<times> nat) res" and s
    by (simp add: eval_nat_numeral forE_Suc_fun)
  note l0 = len [of 0] and l1 = len [of 1] and l2 = len [of 2] and l3 = len [of 3]
  show ?thesis
    unfolding inet4address2string_def inet4_divide_be32 four filled_Nil [symmetric]
    using l0 l1 l2 l3
    by (simp add: inet4_step_def byte_digits(1) arr_simps a Let_def)
qed

fun inet6_text :: "byte list \<Rightarrow> nat \<Rightarrow> byte list" where
  "inet6_text address 0 = []"
| "inet6_text address (Suc k) =
     inet6_text address k @ hex2 (address ! k) @
       (if k < 15 \<and> k mod 2 = 1 then ascii '':'' else [])"

lemma length_inet6_text: "length (inet6_text address k) \<le> 3 * k"
  by (induction k) (auto simp: hex2_def ascii_def)

lemma inet6address2string_text:
  assumes "16 \<le> length address"
  shows "inet6address2string address = Inr (inet6_text address 16)"
proof -
  let ?I = "\<lambda>k (buf, pos). buf = filled 60 (inet6_text address k)
      \<and> pos = length (inet6_text address k)"
  have "\<exists>st'. inet6_step address k st = Inr st' \<and> ?I (Suc k) st'"
    if "?I k st" "k < 0 + 16" for k st
    using that assms length_inet6_text [of address k]
    by (cases st) (auto simp: inet6_step_def arr_simps hex2_def ascii_def)
  then obtain st where "forE 16 0 (inet6_step address) (malloc_cells 60, 0) = Inr st" "?I 16 st"
    using forE_rule [of ?I 0 "(malloc_cells 60, 0)" 16 "inet6_step address"]
    by (auto simp: filled_Nil)
  then show ?thesis
    by (cases st) (simp add: inet6address2string_def arr_simps)
qed

section \<open>Callbacks given to libuv\<close>

record uv_buf_t =
  buf_base :: cells
  buf_len :: nat

text \<open>libuv asks for 64 KB; the memory is indeterminate until a datagram is copied into it.\<close>

definition udp_alloc_buffer :: "nat \<Rightarrow> uv_buf_t" where
  "udp_alloc_buffer suggest_size = \<lparr>buf_base = malloc_cells suggest_size, buf_len = suggest_size\<rparr>"

text \<open>The request is freed in either case; a failed send is only logged.\<close>

definition udp_on_send :: "int \<Rightarrow> int option" where
  "udp_on_send status = (if status \<noteq> 0 then Some status else None)"

section \<open>Byte swaps\<close>

definition swap16 :: "u16 \<Rightarrow> u16" where
  "swap16 x = ucast (push_bit 8 (ucast x :: u32) OR drop_bit 8 (ucast x :: u32))"

definition swap32 :: "u32 \<Rightarrow> u32" where
  "swap32 x =
     (let x = push_bit 16 x OR drop_bit 16 x
      in push_bit 8 (x AND 0x00FF00FF) OR (drop_bit 8 x AND 0x00FF00FF))"

definition swap64 :: "u64 \<Rightarrow> u64" where
  "swap64 x =
     (let x = push_bit 32 x OR drop_bit 32 x;
          x = push_bit 16 (x AND 0x0000FFFF0000FFFF) OR (drop_bit 16 x AND 0x0000FFFF0000FFFF)
      in push_bit 8 (x AND 0x00FF00FF00FF00FF) OR (drop_bit 8 x AND 0x00FF00FF00FF00FF))"

lemma le16_swap16: "le16 (swap16 w) = be16 w"
proof -
  have "(ucast (swap16 w) :: byte) = ucast (drop_bit 8 w)"
    unfolding swap16_def
    by (rule bit_word_eqI) (auto simp: bit_simps dest: bit_imp_le_length)
  moreover have "(ucast (drop_bit 8 (swap16 w)) :: byte) = ucast w"
    unfolding swap16_def
    by (rule bit_word_eqI) (auto simp: bit_simps dest: bit_imp_le_length)
  ultimately show ?thesis by (simp add: le16_def be16_def)
qed

lemma swap16_involution: "swap16 (swap16 w) = w"
  unfolding swap16_def
  by (rule bit_word_eqI) (auto simp: bit_simps dest: bit_imp_le_length)

text \<open>The masks of the wider swaps select every other byte, and every other half-word.\<close>

lemma swap_masks:
  "(0x00FF00FF :: u32) = mask 8 OR push_bit 16 (mask 8)"
  "(0x0000FFFF0000FFFF :: u64) = mask 16 OR push_bit 32 (mask 16)"
  "(0x00FF00FF00FF00FF :: u64) =
     mask 8 OR push_bit 16 (mask 8) OR push_bit 32 (mask 8) OR push_bit 48 (mask 8)"
  by (simp_all add: mask_eq_exp_minus_1 push_bit_eq_mult)

lemma bit_swap32: "bit (swap32 x) n \<longleftrightarrow> n < 32 \<and> bit x (8 * (3 - n div 8) + n mod 8)"
proof (cases "n < 32")
  case True
  then consider "n < 8" | "8 \<le> n" "n < 16" | "16 \<le> n" "n < 24" | "24 \<le> n" "n < 32"
    by force
  then show ?thesis
  proof cases
    case 1
    then have "n div 8 = 0" "n mod 8 = n" by auto
    with 1 show ?thesis unfolding swap32_def swap_masks by (auto simp: bit_simps add.commute dest: bit_imp_le_length)
  next
    case 2
    then have "n div 8 = 1" "n mod 8 = n - 8" by (auto simp: mod_if div_if)
    with 2 show ?thesis unfolding swap32_def swap_masks by (auto simp: bit_simps add.commute dest: bit_imp_le_length)
  next
    case 3
    then have "n div 8 = 2" "n mod 8 = n - 16" by (auto simp: mod_if div_if)
    with 3 show ?thesis unfolding swap32_def swap_masks by (auto simp: bit_simps add.commute dest: bit_imp_le_length)
  next
    case 4
    then have "n div 8 = 3" "n mod 8 = n - 24" by (auto simp: mod_if div_if)
    with 4 show ?thesis unfolding swap32_def swap_masks by (auto simp: bit_simps add.commute dest: bit_imp_le_length)
  qed
qed (auto dest: bit_imp_le_length)

lemma bit_swap32_byte:
  "n < 8 \<Longrightarrow> j < 4 \<Longrightarrow> bit (swap32 x) (8 * j + n) \<longleftrightarrow> bit x (8 * (3 - j) + n)"
  by (simp add: bit_swap32)

lemma swap32_byte:
  assumes "j < 4"
  shows "(ucast (drop_bit (8 * j) (swap32 w)) :: byte) = ucast (drop_bit (8 * (3 - j)) w)"
  using assms by (intro bit_word_eqI) (simp add: bit_simps bit_swap32_byte)

lemma le32_swap32: "le32 (swap32 w) = be32 w"
  using swap32_byte [of 0 w] swap32_byte [of 1 w] swap32_byte [of 2 w] swap32_byte [of 3 w]
  by (simp add: le32_def be32_def)

end
