(* ===== verification/Message.thy ===== *)
theory Message
  imports Utils
begin

text \<open>
  The DNS message of \<open>src/include/message.h\<close> and \<open>resource_record.h\<close> and its decoder in
  \<open>src/src/message.c\<close>: the header, the question section, compressed names, resource records of type
  A, CNAME and AAAA, and \<open>buf2message\<close> over all of them.

  A datagram is a buffer of cells: the bytes received, then memory libuv allocated and nobody wrote.
  Reading past the received bytes is therefore \<^const>\<open>Uninitialised\<close> or \<^const>\<open>Out_Of_Bounds\<close>. The
  names are collected in arrays of 512 bytes on the stack, written without a bounds check in C and
  with one here, so a name that is too long is \<^const>\<open>Out_Of_Bounds\<close>.
\<close>

unbundle bit_operations_syntax

section \<open>Data\<close>

record flags_t =
  QR :: byte
  Opcode :: byte
  AA :: byte
  TC :: byte
  RD :: byte
  RA :: byte
  Z :: byte
  RCODE :: byte

record query_t =
  q_name :: string_t
  q_type :: u16
  q_class :: u16

text \<open>
  \<open>void *response_data\<close> points to an \<open>int\<close>, a \<open>string_t\<close> or 16 bytes, by the type of the record; for
  other types the pointer is never set.
\<close>

datatype rdata_t = Address4 u32 | Cname string_t | Address6 "byte list" | Unset

record resource_record_t =
  rr_name :: string_t
  rr_type :: u16
  rr_class :: u16
  rr_ttl :: u32
  rr_length :: u16
  rr_data :: rdata_t

text \<open>The pointers to the sections are \<open>None\<close> while they are null or were never set.\<close>

record message_t =
  msg_id :: u16
  msg_flags :: flags_t
  query_count :: u16
  answer_count :: u16
  authority_count :: u16
  additional_count :: u16
  queries :: "query_t list option"
  answers :: "resource_record_t list option"
  authorities :: "resource_record_t list option"
  additional :: "resource_record_t list option"

datatype RR_TYPE = Header | Question | Answer | Authority | Additional

section \<open>Reading the buffer\<close>

definition rd :: "cells \<Rightarrow> nat \<Rightarrow> byte res" where
  "rd buf i = bindE (arr_get buf i) (or_fail Uninitialised)"

definition rd_short :: "cells \<Rightarrow> nat \<Rightarrow> u16 res" where
  "rd_short buf i = bindE (rd buf i) (\<lambda>a. bindE (rd buf (i + 1)) (\<lambda>b. Inr (char2Short a b)))"

section \<open>Header\<close>

text \<open>\<open>char2bit\<close>: the bits of a \<open>char\<close>, most significant first.\<close>

definition char2bit :: "byte \<Rightarrow> byte list" where
  "char2bit ch = map (\<lambda>i. ucast (signed_drop_bit (7 - i) (scast ch :: u32) AND 1)) [0..<8]"

definition bits_flags :: "byte list \<Rightarrow> flags_t" where
  "bits_flags f =
     \<lparr>QR = f ! 0,
      Opcode = push_bit 3 (f ! 1) + push_bit 2 (f ! 2) + push_bit 1 (f ! 3) + f ! 4,
      AA = f ! 5, TC = f ! 6, RD = f ! 7, RA = f ! 8,
      Z = push_bit 2 (f ! 9) + push_bit 1 (f ! 10) + f ! 11,
      RCODE = push_bit 3 (f ! 12) + push_bit 2 (f ! 13) + push_bit 1 (f ! 14) + f ! 15\<rparr>"

definition buf2messageHeader :: "cells \<Rightarrow> message_t res" where
  "buf2messageHeader buf =
     bindE (rd_short buf 0) (\<lambda>ident.
     bindE (rd buf 2) (\<lambda>b2. bindE (rd buf 3) (\<lambda>b3.
     bindE (rd_short buf 4) (\<lambda>qd. bindE (rd_short buf 6) (\<lambda>an.
     bindE (rd_short buf 8) (\<lambda>ns. bindE (rd_short buf 10) (\<lambda>ar.
     Inr \<lparr>msg_id = ident, msg_flags = bits_flags (char2bit b2 @ char2bit b3), query_count = qd,
          answer_count = an, authority_count = ns, additional_count = ar, queries = None,
          answers = None, authorities = None, additional = None\<rparr>)))))))"

section \<open>Names\<close>

definition dot :: byte where
  "dot = 46"

text \<open>The inner loop of both name parsers: copy \<open>n\<close> letters.\<close>

definition copy_letters :: "cells \<Rightarrow> nat \<Rightarrow> byte list \<Rightarrow> nat \<Rightarrow> nat \<Rightarrow> byte list res" where
  "copy_letters buf bufPos arr pos n =
     forE n 0 (\<lambda>k arr. bindE (rd buf (bufPos + k)) (\<lambda>b. arr_set arr (pos + k) b)) arr"

text \<open>One label: its letters, then a dot.\<close>

definition copy_label :: "cells \<Rightarrow> nat \<Rightarrow> byte list \<Rightarrow> nat \<Rightarrow> nat \<Rightarrow> byte list res" where
  "copy_label buf bufPos arr pos n =
     bindE (copy_letters buf bufPos arr pos n) (\<lambda>arr. arr_set arr (pos + n) dot)"

lemma rd_bound: "rd buf i = Inr b \<Longrightarrow> i < length buf"
  by (simp add: rd_def res_simps)

text \<open>The loop over the labels of a \<open>QNAME\<close>; it does not know compression.\<close>

function qname_loop :: "cells \<Rightarrow> nat \<Rightarrow> byte list \<Rightarrow> nat \<Rightarrow> (nat \<times> byte list \<times> nat) res" where
  "qname_loop buf bufPos QValue QValuePos =
     bindE (rd buf bufPos) (\<lambda>c.
     if c = 0 then Inr (bufPos, QValue, QValuePos)
     else
       let letterLength = unat c; bufPos = bufPos + 1 in
       bindE (copy_label buf bufPos QValue QValuePos letterLength) (\<lambda>QValue.
       qname_loop buf (bufPos + letterLength) QValue (QValuePos + letterLength + 1)))"
  by pat_completeness auto
termination
  by (relation "measure (\<lambda>(buf, bufPos, _). length buf - bufPos)") (auto dest: rd_bound)

declare qname_loop.simps [simp del]

text \<open>
  \<open>QValue[QValuePos - 1] = 0\<close> and the copy of the first \<open>QValuePos - 1\<close> bytes: for the root name
  \<open>QValuePos\<close> is 0 and both go wrong.
\<close>

definition finish_name :: "byte list \<Rightarrow> nat \<Rightarrow> byte list res" where
  "finish_name arr pos = (if pos = 0 then Inl Out_Of_Bounds else arr_set arr (pos - 1) 0)"

definition question_step :: "cells \<Rightarrow> nat \<Rightarrow> nat \<times> query_t list \<Rightarrow> (nat \<times> query_t list) res" where
  "question_step buf entryNum = (\<lambda>(bufPos, qs).
     bindE (qname_loop buf bufPos (replicate 512 0) 0) (\<lambda>(bufPos, QValue, QValuePos).
     bindE (finish_name QValue QValuePos) (\<lambda>QValue.
     bindE (string_malloc QValue 0 (int QValuePos - 1)) (\<lambda>nm.
     let bufPos = bufPos + 1 in
     bindE (rd_short buf bufPos) (\<lambda>ty.
     bindE (rd_short buf (bufPos + 2)) (\<lambda>cl.
     Inr (bufPos + 4, qs @ [\<lparr>q_name = nm, q_type = ty, q_class = cl\<rparr>])))))))"

text \<open>Returns the message and what is added to \<open>*endPos\<close>; \<open>buf\<close> starts at the section.\<close>

definition buf2messageQuestion :: "cells \<Rightarrow> message_t \<Rightarrow> (message_t \<times> nat) res" where
  "buf2messageQuestion buf message =
     bindE (forE (unat (query_count message)) 0 (question_step buf) (0, [])) (\<lambda>(bufPos, qs).
     Inr (message\<lparr>queries := Some qs\<rparr>, bufPos))"

text \<open>
  \<open>createName\<close> follows compression pointers by recursion, on the same array and position, and then
  returns the position after the pointer. A pointer may lead anywhere, so the recursion need not
  end; \<open>fuel\<close> bounds its steps, and \<open>createName_fuel\<close> is enough for every run that ends (theory
  \<open>Message_Names\<close>).
\<close>

fun createName :: "nat \<Rightarrow> cells \<Rightarrow> nat \<Rightarrow> byte list \<Rightarrow> nat \<Rightarrow> (nat \<times> byte list \<times> nat) res" where
  "createName 0 buf bufPos Name namePos = Inl Diverges"
| "createName (Suc fuel) buf bufPos Name namePos =
     bindE (rd buf bufPos) (\<lambda>c.
     if c = 0 then Inr (bufPos, Name, namePos)
     else if c AND 0xC0 = 0xC0 then
       let high = 0 OR (c AND 0x3F); bufPos = bufPos + 1 in
       bindE (rd buf bufPos) (\<lambda>low.
       let offset = char2Short high low in
       bindE (createName fuel buf (unat offset) Name namePos) (\<lambda>(_, Name, namePos).
       Inr (bufPos, Name, namePos)))
     else
       let letterLength = unat c; bufPos = bufPos + 1 in
       bindE (copy_label buf bufPos Name namePos letterLength) (\<lambda>Name.
       createName fuel buf (bufPos + letterLength) Name (namePos + letterLength + 1)))"

declare createName.simps [simp del]

definition createName_fuel :: "cells \<Rightarrow> nat" where
  "createName_fuel buf = Suc (513 * length buf)"

section \<open>Resource records\<close>

text \<open>
  The body of the \<open>while\<close> loop sets \<open>currentLength\<close> to \<open>length\<close>, so the loop runs once when
  \<open>length\<close> is positive and not at all otherwise.
\<close>

definition createRDataAddress ::
    "cells \<Rightarrow> nat \<Rightarrow> byte list \<Rightarrow> nat \<Rightarrow> nat \<Rightarrow> (nat \<times> byte list \<times> nat) res" where
  "createRDataAddress buf bufPos RData RDataPos len =
     (if 0 < len then
        bindE (copy_letters buf bufPos RData RDataPos len) (\<lambda>RData.
        Inr (bufPos + len - 1, RData, RDataPos + len + 1))
      else Inr (bufPos - 1, RData, RDataPos))"

definition createRData ::
    "cells \<Rightarrow> nat \<Rightarrow> byte list \<Rightarrow> nat \<Rightarrow> u16 \<Rightarrow> nat \<Rightarrow> (nat \<times> byte list \<times> nat) res" where
  "createRData buf bufPos RData RDataPos ty len =
     (if ty = 1 then createRDataAddress buf bufPos RData RDataPos len
      else if ty = 5 then createName (createName_fuel buf) buf bufPos RData RDataPos
      else if ty = 28 then createRDataAddress buf bufPos RData RDataPos len
      else Inr (bufPos + len - 1, RData, RDataPos))"

text \<open>
  The name of a record goes through \<open>strcpy\<close> into an array of \<open>namePos\<close> bytes, which stops at a zero
  byte; the copy that follows takes all \<open>namePos - 1\<close> bytes.
\<close>

definition rr_name_string :: "byte list \<Rightarrow> nat \<Rightarrow> string_t res" where
  "rr_name_string Name namePos =
     bindE (finish_name Name namePos) (\<lambda>Name.
     bindE (cells_write (malloc_cells namePos) 0 (c_str Name @ [0])) (\<lambda>result.
     cells_read result 0 (namePos - 1)))"

definition rr_payload :: "u16 \<Rightarrow> byte list \<Rightarrow> nat \<Rightarrow> rdata_t res" where
  "rr_payload ty RData RDataPos =
     (if ty = 1 then
        bindE (finish_name RData RDataPos) (\<lambda>RData.
        bindE (arr_read RData 0 (RDataPos - 1)) (\<lambda>v.
        bindE (string2inet4address v) (\<lambda>a. Inr (Address4 a))))
      else if ty = 5 then
        bindE (finish_name RData RDataPos) (\<lambda>RData.
        bindE (arr_read RData 0 RDataPos) (\<lambda>v. Inr (Cname (take (RDataPos - 1) v))))
      else if ty = 28 then
        bindE (finish_name RData RDataPos) (\<lambda>RData.
        bindE (arr_read RData 0 (RDataPos - 1)) (\<lambda>v.
        bindE (string2inet6address v) (\<lambda>a. Inr (Address6 a))))
      else Inr Unset)"

definition rd_ttl :: "cells \<Rightarrow> nat \<Rightarrow> u32 res" where
  "rd_ttl buf bufPos =
     bindE (rd_short buf bufPos) (\<lambda>hi. bindE (rd_short buf (bufPos + 2)) (\<lambda>lo.
     Inr (push_bit 16 (0 OR ucast hi) OR (ucast lo AND 0xFFFF))))"

definition rr_step ::
    "cells \<Rightarrow> nat \<Rightarrow> nat \<times> resource_record_t list \<Rightarrow> (nat \<times> resource_record_t list) res" where
  "rr_step buf entryNum = (\<lambda>(bufPos, rrs).
     bindE (createName (createName_fuel buf) buf bufPos (replicate 512 0) 0)
       (\<lambda>(bufPos, Name, namePos).
     bindE (rr_name_string Name namePos) (\<lambda>nm.
     let bufPos = bufPos + 1 in
     bindE (rd_short buf bufPos) (\<lambda>ty.
     bindE (rd_short buf (bufPos + 2)) (\<lambda>cl.
     bindE (rd_ttl buf (bufPos + 4)) (\<lambda>tt.
     bindE (rd_short buf (bufPos + 8)) (\<lambda>dl.
     bindE (createRData buf (bufPos + 10) (replicate 512 0) 0 ty (unat dl))
       (\<lambda>(bufPos, RData, RDataPos).
     bindE (rr_payload ty RData RDataPos) (\<lambda>pay.
     Inr (bufPos + 1,
          rrs @ [\<lparr>rr_name = nm, rr_type = ty, rr_class = cl, rr_ttl = tt,
                  rr_length = dl, rr_data = pay\<rparr>]))))))))))"

text \<open>Only the \<open>Answer\<close> call is ever made; the other sections are ignored by the program.\<close>

definition buf2messageRR :: "cells \<Rightarrow> message_t \<Rightarrow> nat \<Rightarrow> RR_TYPE \<Rightarrow> message_t res" where
  "buf2messageRR buf message endPos ty =
     (let resourceRecordCount = (case ty of
            Answer \<Rightarrow> unat (answer_count message)
          | Authority \<Rightarrow> unat (authority_count message)
          | Additional \<Rightarrow> unat (additional_count message)
          | _ \<Rightarrow> 0)
      in bindE (forE resourceRecordCount 0 (rr_step buf) (endPos, [])) (\<lambda>(_, rrs).
         Inr (case ty of
            Answer \<Rightarrow> message\<lparr>answers := Some rrs\<rparr>
          | Authority \<Rightarrow> message\<lparr>authorities := Some rrs\<rparr>
          | Additional \<Rightarrow> message\<lparr>additional := Some rrs\<rparr>
          | _ \<Rightarrow> message)))"

section \<open>The decoder\<close>

definition buf2message :: "uv_buf_t \<Rightarrow> message_t res" where
  "buf2message buf =
     bindE (buf2messageHeader (buf_base buf)) (\<lambda>message.
     let endPos = 12 in
     bindE (if endPos < buf_len buf
            then bindE (buf2messageQuestion (drop endPos (buf_base buf)) message)
                   (\<lambda>(message, n). Inr (message, endPos + n))
            else Inr (message, endPos)) (\<lambda>(message, endPos).
     if answer_count message > 0 then buf2messageRR (buf_base buf) message endPos Answer
     else Inr message))"

end
