(* ===== verification/Message_Encode.thy ===== *)
theory Message_Encode
  imports Message
begin

text \<open>
  The encoder half of \<open>src/src/message.c\<close>: \<open>dec2bin\<close>, \<open>name2message\<close>, the header, question and answer
  writers, \<open>message2buf\<close>, and the feature string a request is filed under.

  The output lives in 1500 bytes from \<open>malloc\<close>, so it is modelled as cells: a write past the end is
  \<^const>\<open>Out_Of_Bounds\<close>, and a byte that was never written stays \<open>None\<close>. A section writer gets the
  offset \<open>start\<close> of the pointer it is handed in C (\<open>&buf->base[endPos]\<close>) and the running \<open>endPos\<close>.
\<close>

unbundle bit_operations_syntax

section \<open>Bits\<close>

text \<open>The digits, least significant first, stored from \<open>pos\<close> on; then the array is reversed.\<close>

function dec2bin_digits :: "int \<Rightarrow> int list \<Rightarrow> nat \<Rightarrow> int list res" where
  "dec2bin_digits d bin pos =
     (if d > 0 then
        bindE (arr_set bin pos (d mod 2)) (\<lambda>bin. dec2bin_digits (d div 2) bin (pos + 1))
      else Inr bin)"
  by pat_completeness auto
termination
  by (relation "measure (\<lambda>(d, _, _). nat d)") auto

declare dec2bin_digits.simps [simp del]

definition swap_ends :: "nat \<Rightarrow> nat \<Rightarrow> int list \<Rightarrow> int list res" where
  "swap_ends n i bin =
     bindE (arr_get bin (n - i - 1)) (\<lambda>temp.
     bindE (arr_get bin i) (\<lambda>b.
     bindE (arr_set bin (n - i - 1) b) (\<lambda>bin. arr_set bin i temp)))"

definition dec2bin :: "int \<Rightarrow> int list \<Rightarrow> nat \<Rightarrow> int list res" where
  "dec2bin d bin n = bindE (dec2bin_digits d bin 0) (forE (n div 2) 0 (swap_ends n))"

section \<open>Names on the wire\<close>

text \<open>
  \<open>sprintf(current, "%c%s", length, print)\<close> writes the length byte, the characters up to the first
  zero byte, and a terminator; \<open>current\<close> then moves on by the full length of the label.
\<close>

definition name_step ::
    "split_array_t \<Rightarrow> nat \<Rightarrow> cells \<times> nat \<Rightarrow> (cells \<times> nat) res" where
  "name_step token i = (\<lambda>(output, current).
     bindE (arr_get (array token) i) (\<lambda>cell.
     bindE (or_fail Uninitialised cell) (\<lambda>label.
     let text = c_str (string_print label) in
     bindE (cells_write output current (of_nat (length label) # text @ [0])) (\<lambda>output.
     Inr (output, current + length label + 1)))))"

definition name2message :: "string_t \<Rightarrow> cells res" where
  "name2message domain_name =
     bindE (string_split domain_name dot) (\<lambda>token.
     bindE (forE (split_length token) 0 (name_step token)
              (malloc_cells (2 * length domain_name + 2), 0)) (\<lambda>(output, current).
     bindE (cells_write output current [0]) (\<lambda>output.
     cells_write output (current + 1) [0])))"

text \<open>The copy into a local array and from there into the packet, \<open>length + 2\<close> bytes each.\<close>

definition put_name :: "cells \<Rightarrow> nat \<Rightarrow> string_t \<Rightarrow> cells res" where
  "put_name buf pos name =
     bindE (name2message name) (\<lambda>transfer.
     bindE (cells_read transfer 0 (length name + 2)) (\<lambda>bytes.
     cells_write buf pos bytes))"

text \<open>\<open>memcpy\<close> of a short or an int, then the swap in place.\<close>

definition put_short :: "cells \<Rightarrow> nat \<Rightarrow> u16 \<Rightarrow> cells res" where
  "put_short buf pos w =
     bindE (cells_write buf pos (le16 w)) (\<lambda>buf.
     bindE (cells_read buf pos 2) (\<lambda>bs.
     cells_write buf pos (le16 (swap16 (of_le16 (bs ! 0) (bs ! 1))))))"

definition put_int :: "cells \<Rightarrow> nat \<Rightarrow> u32 \<Rightarrow> cells res" where
  "put_int buf pos w =
     bindE (cells_write buf pos (le32 w)) (\<lambda>buf.
     bindE (cells_read buf pos 4) (\<lambda>bs.
     cells_write buf pos (le32 (swap32 (of_le32 (bs ! 0) (bs ! 1) (bs ! 2) (bs ! 3))))))"

section \<open>Header\<close>

text \<open>\<open>flags[0] |= flagsBitA[7 - i] << i\<close> for \<open>i\<close> from 0 to 7; the bits are \<open>int\<close>s.\<close>

definition pack_bits :: "int list \<Rightarrow> byte" where
  "pack_bits bits =
     foldl (\<lambda>f i. ucast ((scast f :: u32) OR push_bit i (word_of_int (bits ! (7 - i))))) 0 [0..<8]"

definition flag_bytes :: "flags_t \<Rightarrow> byte list res" where
  "flag_bytes f =
     bindE (dec2bin (sint (Opcode f)) (replicate 4 0) 4) (\<lambda>op.
     bindE (dec2bin (sint (RCODE f)) (replicate 4 0) 4) (\<lambda>rc.
     let flagsBitA = [sint (QR f), op ! 0, op ! 1, op ! 2, op ! 3,
                      sint (AA f), sint (TC f), sint (RD f)];
         flagsBitB = [sint (RA f), sint (Z f), sint (Z f), sint (Z f),
                      rc ! 0, rc ! 1, rc ! 2, rc ! 3]
     in Inr [pack_bits flagsBitA, pack_bits flagsBitB]))"

text \<open>Every section writer returns the packet and the new \<open>endPos\<close>.\<close>

definition message2bufHeader :: "cells \<Rightarrow> nat \<Rightarrow> message_t \<Rightarrow> (cells \<times> nat) res" where
  "message2bufHeader buf start message =
     bindE (put_short buf start (msg_id message)) (\<lambda>buf.
     bindE (flag_bytes (msg_flags message)) (\<lambda>fs.
     bindE (cells_write buf (start + 2) fs) (\<lambda>buf.
     bindE (put_short buf (start + 4) (query_count message)) (\<lambda>buf.
     bindE (put_short buf (start + 6) (answer_count message)) (\<lambda>buf.
     bindE (put_short buf (start + 8) (authority_count message)) (\<lambda>buf.
     bindE (put_short buf (start + 10) (additional_count message)) (\<lambda>buf.
     Inr (buf, 10 + 2))))))))"

section \<open>Question section\<close>

text \<open>
  After the class is written \<open>bufPos\<close> is left on it, so a second entry starts two bytes early; and
  each round adds the whole \<open>bufPos + 2\<close> to \<open>*endPos\<close>.
\<close>

definition put_query ::
    "message_t \<Rightarrow> nat \<Rightarrow> nat \<Rightarrow> cells \<times> nat \<times> nat \<Rightarrow> (cells \<times> nat \<times> nat) res" where
  "put_query message start entryNum = (\<lambda>(buf, bufPos, endPos).
     bindE (or_fail Uninitialised (queries message)) (\<lambda>qs.
     bindE (arr_get qs entryNum) (\<lambda>q.
     bindE (put_name buf (start + bufPos) (q_name q)) (\<lambda>buf.
     let bufPos = bufPos + length (q_name q) + 2 in
     bindE (put_short buf (start + bufPos) (q_type q)) (\<lambda>buf.
     let bufPos = bufPos + 2 in
     bindE (put_short buf (start + bufPos) (q_class q)) (\<lambda>buf.
     Inr (buf, bufPos, endPos + bufPos + 2)))))))"

definition message2bufQuestion ::
    "cells \<Rightarrow> nat \<Rightarrow> message_t \<Rightarrow> nat \<Rightarrow> (cells \<times> nat) res" where
  "message2bufQuestion buf start message endPos =
     bindE (forE (unat (query_count message)) 0 (put_query message start) (buf, 0, endPos))
       (\<lambda>(buf, bufPos, endPos). Inr (buf, endPos))"

section \<open>Answer section\<close>

text \<open>
  The length and the data of a record, after its ttl at \<open>bufPos\<close>. For a type other than A, CNAME and
  AAAA no case of either switch applies: \<open>bufPos\<close> moves two bytes into the ttl and nothing follows.
\<close>

definition put_rdata ::
    "resource_record_t \<Rightarrow> nat \<Rightarrow> cells \<Rightarrow> nat \<Rightarrow> (cells \<times> nat) res" where
  "put_rdata rr start buf bufPos =
     (case (rr_type rr = 1, rr_type rr = 5, rr_type rr = 28, rr_data rr) of
        (True, _, _, Address4 a) \<Rightarrow>
          bindE (put_short buf (start + bufPos + 4) (rr_length rr)) (\<lambda>buf.
          bindE (put_int buf (start + bufPos + 6) a) (\<lambda>buf.
          Inr (buf, bufPos + 6 + unat (rr_length rr))))
      | (_, True, _, Cname data) \<Rightarrow>
          bindE (put_short buf (start + bufPos + 4) (of_nat (length data + 2))) (\<lambda>buf.
          bindE (put_name buf (start + bufPos + 6) data) (\<lambda>buf.
          Inr (buf, bufPos + 6 + length data + 2)))
      | (_, _, True, Address6 data) \<Rightarrow>
          bindE (put_short buf (start + bufPos + 4) (rr_length rr)) (\<lambda>buf.
          bindE (arr_read data 0 16) (\<lambda>bytes.
          bindE (cells_write buf (start + bufPos + 6) bytes) (\<lambda>buf.
          Inr (buf, bufPos + 6 + unat (rr_length rr)))))
      | (False, False, False, _) \<Rightarrow> Inr (buf, bufPos + 2)
      | _ \<Rightarrow> Inl Uninitialised)"

definition put_record ::
    "message_t \<Rightarrow> nat \<Rightarrow> nat \<Rightarrow> cells \<times> nat \<Rightarrow> (cells \<times> nat) res" where
  "put_record message start entryNum = (\<lambda>(buf, bufPos).
     bindE (or_fail Null_Deref (answers message)) (\<lambda>rrs.
     bindE (arr_get rrs entryNum) (\<lambda>rr.
     bindE (put_name buf (start + bufPos) (rr_name rr)) (\<lambda>buf.
     let bufPos = bufPos + length (rr_name rr) + 2 in
     bindE (put_short buf (start + bufPos) (rr_type rr)) (\<lambda>buf.
     let bufPos = bufPos + 2 in
     bindE (put_short buf (start + bufPos) (rr_class rr)) (\<lambda>buf.
     let bufPos = bufPos + 2 in
     bindE (put_int buf (start + bufPos) (rr_ttl rr)) (\<lambda>buf.
     put_rdata rr start buf bufPos)))))))"

definition message2bufAnswer ::
    "cells \<Rightarrow> nat \<Rightarrow> message_t \<Rightarrow> nat \<Rightarrow> (cells \<times> nat) res" where
  "message2bufAnswer buf start message endPos =
     bindE (forE (unat (answer_count message)) 0 (put_record message start) (buf, 0))
       (\<lambda>(buf, bufPos). Inr (buf, endPos + bufPos))"

section \<open>The encoder\<close>

definition message2buf :: "message_t \<Rightarrow> uv_buf_t res" where
  "message2buf message =
     bindE (message2bufHeader (malloc_cells 1500) 0 message) (\<lambda>(buf, endPos).
     bindE (message2bufQuestion buf endPos message endPos) (\<lambda>(buf, endPos).
     bindE (if answer_count message > 0 then message2bufAnswer buf endPos message endPos
            else Inr (buf, endPos)) (\<lambda>(buf, endPos).
     Inr \<lparr>buf_base = buf, buf_len = endPos\<rparr>)))"

section \<open>Feature string\<close>

text \<open>
  The key of a request: name, class and type of every question, then the id; the shorts are copied
  in host order. The array has exactly the size the first loop computes.
\<close>

definition feature_length :: "message_t \<Rightarrow> query_t list \<Rightarrow> nat \<Rightarrow> nat \<Rightarrow> nat res" where
  "feature_length message qs i len = bindE (arr_get qs i) (\<lambda>q. Inr (len + length (q_name q) + 4))"

definition feature_step :: "query_t list \<Rightarrow> nat \<Rightarrow> cells \<times> nat \<Rightarrow> (cells \<times> nat) res" where
  "feature_step qs i = (\<lambda>(value, pos).
     bindE (arr_get qs i) (\<lambda>q.
     bindE (cells_write value pos (q_name q)) (\<lambda>value.
     let pos = pos + length (q_name q) in
     bindE (cells_write value pos (le16 (q_class q))) (\<lambda>value.
     let pos = pos + 2 in
     bindE (cells_write value pos (le16 (q_type q))) (\<lambda>value.
     Inr (value, pos + 2))))))"

definition message2feature_string :: "message_t \<Rightarrow> string_t res" where
  "message2feature_string message =
     (let n = unat (query_count message) in
      bindE (if n = 0 then Inr [] else or_fail Uninitialised (queries message)) (\<lambda>qs.
      bindE (forE n 0 (feature_length message qs) 2) (\<lambda>len.
      bindE (forE n 0 (feature_step qs) (malloc_cells len, 0)) (\<lambda>(value, pos).
      bindE (cells_write value pos (le16 (msg_id message))) (\<lambda>value.
      cells_read value 0 len)))))"

end
