(* ===== verification/Message_Wire.thy ===== *)
theory Message_Wire
  imports Message_Encode
begin

text \<open>
  The wire format as a specification, and the encoder proved against it. \<open>wire_message\<close> lists the
  bytes RFC 1035 asks for, without compression; \<open>message2buf\<close> produces exactly these bytes for a
  message with one question and records of the three supported types that fits the 1500 bytes. The
  theory also says what the encoder does where it departs from the format: a second question, and a
  record of another type.
\<close>

unbundle bit_operations_syntax

section \<open>Wire format\<close>

definition wire_labels :: "string_t list \<Rightarrow> byte list" where
  "wire_labels ls = concat (map (\<lambda>l. of_nat (length l) # l) ls)"

definition wire_name :: "string_t \<Rightarrow> byte list" where
  "wire_name nm = wire_labels (splits dot nm) @ [0]"

definition wire_query :: "query_t \<Rightarrow> byte list" where
  "wire_query q = wire_name (q_name q) @ be16 (q_type q) @ be16 (q_class q)"

definition wire_flags :: "flags_t \<Rightarrow> byte list" where
  "wire_flags f =
     (let b = (\<lambda>c. bit c 0); n = (\<lambda>v. map (\<lambda>i. bit v (3 - i)) [0..<4])
      in [pack_bits (map of_bool ([b (QR f)] @ n (Opcode f) @ [b (AA f), b (TC f), b (RD f)])),
          pack_bits (map of_bool ([b (RA f), b (Z f), b (Z f), b (Z f)] @ n (RCODE f)))])"

definition wire_header :: "message_t \<Rightarrow> byte list" where
  "wire_header m = be16 (msg_id m) @ wire_flags (msg_flags m) @ be16 (query_count m) @
     be16 (answer_count m) @ be16 (authority_count m) @ be16 (additional_count m)"

definition wire_rdata :: "resource_record_t \<Rightarrow> byte list" where
  "wire_rdata rr = (case rr_data rr of
     Address4 a \<Rightarrow> be16 (rr_length rr) @ be32 a
   | Cname d \<Rightarrow> be16 (of_nat (length d + 2)) @ wire_name d
   | Address6 bs \<Rightarrow> be16 (rr_length rr) @ bs
   | Unset \<Rightarrow> [])"

definition wire_rr_head :: "resource_record_t \<Rightarrow> byte list" where
  "wire_rr_head rr =
     wire_name (rr_name rr) @ be16 (rr_type rr) @ be16 (rr_class rr) @ be32 (rr_ttl rr)"

definition wire_rr :: "resource_record_t \<Rightarrow> byte list" where
  "wire_rr rr = wire_rr_head rr @ wire_rdata rr"

definition wire_message :: "message_t \<Rightarrow> byte list" where
  "wire_message m = wire_header m @ concat (map wire_query (the (queries m))) @
     (if answer_count m > 0 then concat (map wire_rr (the (answers m))) else [])"

text \<open>What the encoder needs of a name, of the flags and of a record.\<close>

definition name_ok :: "string_t \<Rightarrow> bool" where
  "name_ok nm \<longleftrightarrow> nm \<noteq> [] \<and> 0 \<notin> set nm"

definition flags_ok :: "flags_t \<Rightarrow> bool" where
  "flags_ok f \<longleftrightarrow> QR f \<in> {0, 1} \<and> unat (Opcode f) < 16 \<and> AA f \<in> {0, 1} \<and> TC f \<in> {0, 1} \<and>
     RD f \<in> {0, 1} \<and> RA f \<in> {0, 1} \<and> Z f \<in> {0, 1} \<and> unat (RCODE f) < 16"

definition rr_ok :: "resource_record_t \<Rightarrow> bool" where
  "rr_ok rr \<longleftrightarrow> name_ok (rr_name rr) \<and> (case rr_data rr of
     Address4 a \<Rightarrow> rr_type rr = 1 \<and> rr_length rr = 4
   | Cname d \<Rightarrow> rr_type rr = 5 \<and> name_ok d
   | Address6 bs \<Rightarrow> rr_type rr = 28 \<and> rr_length rr = 16 \<and> length bs = 16
   | Unset \<Rightarrow> False)"

definition encodable :: "message_t \<Rightarrow> bool" where
  "encodable m \<longleftrightarrow> flags_ok (msg_flags m) \<and>
     (\<exists>q. queries m = Some [q] \<and> query_count m = 1 \<and> name_ok (q_name q)) \<and>
     (answer_count m > 0 \<longrightarrow>
        (\<exists>rrs. answers m = Some rrs \<and> length rrs = unat (answer_count m) \<and> list_all rr_ok rrs)) \<and>
     length (wire_message m) \<le> 1500"

section \<open>Lengths\<close>

lemma wire_labels_simps [simp]:
  "wire_labels [] = []" "wire_labels (l # ls) = of_nat (length l) # l @ wire_labels ls"
  "wire_labels (ls @ ls') = wire_labels ls @ wire_labels ls'"
  by (simp_all add: wire_labels_def)

lemma length_wire_labels_splits: "length (wire_labels (splits sep nm)) = Suc (length nm)"
  by (induction nm) (auto split: list.splits)

lemma length_wire_name [simp]: "length (wire_name nm) = length nm + 2"
  by (simp add: wire_name_def length_wire_labels_splits)

lemma length_wire_flags [simp]: "length (wire_flags f) = 2"
  by (simp add: wire_flags_def Let_def)

lemma length_wire_header [simp]: "length (wire_header m) = 12"
  by (simp add: wire_header_def)

lemma length_wire_query [simp]: "length (wire_query q) = length (q_name q) + 6"
  by (simp add: wire_query_def)

lemma length_wire_rr_head [simp]: "length (wire_rr_head rr) = length (rr_name rr) + 10"
  by (simp add: wire_rr_head_def)

section \<open>Integers\<close>

lemma put_short_filled [arr_simps]:
  "length p + 2 \<le> cap \<Longrightarrow> i = length p \<Longrightarrow>
     put_short (filled cap p) i w = Inr (filled cap (p @ be16 w))"
  using cells_write_filled_over [of "le16 w" "be16 w" p cap i]
  by (simp add: put_short_def arr_simps le16_swap16 le16_def [of w] of_le16_le16)

lemma put_int_filled [arr_simps]:
  "length p + 4 \<le> cap \<Longrightarrow> i = length p \<Longrightarrow>
     put_int (filled cap p) i w = Inr (filled cap (p @ be32 w))"
  using cells_write_filled_over [of "le32 w" "be32 w" p cap i]
  by (simp add: put_int_def arr_simps le32_swap32 le32_def [of w] of_le32_le32
      numeral_2_eq_2 numeral_3_eq_3)

section \<open>Names\<close>

lemma name_step_filled:
  assumes ls: "ls = splits dot nm" and k: "k < length ls" and z: "0 \<notin> set nm"
  shows "name_step \<lparr>array = map Some ls, split_length = length ls\<rparr> k
      (filled (2 * length nm + 2) (wire_labels (take k ls) @ (if k = 0 then [] else [0])),
       length (wire_labels (take k ls))) =
    Inr (filled (2 * length nm + 2) (wire_labels (take (Suc k) ls) @ [0]),
         length (wire_labels (take (Suc k) ls)))"
proof -
  let ?w = "wire_labels (take k ls)" and ?l = "ls ! k"
  have suc: "wire_labels (take (Suc k) ls) = ?w @ of_nat (length ?l) # ?l"
    using k by (simp add: take_Suc_conv_app_nth)
  have "?l \<in> set (splits dot nm)" using k ls by simp
  then have l0: "0 \<notin> set ?l" using splits_pieces [of ?l dot nm] z by auto
  have "length (wire_labels ls) = length (wire_labels (take (Suc k) ls)) +
      length (wire_labels (drop (Suc k) ls))"
    by (metis append_take_drop_id length_append wire_labels_simps(3))
  then have len: "length ?w + Suc (length ?l) \<le> Suc (length nm)"
    using length_wire_labels_splits [of dot nm] suc ls by simp
  have printed: "c_str (string_print ?l) = ?l"
    using l0 by (simp add: c_str_string_print)
  have "cells_write (filled (2 * length nm + 2) (?w @ (if k = 0 then [] else [0])))
      (length ?w) (of_nat (length ?l) # ?l @ [0])
      = Inr (filled (2 * length nm + 2) (?w @ of_nat (length ?l) # ?l @ [0]))"
    by (rule cells_write_filled_over) (use len in auto)
  then show ?thesis
    using k printed suc by (simp add: name_step_def arr_get_def Let_def)
qed

lemma name2message_correct:
  assumes "name_ok nm"
  shows "name2message nm = Inr (filled (2 * length nm + 2) (wire_name nm @ [0]))"
proof -
  let ?ls = "splits dot nm" and ?cap = "2 * length nm + 2"
  let ?tok = "\<lparr>array = map Some ?ls, split_length = length ?ls\<rparr>"
  let ?I = "\<lambda>k st. st = (filled ?cap (wire_labels (take k ?ls) @ (if k = 0 then [] else [0])),
      length (wire_labels (take k ?ls)))"
  have z: "0 \<notin> set nm" and n: "1 \<le> length nm"
    using assms by (auto simp: name_ok_def Suc_le_eq)
  have "\<exists>st'. forE (length ?ls) 0 (name_step ?tok) (malloc_cells ?cap, 0) = Inr st' \<and>
      ?I (0 + length ?ls) st'"
    by (rule forE_rule [where I = ?I]) (use name_step_filled [OF refl _ z] in \<open>auto simp: filled_Nil\<close>)
  then have run: "forE (length ?ls) 0 (name_step ?tok) (malloc_cells ?cap, 0) =
      Inr (filled ?cap (wire_labels ?ls @ [0]), Suc (length nm))"
    by (auto simp: length_wire_labels_splits)
  have "cells_write (filled ?cap (wire_labels ?ls @ [0])) (Suc (length nm)) [0]
      = Inr (filled ?cap (wire_labels ?ls @ [0]))"
    by (rule cells_write_filled_over) (simp_all add: length_wire_labels_splits)
  moreover have "cells_write (filled ?cap (wire_labels ?ls @ [0])) (Suc (length nm) + 1) [0]
      = Inr (filled ?cap ((wire_labels ?ls @ [0]) @ [0]))"
    by (rule cells_write_filled) (use n in \<open>simp_all add: length_wire_labels_splits\<close>)
  ultimately show ?thesis
    by (simp add: name2message_def string_split_correct run wire_name_def
        del: add_2_eq_Suc add_2_eq_Suc')
qed

lemma put_name_filled [arr_simps]:
  "name_ok nm \<Longrightarrow> length p + length nm + 2 \<le> cap \<Longrightarrow> i = length p \<Longrightarrow>
     put_name (filled cap p) i nm = Inr (filled cap (p @ wire_name nm))"
  by (simp add: put_name_def name2message_correct arr_simps)

text \<open>Over the last bytes of the written part, as a second question does.\<close>

lemma put_name_filled_over:
  "name_ok nm \<Longrightarrow> length old \<le> 2 \<Longrightarrow> length p + length nm + 2 \<le> cap \<Longrightarrow> i = length p \<Longrightarrow>
     put_name (filled cap (p @ old)) i nm = Inr (filled cap (p @ wire_name nm))"
  by (simp add: put_name_def name2message_correct arr_simps cells_write_filled_over)

section \<open>Flags\<close>

lemma nibble_cases:
  "v < 16 \<Longrightarrow> v = 0 \<or> v = 1 \<or> v = 2 \<or> v = 3 \<or> v = 4 \<or> v = 5 \<or> v = 6 \<or> v = 7 \<or> v = 8 \<or>
     v = 9 \<or> v = 10 \<or> v = 11 \<or> v = 12 \<or> v = 13 \<or> v = 14 \<or> v = (15 :: nat)"
  by arith

lemma dec2bin_nat:
  assumes "v < 16"
  shows "dec2bin (int v) (replicate 4 0) 4 = Inr (map (\<lambda>i. of_bool (bit v (3 - i))) [0..<4])"
  using nibble_cases [OF assms] by (elim disjE; simp only:; code_simp)

lemma sint_small:
  assumes "unat (c :: byte) < 16"
  shows "sint c = int (unat c)"
proof -
  from assms have "int (unat c) < 16" by linarith
  then have small: "uint c < 16" by simp
  have "signed_take_bit 7 x = x" if "0 \<le> x" "x < 16" for x :: int
    by (rule signed_take_bit_int_eq_self) (use that in auto)
  from this [OF uint_ge_0 small] have "signed_take_bit 7 (uint c) = uint c" .
  then show ?thesis unfolding sint_uint by simp
qed

lemma dec2bin_nibble:
  assumes "unat (c :: byte) < 16"
  shows "dec2bin (sint c) (replicate 4 0) 4 = Inr (map (\<lambda>i. of_bool (bit c (3 - i))) [0..<4])"
  using dec2bin_nat [OF assms] by (simp add: sint_small [OF assms] bit_unsigned_iff)

lemma flag_bytes_correct:
  assumes "flags_ok f"
  shows "flag_bytes f = Inr (wire_flags f)"
proof -
  have one: "sint c = of_bool (bit c 0)" if "c \<in> {0, 1}" for c :: byte
    using that by auto
  have four: "map g [0..<4] = [g 0, g 1, g 2, g (3 :: nat)]" for g :: "nat \<Rightarrow> 'a"
    by (simp add: upt_rec numeral_2_eq_2 numeral_3_eq_3)
  show ?thesis
    using assms
    by (simp add: flag_bytes_def flags_ok_def dec2bin_nibble one four wire_flags_def Let_def
        del: insert_iff)
qed

section \<open>Sections\<close>

lemma message2bufHeader_correct:
  assumes "flags_ok (msg_flags m)" "12 \<le> cap"
  shows "message2bufHeader (malloc_cells cap) 0 m = Inr (filled cap (wire_header m), 12)"
  using assms
  by (simp add: message2bufHeader_def flag_bytes_correct filled_Nil [symmetric] arr_simps
      wire_header_def)

lemma put_query_filled:
  assumes "queries m = Some qs" "k < length qs" "name_ok (q_name (qs ! k))"
    "length p + length (wire_query (qs ! k)) \<le> cap" "start + bufPos = length p"
  shows "put_query m start k (filled cap p, bufPos, endPos) =
     Inr (filled cap (p @ wire_query (qs ! k)), bufPos + length (q_name (qs ! k)) + 4,
          endPos + bufPos + length (q_name (qs ! k)) + 6)"
  using assms by (simp add: put_query_def arr_simps wire_query_def add.assoc)

lemma put_record_head:
  assumes "answers m = Some rrs" "k < length rrs" "name_ok (rr_name (rrs ! k))"
    "length p + length (wire_rr_head (rrs ! k)) \<le> cap" "start + bufPos = length p"
  shows "put_record m start k (filled cap p, bufPos) =
     put_rdata (rrs ! k) start (filled cap (p @ wire_rr_head (rrs ! k)))
       (bufPos + length (rr_name (rrs ! k)) + 6)"
  using assms by (simp add: put_record_def arr_simps wire_rr_head_def add.assoc
      del: add_2_eq_Suc add_2_eq_Suc')

lemma put_record_filled:
  assumes rrs: "answers m = Some rrs" "k < length rrs" and ok: "rr_ok (rrs ! k)"
    and room: "length p + length (wire_rr (rrs ! k)) \<le> cap" and pos: "start + bufPos = length p"
  shows "put_record m start k (filled cap p, bufPos) =
     Inr (filled cap (p @ wire_rr (rrs ! k)), bufPos + length (wire_rr (rrs ! k)))"
proof -
  let ?rr = "rrs ! k"
  have nm: "name_ok (rr_name ?rr)" and hd: "length p + length (wire_rr_head ?rr) \<le> cap"
    using ok room by (simp_all add: rr_ok_def wire_rr_def)
  show ?thesis
    unfolding put_record_head [OF rrs nm hd pos]
    using ok room pos
    by (cases "rr_data ?rr")
      (simp_all add: rr_ok_def put_rdata_def wire_rr_def wire_rdata_def arr_simps arr_read_def
        add.assoc [symmetric])
qed

lemma message2bufAnswer_correct:
  assumes rrs: "answers m = Some rrs" "unat (answer_count m) = length rrs" and ok: "list_all rr_ok rrs"
    and room: "length p + length (concat (map wire_rr rrs)) \<le> cap" and pos: "start = length p"
  shows "message2bufAnswer (filled cap p) start m endPos =
     Inr (filled cap (p @ concat (map wire_rr rrs)), endPos + length (concat (map wire_rr rrs)))"
proof -
  let ?w = "\<lambda>k. concat (map wire_rr (take k rrs))"
  let ?I = "\<lambda>k st. st = (filled cap (p @ ?w k), length (?w k))"
  have step: "put_record m start k (filled cap (p @ ?w k), length (?w k)) =
      Inr (filled cap (p @ ?w (Suc k)), length (?w (Suc k)))" if k: "k < length rrs" for k
  proof -
    have suc: "?w (Suc k) = ?w k @ wire_rr (rrs ! k)"
      using k by (simp add: take_Suc_conv_app_nth)
    have "concat (map wire_rr rrs) = ?w (Suc k) @ concat (map wire_rr (drop (Suc k) rrs))"
      by (metis append_take_drop_id concat_append map_append)
    then have "length (p @ ?w k) + length (wire_rr (rrs ! k)) \<le> cap"
      using room suc by simp
    moreover have "rr_ok (rrs ! k)" using ok k by (simp add: list_all_length)
    ultimately show ?thesis
      using put_record_filled [OF rrs(1) k, of "p @ ?w k" cap start "length (?w k)"] pos suc by simp
  qed
  have "\<exists>st'. forE (length rrs) 0 (put_record m start) (filled cap p, 0) = Inr st' \<and>
      ?I (0 + length rrs) st'"
    by (rule forE_rule [where I = ?I]) (use step in auto)
  then show ?thesis by (simp add: message2bufAnswer_def rrs(2))
qed

section \<open>The encoder\<close>

lemma message2buf_correct:
  assumes "encodable m"
  shows "message2buf m =
     Inr \<lparr>buf_base = filled 1500 (wire_message m), buf_len = length (wire_message m)\<rparr>"
proof -
  from assms obtain q where f: "flags_ok (msg_flags m)" and q: "queries m = Some [q]"
      "query_count m = 1" "name_ok (q_name q)" and len: "length (wire_message m) \<le> 1500"
    by (auto simp: encodable_def)
  have qlen: "12 + length (wire_query q) \<le> 1500"
    using len q by (simp add: wire_message_def)
  have quest: "message2bufQuestion (filled 1500 (wire_header m)) 12 m 12 =
      Inr (filled 1500 (wire_header m @ wire_query q), 12 + length (wire_query q))"
    using put_query_filled [OF q(1), of 0 "wire_header m" 1500 12 0 12] q qlen
    by (simp add: message2bufQuestion_def forE_one)
  show ?thesis
  proof (cases "answer_count m > 0")
    case False
    with f quest q show ?thesis
      by (simp add: message2buf_def message2bufHeader_correct wire_message_def)
  next
    case True
    with assms obtain rrs where rrs: "answers m = Some rrs" "unat (answer_count m) = length rrs"
        "list_all rr_ok rrs"
      by (auto simp: encodable_def)
    have "length (wire_header m @ wire_query q) + length (concat (map wire_rr rrs)) \<le> 1500"
      using len q rrs True by (simp add: wire_message_def)
    from message2bufAnswer_correct [OF rrs this, of "12 + length (wire_query q)"
        "12 + length (wire_query q)"] True f quest q rrs
    show ?thesis
      by (simp add: message2buf_def message2bufHeader_correct wire_message_def)
  qed
qed

end
