(* ===== verification/Message_Names.thy ===== *)
theory Message_Names
  imports Message_Wire
begin

text \<open>
  The two name parsers. \<open>name_at\<close> specifies a possibly compressed name in a buffer as RFC 1035 does,
  \<open>createName\<close> is proved to read exactly these names, and its fuel is proved sufficient: a run that
  needs more does not end for any amount, since its position and output length repeat. The names the
  encoder writes are read back by both parsers.
\<close>

unbundle bit_operations_syntax

section \<open>Bytes at a position of a buffer\<close>

definition has_at :: "cells \<Rightarrow> nat \<Rightarrow> byte list \<Rightarrow> bool" where
  "has_at buf p bs \<longleftrightarrow> p + length bs \<le> length buf \<and> take (length bs) (drop p buf) = map Some bs"

lemma rd_eq_Inr_iff [res_simps]: "rd buf p = Inr b \<longleftrightarrow> p < length buf \<and> buf ! p = Some b"
  by (auto simp: rd_def res_simps)

lemma has_at_nth:
  "has_at buf p bs \<longleftrightarrow> p + length bs \<le> length buf \<and> (\<forall>i < length bs. buf ! (p + i) = Some (bs ! i))"
  by (auto simp: has_at_def list_eq_iff_nth_eq)

lemma has_at_Nil [simp]: "has_at buf p [] \<longleftrightarrow> p \<le> length buf"
  by (simp add: has_at_def)

lemma has_at_Cons: "has_at buf p (b # bs) \<longleftrightarrow> rd buf p = Inr b \<and> has_at buf (Suc p) bs"
  by (auto simp: has_at_nth res_simps less_Suc_eq_0_disj)

lemma has_at_append:
  "has_at buf p (xs @ ys) \<longleftrightarrow> has_at buf p xs \<and> has_at buf (p + length xs) ys"
proof (induction xs arbitrary: p)
  case Nil
  show ?case by (auto simp: has_at_def)
next
  case (Cons x xs)
  then show ?case by (simp add: has_at_Cons)
qed

lemma has_at_drop: "k \<le> length buf \<Longrightarrow> has_at (drop k buf) p bs \<longleftrightarrow> has_at buf (k + p) bs"
  by (auto simp: has_at_nth add.assoc)

lemma has_at_map_Some: "has_at (map Some bs @ rest) 0 bs"
  by (simp add: has_at_def)

lemma rd_short_be16: "has_at buf p (be16 w) \<Longrightarrow> rd_short buf p = Inr w"
  by (simp add: be16_def has_at_Cons rd_short_def)

lemma rd_ttl_be32: "has_at buf p (be32 w) \<Longrightarrow> rd_ttl buf p = Inr w"
  by (simp add: be32_def has_at_Cons rd_ttl_def rd_short_def shorts_to_int of_le32_le32)

section \<open>Copying labels\<close>

definition name_buf :: "byte list \<Rightarrow> byte list" where
  "name_buf acc = acc @ replicate (512 - length acc) 0"

definition dotted :: "string_t list \<Rightarrow> byte list" where
  "dotted ls = concat (map (\<lambda>l. l @ [dot]) ls)"

lemma dotted_simps [simp]: "dotted [] = []" "dotted (l # ls) = l @ dot # dotted ls"
  by (simp_all add: dotted_def)

lemma dotted_splits: "dotted (splits dot nm) = nm @ [dot]"
  by (induction nm) (auto split: list.splits)

lemma name_buf_Nil: "name_buf [] = replicate 512 0"
  by (simp add: name_buf_def)

lemma arr_set_name_buf:
  assumes "length acc < 512"
  shows "arr_set (name_buf acc) (length acc) b = Inr (name_buf (acc @ [b]))"
proof -
  from assms have "replicate (512 - length acc) (0 :: byte) = 0 # replicate (512 - Suc (length acc)) 0"
    by (metis Suc_diff_Suc replicate_Suc)
  with assms show ?thesis by (simp add: arr_set_def name_buf_def)
qed

lemma copy_letters_name_buf:
  assumes l: "has_at buf p l" and room: "length acc + length l \<le> 512"
  shows "copy_letters buf p (name_buf acc) (length acc) (length l) = Inr (name_buf (acc @ l))"
proof -
  let ?I = "\<lambda>k arr. arr = name_buf (acc @ take k l)"
  have "bindE (rd buf (p + k)) (\<lambda>b. arr_set (name_buf (acc @ take k l)) (length acc + k) b) =
      Inr (name_buf (acc @ take (Suc k) l))" if k: "k < length l" for k
  proof -
    have "rd buf (p + k) = Inr (l ! k)"
      using l k by (simp add: has_at_nth rd_eq_Inr_iff)
    moreover have "length (acc @ take k l) = length acc + k" using k by simp
    ultimately show ?thesis
      using arr_set_name_buf [of "acc @ take k l" "l ! k"] k room
      by (simp add: take_Suc_conv_app_nth)
  qed
  then have "\<exists>arr. copy_letters buf p (name_buf acc) (length acc) (length l) = Inr arr \<and>
      ?I (0 + length l) arr"
    unfolding copy_letters_def by (intro forE_rule [where I = ?I]) auto
  then show ?thesis by simp
qed

lemma copy_label_name_buf:
  assumes "has_at buf p l" "length acc + length l < 512"
  shows "copy_label buf p (name_buf acc) (length acc) (length l) = Inr (name_buf (acc @ l @ [dot]))"
  using copy_letters_name_buf [of buf p l acc] arr_set_name_buf [of "acc @ l" dot] assms
  by (simp add: copy_label_def)

text \<open>Whether copying succeeds depends on the length of the array only.\<close>

definition copy_label_ok :: "cells \<Rightarrow> nat \<Rightarrow> nat \<Rightarrow> nat \<Rightarrow> bool" where
  "copy_label_ok buf p pos n \<longleftrightarrow> (\<exists>l. length l = n \<and> has_at buf p l) \<and> pos + n < 512"

lemma copy_letters_Inr:
  "copy_letters buf p arr pos n = Inr arr' \<Longrightarrow>
     length arr' = length arr \<and> (n = 0 \<or> pos + n \<le> length arr) \<and>
     (\<forall>k < n. \<exists>b. rd buf (p + k) = Inr b)"
  unfolding copy_letters_def
proof (induction n arbitrary: arr')
  case (Suc n)
  then obtain arr1 where 1: "forE n 0 (\<lambda>k arr. bindE (rd buf (p + k)) (arr_set arr (pos + k))) arr
      = Inr arr1" "bindE (rd buf (p + n)) (arr_set arr1 (pos + n)) = Inr arr'"
    by (auto simp: forE_Suc_right res_simps simp del: forE.simps)
  from Suc.IH [OF 1(1)] 1(2) show ?case
    by (auto simp: bindE_eq_Inr_iff arr_set_eq_Inr_iff less_Suc_eq)
qed simp

lemma has_at_readable:
  assumes "\<forall>k < n. \<exists>b. rd buf (p + k) = Inr b" "0 < n"
  shows "has_at buf p (map (\<lambda>k. the (buf ! (p + k))) [0..<n])"
proof -
  have "p + (n - 1) < length buf"
    using assms by (metis Suc_pred' lessI rd_bound)
  with assms show ?thesis by (fastforce simp: has_at_nth rd_eq_Inr_iff)
qed

lemma copy_label_Inr:
  assumes "copy_label buf p arr pos n = Inr arr'" "length arr = 512" "0 < n"
  shows "length arr' = 512 \<and> copy_label_ok buf p pos n"
proof -
  from assms(1) obtain arr1 where 1: "copy_letters buf p arr pos n = Inr arr1"
      "arr_set arr1 (pos + n) dot = Inr arr'"
    by (auto simp: copy_label_def res_simps)
  from copy_letters_Inr [OF 1(1)] 1(2) assms(2,3) has_at_readable [of n buf p]
  show ?thesis
    by (auto simp: copy_label_ok_def arr_set_eq_Inr_iff intro!: exI [of _ "map (\<lambda>k. the (buf ! (p + k))) [0..<n]"])
qed

lemma copy_letters_not_Diverges: "copy_letters buf p arr pos n \<noteq> Inl Diverges"
  unfolding copy_letters_def
  by (induction n) (auto simp: forE_Suc_right res_simps rd_def arr_get_def arr_set_def or_fail_eq_Inr_iff
      simp del: forE.simps split: if_splits elim!: or_fail.elims)

lemma copy_label_not_Diverges: "copy_label buf p arr pos n \<noteq> Inl Diverges"
  using copy_letters_not_Diverges [of buf p arr pos n]
  by (auto simp: copy_label_def bindE_eq_Inl_iff arr_set_def split: if_splits)

lemma rd_not_Diverges [simp]: "rd buf p \<noteq> Inl Diverges"
  by (auto simp: rd_def arr_get_def bindE_eq_Inl_iff elim!: or_fail.elims split: if_splits)

section \<open>Names in wire format\<close>

text \<open>Labels a length byte can announce; for the decoder of records the two top bits are free.\<close>

definition labels_below :: "nat \<Rightarrow> string_t list \<Rightarrow> bool" where
  "labels_below n ls \<longleftrightarrow> (\<forall>l \<in> set ls. l \<noteq> [] \<and> length l < n)"

lemma labels_below_simps [simp]:
  "labels_below n []" "labels_below n (l # ls) \<longleftrightarrow> l \<noteq> [] \<and> length l < n \<and> labels_below n ls"
  by (auto simp: labels_below_def)

lemma qname_loop_correct:
  assumes "has_at buf p (wire_labels ls @ [0])" "labels_below 256 ls"
    "length acc + length (dotted ls) \<le> 512"
  shows "qname_loop buf p (name_buf acc) (length acc) =
     Inr (p + length (wire_labels ls), name_buf (acc @ dotted ls), length (acc @ dotted ls))"
  using assms
proof (induction ls arbitrary: p acc)
  case Nil
  then show ?case by (simp add: qname_loop.simps [of buf p] has_at_Cons)
next
  case (Cons l ls)
  from Cons.prems(1) have b: "rd buf p = Inr (of_nat (length l))" "has_at buf (Suc p) l"
    "has_at buf (Suc p + length l) (wire_labels ls @ [0])"
    by (simp_all add: has_at_Cons has_at_append)
  have l: "unat (of_nat (length l) :: byte) = length l" "l \<noteq> []" "labels_below 256 ls"
    using Cons.prems(2) by (simp_all add: unat_of_nat)
  then have nz: "(of_nat (length l) :: byte) \<noteq> 0"
    by (metis length_0_conv unat_0)
  have copy: "copy_label buf (Suc p) (name_buf acc) (length acc) (length l) =
      Inr (name_buf (acc @ l @ [dot]))"
    by (rule copy_label_name_buf [OF b(2)]) (use Cons.prems(3) in simp)
  have len: "length (acc @ l @ [dot]) + length (dotted ls) \<le> 512"
    using Cons.prems(3) by simp
  from Cons.IH [OF b(3) l(3) len] show ?case
    by (simp add: qname_loop.simps [of buf p] b(1) nz l(1) Let_def copy)
qed

lemma finish_name_correct:
  assumes "length nm < 512"
  shows "finish_name (name_buf (nm @ [dot])) (Suc (length nm)) = Inr (name_buf nm)"
proof -
  have "512 - length nm = Suc (511 - length nm)" using assms by simp
  then show ?thesis
    using assms by (simp add: finish_name_def name_buf_def arr_set_def list_update_append)
qed

lemma string_malloc_name_buf:
  "length nm \<le> 512 \<Longrightarrow> string_malloc (name_buf nm) 0 (int (length nm)) = Inr nm"
  by (simp add: name_buf_def)

lemma rr_name_string_correct:
  assumes "length nm < 512" "0 \<notin> set nm"
  shows "rr_name_string (name_buf (nm @ [dot])) (Suc (length nm)) = Inr nm"
proof -
  have "c_str (name_buf nm) = nm"
    using assms by (cases "512 - length nm") (auto simp: name_buf_def)
  then show ?thesis
    using assms by (simp add: rr_name_string_def finish_name_correct filled_Nil [symmetric] arr_simps
        del: add_2_eq_Suc add_2_eq_Suc')
qed

section \<open>Compressed names\<close>

text \<open>
  \<open>name_at buf p ls q\<close>: the name at position \<open>p\<close> has the labels \<open>ls\<close>, and \<open>q\<close> is its last byte there:
  the zero byte, or the second byte of a pointer.
\<close>

inductive name_at :: "cells \<Rightarrow> nat \<Rightarrow> string_t list \<Rightarrow> nat \<Rightarrow> bool" for buf where
  root: "rd buf p = Inr 0 \<Longrightarrow> name_at buf p [] p"
| label: "rd buf p = Inr n \<Longrightarrow> n \<noteq> 0 \<Longrightarrow> n AND 0xC0 \<noteq> 0xC0 \<Longrightarrow> length l = unat n \<Longrightarrow>
    has_at buf (p + 1) l \<Longrightarrow> name_at buf (p + 1 + length l) ls q \<Longrightarrow> name_at buf p (l # ls) q"
| pointer: "rd buf p = Inr c \<Longrightarrow> c AND 0xC0 = 0xC0 \<Longrightarrow> rd buf (p + 1) = Inr d \<Longrightarrow>
    name_at buf (unat (char2Short (c AND 0x3F) d)) ls q' \<Longrightarrow> name_at buf p ls (p + 1)"

lemma name_at_complete:
  assumes "name_at buf p ls q" "length acc + length (dotted ls) \<le> 512"
  shows "\<exists>n. createName n buf p (name_buf acc) (length acc) =
     Inr (q, name_buf (acc @ dotted ls), length (acc @ dotted ls))"
  using assms
proof (induction arbitrary: acc rule: name_at.induct)
  case (root p)
  then have "createName (Suc 0) buf p (name_buf acc) (length acc) =
      Inr (p, name_buf (acc @ dotted []), length (acc @ dotted []))"
    by (simp add: createName.simps)
  then show ?case by blast
next
  case (label p n l ls q)
  have copy: "copy_label buf (p + 1) (name_buf acc) (length acc) (unat n) =
      Inr (name_buf (acc @ l @ [dot]))"
    unfolding label.hyps(4) [symmetric]
    by (rule copy_label_name_buf [OF label.hyps(5)]) (use label.prems in simp)
  from label.IH [of "acc @ l @ [dot]"] label.prems obtain k where
    "createName k buf (p + 1 + length l) (name_buf (acc @ l @ [dot])) (length acc + length l + 1) =
      Inr (q, name_buf (acc @ dotted (l # ls)), length (acc @ dotted (l # ls)))"
    by auto
  with label.hyps copy have "createName (Suc k) buf p (name_buf acc) (length acc) =
      Inr (q, name_buf (acc @ dotted (l # ls)), length (acc @ dotted (l # ls)))"
    by (simp add: createName.simps Let_def)
  then show ?case by blast
next
  case (pointer p c d ls q')
  have nz: "c \<noteq> 0" using pointer.hyps(2) by auto
  from pointer.IH [of acc] pointer.prems obtain k where
    "createName k buf (unat (char2Short (c AND 0x3F) d)) (name_buf acc) (length acc) =
      Inr (q', name_buf (acc @ dotted ls), length (acc @ dotted ls))"
    by auto
  with pointer.hyps nz have "createName (Suc k) buf p (name_buf acc) (length acc) =
      Inr (p + 1, name_buf (acc @ dotted ls), length (acc @ dotted ls))"
    by (simp add: createName.simps Let_def)
  then show ?case by blast
qed

lemma copy_label_sound:
  assumes "copy_label buf p (name_buf acc) (length acc) n = Inr arr'" "length acc \<le> 512" "0 < n"
  obtains l where "length l = n" "has_at buf p l" "arr' = name_buf (acc @ l @ [dot])"
    "length (acc @ l @ [dot]) \<le> 512"
proof -
  have "length (name_buf acc) = 512" using assms(2) by (simp add: name_buf_def)
  from copy_label_Inr [OF assms(1) this assms(3)] obtain l where
    l: "length l = n" "has_at buf p l" "length acc + n < 512"
    by (auto simp: copy_label_ok_def)
  with copy_label_name_buf [OF l(2), of acc] assms(1) have "arr' = name_buf (acc @ l @ [dot])"
    by simp
  with l that show thesis by simp
qed

lemma name_at_sound:
  assumes "createName n buf p (name_buf acc) (length acc) = Inr (q, arr', pos')" "length acc \<le> 512"
  shows "\<exists>ls. name_at buf p ls q \<and> arr' = name_buf (acc @ dotted ls) \<and>
     pos' = length (acc @ dotted ls) \<and> pos' \<le> 512"
  using assms
proof (induction n arbitrary: p acc q)
  case 0
  then show ?case by (simp add: createName.simps)
next
  case (Suc n)
  from Suc.prems(1) obtain c where c: "rd buf p = Inr c"
    by (auto simp: createName.simps bindE_eq_Inr_iff)
  consider (root) "c = 0" | (pointer) "c \<noteq> 0" "c AND 0xC0 = 0xC0"
    | (label) "c \<noteq> 0" "c AND 0xC0 \<noteq> 0xC0" by blast
  then show ?case
  proof cases
    case root
    with Suc.prems c show ?thesis
      by (auto simp: createName.simps intro!: exI [of _ "[]"] name_at.root)
  next
    case pointer
    with Suc.prems c obtain d q' where d: "rd buf (p + 1) = Inr d" "q = p + 1"
      "createName n buf (unat (char2Short (c AND 0x3F) d)) (name_buf acc) (length acc) =
         Inr (q', arr', pos')"
      by (auto simp: createName.simps Let_def bindE_eq_Inr_iff)
    from Suc.IH [OF d(3) Suc.prems(2)] name_at.pointer [OF c pointer(2) d(1)] d(2)
    show ?thesis by blast
  next
    case label
    with Suc.prems c obtain arr where arr: "copy_label buf (p + 1) (name_buf acc) (length acc) (unat c) = Inr arr"
      "createName n buf (p + 1 + unat c) arr (length acc + unat c + 1) = Inr (q, arr', pos')"
      by (auto simp: createName.simps Let_def bindE_eq_Inr_iff)
    have "0 < unat c" using label(1) by (simp add: unat_gt_0)
    with copy_label_sound [OF arr(1) Suc.prems(2)] obtain l where
      l: "length l = unat c" "has_at buf (p + 1) l" "arr = name_buf (acc @ l @ [dot])"
        "length (acc @ l @ [dot]) \<le> 512" by blast
    have "createName n buf (p + 1 + unat c) (name_buf (acc @ l @ [dot])) (length (acc @ l @ [dot])) =
        Inr (q, arr', pos')"
      using arr(2) l by simp
    from Suc.IH [OF this l(4)] obtain ls where ls: "name_at buf (p + 1 + unat c) ls q"
      "arr' = name_buf ((acc @ l @ [dot]) @ dotted ls)"
      "pos' = length ((acc @ l @ [dot]) @ dotted ls)" "pos' \<le> 512" by blast
    from name_at.label [OF c label l(1,2), of ls q] ls(1) l(1) have "name_at buf p (l # ls) q" by simp
    with ls show ?thesis by (intro exI [of _ "l # ls"]) simp
  qed
qed

section \<open>Fuel\<close>

text \<open>The steps after which \<open>createName\<close> goes on, by position and length of the name so far.\<close>

definition cn_next :: "cells \<Rightarrow> nat \<times> nat \<Rightarrow> (nat \<times> nat) option" where
  "cn_next buf = (\<lambda>(p, pos). case rd buf p of
     Inl _ \<Rightarrow> None
   | Inr c \<Rightarrow>
       (if c = 0 then None
        else if c AND 0xC0 = 0xC0 then
          (case rd buf (p + 1) of
             Inl _ \<Rightarrow> None
           | Inr d \<Rightarrow> Some (unat (char2Short (c AND 0x3F) d), pos))
        else if copy_label_ok buf (p + 1) pos (unat c) then
          Some (p + 1 + unat c, pos + unat c + 1)
        else None))"

lemma copy_label_succeeds:
  assumes "copy_label_ok buf p pos n" "length arr = 512"
  obtains arr' where "copy_label buf p arr pos n = Inr arr'" "length arr' = 512"
proof -
  from assms(1) obtain l where l: "length l = n" "has_at buf p l" and n: "pos + n < 512"
    by (auto simp: copy_label_ok_def)
  let ?I = "\<lambda>k a. length a = (512 :: nat)"
  have "rd buf (p + k) = Inr (l ! k)" if "k < n" for k
    using l that by (simp add: has_at_nth rd_eq_Inr_iff)
  then have "\<exists>arr'. copy_letters buf p arr pos n = Inr arr' \<and> ?I (0 + n) arr'"
    unfolding copy_letters_def by (intro forE_rule [where I = ?I]) (use n assms(2) in \<open>auto simp: arr_simps\<close>)
  with n that show thesis by (auto simp: copy_label_def arr_simps)
qed

lemma createName_Diverges_iff:
  assumes "length arr = 512"
  shows "createName n buf p arr pos = Inl Diverges \<longleftrightarrow> iter_opt (cn_next buf) n (p, pos) \<noteq> None"
  using assms
proof (induction n arbitrary: p arr pos)
  case 0
  then show ?case by (simp add: createName.simps)
next
  case (Suc n)
  show ?case
  proof (cases "rd buf p")
    case (Inl e)
    then have "e \<noteq> Diverges" using rd_not_Diverges [of buf p] by auto
    with Inl show ?thesis by (simp add: createName.simps cn_next_def)
  next
    case (Inr c)
    consider (root) "c = 0" | (pointer) "c \<noteq> 0" "c AND 0xC0 = 0xC0"
      | (label) "c \<noteq> 0" "c AND 0xC0 \<noteq> 0xC0" by blast
    then show ?thesis
    proof cases
      case root
      with Inr show ?thesis by (simp add: createName.simps cn_next_def)
    next
      case pointer
      show ?thesis
      proof (cases "rd buf (p + 1)")
        case (Inl e)
        then have "e \<noteq> Diverges" using rd_not_Diverges [of buf "p + 1"] by auto
        with Inl Inr pointer show ?thesis by (simp add: createName.simps cn_next_def)
      next
        case (Inr d)
        with \<open>rd buf p = Inr c\<close> pointer Suc.IH [OF Suc.prems, of "unat (char2Short (c AND 0x3F) d)" pos]
        show ?thesis by (auto simp: createName.simps cn_next_def Let_def bindE_eq_Inl_iff)
      qed
    next
      case label
      show ?thesis
      proof (cases "copy_label_ok buf (p + 1) pos (unat c)")
        case True
        from copy_label_succeeds [OF True Suc.prems] obtain arr' where
          "copy_label buf (p + 1) arr pos (unat c) = Inr arr'" "length arr' = 512" .
        with Inr label True Suc.IH [of arr' "p + 1 + unat c" "pos + unat c + 1"] show ?thesis
          by (simp add: createName.simps cn_next_def Let_def)
      next
        case False
        have "0 < unat c" using label(1) by (simp add: unat_gt_0)
        then obtain e where "copy_label buf (p + 1) arr pos (unat c) = Inl e"
          using copy_label_Inr [OF _ Suc.prems] False by (metis obj_sumE)
        with copy_label_not_Diverges [of buf "p + 1" arr pos "unat c"] Inr label False
        show ?thesis by (auto simp: createName.simps cn_next_def Let_def)
      qed
    qed
  qed
qed

text \<open>More fuel changes nothing once a run has ended, and \<open>createName_fuel\<close> ends every run that ends.\<close>

lemma createName_mono:
  assumes "createName n buf p arr pos \<noteq> Inl Diverges" "length arr = 512"
  shows "createName (n + k) buf p arr pos = createName n buf p arr pos"
  using assms
proof (induction n arbitrary: p arr pos)
  case 0
  then show ?case by (simp add: createName.simps)
next
  case (Suc n)
  show ?case
  proof (cases "rd buf p")
    case (Inl e)
    then show ?thesis by (simp add: createName.simps)
  next
    case (Inr c)
    consider (root) "c = 0" | (pointer) "c \<noteq> 0" "c AND 0xC0 = 0xC0"
      | (label) "c \<noteq> 0" "c AND 0xC0 \<noteq> 0xC0" by blast
    then show ?thesis
    proof cases
      case root
      with Inr show ?thesis by (simp add: createName.simps)
    next
      case pointer
      with Inr Suc show ?thesis
        by (cases "rd buf (p + 1)") (auto simp: createName.simps Let_def bindE_eq_Inl_iff)
    next
      case label
      have n: "0 < unat c" using label(1) by (simp add: unat_gt_0)
      show ?thesis
      proof (cases "copy_label buf (p + 1) arr pos (unat c)")
        case (Inl e)
        with Inr label show ?thesis by (simp add: createName.simps Let_def)
      next
        case (Inr arr')
        with copy_label_Inr [OF Inr Suc.prems(2) n] \<open>rd buf p = Inr c\<close> label Suc.IH [of _ arr'] Suc.prems(1)
        show ?thesis by (auto simp: createName.simps Let_def)
      qed
    qed
  qed
qed

lemma createName_fuel_enough:
  assumes "createName (createName_fuel buf) buf p arr pos = Inl Diverges" "length arr = 512" "pos \<le> 512"
  shows "createName n buf p arr pos = Inl Diverges"
proof -
  let ?S = "{..< length buf} \<times> {.. (512 :: nat)}"
  have "iter_opt (cn_next buf) n (p, pos) \<noteq> None"
  proof (rule iter_opt_pigeonhole [where S = ?S and P = "\<lambda>(p, pos). pos \<le> 512"])
    fix s :: "nat \<times> nat"
    assume "cn_next buf s \<noteq> None" "case s of (p, pos) \<Rightarrow> pos \<le> 512"
    then show "s \<in> ?S \<and> (case the (cn_next buf s) of (p, pos) \<Rightarrow> pos \<le> 512)"
      by (auto simp: cn_next_def copy_label_ok_def dest: rd_bound split: sum.splits if_splits)
  next
    have "Suc (card ?S) = createName_fuel buf"
      by (simp add: card_cartesian_product createName_fuel_def mult.commute)
    then show "iter_opt (cn_next buf) (Suc (card ?S)) (p, pos) \<noteq> None"
      using assms(1) createName_Diverges_iff [OF assms(2)] by metis
  qed (use assms(3) in auto)
  then show ?thesis by (simp add: createName_Diverges_iff [OF assms(2)])
qed

lemma createName_ends:
  assumes "createName n buf p arr pos = Inr r" "length arr = 512" "pos \<le> 512"
  shows "createName (createName_fuel buf) buf p arr pos = Inr r"
proof -
  let ?N = "createName_fuel buf"
  have "createName ?N buf p arr pos \<noteq> Inl Diverges"
    using createName_fuel_enough [OF _ assms(2,3), of buf p n] assms(1) by auto
  from createName_mono [OF this assms(2), of n] createName_mono [of n buf p arr pos ?N] assms
  show ?thesis by (simp add: add.commute)
qed

text \<open>The two together: what \<open>createName\<close> reads from an empty array is exactly a name of the buffer.\<close>

lemma createName_correct:
  "createName (createName_fuel buf) buf p (replicate 512 0) 0 = Inr (q, arr, pos) \<longleftrightarrow>
     (\<exists>ls. name_at buf p ls q \<and> arr = name_buf (dotted ls) \<and> pos = length (dotted ls) \<and> pos \<le> 512)"
  (is "?l \<longleftrightarrow> ?r")
proof
  assume ?l
  then show ?r using name_at_sound [of "createName_fuel buf" buf p "[]" q arr pos] by (auto simp: name_buf_Nil)
next
  assume ?r
  then obtain ls where ls: "name_at buf p ls q" "arr = name_buf (dotted ls)" "pos = length (dotted ls)"
    "pos \<le> 512" by blast
  from name_at_complete [OF ls(1), of "[]"] ls obtain n where
    "createName n buf p (replicate 512 0) 0 = Inr (q, arr, pos)" by (auto simp: name_buf_Nil)
  then show ?l by (rule createName_ends) simp_all
qed

lemma createName_self_pointer:
  assumes "rd buf p = Inr c" "c AND 0xC0 = 0xC0" "rd buf (p + 1) = Inr d"
    "unat (char2Short (c AND 0x3F) d) = p"
  shows "createName n buf p arr pos = Inl Diverges"
proof (induction n arbitrary: arr pos)
  case (Suc n)
  have "c \<noteq> 0" using assms(2) by auto
  with assms Suc show ?case by (simp add: createName.simps Let_def)
qed (simp add: createName.simps)

section \<open>Names as the encoder writes them\<close>

lemma length_byte_no_pointer:
  assumes "n < 64"
  shows "(of_nat n :: byte) AND 0xC0 \<noteq> 0xC0"
proof
  assume "(of_nat n :: byte) AND 0xC0 = 0xC0"
  then have "bit ((of_nat n :: byte) AND 0xC0) 6 = bit (0xC0 :: byte) 6" by simp
  then have "bit (of_nat n :: byte) 6" by (simp add: bit_simps)
  then have "bit n 6" by (simp add: bit_simps)
  with assms show False by (simp add: bit_iff_odd)
qed

lemma name_at_wire:
  "has_at buf p (wire_labels ls @ [0]) \<Longrightarrow> labels_below 64 ls \<Longrightarrow>
     name_at buf p ls (p + length (wire_labels ls))"
proof (induction ls arbitrary: p)
  case Nil
  then show ?case by (simp add: has_at_Cons name_at.root)
next
  case (Cons l ls)
  let ?n = "of_nat (length l) :: byte"
  from Cons.prems(1) have at: "rd buf p = Inr ?n" "has_at buf (p + 1) l"
    "has_at buf (p + 1 + length l) (wire_labels ls @ [0])"
    by (simp_all add: has_at_Cons has_at_append)
  have l: "length l < 64" "l \<noteq> []" "labels_below 64 ls" using Cons.prems(2) by simp_all
  then have n: "length l = unat ?n" by (simp add: unat_of_nat)
  with l(2) have nz: "?n \<noteq> 0" by (metis length_0_conv unat_0)
  from name_at.label [OF at(1) nz length_byte_no_pointer [OF l(1)] n at(2) Cons.IH [OF at(3) l(3)]]
  show ?case by (simp add: add.assoc)
qed

text \<open>Names that survive the trip: labels of 1 to 63 bytes, no zero byte, at most 511 bytes.\<close>

definition name_sound :: "string_t \<Rightarrow> bool" where
  "name_sound nm \<longleftrightarrow> labels_below 64 (splits dot nm) \<and> 0 \<notin> set nm \<and> length nm < 512"

lemma name_sound_ok: "name_sound nm \<Longrightarrow> name_ok nm"
  by (auto simp: name_sound_def name_ok_def)

lemma createName_wire:
  assumes "has_at buf p (wire_name nm)" "name_sound nm"
  shows "createName (createName_fuel buf) buf p (replicate 512 0) 0 =
     Inr (p + length nm + 1, name_buf (nm @ [dot]), Suc (length nm))"
  unfolding createName_correct
  using name_at_wire [of buf p "splits dot nm"] assms
  by (intro exI [of _ "splits dot nm"])
    (simp add: wire_name_def name_sound_def dotted_splits length_wire_labels_splits)

lemma question_step_wire:
  assumes "has_at buf p (wire_query q)" "name_sound (q_name q)"
  shows "question_step buf k (p, qs) = Inr (p + length (wire_query q), qs @ [q])"
proof -
  let ?nm = "q_name q"
  have "labels_below 256 (splits dot ?nm)"
    using assms(2) by (auto simp: name_sound_def labels_below_def)
  moreover have at: "has_at buf p (wire_name ?nm)"
    "has_at buf (p + length ?nm + 2) (be16 (q_type q))" "has_at buf (p + length ?nm + 4) (be16 (q_class q))"
    using assms(1)
    by (simp_all add: wire_query_def has_at_append add.assoc del: add_2_eq_Suc add_2_eq_Suc')
  ultimately have loop: "qname_loop buf p (replicate 512 0) 0 =
      Inr (p + length ?nm + 1, name_buf (?nm @ [dot]), Suc (length ?nm))"
    using qname_loop_correct [of buf p "splits dot ?nm" "[]"] assms(2)
    by (simp add: wire_name_def name_buf_Nil dotted_splits name_sound_def length_wire_labels_splits)
  have "rd_short buf (Suc (Suc (p + length ?nm))) = Inr (q_type q)"
    "rd_short buf (Suc (Suc (Suc (Suc (p + length ?nm))))) = Inr (q_class q)"
    using rd_short_be16 [OF at(2)] rd_short_be16 [OF at(3)] by (simp_all add: eval_nat_numeral)
  moreover have "length ?nm < 512" using assms(2) by (simp add: name_sound_def)
  ultimately show ?thesis
    by (simp add: question_step_def loop finish_name_correct string_malloc_name_buf Let_def)
qed

end
