(* ===== verification/Message_Roundtrip.thy ===== *)
theory Message_Roundtrip
  imports Message_Names
begin

text \<open>
  The decoder against the wire format: it reads back the header, the questions and the records the
  encoder writes, so that decoding an encoded message gives the message again.
\<close>

unbundle bit_operations_syntax

section \<open>Records\<close>

definition rr_sound :: "resource_record_t \<Rightarrow> bool" where
  "rr_sound rr \<longleftrightarrow> name_sound (rr_name rr) \<and> (case rr_data rr of
     Address4 a \<Rightarrow> rr_type rr = 1 \<and> rr_length rr = 4
   | Cname d \<Rightarrow> rr_type rr = 5 \<and> name_sound d \<and> rr_length rr = of_nat (length d + 2)
   | Address6 bs \<Rightarrow> rr_type rr = 28 \<and> rr_length rr = 16 \<and> length bs = 16
   | Unset \<Rightarrow> False)"

lemma rr_sound_ok: "rr_sound rr \<Longrightarrow> rr_ok rr"
  by (auto simp: rr_sound_def rr_ok_def name_sound_ok split: rdata_t.splits)

lemma finish_name_short:
  assumes "length bs < 512"
  shows "finish_name (name_buf bs) (Suc (length bs)) = Inr (name_buf bs)"
proof -
  have "512 - length bs = Suc (511 - length bs)" using assms by simp
  then show ?thesis
    using assms by (simp add: finish_name_def name_buf_def arr_set_def list_update_append)
qed

lemma createRDataAddress_bytes:
  assumes "has_at buf p bs" "bs \<noteq> []" "length bs < 512"
  shows "createRDataAddress buf p (replicate 512 0) 0 (length bs) =
     Inr (p + length bs - 1, name_buf bs, Suc (length bs))"
  using copy_letters_name_buf [OF assms(1), of "[]"] assms(2,3)
  by (simp add: createRDataAddress_def name_buf_Nil)

lemma arr_read_name_buf: "length bs \<le> 512 \<Longrightarrow> arr_read (name_buf bs) 0 (length bs) = Inr bs"
  by (simp add: arr_read_def name_buf_def)

lemma string2inet4address_be32: "string2inet4address (be32 a) = Inr a"
  by (simp add: be32_def string2inet4address_4 of_le32_le32)

lemma address4_payload: "rr_payload 1 (name_buf (be32 a)) (Suc (length (be32 a))) = Inr (Address4 a)"
  using finish_name_short [of "be32 a"] arr_read_name_buf [of "be32 a"]
  by (simp add: rr_payload_def string2inet4address_be32)

lemma address6_payload:
  "length bs = 16 \<Longrightarrow> rr_payload 28 (name_buf bs) (Suc (length bs)) = Inr (Address6 bs)"
  using finish_name_short [of bs] arr_read_name_buf [of bs]
  by (simp add: rr_payload_def string2inet6address_def arr_read_def)

lemma cname_payload:
  assumes "length d < 512"
  shows "rr_payload 5 (name_buf (d @ [dot])) (Suc (length d)) = Inr (Cname d)"
  using finish_name_correct [OF assms] assms
  by (simp add: rr_payload_def arr_read_def name_buf_def)

lemma rr_step_data:
  assumes at: "has_at buf p (wire_rr_head rr)" "has_at buf (p + length (wire_rr_head rr)) (be16 (rr_length rr))"
    and nm: "name_sound (rr_name rr)" and pos: "p' = p + length (wire_rr_head rr) + 2"
    and data: "createRData buf p' (replicate 512 0) 0 (rr_type rr) (unat (rr_length rr)) = Inr (e, RData, n)"
    and pay: "rr_payload (rr_type rr) RData n = Inr (rr_data rr)"
  shows "rr_step buf k (p, rrs) = Inr (e + 1, rrs @ [rr])"
proof -
  let ?nm = "rr_name rr"
  from at(1) have name: "has_at buf p (wire_name ?nm)"
    by (simp add: wire_rr_head_def has_at_append)
  have "rd_short buf (Suc (Suc (p + length ?nm))) = Inr (rr_type rr)"
    "rd_short buf (Suc (Suc (Suc (Suc (p + length ?nm))))) = Inr (rr_class rr)"
    "rd_ttl buf (Suc (Suc (p + length ?nm)) + 4) = Inr (rr_ttl rr)"
    "rd_short buf (Suc (Suc (p + length ?nm)) + 8) = Inr (rr_length rr)"
    using at by (auto simp: wire_rr_head_def has_at_append eval_nat_numeral intro!: rd_short_be16 rd_ttl_be32)
  moreover have "Suc (Suc (p + length ?nm)) + 10 = p'" using pos by simp
  moreover have "length ?nm < 512" "0 \<notin> set ?nm" using nm by (simp_all add: name_sound_def)
  ultimately show ?thesis
    using data pay by (simp add: rr_step_def createName_wire [OF name nm] rr_name_string_correct Let_def)
qed

lemma rr_step_wire:
  assumes at: "has_at buf p (wire_rr rr)" and rr: "rr_sound rr"
  shows "rr_step buf k (p, rrs) = Inr (p + length (wire_rr rr), rrs @ [rr])"
proof -
  let ?q = "p + length (wire_rr_head rr)"
  have nm: "name_sound (rr_name rr)" using rr by (simp add: rr_sound_def)
  have head: "has_at buf p (wire_rr_head rr)" and tail: "has_at buf ?q (wire_rdata rr)"
    using at by (simp_all add: wire_rr_def has_at_append)
  show ?thesis
  proof (cases "rr_data rr")
    case (Address4 a)
    with rr have ty: "rr_type rr = 1" "rr_length rr = 4" by (simp_all add: rr_sound_def)
    from tail Address4 have t: "has_at buf ?q (be16 (rr_length rr))" "has_at buf (?q + 2) (be32 a)"
      by (simp_all add: wire_rdata_def has_at_append)
    have "be32 a \<noteq> []" by (simp add: be32_def)
    from createRDataAddress_bytes [OF t(2) this] have "createRData buf (?q + 2) (replicate 512 0) 0 1 4 =
        Inr (?q + 5, name_buf (be32 a), Suc (length (be32 a)))"
      by (simp add: createRData_def)
    with rr_step_data [OF head t(1) nm refl, of "?q + 5"] address4_payload [of a] ty Address4 show ?thesis
      by (simp add: wire_rr_def wire_rdata_def)
  next
    case (Cname d)
    with rr have ty: "rr_type rr = 5" "rr_length rr = of_nat (length d + 2)" "name_sound d"
      by (simp_all add: rr_sound_def)
    from tail Cname ty have t: "has_at buf ?q (be16 (rr_length rr))" "has_at buf (?q + 2) (wire_name d)"
      by (simp_all add: wire_rdata_def has_at_append)
    from createName_wire [OF t(2) ty(3)]
    have "createRData buf (?q + 2) (replicate 512 0) 0 5 (unat (rr_length rr)) =
        Inr (?q + 2 + length d + 1, name_buf (d @ [dot]), Suc (length d))"
      by (simp add: createRData_def)
    with rr_step_data [OF head t(1) nm refl, of "?q + 2 + length d + 1"] cname_payload [of d] ty Cname
    show ?thesis by (simp add: wire_rr_def wire_rdata_def name_sound_def)
  next
    case (Address6 bs)
    with rr have ty: "rr_type rr = 28" "rr_length rr = 16" "length bs = 16" by (simp_all add: rr_sound_def)
    from tail Address6 have t: "has_at buf ?q (be16 (rr_length rr))" "has_at buf (?q + 2) bs"
      by (simp_all add: wire_rdata_def has_at_append)
    have "bs \<noteq> []" using ty(3) by auto
    from createRDataAddress_bytes [OF t(2) this] ty(3)
    have "createRData buf (?q + 2) (replicate 512 0) 0 28 16 = Inr (?q + 17, name_buf bs, Suc (length bs))"
      by (simp add: createRData_def)
    with rr_step_data [OF head t(1) nm refl, of "?q + 17"] address6_payload [of bs] ty Address6 show ?thesis
      by (simp add: wire_rr_def wire_rdata_def)
  qed (use rr in \<open>simp add: rr_sound_def\<close>)
qed


section \<open>Header\<close>

definition flags_sound :: "flags_t \<Rightarrow> bool" where
  "flags_sound f \<longleftrightarrow> flags_ok f \<and> Z f = 0"

lemma byte_min [simp]: "n < 8 \<Longrightarrow> min 7 n = (n :: nat)"
  by simp

lemma char2bit_eq: "char2bit c = map (\<lambda>i. of_bool (bit c (7 - i))) [0..<8]"
  unfolding char2bit_def by (intro map_cong refl bit_word_eqI) (auto simp: bit_simps)

lemma pack_step:
  "i < 8 \<Longrightarrow> (ucast ((scast (f :: byte) :: u32) OR push_bit i (of_bool b)) :: byte) =
     f OR push_bit i (of_bool b)"
  by (rule bit_word_eqI) (auto simp: bit_simps)

lemma bit_foldl_or:
  "bit (foldl (\<lambda>f i. f OR push_bit i (of_bool (g i))) (w :: byte) [0..<m]) n \<longleftrightarrow>
     bit w n \<or> (n < m \<and> n < 8 \<and> g n)"
  by (induction m) (auto simp: bit_simps less_Suc_eq)

lemma foldl_pack:
  "m \<le> 8 \<Longrightarrow> length bs = 8 \<Longrightarrow>
   foldl (\<lambda>f i. ucast ((scast f :: u32) OR push_bit i (of_bool (bs ! (7 - i))))) w [0..<m]
   = foldl (\<lambda>f i. f OR push_bit i (of_bool (bs ! (7 - i)))) (w :: byte) [0..<m]"
  by (induction m) (simp_all add: pack_step del: of_bool_eq_iff)

lemma bit_pack_bits:
  "length bs = 8 \<Longrightarrow> bit (pack_bits (map of_bool bs)) n \<longleftrightarrow> n < 8 \<and> bs ! (7 - n)"
  by (simp add: pack_bits_def foldl_pack bit_foldl_or)

lemma char2bit_pack:
  "length bs = 8 \<Longrightarrow> char2bit (pack_bits (map of_bool bs)) = map of_bool bs"
  by (rule nth_equalityI) (auto simp: char2bit_eq bit_pack_bits)

lemma nibble_sum:
  assumes "unat (v :: byte) < 16"
  shows "push_bit 3 (of_bool (bit v 3)) + push_bit 2 (of_bool (bit v 2)) +
     push_bit 1 (of_bool (bit v 1)) + of_bool (bit v 0) = v"
proof -
  have v: "v = of_nat (unat v)" by simp
  show ?thesis
    using nibble_cases [OF assms] by (elim disjE; subst (1 2 3 4 5) v; simp only:; code_simp)
qed

lemma bits_flags_list:
  "bits_flags ([a, b, c, d, e, f, g, h] @ [i, j, k, l, m, n, p, q]) =
     \<lparr>QR = a, Opcode = push_bit 3 b + push_bit 2 c + push_bit 1 d + e, AA = f, TC = g, RD = h, RA = i,
      Z = push_bit 2 j + push_bit 1 k + l, RCODE = push_bit 3 m + push_bit 2 n + push_bit 1 p + q\<rparr>"
  by (simp add: bits_flags_def)

lemma char2bit_pack8:
  "char2bit (pack_bits [of_bool a, of_bool b, of_bool c, of_bool d, of_bool e, of_bool f, of_bool g, of_bool h]) =
     [of_bool a, of_bool b, of_bool c, of_bool d, of_bool e, of_bool f, of_bool g, of_bool h]"
  using char2bit_pack [of "[a, b, c, d, e, f, g, h]"] by simp

lemma four_nibbles: "map g [0..<4] = [g 0, g 1, g 2, g (3 :: nat)]"
  by (simp add: upt_rec numeral_2_eq_2 numeral_3_eq_3)

lemma bits_flags_wire:
  assumes f: "flags_sound f"
  shows "bits_flags (char2bit (wire_flags f ! 0) @ char2bit (wire_flags f ! 1)) = f"
proof -
  have bits: "of_bool (bit (QR f) 0) = QR f" "of_bool (bit (AA f) 0) = AA f" "of_bool (bit (TC f) 0) = TC f"
    "of_bool (bit (RD f) 0) = RD f" "of_bool (bit (RA f) 0) = RA f" "of_bool (bit (Z f) 0) = Z f" "Z f = 0"
    using f by (auto simp: flags_sound_def flags_ok_def)
  have nib: "push_bit 3 (of_bool (bit v 3)) + push_bit 2 (of_bool (bit v 2)) +
     push_bit 1 (of_bool (bit v 1)) + of_bool (bit v 0) = v" if "v \<in> {Opcode f, RCODE f}" for v
    using that f by (intro nibble_sum) (auto simp: flags_sound_def flags_ok_def)
  have w: "wire_flags f =
     [pack_bits [of_bool (bit (QR f) 0), of_bool (bit (Opcode f) 3), of_bool (bit (Opcode f) 2),
        of_bool (bit (Opcode f) 1), of_bool (bit (Opcode f) 0), of_bool (bit (AA f) 0),
        of_bool (bit (TC f) 0), of_bool (bit (RD f) 0)],
      pack_bits [of_bool (bit (RA f) 0), of_bool (bit (Z f) 0), of_bool (bit (Z f) 0), of_bool (bit (Z f) 0),
        of_bool (bit (RCODE f) 3), of_bool (bit (RCODE f) 2), of_bool (bit (RCODE f) 1),
        of_bool (bit (RCODE f) 0)]]"
    by (simp add: wire_flags_def Let_def four_nibbles del: of_bool_eq_iff)
  show ?thesis
    unfolding w nth_Cons_0 nth_Cons_Suc One_nat_def char2bit_pack8 bits_flags_list bits
    using nib bits(7) by (intro flags_t.equality) simp_all
qed


lemma buf2messageHeader_wire:
  assumes at: "has_at buf 0 (wire_header m)" and f: "flags_sound (msg_flags m)"
  shows "buf2messageHeader buf =
     Inr (m\<lparr>queries := None, answers := None, authorities := None, additional := None\<rparr>)"
proof -
  have b: "wire_flags (msg_flags m) = [wire_flags (msg_flags m) ! 0, wire_flags (msg_flags m) ! 1]"
    by (simp add: wire_flags_def Let_def)
  have "rd_short buf 0 = Inr (msg_id m)" "rd_short buf 4 = Inr (query_count m)"
    "rd_short buf 6 = Inr (answer_count m)" "rd_short buf 8 = Inr (authority_count m)"
    "rd_short buf 10 = Inr (additional_count m)" and fl: "has_at buf 2 (wire_flags (msg_flags m))"
    using at by (auto simp: wire_header_def has_at_append eval_nat_numeral intro!: rd_short_be16)
  moreover have "rd buf 2 = Inr (wire_flags (msg_flags m) ! 0)" "rd buf 3 = Inr (wire_flags (msg_flags m) ! 1)"
    using fl by (subst (asm) b, simp add: has_at_Cons eval_nat_numeral)+
  ultimately show ?thesis
    using bits_flags_wire [OF f] by (auto simp: buf2messageHeader_def intro!: message_t.equality)
qed

section \<open>Sections\<close>

lemma questions_wire:
  assumes at: "has_at buf 0 (concat (map wire_query qs))" and ok: "list_all (\<lambda>q. name_sound (q_name q)) qs"
    and n: "unat (query_count m) = length qs"
  shows "buf2messageQuestion buf m =
     Inr (m\<lparr>queries := Some qs\<rparr>, length (concat (map wire_query qs)))"
proof -
  let ?w = "\<lambda>k. concat (map wire_query (take k qs))"
  let ?I = "\<lambda>k st. st = (length (?w k), take k qs)"
  have "question_step buf k (length (?w k), take k qs) = Inr (length (?w (Suc k)), take (Suc k) qs)"
    if k: "k < length qs" for k
  proof -
    have suc: "?w (Suc k) = ?w k @ wire_query (qs ! k)" using k by (simp add: take_Suc_conv_app_nth)
    have "concat (map wire_query qs) = ?w (Suc k) @ concat (map wire_query (drop (Suc k) qs))"
      by (metis append_take_drop_id concat_append map_append)
    with at suc have "has_at buf (length (?w k)) (wire_query (qs ! k))" by (simp add: has_at_append)
    moreover have "name_sound (q_name (qs ! k))" using ok k by (simp add: list_all_length)
    ultimately show ?thesis using suc k by (simp add: question_step_wire take_Suc_conv_app_nth)
  qed
  then have "\<exists>st. forE (length qs) 0 (question_step buf) (0, []) = Inr st \<and> ?I (0 + length qs) st"
    by (intro forE_rule [where I = ?I]) auto
  then show ?thesis by (simp add: buf2messageQuestion_def n)
qed

lemma answers_wire:
  assumes at: "has_at buf p (concat (map wire_rr rrs))" and ok: "list_all rr_sound rrs"
    and n: "unat (answer_count m) = length rrs"
  shows "buf2messageRR buf m p Answer = Inr (m\<lparr>answers := Some rrs\<rparr>)"
proof -
  let ?w = "\<lambda>k. concat (map wire_rr (take k rrs))"
  let ?I = "\<lambda>k st. st = (p + length (?w k), take k rrs)"
  have "rr_step buf k (p + length (?w k), take k rrs) = Inr (p + length (?w (Suc k)), take (Suc k) rrs)"
    if k: "k < length rrs" for k
  proof -
    have suc: "?w (Suc k) = ?w k @ wire_rr (rrs ! k)" using k by (simp add: take_Suc_conv_app_nth)
    have "concat (map wire_rr rrs) = ?w (Suc k) @ concat (map wire_rr (drop (Suc k) rrs))"
      by (metis append_take_drop_id concat_append map_append)
    with at suc have "has_at buf (p + length (?w k)) (wire_rr (rrs ! k))" by (simp add: has_at_append)
    moreover have "rr_sound (rrs ! k)" using ok k by (simp add: list_all_length)
    ultimately show ?thesis using suc k by (simp add: rr_step_wire take_Suc_conv_app_nth)
  qed
  then have "\<exists>st. forE (length rrs) 0 (rr_step buf) (p, []) = Inr st \<and> ?I (0 + length rrs) st"
    by (intro forE_rule [where I = ?I]) auto
  then show ?thesis by (simp add: buf2messageRR_def n)
qed

section \<open>Messages\<close>

definition message_sound :: "message_t \<Rightarrow> bool" where
  "message_sound m \<longleftrightarrow> flags_sound (msg_flags m) \<and> query_count m > 0 \<and>
     (\<exists>qs. queries m = Some qs \<and> length qs = unat (query_count m) \<and>
        list_all (\<lambda>q. name_sound (q_name q)) qs) \<and>
     (if answer_count m > 0
      then \<exists>rrs. answers m = Some rrs \<and> length rrs = unat (answer_count m) \<and> list_all rr_sound rrs
      else answers m = None) \<and>
     authorities m = None \<and> additional m = None"

text \<open>A datagram that starts with the wire bytes of \<open>m\<close> decodes to \<open>m\<close>, whatever follows them.\<close>

lemma buf2message_wire:
  assumes m: "message_sound m" and at: "has_at (buf_base b) 0 (wire_message m)" and len: "12 < buf_len b"
  shows "buf2message b = Inr m"
proof -
  from m obtain qs where f: "flags_sound (msg_flags m)" and qs: "queries m = Some qs"
    "unat (query_count m) = length qs" "list_all (\<lambda>q. name_sound (q_name q)) qs"
    and none: "authorities m = None" "additional m = None"
    by (auto simp: message_sound_def)
  let ?qw = "concat (map wire_query qs)"
  let ?m0 = "m\<lparr>queries := None, answers := None, authorities := None, additional := None\<rparr>"
  have hd: "has_at (buf_base b) 0 (wire_header m)" and qat: "has_at (buf_base b) 12 ?qw"
    using at qs(1) by (simp_all add: wire_message_def has_at_append)
  have "12 \<le> length (buf_base b)" using hd by (simp add: has_at_def)
  with qat have "has_at (drop 12 (buf_base b)) 0 ?qw" by (simp add: has_at_drop)
  from questions_wire [OF this qs(3), of ?m0] qs(2) buf2messageHeader_wire [OF hd f] len
  have front: "buf2message b = (if answer_count m > 0
      then buf2messageRR (buf_base b) (?m0\<lparr>queries := Some qs\<rparr>) (12 + length ?qw) Answer
      else Inr (?m0\<lparr>queries := Some qs\<rparr>))"
    by (simp add: buf2message_def Let_def)
  show ?thesis
  proof (cases "answer_count m > 0")
    case False
    with m front qs(1) none show ?thesis by (simp add: message_sound_def)
  next
    case True
    with m obtain rrs where rrs: "answers m = Some rrs" "unat (answer_count m) = length rrs"
      "list_all rr_sound rrs" by (auto simp: message_sound_def)
    from at True qs(1) rrs(1) have "has_at (buf_base b) (12 + length ?qw) (concat (map wire_rr rrs))"
      by (simp add: wire_message_def has_at_append)
    from answers_wire [OF this rrs(3), of "?m0\<lparr>queries := Some qs\<rparr>"] True rrs front qs(1) none
    show ?thesis by simp
  qed
qed

lemma message_sound_encodable:
  assumes "message_sound m" "query_count m = 1" "length (wire_message m) \<le> 1500"
  shows "encodable m"
proof -
  from assms obtain qs where "queries m = Some qs" "length qs = 1" "list_all (\<lambda>q. name_sound (q_name q)) qs"
    by (auto simp: message_sound_def)
  moreover have "list_all rr_ok rrs" if "list_all rr_sound rrs" for rrs
    using that by (auto simp: list_all_iff rr_sound_ok)
  ultimately show ?thesis
    using assms
    by (auto simp: encodable_def message_sound_def flags_sound_def name_sound_ok length_Suc_conv)
qed

text \<open>The round trip: what is sent is read back as it was, from a buffer of any size behind it.\<close>

lemma buf2message_message2buf:
  assumes "message_sound m" "query_count m = 1" "length (wire_message m) \<le> 1500" "message2buf m = Inr b"
  shows "buf2message b = Inr m"
proof -
  have b: "b = \<lparr>buf_base = filled 1500 (wire_message m), buf_len = length (wire_message m)\<rparr>"
    using message2buf_correct [OF message_sound_encodable [OF assms(1-3)]] assms(4) by simp
  have "wire_query q \<noteq> []" for q by (simp add: wire_query_def be16_def)
  then have "12 < length (wire_message m)"
    using assms(1,2) by (auto simp: message_sound_def wire_message_def length_Suc_conv)
  then show ?thesis
    unfolding b by (intro buf2message_wire assms(1)) (simp_all add: filled_def has_at_map_Some)
qed

end
