(* ===== verification/Message_Feature.thy ===== *)
theory Message_Feature
  imports Message_Roundtrip
begin

text \<open>
  The key under which the server files a forwarded request, \<open>message2feature_string\<close>: what it consists
  of, and that it tells requests with one question apart exactly by question and id.
\<close>

definition feature_bytes :: "query_t \<Rightarrow> byte list" where
  "feature_bytes q = q_name q @ le16 (q_class q) @ le16 (q_type q)"

definition feature_of :: "message_t \<Rightarrow> string_t" where
  "feature_of m = concat (map feature_bytes (the (queries m))) @ le16 (msg_id m)"

lemma length_feature_bytes [simp]: "length (feature_bytes q) = length (q_name q) + 4"
  by (simp add: feature_bytes_def)

lemma feature_length_sum:
  assumes "k \<le> length qs"
  shows "forE k 0 (feature_length m qs) s = Inr (s + length (concat (map feature_bytes (take k qs))))"
  using assms
proof (induction k)
  case (Suc k)
  then show ?case
    by (simp add: forE_Suc_right feature_length_def arr_simps take_Suc_conv_app_nth del: forE.simps)
qed simp

lemma feature_step_correct:
  assumes "k < length qs" "length p + length (feature_bytes (qs ! k)) \<le> cap"
  shows "feature_step qs k (filled cap p, length p) =
     Inr (filled cap (p @ feature_bytes (qs ! k)), length (p @ feature_bytes (qs ! k)))"
  using assms by (simp add: feature_step_def arr_simps feature_bytes_def Let_def)

lemma message2feature_string_correct:
  assumes qs: "queries m = Some qs" and n: "unat (query_count m) = length qs"
  shows "message2feature_string m = Inr (feature_of m)"
proof -
  let ?w = "\<lambda>k. concat (map feature_bytes (take k qs))"
  let ?cap = "2 + length (?w (length qs))"
  let ?I = "\<lambda>k st. st = (filled ?cap (?w k), length (?w k))"
  have "feature_step qs k (filled ?cap (?w k), length (?w k)) =
      Inr (filled ?cap (?w (Suc k)), length (?w (Suc k)))" if k: "k < length qs" for k
  proof -
    have suc: "?w (Suc k) = ?w k @ feature_bytes (qs ! k)" using k by (simp add: take_Suc_conv_app_nth)
    have "?w (length qs) = ?w (Suc k) @ concat (map feature_bytes (drop (Suc k) qs))"
      by (metis append_take_drop_id concat_append map_append take_all_iff order_refl)
    then have "length (?w k) + length (feature_bytes (qs ! k)) \<le> ?cap" using suc by simp
    from feature_step_correct [OF k this] suc show ?thesis by simp
  qed
  then have "\<exists>st. forE (length qs) 0 (feature_step qs) (malloc_cells ?cap, 0) = Inr st \<and>
      ?I (0 + length qs) st"
    by (intro forE_rule [where I = ?I]) (auto simp: filled_Nil)
  moreover have "(if unat (query_count m) = 0 then Inr [] else or_fail Uninitialised (queries m)) = Inr qs"
    using qs n by (cases qs) auto
  ultimately show ?thesis
    using n qs
    by (simp add: message2feature_string_def Let_def feature_length_sum arr_simps feature_of_def
        del: add_2_eq_Suc add_2_eq_Suc')
qed

lemma feature_of_inject:
  assumes "queries m = Some [q]" "queries m' = Some [q']"
  shows "feature_of m = feature_of m' \<longleftrightarrow> q = q' \<and> msg_id m = msg_id m'"
  using assms
  by (cases q; cases q') (auto simp: feature_of_def feature_bytes_def append_eq_append_conv)

end
