(* ===== verification/Message_Departures.thy ===== *)
theory Message_Departures
  imports Message_Feature
begin

text \<open>
  What the codec does outside the messages of the round trip: a packet with two questions, records of
  a type it does not know, the root name, names longer than the arrays on the stack, names whose
  pointers form a loop, addresses of a wrong length and datagrams without a question section.
\<close>

unbundle bit_operations_syntax

section \<open>The encoder\<close>

text \<open>
  The second question starts two bytes early and covers the class of the first, and the length
  announced for the packet is larger than what was written, so indeterminate memory is sent.
\<close>

lemma put_query_filled_over:
  assumes "queries m = Some qs" "k < length qs" "name_ok (q_name (qs ! k))" "length old \<le> 2"
    "length p + length (wire_query (qs ! k)) \<le> cap" "start + bufPos = length p"
  shows "put_query m start k (filled cap (p @ old), bufPos, endPos) =
     Inr (filled cap (p @ wire_query (qs ! k)), bufPos + length (q_name (qs ! k)) + 4,
          endPos + bufPos + length (q_name (qs ! k)) + 6)"
  using assms by (simp add: put_query_def arr_simps put_name_filled_over wire_query_def add.assoc)

lemma message2buf_two_questions:
  assumes f: "flags_ok (msg_flags m)" and q: "queries m = Some [q1, q2]" "query_count m = 2"
    and nm: "name_ok (q_name q1)" "name_ok (q_name q2)" and a: "answer_count m = 0"
    and room: "length (q_name q1) + length (q_name q2) + 24 \<le> 1500"
  shows "message2buf m =
     Inr \<lparr>buf_base = filled 1500 (wire_header m @ wire_name (q_name q1) @ be16 (q_type q1) @ wire_query q2),
          buf_len = 28 + 2 * length (q_name q1) + length (q_name q2)\<rparr>"
proof -
  let ?p = "wire_header m @ wire_name (q_name q1) @ be16 (q_type q1)"
  let ?b = "filled 1500 (wire_header m @ wire_name (q_name q1) @ be16 (q_type q1) @ be16 (q_class q1))"
    and ?n = "length (q_name q1)"
  have first: "put_query m 12 0 (filled 1500 (wire_header m), 0, 12) = Inr (?b, ?n + 4, ?n + 18)"
    using put_query_filled [OF q(1), of 0 "wire_header m" 1500 12 0 12] nm room
    by (simp add: wire_query_def)
  have second: "put_query m 12 (Suc 0) (?b, ?n + 4, ?n + 18) =
      Inr (filled 1500 (wire_header m @ wire_name (q_name q1) @ be16 (q_type q1) @ wire_query q2),
        ?n + length (q_name q2) + 8, 28 + 2 * ?n + length (q_name q2))"
    using put_query_filled_over [OF q(1), of "Suc 0" "be16 (q_class q1)" ?p 1500 12 "?n + 4" "?n + 18"] nm room
    by simp
  have "forE 2 0 (put_query m 12) (filled 1500 (wire_header m), 0, 12) =
      bindE (put_query m 12 0 (filled 1500 (wire_header m), 0, 12)) (put_query m 12 (Suc 0))"
    by (simp add: numeral_2_eq_2 forE_one)
  then show ?thesis
    using f a
    by (simp add: message2buf_def message2bufHeader_correct message2bufQuestion_def q(2) first second
        del: forE.simps)
qed

text \<open>
  A record of another type: two of the four bytes of its ttl stay, nothing announces its data, and the
  next record overwrites the rest.
\<close>

lemma put_record_other_type:
  assumes "answers m = Some rrs" "k < length rrs" "name_ok (rr_name (rrs ! k))"
    "length p + length (wire_rr_head (rrs ! k)) \<le> cap" "start + bufPos = length p"
    "rr_type (rrs ! k) \<notin> {1, 5, 28}"
  shows "put_record m start k (filled cap p, bufPos) =
     Inr (filled cap (p @ wire_rr_head (rrs ! k)), bufPos + length (wire_rr_head (rrs ! k)) - 2)"
  using assms(6) put_record_head [OF assms(1-5)]
  by (simp add: put_rdata_def split: rdata_t.splits)

section \<open>The decoder\<close>

lemma question_step_root:
  "rd buf p = Inr 0 \<Longrightarrow> question_step buf k (p, qs) = Inl Out_Of_Bounds"
  by (simp add: question_step_def qname_loop.simps [of buf p] finish_name_def)

text \<open>A name that does not fit the 512 bytes is written past the end of the array.\<close>

lemma copy_letters_overflow:
  assumes l: "has_at buf p l" and acc: "length acc \<le> 512" "512 < length acc + length l"
  shows "copy_letters buf p (name_buf acc) (length acc) (length l) = Inl Out_Of_Bounds"
proof -
  define k where "k = 512 - length acc"
  have k: "k < length l" "length acc + k = 512" using acc by (simp_all add: k_def)
  let ?f = "\<lambda>k arr. bindE (rd buf (p + k)) (\<lambda>b. arr_set arr (length acc + k) b)"
  have "has_at buf p (take k l)" "length (take k l) = k"
    using has_at_append [of buf p "take k l" "drop k l"] l k by auto
  then have run: "forE k 0 ?f (name_buf acc) = Inr (name_buf (acc @ take k l))"
    using copy_letters_name_buf [of buf p "take k l" acc] k by (simp add: copy_letters_def)
  have "rd buf (p + k) = Inr (l ! k)" using l k(1) by (simp add: has_at_nth rd_eq_Inr_iff)
  then have stop: "?f k (name_buf (acc @ take k l)) = Inl Out_Of_Bounds"
    using k by (simp add: arr_set_def name_buf_def)
  have full: "forE (Suc k) 0 ?f (name_buf acc) = Inl Out_Of_Bounds"
    unfolding forE_Suc_right run by (simp only: bindE.simps add_0 stop)
  obtain n where n: "length l = Suc k + n" using k(1) by (auto dest: less_imp_Suc_add)
  show ?thesis
    unfolding copy_letters_def n forE_append full by simp
qed

lemma copy_label_overflow:
  assumes "has_at buf p l" "length acc \<le> 512" "512 \<le> length acc + length l"
  shows "copy_label buf p (name_buf acc) (length acc) (length l) = Inl Out_Of_Bounds"
proof (cases "512 < length acc + length l")
  case True
  then show ?thesis by (simp add: copy_label_def copy_letters_overflow assms)
next
  case False
  with copy_letters_name_buf [OF assms(1), of acc] assms(2,3) show ?thesis
    by (simp add: copy_label_def arr_set_def name_buf_def)
qed

lemma qname_loop_overflow:
  assumes "has_at buf p (wire_labels ls)" "labels_below 256 ls" "length acc \<le> 512"
    "512 < length acc + length (dotted ls)"
  shows "qname_loop buf p (name_buf acc) (length acc) = Inl Out_Of_Bounds"
  using assms
proof (induction ls arbitrary: p acc)
  case (Cons l ls)
  from Cons.prems(1) have b: "rd buf p = Inr (of_nat (length l))" "has_at buf (Suc p) l"
    "has_at buf (Suc p + length l) (wire_labels ls)"
    by (simp_all add: has_at_Cons has_at_append)
  have l: "unat (of_nat (length l) :: byte) = length l" "l \<noteq> []" "labels_below 256 ls"
    using Cons.prems(2) by (simp_all add: unat_of_nat)
  then have nz: "(of_nat (length l) :: byte) \<noteq> 0" by (metis length_0_conv unat_0)
  show ?case
  proof (cases "length acc + length l < 512")
    case True
    with copy_label_name_buf [OF b(2) True] Cons.IH [OF b(3) l(3), of "acc @ l @ [dot]"] Cons.prems(4)
    show ?thesis by (simp add: qname_loop.simps [of buf p] b(1) nz l(1) Let_def)
  next
    case False
    with copy_label_overflow [OF b(2) Cons.prems(3)] show ?thesis
      by (simp add: qname_loop.simps [of buf p] b(1) nz l(1) Let_def)
  qed
qed simp

lemma question_step_overflow:
  assumes "has_at buf p (wire_labels ls)" "labels_below 256 ls" "512 < length (dotted ls)"
  shows "question_step buf k (p, qs) = Inl Out_Of_Bounds"
  using qname_loop_overflow [OF assms(1,2), of "[]"] assms(3)
  by (simp add: question_step_def name_buf_Nil)

text \<open>
  The data of an A record is copied by the announced length but read as four bytes: without four
  bytes the decoder leaves the copy, whatever the datagram holds.
\<close>

lemma rr_payload_short_address:
  assumes "length bs < 4"
  shows "rr_payload 1 (name_buf bs) (Suc (length bs)) = Inl Out_Of_Bounds"
proof -
  have "512 - length bs = Suc (511 - length bs)" using assms by simp
  then have "finish_name (name_buf bs) (Suc (length bs)) = Inr (name_buf bs)"
    using finish_name_short [of bs] assms by simp
  with assms show ?thesis
    by (simp add: rr_payload_def arr_read_name_buf string2inet4address_short)
qed

text \<open>A datagram of at most 12 bytes leaves the pointer to the questions unset, whatever it counts.\<close>

lemma buf2message_short:
  assumes "buf_len b \<le> 12" "buf2message b = Inr m" "answer_count m = 0"
  shows "queries m = None"
  using assms
  by (auto simp: buf2message_def buf2messageHeader_def Let_def bindE_eq_Inr_iff buf2messageRR_def
      split: if_splits)

end
