(* ===== verification/Logging.thy ===== *)
theory Logging
  imports Message_Feature
begin

text \<open>
  \<open>src/src/logging.c\<close> and what the codec logs: the levels and their order, the line \<open>logging_printf\<close>
  writes, \<open>bytes2hex\<close>, and the calls made by \<open>message_log\<close>, \<open>message_free\<close> and \<open>printMessage\<close>. A log
  call is its level, the source line it stands on (the program passes \<open>__LINE__\<close>, which determines the
  format) and the strings it inserts; producing these strings is where logging can go wrong.
\<close>

unbundle bit_operations_syntax

section \<open>Levels\<close>

datatype logging_level_t =
    logging_debug_level
  | logging_information_level
  | logging_warning_level
  | logging_error_level

fun level_code :: "logging_level_t \<Rightarrow> nat" where
  "level_code logging_debug_level = 0"
| "level_code logging_information_level = 1"
| "level_code logging_warning_level = 2"
| "level_code logging_error_level = 3"

lemma level_code_inject [simp]: "level_code a = level_code b \<longleftrightarrow> a = b"
  by (cases a; cases b) auto

instantiation logging_level_t :: linorder
begin

definition less_eq_logging_level_t :: "logging_level_t \<Rightarrow> logging_level_t \<Rightarrow> bool" where
  "less_eq_logging_level_t a b \<longleftrightarrow> level_code a \<le> level_code b"

definition less_logging_level_t :: "logging_level_t \<Rightarrow> logging_level_t \<Rightarrow> bool" where
  "less_logging_level_t a b \<longleftrightarrow> level_code a < level_code b"

instance
  by standard
    (auto simp: less_eq_logging_level_t_def less_logging_level_t_def dest: order_antisym)

end

section \<open>Writing a line\<close>

fun level_head :: "logging_level_t \<Rightarrow> byte list" where
  "level_head logging_debug_level = 27 # ascii ''[34mDEBUG'' @ 27 # ascii ''[0m''"
| "level_head logging_information_level = 27 # ascii ''[32mINFO'' @ 27 # ascii ''[0m''"
| "level_head logging_warning_level = 27 # ascii ''[33mWARN'' @ 27 # ascii ''[0m''"
| "level_head logging_error_level = 27 # ascii ''[31mERROR'' @ 27 # ascii ''[0m''"

text \<open>
  \<open>text\<close> is what the format and its arguments expand to; \<open>vsnprintf\<close> keeps 511 bytes of it. Nothing
  is printed below the threshold, the global \<open>logging_level\<close>.
\<close>

definition logging_printf ::
    "logging_level_t \<Rightarrow> logging_level_t \<Rightarrow> byte list \<Rightarrow> nat \<Rightarrow> byte list \<Rightarrow> byte list option" where
  "logging_printf threshold level filename line txt =
     (if threshold \<le> level then
        let buf = take 511 (c_str txt)
        in Some (ascii ''['' @ level_head level @ ascii ''] '' @ filename @ ascii '':'' @
                 dec_digits line @ ascii '': '' @ buf @ [10])
      else None)"

lemma logging_printf_filter: "logging_printf threshold level f l txt = None \<longleftrightarrow> level < threshold"
  by (auto simp: logging_printf_def Let_def)

definition bytes2hex_step :: "byte list \<Rightarrow> nat \<Rightarrow> cells \<Rightarrow> cells res" where
  "bytes2hex_step data i result =
     bindE (arr_get data i) (\<lambda>v.
     let buf = hex2 v in
     bindE (cells_write result (2 * i) [buf ! 0]) (\<lambda>result. cells_write result (2 * i + 1) [buf ! 1]))"

definition bytes2hex :: "byte list \<Rightarrow> nat \<Rightarrow> cells res" where
  "bytes2hex data n =
     bindE (cells_write (malloc_cells (2 * n + 1)) (2 * n) [0]) (forE n 0 (bytes2hex_step data))"

section \<open>Logging a message\<close>

record log_call =
  log_level :: logging_level_t
  log_line :: nat
  log_args :: "byte list list"

definition log_debug :: "nat \<Rightarrow> byte list list \<Rightarrow> log_call" where
  "log_debug line args = \<lparr>log_level = logging_debug_level, log_line = line, log_args = args\<rparr>"

definition log_query :: "query_t list \<Rightarrow> nat \<Rightarrow> log_call list \<Rightarrow> log_call list res" where
  "log_query qs i out =
     bindE (arr_get qs i) (\<lambda>q. Inr (out @ [log_debug 151 [c_str (string_print (q_name q))]]))"

definition log_answer :: "resource_record_t list \<Rightarrow> nat \<Rightarrow> log_call list \<Rightarrow> log_call list res" where
  "log_answer rrs i out =
     bindE (arr_get rrs i) (\<lambda>rr.
     let domain_name = c_str (string_print (rr_name rr)) in
     if rr_type rr = 1 then
       (case rr_data rr of
          Address4 a \<Rightarrow> bindE (inet4address2string a) (\<lambda>s.
            Inr (out @ [log_debug 166 [domain_name, c_str (string_print s)]]))
        | _ \<Rightarrow> Inl Uninitialised)
     else if rr_type rr = 5 then
       (case rr_data rr of
          Cname d \<Rightarrow> Inr (out @ [log_debug 176 [domain_name, c_str (string_print d)]])
        | _ \<Rightarrow> Inl Uninitialised)
     else if rr_type rr = 28 then
       (case rr_data rr of
          Address6 bs \<Rightarrow> bindE (inet6address2string bs) (\<lambda>s.
            Inr (out @ [log_debug 188 [domain_name, c_str (string_print s)]]))
        | _ \<Rightarrow> Inl Uninitialised)
     else Inr out)"

text \<open>The sections a count announces are read through the section pointers.\<close>

definition section_of :: "u16 \<Rightarrow> 'a list option \<Rightarrow> 'a list res" where
  "section_of n s = (if n = 0 then Inr [] else or_fail Uninitialised s)"

definition message_log :: "message_t \<Rightarrow> log_call list res" where
  "message_log message =
     bindE (section_of (query_count message) (queries message)) (\<lambda>qs.
     bindE (forE (unat (query_count message)) 0 (log_query qs) [log_debug 146 []]) (\<lambda>out.
     bindE (section_of (answer_count message) (answers message)) (\<lambda>rrs.
     forE (unat (answer_count message)) 0 (log_answer rrs) out)))"

text \<open>
  \<open>message_free\<close> logs the message and then frees the names and data the same loops find; the memory
  itself is not modelled, so what remains is whether every pointer it follows was set.
\<close>

definition free_query :: "query_t list \<Rightarrow> nat \<Rightarrow> unit \<Rightarrow> unit res" where
  "free_query qs i _ = bindE (arr_get qs i) (\<lambda>_. Inr ())"

definition free_answer :: "resource_record_t list \<Rightarrow> nat \<Rightarrow> unit \<Rightarrow> unit res" where
  "free_answer rrs i _ =
     bindE (arr_get rrs i) (\<lambda>rr.
     if rr_type rr \<in> {1, 28, 5} then (if rr_data rr = Unset then Inl Uninitialised else Inr ())
     else Inr ())"

definition message_free :: "message_t \<Rightarrow> log_call list res" where
  "message_free message =
     bindE (message_log message) (\<lambda>out.
     bindE (section_of (query_count message) (queries message)) (\<lambda>qs.
     bindE (forE (unat (query_count message)) 0 (free_query qs) ()) (\<lambda>_.
     bindE (section_of (answer_count message) (answers message)) (\<lambda>rrs.
     bindE (forE (unat (answer_count message)) 0 (free_answer rrs) ()) (\<lambda>_. Inr out)))))"


section \<open>Printing a message\<close>

text \<open>
  \<open>printMessage\<close>, a debugging aid nothing calls: the texts it logs, in order, all at debug level.
  Of the records it prints the header only, the data being commented out.
\<close>

definition dec_int :: "int \<Rightarrow> byte list" where
  "dec_int i = (if i < 0 then ascii ''-'' @ dec_digits (nat (- i)) else dec_digits (nat i))"

definition log_text :: "string \<Rightarrow> byte list \<Rightarrow> string \<Rightarrow> byte list" where
  "log_text pre arg post = ascii pre @ arg @ ascii post"

definition opcode_text :: "byte \<Rightarrow> string" where
  "opcode_text c = (if c = 0 then ''Standard'' else if c = 1 then ''Inverse''
     else if c = 2 then ''Server status request'' else ''Unknown'')"

definition rcode_text :: "byte \<Rightarrow> string" where
  "rcode_text c = (if c = 0 then ''No error condition'' else if c = 1 then ''Format error''
     else if c = 2 then ''Server failure'' else if c = 3 then ''Name Error''
     else if c = 4 then ''Not Implemented'' else if c = 5 then ''Refused'' else ''Unknown error'')"

definition print_flags :: "flags_t \<Rightarrow> byte list list" where
  "print_flags f =
     (let line = (\<lambda>s. log_text s [] [CHR 0x0A]); query = QR f = 0 in
      [line ''[Flags]'',
       log_text ''QR: '' [QR f + 48] ''  '', line (if query then ''Query'' else ''Response''),
       log_text ''Opcode: '' [Opcode f + 48] ''  '', line (opcode_text (Opcode f)),
       log_text ''AA: '' [AA f + 48] ''  '',
       line (if query then ''Useless in query''
             else if AA f = 0 then ''Server is not an authority'' else ''Server is an authority''),
       log_text ''TC: '' [TC f + 48] ''  '',
       line (if TC f = 0 then ''Message is not truncated'' else ''Message is truncated''),
       log_text ''RD: '' [RD f + 48] ''  '',
       line (if RD f = 0 then ''Not recursion Desired'' else ''Recursion Desired''),
       log_text ''RA: '' [RA f + 48] ''  '',
       line (if query then ''Useless in query''
             else if RA f = 0 then ''Server is not support for recursive query''
             else ''Server is support for recursive query''),
       log_text ''Z: '' [Z f + 48] (''  '' @ [CHR 0x0A]),
       log_text ''RCODE: '' [RCODE f + 48] ''  '',
       line (if query then ''Useless in query'' else rcode_text (RCODE f))])"

text \<open>One call per letter, then an empty one: the loop over labels runs once.\<close>

definition print_name :: "string_t \<Rightarrow> byte list list" where
  "print_name nm = map (\<lambda>c. [c]) nm @ [[]]"

definition print_query :: "query_t list \<Rightarrow> nat \<Rightarrow> byte list list \<Rightarrow> byte list list res" where
  "print_query qs queryNum out =
     bindE (arr_get qs queryNum) (\<lambda>q.
     Inr (out @ [log_text ''[Query '' (dec_digits queryNum) ('']'' @ [CHR 0x0A]), ascii ''QNAME: ''] @
            print_name (q_name q) @ [[10]]))"

definition print_answer :: "resource_record_t list \<Rightarrow> nat \<Rightarrow> byte list list \<Rightarrow> byte list list res" where
  "print_answer rrs responseNum out =
     bindE (arr_get rrs responseNum) (\<lambda>rr.
     let nl = [CHR 0x0A] in
     Inr (out @
       [log_text ''[RESPONSE '' (dec_digits responseNum) ('']'' @ nl), ascii ''NAME: ''] @
       print_name (rr_name rr) @ [[10],
        log_text ''TYPE: '' (dec_digits (unat (rr_type rr))) nl,
        log_text ''CLASS: '' (dec_digits (unat (rr_class rr))) nl,
        log_text ''TTL: '' (dec_int (sint (rr_ttl rr))) nl,
        log_text ''RDLENGTH: '' (dec_digits (unat (rr_length rr))) nl,
        ascii ''RData: ''] @
       (if rr_type rr \<in> {1, 5, 28} then [] else [ascii ''Not analyzed'']) @ [[10]]))"

definition printMessage :: "message_t \<Rightarrow> byte list list res" where
  "printMessage message =
     (let nl = [CHR 0x0A] in
      bindE (section_of (query_count message) (queries message)) (\<lambda>qs.
      bindE (forE (unat (query_count message)) 0 (print_query qs)
        ([log_text ''------DNS Message------'' [] nl,
          log_text ''id: '' (hex_digits (unat (msg_id message))) nl] @
         print_flags (msg_flags message) @
         [log_text ''QDCOUNT: '' (dec_digits (unat (query_count message))) nl,
          log_text ''ANCOUNT: '' (dec_digits (unat (answer_count message))) nl,
          log_text ''NSCOUNT: '' (dec_digits (unat (authority_count message))) nl,
          log_text ''ARCOUNT: '' (dec_digits (unat (additional_count message))) nl,
          log_text ''[QUESTION]'' [] nl])) (\<lambda>out.
      bindE (or_fail Uninitialised (queries message)) (\<lambda>qs.
      bindE (arr_get qs 0) (\<lambda>q.
      let out = out @ [log_text ''QTYPE: '' (dec_digits (unat (q_type q))) nl,
                       log_text ''QCLASS: '' (dec_digits (unat (q_class q))) nl] in
      if answer_count message > 0 then
        bindE (or_fail Uninitialised (answers message)) (\<lambda>rrs.
        forE (unat (answer_count message)) 0 (print_answer rrs)
          (out @ [log_text ''[ANSWER]'' [] nl]))
      else Inr out)))))"

section \<open>Well-formed messages\<close>

text \<open>Counts and sections agree, and the data of a record has the form its type says.\<close>

definition rr_typed :: "resource_record_t \<Rightarrow> bool" where
  "rr_typed rr \<longleftrightarrow>
     (rr_type rr = 1 \<longrightarrow> (\<exists>a. rr_data rr = Address4 a)) \<and>
     (rr_type rr = 5 \<longrightarrow> (\<exists>d. rr_data rr = Cname d)) \<and>
     (rr_type rr = 28 \<longrightarrow> (\<exists>bs. rr_data rr = Address6 bs \<and> length bs = 16))"

definition message_ok :: "message_t \<Rightarrow> bool" where
  "message_ok m \<longleftrightarrow>
     (query_count m > 0 \<longrightarrow> (\<exists>qs. queries m = Some qs \<and> length qs = unat (query_count m))) \<and>
     (answer_count m > 0 \<longrightarrow> (\<exists>rrs. answers m = Some rrs \<and> length rrs = unat (answer_count m) \<and>
        list_all rr_typed rrs))"

lemma message_okE:
  assumes "message_ok m"
  obtains qs rrs where "section_of (query_count m) (queries m) = Inr qs" "length qs = unat (query_count m)"
    "section_of (answer_count m) (answers m) = Inr rrs" "length rrs = unat (answer_count m)"
    "list_all rr_typed rrs"
proof -
  from assms have "\<exists>qs. section_of (query_count m) (queries m) = Inr qs \<and> length qs = unat (query_count m)"
    by (auto simp: message_ok_def section_of_def word_neq_0_conv)
  moreover from assms have "\<exists>rrs. section_of (answer_count m) (answers m) = Inr rrs \<and>
      length rrs = unat (answer_count m) \<and> list_all rr_typed rrs"
    by (auto simp: message_ok_def section_of_def word_neq_0_conv)
  ultimately show thesis using that by blast
qed

lemma log_answer_ok:
  assumes "list_all rr_typed rrs" "i < length rrs"
  shows "\<exists>out'. log_answer rrs i out = Inr out'"
proof -
  have t: "rr_typed (rrs ! i)" using assms by (simp add: list_all_length)
  then have v6: "\<exists>s. inet6address2string bs = Inr s" if "rr_data (rrs ! i) = Address6 bs" "rr_type (rrs ! i) = 28" for bs
    using that inet6address2string_text [of bs] by (auto simp: rr_typed_def)
  with t assms(2) show ?thesis
    by (auto simp: log_answer_def arr_simps rr_typed_def inet4address2string_text Let_def split: rdata_t.splits)
qed

text \<open>Logging and freeing a well-formed message follow no bad pointer.\<close>

lemma message_log_ok:
  assumes "message_ok m"
  shows "\<exists>out. message_log m = Inr out"
proof -
  from assms obtain qs rrs where m: "section_of (query_count m) (queries m) = Inr qs"
    "length qs = unat (query_count m)" "section_of (answer_count m) (answers m) = Inr rrs"
    "length rrs = unat (answer_count m)" "list_all rr_typed rrs" by (rule message_okE)
  have "\<exists>out. forE (unat (query_count m)) 0 (log_query qs) o1 = Inr out \<and> True" for o1
    by (rule forE_rule [where I = "\<lambda>_ _. True"]) (auto simp: log_query_def arr_simps m(2) [symmetric])
  moreover have "\<exists>out. forE (unat (answer_count m)) 0 (log_answer rrs) o1 = Inr out \<and> True" for o1
    by (rule forE_rule [where I = "\<lambda>_ _. True"]) (use log_answer_ok [OF m(5)] m(4) in auto)
  ultimately show ?thesis
    by (simp add: message_log_def m(1,3) bindE_eq_Inr_iff) metis
qed

lemma message_free_ok:
  assumes "message_ok m"
  shows "message_free m = message_log m"
proof -
  from assms obtain qs rrs where m: "section_of (query_count m) (queries m) = Inr qs"
    "length qs = unat (query_count m)" "section_of (answer_count m) (answers m) = Inr rrs"
    "length rrs = unat (answer_count m)" "list_all rr_typed rrs" by (rule message_okE)
  have "\<exists>u. forE (unat (query_count m)) 0 (free_query qs) () = Inr u \<and> True"
    by (rule forE_rule [where I = "\<lambda>_ _. True"]) (auto simp: free_query_def arr_simps m(2) [symmetric])
  moreover have "\<exists>u. free_answer rrs i () = Inr u" if "i < length rrs" for i
  proof -
    have "rr_typed (rrs ! i)" using m(5) that by (simp add: list_all_length)
    then show ?thesis using that by (auto simp: free_answer_def arr_simps rr_typed_def)
  qed
  then have "\<exists>u. forE (unat (answer_count m)) 0 (free_answer rrs) () = Inr u \<and> True"
    by (intro forE_rule [where I = "\<lambda>_ _. True"]) (auto simp: m(4))
  ultimately show ?thesis
    using message_log_ok [OF assms] by (auto simp: message_free_def m(1,3))
qed


section \<open>Decoded messages are well formed\<close>

lemma question_step_length:
  "question_step buf k (p, qs) = Inr (p', qs') \<Longrightarrow> length qs' = Suc (length qs)"
  by (auto simp: question_step_def bindE_eq_Inr_iff Let_def)

lemma buf2messageQuestion_ok:
  assumes "buf2messageQuestion buf m = Inr (m', n)"
  shows "\<exists>qs. m' = m\<lparr>queries := Some qs\<rparr> \<and> length qs = unat (query_count m)"
proof -
  from assms obtain qs where
    run: "forE (unat (query_count m)) 0 (question_step buf) (0, []) = Inr (n, qs)" and m': "m' = m\<lparr>queries := Some qs\<rparr>"
    by (auto simp: buf2messageQuestion_def bindE_eq_Inr_iff)
  have "length (snd (n, qs)) = 0 + unat (query_count m)"
    by (rule forE_inv [OF run, where I = "\<lambda>k st. length (snd st) = k"]) (auto dest: question_step_length)
  with m' show ?thesis by (intro exI [of _ qs]) simp
qed

lemma rr_payload_typed:
  assumes "rr_payload ty RData n = Inr pay"
  shows "(ty = 1 \<longrightarrow> (\<exists>a. pay = Address4 a)) \<and> (ty = 5 \<longrightarrow> (\<exists>d. pay = Cname d)) \<and>
     (ty = 28 \<longrightarrow> (\<exists>bs. pay = Address6 bs \<and> length bs = 16))"
  using assms
  by (auto simp: rr_payload_def bindE_eq_Inr_iff string2inet6address_def arr_read_eq_Inr_iff split: if_splits)

lemma rr_step_typed:
  assumes "rr_step buf k (p, rrs) = Inr (p', rrs')"
  shows "\<exists>rr. rrs' = rrs @ [rr] \<and> rr_typed rr"
  using assms by (auto simp: rr_step_def bindE_eq_Inr_iff Let_def rr_typed_def dest: rr_payload_typed)

lemma buf2messageRR_ok:
  assumes "buf2messageRR buf m p Answer = Inr m'"
  shows "\<exists>rrs. m' = m\<lparr>answers := Some rrs\<rparr> \<and> length rrs = unat (answer_count m) \<and> list_all rr_typed rrs"
proof -
  from assms obtain e rrs where run: "forE (unat (answer_count m)) 0 (rr_step buf) (p, []) = Inr (e, rrs)"
    and m': "m' = m\<lparr>answers := Some rrs\<rparr>"
    by (auto simp: buf2messageRR_def bindE_eq_Inr_iff)
  have "length (snd (e, rrs)) = 0 + unat (answer_count m) \<and> list_all rr_typed (snd (e, rrs))"
    by (rule forE_inv [OF run, where I = "\<lambda>k st. length (snd st) = k \<and> list_all rr_typed (snd st)"])
      (auto dest: rr_step_typed)
  with m' show ?thesis by (intro exI [of _ rrs]) simp
qed

lemma buf2message_ok:
  assumes dec: "buf2message b = Inr m" and long: "12 < buf_len b"
  shows "message_ok m"
proof -
  from dec long obtain m0 m1 n where m0: "buf2messageQuestion (drop 12 (buf_base b)) m0 = Inr (m1, n)"
    and m: "(if answer_count m1 > 0 then buf2messageRR (buf_base b) m1 (12 + n) Answer else Inr m1) = Inr m"
    by (auto simp: buf2message_def Let_def bindE_eq_Inr_iff)
  from buf2messageQuestion_ok [OF m0] obtain qs where
    qs: "m1 = m0\<lparr>queries := Some qs\<rparr>" "length qs = unat (query_count m0)" by blast
  show ?thesis
  proof (cases "answer_count m1 > 0")
    case True
    with m have "buf2messageRR (buf_base b) m1 (12 + n) Answer = Inr m" by simp
    from buf2messageRR_ok [OF this] qs show ?thesis by (auto simp: message_ok_def)
  next
    case False
    with m qs show ?thesis by (auto simp: message_ok_def)
  qed
qed

text \<open>A datagram that counts questions but has none is decoded, and logging it reads an unset pointer.\<close>

lemma message_log_unset:
  "query_count m \<noteq> 0 \<Longrightarrow> queries m = None \<Longrightarrow> message_log m = Inl Uninitialised"
  by (simp add: message_log_def section_of_def)

section \<open>Hexadecimal text\<close>

lemma bytes2hex_correct:
  assumes "n \<le> length data"
  shows "bytes2hex data n = Inr (map Some (concat (map hex2 (take n data)) @ [0]))"
proof -
  let ?h = "\<lambda>k. concat (map hex2 (take k data))"
  let ?I = "\<lambda>k cs. cs = map Some (?h k) @ replicate (2 * (n - k)) None @ [Some 0]"
  have len: "length (?h k) = 2 * k" if "k \<le> length data" for k
    using that by (induction k) (auto simp: take_Suc_conv_app_nth hex2_def)
  have "\<exists>cs'. bytes2hex_step data k cs = Inr cs' \<and> ?I (Suc k) cs'" if I: "?I k cs" and k: "k < n" for k cs
  proof -
    have "replicate (2 * (n - k)) (None :: byte option) = None # None # replicate (2 * (n - Suc k)) None"
      using k by (simp add: Suc_diff_Suc [symmetric])
    with I k assms len [of k] show ?thesis
      by (auto simp: bytes2hex_step_def arr_simps Let_def cells_write_def arr_write_def
          take_Suc_conv_app_nth hex2_def)
  qed
  moreover have "cells_write (malloc_cells (2 * n + 1)) (2 * n) [0] =
      Inr (replicate (2 * n) None @ [Some 0])"
    by (simp add: cells_write_def arr_write_def malloc_cells_def del: replicate_Suc)
  ultimately have "\<exists>cs'. bytes2hex data n = Inr cs' \<and> ?I (0 + n) cs'"
    unfolding bytes2hex_def
    by (simp only: bindE.simps, intro forE_rule [where I = ?I]) auto
  then show ?thesis by simp
qed

end
