(* ===== verification/Config.thy ===== *)
theory Config
  imports Logging
begin

text \<open>
  The command line of \<open>src/src/config.c\<close>. \<open>config_init\<close> walks over \<open>argv\<close>, whose strings are given
  without their terminators; \<open>argv[argc]\<close> is null. Besides the configuration it returns, it writes the
  global \<open>logging_level\<close> and logs, and \<open>-h\<close> ends the process.
\<close>

unbundle bit_operations_syntax

section \<open>Data\<close>

record dns_config_t =
  upstream_name :: "byte list option"
  ipv4_config_file :: "byte list option"
  ipv6_config_file :: "byte list option"
  cname_config_file :: "byte list option"
  config_level :: logging_level_t

record config_state =
  config :: dns_config_t
  logging_level :: logging_level_t
  config_log :: "log_call list"

datatype config_result = Configured config_state | Exited "log_call list"

definition log_information :: "nat \<Rightarrow> byte list list \<Rightarrow> log_call" where
  "log_information line args =
     \<lparr>log_level = logging_information_level, log_line = line, log_args = args\<rparr>"

definition log_warning :: "nat \<Rightarrow> byte list list \<Rightarrow> log_call" where
  "log_warning line args = \<lparr>log_level = logging_warning_level, log_line = line, log_args = args\<rparr>"

definition config_log_add :: "log_call list \<Rightarrow> config_state \<Rightarrow> config_state" where
  "config_log_add calls st = st\<lparr>config_log := config_log st @ calls\<rparr>"

section \<open>Arguments\<close>

definition char_at :: "byte list \<Rightarrow> nat \<Rightarrow> byte" where
  "char_at s i = (if i < length s then s ! i else 0)"

definition argv_at :: "byte list list \<Rightarrow> nat \<Rightarrow> byte list option" where
  "argv_at argv i = (if i < length argv then Some (argv ! i) else None)"

text \<open>\<open>%s\<close> of a null pointer, as glibc prints it.\<close>

definition printed :: "byte list option \<Rightarrow> byte list" where
  "printed s = (case s of None \<Rightarrow> ascii ''(null)'' | Some t \<Rightarrow> t)"

definition level_of :: "u32 \<Rightarrow> logging_level_t" where
  "level_of n = (if n = 0 then logging_debug_level else if n = 1 then logging_information_level
     else if n = 2 then logging_warning_level else logging_error_level)"

text \<open>
  The body of case \<open>'l'\<close>: the enumeration has no negative constant, so \<open>level\<close> is unsigned and a
  character below \<open>'0'\<close> is a large number.
\<close>

definition set_level :: "byte list option \<Rightarrow> config_state \<Rightarrow> config_state res" where
  "set_level arg st =
     bindE (or_fail Null_Deref arg) (\<lambda>s.
     let level = (scast (char_at s 0) :: u32) - 48 in
     if level > 3 then Inr (config_log_add [log_warning 54 [dec_int (sint level)]] st)
     else Inr (st\<lparr>logging_level := level_of level\<rparr>))"

definition config_help_print :: "log_call list" where
  "config_help_print = map (\<lambda>line. log_information line []) [77..<83]"

definition unknown_option :: "nat \<Rightarrow> byte list \<Rightarrow> config_state \<Rightarrow> config_state" where
  "unknown_option line arg = config_log_add [log_information line [arg]]"

function config_loop :: "byte list list \<Rightarrow> nat \<Rightarrow> config_state \<Rightarrow> config_result res" where
  "config_loop argv i st =
     (if i < length argv then
        let arg = argv ! i; val = argv_at argv (i + 1) in
        if char_at arg 0 = of_char (CHR ''-'') then
          let c = char_at arg 1 in
          if c = of_char (CHR ''h'') then Inr (Exited (config_log st @ config_help_print))
          else if c = of_char (CHR ''s'') then
            config_loop argv (i + 2) (config_log_add [log_information 31 [printed val]]
              (st\<lparr>config := (config st)\<lparr>upstream_name := val\<rparr>\<rparr>))
          else if c = of_char (CHR ''4'') then
            config_loop argv (i + 2) (config_log_add [log_information 36 [printed val]]
              (st\<lparr>config := (config st)\<lparr>ipv4_config_file := val\<rparr>\<rparr>))
          else if c = of_char (CHR ''6'') then
            config_loop argv (i + 2) (config_log_add [log_information 41 [printed val]]
              (st\<lparr>config := (config st)\<lparr>ipv6_config_file := val\<rparr>\<rparr>))
          else if c = of_char (CHR ''c'') then
            config_loop argv (i + 2) (config_log_add [log_information 46 [printed val]]
              (st\<lparr>config := (config st)\<lparr>cname_config_file := val\<rparr>\<rparr>))
          else if c = of_char (CHR ''l'') then
            bindE (set_level val st) (\<lambda>st. config_loop argv (i + 1) (unknown_option 62 arg st))
          else config_loop argv (i + 1) (unknown_option 62 arg st)
        else config_loop argv (i + 1) (unknown_option 68 arg st)
      else Inr (Configured st))"
  by pat_completeness auto
termination
  by (relation "measure (\<lambda>(argv, i, _). length argv - i)") auto

declare config_loop.simps [simp del]

definition default_config :: dns_config_t where
  "default_config =
     \<lparr>upstream_name = Some (ascii ''10.3.9.44''), ipv4_config_file = None, ipv6_config_file = None,
      cname_config_file = None, config_level = logging_information_level\<rparr>"

text \<open>\<open>level\<close> is the global \<open>logging_level\<close> on entry.\<close>

definition config_init :: "logging_level_t \<Rightarrow> byte list list \<Rightarrow> config_result res" where
  "config_init level argv =
     config_loop argv 1 \<lparr>config = default_config, logging_level = level, config_log = [log_debug 19 []]\<rparr>"

section \<open>Command lines that are well formed\<close>

text \<open>An abstract command line: options with their values, and words that are no option.\<close>

datatype cli_opt = Opt_server "byte list" | Opt_ipv4 "byte list" | Opt_ipv6 "byte list"
  | Opt_cname "byte list" | Opt_word "byte list"

fun cli_args :: "cli_opt \<Rightarrow> byte list list" where
  "cli_args (Opt_server v) = [ascii ''-s'', v]"
| "cli_args (Opt_ipv4 v) = [ascii ''-4'', v]"
| "cli_args (Opt_ipv6 v) = [ascii ''-6'', v]"
| "cli_args (Opt_cname v) = [ascii ''-c'', v]"
| "cli_args (Opt_word w) = [w]"

fun cli_ok :: "cli_opt \<Rightarrow> bool" where
  "cli_ok (Opt_word w) \<longleftrightarrow> char_at w 0 \<noteq> 45"
| "cli_ok _ \<longleftrightarrow> True"

fun cli_apply :: "cli_opt \<Rightarrow> dns_config_t \<Rightarrow> dns_config_t" where
  "cli_apply (Opt_server v) c = c\<lparr>upstream_name := Some v\<rparr>"
| "cli_apply (Opt_ipv4 v) c = c\<lparr>ipv4_config_file := Some v\<rparr>"
| "cli_apply (Opt_ipv6 v) c = c\<lparr>ipv6_config_file := Some v\<rparr>"
| "cli_apply (Opt_cname v) c = c\<lparr>cname_config_file := Some v\<rparr>"
| "cli_apply (Opt_word w) c = c"

lemma config_loop_options:
  assumes "list_all cli_ok opts" "argv = pre @ concat (map cli_args opts)" "i = length pre"
  shows "\<exists>logs. config_loop argv i st =
     Inr (Configured (st\<lparr>config := fold cli_apply opts (config st), config_log := logs\<rparr>))"
  using assms
proof (induction opts arbitrary: pre i st)
  case Nil
  then show ?case by (intro exI [of _ "config_log st"]) (simp add: config_loop.simps [of pre])
next
  case (Cons opt opts)
  have ih: "\<exists>logs. config_loop argv (i + length (cli_args opt)) st' =
      Inr (Configured (st'\<lparr>config := fold cli_apply opts (config st'), config_log := logs\<rparr>))" for st'
    using Cons.IH [of "pre @ cli_args opt" "i + length (cli_args opt)" st'] Cons.prems by simp
  from ih have ih: "\<exists>logs. config_loop argv (i + length (cli_args opt)) (st\<lparr>config := c, config_log := l\<rparr>) =
        Inr (Configured (st\<lparr>config := fold cli_apply opts c, config_log := logs\<rparr>))"
      "\<exists>logs. config_loop argv (i + length (cli_args opt)) (st\<lparr>config_log := l\<rparr>) =
        Inr (Configured (st\<lparr>config := fold cli_apply opts (config st), config_log := logs\<rparr>))" for c l
    using ih [of "st\<lparr>config := c, config_log := l\<rparr>"] ih [of "st\<lparr>config_log := l\<rparr>"] by simp_all
  have i: "i < length argv" "argv ! i = cli_args opt ! 0"
    using Cons.prems(2,3) by (cases opt; simp add: nth_append)+
  have val: "length (cli_args opt) = 2 \<Longrightarrow> argv_at argv (Suc i) = Some (cli_args opt ! 1)"
    using Cons.prems(2,3) by (cases opt) (simp_all add: argv_at_def nth_append)
  have "cli_ok opt" using Cons.prems(1) by simp
  with ih i val show ?case
    by (cases opt)
      (simp_all add: config_loop.simps [of argv i] char_at_def [of "_ # _"] ascii_def Let_def
        config_log_add_def unknown_option_def)
qed

text \<open>The configuration says the same level whatever the options: \<open>-l\<close> sets the global only.\<close>

lemma config_loop_level:
  "config_loop argv i st = Inr (Configured st') \<Longrightarrow> config_level (config st') = config_level (config st)"
proof (induction "length argv - i" arbitrary: i st rule: less_induct)
  case less
  show ?case
  proof (cases "i < length argv")
    case False
    with less.prems show ?thesis by (simp add: config_loop.simps [of argv i])
  next
    case True
    then have ih: "config_level (config st') = config_level (config u)"
      if "config_loop argv j u = Inr (Configured st')" "i < j" for j u
      using that by (intro less.hyps) auto
    have lev: "config u = config st" if "set_level v st = Inr u" for v u
      using that by (auto simp: set_level_def Let_def config_log_add_def bindE_eq_Inr_iff split: if_splits)
    from less.prems True show ?thesis
      unfolding config_loop.simps [of argv i] Let_def
      by (auto simp: config_log_add_def unknown_option_def bindE_eq_Inr_iff dest!: ih lev split: if_splits)
  qed
qed

end
