(* ===== verification/Hash_Table.thy ===== *)
theory Hash_Table
  imports String_T "HOL-Library.AList"
begin

text \<open>
  The chained hash table of \<open>src/src/hash_table.c\<close>: \<open>hash_table_new\<close>, \<open>put\<close>, \<open>get\<close>, \<open>remove\<close>, \<open>free\<close>
  and the static \<open>add_node\<close> and \<open>resize\<close>. A bucket is the list of nodes reached from the slot in
  the array by \<open>next\<close> pointers, the slot first. Nodes are never shared between buckets, so a node
  that \<open>free\<close> was called on while it is still linked is a node of the list with its \<open>freed\<close> mark
  set; touching it is the error \<^const>\<open>Use_After_Free\<close>.

  The table is polymorphic in what the \<open>void *data\<close> pointers point to.
\<close>

unbundle bit_operations_syntax

section \<open>Data\<close>

record 'd hash_node_t =
  node_name :: "string_t option"
  node_data :: "'d option"
  node_freed :: bool

type_synonym 'd bucket = "'d hash_node_t list"

text \<open>\<open>ht_lock\<close> says whether the write lock is held by the (only) thread.\<close>

record 'd hash_table_t =
  ht_table :: "'d bucket list"
  ht_lock :: bool
  ht_count :: nat
  ht_capacity :: nat
  ht_threshold :: nat

definition empty_node :: "'d hash_node_t" where
  "empty_node = \<lparr>node_name = None, node_data = None, node_freed = False\<rparr>"

definition new_node :: "string_t \<Rightarrow> 'd option \<Rightarrow> 'd hash_node_t" where
  "new_node name d = \<lparr>node_name = Some name, node_data = d, node_freed = False\<rparr>"

definition INT_MAX :: nat where
  "INT_MAX = 2 ^ 31 - 1"

text \<open>
  \<open>(int)(capacity * LOAD_FACTOR)\<close> with \<open>LOAD_FACTOR\<close> the float \<open>0.75\<close>: the conversion of
  \<open>capacity\<close> and the product are rounded to 24 significant bits, ties to even. \<open>round_f32\<close> rounds
  a natural number; the product is rounded in quarters, which is the same since scaling by a power
  of two is exact.
\<close>

fun f32_drop :: "nat \<Rightarrow> nat" where
  "f32_drop n = (if n < 2 ^ 24 then 0 else Suc (f32_drop (n div 2)))"

declare f32_drop.simps [simp del]

definition round_f32 :: "nat \<Rightarrow> nat" where
  "round_f32 n =
     (let e = f32_drop n; q = n div 2 ^ e; r = 2 * (n mod 2 ^ e)
      in (if r > 2 ^ e \<or> r = 2 ^ e \<and> odd q then Suc q else q) * 2 ^ e)"

definition load_threshold :: "nat \<Rightarrow> nat" where
  "load_threshold capacity = round_f32 (3 * round_f32 capacity) div 4"

definition ht_index :: "nat \<Rightarrow> string_t \<Rightarrow> nat" where
  "ht_index capacity name = unat (string_hash_code name AND 0x7fffffff) mod capacity"

section \<open>Operations\<close>

definition uv_rwlock_wrlock :: "'d hash_table_t \<Rightarrow> 'd hash_table_t res" where
  "uv_rwlock_wrlock t = (if ht_lock t then Inl Deadlock else Inr (t\<lparr>ht_lock := True\<rparr>))"

definition uv_rwlock_wrunlock :: "'d hash_table_t \<Rightarrow> 'd hash_table_t" where
  "uv_rwlock_wrunlock t = t\<lparr>ht_lock := False\<rparr>"

definition hash_table_new :: "'d hash_table_t" where
  "hash_table_new =
     \<lparr>ht_table = replicate 8 [empty_node], ht_lock = False, ht_count = 0, ht_capacity = 8,
      ht_threshold = load_threshold 8\<rparr>"

text \<open>
  \<open>add_node\<close> walks to the first node that is empty or last. Storing into an empty node also cuts
  what follows it (\<open>node->next = NULL\<close>).
\<close>

fun bucket_add :: "'d bucket \<Rightarrow> string_t \<Rightarrow> 'd option \<Rightarrow> 'd bucket res" where
  "bucket_add [] name d = Inl Null_Deref"
| "bucket_add (node # rest) name d =
     (if node_freed node then Inl Use_After_Free
      else case node_name node of
        None \<Rightarrow> Inr [node\<lparr>node_name := Some name, node_data := d\<rparr>]
      | Some _ \<Rightarrow>
          (if rest = [] then Inr [node, new_node name d]
           else bindE (bucket_add rest name d) (\<lambda>rest. Inr (node # rest))))"

definition add_node :: "'d hash_table_t \<Rightarrow> string_t \<Rightarrow> 'd option \<Rightarrow> 'd hash_table_t res" where
  "add_node t name d =
     (let index = ht_index (ht_capacity t) name in
      bindE (arr_get (ht_table t) index) (\<lambda>bucket.
      bindE (bucket_add bucket name d) (\<lambda>bucket.
      if ht_count t < INT_MAX then
        Inr (t\<lparr>ht_table := (ht_table t)[index := bucket], ht_count := ht_count t + 1\<rparr>)
      else Inl Int_Overflow)))"

text \<open>Rehashing one old bucket, then releasing the nodes that hang off its slot.\<close>

fun rehash_bucket :: "'d bucket \<Rightarrow> 'd hash_table_t \<Rightarrow> 'd hash_table_t res" where
  "rehash_bucket [] t = Inr t"
| "rehash_bucket (node # rest) t =
     (if node_freed node then Inl Use_After_Free
      else case node_name node of
        None \<Rightarrow> Inr t
      | Some name \<Rightarrow> bindE (add_node t name (node_data node)) (rehash_bucket rest))"

fun free_chain :: "'d bucket \<Rightarrow> unit res" where
  "free_chain [] = Inr ()"
| "free_chain (node # rest) = (if node_freed node then Inl Use_After_Free else free_chain rest)"

definition resize_step :: "'d bucket list \<Rightarrow> nat \<Rightarrow> 'd hash_table_t \<Rightarrow> 'd hash_table_t res" where
  "resize_step oldTable i t =
     bindE (arr_get oldTable i) (\<lambda>bucket.
     bindE (rehash_bucket bucket t) (\<lambda>t.
     bindE (free_chain (tl bucket)) (\<lambda>_. Inr t)))"

definition resize :: "'d hash_table_t \<Rightarrow> 'd hash_table_t res" where
  "resize t =
     (let oldCapacity = ht_capacity t; oldTable = ht_table t;
          newCapacity = 2 * oldCapacity + 1
      in if newCapacity \<le> INT_MAX then
           forE oldCapacity 0 (resize_step oldTable)
             (t\<lparr>ht_capacity := newCapacity, ht_threshold := load_threshold newCapacity,
                ht_table := replicate newCapacity [empty_node]\<rparr>)
         else Inl Int_Overflow)"

text \<open>The first loop of \<open>hash_table_put\<close>: replace the data of the node with that name.\<close>

fun bucket_replace :: "'d bucket \<Rightarrow> string_t \<Rightarrow> 'd \<Rightarrow> 'd bucket option res" where
  "bucket_replace [] name d = Inr None"
| "bucket_replace (node # rest) name d =
     (if node_freed node then Inl Use_After_Free
      else if node_name node = None then Inr None
      else if string_equal (node_name node) (Some name) then
        Inr (Some (node\<lparr>node_data := Some d\<rparr> # rest))
      else bindE (bucket_replace rest name d) (\<lambda>r. Inr (map_option (\<lambda>rest. node # rest) r)))"

definition put_found ::
    "'d hash_table_t \<Rightarrow> nat \<Rightarrow> 'd bucket \<Rightarrow> 'd hash_table_t" where
  "put_found t index bucket =
     uv_rwlock_wrunlock (t\<lparr>ht_table := (ht_table t)[index := bucket]\<rparr>)"

definition put_absent :: "'d hash_table_t \<Rightarrow> string_t \<Rightarrow> 'd \<Rightarrow> 'd hash_table_t res" where
  "put_absent t name d =
     bindE (add_node t name (Some d)) (\<lambda>t.
     bindE (if ht_count t > ht_threshold t then resize t else Inr t) (\<lambda>t.
     Inr (uv_rwlock_wrunlock t)))"

fun hash_table_put ::
    "'d hash_table_t \<Rightarrow> string_t option \<Rightarrow> 'd option \<Rightarrow> 'd hash_table_t res" where
  "hash_table_put t (Some name) (Some d) =
     bindE (uv_rwlock_wrlock t) (\<lambda>t.
     let index = ht_index (ht_capacity t) name in
     bindE (arr_get (ht_table t) index) (\<lambda>bucket.
     bindE (bucket_replace bucket name d) (\<lambda>found.
     case found of
       Some bucket \<Rightarrow> Inr (put_found t index bucket)
     | None \<Rightarrow> put_absent t name d)))"
| "hash_table_put t _ _ = Inr t"

declare hash_table_put.simps [simp del]

fun bucket_get :: "'d bucket \<Rightarrow> string_t \<Rightarrow> 'd option res" where
  "bucket_get [] name = Inr None"
| "bucket_get (node # rest) name =
     (if node_freed node then Inl Use_After_Free
      else if node_name node = None then Inr None
      else if string_equal (node_name node) (Some name) then Inr (node_data node)
      else bucket_get rest name)"

definition hash_table_get :: "'d hash_table_t \<Rightarrow> string_t \<Rightarrow> 'd option res" where
  "hash_table_get t name =
     bindE (arr_get (ht_table t) (ht_index (ht_capacity t) name)) (\<lambda>bucket.
     bucket_get bucket name)"

text \<open>
  \<open>hash_table_remove\<close>. In the slot itself the node cannot be unlinked: it is emptied when nothing
  follows, otherwise the second node is copied into it and skipped, and then \<open>free(node->next)\<close>
  runs, which by now is the node after the skipped one. Behind the slot the node is unlinked and
  freed. The loop condition reads \<open>node->name\<close> without a test of \<open>node\<close>.
\<close>

fun free_node :: "'d bucket \<Rightarrow> 'd bucket res" where
  "free_node [] = Inr []"
| "free_node (node # rest) =
     (if node_freed node then Inl Use_After_Free else Inr (node\<lparr>node_freed := True\<rparr> # rest))"

fun remove_head :: "'d bucket \<Rightarrow> 'd bucket res" where
  "remove_head [] = Inl Null_Deref"
| "remove_head [node] = Inr [node\<lparr>node_name := None, node_data := None\<rparr>]"
| "remove_head (node # second # rest) =
     (if node_freed second then Inl Use_After_Free
      else bindE (free_node rest) (\<lambda>rest.
           Inr (node\<lparr>node_name := node_name second, node_data := node_data second\<rparr> # rest)))"

fun remove_chain :: "'d bucket \<Rightarrow> string_t \<Rightarrow> 'd bucket option res" where
  "remove_chain [] name = Inl Null_Deref"
| "remove_chain (node # rest) name =
     (if node_freed node then Inl Use_After_Free
      else if node_name node = None then Inr None
      else if string_equal (node_name node) (Some name) then Inr (Some rest)
      else bindE (remove_chain rest name) (\<lambda>r. Inr (map_option (\<lambda>rest. node # rest) r)))"

fun bucket_remove :: "'d bucket \<Rightarrow> string_t \<Rightarrow> 'd bucket option res" where
  "bucket_remove [] name = Inl Null_Deref"
| "bucket_remove (node # rest) name =
     (if node_freed node then Inl Use_After_Free
      else if node_name node = None then Inr None
      else if string_equal (node_name node) (Some name) then
        bindE (remove_head (node # rest)) (\<lambda>bucket. Inr (Some bucket))
      else bindE (remove_chain rest name) (\<lambda>r. Inr (map_option (\<lambda>rest. node # rest) r)))"

definition hash_table_remove :: "'d hash_table_t \<Rightarrow> string_t \<Rightarrow> 'd hash_table_t res" where
  "hash_table_remove t name =
     (let index = ht_index (ht_capacity t) name in
      bindE (arr_get (ht_table t) index) (\<lambda>bucket.
      bindE (bucket_remove bucket name) (\<lambda>r.
      case r of
        None \<Rightarrow> Inr t
      | Some bucket \<Rightarrow>
          bindE (uv_rwlock_wrlock t) (\<lambda>t.
          Inr (uv_rwlock_wrunlock (t\<lparr>ht_table := (ht_table t)[index := bucket]\<rparr>))))))"

text \<open>
  \<open>hash_table_free\<close> releases every name, datum and chained node; a slot without a name is skipped.
\<close>

definition free_bucket :: "'d bucket list \<Rightarrow> nat \<Rightarrow> unit \<Rightarrow> unit res" where
  "free_bucket buckets i _ =
     bindE (arr_get buckets i) (\<lambda>bucket.
     case bucket of
       [] \<Rightarrow> Inl Null_Deref
     | node # rest \<Rightarrow> (if node_name node = None then Inr () else free_chain rest))"

definition hash_table_free :: "'d hash_table_t \<Rightarrow> unit res" where
  "hash_table_free t = forE (ht_capacity t) 0 (free_bucket (ht_table t)) ()"

text \<open>A write through the pointer that \<open>hash_table_get\<close> returned.\<close>

definition hash_table_store :: "'d hash_table_t \<Rightarrow> string_t \<Rightarrow> 'd \<Rightarrow> 'd hash_table_t res" where
  "hash_table_store t name d =
     (let index = ht_index (ht_capacity t) name in
      bindE (arr_get (ht_table t) index) (\<lambda>bucket.
      bindE (bucket_replace bucket name d) (\<lambda>found.
      case found of
        Some bucket \<Rightarrow> Inr (t\<lparr>ht_table := (ht_table t)[index := bucket]\<rparr>)
      | None \<Rightarrow> Inl Null_Deref)))"

end
