(* ===== verification/Hash_Table_Correct.thy ===== *)
theory Hash_Table_Correct
  imports Hash_Table
begin

text \<open>
  What the hash table guarantees. A well-formed table holds, in every bucket, exactly the nodes of
  a list of name and data pairs with distinct names that hash to that bucket; it stands for the
  finite map \<open>ht_lookup\<close>. \<open>hash_table_get\<close> reads that map and \<open>hash_table_put\<close> updates it, also when
  it resizes. \<open>hash_table_remove\<close> deletes from it in the \<open>removable\<close> case only; the other cases are
  characterised too: a null dereference for an absent name in a bucket that is in use, and a
  dangling node when the first of three or more nodes is removed.

  The laws are stated once, as the locale \<open>name_table\<close>, which the caches and the server rely on.
\<close>

section \<open>The interface\<close>

locale name_table =
  fixes lookup :: "'t \<Rightarrow> string_t \<Rightarrow> 'd option"
    and invar :: "'t \<Rightarrow> bool"
    and room :: "'t \<Rightarrow> bool"
    and removable :: "'t \<Rightarrow> string_t \<Rightarrow> bool"
    and new :: 't
    and put :: "'t \<Rightarrow> string_t \<Rightarrow> 'd \<Rightarrow> 't res"
    and get :: "'t \<Rightarrow> string_t \<Rightarrow> 'd option res"
    and store :: "'t \<Rightarrow> string_t \<Rightarrow> 'd \<Rightarrow> 't res"
    and remove :: "'t \<Rightarrow> string_t \<Rightarrow> 't res"
  assumes new_invar: "invar new"
    and new_room: "room new"
    and new_lookup: "lookup new = Map.empty"
    and get_law: "invar t \<Longrightarrow> get t k = Inr (lookup t k)"
    and put_law: "invar t \<Longrightarrow> room t \<Longrightarrow>
          \<exists>t'. put t k d = Inr t' \<and> invar t' \<and> lookup t' = (lookup t)(k \<mapsto> d)"
    and store_law: "invar t \<Longrightarrow> lookup t k \<noteq> None \<Longrightarrow>
          \<exists>t'. store t k d = Inr t' \<and> invar t' \<and> (room t \<longrightarrow> room t') \<and>
               lookup t' = (lookup t)(k \<mapsto> d)"
    and remove_law: "invar t \<Longrightarrow> removable t k \<Longrightarrow>
          \<exists>t'. remove t k = Inr t' \<and> invar t' \<and> (room t \<longrightarrow> room t') \<and>
               lookup t' = (lookup t)(k := None)"
begin

text \<open>What clients use: a name just stored is found, other names keep what they had.\<close>

lemma get_after_put:
  assumes "invar t" "room t" "put t k d = Inr t'"
  shows "get t' k' = Inr (if k' = k then Some d else lookup t k')"
proof -
  from assms put_law [of t k d] have "invar t'" "lookup t' = (lookup t)(k \<mapsto> d)" by auto
  then show ?thesis by (simp add: get_law)
qed

lemma get_after_remove:
  assumes "invar t" "removable t k" "remove t k = Inr t'"
  shows "get t' k' = Inr (if k' = k then None else lookup t k')"
proof -
  from assms remove_law [of t k] have "invar t'" "lookup t' = (lookup t)(k := None)" by auto
  then show ?thesis by (simp add: get_law)
qed

lemma get_after_store:
  assumes "invar t" "lookup t k \<noteq> None" "store t k d = Inr t'"
  shows "get t' k' = Inr (if k' = k then Some d else lookup t k')"
proof -
  from assms store_law [of t k d] have "invar t'" "lookup t' = (lookup t)(k \<mapsto> d)" by auto
  then show ?thesis by (simp add: get_law)
qed

text \<open>Putting a fresh name and removing it again gives back the old map.\<close>

lemma put_remove_lookup:
  assumes "invar t" "room t" "lookup t k = None" "put t k d = Inr t'" "removable t' k"
  shows "\<exists>t''. remove t' k = Inr t'' \<and> invar t'' \<and> lookup t'' = lookup t"
proof -
  from assms put_law [of t k d] have t': "invar t'" "lookup t' = (lookup t)(k \<mapsto> d)" by auto
  with remove_law [of t' k] assms(5) obtain t'' where
    "remove t' k = Inr t''" "invar t''" "lookup t'' = (lookup t')(k := None)" by auto
  with t' assms(3) show ?thesis by (auto simp: fun_upd_idem)
qed

end

section \<open>Buckets as lists of entries\<close>

definition mk_node :: "string_t \<times> 'd \<Rightarrow> 'd hash_node_t" where
  "mk_node e = new_node (fst e) (Some (snd e))"

definition embed_bucket :: "(string_t \<times> 'd) list \<Rightarrow> 'd bucket" where
  "embed_bucket es = (if es = [] then [empty_node] else map mk_node es)"

fun bucket_entries :: "'d bucket \<Rightarrow> (string_t \<times> 'd) list" where
  "bucket_entries [] = []"
| "bucket_entries (node # rest) =
     (case (node_name node, node_data node) of
        (Some k, Some v) \<Rightarrow> (k, v) # bucket_entries rest
      | _ \<Rightarrow> [])"

lemma node_simps [simp]:
  "node_name (mk_node e) = Some (fst e)" "node_data (mk_node e) = Some (snd e)"
  "\<not> node_freed (mk_node e)" "node_name empty_node = None" "node_data empty_node = None"
  "\<not> node_freed empty_node" "new_node k (Some v) = mk_node (k, v)"
  "(mk_node e)\<lparr>node_data := Some d\<rparr> = mk_node (fst e, d)"
  "empty_node\<lparr>node_name := Some k, node_data := Some d\<rparr> = mk_node (k, d)"
  "(mk_node e)\<lparr>node_name := None, node_data := None\<rparr> = empty_node"
  "(mk_node e)\<lparr>node_name := Some k, node_data := Some d\<rparr> = mk_node (k, d)"
  by (simp_all add: mk_node_def new_node_def empty_node_def)

lemma bucket_entries_map [simp]: "bucket_entries (map mk_node es) = es"
  by (induction es) auto

lemma bucket_entries_embed [simp]: "bucket_entries (embed_bucket es) = es"
  by (simp add: embed_bucket_def)

lemma embed_Nil [simp]: "embed_bucket [] = [empty_node]"
  and embed_Cons [simp]: "embed_bucket (e # es) = mk_node e # map mk_node es"
  by (simp_all add: embed_bucket_def)

lemma free_chain_map [simp]: "free_chain (map mk_node es) = Inr ()"
  by (induction es) auto

lemma bucket_get_embed: "bucket_get (embed_bucket es) k = Inr (map_of es k)"
proof -
  have "bucket_get (map mk_node es) k = Inr (map_of es k)"
    by (induction es) auto
  then show ?thesis by (cases es) auto
qed

lemma bucket_add_embed:
  "bucket_add (embed_bucket es) k (Some d) = Inr (embed_bucket (es @ [(k, d)]))"
proof -
  have "es \<noteq> [] \<Longrightarrow> bucket_add (map mk_node es) k (Some d) = Inr (map mk_node (es @ [(k, d)]))"
    by (induction es) auto
  then show ?thesis by (simp add: embed_bucket_def)
qed

lemma bucket_replace_embed:
  "bucket_replace (embed_bucket es) k d =
     Inr (if map_of es k = None then None else Some (embed_bucket (AList.update k d es)))"
proof -
  have "bucket_replace (map mk_node es) k d =
     Inr (if map_of es k = None then None else Some (map mk_node (AList.update k d es)))"
    by (induction es) auto
  moreover have "AList.update k d es \<noteq> []" by (cases es) auto
  ultimately show ?thesis by (cases es) (auto simp: embed_bucket_def)
qed

text \<open>
  Removal: fine behind the slot, and in the slot when at most one node follows. An absent name
  runs off the end of the chain.
\<close>

fun entries_removable :: "(string_t \<times> 'd) list \<Rightarrow> string_t \<Rightarrow> bool" where
  "entries_removable [] k = True"
| "entries_removable (e # es) k = (if fst e = k then length es \<le> 1 else map_of es k \<noteq> None)"

lemma delete_absent: "map_of es k = None \<Longrightarrow> AList.delete k es = es"
  by (induction es) (auto split: if_splits)

lemma remove_chain_map:
  "distinct (map fst es) \<Longrightarrow> map_of es k = Some v \<Longrightarrow>
     remove_chain (map mk_node es) k = Inr (Some (map mk_node (AList.delete k es)))"
proof (induction es)
  case (Cons e es)
  then have "map_of es (fst e) = None" by (simp add: map_of_eq_None_iff)
  with Cons show ?case by (auto simp: delete_absent split: if_splits)
qed simp

lemma remove_chain_absent:
  "map_of es k = None \<Longrightarrow> remove_chain (map mk_node es) k = Inl Null_Deref"
  by (induction es) (auto split: if_splits)

lemma bucket_remove_embed:
  assumes "distinct (map fst es)" "entries_removable es k"
  shows "bucket_remove (embed_bucket es) k =
     Inr (if es = [] then None else Some (embed_bucket (AList.delete k es)))"
proof (cases es)
  case (Cons e rest)
  show ?thesis
  proof (cases "fst e = k")
    case False
    with Cons assms obtain v where "map_of rest k = Some v" "distinct (map fst rest)" by auto
    with Cons False show ?thesis by (simp add: remove_chain_map)
  next
    case True
    with Cons assms have "AList.delete k rest = rest"
      by (auto intro!: delete_absent simp: map_of_eq_None_iff)
    moreover have "rest = [] \<or> (\<exists>e2. rest = [e2])"
      using assms(2) Cons True by (cases rest rule: remdups_adj.cases) auto
    ultimately show ?thesis using Cons True by auto
  qed
qed simp

lemma bucket_remove_absent:
  "es \<noteq> [] \<Longrightarrow> map_of es k = None \<Longrightarrow> bucket_remove (embed_bucket es) k = Inl Null_Deref"
  by (cases es) (auto simp: remove_chain_absent split: if_splits)

lemma bucket_remove_dangling:
  "bucket_remove (embed_bucket ((k, v) # e1 # e2 # es)) k =
     Inr (Some (mk_node e1 # (mk_node e2)\<lparr>node_freed := True\<rparr> # map mk_node es))"
  by simp

section \<open>Well-formed tables\<close>

definition bucket_ok :: "nat \<Rightarrow> nat \<Rightarrow> 'd bucket \<Rightarrow> bool" where
  "bucket_ok cap i bucket =
     (let es = bucket_entries bucket
      in bucket = embed_bucket es \<and> distinct (map fst es) \<and> (\<forall>e \<in> set es. ht_index cap (fst e) = i))"

definition ht_size :: "'d hash_table_t \<Rightarrow> nat" where
  "ht_size t = sum_list (map (\<lambda>b. length (bucket_entries b)) (ht_table t))"

definition ht_wf :: "'d hash_table_t \<Rightarrow> bool" where
  "ht_wf t \<longleftrightarrow> 0 < ht_capacity t \<and> length (ht_table t) = ht_capacity t \<and>
     (\<forall>i < ht_capacity t. bucket_ok (ht_capacity t) i (ht_table t ! i)) \<and>
     ht_size t \<le> ht_count t"

definition ht_inv :: "'d hash_table_t \<Rightarrow> bool" where
  "ht_inv t \<longleftrightarrow> ht_wf t \<and> \<not> ht_lock t"

definition ht_entries :: "'d hash_table_t \<Rightarrow> string_t \<Rightarrow> (string_t \<times> 'd) list" where
  "ht_entries t k = bucket_entries (ht_table t ! ht_index (ht_capacity t) k)"

definition ht_lookup :: "'d hash_table_t \<Rightarrow> string_t \<Rightarrow> 'd option" where
  "ht_lookup t k = map_of (ht_entries t k) k"

definition ht_removable :: "'d hash_table_t \<Rightarrow> string_t \<Rightarrow> bool" where
  "ht_removable t k = entries_removable (ht_entries t k) k"

text \<open>Room for one more name: neither the counter nor the capacity can overflow.\<close>

definition ht_room :: "'d hash_table_t \<Rightarrow> bool" where
  "ht_room t \<longleftrightarrow> 2 * ht_count t + 2 \<le> INT_MAX \<and> 2 * ht_capacity t + 1 \<le> INT_MAX"

lemma ht_index_less [simp]: "0 < cap \<Longrightarrow> ht_index cap k < cap"
  by (simp add: ht_index_def)

lemma ht_wfD:
  assumes "ht_wf t"
  shows "arr_get (ht_table t) (ht_index (ht_capacity t) k) = Inr (embed_bucket (ht_entries t k))"
    and "distinct (map fst (ht_entries t k))"
    and "e \<in> set (ht_entries t k) \<Longrightarrow>
           ht_index (ht_capacity t) (fst e) = ht_index (ht_capacity t) k"
    and "ht_table t ! ht_index (ht_capacity t) k = embed_bucket (ht_entries t k)"
proof -
  let ?i = "ht_index (ht_capacity t) k"
  have i: "?i < ht_capacity t" using assms by (simp add: ht_wf_def)
  then have ok: "bucket_ok (ht_capacity t) ?i (ht_table t ! ?i)"
    using assms by (simp add: ht_wf_def)
  show b: "ht_table t ! ?i = embed_bucket (ht_entries t k)"
    using ok unfolding bucket_ok_def ht_entries_def Let_def by blast
  show "arr_get (ht_table t) ?i = Inr (embed_bucket (ht_entries t k))"
    using i assms b by (simp add: arr_get_def ht_wf_def)
  show "distinct (map fst (ht_entries t k))"
    and "e \<in> set (ht_entries t k) \<Longrightarrow> ht_index (ht_capacity t) (fst e) = ?i"
    using ok unfolding bucket_ok_def ht_entries_def Let_def by blast+
qed

lemma sum_list_update_nat:
  "i < length xs \<Longrightarrow> sum_list (xs[i := x]) + xs ! i = sum_list xs + (x :: nat)"
  by (induction xs arbitrary: i) (auto split: nat.splits)

text \<open>Replacing one bucket of a well-formed table by the nodes of another list of entries.\<close>

definition with_entries :: "'d hash_table_t \<Rightarrow> string_t \<Rightarrow> (string_t \<times> 'd) list \<Rightarrow> 'd hash_table_t" where
  "with_entries t k es =
     t\<lparr>ht_table := (ht_table t)[ht_index (ht_capacity t) k := embed_bucket es]\<rparr>"

lemma with_entries_fields [simp]:
  "ht_capacity (with_entries t k es) = ht_capacity t" "ht_count (with_entries t k es) = ht_count t"
  "ht_lock (with_entries t k es) = ht_lock t" "ht_threshold (with_entries t k es) = ht_threshold t"
  "length (ht_table (with_entries t k es)) = length (ht_table t)"
  by (simp_all add: with_entries_def)

lemma with_entries_entries:
  assumes "ht_wf t"
  shows "ht_entries (with_entries t k es) k' =
     (if ht_index (ht_capacity t) k' = ht_index (ht_capacity t) k then es else ht_entries t k')"
  using assms by (simp add: ht_entries_def with_entries_def nth_list_update ht_wf_def)

lemma with_entries_size:
  assumes "ht_wf t"
  shows "ht_size (with_entries t k es) + length (ht_entries t k) = ht_size t + length es"
  using assms sum_list_update_nat [of "ht_index (ht_capacity t) k"
      "map (\<lambda>b. length (bucket_entries b)) (ht_table t)" "length es"]
  by (simp add: ht_size_def with_entries_def map_update ht_entries_def ht_wf_def)

lemma with_entries_bucket_ok:
  assumes "ht_wf t" "distinct (map fst es)"
    "\<And>e. e \<in> set es \<Longrightarrow> ht_index (ht_capacity t) (fst e) = ht_index (ht_capacity t) k"
    "i < ht_capacity t"
  shows "bucket_ok (ht_capacity t) i (ht_table (with_entries t k es) ! i)"
  using assms by (auto simp: with_entries_def nth_list_update ht_wf_def bucket_ok_def Let_def)

lemma with_entries_lookup:
  assumes "ht_wf t"
    "\<And>k'. ht_index (ht_capacity t) k' = ht_index (ht_capacity t) k \<Longrightarrow>
       map_of es k' = ((map_of (ht_entries t k))(k := v)) k'"
  shows "ht_lookup (with_entries t k es) = (ht_lookup t)(k := v)"
proof
  fix k'
  have "ht_entries t k' = ht_entries t k"
    if "ht_index (ht_capacity t) k' = ht_index (ht_capacity t) k"
    using that by (simp add: ht_entries_def)
  with assms show "ht_lookup (with_entries t k es) k' = ((ht_lookup t)(k := v)) k'"
    by (auto simp: ht_lookup_def with_entries_entries)
qed

lemma ht_wf_with_entries:
  assumes "ht_wf t" "distinct (map fst es)"
    "\<And>e. e \<in> set es \<Longrightarrow> ht_index (ht_capacity t) (fst e) = ht_index (ht_capacity t) k"
    "ht_size t + length es \<le> c + length (ht_entries t k)"
  shows "ht_wf ((with_entries t k es)\<lparr>ht_count := c\<rparr>)"
proof -
  have "ht_size (with_entries t k es) \<le> c"
    using with_entries_size [OF assms(1), of k es] assms(4) by simp
  moreover have "ht_size ((with_entries t k es)\<lparr>ht_count := c\<rparr>) = ht_size (with_entries t k es)"
    by (simp add: ht_size_def)
  ultimately show ?thesis
    using assms(1) with_entries_bucket_ok [OF assms(1,2,3)]
    by (simp add: ht_wf_def with_entries_def)
qed

section \<open>Lookup\<close>

lemma hash_table_get_correct: "ht_wf t \<Longrightarrow> hash_table_get t k = Inr (ht_lookup t k)"
  by (simp add: hash_table_get_def ht_wfD bucket_get_embed ht_lookup_def)

section \<open>Adding a node\<close>

text \<open>How a successful insertion of a new name relates the table before and after.\<close>

definition ht_added :: "'d hash_table_t \<Rightarrow> (string_t \<times> 'd) list \<Rightarrow> 'd hash_table_t \<Rightarrow> bool" where
  "ht_added t es t' \<longleftrightarrow> ht_wf t' \<and> ht_lookup t' = ht_lookup t ++ map_of es \<and>
     ht_capacity t' = ht_capacity t \<and> ht_threshold t' = ht_threshold t \<and>
     ht_lock t' = ht_lock t \<and> ht_count t' = ht_count t + length es \<and>
     ht_size t' = ht_size t + length es"

lemma add_node_correct:
  assumes wf: "ht_wf t" and k: "ht_lookup t k = None" and c: "ht_count t < INT_MAX"
  shows "\<exists>t'. add_node t k (Some d) = Inr t' \<and> ht_added t [(k, d)] t'"
proof -
  let ?es = "ht_entries t k @ [(k, d)]"
  let ?t = "(with_entries t k ?es)\<lparr>ht_count := ht_count t + 1\<rparr>"
  have fresh: "k \<notin> fst ` set (ht_entries t k)"
    using k by (simp add: ht_lookup_def map_of_eq_None_iff)
  have "add_node t k (Some d) = Inr ?t"
    using c by (simp add: add_node_def ht_wfD [OF wf] bucket_add_embed with_entries_def Let_def)
  moreover have "ht_wf ?t"
    by (rule ht_wf_with_entries)
      (use wf fresh ht_wfD(2,3) [OF wf] in \<open>auto simp: ht_wf_def\<close>)
  moreover have "ht_lookup ?t = (ht_lookup t)(k \<mapsto> d)"
  proof -
    have "map_of ?es k' = ((map_of (ht_entries t k))(k := Some d)) k'" for k'
      using k by (auto simp: ht_lookup_def map_add_def split: option.split)
    then have "ht_lookup (with_entries t k ?es) = (ht_lookup t)(k \<mapsto> d)"
      by (intro with_entries_lookup [OF wf])
    then show ?thesis by (simp add: ht_lookup_def ht_entries_def fun_eq_iff)
  qed
  moreover have "ht_size ?t = ht_size t + 1"
    using with_entries_size [OF wf, of k ?es] by (simp add: ht_size_def)
  ultimately show ?thesis by (simp add: ht_added_def)
qed

lemma ht_added_trans:
  "ht_added t es t' \<Longrightarrow> ht_added t' es' t'' \<Longrightarrow> distinct (map fst (es @ es')) \<Longrightarrow>
     ht_added t (es @ es') t''"
  by (auto simp: ht_added_def map_add_comm [of "map_of es'" "map_of es"]
      dom_map_of_conv_image_fst Int_commute)

lemma rehash_bucket_correct:
  assumes "ht_wf t" "distinct (map fst es)" "\<And>e. e \<in> set es \<Longrightarrow> ht_lookup t (fst e) = None"
    "ht_count t + length es \<le> INT_MAX"
  shows "\<exists>t'. rehash_bucket (embed_bucket es) t = Inr t' \<and> ht_added t es t'"
proof -
  have "\<exists>t'. rehash_bucket (map mk_node es) t = Inr t' \<and> ht_added t es t'"
    using assms
  proof (induction es arbitrary: t)
    case Nil
    then show ?case by (simp add: ht_added_def)
  next
    case (Cons e es)
    from add_node_correct [of t "fst e" "snd e"] Cons.prems obtain t1 where
      t1: "add_node t (fst e) (Some (snd e)) = Inr t1" "ht_added t [e] t1" by auto
    have "\<exists>t'. rehash_bucket (map mk_node es) t1 = Inr t' \<and> ht_added t1 es t'"
    proof (rule Cons.IH)
      show "ht_lookup t1 (fst e') = None" if "e' \<in> set es" for e'
      proof -
        from that Cons.prems(2) have "fst e' \<noteq> fst e" by (auto simp: rev_image_eqI)
        with that Cons.prems(3) t1(2) show ?thesis by (simp add: ht_added_def)
      qed
    qed (use Cons.prems t1(2) in \<open>auto simp: ht_added_def\<close>)
    with t1 ht_added_trans [OF t1(2)] Cons.prems(2) show ?case by fastforce
  qed
  moreover have "rehash_bucket [empty_node] t = Inr t" by simp
  ultimately show ?thesis
    using assms(1) by (auto simp: embed_bucket_def ht_added_def)
qed

section \<open>Resizing\<close>

lemma ht_wf_fresh:
  assumes "0 < cap"
  shows "ht_wf (t\<lparr>ht_capacity := cap, ht_threshold := thr, ht_table := replicate cap [empty_node]\<rparr>)"
    and "ht_lookup (t\<lparr>ht_capacity := cap, ht_threshold := thr,
            ht_table := replicate cap [empty_node]\<rparr>) = Map.empty"
    and "ht_size (t\<lparr>ht_capacity := cap, ht_threshold := thr,
            ht_table := replicate cap [empty_node]\<rparr>) = 0"
  using assms
  by (auto simp: ht_wf_def bucket_ok_def ht_size_def ht_lookup_def ht_entries_def sum_list_replicate)

text \<open>The state of the loop of \<open>resize\<close> after the first \<open>i\<close> old buckets.\<close>

definition resize_inv :: "'d hash_table_t \<Rightarrow> 'd hash_table_t \<Rightarrow> nat \<Rightarrow> 'd hash_table_t \<Rightarrow> bool" where
  "resize_inv old new i t \<longleftrightarrow> ht_wf t \<and> ht_capacity t = ht_capacity new \<and>
     ht_threshold t = ht_threshold new \<and> ht_lock t = ht_lock new \<and>
     ht_size t = sum_list (map (\<lambda>b. length (bucket_entries b)) (take i (ht_table old))) \<and>
     ht_count t = ht_count old + ht_size t \<and>
     ht_lookup t = (\<lambda>k. if ht_index (ht_capacity old) k < i then ht_lookup old k else None)"

lemma sum_list_take_le: "sum_list (take i xs) \<le> sum_list (xs :: nat list)"
  by (metis append_take_drop_id le_add1 sum_list_append)

lemma resize_step_inv:
  assumes wf: "ht_wf old" and room: "ht_count old + ht_size old \<le> INT_MAX"
    and i: "i < ht_capacity old" and inv: "resize_inv old new i t"
  shows "\<exists>t'. resize_step (ht_table old) i t = Inr t' \<and> resize_inv old new (Suc i) t'"
proof -
  let ?b = "ht_table old ! i" and ?lens = "map (\<lambda>b. length (bucket_entries b)) (ht_table old)"
  obtain es where es: "?b = embed_bucket es" "distinct (map fst es)" "bucket_entries ?b = es"
      "\<And>e. e \<in> set es \<Longrightarrow> ht_index (ht_capacity old) (fst e) = i"
    using wf i unfolding ht_wf_def bucket_ok_def Let_def by metis
  have il: "i < length (ht_table old)" using wf i by (simp add: ht_wf_def)
  have sz: "sum_list (map (\<lambda>b. length (bucket_entries b)) (take (Suc i) (ht_table old)))
      = ht_size t + length es"
    using inv il es(3) by (simp add: resize_inv_def take_Suc_conv_app_nth)
  have "ht_size t + length es \<le> ht_size old"
    using sum_list_take_le [of "Suc i" ?lens] sz by (simp add: take_map ht_size_def)
  with room inv have c: "ht_count t + length es \<le> INT_MAX" by (simp add: resize_inv_def)
  obtain t' where t': "rehash_bucket (embed_bucket es) t = Inr t'" "ht_added t es t'"
    using rehash_bucket_correct [OF _ es(2) _ c] inv es(4) by (auto simp: resize_inv_def)
  have chain: "free_chain (tl ?b) = Inr ()"
    by (cases es) (simp_all add: es(1))
  have look: "map_of es k = (if ht_index (ht_capacity old) k = i then ht_lookup old k else None)" for k
    using es(3,4) by (auto simp: ht_lookup_def ht_entries_def map_of_eq_None_iff)
  have "resize_inv old new (Suc i) t'"
    using t'(2) inv sz look
    by (auto simp: resize_inv_def ht_added_def map_add_def fun_eq_iff less_Suc_eq split: option.split)
  moreover have "resize_step (ht_table old) i t = Inr t'"
    using il t'(1) chain es(1) by (simp add: resize_step_def arr_get_def)
  ultimately show ?thesis by blast
qed

text \<open>
  Resizing keeps the map. It also counts every entry a second time: the counter grows by the
  number of entries, which \<open>add_node\<close> increments again while the old table is emptied.
\<close>

lemma resize_correct:
  assumes wf: "ht_wf t" and room: "ht_count t + ht_size t \<le> INT_MAX"
    and cap: "2 * ht_capacity t + 1 \<le> INT_MAX"
  shows "\<exists>t'. resize t = Inr t' \<and> ht_wf t' \<and> ht_lookup t' = ht_lookup t \<and> ht_lock t' = ht_lock t \<and>
     ht_capacity t' = 2 * ht_capacity t + 1 \<and> ht_size t' = ht_size t \<and>
     ht_threshold t' = load_threshold (2 * ht_capacity t + 1) \<and>
     ht_count t' = ht_count t + ht_size t"
proof -
  let ?cap = "2 * ht_capacity t + 1"
  let ?new = "t\<lparr>ht_capacity := ?cap, ht_threshold := load_threshold ?cap,
                ht_table := replicate ?cap [empty_node]\<rparr>"
  have "resize_inv t ?new 0 ?new"
    using ht_wf_fresh [where cap = ?cap and t = t and thr = "load_threshold ?cap"] by (simp add: resize_inv_def)
  then obtain t' where t': "forE (ht_capacity t) 0 (resize_step (ht_table t)) ?new = Inr t'"
      "resize_inv t ?new (ht_capacity t) t'"
    using forE_rule [of "resize_inv t ?new" 0 ?new "ht_capacity t" "resize_step (ht_table t)"]
      resize_step_inv [OF wf room] by auto
  have "length (ht_table t) = ht_capacity t" "0 < ht_capacity t" using wf by (simp_all add: ht_wf_def)
  with t' cap show ?thesis
    by (auto simp: resize_def Let_def resize_inv_def ht_size_def)
qed

section \<open>The lock\<close>

lemma ht_lock_irrelevant [simp]:
  "ht_wf (t\<lparr>ht_lock := b\<rparr>) = ht_wf t" "ht_lookup (t\<lparr>ht_lock := b\<rparr>) = ht_lookup t"
  "ht_size (t\<lparr>ht_lock := b\<rparr>) = ht_size t" "ht_room (t\<lparr>ht_lock := b\<rparr>) = ht_room t"
  "ht_entries (t\<lparr>ht_lock := b\<rparr>) = ht_entries t"
  by (simp_all add: ht_wf_def ht_lookup_def ht_entries_def ht_size_def ht_room_def fun_eq_iff)

section \<open>Putting\<close>

lemma update_entries_lookup:
  assumes "ht_wf t"
  shows "ht_lookup (with_entries t k (AList.update k d (ht_entries t k))) = (ht_lookup t)(k \<mapsto> d)"
  by (rule with_entries_lookup [OF assms]) (simp add: update_conv')

lemma length_update_present: "map_of es k \<noteq> None \<Longrightarrow> length (AList.update k d es) = length es"
  by (induction es) auto

lemma in_update_entries: "e \<in> set (AList.update k d es) \<Longrightarrow> e = (k, d) \<or> e \<in> set es"
  by (induction es) (auto split: if_splits)

lemma replace_correct:
  assumes wf: "ht_wf t" and k: "ht_lookup t k \<noteq> None"
  shows "ht_wf (with_entries t k (AList.update k d (ht_entries t k)))"
    and "ht_size (with_entries t k (AList.update k d (ht_entries t k))) = ht_size t"
proof -
  let ?es = "AList.update k d (ht_entries t k)"
  have len: "length ?es = length (ht_entries t k)"
    using k by (simp add: ht_lookup_def length_update_present)
  have "ht_index (ht_capacity t) (fst e) = ht_index (ht_capacity t) k" if "e \<in> set ?es" for e
    using in_update_entries [OF that] ht_wfD(3) [OF wf, of e] by auto
  moreover have "distinct (map fst ?es)"
    using ht_wfD(2) [OF wf] by (rule distinct_update)
  moreover have "ht_size t \<le> ht_count t" using wf by (simp add: ht_wf_def)
  ultimately have "ht_wf ((with_entries t k ?es)\<lparr>ht_count := ht_count t\<rparr>)"
    using len by (intro ht_wf_with_entries [OF wf]) auto
  then show "ht_wf (with_entries t k ?es)" by (simp add: with_entries_def)
  show "ht_size (with_entries t k ?es) = ht_size t"
    using with_entries_size [OF wf, of k ?es] len by simp
qed

lemma put_present:
  assumes inv: "ht_inv t" and k: "ht_lookup t k \<noteq> None"
  shows "hash_table_put t (Some k) (Some d) =
     Inr (with_entries t k (AList.update k d (ht_entries t k)))"
proof -
  from inv have wf: "ht_wf t" and l: "\<not> ht_lock t" by (simp_all add: ht_inv_def)
  obtain v where "map_of (ht_entries t k) k = Some v" using k by (auto simp: ht_lookup_def)
  with l show ?thesis
    by (simp add: hash_table_put.simps uv_rwlock_wrlock_def put_found_def uv_rwlock_wrunlock_def Let_def
        ht_wfD(1) [OF wf] bucket_replace_embed with_entries_def)
qed

lemma put_absent_eq:
  assumes inv: "ht_inv t" and k: "ht_lookup t k = None"
  shows "hash_table_put t (Some k) (Some d) = put_absent (t\<lparr>ht_lock := True\<rparr>) k d"
proof -
  from inv have wf: "ht_wf t" and l: "\<not> ht_lock t" by (simp_all add: ht_inv_def)
  have "map_of (ht_entries t k) k = None" using k by (simp add: ht_lookup_def)
  with l show ?thesis
    by (simp add: hash_table_put.simps uv_rwlock_wrlock_def Let_def ht_wfD(1) [OF wf] bucket_replace_embed)
qed

text \<open>A new name: counted once, or resized and then every entry counted again.\<close>

lemma put_absent_correct:
  assumes inv: "ht_inv t" and k: "ht_lookup t k = None" and room: "ht_room t"
  shows "\<exists>t'. hash_table_put t (Some k) (Some d) = Inr t' \<and> ht_inv t' \<and>
     ht_lookup t' = (ht_lookup t)(k \<mapsto> d) \<and> ht_size t' = ht_size t + 1 \<and>
     (if ht_count t + 1 > ht_threshold t
      then ht_capacity t' = 2 * ht_capacity t + 1 \<and>
           ht_threshold t' = load_threshold (2 * ht_capacity t + 1) \<and>
           ht_count t' = ht_count t + 1 + (ht_size t + 1)
      else ht_capacity t' = ht_capacity t \<and> ht_threshold t' = ht_threshold t \<and>
           ht_count t' = ht_count t + 1)"
proof -
  let ?t = "t\<lparr>ht_lock := True\<rparr>"
  have wf: "ht_wf ?t" using inv by (simp add: ht_inv_def)
  obtain t1 where t1: "add_node ?t k (Some d) = Inr t1" "ht_added ?t [(k, d)] t1"
    using add_node_correct [OF wf, of k d] k room by (auto simp: ht_room_def)
  show ?thesis
  proof (cases "ht_count t + 1 > ht_threshold t")
    case False
    with t1 have "put_absent ?t k d = Inr (t1\<lparr>ht_lock := False\<rparr>)"
      by (simp add: put_absent_def uv_rwlock_wrunlock_def ht_added_def)
    with False t1(2) put_absent_eq [OF inv k, of d] show ?thesis
      by (auto simp: ht_added_def ht_inv_def)
  next
    case True
    have "ht_size t \<le> ht_count t" using inv by (simp add: ht_inv_def ht_wf_def)
    with t1(2) room have "ht_wf t1" "ht_count t1 + ht_size t1 \<le> INT_MAX"
      "2 * ht_capacity t1 + 1 \<le> INT_MAX"
      by (simp_all add: ht_added_def ht_room_def)
    from resize_correct [OF this] obtain t2 where t2: "resize t1 = Inr t2" "ht_wf t2"
      "ht_lookup t2 = ht_lookup t1" "ht_capacity t2 = 2 * ht_capacity t1 + 1"
      "ht_size t2 = ht_size t1" "ht_threshold t2 = load_threshold (2 * ht_capacity t1 + 1)"
      "ht_count t2 = ht_count t1 + ht_size t1" by auto
    from True t1 t2 have "put_absent ?t k d = Inr (t2\<lparr>ht_lock := False\<rparr>)"
      by (simp add: put_absent_def uv_rwlock_wrunlock_def ht_added_def)
    with True t1(2) t2 put_absent_eq [OF inv k, of d] show ?thesis
      by (auto simp: ht_added_def ht_inv_def)
  qed
qed

lemma put_correct:
  assumes inv: "ht_inv t" and room: "ht_room t"
  shows "\<exists>t'. hash_table_put t (Some k) (Some d) = Inr t' \<and> ht_inv t' \<and>
     ht_lookup t' = (ht_lookup t)(k \<mapsto> d)"
proof (cases "ht_lookup t k = None")
  case True
  from put_absent_correct [OF inv True room, of d] show ?thesis by auto
next
  case False
  have wf: "ht_wf t" using inv by (simp add: ht_inv_def)
  from replace_correct(1) [OF wf False, of d] update_entries_lookup [OF wf, of k d] inv show ?thesis
    by (simp add: put_present [OF inv False] ht_inv_def)
qed

lemma store_correct:
  assumes inv: "ht_inv t" and k: "ht_lookup t k \<noteq> None"
  shows "\<exists>t'. hash_table_store t k d = Inr t' \<and> ht_inv t' \<and> (ht_room t \<longrightarrow> ht_room t') \<and>
     ht_lookup t' = (ht_lookup t)(k \<mapsto> d)"
proof -
  have wf: "ht_wf t" using inv by (simp add: ht_inv_def)
  let ?t = "with_entries t k (AList.update k d (ht_entries t k))"
  have "hash_table_store t k d = Inr ?t"
    using k by (auto simp: hash_table_store_def ht_wfD(1) [OF wf] bucket_replace_embed
        ht_lookup_def with_entries_def Let_def)
  with replace_correct(1) [OF wf k, of d] update_entries_lookup [OF wf, of k d] inv show ?thesis
    by (simp add: ht_inv_def ht_room_def)
qed

section \<open>Removing\<close>

lemma remove_eq:
  assumes inv: "ht_inv t" and rem: "ht_removable t k"
  shows "hash_table_remove t k =
     Inr (if ht_entries t k = [] then t else with_entries t k (AList.delete k (ht_entries t k)))"
proof -
  from inv have wf: "ht_wf t" and l: "\<not> ht_lock t" by (simp_all add: ht_inv_def)
  have "entries_removable (ht_entries t k) k" using rem by (simp add: ht_removable_def)
  from bucket_remove_embed [OF ht_wfD(2) [OF wf] this] l show ?thesis
    by (simp add: hash_table_remove_def ht_wfD(1) [OF wf] Let_def uv_rwlock_wrlock_def
        uv_rwlock_wrunlock_def with_entries_def)
qed

lemma remove_correct:
  assumes inv: "ht_inv t" and rem: "ht_removable t k"
  shows "\<exists>t'. hash_table_remove t k = Inr t' \<and> ht_inv t' \<and> (ht_room t \<longrightarrow> ht_room t') \<and>
     ht_lookup t' = (ht_lookup t)(k := None) \<and>
     ht_count t' = ht_count t \<and> ht_capacity t' = ht_capacity t \<and> ht_threshold t' = ht_threshold t"
proof (cases "ht_entries t k = []")
  case True
  then have "ht_lookup t k = None" by (simp add: ht_lookup_def)
  with True inv show ?thesis by (auto simp: remove_eq [OF assms] fun_upd_idem)
next
  case False
  from inv have wf: "ht_wf t" and l: "\<not> ht_lock t" by (simp_all add: ht_inv_def)
  let ?t = "with_entries t k (AList.delete k (ht_entries t k))"
  have look: "ht_lookup ?t = (ht_lookup t)(k := None)"
    by (rule with_entries_lookup [OF wf]) (simp add: delete_conv')
  have "ht_wf (?t\<lparr>ht_count := ht_count t\<rparr>)"
    by (rule ht_wf_with_entries [OF wf])
      (use wf ht_wfD(2,3) [OF wf] in
        \<open>auto simp: AList.delete_eq ht_wf_def distinct_map_filter intro!: add_mono\<close>)
  then have "ht_wf ?t" by (simp add: with_entries_def)
  with False look l show ?thesis by (simp add: remove_eq [OF assms] ht_inv_def ht_room_def)
qed

lemma remove_absent:
  assumes "ht_inv t" "ht_lookup t k = None"
  shows "hash_table_remove t k = (if ht_entries t k = [] then Inr t else Inl Null_Deref)"
proof (cases "ht_entries t k = []")
  case True
  from assms have "ht_wf t" by (simp add: ht_inv_def)
  with True show ?thesis by (simp add: hash_table_remove_def ht_wfD Let_def)
next
  case False
  from assms have wf: "ht_wf t" by (simp add: ht_inv_def)
  have "bucket_remove (embed_bucket (ht_entries t k)) k = Inl Null_Deref"
    using assms(2) by (intro bucket_remove_absent [OF False]) (simp add: ht_lookup_def)
  with False show ?thesis by (simp add: hash_table_remove_def ht_wfD(1) [OF wf] Let_def)
qed

text \<open>
  Removing the first of three or more names in a bucket frees the node of the third one while it
  is still linked behind the slot: every later operation that walks past the second name fails.
\<close>

lemma remove_dangles:
  assumes inv: "ht_inv t" and es: "ht_entries t k = (k, v) # e1 # e2 # es"
  shows "\<exists>t'. hash_table_remove t k = Inr t' \<and>
     (\<forall>k'. ht_index (ht_capacity t) k' = ht_index (ht_capacity t) k \<longrightarrow> k' \<noteq> fst e1 \<longrightarrow>
        hash_table_get t' k' = Inl Use_After_Free \<and>
        hash_table_put t' (Some k') (Some d) = Inl Use_After_Free)"
proof -
  from inv have wf: "ht_wf t" and l: "\<not> ht_lock t" by (simp_all add: ht_inv_def)
  let ?b = "mk_node e1 # (mk_node e2)\<lparr>node_freed := True\<rparr> # map mk_node es"
  let ?t = "t\<lparr>ht_lock := False,
      ht_table := (ht_table t)[ht_index (ht_capacity t) k := ?b]\<rparr>"
  have i: "ht_index (ht_capacity t) k < length (ht_table t)" using wf by (simp add: ht_wf_def)
  have "hash_table_remove t k = Inr ?t"
    using bucket_remove_dangling [of k v e1 e2 es] l
    by (simp add: hash_table_remove_def ht_wfD(1) [OF wf] es Let_def uv_rwlock_wrlock_def
        uv_rwlock_wrunlock_def)
  with i show ?thesis
    by (auto simp: hash_table_get_def hash_table_put.simps arr_get_def Let_def uv_rwlock_wrlock_def)
qed

section \<open>The interpretation\<close>

lemma new_correct:
  "ht_inv (hash_table_new :: 'd hash_table_t)" "ht_room (hash_table_new :: 'd hash_table_t)"
  "ht_lookup (hash_table_new :: 'd hash_table_t) = Map.empty"
proof -
  let ?t = "hash_table_new :: 'd hash_table_t"
  have "?t\<lparr>ht_capacity := 8, ht_threshold := load_threshold 8,
      ht_table := replicate 8 [empty_node]\<rparr> = ?t" "ht_count ?t = 0" "\<not> ht_lock ?t" "ht_capacity ?t = 8"
    by (simp_all add: hash_table_new_def)
  with ht_wf_fresh [where cap = 8 and t = ?t and thr = "load_threshold 8"]
  show "ht_inv ?t" "ht_room ?t" "ht_lookup ?t = Map.empty"
    by (simp_all add: ht_inv_def ht_room_def INT_MAX_def)
qed

interpretation ht: name_table ht_lookup ht_inv ht_room ht_removable hash_table_new
  "\<lambda>t k d. hash_table_put t (Some k) (Some d)" hash_table_get hash_table_store hash_table_remove
proof unfold_locales
  fix t :: "'a hash_table_t" and k
  assume "ht_inv t"
  then show "hash_table_get t k = Inr (ht_lookup t k)"
    by (simp add: ht_inv_def hash_table_get_correct)
next
  fix t :: "'a hash_table_t" and k and d
  assume "ht_inv t" "ht_removable t k"
  then show "\<exists>t'. hash_table_remove t k = Inr t' \<and> ht_inv t' \<and> (ht_room t \<longrightarrow> ht_room t') \<and>
      ht_lookup t' = (ht_lookup t)(k := None)"
    using remove_correct [of t k] by blast
qed (rule new_correct put_correct store_correct; assumption)+

section \<open>Releasing the table\<close>

lemma hash_table_free_correct:
  assumes "ht_wf t"
  shows "hash_table_free t = Inr ()"
proof -
  have "\<exists>u. free_bucket (ht_table t) i u' = Inr u" if i: "i < ht_capacity t" for i u'
  proof -
    from assms i obtain es where "ht_table t ! i = embed_bucket es" "i < length (ht_table t)"
      unfolding ht_wf_def bucket_ok_def Let_def by metis
    then show ?thesis by (cases es) (simp_all add: free_bucket_def arr_get_def)
  qed
  then obtain u where "hash_table_free t = Inr u"
    using forE_rule [of "\<lambda>_ _. True" 0 "()" "ht_capacity t" "free_bucket (ht_table t)"]
    unfolding hash_table_free_def by auto
  then show ?thesis by simp
qed

section \<open>Growth\<close>

text \<open>Below \<open>2 ^ 22\<close> slots the float arithmetic of the threshold is exact.\<close>

lemma round_f32_exact: "n < 2 ^ 24 \<Longrightarrow> round_f32 n = n"
  by (simp add: round_f32_def f32_drop.simps [of n])

lemma load_threshold_exact: "cap < 2 ^ 22 \<Longrightarrow> load_threshold cap = 3 * cap div 4"
  by (simp add: load_threshold_def round_f32_exact)

text \<open>
  The capacity is bounded by the counter, since a table is only resized when the counter has passed
  three quarters of it. So a table whose counter is at most \<open>2 ^ 20\<close> has room.
\<close>

definition ht_tight :: "'d hash_table_t \<Rightarrow> bool" where
  "ht_tight t \<longleftrightarrow> ht_threshold t = load_threshold (ht_capacity t) \<and>
     ht_capacity t \<le> 3 * ht_count t + 8"

lemma ht_tight_new: "ht_tight hash_table_new"
  by (simp add: ht_tight_def hash_table_new_def)

lemma ht_tight_room: "ht_tight t \<Longrightarrow> ht_count t \<le> 2 ^ 20 \<Longrightarrow> ht_room t"
  by (simp add: ht_tight_def ht_room_def INT_MAX_def)

lemma put_tight:
  assumes inv: "ht_inv t" and tight: "ht_tight t" and c: "ht_count t \<le> 2 ^ 20"
    and put: "hash_table_put t (Some k) (Some d) = Inr t'"
  shows "ht_tight t' \<and> ht_count t \<le> ht_count t' \<and> ht_capacity t \<le> ht_capacity t'"
proof (cases "ht_lookup t k = None")
  case False
  with put_present [OF inv False, of d] put tight show ?thesis by (auto simp: ht_tight_def)
next
  case True
  from put_absent_correct [OF inv True ht_tight_room [OF tight c], of d] put
  have t': "if ht_count t + 1 > ht_threshold t
      then ht_capacity t' = 2 * ht_capacity t + 1 \<and>
           ht_threshold t' = load_threshold (2 * ht_capacity t + 1) \<and>
           ht_count t' = ht_count t + 1 + (ht_size t + 1)
      else ht_capacity t' = ht_capacity t \<and> ht_threshold t' = ht_threshold t \<and>
           ht_count t' = ht_count t + 1" by auto
  have "ht_capacity t < 2 ^ 22" using tight c by (simp add: ht_tight_def)
  then have "ht_threshold t = 3 * ht_capacity t div 4"
    using tight by (simp add: ht_tight_def load_threshold_exact)
  with t' tight show ?thesis
    by (cases "ht_count t + 1 > ht_threshold t") (auto simp: ht_tight_def)
qed

end
