(* ===== verification/Cache.thy ===== *)
theory Cache
  imports Hash_Table_Correct
begin

text \<open>
  What the three caches share. \<open>scan_bucket\<close> and \<open>remove_names\<close> are the two loops of the \<open>_clear\<close>
  functions, with the test for a stale entry as an argument; on a table whose buckets hold at most two
  entries they remove exactly the stale entries. The locale \<open>dns_cache\<close> states what the server relies
  on; each cache interprets it.
\<close>

section \<open>The loops of the clear functions\<close>

text \<open>\<open>result\<close> is an array of \<open>n\<close> pointers, \<open>n\<close> the counter of the table.\<close>

fun scan_bucket :: "('d \<Rightarrow> bool) \<Rightarrow> nat \<Rightarrow> 'd bucket \<Rightarrow> string_t list \<Rightarrow> string_t list res" where
  "scan_bucket stale n [] result = Inr result"
| "scan_bucket stale n (node # rest) result =
     (if node_freed node then Inl Use_After_Free
      else case node_name node of
        None \<Rightarrow> Inr result
      | Some name \<Rightarrow>
          bindE (or_fail Null_Deref (node_data node)) (\<lambda>cache.
          bindE (if stale cache
                 then if length result < n then Inr (result @ [name]) else Inl Out_Of_Bounds
                 else Inr result)
            (scan_bucket stale n rest)))"

definition scan_slot ::
    "('d \<Rightarrow> bool) \<Rightarrow> 'd hash_table_t \<Rightarrow> nat \<Rightarrow> string_t list \<Rightarrow> string_t list res" where
  "scan_slot stale t i result =
     bindE (arr_get (ht_table t) i) (\<lambda>bucket. scan_bucket stale (ht_count t) bucket result)"

definition scan_table :: "('d \<Rightarrow> bool) \<Rightarrow> 'd hash_table_t \<Rightarrow> string_t list res" where
  "scan_table stale t = forE (ht_capacity t) 0 (scan_slot stale t) []"

fun remove_names :: "string_t list \<Rightarrow> 'd hash_table_t \<Rightarrow> 'd hash_table_t res" where
  "remove_names [] t = Inr t"
| "remove_names (name # names) t = bindE (hash_table_remove t name) (remove_names names)"

definition clear_table :: "('d \<Rightarrow> bool) \<Rightarrow> 'd hash_table_t \<Rightarrow> 'd hash_table_t res" where
  "clear_table stale t = bindE (scan_table stale t) (\<lambda>names. remove_names names t)"

section \<open>Shallow tables\<close>

definition ht_shallow :: "'d hash_table_t \<Rightarrow> bool" where
  "ht_shallow t = list_all (\<lambda>b. length (bucket_entries b) \<le> 2) (ht_table t)"

lemma ht_shallow_new [simp]: "ht_shallow hash_table_new"
  by (simp add: ht_shallow_def hash_table_new_def empty_node_def list_all_iff)

lemma ht_shallow_entries: "ht_wf t \<Longrightarrow> ht_shallow t \<Longrightarrow> length (ht_entries t k) \<le> 2"
  by (simp add: ht_shallow_def ht_entries_def list_all_length ht_wf_def)

lemma ht_shallow_with_entries:
  "ht_shallow t \<Longrightarrow> length es \<le> 2 \<Longrightarrow> ht_shallow (with_entries t k es)"
  by (auto simp: ht_shallow_def with_entries_def list_all_iff dest!: set_update_subset_insert [THEN subsetD])

lemma ht_shallow_removable:
  assumes "ht_wf t" "ht_shallow t" "ht_lookup t k \<noteq> None"
  shows "ht_removable t k"
proof -
  have "length (ht_entries t k) \<le> 2" by (rule ht_shallow_entries [OF assms(1,2)])
  with assms(3) show ?thesis
    by (cases "ht_entries t k") (auto simp: ht_removable_def ht_lookup_def split: if_splits)
qed

lemma remove_shallow:
  assumes inv: "ht_inv t" and sh: "ht_shallow t" and k: "ht_lookup t k \<noteq> None"
  shows "\<exists>t'. hash_table_remove t k = Inr t' \<and> ht_inv t' \<and> ht_shallow t' \<and>
     (ht_room t \<longrightarrow> ht_room t') \<and> ht_lookup t' = (ht_lookup t)(k := None) \<and> ht_count t' = ht_count t"
proof -
  have wf: "ht_wf t" using inv by (simp add: ht_inv_def)
  have rem: "ht_removable t k" by (rule ht_shallow_removable [OF wf sh k])
  have "length (AList.delete k (ht_entries t k)) \<le> 2"
    using length_delete_le [of k "ht_entries t k"] ht_shallow_entries [OF wf sh, of k] by linarith
  then have "ht_shallow (if ht_entries t k = [] then t
      else with_entries t k (AList.delete k (ht_entries t k)))"
    using sh by (simp add: ht_shallow_with_entries)
  with remove_correct [OF inv rem] remove_eq [OF inv rem] show ?thesis by auto
qed

lemma remove_names_correct:
  assumes "ht_inv t" "ht_shallow t" "distinct names" "\<forall>k \<in> set names. ht_lookup t k \<noteq> None"
  shows "\<exists>t'. remove_names names t = Inr t' \<and> ht_inv t' \<and> ht_shallow t' \<and> (ht_room t \<longrightarrow> ht_room t') \<and>
     ht_lookup t' = ht_lookup t |` (- set names)"
  using assms
proof (induction names arbitrary: t)
  case (Cons k names)
  from Cons.prems obtain t1 where t1: "hash_table_remove t k = Inr t1" "ht_inv t1" "ht_shallow t1"
    "ht_room t \<longrightarrow> ht_room t1" "ht_lookup t1 = (ht_lookup t)(k := None)"
    using remove_shallow [of t k] by auto
  with Cons.prems have "\<forall>k' \<in> set names. ht_lookup t1 k' \<noteq> None" by auto
  from Cons.IH [OF t1(2,3) _ this] Cons.prems(3) t1 show ?case
    by (auto simp: restrict_map_def fun_eq_iff)
qed (auto simp: restrict_map_def)

section \<open>The scan\<close>

definition stale_names :: "('d \<Rightarrow> bool) \<Rightarrow> 'd bucket list \<Rightarrow> string_t list" where
  "stale_names stale bs =
     concat (map (\<lambda>b. map fst (filter (\<lambda>e. stale (snd e)) (bucket_entries b))) bs)"

lemma scan_entries:
  "length result + length es \<le> n \<Longrightarrow> scan_bucket stale n (map mk_node es) result =
     Inr (result @ map fst (filter (\<lambda>e. stale (snd e)) es))"
  by (induction es arbitrary: result) auto

lemma length_stale_names:
  "length (stale_names stale bs) \<le> sum_list (map (\<lambda>b. length (bucket_entries b)) bs)"
  by (induction bs) (auto simp: stale_names_def intro: add_mono)

lemma scan_slot_correct:
  assumes wf: "ht_wf t" and i: "i < ht_capacity t"
  shows "scan_slot stale t i (stale_names stale (take i (ht_table t))) =
     Inr (stale_names stale (take (Suc i) (ht_table t)))"
proof -
  let ?b = "ht_table t ! i"
  have len: "length (ht_table t) = ht_capacity t" using wf by (simp add: ht_wf_def)
  from wf i obtain es where es: "?b = embed_bucket es" "bucket_entries ?b = es"
    unfolding ht_wf_def bucket_ok_def Let_def by metis
  have suc: "take (Suc i) (ht_table t) = take i (ht_table t) @ [?b]"
    using i len by (simp add: take_Suc_conv_app_nth)
  have "sum_list (map (\<lambda>b. length (bucket_entries b)) (take (Suc i) (ht_table t))) \<le> ht_count t"
    using sum_list_take_le [of "Suc i" "map (\<lambda>b. length (bucket_entries b)) (ht_table t)"] wf
    by (simp add: ht_wf_def ht_size_def take_map)
  then have "length (stale_names stale (take i (ht_table t))) + length es \<le> ht_count t"
    using length_stale_names [of stale "take i (ht_table t)"] es(2) by (simp add: suc)
  then have "scan_bucket stale (ht_count t) ?b (stale_names stale (take i (ht_table t))) =
      Inr (stale_names stale (take i (ht_table t)) @ map fst (filter (\<lambda>e. stale (snd e)) es))"
    by (cases es) (auto simp: es(1) scan_entries)
  with i len es(2) show ?thesis
    by (simp add: scan_slot_def arr_simps suc stale_names_def)
qed

lemma scan_table_correct:
  assumes "ht_wf t"
  shows "scan_table stale t = Inr (stale_names stale (ht_table t))"
proof -
  let ?I = "\<lambda>i r. r = stale_names stale (take i (ht_table t))"
  have "\<exists>r. scan_table stale t = Inr r \<and> ?I (0 + ht_capacity t) r"
    unfolding scan_table_def
    by (rule forE_rule [where I = ?I]) (use scan_slot_correct [OF assms] in \<open>auto simp: stale_names_def\<close>)
  then show ?thesis using assms by (simp add: ht_wf_def)
qed

lemma set_stale_names:
  assumes wf: "ht_wf t"
  shows "k \<in> set (stale_names stale (ht_table t)) \<longleftrightarrow> (\<exists>c. ht_lookup t k = Some c \<and> stale c)"
proof
  assume "k \<in> set (stale_names stale (ht_table t))"
  then obtain i c where i: "i < ht_capacity t" "(k, c) \<in> set (bucket_entries (ht_table t ! i))" "stale c"
    using wf by (auto simp: stale_names_def in_set_conv_nth ht_wf_def) metis
  then have "ht_index (ht_capacity t) k = i"
    using wf unfolding ht_wf_def bucket_ok_def Let_def by force
  with i(2) have "(k, c) \<in> set (ht_entries t k)" by (simp add: ht_entries_def)
  then have "ht_lookup t k = Some c" using ht_wfD(2) [OF wf] by (simp add: ht_lookup_def)
  with i(3) show "\<exists>c. ht_lookup t k = Some c \<and> stale c" by blast
next
  assume "\<exists>c. ht_lookup t k = Some c \<and> stale c"
  then obtain c where c: "(k, c) \<in> set (ht_entries t k)" "stale c"
    by (auto simp: ht_lookup_def dest: map_of_SomeD)
  have "ht_index (ht_capacity t) k < length (ht_table t)" using wf by (simp add: ht_wf_def)
  then have "ht_table t ! ht_index (ht_capacity t) k \<in> set (ht_table t)" by simp
  with c show "k \<in> set (stale_names stale (ht_table t))"
    by (force simp: stale_names_def ht_entries_def)
qed

lemma distinct_stale_names:
  assumes wf: "ht_wf t" and i: "i \<le> ht_capacity t"
  shows "distinct (stale_names stale (take i (ht_table t))) \<and>
     (\<forall>k \<in> set (stale_names stale (take i (ht_table t))). ht_index (ht_capacity t) k < i)"
  using i
proof (induction i)
  case (Suc i)
  let ?b = "ht_table t ! i"
  have "bucket_ok (ht_capacity t) i ?b" using wf Suc.prems by (simp add: ht_wf_def)
  then have b: "distinct (map fst (bucket_entries ?b))"
    "\<forall>e \<in> set (bucket_entries ?b). ht_index (ht_capacity t) (fst e) = i"
    unfolding bucket_ok_def Let_def by blast+
  have "take (Suc i) (ht_table t) = take i (ht_table t) @ [?b]"
    using wf Suc.prems by (simp add: take_Suc_conv_app_nth ht_wf_def)
  then have "stale_names stale (take (Suc i) (ht_table t)) =
      stale_names stale (take i (ht_table t)) @ map fst (filter (\<lambda>e. stale (snd e)) (bucket_entries ?b))"
    by (simp add: stale_names_def)
  with Suc b show ?case by (fastforce simp: distinct_map_filter)
qed (simp add: stale_names_def)

lemma clear_table_correct:
  assumes inv: "ht_inv t" and sh: "ht_shallow t"
  shows "\<exists>t'. clear_table stale t = Inr t' \<and> ht_inv t' \<and> ht_shallow t' \<and> (ht_room t \<longrightarrow> ht_room t') \<and>
     ht_lookup t' = (\<lambda>k. case ht_lookup t k of None \<Rightarrow> None | Some c \<Rightarrow> if stale c then None else Some c)"
proof -
  have wf: "ht_wf t" using inv by (simp add: ht_inv_def)
  let ?names = "stale_names stale (ht_table t)"
  have "distinct ?names"
    using distinct_stale_names [OF wf, of "ht_capacity t" stale] wf by (simp add: ht_wf_def)
  moreover have "\<forall>k \<in> set ?names. ht_lookup t k \<noteq> None"
    using set_stale_names [OF wf] by auto
  ultimately obtain t' where t': "remove_names ?names t = Inr t'" "ht_inv t'" "ht_shallow t'"
    "ht_room t \<longrightarrow> ht_room t'" "ht_lookup t' = ht_lookup t |` (- set ?names)"
    using remove_names_correct [OF inv sh] by blast
  have "(ht_lookup t |` (- set ?names)) k =
      (case ht_lookup t k of None \<Rightarrow> None | Some c \<Rightarrow> if stale c then None else Some c)" for k
    by (cases "ht_lookup t k") (auto simp: restrict_map_def set_stale_names [OF wf])
  with t' show ?thesis by (auto simp: clear_table_def scan_table_correct [OF wf])
qed

section \<open>The interface of a cache\<close>

text \<open>
  A cache maps names to entries. \<open>put\<close> replaces an entry unless it is \<open>locked\<close>, storing what
  \<open>stored\<close> makes of it; \<open>clear\<close> drops the entries that are \<open>stale\<close> at a time.
\<close>

locale dns_cache =
  fixes lookup :: "'t \<Rightarrow> string_t \<Rightarrow> 'c option"
    and invar :: "'t \<Rightarrow> bool"
    and room :: "'t \<Rightarrow> bool"
    and shallow :: "'t \<Rightarrow> bool"
    and locked :: "'c \<Rightarrow> bool"
    and stale :: "int \<Rightarrow> 'c \<Rightarrow> bool"
    and stored :: "int \<Rightarrow> 'c \<Rightarrow> 'c"
    and get :: "'t \<Rightarrow> string_t \<Rightarrow> 'c option res"
    and put :: "int \<Rightarrow> 't \<Rightarrow> string_t \<Rightarrow> 'c \<Rightarrow> 't res"
    and clear :: "int \<Rightarrow> 't \<Rightarrow> 't res"
  assumes get_law: "invar t \<Longrightarrow> get t k = Inr (lookup t k)"
    and put_law: "invar t \<Longrightarrow> room t \<Longrightarrow>
          \<exists>t'. put now t k c = Inr t' \<and> invar t' \<and>
            lookup t' = (if \<exists>old. lookup t k = Some old \<and> locked old then lookup t
                         else (lookup t)(k \<mapsto> stored now c))"
    and clear_law: "invar t \<Longrightarrow> shallow t \<Longrightarrow>
          \<exists>t'. clear now t = Inr t' \<and> invar t' \<and> shallow t' \<and> (room t \<longrightarrow> room t') \<and>
            lookup t' = (\<lambda>k. case lookup t k of None \<Rightarrow> None
                                   | Some c \<Rightarrow> if stale now c then None else Some c)"
    and locked_fresh: "locked c \<Longrightarrow> \<not> stale now c"
begin

lemma get_after_put:
  assumes "invar t" "room t" "\<forall>old. lookup t k = Some old \<longrightarrow> \<not> locked old" "put now t k c = Inr t'"
  shows "get t' k' = Inr (if k' = k then Some (stored now c) else lookup t k')"
proof -
  from assms put_law [of t now k c] have "invar t'" "lookup t' = (lookup t)(k \<mapsto> stored now c)" by auto
  then show ?thesis by (simp add: get_law)
qed

lemma locked_survives_put:
  assumes "invar t" "room t" "lookup t k = Some old" "locked old" "put now t k c = Inr t'"
  shows "get t' k = Inr (Some old)"
proof -
  from assms put_law [of t now k c] have "invar t'" "lookup t' = lookup t" by auto
  with assms(3) show ?thesis by (simp add: get_law)
qed

lemma clear_keeps_fresh:
  assumes "invar t" "shallow t" "clear now t = Inr t'"
  shows "get t' k = Inr (case lookup t k of None \<Rightarrow> None | Some c \<Rightarrow> if stale now c then None else Some c)"
proof -
  from assms clear_law [of t now] have "invar t'"
    "lookup t' = (\<lambda>k. case lookup t k of None \<Rightarrow> None | Some c \<Rightarrow> if stale now c then None else Some c)"
    by auto
  then show ?thesis by (simp add: get_law)
qed

lemma locked_survives_clear:
  assumes "invar t" "shallow t" "lookup t k = Some c" "locked c" "clear now t = Inr t'"
  shows "get t' k = Inr (Some c)"
  using clear_keeps_fresh [OF assms(1,2,5), of k] assms(3,4) by (simp add: locked_fresh)

end

end
