(* ===== verification/Inet.thy ===== *)
theory Inet
  imports Utils
begin

text \<open>
  IPv4 addresses as text in the bundled libuv: \<open>inet_pton4\<close>, \<open>inet_ntop4\<close> (\<open>src/libuv/src/inet.c\<close>) and
  \<open>uv__strscpy\<close> (\<open>strscpy.c\<close>). \<open>inet_pton4\<close> is proved to accept exactly the canonical dotted decimal texts.
\<close>

unbundle bit_operations_syntax

section \<open>Text to address\<close>

text \<open>
  The loop over the characters of the string: \<open>tp\<close> is the index of the octet being read in \<open>tmp\<close>, four
  bytes on the stack. A return of an error code is the left of the inner sum.
\<close>

fun pton4_loop ::
    "byte list \<Rightarrow> bool \<Rightarrow> nat \<Rightarrow> cells \<Rightarrow> nat \<Rightarrow> (int + nat \<times> cells) res" where
  "pton4_loop [] saw_digit octets tmp tp = Inr (Inr (octets, tmp))"
| "pton4_loop (ch # src) saw_digit octets tmp tp =
     (if 48 \<le> ch \<and> ch \<le> 57 then
        bindE (cells_read tmp tp 1) (\<lambda>v.
        let nw = unat (v ! 0) * 10 + (unat ch - 48) in
        if saw_digit \<and> v ! 0 = 0 then Inr (Inl UV_EINVAL)
        else if nw > 255 then Inr (Inl UV_EINVAL)
        else
          bindE (cells_write tmp tp [of_nat nw]) (\<lambda>tmp.
          if \<not> saw_digit then
            (if octets + 1 > 4 then Inr (Inl UV_EINVAL)
             else pton4_loop src True (octets + 1) tmp tp)
          else pton4_loop src saw_digit octets tmp tp))
      else if ch = 46 \<and> saw_digit then
        (if octets = 4 then Inr (Inl UV_EINVAL)
         else bindE (cells_write tmp (tp + 1) [0]) (\<lambda>tmp. pton4_loop src False octets tmp (tp + 1)))
      else Inr (Inl UV_EINVAL))"

text \<open>On success the four octets, to be copied to \<open>dst\<close>, which is untouched otherwise.\<close>

definition inet_pton4 :: "byte list \<Rightarrow> (int + byte list) res" where
  "inet_pton4 src =
     bindE (cells_write (malloc_cells 4) 0 [0]) (\<lambda>tmp.
     bindE (pton4_loop (c_str src) False 0 tmp 0) (\<lambda>r.
     case r of
       Inl e \<Rightarrow> Inr (Inl e)
     | Inr (octets, tmp) \<Rightarrow>
         if octets < 4 then Inr (Inl UV_EINVAL)
         else bindE (cells_read tmp 0 4) (\<lambda>bs. Inr (Inr bs))))"

section \<open>Address to text\<close>

text \<open>\<open>uv__strscpy\<close>: copies up to \<open>n\<close> bytes and always terminates; \<open>s\<close> is an array, \<open>d\<close> memory.\<close>

function strscpy_loop :: "cells \<Rightarrow> byte list \<Rightarrow> nat \<Rightarrow> nat \<Rightarrow> (int option \<times> cells) res" where
  "strscpy_loop d s n i =
     (if i < n then
        bindE (arr_get s i) (\<lambda>c. bindE (cells_write d i [c]) (\<lambda>d.
        if c = 0 then Inr (Some (int i), d) else strscpy_loop d s n (i + 1)))
      else Inr (None, d))"
  by pat_completeness auto
termination
  by (relation "measure (\<lambda>(_, _, n, i). n - i)") auto

declare strscpy_loop.simps [simp del]

definition uv__strscpy :: "cells \<Rightarrow> byte list \<Rightarrow> nat \<Rightarrow> (int \<times> cells) res" where
  "uv__strscpy d s n =
     bindE (strscpy_loop d s n 0) (\<lambda>(r, d).
     case r of
       Some i \<Rightarrow> Inr (i, d)
     | None \<Rightarrow>
         (if n = 0 then Inr (0, d)
          else bindE (cells_write d (n - 1) [0]) (\<lambda>d. Inr (UV_E2BIG, d))))"

definition dotted_quad :: "byte list \<Rightarrow> byte list" where
  "dotted_quad bs = dec_digits (unat (bs ! 0)) @ 46 # dec_digits (unat (bs ! 1)) @ 46 #
     dec_digits (unat (bs ! 2)) @ 46 # dec_digits (unat (bs ! 3))"

text \<open>\<open>snprintf\<close> into 16 bytes keeps 15 characters and says how long the text is.\<close>

definition inet_ntop4 :: "byte list \<Rightarrow> cells \<Rightarrow> nat \<Rightarrow> (int \<times> cells) res" where
  "inet_ntop4 src dst sz =
     bindE (arr_read src 0 4) (\<lambda>src.
     let txt = dotted_quad src; l = length txt; tmp = take 15 txt @ [0]
     in if l = 0 \<or> sz \<le> l then Inr (UV_ENOSPC, dst)
        else bindE (uv__strscpy dst tmp sz) (\<lambda>(_, dst). Inr (0, dst)))"

section \<open>Decimal octets\<close>

lemma dec_digits_snoc:
  "0 < x \<Longrightarrow> d < 10 \<Longrightarrow> dec_digits (10 * x + d) = dec_digits x @ [of_nat (48 + d)]"
  by (subst dec_digits.simps) simp

lemma dec_digits_small: "d < 10 \<Longrightarrow> dec_digits d = [of_nat (48 + d)]"
  by (subst dec_digits.simps) simp

lemma digit_byte:
  assumes "d < 10"
  shows "48 \<le> (of_nat (48 + d) :: byte) \<and> (of_nat (48 + d) :: byte) \<le> 57 \<and>
     unat (of_nat (48 + d) :: byte) = 48 + d"
proof -
  have "unat (of_nat (48 + d) :: byte) = 48 + d"
    using assms by (simp add: unat_of_nat del: of_nat_add)
  moreover have "unat (48 :: byte) = 48" "unat (57 :: byte) = 57" by simp_all
  ultimately show ?thesis using assms by (simp add: word_le_nat_alt del: of_nat_add)
qed

lemma digit_range:
  assumes "48 \<le> (ch :: byte)" "ch \<le> 57"
  obtains d where "d < 10" "ch = of_nat (48 + d)" "unat ch - 48 = d"
proof
  have u: "48 \<le> unat ch" "unat ch \<le> 57" using assms by (simp_all add: word_le_nat_alt)
  then show "unat ch - 48 < 10" by simp
  have "48 + (unat ch - 48) = unat ch" using u by simp
  then show "ch = of_nat (48 + (unat ch - 48))" by simp
qed rule

text \<open>A digit in the loop, on the octets \<open>bs\<close> read and the octet \<open>x\<close> being read.\<close>

lemma pton4_digit:
  assumes "d < 10" "length bs < 4"
  shows "pton4_loop (of_nat (48 + d) # src) saw n (filled 4 (bs @ [x])) (length bs) =
     (if saw \<and> x = 0 \<or> unat x * 10 + d > 255 \<or> \<not> saw \<and> n \<ge> 4 then Inr (Inl UV_EINVAL)
      else pton4_loop src True (if saw then n else n + 1) (filled 4 (bs @ [of_nat (unat x * 10 + d)])) (length bs))"
proof -
  have "cells_write (filled 4 (bs @ [x])) (length bs) [b] = Inr (filled 4 (bs @ [b]))" for b
    by (rule cells_write_filled_over) (use assms(2) in simp_all)
  with digit_byte [OF assms(1)] assms(2) show ?thesis
    by (auto simp: arr_simps Let_def)
qed

declare pton4_loop.simps(2) [simp del]

lemma pton4_dot:
  assumes "length bs < 4"
  shows "pton4_loop (46 # src) saw n (filled 4 (bs @ [x])) (length bs) =
     (if saw \<and> n \<noteq> 4 then
        (if length bs < 3 then pton4_loop src False n (filled 4 (bs @ [x, 0])) (Suc (length bs))
         else Inl Out_Of_Bounds)
      else Inr (Inl UV_EINVAL))"
proof -
  let ?w = "cells_write (filled 4 (bs @ [x])) (length bs + 1) [0]"
  have "?w = Inr (filled 4 (bs @ [x, 0]))" if "length bs < 3"
    using cells_write_filled [of "bs @ [x]" "[0]" 4 "length bs + 1"] that by simp
  moreover have "?w = Inl Out_Of_Bounds" if "\<not> length bs < 3"
    using cells_write_filled_overflow [of "bs @ [x]" 4 "[0]" "length bs + 1"] that assms by simp
  moreover have "\<not> (48 \<le> (46 :: byte) \<and> (46 :: byte) \<le> 57)" by simp
  ultimately show ?thesis by (subst pton4_loop.simps(2)) (simp split: if_splits)
qed

lemma pton4_other:
  "\<not> (48 \<le> ch \<and> ch \<le> 57) \<Longrightarrow> ch \<noteq> 46 \<Longrightarrow> pton4_loop (ch # src) saw n tmp tp = Inr (Inl UV_EINVAL)"
  by (subst pton4_loop.simps(2)) (simp only: if_False simp_thms)

section \<open>Accepted texts\<close>

definition more_octets :: "byte list \<Rightarrow> byte list" where
  "more_octets ys = concat (map (\<lambda>y. 46 # dec_digits (unat y)) ys)"

lemma more_octets_simps [simp]:
  "more_octets [] = []" "more_octets (y # ys) = 46 # dec_digits (unat y) @ more_octets ys"
  by (simp_all add: more_octets_def)

lemma dotted_quad_more:
  "dotted_quad [a, b, c, d] = dec_digits (unat a) @ more_octets [b, c, d]"
  by (simp add: dotted_quad_def numeral_2_eq_2 numeral_3_eq_3)

lemma small_byte: "k < 256 \<Longrightarrow> unat (of_nat k :: byte) = k"
  by (simp add: unat_of_nat)

lemma pton4_first:
  assumes "d < 10" "length bs < 4" "n < 4"
  shows "pton4_loop (of_nat (48 + d) # src) False n (filled 4 (bs @ [0])) (length bs) =
     pton4_loop src True (n + 1) (filled 4 (bs @ [of_nat d])) (length bs)"
  using assms(1,3) unfolding pton4_digit [OF assms(1,2)] by simp

lemma pton4_next:
  assumes "d < 10" "length bs < 4" "0 < x" "10 * x + d < 256"
  shows "pton4_loop (of_nat (48 + d) # src) True n (filled 4 (bs @ [of_nat x])) (length bs) =
     pton4_loop src True n (filled 4 (bs @ [of_nat (10 * x + d)])) (length bs)"
proof -
  have "unat (of_nat x :: byte) = x" using assms(4) by (intro small_byte) simp
  moreover from this have "(of_nat x :: byte) \<noteq> 0" using assms(3) by auto
  ultimately show ?thesis
    using assms(3,4) unfolding pton4_digit [OF assms(1,2)] by (simp add: mult.commute)
qed

lemma pton4_octet:
  assumes "length bs < 4" "n < 4"
  shows "pton4_loop (dec_digits (unat y) @ src) False n (filled 4 (bs @ [0])) (length bs) =
     pton4_loop src True (n + 1) (filled 4 (bs @ [y])) (length bs)"
proof -
  let ?v = "unat y"
  have v: "?v < 256" using unsigned_less [of y, where 'a = nat] by simp
  have parts: "10 * (?v div 10) + ?v mod 10 = ?v" "10 * (?v div 100) + ?v div 10 mod 10 = ?v div 10"
    using div_mult2_eq [of ?v 10 10] by simp_all
  have y: "of_nat ?v = y" by simp
  consider "?v < 10" | "10 \<le> ?v" "?v < 100" | "100 \<le> ?v" by linarith
  then show ?thesis
  proof cases
    case 1
    show ?thesis
      unfolding dec_digits_small [OF 1] append_Cons append_Nil pton4_first [OF 1 assms] y ..
  next
    case 2
    then have d: "0 < ?v div 10" "?v div 10 < 10" "?v mod 10 < 10" by auto
    have digits: "dec_digits ?v = [of_nat (48 + ?v div 10), of_nat (48 + ?v mod 10)]"
      using dec_digits_snoc [OF d(1,3)] unfolding dec_digits_small [OF d(2)] parts by simp
    have "10 * (?v div 10) + ?v mod 10 < 256" using v by simp
    from pton4_next [OF d(3) assms(1) d(1) this, of src "n + 1"] show ?thesis
      unfolding digits append_Cons append_Nil pton4_first [OF d(2) assms] parts y .
  next
    case 3
    then have d: "0 < ?v div 100" "?v div 100 < 10" "0 < ?v div 10" "?v mod 10 < 10" "?v div 10 mod 10 < 10"
      using v by auto
    have digits: "dec_digits ?v =
        [of_nat (48 + ?v div 100), of_nat (48 + ?v div 10 mod 10), of_nat (48 + ?v mod 10)]"
      using dec_digits_snoc [OF d(3,4)] dec_digits_snoc [OF d(1,5)]
      unfolding dec_digits_small [OF d(2)] parts by simp
    have "10 * (?v div 100) + ?v div 10 mod 10 < 256" "10 * (?v div 10) + ?v mod 10 < 256"
      using v by (simp_all add: parts(2))
    note nxt = pton4_next [OF d(5) assms(1) d(1) this(1), of "of_nat (48 + ?v mod 10) # src" "n + 1"]
      pton4_next [OF d(4) assms(1) d(3) this(2), of src "n + 1"]
    show ?thesis
      unfolding digits append_Cons append_Nil pton4_first [OF d(2) assms] nxt [unfolded parts] y ..
  qed
qed

lemma pton4_sound:
  assumes "pton4_loop src saw n (filled 4 (bs @ [x])) (length bs) = Inr (Inr (4, tmp))"
    "length bs < 4" "n = length bs + (if saw then 1 else 0)" "\<not> saw \<longrightarrow> x = 0"
  shows "\<exists>y ys w. src = w @ more_octets ys \<and> tmp = filled 4 (bs @ y # ys) \<and> length (bs @ y # ys) = 4 \<and>
     (if saw then dec_digits (unat y) = dec_digits (unat x) @ w else w = dec_digits (unat y))"
  using assms
proof (induction src arbitrary: saw n bs x)
  case Nil
  then show ?case by (intro exI [of _ x] exI [of _ "[]"]) (auto split: if_splits)
next
  case (Cons ch src)
  consider (digit) "48 \<le> ch" "ch \<le> 57" | (dot) "ch = 46" | (other) "\<not> (48 \<le> ch \<and> ch \<le> 57)" "ch \<noteq> 46"
    by blast
  then show ?case
  proof cases
    case digit
    then obtain d where d: "d < 10" "ch = of_nat (48 + d)" by (rule digit_range)
    let ?x = "of_nat (unat x * 10 + d) :: byte"
    from Cons.prems(1,2) have ok: "\<not> (saw \<and> x = 0 \<or> unat x * 10 + d > 255 \<or> \<not> saw \<and> n \<ge> 4)"
      and run: "pton4_loop src True (if saw then n else n + 1) (filled 4 (bs @ [?x])) (length bs) = Inr (Inr (4, tmp))"
      unfolding d(2) pton4_digit [OF d(1) Cons.prems(2)] by (auto split: if_splits)
    have x: "unat ?x = unat x * 10 + d" using ok by (simp add: unat_of_nat del: of_nat_add of_nat_mult)
    have "(if saw then n else n + 1) = length bs + (if True then 1 else 0)"
      using Cons.prems(3) by (cases saw) simp_all
    from Cons.IH [OF run Cons.prems(2) this] obtain y ys w where
      y: "src = w @ more_octets ys" "tmp = filled 4 (bs @ y # ys)" "length (bs @ y # ys) = 4"
        "dec_digits (unat y) = dec_digits (unat ?x) @ w" by auto
    have "dec_digits (unat ?x) = (if saw then dec_digits (unat x) @ [ch] else [ch])"
    proof (cases saw)
      case True
      then have "0 < unat x" using ok by (simp add: unat_gt_0)
      from dec_digits_snoc [OF this d(1)] True show ?thesis unfolding x d(2) by (simp add: mult.commute)
    next
      case False
      with Cons.prems(4) d show ?thesis unfolding x by (simp add: dec_digits_small)
    qed
    with y show ?thesis by (intro exI [of _ y] exI [of _ ys] exI [of _ "ch # w"]) simp
  next
    case dot
    from Cons.prems(1,2) have saw: saw and l: "length bs < 3"
      and run: "pton4_loop src False n (filled 4 ((bs @ [x]) @ [0])) (length (bs @ [x])) = Inr (Inr (4, tmp))"
      unfolding dot pton4_dot [OF Cons.prems(2)] by (auto split: if_splits)
    from Cons.IH [OF run] l saw Cons.prems(3) obtain y ys where
      "src = dec_digits (unat y) @ more_octets ys" "tmp = filled 4 ((bs @ [x]) @ y # ys)"
      "length ((bs @ [x]) @ y # ys) = 4" by auto
    with dot saw show ?thesis by (intro exI [of _ x] exI [of _ "y # ys"] exI [of _ "[]"]) simp
  next
    case other
    from pton4_other [OF this] Cons.prems(1) show ?thesis by simp
  qed
qed

text \<open>The loop never leaves the four bytes.\<close>

lemma pton4_safe:
  assumes "length bs < 4" "n = length bs + (if saw then 1 else 0)"
  shows "\<exists>r. pton4_loop src saw n (filled 4 (bs @ [x])) (length bs) = Inr r \<and>
     (\<forall>m tmp. r = Inr (m, tmp) \<longrightarrow> m \<le> 4)"
  using assms
proof (induction src arbitrary: saw n bs x)
  case Nil
  then show ?case by auto
next
  case (Cons ch src)
  consider (digit) "48 \<le> ch" "ch \<le> 57" | (dot) "ch = 46" | (other) "\<not> (48 \<le> ch \<and> ch \<le> 57)" "ch \<noteq> 46"
    by blast
  then show ?case
  proof cases
    case digit
    then obtain d where d: "d < 10" "ch = of_nat (48 + d)" by (rule digit_range)
    show ?thesis
      unfolding d(2) pton4_digit [OF d(1) Cons.prems(1)]
      using Cons.IH [of bs "if saw then n else n + 1" True "of_nat (unat x * 10 + d)"] Cons.prems by auto
  next
    case dot
    show ?thesis
      unfolding dot pton4_dot [OF Cons.prems(1)]
      using Cons.IH [of "bs @ [x]" n False 0] Cons.prems by auto
  next
    case other
    from pton4_other [OF this] show ?thesis by simp
  qed
qed

lemma pton4_start: "cells_write (malloc_cells 4) 0 [0] = Inr (filled 4 [0])"
  using cells_write_filled [of "[]" "[0]" 4 0] by (simp add: filled_Nil)

lemma pton4_dotted:
  "pton4_loop (dotted_quad [a, b, c, d]) False 0 (filled 4 [0]) 0 = Inr (Inr (4, filled 4 [a, b, c, d]))"
proof -
  note o = pton4_octet [of "[]" 0 a] pton4_octet [of "[a]" 1 b] pton4_octet [of "[a, b]" 2 c]
    pton4_octet [of "[a, b, c]" 3 d "[]"]
  note dts = pton4_dot [of "[]" _ _ 1 a] pton4_dot [of "[a]" _ _ 2 b] pton4_dot [of "[a, b]" _ _ 3 c]
  show ?thesis
    unfolding dotted_quad_more more_octets_simps append_Nil2
    using o dts by (simp add: numeral_2_eq_2 numeral_3_eq_3)
qed

lemma inet_pton4_correct:
  "inet_pton4 src = Inr (Inr bs) \<longleftrightarrow> length bs = 4 \<and> c_str src = dotted_quad bs"
proof
  assume "inet_pton4 src = Inr (Inr bs)"
  then obtain r where r: "pton4_loop (c_str src) False 0 (filled 4 [0]) 0 = Inr r"
    and ret: "(case r of Inl e \<Rightarrow> Inr (Inl e) | Inr (octets, tmp) \<Rightarrow> if octets < 4 then Inr (Inl UV_EINVAL)
       else bindE (cells_read tmp 0 4) (\<lambda>bs. Inr (Inr bs))) = Inr (Inr bs)"
    unfolding inet_pton4_def pton4_start bindE.simps bindE_eq_Inr_iff by blast
  from ret obtain octets tmp where "r = Inr (octets, tmp)" "\<not> octets < 4" "cells_read tmp 0 4 = Inr bs"
    by (cases r) (auto simp: bindE_eq_Inr_iff split: if_splits)
  with r have run: "pton4_loop (c_str src) False 0 (filled 4 [0]) 0 = Inr (Inr (octets, tmp))"
    and "\<not> octets < 4" and rd: "cells_read tmp 0 4 = Inr bs" by simp_all
  moreover have "octets \<le> 4"
    using pton4_safe [of "[]" 0 False "c_str src" 0] run by auto
  ultimately have "pton4_loop (c_str src) False 0 (filled 4 ([] @ [0])) (length []) = Inr (Inr (4, tmp))"
    by simp
  from pton4_sound [OF this] obtain y ys where
    y: "c_str src = dec_digits (unat y) @ more_octets ys" "tmp = filled 4 (y # ys)" "length (y # ys) = 4" by auto
  then have "bs = y # ys" using rd by (simp add: cells_read_filled)
  moreover obtain b c d where "ys = [b, c, d]" using y(3) by (auto simp: length_Suc_conv eval_nat_numeral)
  ultimately show "length bs = 4 \<and> c_str src = dotted_quad bs"
    using y by (simp add: dotted_quad_more)
next
  assume "length bs = 4 \<and> c_str src = dotted_quad bs"
  moreover then obtain a b c d where bs: "bs = [a, b, c, d]" by (auto simp: length_Suc_conv eval_nat_numeral)
  ultimately show "inet_pton4 src = Inr (Inr bs)"
    by (simp add: inet_pton4_def pton4_start pton4_dotted cells_read_filled)
qed

lemma inet_pton4_total: "\<exists>r. inet_pton4 src = Inr r"
proof -
  obtain r where r: "pton4_loop (c_str src) False 0 (filled 4 [0]) 0 = Inr r"
    "\<forall>m tmp. r = Inr (m, tmp) \<longrightarrow> m \<le> 4"
    using pton4_safe [of "[]" 0 False "c_str src" 0] by auto
  show ?thesis
  proof (cases "\<exists>tmp. r = Inr (4, tmp)")
    case True
    then obtain tmp where t: "r = Inr (4, tmp)" by blast
    with r(1) pton4_sound [of "c_str src" False 0 "[]" 0 tmp] obtain y ys where
      "tmp = filled 4 (y # ys)" "length (y # ys) = 4" by auto
    with r(1) t show ?thesis by (simp add: inet_pton4_def pton4_start cells_read_filled)
  next
    case False
    with r show ?thesis
      by (cases r) (auto simp: inet_pton4_def pton4_start order_le_less)
  qed
qed


section \<open>Printed addresses\<close>

lemma dec_digits_nonzero: "0 \<notin> set (dec_digits n)"
proof (induction n rule: dec_digits.induct)
  case (1 n)
  have nz: "(of_nat (48 + d) :: byte) \<noteq> 0" if "d < 10" for d
  proof
    assume "(of_nat (48 + d) :: byte) = 0"
    then have "unat (of_nat (48 + d) :: byte) = 0" by simp
    with digit_byte [OF that] show False by simp
  qed
  show ?case
  proof (cases "n < 10")
    case True
    with nz [OF True] show ?thesis by (simp add: dec_digits_small del: of_nat_add)
  next
    case False
    with 1 nz [of "n mod 10"] show ?thesis by (subst dec_digits.simps) (simp del: of_nat_add)
  qed
qed

lemma dotted_quad_text:
  "0 \<notin> set (dotted_quad bs)" "length (dotted_quad bs) \<le> 15" "dotted_quad bs \<noteq> []"
proof -
  show "0 \<notin> set (dotted_quad bs)" by (simp add: dotted_quad_def dec_digits_nonzero)
  have "length (dec_digits (unat (bs ! i))) \<le> 3" for i by (rule byte_digits)
  from this [of 0] this [of 1] this [of 2] this [of 3]
  show "length (dotted_quad bs) \<le> 15" by (simp add: dotted_quad_def)
  show "dotted_quad bs \<noteq> []" by (simp add: dotted_quad_def)
qed

lemma strscpy_loop_text:
  assumes "0 \<notin> set txt" "length txt < n" "n \<le> length d" "i \<le> length txt"
  shows "strscpy_loop (map Some (take i txt) @ drop i d) (txt @ [0]) n i =
     Inr (Some (int (length txt)), map Some (txt @ [0]) @ drop (Suc (length txt)) d)"
  using assms(4)
proof (induction "length txt - i" arbitrary: i)
  case 0
  then have i: "i = length txt" by simp
  have "cells_write (map Some txt @ drop i d) i [0] = Inr (map Some (txt @ [0]) @ drop (Suc i) d)"
    using i assms(2,3) by (simp add: cells_write_def arr_write_def)
  with i assms(2) show ?case
    by (simp add: strscpy_loop.simps [of "map Some txt @ drop (length txt) d"] arr_get_def)
next
  case (Suc k)
  then have i: "i < length txt" by simp
  let ?d = "map Some (take i txt) @ drop i d"
  have w: "cells_write ?d i [txt ! i] = Inr (map Some (take (Suc i) txt) @ drop (Suc i) d)"
    using i assms(2,3) by (simp add: cells_write_def arr_write_def take_Suc_conv_app_nth min_def)
  have nz: "txt ! i \<noteq> 0" using assms(1) i by (metis nth_mem)
  have g: "arr_get (txt @ [0]) i = Inr (txt ! i)" using i by (simp add: arr_get_def nth_append)
  from Suc(1) [of "Suc i"] Suc(2) i w nz g assms(2) show ?case
    by (simp add: strscpy_loop.simps [of ?d])
qed

lemma uv__strscpy_text:
  assumes "0 \<notin> set txt" "length txt < n" "n \<le> length d"
  shows "uv__strscpy d (txt @ [0]) n =
     Inr (int (length txt), map Some (txt @ [0]) @ drop (Suc (length txt)) d)"
  using strscpy_loop_text [OF assms, of 0] by (simp add: uv__strscpy_def)

lemma inet_ntop4_text:
  assumes "4 \<le> length bs" "16 \<le> n" "n \<le> length d"
  shows "inet_ntop4 bs d n =
     Inr (0, map Some (dotted_quad (take 4 bs) @ [0]) @ drop (Suc (length (dotted_quad (take 4 bs)))) d)"
proof -
  let ?t = "dotted_quad (take 4 bs)"
  note t = dotted_quad_text [of "take 4 bs"]
  then have "take 15 ?t = ?t" "length ?t < n" "?t \<noteq> []" using assms(2) by simp_all
  with t(1) assms show ?thesis
    by (simp add: inet_ntop4_def arr_read_def Let_def uv__strscpy_text)
qed

end
