(* ===== verification/Inet6.thy ===== *)
theory Inet6
  imports Inet
begin

text \<open>
  IPv6 addresses as text in the bundled libuv, \<open>inet_ntop6\<close> and \<open>inet_pton6\<close> of \<open>src/libuv/src/inet.c\<close>.
  Pointers into the stack arrays are indices; a return of an error code is the left of an inner sum.
\<close>

unbundle bit_operations_syntax

section \<open>Address to text\<close>

definition UV__INET6_ADDRSTRLEN :: nat where "UV__INET6_ADDRSTRLEN = 46"

text \<open>The bytes, two by two, as unsigned numbers.\<close>

definition words_step :: "byte list \<Rightarrow> nat \<Rightarrow> u32 list \<Rightarrow> u32 list res" where
  "words_step src i words =
     bindE (arr_get src i) (\<lambda>b.
     bindE (arr_get words (i div 2)) (\<lambda>w.
     arr_set words (i div 2) (w OR push_bit ((1 - i mod 2) * 8) (ucast b))))"

text \<open>The longest run of zero words: \<open>best\<close> and \<open>cur\<close> are a base, -1 when there is none, and a length.\<close>

type_synonym zero_run = "int \<times> int"

definition better_run :: "zero_run \<Rightarrow> zero_run \<Rightarrow> zero_run" where
  "better_run best cur = (if fst best = - 1 \<or> snd cur > snd best then cur else best)"

definition run_step :: "u32 list \<Rightarrow> nat \<Rightarrow> zero_run \<times> zero_run \<Rightarrow> (zero_run \<times> zero_run) res" where
  "run_step words i = (\<lambda>(best, cur).
     bindE (arr_get words i) (\<lambda>w.
     if w = 0 then
       Inr (best, if fst cur = - 1 then (int i, 1) else (fst cur, snd cur + 1))
     else if fst cur \<noteq> - 1 then Inr (better_run best cur, (- 1, snd cur))
     else Inr (best, cur)))"

definition best_run :: "u32 list \<Rightarrow> zero_run res" where
  "best_run words =
     bindE (forE 8 0 (run_step words) ((- 1, 0), (- 1, 0))) (\<lambda>(best, cur).
     let best = (if fst cur \<noteq> - 1 then better_run best cur else best)
     in Inr (if fst best \<noteq> - 1 \<and> snd best < 2 then (- 1, snd best) else best))"

text \<open>\<open>*tp++ = c\<close>, and \<open>tp += snprintf(tp, sizeof tmp - (tp - tmp), ...)\<close> for the text \<open>txt\<close>.\<close>

definition put_char :: "byte \<Rightarrow> cells \<times> nat \<Rightarrow> (cells \<times> nat) res" where
  "put_char c = (\<lambda>(tmp, tp). bindE (cells_write tmp tp [c]) (\<lambda>tmp. Inr (tmp, tp + 1)))"

definition put_text :: "byte list \<Rightarrow> cells \<times> nat \<Rightarrow> (cells \<times> nat) res" where
  "put_text txt = (\<lambda>(tmp, tp).
     if UV__INET6_ADDRSTRLEN < tp then Inl Out_Of_Bounds
     else
       let sz = UV__INET6_ADDRSTRLEN - tp in
       bindE (if sz = 0 then Inr tmp else cells_write tmp tp (take (sz - 1) txt @ [0])) (\<lambda>tmp.
       Inr (tmp, tp + length txt)))"

fun cells_strlen :: "cells \<Rightarrow> nat res" where
  "cells_strlen [] = Inl Out_Of_Bounds"
| "cells_strlen (None # cs) = Inl Uninitialised"
| "cells_strlen (Some b # cs) = (if b = 0 then Inr 0 else bindE (cells_strlen cs) (\<lambda>n. Inr (n + 1)))"

definition in_run :: "zero_run \<Rightarrow> nat \<Rightarrow> bool" where
  "in_run best i \<longleftrightarrow> fst best \<noteq> - 1 \<and> fst best \<le> int i \<and> int i < fst best + snd best"

definition embeds_ipv4 :: "u32 list \<Rightarrow> zero_run \<Rightarrow> bool" where
  "embeds_ipv4 words best \<longleftrightarrow> fst best = 0 \<and>
     (snd best = 6 \<or> snd best = 7 \<and> words ! 7 \<noteq> 1 \<or> snd best = 5 \<and> words ! 5 = 0xffff)"

function ntop6_loop ::
    "byte list \<Rightarrow> u32 list \<Rightarrow> zero_run \<Rightarrow> nat \<Rightarrow> cells \<times> nat \<Rightarrow> (int + cells \<times> nat) res" where
  "ntop6_loop src words best i out =
     (if 8 \<le> i then Inr (Inr out)
      else if in_run best i then
        bindE (if int i = fst best then put_char 58 out else Inr out) (ntop6_loop src words best (i + 1))
      else
        bindE (if i \<noteq> 0 then put_char 58 out else Inr out) (\<lambda>(tmp, tp).
        if i = 6 \<and> embeds_ipv4 words best then
          bindE (inet_ntop4 (drop 12 src) (drop tp tmp) (UV__INET6_ADDRSTRLEN - tp)) (\<lambda>(err, dst).
          if err \<noteq> 0 then Inr (Inl err)
          else bindE (cells_strlen dst) (\<lambda>n. Inr (Inr (take tp tmp @ dst, tp + n))))
        else
          bindE (put_text (hex_digits (unat (words ! i))) (tmp, tp)) (ntop6_loop src words best (i + 1))))"
  by pat_completeness auto
termination
  by (relation "measure (\<lambda>(_, _, _, i, _). 8 - i)") auto

declare ntop6_loop.simps [simp del]

definition inet_ntop6 :: "byte list \<Rightarrow> cells \<Rightarrow> nat \<Rightarrow> (int \<times> cells) res" where
  "inet_ntop6 src dst sz =
     bindE (forE 16 0 (words_step src) (replicate 8 0)) (\<lambda>words.
     bindE (best_run words) (\<lambda>best.
     bindE (ntop6_loop src words best 0 (malloc_cells UV__INET6_ADDRSTRLEN, 0)) (\<lambda>r.
     case r of
       Inl err \<Rightarrow> Inr (err, dst)
     | Inr out \<Rightarrow>
         bindE (if fst best \<noteq> - 1 \<and> fst best + snd best = 8 then put_char 58 out else Inr out) (\<lambda>out.
         bindE (put_char 0 out) (\<lambda>(tmp, tp).
         if tp > sz then Inr (UV_ENOSPC, dst)
         else
           bindE (cells_read tmp 0 tp) (\<lambda>s.
           bindE (uv__strscpy dst s sz) (\<lambda>(_, dst). Inr (0, dst))))))))"

section \<open>Text to address\<close>

definition xdigit :: "byte \<Rightarrow> nat option" where
  "xdigit ch =
     (if 48 \<le> ch \<and> ch \<le> 57 then Some (unat ch - 48)
      else if 97 \<le> ch \<and> ch \<le> 102 then Some (unat ch - 87)
      else if 65 \<le> ch \<and> ch \<le> 70 then Some (unat ch - 55)
      else None)"

text \<open>The two bytes of a group.\<close>

definition group_bytes :: "u32 \<Rightarrow> byte list" where
  "group_bytes val = [ucast (drop_bit 8 val), ucast val]"

record pton6_state =
  p6_tmp :: cells
  p6_tp :: nat
  p6_colonp :: "nat option"
  p6_seen :: nat
  p6_val :: u32

definition put_group :: "pton6_state \<Rightarrow> (int + pton6_state) res" where
  "put_group st =
     (if p6_tp st + 2 > 16 then Inr (Inl UV_EINVAL)
      else bindE (cells_write (p6_tmp st) (p6_tp st) (group_bytes (p6_val st))) (\<lambda>tmp.
           Inr (Inr (st\<lparr>p6_tmp := tmp, p6_tp := p6_tp st + 2\<rparr>))))"

fun pton6_loop :: "byte list \<Rightarrow> byte list \<Rightarrow> pton6_state \<Rightarrow> (int + pton6_state) res" where
  "pton6_loop [] curtok st = Inr (Inr st)"
| "pton6_loop (ch # src) curtok st =
     (case xdigit ch of
        Some d \<Rightarrow>
          let st = st\<lparr>p6_val := push_bit 4 (p6_val st) OR of_nat d, p6_seen := p6_seen st + 1\<rparr> in
          if p6_seen st > 4 then Inr (Inl UV_EINVAL) else pton6_loop src curtok st
      | None \<Rightarrow>
          if ch = 58 then
            (let curtok = src in
             if p6_seen st = 0 then
               (if p6_colonp st \<noteq> None then Inr (Inl UV_EINVAL)
                else pton6_loop src curtok (st\<lparr>p6_colonp := Some (p6_tp st)\<rparr>))
             else if src = [] then Inr (Inl UV_EINVAL)
             else
               bindE (put_group st) (\<lambda>r.
               case r of
                 Inl e \<Rightarrow> Inr (Inl e)
               | Inr st \<Rightarrow> pton6_loop src curtok (st\<lparr>p6_seen := 0, p6_val := 0\<rparr>)))
          else if ch = 46 \<and> p6_tp st + 4 \<le> 16 then
            bindE (inet_pton4 curtok) (\<lambda>r.
            case r of
              Inl _ \<Rightarrow> Inr (Inl UV_EINVAL)
            | Inr bs \<Rightarrow>
                bindE (cells_write (p6_tmp st) (p6_tp st) bs) (\<lambda>tmp.
                Inr (Inr (st\<lparr>p6_tmp := tmp, p6_tp := p6_tp st + 4, p6_seen := 0\<rparr>))))
          else Inr (Inl UV_EINVAL))"

text \<open>Moving the bytes behind the \<open>::\<close> to the end.\<close>

definition shift_step :: "nat \<Rightarrow> nat \<Rightarrow> nat \<Rightarrow> cells \<Rightarrow> cells res" where
  "shift_step colonp n i tmp =
     bindE (cells_read tmp (colonp + (n - i)) 1) (\<lambda>v.
     bindE (cells_write tmp (16 - i) v) (\<lambda>tmp. cells_write tmp (colonp + (n - i)) [0]))"

definition pton6_end :: "pton6_state \<Rightarrow> (int + byte list) res" where
  "pton6_end st =
     (let done = (\<lambda>tmp tp. if tp \<noteq> 16 then Inr (Inl UV_EINVAL) else bindE (cells_read tmp 0 16) (\<lambda>bs. Inr (Inr bs))) in
      case p6_colonp st of
        None \<Rightarrow> done (p6_tmp st) (p6_tp st)
      | Some colonp \<Rightarrow>
          let n = p6_tp st - colonp in
          if p6_tp st = 16 then Inr (Inl UV_EINVAL)
          else bindE (forE n 1 (shift_step colonp n) (p6_tmp st)) (\<lambda>tmp. done tmp 16))"

definition inet_pton6 :: "byte list \<Rightarrow> (int + byte list) res" where
  "inet_pton6 src =
     (let src = c_str src in
      if src \<noteq> [] \<and> hd src = 58 \<and> (tl src = [] \<or> hd (tl src) \<noteq> 58) then Inr (Inl UV_EINVAL)
      else
        let src = (if src \<noteq> [] \<and> hd src = 58 then tl src else src) in
        bindE (pton6_loop src src
          \<lparr>p6_tmp = map Some (replicate 16 0), p6_tp = 0, p6_colonp = None, p6_seen = 0, p6_val = 0\<rparr>) (\<lambda>r.
        case r of
          Inl e \<Rightarrow> Inr (Inl e)
        | Inr st \<Rightarrow>
            bindE (if p6_seen st > 0 then put_group st else Inr (Inr st)) (\<lambda>r.
            case r of Inl e \<Rightarrow> Inr (Inl e) | Inr st \<Rightarrow> pton6_end st)))"

end
