(* ===== verification/Inet6_Parse.thy ===== *)
theory Inet6_Parse
  imports Inet6
begin

text \<open>What \<open>inet_pton6\<close> reads: groups of hexadecimal digits, an IPv4 address at the end, and the bytes moved behind
  a run of zeros.\<close>

unbundle bit_operations_syntax

section \<open>Reading groups\<close>

definition p6 :: "byte list \<Rightarrow> nat option \<Rightarrow> pton6_state" where
  "p6 acc colonp = \<lparr>p6_tmp = map Some (acc @ replicate (16 - length acc) 0), p6_tp = length acc,
     p6_colonp = colonp, p6_seen = 0, p6_val = 0\<rparr>"

lemma p6_fields [simp]:
  "p6_tmp (p6 acc cp) = map Some (acc @ replicate (16 - length acc) 0)" "p6_tp (p6 acc cp) = length acc"
  "p6_colonp (p6 acc cp) = cp" "p6_seen (p6 acc cp) = 0" "p6_val (p6 acc cp) = 0"
  by (simp_all add: p6_def)

lemma xdigit_hex_digit: "d < 16 \<Longrightarrow> xdigit (hex_digit d) = Some d"
proof -
  have "list_all (\<lambda>d. xdigit (hex_digit d) = Some d) [0..<16]" by code_simp
  then show "d < 16 \<Longrightarrow> xdigit (hex_digit d) = Some d" by (simp add: list_all_iff)
qed

lemma shift_digit: "d < 16 \<Longrightarrow> push_bit 4 (of_nat a :: u32) OR of_nat d = of_nat (16 * a + d)"
proof -
  assume d: "d < 16"
  have "take_bit 4 d = d" using d by (simp add: take_bit_nat_eq_self)
  then have "of_nat d = take_bit 4 (of_nat d :: u32)" by (metis take_bit_of_nat)
  then have "\<not> bit (of_nat d :: u32) n" if "4 \<le> n" for n
    using that by (metis bit_take_bit_iff not_le)
  then have "push_bit 4 (of_nat a :: u32) OR of_nat d = push_bit 4 (of_nat a) + of_nat d"
    by (intro disjunctive_add [symmetric]) (auto simp: bit_push_bit_iff)
  then show ?thesis by (simp add: push_bit_eq_mult)
qed

lemma hex_digits_nonempty [simp]: "hex_digits n \<noteq> []" "0 < length (hex_digits n)"
  by (subst hex_digits.simps, simp)+

lemma hex_digits_length: "n < 65536 \<Longrightarrow> length (hex_digits n) \<le> 4"
  by (subst hex_digits.simps, subst hex_digits.simps, subst hex_digits.simps, subst hex_digits.simps) auto

lemma pton6_hex:
  "p6_val st = 0 \<Longrightarrow> p6_seen st + length (hex_digits n) \<le> 4 \<Longrightarrow>
     pton6_loop (hex_digits n @ src) cur st =
     pton6_loop src cur (st\<lparr>p6_val := of_nat n, p6_seen := p6_seen st + length (hex_digits n)\<rparr>)"
proof (induction n arbitrary: src rule: hex_digits.induct)
  case (1 n)
  show ?case
  proof (cases "n < 16")
    case True
    then have "hex_digits n = [hex_digit n]" by (simp add: hex_digits.simps)
    with "1.prems" True show ?thesis by (simp add: xdigit_hex_digit Let_def)
  next
    case False
    then have h: "hex_digits n = hex_digits (n div 16) @ [hex_digit (n mod 16)]"
      by (subst hex_digits.simps) simp
    have d: "push_bit 4 (of_nat (n div 16) :: u32) OR of_nat (n mod 16) = of_nat n"
      by (subst shift_digit) simp_all
    have "pton6_loop (hex_digits n @ src) cur st =
        pton6_loop (hex_digit (n mod 16) # src) cur
          (st\<lparr>p6_val := of_nat (n div 16), p6_seen := p6_seen st + length (hex_digits (n div 16))\<rparr>)"
      using "1.IH" [OF False, of "hex_digit (n mod 16) # src"] "1.prems" h by simp
    with "1.prems" h d show ?thesis by (simp add: xdigit_hex_digit Let_def)
  qed
qed

lemma write_over_zeros:
  "length bs \<le> k \<Longrightarrow> i = length acc \<Longrightarrow> cells_write (map Some (acc @ replicate k 0)) i bs =
     Inr (map Some (acc @ bs @ replicate (k - length bs) 0))"
  by (simp add: cells_write_def arr_write_def)

lemma put_group_p6:
  assumes "length acc + 2 \<le> 16"
  shows "put_group ((p6 acc cp)\<lparr>p6_val := w, p6_seen := s\<rparr>) =
     Inr (Inr ((p6 (acc @ group_bytes w) cp)\<lparr>p6_val := w, p6_seen := s\<rparr>))"
proof -
  have "length (group_bytes w) = 2" by (simp add: group_bytes_def)
  moreover from this have "cells_write (map Some (acc @ replicate (16 - length acc) 0)) (length acc) (group_bytes w) =
      Inr (map Some ((acc @ group_bytes w) @ replicate (16 - length (acc @ group_bytes w)) 0))"
    using write_over_zeros [of "group_bytes w" "16 - length acc" "length acc" acc] assms by simp
  ultimately show ?thesis using assms by (simp add: put_group_def p6_def)
qed

lemma pton6_colon:
  assumes "length acc + 2 \<le> 16" "0 < s" "src \<noteq> []"
  shows "pton6_loop (58 # src) cur ((p6 acc cp)\<lparr>p6_val := w, p6_seen := s\<rparr>) =
     pton6_loop src src (p6 (acc @ group_bytes w) cp)"
proof -
  have x: "xdigit 58 = None" by (simp add: xdigit_def)
  with assms put_group_p6 [OF assms(1), where cp = cp and w = w and s = s]
  have "pton6_loop (58 # src) cur ((p6 acc cp)\<lparr>p6_val := w, p6_seen := s\<rparr>) =
      pton6_loop src src ((p6 (acc @ group_bytes w) cp)\<lparr>p6_seen := 0, p6_val := 0\<rparr>)" by simp
  also have "\<dots> = pton6_loop src src (p6 (acc @ group_bytes w) cp)" by (simp add: p6_def)
  finally show ?thesis .
qed

definition groups :: "u32 list \<Rightarrow> byte list" where
  "groups ws = concat (map (\<lambda>w. hex_digits (unat w) @ [58]) ws)"

lemma groups_simps [simp]:
  "groups [] = []" "groups (w # ws) = hex_digits (unat w) @ 58 # groups ws" "groups (us @ ws) = groups us @ groups ws"
  by (simp_all add: groups_def)

definition all_bytes :: "u32 list \<Rightarrow> byte list" where
  "all_bytes ws = concat (map group_bytes ws)"

lemma all_bytes_simps [simp]:
  "all_bytes [] = []" "all_bytes (w # ws) = group_bytes w @ all_bytes ws" "all_bytes (us @ ws) = all_bytes us @ all_bytes ws"
  by (simp_all add: all_bytes_def)

lemma length_all_bytes [simp]: "length (all_bytes ws) = 2 * length ws"
  by (induction ws) (simp_all add: group_bytes_def)

lemma all_bytes_zero [simp]: "all_bytes (replicate n 0) = replicate (2 * n) 0"
  by (induction n) (simp_all add: group_bytes_def)

definition small :: "u32 list \<Rightarrow> bool" where
  "small ws \<longleftrightarrow> (\<forall>w \<in> set ws. unat w < 65536)"

lemma pton6_groups:
  assumes "src \<noteq> []" "small ws" "length acc + 2 * length ws \<le> 16"
  shows "pton6_loop (groups ws @ src) cur (p6 acc cp) =
     pton6_loop src (if ws = [] then cur else src) (p6 (acc @ all_bytes ws) cp)"
  using assms
proof (induction ws arbitrary: acc cur)
  case (Cons w ws)
  have ne: "groups ws @ src \<noteq> []" and l: "length (hex_digits (unat w)) \<le> 4"
    using Cons.prems by (auto simp: small_def intro: hex_digits_length)
  have "pton6_loop (groups (w # ws) @ src) cur (p6 acc cp) =
      pton6_loop (58 # groups ws @ src) cur
        ((p6 acc cp)\<lparr>p6_val := w, p6_seen := length (hex_digits (unat w))\<rparr>)"
    using pton6_hex [of "p6 acc cp" "unat w" "58 # groups ws @ src" cur] l by simp
  also have "\<dots> = pton6_loop (groups ws @ src) (groups ws @ src) (p6 (acc @ group_bytes w) cp)"
    using Cons.prems(3) ne by (intro pton6_colon) simp_all
  also have "\<dots> = pton6_loop src src (p6 (acc @ all_bytes (w # ws)) cp)"
    using Cons.IH [of "acc @ group_bytes w" "groups ws @ src"] Cons.prems
    by (cases ws) (simp_all add: small_def group_bytes_def)
  finally show ?case by simp
qed simp

section \<open>The end of the text\<close>

lemma shift_step_zeros:
  assumes "0 < k" "length A + Suc m + k + length S = 16" "colonp = length A" "R = Ra @ [e]" "length Ra = m"
    and "n - i = m" "16 - i = length A + m + k"
  shows "shift_step colonp n i (map Some (A @ R @ replicate k 0 @ S)) =
     Inr (map Some (A @ Ra @ replicate k 0 @ e # S))"
proof -
  obtain k' where k: "k = Suc k'" using assms(1) by (cases k) auto
  let ?old = "map Some (A @ Ra @ e # replicate k' 0 @ 0 # S)"
  let ?mid = "map Some (A @ Ra @ e # replicate k' 0 @ e # S)"
  have z: "A @ R @ replicate k 0 @ S = A @ Ra @ e # replicate k' 0 @ 0 # S"
    using assms(4) by (simp add: k replicate_append_same [symmetric])
  have "cells_read ?old (length A + m) 1 = Inr [e]"
    using assms(5) by (simp add: cells_read_def arr_read_def)
  moreover have "cells_write ?old (16 - i) [e] = Inr ?mid"
    using assms(5) by (simp add: assms(7) k cells_write_def arr_write_def)
  moreover have "cells_write ?mid (length A + m) [0] = Inr (map Some (A @ Ra @ 0 # replicate k' 0 @ e # S))"
    using assms(5) by (simp add: cells_write_def arr_write_def)
  ultimately show ?thesis unfolding z using assms(3,6) by (simp add: shift_step_def k)
qed

lemma pton6_shift:
  assumes "0 < k" "length A + length R + k = 16"
  shows "forE (length R) 1 (shift_step (length A) (length R)) (map Some (A @ R @ replicate k 0)) =
     Inr (map Some (A @ replicate k 0 @ R))"
proof -
  let ?n = "length R"
  let ?I = "\<lambda>i tmp. tmp = map Some (A @ take (?n - (i - 1)) R @ replicate k 0 @ drop (?n - (i - 1)) R)"
  have "\<exists>tmp. forE ?n 1 (shift_step (length A) ?n) (map Some (A @ R @ replicate k 0)) = Inr tmp \<and> ?I (1 + ?n) tmp"
  proof (rule forE_rule [where I = ?I])
    fix i tmp
    assume i: "1 \<le> i" "i < 1 + ?n" and I: "?I i tmp"
    let ?m = "?n - i"
    have m: "?m < ?n" "?n - (i - 1) = Suc ?m" using i by simp_all
    have t: "take (Suc ?m) R = take ?m R @ [R ! ?m]" "drop ?m R = R ! ?m # drop (Suc ?m) R"
      using m(1) by (simp_all only: take_Suc_conv_app_nth Cons_nth_drop_Suc)
    have "shift_step (length A) ?n i (map Some (A @ take (Suc ?m) R @ replicate k 0 @ drop (Suc ?m) R)) =
        Inr (map Some (A @ take ?m R @ replicate k 0 @ R ! ?m # drop (Suc ?m) R))"
      by (rule shift_step_zeros [where m = ?m]) (use assms i t(1) in simp_all)
    moreover have "tmp = map Some (A @ take (Suc ?m) R @ replicate k 0 @ drop (Suc ?m) R)"
      using I unfolding m(2) .
    moreover have "?n - (Suc i - 1) = ?m" by simp
    ultimately show "\<exists>tmp'. shift_step (length A) ?n i tmp = Inr tmp' \<and> ?I (Suc i) tmp'"
      using t(2) by simp
  qed simp
  then show ?thesis by simp
qed

lemma pton6_end_run:
  assumes "length A + length R < 16"
  shows "pton6_end (p6 (A @ R) (Some (length A))) = Inr (Inr (A @ replicate (16 - length A - length R) 0 @ R))"
proof -
  let ?k = "16 - length A - length R"
  have "cells_read (map Some (A @ replicate ?k 0 @ R)) 0 16 = Inr (A @ replicate ?k 0 @ R)"
    using assms by (simp add: cells_read_def arr_read_def)
      (metis cells_bytes_map_Some map_append map_replicate)
  with pton6_shift [of ?k A R] assms show ?thesis
    by (simp add: pton6_end_def Let_def)
qed

lemma pton6_end_full:
  assumes "length A = 16"
  shows "pton6_end (p6 A None) = Inr (Inr A)"
  using assms by (simp add: pton6_end_def Let_def cells_read_def arr_read_def)

text \<open>The loop and what follows it.\<close>

definition p6_run :: "byte list \<Rightarrow> byte list \<Rightarrow> pton6_state \<Rightarrow> (int + byte list) res" where
  "p6_run src cur st =
     bindE (pton6_loop src cur st) (\<lambda>r.
     case r of
       Inl e \<Rightarrow> Inr (Inl e)
     | Inr st \<Rightarrow>
         bindE (if p6_seen st > 0 then put_group st else Inr (Inr st)) (\<lambda>r.
         case r of Inl e \<Rightarrow> Inr (Inl e) | Inr st \<Rightarrow> pton6_end st))"

lemma pton6_end_same: "pton6_end (st\<lparr>p6_val := w, p6_seen := s\<rparr>) = pton6_end st"
  by (cases "p6_colonp st") (simp_all add: pton6_end_def Let_def)

definition join :: "u32 list \<Rightarrow> byte list" where
  "join ws = (if ws = [] then [] else groups (butlast ws) @ hex_digits (unat (last ws)))"

lemma p6_run_words:
  assumes "small ws" "length acc + 2 * length ws \<le> 16"
  shows "p6_run (join ws) cur (p6 acc cp) = pton6_end (p6 (acc @ all_bytes ws) cp)"
proof (cases ws rule: rev_cases)
  case Nil
  then show ?thesis by (simp add: join_def p6_run_def)
next
  case (snoc us w)
  let ?h = "hex_digits (unat w)"
  have l: "length ?h \<le> 4" using assms(1) snoc by (intro hex_digits_length) (simp add: small_def)
  have "pton6_loop (join ws) cur (p6 acc cp) = pton6_loop ?h (if us = [] then cur else ?h) (p6 (acc @ all_bytes us) cp)"
    using pton6_groups [of ?h us acc cur cp] assms snoc by (simp add: join_def small_def)
  also have "\<dots> = Inr (Inr ((p6 (acc @ all_bytes us) cp)\<lparr>p6_val := w, p6_seen := length ?h\<rparr>))"
    using pton6_hex [of "p6 (acc @ all_bytes us) cp" "unat w" "[]"] l by simp
  finally show ?thesis
    using put_group_p6 [where acc = "acc @ all_bytes us" and cp = cp and w = w and s = "length ?h"] assms(2) snoc
    by (simp add: p6_run_def pton6_end_same)
qed

lemma pton6_digits:
  "\<forall>c \<in> set ds. xdigit c \<noteq> None \<Longrightarrow> p6_seen st + length ds \<le> 4 \<Longrightarrow>
     \<exists>v. pton6_loop (ds @ src) cur st = pton6_loop src cur (st\<lparr>p6_val := v, p6_seen := p6_seen st + length ds\<rparr>)"
proof (induction ds arbitrary: st)
  case Nil
  then show ?case by (intro exI [of _ "p6_val st"]) simp
next
  case (Cons c ds)
  then obtain d where "xdigit c = Some d" by auto
  with Cons.prems Cons.IH [of "st\<lparr>p6_val := push_bit 4 (p6_val st) OR of_nat d, p6_seen := p6_seen st + 1\<rparr>"]
  show ?case by (auto simp: Let_def)
qed

lemma dec_digits_xdigit: "c \<in> set (dec_digits n) \<Longrightarrow> xdigit c \<noteq> None"
proof (induction n rule: dec_digits.induct)
  case (1 n)
  have x: "xdigit (of_nat (48 + d)) \<noteq> None" if "d < 10" for d
    using digit_byte [OF that] by (simp add: xdigit_def del: of_nat_add)
  show ?case
  proof (cases "n < 10")
    case True
    with "1.prems" x [of n] show ?thesis by (simp add: dec_digits.simps [of n] del: of_nat_add)
  next
    case False
    with "1.prems" "1.IH" x [of "n mod 10"] show ?thesis
      by (subst (asm) dec_digits.simps [of n]) (auto simp del: of_nat_add)
  qed
qed

lemma p6_run_ipv4:
  assumes "length q = 4" "small us" "us \<noteq> [] \<or> cur = dotted_quad q" "length acc + 2 * length us + 4 \<le> 16"
  shows "p6_run (groups us @ dotted_quad q) cur (p6 acc cp) = pton6_end (p6 (acc @ all_bytes us @ q) cp)"
proof -
  let ?d = "dotted_quad q" and ?h = "dec_digits (unat (q ! 0))" and ?acc = "acc @ all_bytes us"
  obtain rest where rest: "?d = ?h @ 46 # rest" by (simp add: dotted_quad_def)
  have "length ?h \<le> 3" by (rule dec_digits_length_byte) (use unsigned_less [of "q ! 0"] in simp)
  with pton6_digits [of ?h "p6 ?acc cp" "46 # rest" ?d] dec_digits_xdigit obtain v where
    v: "pton6_loop ?d ?d (p6 ?acc cp) = pton6_loop (46 # rest) ?d ((p6 ?acc cp)\<lparr>p6_val := v, p6_seen := length ?h\<rparr>)"
    by (auto simp: rest)
  have x: "xdigit 46 = None" by (simp add: xdigit_def)
  have quad: "inet_pton4 ?d = Inr (Inr q)"
    using inet_pton4_correct [of ?d q] assms(1) by (simp add: dotted_quad_text)
  have w: "cells_write (map Some (?acc @ replicate (16 - length ?acc) 0)) (length ?acc) q =
      Inr (map Some ((?acc @ q) @ replicate (16 - length (?acc @ q)) 0))"
    using write_over_zeros [of q "16 - length ?acc" "length ?acc" ?acc] assms(1,4) by simp
  have "pton6_loop (46 # rest) ?d ((p6 ?acc cp)\<lparr>p6_val := v, p6_seen := length ?h\<rparr>) =
      Inr (Inr ((p6 (?acc @ q) cp)\<lparr>p6_val := v, p6_seen := 0\<rparr>))"
    using x quad w assms(1,4) by (simp add: p6_def)
  moreover have "pton6_loop (groups us @ ?d) cur (p6 acc cp) = pton6_loop ?d ?d (p6 ?acc cp)"
    using pton6_groups [of ?d us acc cur cp] assms by (auto simp: dotted_quad_text)
  ultimately show ?thesis by (simp add: p6_run_def v pton6_end_same)
qed

end
