(* ===== verification/Inet6_Words.thy ===== *)
theory Inet6_Words
  imports Inet6_Parse
begin

text \<open>The words \<open>inet_ntop6\<close> builds from the bytes, and the run of zeros it finds among them.\<close>

unbundle bit_operations_syntax

section \<open>Words\<close>

definition pair_word :: "byte \<Rightarrow> byte \<Rightarrow> u32" where
  "pair_word a b = push_bit 8 (ucast a) OR ucast b"

lemma pair_word_bytes: "group_bytes (pair_word a b) = [a, b]"
proof -
  have "\<not> bit b (8 + n)" for n using bit_imp_le_length [of b "8 + n"] by auto
  then show ?thesis
    unfolding group_bytes_def pair_word_def
    by (auto intro!: bit_word_eqI simp: bit_simps dest: bit_imp_le_length)
qed

lemma pair_word_small: "unat (pair_word a b) < 65536"
proof -
  have "take_bit 16 (pair_word a b) = pair_word a b"
    unfolding pair_word_def by (rule bit_word_eqI) (auto simp: bit_simps dest: bit_imp_le_length)
  then have "unat (pair_word a b) = take_bit 16 (unat (pair_word a b))"
    by (metis unsigned_take_bit_eq)
  then show ?thesis using take_bit_nat_less_exp [of 16 "unat (pair_word a b)"] by simp
qed

fun words_of :: "byte list \<Rightarrow> u32 list" where
  "words_of (a # b # bs) = pair_word a b # words_of bs"
| "words_of _ = []"

lemma words_of_bytes: "even (length bs) \<Longrightarrow> all_bytes (words_of bs) = bs"
  by (induction bs rule: words_of.induct) (auto simp: pair_word_bytes)

lemma words_of_small: "small (words_of bs)"
  by (induction bs rule: words_of.induct) (auto simp: small_def pair_word_small)

lemma length_words_of: "length (words_of bs) = length bs div 2"
  by (induction bs rule: words_of.induct) auto

lemma list_16:
  "length bs = 16 \<Longrightarrow> \<exists>a b c d e f g h i j k l m n p q. bs = [a, b, c, d, e, f, g, h, i, j, k, l, m, n, p, q]"
  by (auto simp: eval_nat_numeral length_Suc_conv)

lemma words_step_at:
  assumes "i < length bs" "i div 2 = length ws" "ws' = ws @ w # zs"
  shows "words_step bs i ws' =
     Inr (ws @ (w OR push_bit ((1 - i mod 2) * 8) (ucast (bs ! i))) # zs)"
  using assms by (simp add: words_step_def arr_get_def arr_set_def)

lemma words_step_pair:
  assumes "length bs = 16" "k < 8" "length ws = k"
  shows "bindE (words_step bs (2 * k) (ws @ replicate (8 - k) 0)) (words_step bs (2 * k + 1)) =
     Inr (ws @ pair_word (bs ! (2 * k)) (bs ! (2 * k + 1)) # replicate (7 - k) 0)"
proof -
  have "8 - k = Suc (7 - k)" using assms(2) by simp
  then have z: "ws @ replicate (8 - k) (0 :: u32) = ws @ 0 # replicate (7 - k) 0" by simp
  have "words_step bs (2 * k) (ws @ replicate (8 - k) 0) =
      Inr (ws @ push_bit 8 (ucast (bs ! (2 * k))) # replicate (7 - k) 0)"
    using words_step_at [OF _ _ z, of "2 * k" bs] assms by simp
  moreover have "words_step bs (2 * k + 1) (ws @ push_bit 8 (ucast (bs ! (2 * k))) # replicate (7 - k) 0) =
      Inr (ws @ pair_word (bs ! (2 * k)) (bs ! (2 * k + 1)) # replicate (7 - k) 0)"
    using words_step_at [of "2 * k + 1" bs ws _ "push_bit 8 (ucast (bs ! (2 * k)))" "replicate (7 - k) 0", OF _ _ refl]
      assms by (simp add: pair_word_def)
  ultimately show ?thesis by simp
qed

lemma words_loop:
  assumes "length bs = 16"
  shows "forE 16 0 (words_step bs) (replicate 8 0) = Inr (words_of bs)"
proof -
  have "forE (2 * k) 0 (words_step bs) (replicate 8 0) = Inr (words_of (take (2 * k) bs) @ replicate (8 - k) 0)"
    if "k \<le> 8" for k
    using that
  proof (induction k)
    case (Suc k)
    have "take (2 * Suc k) bs = take (2 * k) bs @ [bs ! (2 * k), bs ! (2 * k + 1)]"
      using Suc.prems assms by (simp add: take_Suc_conv_app_nth)
    moreover have "words_of (xs @ [a, b]) = words_of xs @ [pair_word a b]" if "even (length xs)" for xs a b
      using that by (induction xs rule: words_of.induct) auto
    ultimately have w: "words_of (take (2 * Suc k) bs) =
        words_of (take (2 * k) bs) @ [pair_word (bs ! (2 * k)) (bs ! (2 * k + 1))]"
      using Suc.prems assms by simp
    have "forE (2 * Suc k) 0 (words_step bs) (replicate 8 0) =
        bindE (forE (2 * k) 0 (words_step bs) (replicate 8 0)) (\<lambda>s. bindE (words_step bs (2 * k) s) (words_step bs (2 * k + 1)))"
      by (simp only: mult_Suc_right add_2_eq_Suc forE_Suc_right) simp
    also have "\<dots> = bindE (words_step bs (2 * k) (words_of (take (2 * k) bs) @ replicate (8 - k) 0)) (words_step bs (2 * k + 1))"
      using Suc by simp
    also have "\<dots> = Inr (words_of (take (2 * Suc k) bs) @ replicate (8 - Suc k) 0)"
      using words_step_pair [OF assms, of k "words_of (take (2 * k) bs)"] Suc.prems assms
      unfolding w by (simp add: length_words_of)
    finally show ?case .
  qed simp
  from this [of 8] assms show ?thesis by simp
qed

section \<open>The longest run of zeros\<close>

text \<open>A run found among the first \<open>i\<close> words, or none.\<close>

definition run_ok :: "u32 list \<Rightarrow> nat \<Rightarrow> zero_run \<Rightarrow> bool" where
  "run_ok words i r \<longleftrightarrow> fst r = - 1 \<or>
     (0 \<le> fst r \<and> 0 < snd r \<and> fst r + snd r \<le> int i \<and>
      (\<forall>j. fst r \<le> int j \<and> int j < fst r + snd r \<longrightarrow> words ! j = 0))"

lemma better_run_ok: "run_ok words i a \<Longrightarrow> run_ok words i b \<Longrightarrow> run_ok words i (better_run a b)"
  by (simp add: better_run_def)

lemma run_ok_mono: "run_ok words i r \<Longrightarrow> i \<le> k \<Longrightarrow> run_ok words k r"
  by (auto simp: run_ok_def)

lemma best_run_ok:
  assumes len: "length words = 8"
  shows "\<exists>r. best_run words = Inr r \<and> run_ok words 8 r \<and> (fst r \<noteq> - 1 \<longrightarrow> 2 \<le> snd r)"
proof -
  let ?I = "\<lambda>i s. run_ok words i (fst s) \<and> run_ok words i (snd s) \<and>
     (fst (snd s) \<noteq> - 1 \<longrightarrow> fst (snd s) + snd (snd s) = int i)"
  have "\<exists>st. forE 8 0 (run_step words) ((- 1, 0), (- 1, 0)) = Inr st \<and> ?I (0 + 8) st"
  proof (rule forE_rule [where I = ?I])
    show "?I 0 ((- 1, 0), (- 1, 0))" by (simp add: run_ok_def)
  next
    fix i st
    assume i: "i < 0 + 8" and I: "?I i st"
    obtain best cur where st: "st = (best, cur)" by (cases st)
    from I st have ok: "run_ok words i best" "run_ok words i cur" "fst cur \<noteq> - 1 \<longrightarrow> fst cur + snd cur = int i"
      by simp_all
    note ok' = run_ok_mono [OF ok(1), of "Suc i"] run_ok_mono [OF ok(2), of "Suc i"]
    show "\<exists>st'. run_step words i st = Inr st' \<and> ?I (Suc i) st'"
    proof (cases "words ! i = 0")
      case True
      let ?cur = "if fst cur = - 1 then (int i, 1) else (fst cur, snd cur + 1)"
      have "run_ok words (Suc i) ?cur"
      proof (cases "fst cur = - 1")
        case True
        have "int j = int i" if "int i \<le> int j" "int j < int i + 1" for j using that by simp
        with True \<open>words ! i = 0\<close> show ?thesis by (auto simp: run_ok_def)
      next
        case False
        have "words ! j = 0" if "fst cur \<le> int j" "int j < fst cur + (snd cur + 1)" for j
          using that ok(2,3) False True by (cases "j = i") (auto simp: run_ok_def)
        with False ok(2,3) show ?thesis by (auto simp: run_ok_def)
      qed
      with True i len st ok ok' show ?thesis by (simp add: run_step_def arr_simps)
    next
      case False
      have none: "run_ok words (Suc i) (- 1, l)" for l by (simp add: run_ok_def)
      from better_run_ok [OF ok'] have "run_ok words (Suc i) (better_run best cur)" by simp
      with False i len st ok ok' none show ?thesis
        by (cases cur; cases best; cases "better_run best cur") (auto simp: run_step_def arr_simps)
    qed
  qed
  then obtain best cur where st: "forE 8 0 (run_step words) ((- 1, 0), (- 1, 0)) = Inr (best, cur)"
    "run_ok words 8 best" "run_ok words 8 cur" by auto
  have none: "run_ok words 8 (- 1, l)" for l by (simp add: run_ok_def)
  from better_run_ok [OF st(2,3)] st none show ?thesis
    by (auto simp: best_run_def Let_def simp del: forE.simps)
qed

end
