(* ===== verification/Inet6_Correct.thy ===== *)
theory Inet6_Correct
  imports Inet6_Words
begin

text \<open>The loop of \<open>inet_ntop6\<close> that writes: it stays within its 46 bytes, and what it writes has one of three shapes.\<close>

section \<open>Writing\<close>

definition wrote :: "cells \<Rightarrow> byte list \<Rightarrow> bool" where
  "wrote tmp bs \<longleftrightarrow> length tmp = 46 \<and> (\<exists>rest. tmp = map Some bs @ rest)"

lemma wrote_write:
  assumes "wrote tmp bs" "length bs + length xs \<le> 46"
  shows "\<exists>tmp'. cells_write tmp (length bs) xs = Inr tmp' \<and> wrote tmp' (bs @ xs)"
  using assms by (auto simp: wrote_def cells_write_def arr_write_def)

lemma wrote_prefix: "wrote tmp (bs @ xs) \<Longrightarrow> wrote tmp bs"
  by (auto simp: wrote_def)

lemma put_char_wrote:
  "wrote tmp bs \<Longrightarrow> length bs < 46 \<Longrightarrow>
     \<exists>tmp'. put_char c (tmp, length bs) = Inr (tmp', length (bs @ [c])) \<and> wrote tmp' (bs @ [c])"
  using wrote_write [of tmp bs "[c]"] by (auto simp: put_char_def)

lemma maybe_colon:
  assumes "wrote tmp bs" "length bs < 46"
  shows "\<exists>tmp'. (if P then put_char 58 (tmp, length bs) else Inr (tmp, length bs)) =
       Inr (tmp', length (bs @ (if P then [58] else []))) \<and> wrote tmp' (bs @ (if P then [58] else []))"
  using put_char_wrote [OF assms, of 58] assms(1) by (cases P) simp_all

lemma put_text_wrote:
  assumes "wrote tmp bs" "length bs + length s \<le> 45"
  shows "\<exists>tmp'. put_text s (tmp, length bs) = Inr (tmp', length (bs @ s)) \<and> wrote tmp' (bs @ s)"
  using wrote_write [of tmp bs "s @ [0]"] wrote_prefix [of _ "bs @ s" "[0]"] assms
  by (auto simp: put_text_def UV__INET6_ADDRSTRLEN_def)

lemma cells_strlen_text: "0 \<notin> set s \<Longrightarrow> cells_strlen (map Some s @ Some 0 # rest) = Inr (length s)"
  by (induction s) auto

text \<open>What the loop writes from word \<open>i\<close> on.\<close>

function fmt :: "u32 list \<Rightarrow> zero_run \<Rightarrow> byte list \<Rightarrow> nat \<Rightarrow> byte list" where
  "fmt words best quad i =
     (if 8 \<le> i then []
      else if in_run best i then (if int i = fst best then [58] else []) @ fmt words best quad (i + 1)
      else (if i \<noteq> 0 then [58] else []) @
        (if i = 6 \<and> embeds_ipv4 words best then quad
         else hex_digits (unat (words ! i)) @ fmt words best quad (i + 1)))"
  by pat_completeness auto
termination
  by (relation "measure (\<lambda>(_, _, _, i). 8 - i)") auto

declare fmt.simps [simp del]

lemma fmt_length:
  assumes "small words" "length words = 8" "length quad \<le> 15"
  shows "length (fmt words best quad i) \<le> (if i \<le> 6 then 5 * (8 - i) + 6 else 5 * (8 - i))"
proof (induction "8 - i" arbitrary: i)
  case 0
  then show ?case by (simp add: fmt.simps)
next
  case (Suc k)
  then have i: "i < 8" and IH: "length (fmt words best quad (Suc i)) \<le>
      (if Suc i \<le> 6 then 5 * (8 - Suc i) + 6 else 5 * (8 - Suc i))" using Suc(1) [of "Suc i"] by simp_all
  have "length (hex_digits (unat (words ! i))) \<le> 4"
    using assms i by (intro hex_digits_length) (simp add: small_def)
  with i IH assms(3) show ?case by (subst fmt.simps) (auto split: if_splits)
qed

lemma ntop4_wrote:
  assumes "wrote tmp bs" "length src = 16" "length bs \<le> 30" "q = dotted_quad (drop 12 src)"
  shows "\<exists>dst. inet_ntop4 (drop 12 src) (drop (length bs) tmp) (UV__INET6_ADDRSTRLEN - length bs) = Inr (0, dst) \<and>
     cells_strlen dst = Inr (length q) \<and> wrote (take (length bs) tmp @ dst) (bs @ q)"
proof -
  have t: "take 4 (drop 12 src) = drop 12 src" using assms(2) by simp
  let ?dst = "map Some (q @ [0]) @ drop (Suc (length q)) (drop (length bs) tmp)"
  have q: "0 \<notin> set q" "length q \<le> 15" unfolding assms(4) by (rule dotted_quad_text)+
  have "inet_ntop4 (drop 12 src) (drop (length bs) tmp) (UV__INET6_ADDRSTRLEN - length bs) = Inr (0, ?dst)"
    using inet_ntop4_text [of "drop 12 src" "UV__INET6_ADDRSTRLEN - length bs" "drop (length bs) tmp"] assms
    by (simp add: t wrote_def UV__INET6_ADDRSTRLEN_def)
  moreover have "cells_strlen ?dst = Inr (length q)" using cells_strlen_text [OF q(1)] by simp
  moreover have "wrote (take (length bs) tmp @ ?dst) (bs @ q)"
    using assms(1,3) q(2) by (auto simp: wrote_def)
  ultimately show ?thesis by blast
qed

lemma ntop6_loop_wrote:
  assumes "length src = 16" "length words = 8" "small words" "q = dotted_quad (drop 12 src)"
    and "wrote tmp bs" "length bs + length (fmt words best q i) \<le> 45" "length bs \<le> 5 * i - 1"
  shows "\<exists>tmp'. ntop6_loop src words best i (tmp, length bs) = Inr (Inr (tmp', length (bs @ fmt words best q i))) \<and>
     wrote tmp' (bs @ fmt words best q i)"
  using assms(5-)
proof (induction "8 - i" arbitrary: i tmp bs)
  case 0
  then show ?case by (simp add: fmt.simps [of _ _ _ i] ntop6_loop.simps [of _ _ _ i])
next
  case (Suc k)
  then have i: "i < 8" and k: "k = 8 - Suc i" by simp_all
  note IH = Suc.hyps(1) [OF k]
  have lb: "length bs < 46" using Suc.prems(3) i by simp
  show ?case
  proof (cases "in_run best i")
    case True
    let ?c = "if int i = fst best then [58] else []"
    have f: "fmt words best q i = ?c @ fmt words best q (Suc i)" using i True by (simp add: fmt.simps [of _ _ _ i])
    obtain tmp' where "(if int i = fst best then put_char 58 (tmp, length bs) else Inr (tmp, length bs)) =
        Inr (tmp', length (bs @ ?c))" "wrote tmp' (bs @ ?c)"
      using maybe_colon [OF Suc.prems(1) lb, of "int i = fst best"] by blast
    moreover have "length (bs @ ?c) \<le> 5 * Suc i - 1" using Suc.prems(3) by auto
    with calculation(2) IH [of tmp' "bs @ ?c"] Suc.prems(2) f obtain tmp2 where
      "ntop6_loop src words best (Suc i) (tmp', length (bs @ ?c)) =
         Inr (Inr (tmp2, length ((bs @ ?c) @ fmt words best q (Suc i))))"
      "wrote tmp2 ((bs @ ?c) @ fmt words best q (Suc i))" by auto
    ultimately show ?thesis
      using i True f by (cases "int i = fst best") (simp_all add: ntop6_loop.simps [of _ _ _ i])
  next
    case False
    let ?c = "if i \<noteq> 0 then [58] else [] :: byte list"
    let ?out = "if i \<noteq> 0 then put_char 58 (tmp, length bs) else Inr (tmp, length bs)"
    have l: "length bs + length ?c \<le> 30 \<or> i > 6" "length bs + length ?c \<le> 36" using Suc.prems(3) i by auto
    obtain tmp1 where o: "?out = Inr (tmp1, length (bs @ ?c))" "wrote tmp1 (bs @ ?c)"
      using maybe_colon [OF Suc.prems(1) lb, of "i \<noteq> 0"] by blast
    show ?thesis
    proof (cases "i = 6 \<and> embeds_ipv4 words best")
      case True
      obtain dst where
        d: "inet_ntop4 (drop 12 src) (drop (length (bs @ ?c)) tmp1) (UV__INET6_ADDRSTRLEN - length (bs @ ?c)) = Inr (0, dst)"
          "cells_strlen dst = Inr (length q)" "wrote (take (length (bs @ ?c)) tmp1 @ dst) ((bs @ ?c) @ q)"
        using ntop4_wrote [OF o(2) assms(1) _ assms(4)] l True by auto
      have f: "fmt words best q i = ?c @ q" using True False by (simp add: fmt.simps [of _ _ _ 6])
      with d o True False show ?thesis by (simp add: ntop6_loop.simps [of _ _ _ 6])
    next
      case no: False
      let ?h = "hex_digits (unat (words ! i))"
      have f: "fmt words best q i = ?c @ ?h @ fmt words best q (Suc i)"
        using i False by (simp add: no fmt.simps [of _ _ _ i])
      have h: "length ?h \<le> 4" using assms(2,3) i by (intro hex_digits_length) (simp add: small_def)
      have "length (bs @ ?c) + length ?h \<le> 45" using h l(2) by simp
      with put_text_wrote [OF o(2), of ?h] obtain tmp2 where t: "put_text ?h (tmp1, length (bs @ ?c)) = Inr (tmp2, length ((bs @ ?c) @ ?h))"
          "wrote tmp2 ((bs @ ?c) @ ?h)"
        by blast
      have "length ((bs @ ?c) @ ?h) \<le> 5 * Suc i - 1" using Suc.prems(3) h by auto
      then obtain tmp3 where
        "ntop6_loop src words best (Suc i) (tmp2, length ((bs @ ?c) @ ?h)) =
           Inr (Inr (tmp3, length (((bs @ ?c) @ ?h) @ fmt words best q (Suc i))))"
        "wrote tmp3 (((bs @ ?c) @ ?h) @ fmt words best q (Suc i))"
        using IH [OF t(2)] Suc.prems(2) f by auto
      with o t f i False show ?thesis by (simp add: no ntop6_loop.simps [of _ _ _ i])
    qed
  qed
qed

section \<open>The text\<close>

definition colons :: "u32 list \<Rightarrow> byte list" where
  "colons ws = concat (map (\<lambda>w. 58 # hex_digits (unat w)) ws)"

lemma colons_simps [simp]:
  "colons [] = []" "colons (w # ws) = 58 # hex_digits (unat w) @ colons ws"
  by (simp_all add: colons_def)

lemma groups_colons: "58 # groups ws = colons ws @ [58]"
  by (induction ws) auto

lemma join_colons: "ws \<noteq> [] \<Longrightarrow> 58 # join ws = colons ws"
proof (induction ws rule: rev_induct)
  case (snoc w ws)
  then show ?case using groups_colons [of ws] by (simp add: join_def colons_def)
qed simp

lemma join_Cons: "join (w # ws) = hex_digits (unat w) @ colons ws"
  using join_colons [of "w # ws"] by simp

lemma groups_Cons: "groups (w # ws) = hex_digits (unat w) @ colons ws @ [58]"
  using groups_colons [of "w # ws"] by simp

lemma fmt_plain:
  assumes "\<And>j. i \<le> j \<Longrightarrow> \<not> in_run best j" "0 < i" "6 < i \<or> \<not> embeds_ipv4 words best" "length words = 8"
  shows "fmt words best q i = colons (drop i words)"
  using assms(1-3)
proof (induction "8 - i" arbitrary: i)
  case 0
  with assms(4) show ?case by (simp add: fmt.simps [of _ _ _ i])
next
  case (Suc k)
  then have i: "i < 8" and k: "k = 8 - Suc i" by simp_all
  have "fmt words best q (Suc i) = colons (drop (Suc i) words)"
  proof (rule Suc.hyps(1) [OF k])
    show "\<not> in_run best j" if "Suc i \<le> j" for j using that by (intro Suc.prems(1)) simp
    show "6 < Suc i \<or> \<not> embeds_ipv4 words best" using Suc.prems(3) by (elim disjE) simp_all
  qed simp
  moreover have "drop i words = words ! i # drop (Suc i) words" using i assms(4) by (simp add: Cons_nth_drop_Suc)
  ultimately show ?case using Suc.prems(1) [of i, OF order_refl] Suc.prems(2,3) i
    by (elim disjE) (simp_all add: fmt.simps [of _ _ _ i])
qed

lemma fmt_skip:
  assumes "b + l \<le> 8" "b < i" "i \<le> b + l"
  shows "fmt words (int b, int l) q i = fmt words (int b, int l) q (b + l)"
  using assms(2,3)
proof (induction "b + l - i" arbitrary: i)
  case (Suc k)
  then have "fmt words (int b, int l) q (Suc i) = fmt words (int b, int l) q (b + l)" and "i < b + l" by simp_all
  with Suc.prems(1) assms(1) show ?case by (simp add: fmt.simps [of _ _ _ i] in_run_def)
qed simp

lemma fmt_at_run: "0 < l \<Longrightarrow> b + l \<le> 8 \<Longrightarrow> fmt words (int b, int l) q b = 58 # fmt words (int b, int l) q (b + l)"
  using fmt_skip [of b l "Suc b" words q] by (simp add: fmt.simps [of _ _ _ b] in_run_def)

lemma fmt_left:
  assumes "0 < l" "b + l \<le> 8" "length words = 8" "0 < i" "i \<le> b"
  shows "fmt words (int b, int l) q i = colons (drop i (take b words)) @ 58 # fmt words (int b, int l) q (b + l)"
  using assms(4,5)
proof (induction "b - i" arbitrary: i)
  case 0
  then show ?case using fmt_at_run assms by simp
next
  case (Suc k)
  then have i: "i < b" and k: "k = b - Suc i" by simp_all
  have "fmt words (int b, int l) q (Suc i) =
      colons (drop (Suc i) (take b words)) @ 58 # fmt words (int b, int l) q (b + l)"
    by (rule Suc.hyps(1) [OF k]) (use i in simp_all)
  moreover have "drop i (take b words) = words ! i # drop (Suc i) (take b words)"
    using i assms by (simp add: Cons_nth_drop_Suc [symmetric])
  moreover have "\<not> embeds_ipv4 words (int b, int l)" "\<not> in_run (int b, int l) i" using i
    by (simp_all add: embeds_ipv4_def in_run_def)
  ultimately show ?case using Suc.prems(1) i assms(2) by (simp add: fmt.simps [of _ _ _ i])
qed

text \<open>The written text: words, or words, a run of zeros and words or an IPv4 address.\<close>

definition tail_ok :: "u32 list \<Rightarrow> byte list \<Rightarrow> nat \<Rightarrow> byte list \<Rightarrow> bool" where
  "tail_ok words q m t \<longleftrightarrow> t = join (drop m words) \<or> m \<le> 6 \<and> t = groups (drop m (take 6 words)) @ q"

lemma fmt_tail:
  assumes "2 \<le> l" "b + l \<le> 8" "length words = 8"
  shows "\<exists>t. fmt words (int b, int l) q (b + l) @ (if b + l = 8 then [58] else []) = 58 # t \<and>
     tail_ok words q (b + l) t"
proof (cases "b + l \<le> 6 \<and> embeds_ipv4 words (int b, int l)")
  case True
  then have b: "b = 0" and l: "l = 6 \<or> l = 5" by (auto simp: embeds_ipv4_def)
  have out: "\<not> in_run (int b, int l) 6" "\<not> in_run (int b, int l) l" using b l by (auto simp: in_run_def)
  have six: "fmt words (int b, int l) q 6 = 58 # q" using out True by (simp add: fmt.simps [of _ _ _ 6])
  from l show ?thesis
  proof
    assume "l = 6"
    with six b assms(3) show ?thesis by (simp add: tail_ok_def)
  next
    assume l: "l = 5"
    have "fmt words (int b, int l) q 5 = 58 # hex_digits (unat (words ! 5)) @ 58 # q"
      using out six l by (simp add: fmt.simps [of _ _ _ 5])
    moreover have "drop 5 (take 6 words) = [words ! 5]" using assms(3) by (simp add: drop_take take_Suc_conv_app_nth hd_drop_conv_nth take_Suc)
    ultimately show ?thesis using b l by (simp add: tail_ok_def)
  qed
next
  case False
  have "fmt words (int b, int l) q (b + l) = colons (drop (b + l) words)"
    by (rule fmt_plain) (use assms False in \<open>auto simp: in_run_def\<close>)
  with join_colons [of "drop (b + l) words"] assms show ?thesis
    by (cases "b + l = 8")
      (simp_all add: tail_ok_def join_def [of "[]"], intro exI [of _ "join (drop (b + l) words)"], simp)
qed

lemma text_shape:
  assumes "run_ok words 8 r" "fst r \<noteq> - 1 \<longrightarrow> 2 \<le> snd r" "length words = 8"
    and s_def: "s = fmt words r q 0 @ (if fst r \<noteq> - 1 \<and> fst r + snd r = 8 then [58] else [])"
  shows "s = join words \<or>
     (\<exists>b l t. 2 \<le> l \<and> b + l \<le> 8 \<and> words = take b words @ replicate l 0 @ drop (b + l) words \<and>
        s = (if b = 0 then [58] else groups (take b words)) @ 58 # t \<and> tail_ok words q (b + l) t)"
proof (cases "fst r = - 1")
  case True
  then have out: "\<not> in_run r j" "\<not> embeds_ipv4 words r" for j by (simp_all add: in_run_def embeds_ipv4_def)
  obtain w ws where w: "words = w # ws" using assms(3) by (cases words) auto
  have "fmt words r q 1 = colons ws" using fmt_plain [of 1 r words q] out assms(3) w by simp
  then have "fmt words r q 0 = join words" using out w by (simp add: fmt.simps [of _ _ _ 0] join_Cons)
  with True show ?thesis by (simp add: s_def)
next
  case False
  with assms(1,2) have f: "0 \<le> fst r" "2 \<le> snd r" "fst r + snd r \<le> 8" by (auto simp: run_ok_def)
  obtain b l where r: "r = (int b, int l)" using f by (cases r) (metis fst_conv snd_conv nonneg_int_cases order_trans zero_le_numeral)
  with f have bl: "2 \<le> l" "b + l \<le> 8" by simp_all
  obtain t where t: "fmt words (int b, int l) q (b + l) @ (if b + l = 8 then [58] else []) = 58 # t" "tail_ok words q (b + l) t"
    using fmt_tail [OF bl assms(3)] by blast
  have eq8: "int b + int l = 8 \<longleftrightarrow> b + l = 8" by linarith
  have "s = (if b = 0 then [58] else groups (take b words)) @ 58 # t"
  proof (cases "b = 0")
    case True
    then show ?thesis using fmt_at_run [of l b words q] bl t by (simp add: s_def r)
  next
    case False
    then obtain w ws where w: "take b words = w # ws" using assms(3) by (cases "take b words") auto
    have "\<not> embeds_ipv4 words r" "\<not> in_run r 0" using False r by (simp_all add: embeds_ipv4_def in_run_def)
    moreover have "words ! 0 = w" using w False by (metis nth_Cons_0 nth_take zero_less_iff_neq_zero)
    moreover have "fmt words r q 1 = colons ws @ 58 # fmt words r q (b + l)"
      using fmt_left [of l b words 1 q] bl False assms(3) w r by simp
    ultimately show ?thesis using False w t eq8
      by (cases "b + l = 8") (simp_all add: s_def r fmt.simps [of _ _ _ 0] groups_colons)
  qed
  moreover have "words = take b words @ replicate l 0 @ drop (b + l) words"
  proof (rule nth_equalityI)
    show "length words = length (take b words @ replicate l 0 @ drop (b + l) words)" using bl assms(3) by simp
    fix i assume "i < length words"
    moreover have "words ! i = 0" if "b \<le> i" "i < b + l" using assms(1) that r by (auto simp: run_ok_def)
    ultimately show "words ! i = (take b words @ replicate l 0 @ drop (b + l) words) ! i"
      using bl assms(3) by (auto simp: nth_append)
  qed
  ultimately show ?thesis using bl t(2) by blast
qed

end
