(* ===== verification/Inet6_Text.thy ===== *)
theory Inet6_Text
  imports Inet6_Correct
begin

text \<open>What \<open>inet_ntop6\<close> writes fits its array, and \<open>inet_pton6\<close> reads the same sixteen bytes back.\<close>

section \<open>Reading it back\<close>

lemma hex_digits_chars: "c \<in> set (hex_digits n) \<Longrightarrow> xdigit c \<noteq> None"
proof (induction n rule: hex_digits.induct)
  case (1 n)
  then show ?case using xdigit_hex_digit [of "n mod 16"]
    by (subst (asm) hex_digits.simps) (auto split: if_splits simp: xdigit_hex_digit)
qed

text \<open>No terminator and no percent sign.\<close>

definition plain :: "byte list \<Rightarrow> bool" where
  "plain s \<longleftrightarrow> 0 \<notin> set s \<and> 37 \<notin> set s"

lemma plain_simps [simp]: "plain []" "plain (s @ t) \<longleftrightarrow> plain s \<and> plain t"
    "plain (c # s) \<longleftrightarrow> c \<noteq> 0 \<and> c \<noteq> 37 \<and> plain s"
  by (auto simp: plain_def)

lemma hex_digits_no: "plain (hex_digits n)" "58 \<notin> set (hex_digits n)"
  using hex_digits_chars [of 0 n] hex_digits_chars [of 37 n] hex_digits_chars [of 58 n]
  by (auto simp: xdigit_def plain_def)

lemma dotted_quad_plain: "plain (dotted_quad bs)"
proof -
  have "plain (dec_digits n)" for n
    using dec_digits_xdigit [of 0 n] dec_digits_xdigit [of 37 n] by (auto simp: xdigit_def plain_def)
  then show ?thesis by (simp add: dotted_quad_def)
qed

lemma hd_hex_digits: "hd (hex_digits n @ cs) \<noteq> 58"
  using hex_digits_no(2) [of n] by (metis hd_append2 hd_in_set hex_digits_nonempty(1))

lemma groups_text: "plain (groups ws)" "small ws \<Longrightarrow> length (groups ws) \<le> 5 * length ws"
proof -
  show "plain (groups ws)" by (induction ws) (simp_all add: hex_digits_no)
  have h: "unat w < 65536 \<Longrightarrow> length (hex_digits (unat w)) \<le> 4" for w :: u32 by (rule hex_digits_length)
  show "small ws \<Longrightarrow> length (groups ws) \<le> 5 * length ws"
    by (induction ws) (use h in \<open>fastforce simp: small_def\<close>)+
qed

lemma join_text: "plain (join ws)" "small ws \<Longrightarrow> length (join ws) \<le> 5 * length ws"
proof -
  show "plain (join ws)" by (simp add: join_def groups_text hex_digits_no)
  have "length (join ws) \<le> length (groups ws)"
    by (cases ws rule: rev_cases) (simp_all add: join_def)
  then show "small ws \<Longrightarrow> length (join ws) \<le> 5 * length ws" using groups_text(2) [of ws] by simp
qed

lemma small_parts: "small ws \<Longrightarrow> small (take n ws)" "small ws \<Longrightarrow> small (drop n ws)"
  by (auto simp: small_def dest: in_set_takeD in_set_dropD)

lemma inet_pton6_run:
  assumes "plain s" "s = (if P then 58 # src else src)" "hd src = 58 \<longleftrightarrow> P" "src \<noteq> []"
  shows "inet_pton6 s = p6_run src src (p6 [] None)"
  using assms by (auto simp: inet_pton6_def p6_run_def c_str_self Let_def p6_def plain_def)

lemma p6_run_colon:
  assumes "small us" "length acc + 2 * length us \<le> 16"
  shows "p6_run (groups us @ 58 # t) cur (p6 acc None) =
     p6_run t t (p6 (acc @ all_bytes us) (Some (length acc + 2 * length us)))"
proof -
  have "xdigit 58 = None" by (simp add: xdigit_def)
  moreover have u: "(p6 a None)\<lparr>p6_colonp := cp\<rparr> = p6 a cp" for a cp by (simp add: p6_def)
  ultimately show ?thesis
    using pton6_groups [of "58 # t" us acc cur None] assms by (simp add: p6_run_def u)
qed

lemma p6_run_tail:
  assumes "tail_ok words (dotted_quad quad) m t" "small words" "length words = 8" "length acc + 2 * (8 - m) \<le> 16"
    and "length quad = 4" "all_bytes (drop 6 words) = quad"
  shows "p6_run t t (p6 acc cp) = pton6_end (p6 (acc @ all_bytes (drop m words)) cp)"
proof -
  consider "t = join (drop m words)" | "m \<le> 6" "t = groups (drop m (take 6 words)) @ dotted_quad quad"
    using assms(1) by (auto simp: tail_ok_def)
  then show ?thesis
  proof cases
    case 1
    with assms show ?thesis by (simp add: p6_run_words small_parts)
  next
    case 2
    let ?us = "drop m (take 6 words)"
    have "drop m words = ?us @ drop 6 words"
      using 2(1) assms(3) drop_append [of m "take 6 words" "drop 6 words"] by simp
    then have "all_bytes (drop m words) = all_bytes ?us @ quad" using assms(6) by simp
    moreover have "p6_run (groups ?us @ dotted_quad quad) t (p6 acc cp) = pton6_end (p6 (acc @ all_bytes ?us @ quad) cp)"
      by (rule p6_run_ipv4) (use assms 2 in \<open>auto simp: small_parts\<close>)
    ultimately show ?thesis using 2(2) by simp
  qed
qed

text \<open>The text of sixteen bytes: it fits its array and is read back.\<close>

definition ntop6_text :: "byte list \<Rightarrow> zero_run \<Rightarrow> byte list" where
  "ntop6_text bs r = fmt (words_of bs) r (dotted_quad (drop 12 bs)) 0 @
     (if fst r \<noteq> - 1 \<and> fst r + snd r = 8 then [58] else [])"

lemma tail_ok_text:
  assumes "tail_ok words (dotted_quad quad) m t" "small words" "length words = 8" "2 \<le> m"
  shows "plain t \<and> length t \<le> 5 * (8 - m) + 5"
  using assms dotted_quad_text(2) [of quad] dotted_quad_plain [of quad] join_text [of "drop m words"] groups_text [of "drop m (take 6 words)"]
  by (auto simp: tail_ok_def small_parts)

lemma ntop6_text_read:
  assumes "length bs = 16" "run_ok (words_of bs) 8 r" "fst r \<noteq> - 1 \<longrightarrow> 2 \<le> snd r"
  shows "plain (ntop6_text bs r) \<and> length (ntop6_text bs r) \<le> 45 \<and> inet_pton6 (ntop6_text bs r) = Inr (Inr bs)"
proof -
  let ?ws = "words_of bs" and ?s = "ntop6_text bs r" and ?quad = "drop 12 bs"
  have len: "length ?ws = 8" and sm: "small ?ws" and ab: "all_bytes ?ws = bs"
    using assms(1) by (simp_all add: length_words_of words_of_small words_of_bytes)
  have "all_bytes (take 6 ?ws) @ all_bytes (drop 6 ?ws) = bs" using ab by (metis all_bytes_simps(3) append_take_drop_id)
  moreover have "length (all_bytes (take 6 ?ws)) = 12" using len by simp
  ultimately have q: "all_bytes (drop 6 ?ws) = ?quad" by (metis append_eq_conv_conj)
  from text_shape [OF assms(2,3) len ntop6_text_def] show ?thesis
  proof (elim disjE exE conjE)
    assume s: "?s = join ?ws"
    obtain w ws where w: "?ws = w # ws" using len by (cases ?ws) auto
    have "inet_pton6 ?s = p6_run ?s ?s (p6 [] None)"
      by (rule inet_pton6_run [where P = False])
        (use join_text(1) [of ?ws] hd_hex_digits [of "unat w" "colons ws"] in \<open>simp_all add: s w join_Cons\<close>)
    also have "\<dots> = Inr (Inr bs)"
      using p6_run_words [OF sm, of "[]" ?s None] pton6_end_full [of bs] len ab assms(1) s by simp
    finally show ?thesis using s join_text [of ?ws] sm len by simp
  next
    fix b l t
    assume l: "2 \<le> l" "b + l \<le> 8" and zeros: "?ws = take b ?ws @ replicate l 0 @ drop (b + l) ?ws"
      and s: "?s = (if b = 0 then [58] else groups (take b ?ws)) @ 58 # t"
      and t: "tail_ok ?ws (dotted_quad ?quad) (b + l) t"
    let ?A = "all_bytes (take b ?ws)" and ?R = "all_bytes (drop (b + l) ?ws)" and ?src = "groups (take b ?ws) @ 58 # t"
    have tt: "plain t" "length t \<le> 5 * (8 - (b + l)) + 5" using tail_ok_text [OF t sm len] l by simp_all
    have "hd ?src = 58 \<longleftrightarrow> b = 0"
    proof (cases "b = 0")
      case False
      then obtain w ws where "take b ?ws = w # ws" using len by (cases "take b ?ws") auto
      with False show ?thesis using hd_hex_digits [of "unat w" "58 # groups ws @ 58 # t"] by simp
    qed simp
    then have "inet_pton6 ?s = p6_run ?src ?src (p6 [] None)"
      by (intro inet_pton6_run [where P = "b = 0"]) (use tt groups_text(1) s in auto)
    also have "\<dots> = p6_run t t (p6 ?A (Some (2 * b)))"
      using p6_run_colon [of "take b ?ws" "[]" t ?src] sm l len by (simp add: small_parts)
    also have "\<dots> = pton6_end (p6 (?A @ ?R) (Some (length ?A)))"
      using p6_run_tail [OF t sm len, of ?A "Some (2 * b)"] q l len assms(1) by simp
    also have "\<dots> = Inr (Inr (?A @ replicate (16 - length ?A - length ?R) 0 @ ?R))"
      by (rule pton6_end_run) (use l len in simp)
    also have "?A @ replicate (16 - length ?A - length ?R) 0 @ ?R = bs"
    proof -
      have "16 - length ?A - length ?R = 2 * l" using l len by simp
      moreover have "all_bytes (take b ?ws @ replicate l 0 @ drop (b + l) ?ws) = bs" using zeros ab by simp
      ultimately show ?thesis by simp
    qed
    finally show ?thesis using s tt groups_text [of "take b ?ws"] sm len l by (auto simp: small_parts)
  qed
qed

lemma inet_ntop6_text:
  assumes "length bs = 16" "46 \<le> n" "n \<le> length d"
  shows "\<exists>s. inet_ntop6 bs d n = Inr (0, map Some (s @ [0]) @ drop (Suc (length s)) d) \<and>
     plain s \<and> length s \<le> 45 \<and> inet_pton6 s = Inr (Inr bs)"
proof -
  let ?ws = "words_of bs"
  have len: "length ?ws = 8" and sm: "small ?ws" using assms(1) by (simp_all add: length_words_of words_of_small)
  obtain r where r: "best_run ?ws = Inr r" "run_ok ?ws 8 r" "fst r \<noteq> - 1 \<longrightarrow> 2 \<le> snd r"
    using best_run_ok [OF len] by blast
  let ?s = "ntop6_text bs r" and ?f = "fmt ?ws r (dotted_quad (drop 12 bs)) 0"
  have s: "plain ?s" "length ?s \<le> 45" "inet_pton6 ?s = Inr (Inr bs)" using ntop6_text_read [OF assms(1) r(2,3)] by auto
  have f: "length ?f + (if fst r \<noteq> - 1 \<and> fst r + snd r = 8 then 1 else 0) \<le> 45"
    using s(2) by (cases "fst r \<noteq> - 1 \<and> fst r + snd r = 8") (auto simp: ntop6_text_def)
  have "wrote (malloc_cells UV__INET6_ADDRSTRLEN) []"
    by (simp add: wrote_def malloc_cells_def UV__INET6_ADDRSTRLEN_def)
  with f obtain tmp where loop: "ntop6_loop bs ?ws r 0 (malloc_cells UV__INET6_ADDRSTRLEN, 0) = Inr (Inr (tmp, length ?f))"
      and tmp: "wrote tmp ?f"
    using ntop6_loop_wrote [OF assms(1) len sm refl, of "malloc_cells UV__INET6_ADDRSTRLEN" "[]" r 0] by auto
  obtain tmp1 where t1: "(if fst r \<noteq> - 1 \<and> fst r + snd r = 8 then put_char 58 (tmp, length ?f) else Inr (tmp, length ?f)) =
      Inr (tmp1, length ?s)" "wrote tmp1 ?s"
    using maybe_colon [OF tmp, of "fst r \<noteq> - 1 \<and> fst r + snd r = 8"] f unfolding ntop6_text_def by auto
  obtain tmp2 where t2: "put_char 0 (tmp1, length ?s) = Inr (tmp2, length (?s @ [0]))" "wrote tmp2 (?s @ [0])"
    using put_char_wrote [OF t1(2)] s(2) by auto
  have "cells_read tmp2 0 (length ?s + 1) = Inr (?s @ [0])"
    using t2(2) by (auto simp: wrote_def cells_read_def arr_read_def simp del: map_append)
  moreover have "inet_ntop6 bs d n = bindE (cells_read tmp2 0 (length ?s + 1)) (\<lambda>s.
      bindE (uv__strscpy d s n) (\<lambda>(_, dst). Inr (0, dst)))"
    unfolding inet_ntop6_def words_loop [OF assms(1)] bindE.simps r(1) loop sum.case t1(1)
    using t2(1) s(2) assms(2) by simp
  ultimately have "inet_ntop6 bs d n = Inr (0, map Some (?s @ [0]) @ drop (Suc (length ?s)) d)"
    using uv__strscpy_text [of ?s n d] s(1,2) assms(2,3) by (simp add: plain_def)
  with s show ?thesis by blast
qed

section \<open>Any text\<close>

text \<open>On any text the reader stays within its array and returns.\<close>

definition p6_ok :: "pton6_state \<Rightarrow> bool" where
  "p6_ok st \<longleftrightarrow> (\<exists>acc cp w s. st = (p6 acc cp)\<lparr>p6_val := w, p6_seen := s\<rparr> \<and> length acc \<le> 16 \<and>
     (\<forall>c. cp = Some c \<longrightarrow> c \<le> length acc))"

lemma p6_okI:
  "length acc \<le> 16 \<Longrightarrow> (\<And>c. cp = Some c \<Longrightarrow> c \<le> length acc) \<Longrightarrow> p6_ok ((p6 acc cp)\<lparr>p6_val := w, p6_seen := s\<rparr>)"
  by (auto simp: p6_ok_def)

lemma p6_ok_p6: "length acc \<le> 16 \<Longrightarrow> (\<And>c. cp = Some c \<Longrightarrow> c \<le> length acc) \<Longrightarrow> p6_ok (p6 acc cp)"
  using p6_okI [of acc cp 0 0] by (simp add: p6_def)

lemma p6_okE:
  assumes "p6_ok st"
  obtains acc cp w s where "st = (p6 acc cp)\<lparr>p6_val := w, p6_seen := s\<rparr>" "length acc \<le> 16"
    "\<And>c. cp = Some c \<Longrightarrow> c \<le> length acc"
  using assms by (auto simp: p6_ok_def)

lemma p6_ok_digit: "p6_ok st \<Longrightarrow> p6_ok (st\<lparr>p6_val := w, p6_seen := s\<rparr>)"
proof (elim p6_okE)
  fix acc cp w' s'
  assume "st = (p6 acc cp)\<lparr>p6_val := w', p6_seen := s'\<rparr>" "length acc \<le> 16" "\<And>c. cp = Some c \<Longrightarrow> c \<le> length acc"
  with p6_okI [where acc = acc and cp = cp and w = w and s = s] show ?thesis by simp
qed

lemma p6_ok_digit': "p6_ok st \<Longrightarrow> p6_ok (st\<lparr>p6_seen := s, p6_val := w\<rparr>)"
  using p6_ok_digit [where st = st and w = w and s = s] by (cases st) simp

lemma put_group_safe:
  assumes "p6_ok st"
  shows "\<exists>r. put_group st = Inr r \<and> (\<forall>st'. r = Inr st' \<longrightarrow> p6_ok st')"
proof -
  obtain acc cp w s where st: "st = (p6 acc cp)\<lparr>p6_val := w, p6_seen := s\<rparr>"
      and ok: "length acc \<le> 16" "\<And>c. cp = Some c \<Longrightarrow> c \<le> length acc"
    using assms by (auto simp: p6_ok_def)
  show ?thesis
  proof (cases "length acc + 2 \<le> 16")
    case True
    have l: "length (group_bytes w) = 2" by (simp add: group_bytes_def)
    have "p6_ok ((p6 (acc @ group_bytes w) cp)\<lparr>p6_val := w, p6_seen := s\<rparr>)"
      by (rule p6_okI) (use True l in simp, use ok(2) l in fastforce)
    with put_group_p6 [OF True] st show ?thesis by simp
  next
    case False
    then show ?thesis by (simp add: put_group_def st)
  qed
qed

lemma pton6_ipv4_safe:
  assumes "p6_ok st" "p6_tp st + 4 \<le> 16"
  shows "\<exists>r. bindE (inet_pton4 cur) (\<lambda>r.
       case r of
         Inl _ \<Rightarrow> Inr (Inl UV_EINVAL)
       | Inr bs \<Rightarrow> bindE (cells_write (p6_tmp st) (p6_tp st) bs) (\<lambda>tmp.
           Inr (Inr (st\<lparr>p6_tmp := tmp, p6_tp := p6_tp st + 4, p6_seen := 0\<rparr>)))) = Inr r \<and>
     (\<forall>st'. r = Inr st' \<longrightarrow> p6_ok st')"
proof -
  obtain acc cp w s where st: "st = (p6 acc cp)\<lparr>p6_val := w, p6_seen := s\<rparr>"
      and ok: "length acc \<le> 16" "\<And>c. cp = Some c \<Longrightarrow> c \<le> length acc"
    using assms(1) by (rule p6_okE) blast
  obtain r where r: "inet_pton4 cur = Inr r" using inet_pton4_total by blast
  show ?thesis
  proof (cases r)
    case (Inr bs)
    then have l: "length bs = 4" using r inet_pton4_correct by auto
    have tp: "length acc + 4 \<le> 16" using assms(2) st by simp
    have "cells_write (p6_tmp st) (p6_tp st) bs = Inr (p6_tmp (p6 (acc @ bs) cp))"
      using write_over_zeros [of bs "16 - length acc" "length acc" acc] l tp st by simp
    moreover have "st\<lparr>p6_tmp := p6_tmp (p6 (acc @ bs) cp), p6_tp := p6_tp st + 4, p6_seen := 0\<rparr> =
        (p6 (acc @ bs) cp)\<lparr>p6_val := w, p6_seen := 0\<rparr>"
      using l st by (simp add: p6_def)
    moreover have "p6_ok ((p6 (acc @ bs) cp)\<lparr>p6_val := w, p6_seen := 0\<rparr>)"
      by (rule p6_okI) (use tp l in simp, use ok(2) in fastforce)
    ultimately show ?thesis using r Inr by simp
  qed (simp add: r)
qed

lemma pton6_loop_safe:
  "p6_ok st \<Longrightarrow> \<exists>r. pton6_loop src cur st = Inr r \<and> (\<forall>st'. r = Inr st' \<longrightarrow> p6_ok st')"
proof (induction src arbitrary: cur st)
  case (Cons ch src)
  consider d where "xdigit ch = Some d" | "xdigit ch = None" "ch = 58" "p6_seen st = 0"
    | "xdigit ch = None" "ch = 58" "p6_seen st \<noteq> 0" | "xdigit ch = None" "ch \<noteq> 58" by fastforce
  then show ?case
  proof cases
    case 1
    with Cons.IH [OF p6_ok_digit [OF Cons.prems]] show ?thesis by (simp add: Let_def)
  next
    case 2
    show ?thesis
    proof (cases "p6_colonp st")
      case None
      obtain acc cp w s where st: "st = (p6 acc cp)\<lparr>p6_val := w, p6_seen := s\<rparr>" "length acc \<le> 16"
        using Cons.prems by (rule p6_okE) blast
      have "st\<lparr>p6_colonp := Some (p6_tp st)\<rparr> = (p6 acc (Some (length acc)))\<lparr>p6_val := w, p6_seen := s\<rparr>"
        using st by (simp add: p6_def)
      moreover have "p6_ok ((p6 acc (Some (length acc)))\<lparr>p6_val := w, p6_seen := s\<rparr>)"
        by (rule p6_okI) (use st in simp_all)
      ultimately have "p6_ok (st\<lparr>p6_colonp := Some (p6_tp st)\<rparr>)" by simp
      from Cons.IH [OF this, of src] 2 None show ?thesis by simp
    qed (use 2 in simp)
  next
    case 3
    obtain r where r: "put_group st = Inr r" "\<And>st'. r = Inr st' \<Longrightarrow> p6_ok st'" using put_group_safe [OF Cons.prems] by blast
    show ?thesis
    proof (cases "src = [] \<or> (\<exists>e. r = Inl e)")
      case False
      then obtain st' where st': "r = Inr st'" by (cases r) auto
      with Cons.IH [OF p6_ok_digit' [OF r(2) [OF st'], of 0 0], of src] 3 r(1) st' False show ?thesis by simp
    qed (use 3 r(1) in auto)
  next
    case 4
    with pton6_ipv4_safe [OF Cons.prems, of cur] show ?thesis
      by (cases "ch = 46 \<and> p6_tp st + 4 \<le> 16") simp_all
  qed
qed simp

lemma pton6_end_safe: "p6_ok st \<Longrightarrow> \<exists>r. pton6_end st = Inr r"
proof (elim p6_okE)
  fix acc cp w s
  assume st: "st = (p6 acc cp)\<lparr>p6_val := w, p6_seen := s\<rparr>" and l: "length acc \<le> 16" and c: "\<And>c. cp = Some c \<Longrightarrow> c \<le> length acc"
  have "\<exists>r. pton6_end (p6 acc cp) = Inr r"
  proof (cases cp)
    case None
    then show ?thesis using pton6_end_full [of acc] by (cases "length acc = 16") (simp_all add: pton6_end_def Let_def)
  next
    case (Some k)
    show ?thesis
    proof (cases "length acc = 16")
      case False
      with l Some c [OF Some] pton6_end_run [of "take k acc" "drop k acc"] show ?thesis by simp
    qed (use Some in \<open>simp add: pton6_end_def\<close>)
  qed
  then show ?thesis by (simp add: st pton6_end_same)
qed

lemma inet_pton6_total: "\<exists>r. inet_pton6 src = Inr r"
proof -
  define s where "s = (let s = c_str src in if s \<noteq> [] \<and> hd s = 58 then tl s else s)"
  obtain r where r: "pton6_loop s s (p6 [] None) = Inr r" "\<And>st. r = Inr st \<Longrightarrow> p6_ok st"
    using pton6_loop_safe [OF p6_ok_p6, of "[]" None s s] by auto
  have "\<exists>x. p6_run s s (p6 [] None) = Inr x"
  proof (cases r)
    case (Inr st)
    with r(2) have ok: "p6_ok st" by blast
    from put_group_safe [OF this] obtain q where "put_group st = Inr q" "\<forall>st'. q = Inr st' \<longrightarrow> p6_ok st'" by blast
    with pton6_end_safe pton6_end_safe [OF ok] r(1) Inr show ?thesis
      by (cases q; cases "p6_seen st > 0") (simp_all add: p6_run_def)
  qed (simp add: p6_run_def r(1))
  then show ?thesis by (auto simp: inet_pton6_def s_def p6_run_def p6_def Let_def)
qed

lemma cells_read_length: "cells_read m i n = Inr bs \<Longrightarrow> length bs = n"
  by (auto simp: cells_read_def arr_read_def res_simps min_def split: if_splits dest!: arg_cong [where f = length])

lemma pton6_end_length: "pton6_end st = Inr (Inr bs) \<Longrightarrow> length bs = 16"
  by (cases "p6_colonp st")
    (auto simp: pton6_end_def Let_def res_simps split: if_splits dest!: cells_read_length)

lemma p6_run_length:
  assumes "p6_run src cur st = Inr (Inr bs)"
  shows "length bs = 16"
proof -
  obtain r where r: "(case r of Inl e \<Rightarrow> Inr (Inl e)
     | Inr st \<Rightarrow> bindE (if p6_seen st > 0 then put_group st else Inr (Inr st)) (\<lambda>r.
         case r of Inl e \<Rightarrow> Inr (Inl e) | Inr st \<Rightarrow> pton6_end st)) = Inr (Inr bs)"
    using assms unfolding p6_run_def bindE_eq_Inr_iff by blast
  then obtain st where "r = Inr st" by (cases r) auto
  with r obtain q where "(case q of Inl e \<Rightarrow> Inr (Inl e) | Inr st \<Rightarrow> pton6_end st) = Inr (Inr bs)"
    by (auto simp only: bindE_eq_Inr_iff sum.case)
  then show ?thesis by (cases q) (auto dest: pton6_end_length)
qed

lemma inet_pton6_length: "inet_pton6 src = Inr (Inr bs) \<Longrightarrow> length bs = 16"
  unfolding inet_pton6_def Let_def p6_run_def [symmetric]
  by (split if_splits) (auto dest: p6_run_length)

end
