(* ===== verification/Inet_Api.thy ===== *)
theory Inet_Api
  imports Inet6_Text
begin

text \<open>
  The address functions libuv exports: \<open>uv_inet_pton\<close>, \<open>uv_inet_ntop\<close> (\<open>src/libuv/src/inet.c\<close>) and the
  functions of \<open>src/libuv/src/uv-common.c\<close> between socket addresses and text, for both families.
  \<open>if_nametoindex\<close>, a function of the system, is an argument.
\<close>

unbundle bit_operations_syntax

section \<open>Socket addresses\<close>

text \<open>Port and IPv4 address in network order: as integers of the little-endian host.\<close>

record sockaddr_in =
  sin_family :: u16
  sin_port :: u16
  s_addr :: u32

record sockaddr_in6 =
  sin6_family :: u16
  sin6_port :: u16
  sin6_flowinfo :: u32
  sin6_addr :: "byte list"
  sin6_scope_id :: u32

definition AF_INET :: u16 where "AF_INET = 2"
definition AF_INET6 :: u16 where "AF_INET6 = 10"
definition UV_EAFNOSUPPORT :: int where "UV_EAFNOSUPPORT = -97"

definition htons :: "u16 \<Rightarrow> u16" where
  "htons w = swap16 w"

section \<open>Conversions by family\<close>

definition uv_inet_ntop :: "u16 \<Rightarrow> byte list \<Rightarrow> cells \<Rightarrow> nat \<Rightarrow> (int \<times> cells) res" where
  "uv_inet_ntop af src dst sz =
     (if af = AF_INET then inet_ntop4 src dst sz
      else if af = AF_INET6 then inet_ntop6 src dst sz
      else Inr (UV_EAFNOSUPPORT, dst))"

text \<open>A zone, from a percent sign on, is not part of an IPv6 address.\<close>

definition before_zone :: "byte list \<Rightarrow> byte list" where
  "before_zone s = takeWhile (\<lambda>c. c \<noteq> 37) s"

definition uv_inet_pton :: "u16 \<Rightarrow> byte list option \<Rightarrow> (int + byte list) res" where
  "uv_inet_pton af src =
     (case src of
        None \<Rightarrow> Inr (Inl UV_EINVAL)
      | Some src \<Rightarrow>
          if af = AF_INET then inet_pton4 src
          else if af = AF_INET6 then
            (if 37 \<in> set (c_str src) then
               (if length (before_zone (c_str src)) > UV__INET6_ADDRSTRLEN - 1 then Inr (Inl UV_EINVAL)
                else inet_pton6 (before_zone (c_str src)))
             else inet_pton6 src)
          else Inr (Inl UV_EAFNOSUPPORT))"

section \<open>Text to socket address\<close>

definition uv_ip4_addr :: "byte list option \<Rightarrow> u16 \<Rightarrow> (int \<times> sockaddr_in) res" where
  "uv_ip4_addr ip port =
     (let addr = \<lparr>sin_family = AF_INET, sin_port = htons port, s_addr = 0\<rparr> in
      bindE (uv_inet_pton AF_INET ip) (\<lambda>r.
      case r of
        Inl e \<Rightarrow> Inr (e, addr)
      | Inr bs \<Rightarrow> Inr (0, addr\<lparr>s_addr := of_le32 (bs ! 0) (bs ! 1) (bs ! 2) (bs ! 3)\<rparr>)))"

definition uv_ip6_addr :: "(byte list \<Rightarrow> u32) \<Rightarrow> byte list \<Rightarrow> u16 \<Rightarrow> (int \<times> sockaddr_in6) res" where
  "uv_ip6_addr if_nametoindex ip port =
     (let addr = \<lparr>sin6_family = AF_INET6, sin6_port = htons port, sin6_flowinfo = 0,
                  sin6_addr = replicate 16 0, sin6_scope_id = 0\<rparr>;
          ip = c_str ip;
          (ip, addr) =
            (if 37 \<in> set ip then
               (take 39 (before_zone ip),
                addr\<lparr>sin6_scope_id := if_nametoindex (drop (Suc (length (before_zone ip))) ip)\<rparr>)
             else (ip, addr))
      in bindE (uv_inet_pton AF_INET6 (Some ip)) (\<lambda>r.
         case r of
           Inl e \<Rightarrow> Inr (e, addr)
         | Inr bs \<Rightarrow> Inr (0, addr\<lparr>sin6_addr := bs\<rparr>)))"

section \<open>Socket address to text\<close>

definition uv_ip4_name :: "sockaddr_in \<Rightarrow> cells \<Rightarrow> nat \<Rightarrow> (int \<times> cells) res" where
  "uv_ip4_name src dst sz = uv_inet_ntop AF_INET (le32 (s_addr src)) dst sz"

definition uv_ip6_name :: "sockaddr_in6 \<Rightarrow> cells \<Rightarrow> nat \<Rightarrow> (int \<times> cells) res" where
  "uv_ip6_name src dst sz = uv_inet_ntop AF_INET6 (sin6_addr src) dst sz"

text \<open>
  A generic socket address is one of the two structures; \<open>uv_ip_name\<close> trusts the family it finds in the
  first field. The IPv6 address lies outside of the smaller structure, and the flow information of the
  larger one where the other has its address.
\<close>

datatype sockaddr = Sockaddr_In sockaddr_in | Sockaddr_In6 sockaddr_in6

definition uv_ip_name :: "sockaddr \<Rightarrow> cells \<Rightarrow> nat \<Rightarrow> (int \<times> cells) res" where
  "uv_ip_name src dst sz =
     (case src of
        Sockaddr_In a \<Rightarrow>
          if sin_family a = AF_INET then uv_inet_ntop AF_INET (le32 (s_addr a)) dst sz
          else if sin_family a = AF_INET6 then Inl Out_Of_Bounds
          else Inr (UV_EAFNOSUPPORT, dst)
      | Sockaddr_In6 a \<Rightarrow>
          if sin6_family a = AF_INET then uv_inet_ntop AF_INET (le32 (sin6_flowinfo a)) dst sz
          else if sin6_family a = AF_INET6 then uv_inet_ntop AF_INET6 (sin6_addr a) dst sz
          else Inr (UV_EAFNOSUPPORT, dst))"

section \<open>IPv4\<close>

text \<open>What \<open>uv_ip4_name\<close> prints, \<open>uv_ip4_addr\<close> reads back.\<close>

lemma le32_nth: "le32 w = [le32 w ! 0, le32 w ! 1, le32 w ! 2, le32 w ! 3]"
  by (simp add: le32_def)

lemma uv_ip4_addr_text:
  "c_str s = dotted_quad (le32 w) \<Longrightarrow>
     uv_ip4_addr (Some s) port = Inr (0, \<lparr>sin_family = AF_INET, sin_port = htons port, s_addr = w\<rparr>)"
  using inet_pton4_correct [of s "le32 w"]
  by (simp add: uv_ip4_addr_def uv_inet_pton_def Let_def) (simp add: le32_def of_le32_le32)

lemma uv_ip4_addr_invalid:
  assumes "\<nexists>bs. length bs = 4 \<and> c_str s = dotted_quad bs"
  shows "\<exists>e. uv_ip4_addr (Some s) port = Inr (e, \<lparr>sin_family = AF_INET, sin_port = htons port, s_addr = 0\<rparr>)"
proof -
  obtain r where "inet_pton4 s = Inr r" using inet_pton4_total by blast
  with assms inet_pton4_correct [of s] obtain e where "inet_pton4 s = Inr (Inl e)" by (cases r) auto
  then show ?thesis by (simp add: uv_ip4_addr_def uv_inet_pton_def Let_def)
qed

lemma uv_ip4_name_ok:
  "16 \<le> length d \<Longrightarrow> \<exists>d'. uv_ip4_name a d 16 = Inr (0, d')"
  using inet_ntop4_text [of "le32 (s_addr a)" 16 d] by (simp add: uv_ip4_name_def uv_inet_ntop_def)

section \<open>IPv6\<close>

lemma uv_ip6_name_text:
  assumes "length (sin6_addr a) = 16" "46 \<le> n" "n \<le> length d"
  shows "\<exists>s. uv_ip6_name a d n = Inr (0, map Some (s @ [0]) @ drop (Suc (length s)) d) \<and> plain s \<and> length s \<le> 45 \<and>
     (\<forall>ifs port. uv_ip6_addr ifs s port = Inr (0, \<lparr>sin6_family = AF_INET6, sin6_port = htons port, sin6_flowinfo = 0,
        sin6_addr = sin6_addr a, sin6_scope_id = 0\<rparr>))"
proof -
  obtain s where s: "inet_ntop6 (sin6_addr a) d n = Inr (0, map Some (s @ [0]) @ drop (Suc (length s)) d)"
      "plain s" "length s \<le> 45" "inet_pton6 s = Inr (Inr (sin6_addr a))"
    using inet_ntop6_text [OF assms] by blast
  from s(2) have "c_str s = s" "37 \<notin> set s" by (simp_all add: plain_def c_str_self)
  with s(1,4) have "uv_ip6_name a d n = Inr (0, map Some (s @ [0]) @ drop (Suc (length s)) d)"
      "uv_ip6_addr ifs s port = Inr (0, \<lparr>sin6_family = AF_INET6, sin6_port = htons port, sin6_flowinfo = 0,
        sin6_addr = sin6_addr a, sin6_scope_id = 0\<rparr>)" for ifs port
    by (simp_all add: uv_ip6_name_def uv_inet_ntop_def uv_ip6_addr_def uv_inet_pton_def Let_def AF_INET_def AF_INET6_def)
  with s(2,3) show ?thesis by blast
qed

end
