(* ===== verification/Ipv4_Cache.thy ===== *)
theory Ipv4_Cache
  imports Cache Inet_Api
begin

text \<open>
  The cache of A records, \<open>src/src/ipv4_cache.c\<close>. The global \<open>ipv4_table\<close> is passed as an argument and
  returned, and \<open>time(NULL)\<close> is the argument \<open>now\<close>. The linked list of addresses of an entry is a list.
  What \<open>ipv4_cache_put\<close> logs is a function of its own.
\<close>

unbundle bit_operations_syntax

section \<open>Data and operations\<close>

record ipv4_cache_t =
  v4_node :: "u32 list"
  v4_ttl :: int
  v4_timestamp :: int
  v4_manual :: bool

type_synonym ipv4_table_t = "ipv4_cache_t hash_table_t"

definition ipv4_cache_init :: ipv4_table_t where
  "ipv4_cache_init = hash_table_new"

definition ipv4_cache_get :: "ipv4_table_t \<Rightarrow> string_t \<Rightarrow> ipv4_cache_t option res" where
  "ipv4_cache_get t name = hash_table_get t name"

text \<open>The entry that is stored: never a manual one.\<close>

definition ipv4_item :: "int \<Rightarrow> ipv4_cache_t \<Rightarrow> ipv4_cache_t" where
  "ipv4_item now cache =
     \<lparr>v4_node = v4_node cache, v4_ttl = v4_ttl cache, v4_timestamp = now, v4_manual = False\<rparr>"

definition ipv4_cache_put :: "int \<Rightarrow> ipv4_table_t \<Rightarrow> string_t \<Rightarrow> ipv4_cache_t \<Rightarrow> ipv4_table_t res" where
  "ipv4_cache_put now t name cache =
     bindE (ipv4_cache_get t name) (\<lambda>old_cache.
     case old_cache of
       None \<Rightarrow> hash_table_put t (Some name) (Some (ipv4_item now cache))
     | Some old \<Rightarrow>
         (if v4_manual old then Inr t
          else hash_table_store t name
            (old\<lparr>v4_ttl := v4_ttl cache, v4_timestamp := now, v4_manual := False,
                 v4_node := v4_node cache\<rparr>)))"

fun ipv4_put_log :: "string_t \<Rightarrow> u32 list \<Rightarrow> (byte list \<times> byte list) list res" where
  "ipv4_put_log name [] = Inr []"
| "ipv4_put_log name (address # node) =
     bindE (inet4address2string address) (\<lambda>s.
     bindE (ipv4_put_log name node) (\<lambda>out.
     Inr ((c_str (string_print name), c_str (string_print s)) # out)))"

definition ipv4_cache_free :: "ipv4_table_t \<Rightarrow> unit res" where
  "ipv4_cache_free t = hash_table_free t"

definition ipv4_stale :: "int \<Rightarrow> ipv4_cache_t \<Rightarrow> bool" where
  "ipv4_stale now cache \<longleftrightarrow> v4_manual cache = False \<and> v4_timestamp cache + v4_ttl cache < now"

definition ipv4_cache_clear :: "int \<Rightarrow> ipv4_table_t \<Rightarrow> ipv4_table_t res" where
  "ipv4_cache_clear now t = clear_table (ipv4_stale now) t"

section \<open>The configuration file\<close>

text \<open>\<open>fgets(buf, 1024, file)\<close>: at most 1023 bytes, up to and with a newline.\<close>

fun fgets_take :: "nat \<Rightarrow> byte list \<Rightarrow> byte list" where
  "fgets_take 0 cs = []"
| "fgets_take (Suc n) [] = []"
| "fgets_take (Suc n) (c # cs) = (if c = 10 then [c] else c # fgets_take n cs)"

text \<open>
  What reading memory as a C string finds: the bytes before the terminator, or before the first byte
  that cannot be read.
\<close>

fun readable :: "cells \<Rightarrow> byte list \<times> c_error option" where
  "readable [] = ([], Some Out_Of_Bounds)"
| "readable (None # cs) = ([], Some Uninitialised)"
| "readable (Some b # cs) =
     (if b = 0 then ([], None) else let (s, e) = readable cs in (b # s, e))"

text \<open>\<open>uv_ip4_addr\<close> on a string in memory; \<open>inet_pton4\<close> stops reading at the first bad character.\<close>

definition uv_ip4_addr_mem :: "cells \<Rightarrow> u16 \<Rightarrow> (int \<times> sockaddr_in) res" where
  "uv_ip4_addr_mem address port =
     (case readable address of
        (s, None) \<Rightarrow> uv_ip4_addr (Some s) port
      | (s, Some e) \<Rightarrow>
          (case pton4_loop s False 0 (filled 4 [0]) 0 of
             Inr (Inl _) \<Rightarrow> uv_ip4_addr (Some s) port
           | _ \<Rightarrow> Inl e))"

text \<open>
  A line of two fields. The array for the address has one byte more than the field, and the code sets
  the byte after that to zero. \<open>frame n\<close> is the memory from an array of \<open>n\<close> bytes on: the array alone
  in C, where the write is out of bounds, or what a compiler puts behind it.
\<close>

definition ipv4_entry ::
    "(nat \<Rightarrow> cells) \<Rightarrow> int \<Rightarrow> string_t \<Rightarrow> string_t \<Rightarrow> ipv4_table_t \<Rightarrow> ipv4_table_t res" where
  "ipv4_entry frame now name field t =
     (let address = frame (length field + 1) in
      bindE (cells_write address (length field + 1) [0]) (\<lambda>address.
      bindE (cells_write address 0 field) (\<lambda>address.
      bindE (uv_ip4_addr_mem address 0) (\<lambda>(_, address_in).
      let cache = \<lparr>v4_node = [swap32 (s_addr address_in)], v4_ttl = 1, v4_timestamp = - 1,
                   v4_manual = True\<rparr>
      in ipv4_cache_put now t (string_dup name) cache))))"

definition ipv4_read_line ::
    "(nat \<Rightarrow> cells) \<Rightarrow> int \<Rightarrow> byte list \<Rightarrow> ipv4_table_t \<Rightarrow> ipv4_table_t res" where
  "ipv4_read_line frame now line t =
     bindE (string_malloc (line @ [0]) 0 (int (length (c_str (line @ [0]))) - 1)) (\<lambda>result.
     bindE (string_split result (of_char (CHR '' ''))) (\<lambda>arr.
     if split_length arr = 2 then
       bindE (bindE (arr_get (array arr) 0) (or_fail Uninitialised)) (\<lambda>name.
       bindE (bindE (arr_get (array arr) 1) (or_fail Uninitialised)) (\<lambda>field.
       ipv4_entry frame now name field t))
     else Inr t))"

lemma fgets_take_nonempty: "cs \<noteq> [] \<Longrightarrow> 0 < n \<Longrightarrow> fgets_take n cs \<noteq> []"
  by (cases n; cases cs) auto

function ipv4_read_lines ::
    "(nat \<Rightarrow> cells) \<Rightarrow> int \<Rightarrow> byte list \<Rightarrow> ipv4_table_t \<Rightarrow> ipv4_table_t res" where
  "ipv4_read_lines frame now content t =
     (if content = [] then Inr t
      else
        let buf = fgets_take 1023 content in
        bindE (ipv4_read_line frame now buf t) (ipv4_read_lines frame now (drop (length buf) content)))"
  by pat_completeness auto
termination
proof (relation "measure (\<lambda>(_, _, content, _). length content)")
  fix frame :: "nat \<Rightarrow> cells" and now :: int and content buf :: "byte list" and t t' :: ipv4_table_t
  assume "content \<noteq> []" "buf = fgets_take 1023 content"
  then have "buf \<noteq> []" using fgets_take_nonempty [of content 1023] by simp
  with \<open>content \<noteq> []\<close>
  show "((frame, now, drop (length buf) content, t'), (frame, now, content, t)) \<in>
      measure (\<lambda>(_, _, content, _). length content)" by simp
qed simp

declare ipv4_read_lines.simps [simp del]

text \<open>\<open>files\<close> is the file system: the contents of the files that can be opened.\<close>

definition ipv4_read_file ::
    "(nat \<Rightarrow> cells) \<Rightarrow> (byte list \<Rightarrow> byte list option) \<Rightarrow> int \<Rightarrow> byte list option \<Rightarrow>
     ipv4_table_t \<Rightarrow> ipv4_table_t res" where
  "ipv4_read_file frame files now file_name t =
     (case file_name of
        None \<Rightarrow> Inr t
      | Some f \<Rightarrow> (case files f of None \<Rightarrow> Inr t | Some content \<Rightarrow> ipv4_read_lines frame now content t))"

section \<open>The cache as an interface\<close>

lemma ipv4_put_correct:
  assumes inv: "ht_inv t" and room: "ht_room t"
  shows "\<exists>t'. ipv4_cache_put now t k c = Inr t' \<and> ht_inv t' \<and>
     ht_lookup t' = (if \<exists>old. ht_lookup t k = Some old \<and> v4_manual old then ht_lookup t
                     else (ht_lookup t)(k \<mapsto> ipv4_item now c))"
proof (cases "ht_lookup t k")
  case None
  with put_correct [OF inv room, of k "ipv4_item now c"] show ?thesis
    by (simp add: ipv4_cache_put_def ipv4_cache_get_def ht.get_law [OF inv])
next
  case (Some old)
  then have "ht_lookup t k \<noteq> None" by simp
  moreover have "old\<lparr>v4_ttl := v4_ttl c, v4_timestamp := now, v4_manual := False, v4_node := v4_node c\<rparr> =
      ipv4_item now c"
    by (cases old) (simp add: ipv4_item_def)
  ultimately show ?thesis
    using store_correct [OF inv, of k "ipv4_item now c"] Some inv
    by (auto simp: ipv4_cache_put_def ipv4_cache_get_def ht.get_law [OF inv])
qed

interpretation v4: dns_cache ht_lookup ht_inv ht_room ht_shallow v4_manual ipv4_stale ipv4_item
  ipv4_cache_get ipv4_cache_put ipv4_cache_clear
proof unfold_locales
  fix t :: ipv4_table_t and k
  assume "ht_inv t"
  then show "ipv4_cache_get t k = Inr (ht_lookup t k)" by (simp add: ipv4_cache_get_def ht.get_law)
next
  fix t :: ipv4_table_t and k now c
  assume "ht_inv t" "ht_room t"
  then show "\<exists>t'. ipv4_cache_put now t k c = Inr t' \<and> ht_inv t' \<and>
     ht_lookup t' = (if \<exists>old. ht_lookup t k = Some old \<and> v4_manual old then ht_lookup t
                     else (ht_lookup t)(k \<mapsto> ipv4_item now c))"
    by (rule ipv4_put_correct)
next
  fix t :: ipv4_table_t and now
  assume "ht_inv t" "ht_shallow t"
  then show "\<exists>t'. ipv4_cache_clear now t = Inr t' \<and> ht_inv t' \<and> ht_shallow t' \<and>
      (ht_room t \<longrightarrow> ht_room t') \<and>
      ht_lookup t' = (\<lambda>k. case ht_lookup t k of None \<Rightarrow> None
                            | Some c \<Rightarrow> if ipv4_stale now c then None else Some c)"
    unfolding ipv4_cache_clear_def by (rule clear_table_correct)
qed (simp add: ipv4_stale_def)

text \<open>No entry put by the program is manual, so none outlives its ttl by more than a clear.\<close>

lemma ipv4_put_not_manual:
  assumes "ht_inv t" "ht_room t" "ipv4_cache_put now t k c = Inr t'"
    "\<forall>k' old. ht_lookup t k' = Some old \<longrightarrow> \<not> v4_manual old"
  shows "\<forall>k' c'. ht_lookup t' k' = Some c' \<longrightarrow> \<not> v4_manual c'"
  using ipv4_put_correct [OF assms(1,2), of now k c] assms(3,4) by (auto simp: ipv4_item_def)

lemma ipv4_put_log_ok: "\<exists>out. ipv4_put_log name node = Inr out"
  by (induction node) (auto simp: inet4address2string_text Let_def)

section \<open>Reading the file\<close>

lemma ipv4_entry_strict:
  "ipv4_entry malloc_cells now name field t = Inl Out_Of_Bounds"
  by (simp add: ipv4_entry_def cells_write_def arr_write_def malloc_cells_def)

lemma readable_text: "0 \<notin> set s \<Longrightarrow> readable (map Some s @ Some 0 # rest) = (s, None)"
  by (induction s) auto

text \<open>A frame with a zero byte at the end of the array and room behind it: what the code hopes for.\<close>

definition lucky_frame :: "nat \<Rightarrow> cells" where
  "lucky_frame n = replicate (n - 1) None @ [Some 0, None]"

lemma ipv4_entry_lucky:
  assumes "0 \<notin> set field"
  shows "ipv4_entry lucky_frame now name field t =
     bindE (uv_ip4_addr (Some field) 0) (\<lambda>(_, a).
     ipv4_cache_put now t name
       \<lparr>v4_node = [swap32 (s_addr a)], v4_ttl = 1, v4_timestamp = - 1, v4_manual = True\<rparr>)"
proof -
  let ?n = "length field"
  have "cells_write (lucky_frame (?n + 1)) (?n + 1) [0] = Inr (replicate ?n None @ [Some 0, Some 0])"
    by (simp add: lucky_frame_def cells_write_def arr_write_def)
  moreover have "cells_write (replicate ?n None @ [Some 0, Some 0]) 0 field =
      Inr (map Some field @ [Some 0, Some 0])"
    by (simp add: cells_write_def arr_write_def)
  ultimately show ?thesis
    using readable_text [OF assms, of "[Some 0]"]
    by (simp add: ipv4_entry_def Let_def uv_ip4_addr_mem_def)
qed

text \<open>A line \<open>name address\<close> with its newline is split into its two fields.\<close>

lemma ipv4_read_line_two:
  assumes "32 \<notin> set name" "32 \<notin> set field" "0 \<notin> set name" "0 \<notin> set field"
  shows "ipv4_read_line frame now (name @ 32 # field @ [10]) t = ipv4_entry frame now name field t"
proof -
  let ?r = "name @ 32 # field"
  have "c_str ((name @ 32 # field @ [10]) @ [0]) = name @ 32 # field @ [10]"
    using assms c_str_no_zero [of "name @ 32 # field @ [10]" "[]"] by simp
  then have "string_malloc ((name @ 32 # field @ [10]) @ [0]) 0
      (int (length (c_str ((name @ 32 # field @ [10]) @ [0]))) - 1) = Inr ?r"
    using string_malloc_prefix [of ?r "[10, 0]"] by simp
  moreover have "splits 32 ?r = [name, field]"
    using assms by (simp add: splits_append splits_no_sep)
  ultimately show ?thesis
    by (simp add: ipv4_read_line_def string_split_correct arr_get_def)
qed

text \<open>The last line of a file that does not end in a newline loses its last character.\<close>

lemma fgets_take_all: "10 \<notin> set cs \<Longrightarrow> length cs \<le> n \<Longrightarrow> fgets_take n cs = cs"
  by (induction n cs rule: fgets_take.induct) auto

lemma ipv4_read_line_unterminated:
  assumes "32 \<notin> set name" "32 \<notin> set field" "0 \<notin> set name" "0 \<notin> set field" "b \<noteq> 0"
  shows "ipv4_read_line frame now (name @ 32 # field @ [b]) t = ipv4_entry frame now name field t"
proof -
  let ?r = "name @ 32 # field"
  have "c_str ((name @ 32 # field @ [b]) @ [0]) = name @ 32 # field @ [b]"
    using assms c_str_no_zero [of "name @ 32 # field @ [b]" "[]"] by simp
  then have "string_malloc ((name @ 32 # field @ [b]) @ [0]) 0
      (int (length (c_str ((name @ 32 # field @ [b]) @ [0]))) - 1) = Inr ?r"
    using string_malloc_prefix [of ?r "[b, 0]"] by simp
  moreover have "splits 32 ?r = [name, field]"
    using assms by (simp add: splits_append splits_no_sep)
  ultimately show ?thesis
    by (simp add: ipv4_read_line_def string_split_correct arr_get_def)
qed

end
