(* ===== verification/Ipv6_Cache.thy ===== *)
theory Ipv6_Cache
  imports Cache Utils
begin

text \<open>
  The cache of AAAA records, \<open>src/src/ipv6_cache.c\<close>. Unlike the IPv4 cache it ignores the \<open>manual\<close> mark,
  both when an entry is replaced and when stale entries are cleared.
\<close>

record ipv6_cache_t =
  v6_node :: "byte list list"
  v6_ttl :: int
  v6_timestamp :: int
  v6_manual :: bool

type_synonym ipv6_table_t = "ipv6_cache_t hash_table_t"

definition ipv6_cache_init :: ipv6_table_t where
  "ipv6_cache_init = hash_table_new"

definition ipv6_cache_get :: "ipv6_table_t \<Rightarrow> string_t \<Rightarrow> ipv6_cache_t option res" where
  "ipv6_cache_get t name = hash_table_get t name"

definition ipv6_item :: "int \<Rightarrow> ipv6_cache_t \<Rightarrow> ipv6_cache_t" where
  "ipv6_item now cache =
     \<lparr>v6_node = v6_node cache, v6_ttl = v6_ttl cache, v6_timestamp = now, v6_manual = False\<rparr>"

definition ipv6_cache_put :: "int \<Rightarrow> ipv6_table_t \<Rightarrow> string_t \<Rightarrow> ipv6_cache_t \<Rightarrow> ipv6_table_t res" where
  "ipv6_cache_put now t name cache =
     bindE (ipv6_cache_get t name) (\<lambda>old_cache.
     case old_cache of
       None \<Rightarrow> hash_table_put t (Some name) (Some (ipv6_item now cache))
     | Some old \<Rightarrow>
         hash_table_store t name
           (old\<lparr>v6_ttl := v6_ttl cache, v6_timestamp := now, v6_manual := False,
                v6_node := v6_node cache\<rparr>))"

fun ipv6_put_log :: "string_t \<Rightarrow> byte list list \<Rightarrow> (byte list \<times> byte list) list res" where
  "ipv6_put_log name [] = Inr []"
| "ipv6_put_log name (address # node) =
     bindE (inet6address2string address) (\<lambda>s.
     bindE (ipv6_put_log name node) (\<lambda>out.
     Inr ((c_str (string_print name), c_str (string_print s)) # out)))"

definition ipv6_cache_free :: "ipv6_table_t \<Rightarrow> unit res" where
  "ipv6_cache_free t = hash_table_free t"

definition ipv6_stale :: "int \<Rightarrow> ipv6_cache_t \<Rightarrow> bool" where
  "ipv6_stale now cache \<longleftrightarrow> v6_timestamp cache + v6_ttl cache < now"

definition ipv6_cache_clear :: "int \<Rightarrow> ipv6_table_t \<Rightarrow> ipv6_table_t res" where
  "ipv6_cache_clear now t = clear_table (ipv6_stale now) t"

section \<open>The cache as an interface\<close>

lemma ipv6_put_correct:
  assumes inv: "ht_inv t" and room: "ht_room t"
  shows "\<exists>t'. ipv6_cache_put now t k c = Inr t' \<and> ht_inv t' \<and>
     ht_lookup t' = (ht_lookup t)(k \<mapsto> ipv6_item now c)"
proof (cases "ht_lookup t k")
  case None
  with put_correct [OF inv room, of k "ipv6_item now c"] show ?thesis
    by (simp add: ipv6_cache_put_def ipv6_cache_get_def ht.get_law [OF inv])
next
  case (Some old)
  then have "ht_lookup t k \<noteq> None" by simp
  moreover have "old\<lparr>v6_ttl := v6_ttl c, v6_timestamp := now, v6_manual := False, v6_node := v6_node c\<rparr> =
      ipv6_item now c"
    by (cases old) (simp add: ipv6_item_def)
  ultimately show ?thesis
    using store_correct [OF inv, of k "ipv6_item now c"] Some
    by (auto simp: ipv6_cache_put_def ipv6_cache_get_def ht.get_law [OF inv])
qed

interpretation v6: dns_cache ht_lookup ht_inv ht_room ht_shallow "\<lambda>_. False" ipv6_stale ipv6_item
  ipv6_cache_get ipv6_cache_put ipv6_cache_clear
proof unfold_locales
  fix t :: ipv6_table_t and k
  assume "ht_inv t"
  then show "ipv6_cache_get t k = Inr (ht_lookup t k)" by (simp add: ipv6_cache_get_def ht.get_law)
next
  fix t :: ipv6_table_t and k now c
  assume "ht_inv t" "ht_room t"
  then show "\<exists>t'. ipv6_cache_put now t k c = Inr t' \<and> ht_inv t' \<and>
     ht_lookup t' = (if \<exists>old. ht_lookup t k = Some old \<and> False then ht_lookup t
                     else (ht_lookup t)(k \<mapsto> ipv6_item now c))"
    using ipv6_put_correct by simp
next
  fix t :: ipv6_table_t and now
  assume "ht_inv t" "ht_shallow t"
  then show "\<exists>t'. ipv6_cache_clear now t = Inr t' \<and> ht_inv t' \<and> ht_shallow t' \<and>
      (ht_room t \<longrightarrow> ht_room t') \<and>
      ht_lookup t' = (\<lambda>k. case ht_lookup t k of None \<Rightarrow> None
                            | Some c \<Rightarrow> if ipv6_stale now c then None else Some c)"
    unfolding ipv6_cache_clear_def by (rule clear_table_correct)
qed simp

lemma ipv6_put_log_ok:
  "\<forall>a \<in> set node. length a = 16 \<Longrightarrow> \<exists>out. ipv6_put_log name node = Inr out"
  by (induction node) (auto simp: inet6address2string_text)

end
