(* ===== verification/Cname_Cache.thy ===== *)
theory Cname_Cache
  imports Cache
begin

text \<open>
  The cache of CNAME records, \<open>src/src/cname_cache.c\<close>, and the chains of aliases the server follows.
  \<open>cname_cache_clear\<close> has an empty body, so entries never expire. Following a chain ends exactly when
  it meets no name twice; the fuel \<open>chain_fuel\<close> is enough for every chain that ends.
\<close>

section \<open>Data and operations\<close>

record cname_cache_t =
  cn_name :: string_t
  cn_ttl :: int
  cn_timestamp :: int
  cn_manual :: bool

type_synonym cname_table_t = "cname_cache_t hash_table_t"

definition cname_cache_init :: cname_table_t where
  "cname_cache_init = hash_table_new"

definition cname_item :: "int \<Rightarrow> cname_cache_t \<Rightarrow> cname_cache_t" where
  "cname_item now cache =
     \<lparr>cn_name = cn_name cache, cn_ttl = cn_ttl cache, cn_timestamp = now, cn_manual = False\<rparr>"

definition cname_cache_put :: "int \<Rightarrow> cname_table_t \<Rightarrow> string_t \<Rightarrow> cname_cache_t \<Rightarrow> cname_table_t res" where
  "cname_cache_put now t name cache = hash_table_put t (Some name) (Some (cname_item now cache))"

definition cname_cache_get :: "cname_table_t \<Rightarrow> string_t \<Rightarrow> cname_cache_t option res" where
  "cname_cache_get t name = hash_table_get t name"

definition cname_cache_free :: "cname_table_t \<Rightarrow> unit res" where
  "cname_cache_free t = hash_table_free t"

definition cname_cache_clear :: "int \<Rightarrow> cname_table_t \<Rightarrow> cname_table_t res" where
  "cname_cache_clear now t = Inr t"

interpretation cn: dns_cache ht_lookup ht_inv ht_room ht_shallow "\<lambda>_. False" "\<lambda>_ _. False" cname_item
  cname_cache_get cname_cache_put cname_cache_clear
proof unfold_locales
  fix t :: cname_table_t and k
  assume "ht_inv t"
  then show "cname_cache_get t k = Inr (ht_lookup t k)" by (simp add: cname_cache_get_def ht.get_law)
next
  fix t :: cname_table_t and k now c
  assume "ht_inv t" "ht_room t"
  then show "\<exists>t'. cname_cache_put now t k c = Inr t' \<and> ht_inv t' \<and>
     ht_lookup t' = (if \<exists>old. ht_lookup t k = Some old \<and> False then ht_lookup t
                     else (ht_lookup t)(k \<mapsto> cname_item now c))"
    using put_correct by (simp add: cname_cache_put_def)
next
  fix t :: cname_table_t and now
  assume "ht_inv t" "ht_shallow t"
  then show "\<exists>t'. cname_cache_clear now t = Inr t' \<and> ht_inv t' \<and> ht_shallow t' \<and>
      (ht_room t \<longrightarrow> ht_room t') \<and>
      ht_lookup t' = (\<lambda>k. case ht_lookup t k of None \<Rightarrow> None
                            | Some c \<Rightarrow> if False then None else Some c)"
    by (auto simp: cname_cache_clear_def split: option.splits)
qed simp

section \<open>Chains\<close>

text \<open>
  The loop \<open>while (cname_cache != NULL) { ...; domain = cname_cache->name; ... }\<close>: the links it
  passes, each with the alias, and the name it ends at.
\<close>

fun follow_cname :: "nat \<Rightarrow> cname_table_t \<Rightarrow> string_t \<Rightarrow> ((string_t \<times> string_t) list \<times> string_t) res" where
  "follow_cname 0 t domain = Inl Diverges"
| "follow_cname (Suc n) t domain =
     bindE (cname_cache_get t domain) (\<lambda>cname_cache.
     case cname_cache of
       None \<Rightarrow> Inr ([], domain)
     | Some c \<Rightarrow>
         bindE (follow_cname n t (cn_name c)) (\<lambda>(links, final).
         Inr ((domain, cn_name c) # links, final)))"

definition chain_fuel :: "cname_table_t \<Rightarrow> nat" where
  "chain_fuel t = Suc (Suc (ht_count t))"

definition cname_next :: "cname_table_t \<Rightarrow> string_t \<Rightarrow> string_t option" where
  "cname_next t domain = map_option cn_name (ht_lookup t domain)"

text \<open>Specification of a chain of aliases.\<close>

inductive cname_chain :: "cname_table_t \<Rightarrow> string_t \<Rightarrow> (string_t \<times> string_t) list \<Rightarrow> string_t \<Rightarrow> bool"
  for t where
  chain_end: "cname_next t domain = None \<Longrightarrow> cname_chain t domain [] domain"
| chain_link: "cname_next t domain = Some name \<Longrightarrow> cname_chain t name links final \<Longrightarrow>
    cname_chain t domain ((domain, name) # links) final"

inductive_cases cname_chain_NilE: "cname_chain t domain [] final"
inductive_cases cname_chain_ConsE: "cname_chain t domain (l # links) final"

lemma follow_cname_Suc:
  "ht_inv t \<Longrightarrow> follow_cname (Suc n) t domain =
     (case cname_next t domain of
        None \<Rightarrow> Inr ([], domain)
      | Some name \<Rightarrow> bindE (follow_cname n t name) (\<lambda>(links, final). Inr ((domain, name) # links, final)))"
  by (simp add: cname_next_def cname_cache_get_def ht.get_law split: option.splits)

lemma follow_cname_sound:
  "ht_inv t \<Longrightarrow> follow_cname n t domain = Inr (links, final) \<Longrightarrow> cname_chain t domain links final"
proof (induction n arbitrary: domain links)
  case (Suc n)
  then show ?case
    by (auto simp: follow_cname_Suc bindE_eq_Inr_iff simp del: follow_cname.simps
        split: option.splits intro: cname_chain.intros)
qed simp

lemma follow_cname_complete:
  "cname_chain t domain links final \<Longrightarrow> ht_inv t \<Longrightarrow> length links < n \<Longrightarrow>
     follow_cname n t domain = Inr (links, final)"
proof (induction arbitrary: n rule: cname_chain.induct)
  case (chain_end domain)
  then show ?case by (cases n) (simp_all add: follow_cname_Suc del: follow_cname.simps(2))
next
  case (chain_link domain name links final)
  then show ?case by (cases n) (simp_all add: follow_cname_Suc del: follow_cname.simps(2))
qed

lemma follow_cname_Diverges:
  "ht_inv t \<Longrightarrow> follow_cname n t domain = Inl e \<longleftrightarrow> e = Diverges \<and> iter_opt (cname_next t) n domain \<noteq> None"
proof (induction n arbitrary: domain)
  case (Suc n)
  then show ?case
    by (auto simp: follow_cname_Suc bindE_eq_Inl_iff simp del: follow_cname.simps split: option.splits)
qed auto

text \<open>The names in a table are at most as many as it counts.\<close>

lemma dom_lookup_bound:
  assumes wf: "ht_wf t"
  shows "finite (dom (ht_lookup t)) \<and> card (dom (ht_lookup t)) \<le> ht_count t"
proof -
  let ?names = "stale_names (\<lambda>_. True) (ht_table t)"
  have "dom (ht_lookup t) = set ?names"
    using set_stale_names [OF wf, of _ "\<lambda>_. True"] by auto
  moreover have "card (set ?names) \<le> length ?names" by (rule card_length)
  moreover have "length ?names \<le> ht_size t"
    unfolding ht_size_def by (rule length_stale_names)
  ultimately show ?thesis using wf by (simp add: ht_wf_def)
qed

lemma follow_cname_fuel_enough:
  assumes inv: "ht_inv t" and div: "follow_cname (chain_fuel t) t domain = Inl e"
  shows "follow_cname n t domain = Inl Diverges"
proof -
  have fin: "finite (dom (ht_lookup t))" and card: "card (dom (ht_lookup t)) \<le> ht_count t"
    using dom_lookup_bound [of t] inv by (simp_all add: ht_inv_def)
  have "iter_opt (cname_next t) (chain_fuel t) domain \<noteq> None"
    using follow_cname_Diverges [OF inv] div by blast
  then have long: "iter_opt (cname_next t) (Suc (card (dom (ht_lookup t)))) domain \<noteq> None"
    by (rule iter_opt_prefix) (use card in \<open>simp add: chain_fuel_def\<close>)
  have "s \<in> dom (ht_lookup t) \<and> True" if "cname_next t s \<noteq> None" for s
    using that by (auto simp: cname_next_def)
  from iter_opt_pigeonhole [of _ _ "\<lambda>_. True", OF fin this TrueI long]
  have "iter_opt (cname_next t) n domain \<noteq> None" .
  then show ?thesis using follow_cname_Diverges [OF inv] by blast
qed

lemma follow_cname_ends:
  assumes inv: "ht_inv t" and chain: "cname_chain t domain links final"
  shows "follow_cname (chain_fuel t) t domain = Inr (links, final)"
proof (cases "follow_cname (chain_fuel t) t domain")
  case (Inl e)
  from follow_cname_fuel_enough [OF inv Inl, of "Suc (length links)"]
    follow_cname_complete [OF chain inv, of "Suc (length links)"]
  show ?thesis by simp
next
  case (Inr r)
  obtain l s where r: "r = (l, s)" by (cases r)
  let ?m = "chain_fuel t + Suc (length links)"
  have "cname_chain t domain l s" using follow_cname_sound [OF inv] Inr r by blast
  from follow_cname_complete [OF this inv, of "?m + length l"]
    follow_cname_complete [OF chain inv, of "?m + length l"] Inr r
  show ?thesis by simp
qed

lemma follow_cname_correct:
  assumes "ht_inv t"
  shows "follow_cname (chain_fuel t) t domain = Inr (links, final) \<longleftrightarrow> cname_chain t domain links final"
  using follow_cname_sound [OF assms] follow_cname_ends [OF assms] by blast

text \<open>An alias that leads back to itself keeps the loop going.\<close>

lemma follow_cname_cycle:
  assumes inv: "ht_inv t" and cyc: "iter_opt (cname_next t) (Suc k) domain = Some domain"
  shows "follow_cname n t domain = Inl Diverges"
proof -
  have "iter_opt (cname_next t) n domain \<noteq> None"
    by (rule iter_opt_cycle [of 0 "Suc k"]) (use cyc in simp_all)
  then show ?thesis using follow_cname_Diverges [OF inv] by blast
qed

end
