(* ===== verification/Socket.thy ===== *)
theory Socket
  imports Message_Departures Config Ipv4_Cache Ipv6_Cache Cname_Cache
begin

text \<open>
  The server, \<open>src/src/socket.c\<close>: its globals as one record, the two receive callbacks, and the
  functions that send. What is handed to \<open>uv_udp_send\<close> is collected in \<open>sent\<close>; the current time, the
  results of the system calls and the contents of fresh memory are arguments.
\<close>

section \<open>State\<close>

datatype socket_id = Bind_Socket | Query_Socket

record packet =
  pk_socket :: socket_id
  pk_buf :: uv_buf_t
  pk_to :: sockaddr_in

record server_t =
  ipv4_table :: ipv4_table_t
  ipv6_table :: ipv6_table_t
  cname_table :: cname_table_t
  clients_hash_table :: "sockaddr_in hash_table_t"
  bind_address :: sockaddr_in
  query_address :: sockaddr_in
  dns_address :: sockaddr_in
  bind_receiving :: bool
  query_receiving :: bool
  bind_data :: "uv_buf_t option"
  query_data :: "uv_buf_t option"
  sent :: "packet list"

section \<open>Sending\<close>

text \<open>What \<open>send_close\<close>, the close callback, frees: the buffer last attached to the handle.\<close>

definition send_close :: "uv_buf_t option \<Rightarrow> uv_buf_t list" where
  "send_close buf = (case buf of None \<Rightarrow> [] | Some b \<Rightarrow> [b])"

definition prepare_message :: "message_t \<Rightarrow> message_t" where
  "prepare_message message =
     message\<lparr>msg_flags := (msg_flags message)\<lparr>Z := 0\<rparr>, additional_count := 0, authority_count := 0\<rparr>"

text \<open>Both functions change the message they are given.\<close>

definition send_response :: "server_t \<Rightarrow> message_t \<Rightarrow> (server_t \<times> message_t) res" where
  "send_response s message =
     bindE (message2feature_string message) (\<lambda>feature_vector.
     bindE (hash_table_get (clients_hash_table s) feature_vector) (\<lambda>client_address.
     case client_address of
       None \<Rightarrow> Inr (s, message)
     | Some address \<Rightarrow>
         let message = prepare_message message in
         bindE (message2buf message) (\<lambda>buf.
         let s = s\<lparr>bind_data := Some buf,
                   sent := sent s @ [\<lparr>pk_socket = Bind_Socket, pk_buf = buf, pk_to = address\<rparr>]\<rparr> in
         bindE (hash_table_remove (clients_hash_table s) feature_vector) (\<lambda>clients.
         Inr (s\<lparr>clients_hash_table := clients\<rparr>, message)))))"

definition send_query :: "server_t \<Rightarrow> message_t \<Rightarrow> (server_t \<times> message_t) res" where
  "send_query s message =
     (let message = prepare_message message in
      bindE (message2buf message) (\<lambda>buf.
      Inr (s\<lparr>query_data := Some buf,
             sent := sent s @ [\<lparr>pk_socket = Query_Socket, pk_buf = buf, pk_to = dns_address s\<rparr>]\<rparr>,
           message)))"

section \<open>Starting and stopping\<close>

text \<open>
  \<open>bind_result\<close> is what \<open>uv_udp_bind\<close> returns for each socket; when it is not zero the process exits,
  which is \<open>None\<close>. The result of \<open>uv_ip4_addr\<close> for the upstream address is not looked at.
\<close>

definition socket_init ::
    "(socket_id \<Rightarrow> int) \<Rightarrow> byte list option \<Rightarrow> server_t \<Rightarrow> server_t option res" where
  "socket_init bind_result upstream s =
     bindE (uv_ip4_addr (Some (ascii ''0.0.0.0'')) 53) (\<lambda>(_, address).
     let s = s\<lparr>bind_address := address\<rparr> in
     if bind_result Bind_Socket \<noteq> 0 then Inr None
     else
       let s = s\<lparr>bind_receiving := True\<rparr> in
       bindE (uv_ip4_addr (Some (ascii ''0.0.0.0'')) 0) (\<lambda>(_, address).
       let s = s\<lparr>query_address := address\<rparr> in
       if bind_result Query_Socket \<noteq> 0 then Inr None
       else
         let s = s\<lparr>query_receiving := True, clients_hash_table := hash_table_new\<rparr> in
         bindE (uv_ip4_addr upstream 53) (\<lambda>(_, address).
         Inr (Some (s\<lparr>dns_address := address\<rparr>)))))"

definition socket_free :: "server_t \<Rightarrow> server_t res" where
  "socket_free s =
     (let s = s\<lparr>bind_receiving := False, query_receiving := False\<rparr> in
      bindE (hash_table_free (clients_hash_table s)) (\<lambda>_. Inr s))"

section \<open>Answers from upstream\<close>

record collected =
  ipv4_domain :: "string_t option"
  ipv4_nodes :: "u32 list"
  ipv6_domain :: "string_t option"
  ipv6_nodes :: "byte list list"

text \<open>One round of the loop over the answers; a CNAME goes straight into its cache.\<close>

definition collect_answer ::
    "int \<Rightarrow> resource_record_t list \<Rightarrow> nat \<Rightarrow> collected \<times> cname_table_t \<Rightarrow> (collected \<times> cname_table_t) res" where
  "collect_answer now rrs i = (\<lambda>(c, t).
     bindE (arr_get rrs i) (\<lambda>rr.
     if rr_type rr = 1 then
       (case rr_data rr of
          Address4 a \<Rightarrow> Inr (c\<lparr>ipv4_domain := Some (string_dup (rr_name rr)),
                               ipv4_nodes := ipv4_nodes c @ [a]\<rparr>, t)
        | _ \<Rightarrow> Inl Uninitialised)
     else if rr_type rr = 5 then
       (case rr_data rr of
          Cname d \<Rightarrow>
            let cname_cache = \<lparr>cn_name = string_dup d, cn_ttl = 120, cn_timestamp = now, cn_manual = False\<rparr>
            in bindE (cname_cache_put now t (string_dup (rr_name rr)) cname_cache) (\<lambda>t. Inr (c, t))
        | _ \<Rightarrow> Inl Uninitialised)
     else if rr_type rr = 28 then
       (case rr_data rr of
          Address6 bs \<Rightarrow>
            bindE (arr_read bs 0 16) (\<lambda>bytes.
            Inr (c\<lparr>ipv6_domain := Some (string_dup (rr_name rr)),
                   ipv6_nodes := ipv6_nodes c @ [bytes]\<rparr>, t))
        | _ \<Rightarrow> Inl Uninitialised)
     else Inr (c, t)))"

definition nothing_collected :: collected where
  "nothing_collected = \<lparr>ipv4_domain = None, ipv4_nodes = [], ipv6_domain = None, ipv6_nodes = []\<rparr>"

definition store_collected :: "int \<Rightarrow> collected \<Rightarrow> server_t \<Rightarrow> server_t res" where
  "store_collected now c s =
     bindE (case ipv4_domain c of
              None \<Rightarrow> Inr (ipv4_table s)
            | Some domain \<Rightarrow> ipv4_cache_put now (ipv4_table s) domain
                \<lparr>v4_node = ipv4_nodes c, v4_ttl = 120, v4_timestamp = now, v4_manual = False\<rparr>) (\<lambda>t4.
     bindE (case ipv6_domain c of
              None \<Rightarrow> Inr (ipv6_table s)
            | Some domain \<Rightarrow> ipv6_cache_put now (ipv6_table s) domain
                \<lparr>v6_node = ipv6_nodes c, v6_ttl = 120, v6_timestamp = now, v6_manual = False\<rparr>) (\<lambda>t6.
     Inr (s\<lparr>ipv4_table := t4, ipv6_table := t6\<rparr>)))"

text \<open>\<open>number\<close> is the size of the datagram in \<open>base\<close>, or an error code.\<close>

definition query_socket_read :: "int \<Rightarrow> int \<Rightarrow> cells \<Rightarrow> server_t \<Rightarrow> server_t res" where
  "query_socket_read now number base s =
     (if number \<le> 0 then Inr s
      else
        bindE (buf2message \<lparr>buf_base = base, buf_len = nat number\<rparr>) (\<lambda>message.
        bindE (message_log message) (\<lambda>_.
        bindE (section_of (answer_count message) (answers message)) (\<lambda>rrs.
        bindE (forE (unat (answer_count message)) 0 (collect_answer now rrs)
                 (nothing_collected, cname_table s)) (\<lambda>(c, t).
        bindE (store_collected now c (s\<lparr>cname_table := t\<rparr>)) (\<lambda>s.
        bindE (send_response s message) (\<lambda>(s, message).
        bindE (message_free message) (\<lambda>_. Inr s))))))))"

section \<open>Building the reply\<close>

definition copy_query :: "query_t list \<Rightarrow> nat \<Rightarrow> query_t list \<Rightarrow> query_t list res" where
  "copy_query qs i dest =
     bindE (arr_get qs i) (\<lambda>q.
     Inr (dest @ [\<lparr>q_name = string_dup (q_name q), q_type = q_type q, q_class = q_class q\<rparr>]))"

text \<open>\<open>dest\<close> is fresh memory: \<open>QR\<close>, \<open>Z\<close> and \<open>RCODE\<close> keep what it holds.\<close>

definition message_copy_header_queries :: "message_t \<Rightarrow> message_t \<Rightarrow> message_t res" where
  "message_copy_header_queries dest src =
     bindE (section_of (query_count src) (queries src)) (\<lambda>qs.
     bindE (forE (unat (query_count src)) 0 (copy_query qs) []) (\<lambda>qs.
     Inr (dest\<lparr>msg_id := msg_id src,
          msg_flags := (msg_flags dest)\<lparr>TC := TC (msg_flags src), AA := AA (msg_flags src),
            RA := RA (msg_flags src), RD := RD (msg_flags src), Opcode := Opcode (msg_flags src)\<rparr>,
          queries := Some qs, query_count := query_count src,
          answers := None, answer_count := 0, authorities := None, authority_count := 0,
          additional := None, additional_count := 0\<rparr>)))"

definition generate_cname_response :: "string_t \<Rightarrow> string_t \<Rightarrow> resource_record_t" where
  "generate_cname_response domain name =
     \<lparr>rr_name = string_dup domain, rr_type = 5, rr_class = 1, rr_ttl = 120,
      rr_length = of_nat (length domain), rr_data = Cname (string_dup name)\<rparr>"

definition generate_ipv4_response :: "string_t \<Rightarrow> u32 \<Rightarrow> resource_record_t" where
  "generate_ipv4_response name address =
     \<lparr>rr_name = string_dup name, rr_type = 1, rr_class = 1, rr_ttl = 120, rr_length = 4,
      rr_data = Address4 address\<rparr>"

definition generate_ipv6_response :: "string_t \<Rightarrow> byte list \<Rightarrow> resource_record_t" where
  "generate_ipv6_response name address =
     \<lparr>rr_name = string_dup name, rr_type = 28, rr_class = 1, rr_ttl = 120, rr_length = 16,
      rr_data = Address6 (take 16 address)\<rparr>"

section \<open>Requests of clients\<close>

text \<open>
  The first pass over the questions: whether all of them can be answered from the caches, whether one
  of them is blocked, and the number of answers. The condition of the block test is an assignment, so
  it also overwrites the \<open>manual\<close> mark of the entry it looks at.
\<close>

record lookup_state =
  cached :: bool
  banned :: bool
  reply_count :: nat
  lookup_table :: ipv4_table_t

definition ban_test :: "string_t \<Rightarrow> ipv4_cache_t \<Rightarrow> lookup_state \<Rightarrow> lookup_state res" where
  "ban_test domain cache st =
     (case v4_node cache of
        [] \<Rightarrow> Inl Null_Deref
      | address # node \<Rightarrow>
          let manual = (address = 0) in
          bindE (hash_table_store (lookup_table st) domain (cache\<lparr>v4_manual := manual\<rparr>)) (\<lambda>t.
          let st = st\<lparr>lookup_table := t\<rparr> in
          if manual then Inr (st\<lparr>banned := True\<rparr>)
          else Inr (st\<lparr>reply_count := reply_count st + length (address # node)\<rparr>)))"

definition lookup_query ::
    "server_t \<Rightarrow> query_t list \<Rightarrow> nat \<Rightarrow> lookup_state \<Rightarrow> lookup_state res" where
  "lookup_query s qs i st =
     (if \<not> cached st then Inr st
      else
        bindE (arr_get qs i) (\<lambda>q.
        let chain = follow_cname (chain_fuel (cname_table s)) (cname_table s) (q_name q) in
        if q_type q = 1 then
          bindE chain (\<lambda>(links, domain).
          let st = st\<lparr>reply_count := reply_count st + length links\<rparr> in
          bindE (ipv4_cache_get (lookup_table st) domain) (\<lambda>cache.
          case cache of
            None \<Rightarrow> Inr (st\<lparr>cached := False\<rparr>)
          | Some c \<Rightarrow> ban_test domain c st))
        else if q_type q = 5 then
          bindE (cname_cache_get (cname_table s) (q_name q)) (\<lambda>cache.
          case cache of
            None \<Rightarrow> Inr (st\<lparr>cached := False\<rparr>)
          | Some _ \<Rightarrow>
              bindE chain (\<lambda>(links, domain). Inr (st\<lparr>reply_count := reply_count st + length links\<rparr>)))
        else if q_type q = 28 then
          bindE chain (\<lambda>(links, domain).
          let st = st\<lparr>reply_count := reply_count st + length links\<rparr> in
          bindE (ipv6_cache_get (ipv6_table s) domain) (\<lambda>cache.
          case cache of
            None \<Rightarrow> Inr (st\<lparr>cached := False\<rparr>)
          | Some c \<Rightarrow> Inr (st\<lparr>reply_count := reply_count st + length (v6_node c)\<rparr>)))
        else Inr st))"

text \<open>The second pass writes the answers into an array with \<open>n\<close> cells.\<close>

fun write_answers ::
    "nat \<Rightarrow> resource_record_t list \<Rightarrow> resource_record_t list \<Rightarrow> resource_record_t list res" where
  "write_answers n [] rrs = Inr rrs"
| "write_answers n (rr # pending) rrs =
     (if length rrs < n then write_answers n pending (rrs @ [rr]) else Inl Out_Of_Bounds)"

definition answer_query ::
    "server_t \<Rightarrow> query_t list \<Rightarrow> nat \<Rightarrow> nat \<Rightarrow> resource_record_t list \<Rightarrow> resource_record_t list res" where
  "answer_query s qs n i rrs =
     bindE (arr_get qs i) (\<lambda>q.
     let chain = follow_cname (chain_fuel (cname_table s)) (cname_table s) (q_name q);
         links_of = map (\<lambda>(domain, name). generate_cname_response domain name) in
     if q_type q = 1 then
       bindE chain (\<lambda>(links, domain).
       bindE (write_answers n (links_of links) rrs) (\<lambda>rrs.
       bindE (ipv4_cache_get (ipv4_table s) domain) (\<lambda>cache.
       case cache of
         None \<Rightarrow> Inr rrs
       | Some c \<Rightarrow> write_answers n (map (generate_ipv4_response domain) (v4_node c)) rrs)))
     else if q_type q = 5 then
       bindE chain (\<lambda>(links, domain). write_answers n (links_of links) rrs)
     else if q_type q = 28 then
       bindE chain (\<lambda>(links, domain).
       bindE (write_answers n (links_of links) rrs) (\<lambda>rrs.
       bindE (ipv6_cache_get (ipv6_table s) domain) (\<lambda>cache.
       case cache of
         None \<Rightarrow> Inr rrs
       | Some c \<Rightarrow> write_answers n (map (generate_ipv6_response domain) (v6_node c)) rrs)))
     else Inr rrs)"

text \<open>The part of the callback after the first pass.\<close>

definition answer_request ::
    "query_t list \<Rightarrow> message_t \<Rightarrow> message_t \<Rightarrow> lookup_state \<Rightarrow> server_t \<Rightarrow> (server_t \<times> message_t) res" where
  "answer_request qs message back st s =
     (if \<not> cached st then send_query s message
      else
        bindE
          (if banned st then Inr (back\<lparr>msg_flags := (msg_flags back)\<lparr>RCODE := 3\<rparr>\<rparr>)
           else
             bindE (forE (unat (query_count message)) 0 (answer_query s qs (reply_count st)) []) (\<lambda>rrs.
             Inr (back\<lparr>answer_count := of_nat (reply_count st), answers := Some rrs\<rparr>))) (\<lambda>back.
        bindE (send_response s back) (\<lambda>(s, _). Inr (s, message))))"

text \<open>\<open>fresh\<close> is the memory \<open>malloc\<close> returns for the reply.\<close>

definition bind_socket_read ::
    "message_t \<Rightarrow> int \<Rightarrow> cells \<Rightarrow> sockaddr_in \<Rightarrow> server_t \<Rightarrow> server_t res" where
  "bind_socket_read fresh number base address s =
     (if number \<le> 0 then Inr s
      else
        bindE (uv_ip4_name address (malloc_cells 17) 16) (\<lambda>_.
        bindE (buf2message \<lparr>buf_base = base, buf_len = nat number\<rparr>) (\<lambda>message.
        bindE (message_log message) (\<lambda>_.
        bindE (message2feature_string message) (\<lambda>feature_vector.
        bindE (hash_table_put (clients_hash_table s) (Some feature_vector) (Some address)) (\<lambda>clients.
        let s = s\<lparr>clients_hash_table := clients\<rparr> in
        bindE (message_copy_header_queries fresh message) (\<lambda>back.
        let back = back\<lparr>msg_flags := (msg_flags back)\<lparr>RCODE := 0, QR := 1, RD := 0\<rparr>\<rparr> in
        bindE (section_of (query_count message) (queries message)) (\<lambda>qs.
        bindE (forE (unat (query_count message)) 0 (lookup_query s qs)
                 \<lparr>cached = True, banned = False, reply_count = 0, lookup_table = ipv4_table s\<rparr>) (\<lambda>st.
        let s = s\<lparr>ipv4_table := lookup_table st\<rparr> in
        bindE (answer_request qs message back st s) (\<lambda>(s, message).
        bindE (message_free message) (\<lambda>_. Inr s)))))))))))"

end
