(* ===== verification/Socket_Correct.thy ===== *)
theory Socket_Correct
  imports Socket
begin

text \<open>
  What the server does with a datagram. The two passes over the questions agree, so the array of
  answers is filled exactly; \<open>answer_of\<close> says what the caches know about a question, and for a request
  with one question the request callback sends the reply or the query the specification asks for, as
  exact bytes. The reply from upstream goes to the client that is filed under its question and id.
\<close>

section \<open>Invariant\<close>

definition v4_filled :: "ipv4_table_t \<Rightarrow> bool" where
  "v4_filled t \<longleftrightarrow> (\<forall>k c. ht_lookup t k = Some c \<longrightarrow> v4_node c \<noteq> [])"

definition srv_inv :: "server_t \<Rightarrow> bool" where
  "srv_inv s \<longleftrightarrow> ht_inv (ipv4_table s) \<and> ht_inv (ipv6_table s) \<and> ht_inv (cname_table s) \<and>
     ht_inv (clients_hash_table s) \<and> v4_filled (ipv4_table s)"

definition srv_room :: "server_t \<Rightarrow> bool" where
  "srv_room s \<longleftrightarrow> ht_room (ipv4_table s) \<and> ht_room (ipv6_table s) \<and> ht_room (cname_table s) \<and>
     ht_room (clients_hash_table s)"

text \<open>Two tables of addresses that differ in \<open>manual\<close> marks at most.\<close>

definition same_nodes :: "ipv4_table_t \<Rightarrow> ipv4_table_t \<Rightarrow> bool" where
  "same_nodes t t' \<longleftrightarrow>
     (\<forall>k. map_option v4_node (ht_lookup t k) = map_option v4_node (ht_lookup t' k))"

lemma same_nodes_refl [simp]: "same_nodes t t"
  by (simp add: same_nodes_def)

lemma same_nodes_filled: "same_nodes t t' \<Longrightarrow> v4_filled t' \<Longrightarrow> v4_filled t"
  unfolding same_nodes_def v4_filled_def by (metis map_option_eq_Some)

section \<open>The block test\<close>

lemma ban_test_correct:
  assumes inv: "ht_inv (lookup_table st)" and c: "ht_lookup (lookup_table st) d = Some c"
    and n: "v4_node c \<noteq> []"
  shows "\<exists>t. ban_test d c st = Inr (if hd (v4_node c) = 0 then st\<lparr>lookup_table := t, banned := True\<rparr>
        else st\<lparr>lookup_table := t, reply_count := reply_count st + length (v4_node c)\<rparr>) \<and>
     ht_inv t \<and> (ht_room (lookup_table st) \<longrightarrow> ht_room t) \<and> 
     ht_lookup t = (ht_lookup (lookup_table st))(d \<mapsto> c\<lparr>v4_manual := (hd (v4_node c) = 0)\<rparr>) \<and>
     same_nodes t (lookup_table st)"
proof -
  obtain a as where a: "v4_node c = a # as" using n by (cases "v4_node c") auto
  have "ht_lookup (lookup_table st) d \<noteq> None" using c by simp
  from store_correct [OF inv this, of "c\<lparr>v4_manual := (a = 0)\<rparr>"] obtain t where
    t: "hash_table_store (lookup_table st) d (c\<lparr>v4_manual := (a = 0)\<rparr>) = Inr t" "ht_inv t"
      "ht_room (lookup_table st) \<longrightarrow> ht_room t"
      "ht_lookup t = (ht_lookup (lookup_table st))(d \<mapsto> c\<lparr>v4_manual := (a = 0)\<rparr>)" by blast
  then have "same_nodes t (lookup_table st)" using c by (auto simp: same_nodes_def)
  with t a show ?thesis by (intro exI [of _ t]) (simp add: ban_test_def Let_def)
qed

section \<open>The two passes\<close>

definition chain_of :: "server_t \<Rightarrow> string_t \<Rightarrow> ((string_t \<times> string_t) list \<times> string_t) res" where
  "chain_of s name = follow_cname (chain_fuel (cname_table s)) (cname_table s) name"

definition cname_records :: "(string_t \<times> string_t) list \<Rightarrow> resource_record_t list" where
  "cname_records links = map (\<lambda>(domain, name). generate_cname_response domain name) links"

text \<open>The records the second pass writes for a question.\<close>

definition query_records :: "server_t \<Rightarrow> query_t \<Rightarrow> resource_record_t list res" where
  "query_records s q =
     (if q_type q \<in> {1, 5, 28} then
        bindE (chain_of s (q_name q)) (\<lambda>(links, domain).
        Inr (cname_records links @
          (if q_type q = 1 then
             (case ht_lookup (ipv4_table s) domain of None \<Rightarrow> []
              | Some c \<Rightarrow> map (generate_ipv4_response domain) (v4_node c))
           else if q_type q = 28 then
             (case ht_lookup (ipv6_table s) domain of None \<Rightarrow> []
              | Some c \<Rightarrow> map (generate_ipv6_response domain) (v6_node c))
           else [])))
      else Inr [])"

lemma write_answers_eq:
  "write_answers n rrs out = (if length out + length rrs \<le> n \<or> rrs = [] then Inr (out @ rrs) else Inl Out_Of_Bounds)"
  by (induction rrs arbitrary: out) auto

lemma write_answers_Nil [simp]: "write_answers n [] = Inr"
  by (rule ext) simp

lemma write_answers_append:
  "bindE (write_answers n xs out) (write_answers n ys) = write_answers n (xs @ ys) out"
  by (auto simp: write_answers_eq)

lemma answer_query_eq:
  assumes "srv_inv s" "i < length qs"
  shows "answer_query s qs n i out = bindE (query_records s (qs ! i)) (\<lambda>rrs. write_answers n rrs out)"
proof -
  have g: "ipv4_cache_get (ipv4_table s) d = Inr (ht_lookup (ipv4_table s) d)"
    "ipv6_cache_get (ipv6_table s) d = Inr (ht_lookup (ipv6_table s) d)" for d
    using assms(1) by (simp_all add: srv_inv_def v4.get_law v6.get_law)
  show ?thesis
    using assms(2)
    by (cases "chain_of s (q_name (qs ! i))")
      (auto simp: answer_query_def query_records_def arr_simps Let_def chain_of_def [symmetric] g
        cname_records_def [symmetric] write_answers_append [symmetric] split: option.splits)
qed

text \<open>What the first pass leaves for one question, from a state in which all was cached so far.\<close>

definition counted :: "server_t \<Rightarrow> query_t \<Rightarrow> lookup_state \<Rightarrow> lookup_state \<Rightarrow> bool" where
  "counted s q st st' \<longleftrightarrow> ht_inv (lookup_table st') \<and> same_nodes (lookup_table st') (lookup_table st) \<and>
     (banned st \<longrightarrow> banned st') \<and>
     (cached st' \<and> \<not> banned st' \<longrightarrow>
        (\<exists>rrs. query_records s q = Inr rrs \<and> reply_count st' = reply_count st + length rrs))"

lemma lookup_query_counted:
  assumes inv: "srv_inv s" and i: "i < length qs" and c: "cached st"
    and t: "ht_inv (lookup_table st)" "same_nodes (lookup_table st) (ipv4_table s)"
    and run: "lookup_query s qs i st = Inr st'"
  shows "counted s (qs ! i) st st'"
proof -
  let ?q = "qs ! i"
  have g: "ipv4_cache_get (lookup_table st) d = Inr (ht_lookup (lookup_table st) d)"
    "ipv6_cache_get (ipv6_table s) d = Inr (ht_lookup (ipv6_table s) d)"
    "cname_cache_get (cname_table s) d = Inr (ht_lookup (cname_table s) d)" for d
    using inv t(1) by (simp_all add: srv_inv_def v4.get_law v6.get_law cn.get_law)
  have fill: "v4_filled (lookup_table st)"
    by (rule same_nodes_filled [OF t(2)]) (use inv in \<open>simp add: srv_inv_def\<close>)
  consider (a) "q_type ?q = 1" | (cn) "q_type ?q = 5" | (aaaa) "q_type ?q = 28"
    | (other) "q_type ?q \<notin> {1, 5, 28}" by blast
  then show ?thesis
  proof cases
    case a
    with run c i obtain links d where ch: "chain_of s (q_name ?q) = Inr (links, d)"
      by (auto simp: lookup_query_def arr_simps chain_of_def [symmetric] Let_def bindE_eq_Inr_iff)
    show ?thesis
    proof (cases "ht_lookup (lookup_table st) d")
      case None
      with run a c i ch t(1) show ?thesis
        by (auto simp: lookup_query_def arr_simps chain_of_def [symmetric] Let_def g counted_def)
    next
      case (Some e)
      let ?st = "st\<lparr>reply_count := reply_count st + length links\<rparr>"
      from run a c i ch Some have ban: "ban_test d e ?st = Inr st'"
        by (simp add: lookup_query_def arr_simps chain_of_def [symmetric] Let_def g)
      have "v4_node e \<noteq> []" using fill Some by (auto simp: v4_filled_def)
      moreover obtain e0 where "ht_lookup (ipv4_table s) d = Some e0" "v4_node e0 = v4_node e"
        using t(2) Some unfolding same_nodes_def by (metis map_option_eq_Some)
      ultimately show ?thesis
        using ban_test_correct [of ?st d e] ban Some t(1) a ch
        by (auto simp: counted_def query_records_def cname_records_def split: if_splits)
    qed
  next
    case cn
    with run c i t(1) show ?thesis
      by (auto simp: lookup_query_def arr_simps chain_of_def [symmetric] Let_def g counted_def query_records_def
          cname_records_def bindE_eq_Inr_iff split: option.splits)
  next
    case aaaa
    with run c i obtain links d where "chain_of s (q_name ?q) = Inr (links, d)"
      by (auto simp: lookup_query_def arr_simps chain_of_def [symmetric] Let_def bindE_eq_Inr_iff)
    with run aaaa c i t(1) show ?thesis
      by (cases "ht_lookup (ipv6_table s) d")
        (auto simp: lookup_query_def arr_simps chain_of_def [symmetric] Let_def g counted_def
          query_records_def cname_records_def)
  next
    case other
    with run c i t(1) show ?thesis
      by (auto simp: lookup_query_def arr_simps Let_def counted_def query_records_def)
  qed
qed

definition first_pass :: "server_t \<Rightarrow> query_t list \<Rightarrow> lookup_state res" where
  "first_pass s qs = forE (length qs) 0 (lookup_query s qs)
     \<lparr>cached = True, banned = False, reply_count = 0, lookup_table = ipv4_table s\<rparr>"

definition second_pass :: "server_t \<Rightarrow> query_t list \<Rightarrow> nat \<Rightarrow> resource_record_t list res" where
  "second_pass s qs n = forE (length qs) 0 (answer_query s qs n) []"

lemma first_pass_counts:
  assumes inv: "srv_inv s" and run: "first_pass s qs = Inr st"
  shows "ht_inv (lookup_table st) \<and> same_nodes (lookup_table st) (ipv4_table s) \<and>
     (cached st \<and> \<not> banned st \<longrightarrow>
        (\<exists>rrs. length rrs = length qs \<and> (\<forall>j < length qs. query_records s (qs ! j) = Inr (rrs ! j)) \<and>
           reply_count st = length (concat rrs)))"
proof -
  let ?I = "\<lambda>i st. ht_inv (lookup_table st) \<and> same_nodes (lookup_table st) (ipv4_table s) \<and>
     (cached st \<and> \<not> banned st \<longrightarrow>
        (\<exists>rrs. length rrs = i \<and> (\<forall>j < i. query_records s (qs ! j) = Inr (rrs ! j)) \<and>
           reply_count st = length (concat rrs)))"
  have "?I (0 + length qs) st"
  proof (rule forE_inv [OF run [unfolded first_pass_def], where I = ?I])
    fix k and t t' :: lookup_state
    assume k: "k < 0 + length qs" and I: "?I k t" and step: "lookup_query s qs k t = Inr t'"
    show "?I (Suc k) t'"
    proof (cases "cached t")
      case False
      with step I show ?thesis by (auto simp: lookup_query_def)
    next
      case True
      with lookup_query_counted [OF inv _ True _ _ step] k I have c: "counted s (qs ! k) t t'" by simp
      then have "same_nodes (lookup_table t') (ipv4_table s)"
        using I by (auto simp: counted_def same_nodes_def)
      moreover have "\<exists>rrs. length rrs = Suc k \<and> (\<forall>j < Suc k. query_records s (qs ! j) = Inr (rrs ! j)) \<and>
           reply_count t' = length (concat rrs)" if ok: "cached t'" "\<not> banned t'"
      proof -
        from c ok True I obtain rrs new where "length rrs = k" "\<forall>j < k. query_records s (qs ! j) = Inr (rrs ! j)"
          "reply_count t = length (concat rrs)" "query_records s (qs ! k) = Inr new"
          "reply_count t' = reply_count t + length new" by (auto simp: counted_def)
        then show ?thesis by (intro exI [of _ "rrs @ [new]"]) (auto simp: nth_append less_Suc_eq)
      qed
      ultimately show ?thesis using c by (auto simp: counted_def)
    qed
  qed (use inv in \<open>simp add: srv_inv_def\<close>)
  then show ?thesis by simp
qed

text \<open>The marks the first pass sets do not matter to the second.\<close>

lemma query_records_same:
  "same_nodes t (ipv4_table s) \<Longrightarrow> query_records (s\<lparr>ipv4_table := t\<rparr>) q = query_records s q"
proof -
  assume sn: "same_nodes t (ipv4_table s)"
  have "(case ht_lookup t d of None \<Rightarrow> [] | Some c \<Rightarrow> map (generate_ipv4_response d) (v4_node c)) =
      (case ht_lookup (ipv4_table s) d of None \<Rightarrow> [] | Some c \<Rightarrow> map (generate_ipv4_response d) (v4_node c))" for d
    using sn [unfolded same_nodes_def, THEN spec [of _ d]] by (auto split: option.splits)
  then show ?thesis by (simp add: query_records_def chain_of_def)
qed

lemma second_pass_fits:
  assumes inv: "srv_inv s" and run: "first_pass s qs = Inr st" and ok: "cached st" "\<not> banned st"
  shows "\<exists>rrs. second_pass (s\<lparr>ipv4_table := lookup_table st\<rparr>) qs (reply_count st) = Inr (concat rrs) \<and>
     length rrs = length qs \<and> (\<forall>j < length qs. query_records s (qs ! j) = Inr (rrs ! j)) \<and>
     reply_count st = length (concat rrs)"
proof -
  from first_pass_counts [OF inv run] ok obtain rrs where
    t: "ht_inv (lookup_table st)" "same_nodes (lookup_table st) (ipv4_table s)" and
    rrs: "length rrs = length qs" "\<forall>j < length qs. query_records s (qs ! j) = Inr (rrs ! j)"
      "reply_count st = length (concat rrs)" by blast
  let ?s = "s\<lparr>ipv4_table := lookup_table st\<rparr>"
  have inv': "srv_inv ?s"
    using inv t same_nodes_filled [OF t(2)] by (simp add: srv_inv_def)
  let ?I = "\<lambda>i out. out = concat (take i rrs)"
  have "answer_query ?s qs (reply_count st) i (concat (take i rrs)) = Inr (concat (take (Suc i) rrs))"
    if i: "i < length qs" for i
  proof -
    have suc: "concat (take (Suc i) rrs) = concat (take i rrs) @ rrs ! i"
      using i rrs(1) by (simp add: take_Suc_conv_app_nth)
    have "concat rrs = concat (take (Suc i) rrs) @ concat (drop (Suc i) rrs)"
      by (metis append_take_drop_id concat_append)
    then have "length (concat (take (Suc i) rrs)) \<le> reply_count st" unfolding rrs(3)
      by (metis le_add1 length_append)
    with suc rrs(2) i show ?thesis
      by (simp add: answer_query_eq [OF inv'] query_records_same [OF t(2)] write_answers_eq)
  qed
  then have "\<exists>out. forE (length qs) 0 (answer_query ?s qs (reply_count st)) [] = Inr out \<and>
      ?I (0 + length qs) out"
    by (intro forE_rule [where I = ?I]) auto
  then have "second_pass ?s qs (reply_count st) = Inr (concat rrs)"
    using rrs(1) by (auto simp: second_pass_def)
  with rrs show ?thesis by blast
qed

section \<open>What the caches know about a question\<close>

datatype lookup_result = Miss | Blocked | Hit "resource_record_t list"

definition answer_of :: "server_t \<Rightarrow> query_t \<Rightarrow> lookup_result res" where
  "answer_of s q =
     (let hit = bindE (query_records s q) (\<lambda>rrs. Inr (Hit rrs)) in
      if q_type q = 1 then
        bindE (chain_of s (q_name q)) (\<lambda>(links, domain).
        case ht_lookup (ipv4_table s) domain of
          None \<Rightarrow> Inr Miss
        | Some c \<Rightarrow> if hd (v4_node c) = 0 then Inr Blocked else hit)
      else if q_type q = 5 then
        (if ht_lookup (cname_table s) (q_name q) = None then Inr Miss else hit)
      else if q_type q = 28 then
        bindE (chain_of s (q_name q)) (\<lambda>(links, domain).
        if ht_lookup (ipv6_table s) domain = None then Inr Miss else hit)
      else Inr (Hit []))"

definition pass_result :: "lookup_result \<Rightarrow> lookup_state \<Rightarrow> bool" where
  "pass_result r st = (case r of
     Miss \<Rightarrow> \<not> cached st
   | Blocked \<Rightarrow> cached st \<and> banned st
   | Hit rrs \<Rightarrow> cached st \<and> \<not> banned st)"

lemma first_pass_single:
  assumes inv: "srv_inv s" and r: "answer_of s q = Inr r"
  shows "\<exists>st. first_pass s [q] = Inr st \<and> pass_result r st \<and>
     (ht_room (ipv4_table s) \<longrightarrow> ht_room (lookup_table st))"
proof -
  let ?st = "\<lparr>cached = True, banned = False, reply_count = 0, lookup_table = ipv4_table s\<rparr>"
  have g: "ipv4_cache_get (ipv4_table s) d = Inr (ht_lookup (ipv4_table s) d)"
    "ipv6_cache_get (ipv6_table s) d = Inr (ht_lookup (ipv6_table s) d)"
    "cname_cache_get (cname_table s) d = Inr (ht_lookup (cname_table s) d)" for d
    using inv by (simp_all add: srv_inv_def v4.get_law v6.get_law cn.get_law)
  have step: "first_pass s [q] = lookup_query s [q] 0 ?st"
    by (simp add: first_pass_def forE_one)
  consider (a) "q_type q = 1" | (cn) "q_type q = 5" | (aaaa) "q_type q = 28"
    | (other) "q_type q \<notin> {1, 5, 28}" by blast
  then show ?thesis
  proof cases
    case a
    with r obtain links d where ch: "chain_of s (q_name q) = Inr (links, d)"
      by (auto simp: answer_of_def bindE_eq_Inr_iff)
    show ?thesis
    proof (cases "ht_lookup (ipv4_table s) d")
      case None
      with r a ch show ?thesis
        by (auto simp: step lookup_query_def arr_get_def chain_of_def [symmetric] Let_def g answer_of_def
            pass_result_def)
    next
      case (Some c)
      let ?st' = "?st\<lparr>reply_count := length links\<rparr>"
      have "v4_node c \<noteq> []" using inv Some by (auto simp: srv_inv_def v4_filled_def)
      with ban_test_correct [of ?st' d c] Some inv obtain t where
        "ban_test d c ?st' = Inr (if hd (v4_node c) = 0 then ?st'\<lparr>lookup_table := t, banned := True\<rparr>
          else ?st'\<lparr>lookup_table := t, reply_count := length links + length (v4_node c)\<rparr>)"
        "ht_room (ipv4_table s) \<longrightarrow> ht_room t"
        by (auto simp: srv_inv_def)
      with r a ch Some show ?thesis
        by (auto simp: step lookup_query_def arr_get_def chain_of_def [symmetric] Let_def g answer_of_def
            pass_result_def bindE_eq_Inr_iff split: if_splits)
    qed
  next
    case cn
    with r show ?thesis
      by (auto simp: step lookup_query_def arr_get_def chain_of_def [symmetric] Let_def g answer_of_def
          pass_result_def bindE_eq_Inr_iff query_records_def split: if_splits)
  next
    case aaaa
    with r show ?thesis
      by (auto simp: step lookup_query_def arr_get_def chain_of_def [symmetric] Let_def g answer_of_def
          pass_result_def bindE_eq_Inr_iff query_records_def split: if_splits)
  next
    case other
    with r show ?thesis
      by (auto simp: step lookup_query_def arr_get_def Let_def answer_of_def pass_result_def)
  qed
qed

lemma answer_of_hit_records:
  "answer_of s q = Inr (Hit rrs) \<Longrightarrow> query_records s q = Inr rrs"
proof (cases "q_type q \<in> {1, 5, 28}")
  case True
  then show "answer_of s q = Inr (Hit rrs) \<Longrightarrow> query_records s q = Inr rrs"
    by (auto simp: answer_of_def Let_def bindE_eq_Inr_iff split: if_splits option.splits)
qed (simp add: answer_of_def query_records_def)

section \<open>Replies\<close>

definition reply_to :: "message_t \<Rightarrow> byte \<Rightarrow> resource_record_t list option \<Rightarrow> message_t" where
  "reply_to m rcode rrs =
     \<lparr>msg_id = msg_id m,
      msg_flags = \<lparr>QR = 1, Opcode = Opcode (msg_flags m), AA = AA (msg_flags m), TC = TC (msg_flags m),
        RD = 0, RA = RA (msg_flags m), Z = 0, RCODE = rcode\<rparr>,
      query_count = query_count m,
      answer_count = (case rrs of None \<Rightarrow> 0 | Some r \<Rightarrow> of_nat (length r)),
      authority_count = 0, additional_count = 0, queries = queries m, answers = rrs,
      authorities = None, additional = None\<rparr>"

definition wire_packet :: "message_t \<Rightarrow> uv_buf_t" where
  "wire_packet m = \<lparr>buf_base = filled 1500 (wire_message m), buf_len = length (wire_message m)\<rparr>"

lemma copy_header_correct:
  assumes "queries m = Some qs" "unat (query_count m) = length qs"
  shows "\<exists>reply. message_copy_header_queries fresh m = Inr reply \<and>
     queries reply = Some qs \<and> query_count reply = query_count m \<and>
     (\<forall>rrs. prepare_message (reply\<lparr>msg_flags := (msg_flags reply)\<lparr>RCODE := 0, QR := 1, RD := 0\<rparr>,
          answer_count := of_nat (length rrs), answers := Some rrs\<rparr>) = reply_to m 0 (Some rrs)) \<and>
     prepare_message (reply\<lparr>msg_flags := (msg_flags reply)\<lparr>QR := 1, RD := 0, RCODE := 3\<rparr>\<rparr>) = reply_to m 3 None"
proof -
  let ?I = "\<lambda>i out. out = take i qs"
  have "\<exists>out. forE (length qs) 0 (copy_query qs) [] = Inr out \<and> ?I (0 + length qs) out"
    by (rule forE_rule [where I = ?I])
      (auto simp: copy_query_def arr_simps take_Suc_conv_app_nth)
  moreover have "section_of (query_count m) (queries m) = Inr qs"
    using assms by (cases qs) (auto simp: section_of_def)
  ultimately show ?thesis
    using assms by (simp add: message_copy_header_queries_def prepare_message_def reply_to_def)
qed

lemma send_response_correct:
  assumes cl: "ht_inv (clients_hash_table s)" and q: "queries m = Some qs" "unat (query_count m) = length qs"
    and a: "ht_lookup (clients_hash_table s) (feature_of m) = Some address"
    and rem: "ht_removable (clients_hash_table s) (feature_of m)"
    and enc: "encodable (prepare_message m)"
  shows "\<exists>t. send_response s m = Inr (s\<lparr>bind_data := Some (wire_packet (prepare_message m)),
        sent := sent s @ [\<lparr>pk_socket = Bind_Socket, pk_buf = wire_packet (prepare_message m),
                          pk_to = address\<rparr>],
        clients_hash_table := t\<rparr>, prepare_message m) \<and>
     ht_inv t \<and> (ht_room (clients_hash_table s) \<longrightarrow> ht_room t) \<and>
     ht_lookup t = (ht_lookup (clients_hash_table s))(feature_of m := None)"
proof -
  from ht.remove_law [OF cl rem] obtain t where t: "hash_table_remove (clients_hash_table s) (feature_of m) = Inr t"
    "ht_inv t" "ht_room (clients_hash_table s) \<longrightarrow> ht_room t"
    "ht_lookup t = (ht_lookup (clients_hash_table s))(feature_of m := None)" by blast
  then show ?thesis
    by (intro exI [of _ t])
      (simp add: send_response_def message2feature_string_correct [OF q] ht.get_law [OF cl] a Let_def
        message2buf_correct [OF enc] wire_packet_def)
qed

lemma send_response_unknown:
  assumes "ht_inv (clients_hash_table s)" "queries m = Some qs" "unat (query_count m) = length qs"
    "ht_lookup (clients_hash_table s) (feature_of m) = None"
  shows "send_response s m = Inr (s, m)"
  by (simp add: send_response_def message2feature_string_correct [OF assms(2,3)] ht.get_law [OF assms(1)] assms(4))

section \<open>Requests with one question\<close>

lemma rr_sound_typed: "rr_sound rr \<Longrightarrow> rr_typed rr"
  by (cases "rr_data rr") (auto simp: rr_sound_def rr_typed_def)

lemma message_sound_ok: "message_sound m \<Longrightarrow> message_ok m"
  by (auto simp: message_sound_def message_ok_def list_all_iff rr_sound_typed split: if_splits)

lemma message_ok_prepare: "message_ok (prepare_message m) = message_ok m"
  by (simp add: message_ok_def prepare_message_def)

lemma uv_ip4_name_runs: "\<exists>r. uv_ip4_name a (malloc_cells 17) 16 = Inr r"
  using uv_ip4_name_ok [of "malloc_cells 17" a] by (auto simp: malloc_cells_def)

text \<open>A datagram \<open>base\<close> of \<open>number\<close> bytes that is the request \<open>m\<close> with the one question \<open>q\<close>.\<close>

definition request :: "message_t \<Rightarrow> query_t \<Rightarrow> int \<Rightarrow> cells \<Rightarrow> bool" where
  "request m q number base \<longleftrightarrow> message_sound m \<and> queries m = Some [q] \<and> query_count m = 1 \<and>
     length (wire_message m) \<le> 1500 \<and> has_at base 0 (wire_message m) \<and> 12 < number"

definition filed :: "server_t \<Rightarrow> message_t \<Rightarrow> sockaddr_in \<Rightarrow> sockaddr_in hash_table_t \<Rightarrow> bool" where
  "filed s m address t \<longleftrightarrow> hash_table_put (clients_hash_table s) (Some (feature_of m)) (Some address) = Inr t"

lemma bind_socket_read_front:
  assumes req: "request m q number base" and filed: "filed s m address t"
  shows "\<exists>reply. bind_socket_read fresh number base address s =
      bindE (first_pass (s\<lparr>clients_hash_table := t\<rparr>) [q]) (\<lambda>st.
      bindE (answer_request [q] m reply st (s\<lparr>clients_hash_table := t, ipv4_table := lookup_table st\<rparr>))
        (\<lambda>(s, message). bindE (message_free message) (\<lambda>_. Inr s))) \<and>
     queries reply = Some [q] \<and> query_count reply = query_count m \<and>
     (\<forall>rrs. prepare_message (reply\<lparr>answer_count := of_nat (length rrs), answers := Some rrs\<rparr>) =
        reply_to m 0 (Some rrs)) \<and>
     prepare_message (reply\<lparr>msg_flags := (msg_flags reply)\<lparr>RCODE := 3\<rparr>\<rparr>) = reply_to m 3 None \<and>
     msg_id reply = msg_id m"
proof -
  from req have m: "message_sound m" "queries m = Some [q]" "query_count m = 1" and at: "has_at base 0 (wire_message m)"
    and n: "12 < number" by (simp_all add: request_def)
  have dec: "buf2message \<lparr>buf_base = base, buf_len = nat number\<rparr> = Inr m"
    by (rule buf2message_wire [OF m(1)]) (use at n in simp_all)
  obtain out where log: "message_log m = Inr out"
    using message_log_ok [OF message_sound_ok [OF m(1)]] by blast
  obtain r where name: "uv_ip4_name address (malloc_cells 17) 16 = Inr r"
    using uv_ip4_name_runs by blast
  have feat: "message2feature_string m = Inr (feature_of m)"
    by (rule message2feature_string_correct [OF m(2)]) (simp add: m(3))
  from copy_header_correct [OF m(2), of fresh] m(3) obtain reply where
    reply: "message_copy_header_queries fresh m = Inr reply"
      "queries reply = Some [q]" "query_count reply = query_count m"
      "\<forall>rrs. prepare_message (reply\<lparr>msg_flags := (msg_flags reply)\<lparr>RCODE := 0, QR := 1, RD := 0\<rparr>,
          answer_count := of_nat (length rrs), answers := Some rrs\<rparr>) = reply_to m 0 (Some rrs)"
      "prepare_message (reply\<lparr>msg_flags := (msg_flags reply)\<lparr>QR := 1, RD := 0, RCODE := 3\<rparr>\<rparr>) = reply_to m 3 None"
    by auto
  have id: "msg_id reply = msg_id m"
    using arg_cong [OF reply(5), of msg_id] by (simp add: prepare_message_def reply_to_def)
  let ?reply = "reply\<lparr>msg_flags := (msg_flags reply)\<lparr>RCODE := 0, QR := 1, RD := 0\<rparr>\<rparr>"
  have "section_of (query_count m) (queries m) = Inr [q]" using m by (simp add: section_of_def)
  then have "bind_socket_read fresh number base address s =
      bindE (first_pass (s\<lparr>clients_hash_table := t\<rparr>) [q]) (\<lambda>st.
      bindE (answer_request [q] m ?reply st (s\<lparr>clients_hash_table := t, ipv4_table := lookup_table st\<rparr>))
        (\<lambda>(s, message). bindE (message_free message) (\<lambda>_. Inr s)))"
    using n filed m(3)
    by (simp add: bind_socket_read_def name dec log feat filed_def reply(1) Let_def first_pass_def forE_one
        del: forE.simps)
  with reply id m(2) show ?thesis
    by (intro exI [of _ ?reply]) simp
qed


text \<open>What is sent for the result of the lookup, and whether the message fits the encoder.\<close>

definition outcome :: "server_t \<Rightarrow> message_t \<Rightarrow> sockaddr_in \<Rightarrow> lookup_result \<Rightarrow> packet" where
  "outcome s m address r = (case r of
     Miss \<Rightarrow> \<lparr>pk_socket = Query_Socket, pk_buf = wire_packet (prepare_message m), pk_to = dns_address s\<rparr>
   | Blocked \<Rightarrow> \<lparr>pk_socket = Bind_Socket, pk_buf = wire_packet (reply_to m 3 None), pk_to = address\<rparr>
   | Hit rrs \<Rightarrow> \<lparr>pk_socket = Bind_Socket, pk_buf = wire_packet (reply_to m 0 (Some rrs)), pk_to = address\<rparr>)"

definition outcome_fits :: "message_t \<Rightarrow> lookup_result \<Rightarrow> bool" where
  "outcome_fits m r = (case r of
     Miss \<Rightarrow> True
   | Blocked \<Rightarrow> encodable (reply_to m 3 None)
   | Hit rrs \<Rightarrow> encodable (reply_to m 0 (Some rrs)))"

lemma prepare_encodable:
  assumes "request m q number base"
  shows "encodable (prepare_message m)"
proof -
  from assms have m: "message_sound m" "query_count m = 1" "length (wire_message m) \<le> 1500"
    by (simp_all add: request_def)
  have "length (wire_message (prepare_message m)) = length (wire_message m)"
    by (simp add: wire_message_def prepare_message_def)
  with message_sound_encodable [OF m] show ?thesis
    by (simp add: encodable_def prepare_message_def flags_ok_def)
qed

lemma feature_of_reply:
  "queries r = queries m \<Longrightarrow> msg_id r = msg_id m \<Longrightarrow> feature_of r = feature_of m"
  by (simp add: feature_of_def)

lemma bind_socket_read_correct:
  assumes inv: "srv_inv s" and room: "ht_room (clients_hash_table s)"
    and req: "request m q number base" and filed: "filed s m address t"
    and rem: "r = Miss \<or> ht_removable t (feature_of m)"
    and ans: "answer_of s q = Inr r" and fits: "outcome_fits m r"
  shows "\<exists>s'. bind_socket_read fresh number base address s = Inr s' \<and> srv_inv s' \<and>
     sent s' = sent s @ [outcome s m address r] \<and>
     ht_lookup (clients_hash_table s') =
       (ht_lookup (clients_hash_table s))(feature_of m := if r = Miss then Some address else None) \<and>
     same_nodes (ipv4_table s') (ipv4_table s) \<and> ipv6_table s' = ipv6_table s \<and>
     cname_table s' = cname_table s \<and> dns_address s' = dns_address s \<and>
     (ht_room (ipv4_table s) \<longrightarrow> ht_room (ipv4_table s')) \<and> (r = Miss \<longrightarrow> clients_hash_table s' = t)"
proof -
  let ?s = "s\<lparr>clients_hash_table := t\<rparr>"
  from put_correct [of "clients_hash_table s" "feature_of m" address] inv room filed
  have t: "ht_inv t" "ht_lookup t = (ht_lookup (clients_hash_table s))(feature_of m \<mapsto> address)"
    by (auto simp: filed_def srv_inv_def)
  have inv': "srv_inv ?s" using inv t(1) by (simp add: srv_inv_def)
  have "answer_of ?s q = answer_of s q"
    by (simp add: answer_of_def query_records_def chain_of_def)
  with first_pass_single [OF inv', of q r] ans obtain st where
    st: "first_pass ?s [q] = Inr st" "pass_result r st"
      "ht_room (ipv4_table s) \<longrightarrow> ht_room (lookup_table st)" by auto
  from first_pass_counts [OF inv' st(1)]
  have tab: "ht_inv (lookup_table st)" "same_nodes (lookup_table st) (ipv4_table s)" by simp_all
  have fill: "v4_filled (lookup_table st)"
    by (rule same_nodes_filled [OF tab(2)]) (use inv in \<open>simp add: srv_inv_def\<close>)
  from bind_socket_read_front [OF req filed, of fresh] obtain reply where
    run: "bind_socket_read fresh number base address s =
      bindE (first_pass ?s [q]) (\<lambda>st.
      bindE (answer_request [q] m reply st (s\<lparr>clients_hash_table := t, ipv4_table := lookup_table st\<rparr>))
        (\<lambda>(s, message). bindE (message_free message) (\<lambda>_. Inr s)))" and
    reply: "queries reply = Some [q]" "query_count reply = query_count m" "msg_id reply = msg_id m"
      "\<forall>rrs. prepare_message (reply\<lparr>answer_count := of_nat (length rrs), answers := Some rrs\<rparr>) =
        reply_to m 0 (Some rrs)"
      "prepare_message (reply\<lparr>msg_flags := (msg_flags reply)\<lparr>RCODE := 3\<rparr>\<rparr>) = reply_to m 3 None" by blast
  from req have m: "message_sound m" "queries m = Some [q]" "query_count m = 1"
    by (simp_all add: request_def)
  have ok: "message_ok m" "message_ok (prepare_message m)"
    using message_sound_ok [OF m(1)] by (simp_all add: message_ok_prepare)
  then obtain o1 o2 where free: "message_free m = Inr o1" "message_free (prepare_message m) = Inr o2"
    using message_log_ok message_free_ok by metis
  let ?s' = "s\<lparr>clients_hash_table := t, ipv4_table := lookup_table st\<rparr>"
  have send: "\<exists>c. send_response ?s' r' = Inr (?s'\<lparr>bind_data := Some (wire_packet (prepare_message r')),
        sent := sent s @ [\<lparr>pk_socket = Bind_Socket, pk_buf = wire_packet (prepare_message r'), pk_to = address\<rparr>],
        clients_hash_table := c\<rparr>, prepare_message r') \<and> ht_inv c \<and>
      ht_lookup c = (ht_lookup (clients_hash_table s))(feature_of m := None)"
    if "r \<noteq> Miss" "queries r' = Some [q]" "query_count r' = query_count m" "msg_id r' = msg_id m"
      "encodable (prepare_message r')" for r'
  proof -
    have f: "feature_of r' = feature_of m" using that m by (intro feature_of_reply) simp_all
    from send_response_correct [of ?s' r' "[q]" address] that t m(3) rem show ?thesis
      by (auto simp: f)
  qed
  show ?thesis
  proof (cases r)
    case Miss
    then have "answer_request [q] m reply st ?s' =
        Inr (?s'\<lparr>query_data := Some (wire_packet (prepare_message m)), sent := sent s @ [outcome s m address Miss]\<rparr>,
             prepare_message m)"
      using st(2) message2buf_correct [OF prepare_encodable [OF req]]
      by (simp add: answer_request_def pass_result_def send_query_def Let_def outcome_def wire_packet_def)
    with run st(1,3) free Miss t inv tab fill show ?thesis
      by (simp add: srv_inv_def)
  next
    case Blocked
    let ?r = "reply\<lparr>msg_flags := (msg_flags reply)\<lparr>RCODE := 3\<rparr>\<rparr>"
    from send [of ?r] Blocked reply fits m obtain c where
      c: "send_response ?s' ?r = Inr (?s'\<lparr>bind_data := Some (wire_packet (reply_to m 3 None)),
          sent := sent s @ [outcome s m address Blocked], clients_hash_table := c\<rparr>, reply_to m 3 None)"
        "ht_inv c" "ht_lookup c = (ht_lookup (clients_hash_table s))(feature_of m := None)"
      by (auto simp: outcome_fits_def outcome_def)
    with Blocked st(2) have "answer_request [q] m reply st ?s' =
        Inr (?s'\<lparr>bind_data := Some (wire_packet (reply_to m 3 None)),
          sent := sent s @ [outcome s m address Blocked], clients_hash_table := c\<rparr>, m)"
      by (simp add: answer_request_def pass_result_def)
    with run st(1,3) free Blocked c inv tab fill show ?thesis
      by (simp add: srv_inv_def)
  next
    case (Hit rrs)
    with st(2) have hit: "cached st" "\<not> banned st" by (simp_all add: pass_result_def)
    have "query_records ?s q = query_records s q" by (simp add: query_records_def chain_of_def)
    then have "query_records ?s q = Inr rrs" using ans Hit answer_of_hit_records [of s q rrs] by simp
    with second_pass_fits [OF inv' st(1) hit] have
      sp: "second_pass (s\<lparr>clients_hash_table := t, ipv4_table := lookup_table st\<rparr>) [q] (reply_count st) = Inr rrs"
        "reply_count st = length rrs"
      by (auto simp: length_Suc_conv)
    let ?r = "reply\<lparr>answer_count := of_nat (length rrs), answers := Some rrs\<rparr>"
    from send [of ?r] Hit reply fits m obtain c where
      c: "send_response ?s' ?r = Inr (?s'\<lparr>bind_data := Some (wire_packet (reply_to m 0 (Some rrs))),
          sent := sent s @ [outcome s m address (Hit rrs)], clients_hash_table := c\<rparr>, reply_to m 0 (Some rrs))"
        "ht_inv c" "ht_lookup c = (ht_lookup (clients_hash_table s))(feature_of m := None)"
      by (auto simp: outcome_fits_def outcome_def)
    with Hit hit sp m(3) have "answer_request [q] m reply st ?s' =
        Inr (?s'\<lparr>bind_data := Some (wire_packet (reply_to m 0 (Some rrs))),
          sent := sent s @ [outcome s m address (Hit rrs)], clients_hash_table := c\<rparr>, m)"
      by (simp add: answer_request_def second_pass_def)
    with run st(1,3) free Hit c inv tab fill show ?thesis
      by (simp add: srv_inv_def)
  qed
qed

end
