(* ===== verification/Upstream.thy ===== *)
theory Upstream
  imports Socket_Correct
begin

text \<open>
  Replies from upstream: what \<open>query_socket_read\<close> puts into the caches, and that the client waiting
  under the question and id of the reply gets it, as exact bytes, and is forgotten.
\<close>

section \<open>Room for several insertions\<close>

text \<open>A put at most doubles the counter and the capacity, so this bound covers \<open>n\<close> puts.\<close>

definition room_for :: "nat \<Rightarrow> 'd hash_table_t \<Rightarrow> bool" where
  "room_for n t \<longleftrightarrow> 2 ^ n * (ht_count t + 2) \<le> 2 ^ 29 \<and> 2 ^ n * (ht_capacity t + 1) \<le> 2 ^ 29"

lemma room_for_room: "room_for n t \<Longrightarrow> ht_room t"
proof -
  assume r: "room_for n t"
  have le: "x \<le> 2 ^ n * x" for x :: nat by simp
  have "ht_count t + 2 \<le> 2 ^ 29" "ht_capacity t + 1 \<le> 2 ^ 29"
    using r le_trans [OF le [of "ht_count t + 2"]] le_trans [OF le [of "ht_capacity t + 1"]]
    unfolding room_for_def by blast+
  then show ?thesis by (simp add: ht_room_def INT_MAX_def)
qed

lemma put_room_for:
  assumes inv: "ht_inv t" and room: "room_for (Suc n) t" and put: "hash_table_put t (Some k) (Some d) = Inr t'"
  shows "room_for n t'"
proof -
  have "ht_count t' + 2 \<le> 2 * (ht_count t + 2) \<and> ht_capacity t' + 1 \<le> 2 * (ht_capacity t + 1)"
  proof (cases "ht_lookup t k = None")
    case False
    with put_present [OF inv False, of d] put show ?thesis by auto
  next
    case True
    have "ht_size t \<le> ht_count t" using inv by (simp add: ht_inv_def ht_wf_def)
    with put_absent_correct [OF inv True room_for_room [OF room], of d] put show ?thesis
      by (auto split: if_splits)
  qed
  then have "2 ^ n * (ht_count t' + 2) \<le> 2 ^ n * (2 * (ht_count t + 2))"
    "2 ^ n * (ht_capacity t' + 1) \<le> 2 ^ n * (2 * (ht_capacity t + 1))"
    by (simp_all only: mult_le_mono2)
  with room show ?thesis by (simp add: room_for_def algebra_simps)
qed

section \<open>The records of a reply\<close>

definition v4_records :: "resource_record_t list \<Rightarrow> (string_t \<times> u32) list" where
  "v4_records rrs = concat (map (\<lambda>rr. case rr_data rr of
     Address4 a \<Rightarrow> (if rr_type rr = 1 then [(rr_name rr, a)] else []) | _ \<Rightarrow> []) rrs)"

definition v6_records :: "resource_record_t list \<Rightarrow> (string_t \<times> byte list) list" where
  "v6_records rrs = concat (map (\<lambda>rr. case rr_data rr of
     Address6 bs \<Rightarrow> (if rr_type rr = 28 then [(rr_name rr, bs)] else []) | _ \<Rightarrow> []) rrs)"

definition alias_records :: "resource_record_t list \<Rightarrow> (string_t \<times> string_t) list" where
  "alias_records rrs = concat (map (\<lambda>rr. case rr_data rr of
     Cname d \<Rightarrow> (if rr_type rr = 5 then [(rr_name rr, d)] else []) | _ \<Rightarrow> []) rrs)"

definition owner :: "(string_t \<times> 'a) list \<Rightarrow> string_t option" where
  "owner rs = (if rs = [] then None else Some (fst (last rs)))"

definition alias_item :: "int \<Rightarrow> string_t \<Rightarrow> cname_cache_t" where
  "alias_item now d = \<lparr>cn_name = d, cn_ttl = 120, cn_timestamp = now, cn_manual = False\<rparr>"

definition learned :: "int \<Rightarrow> resource_record_t list \<Rightarrow> string_t \<Rightarrow> cname_cache_t option" where
  "learned now rrs = map_of (rev (map (\<lambda>(n, d). (n, alias_item now d)) (alias_records rrs)))"

definition collected_of :: "resource_record_t list \<Rightarrow> collected" where
  "collected_of rrs = \<lparr>ipv4_domain = owner (v4_records rrs), ipv4_nodes = map snd (v4_records rrs),
     ipv6_domain = owner (v6_records rrs), ipv6_nodes = map snd (v6_records rrs)\<rparr>"

lemma collect_answer_correct:
  assumes ty: "rr_typed (rrs ! i)" and i: "i < length rrs"
    and t: "ht_inv t" "room_for (Suc n) t"
  shows "\<exists>t'. collect_answer now rrs i (collected_of (take i rrs), t) = Inr (collected_of (take (Suc i) rrs), t') \<and>
     ht_inv t' \<and> room_for n t' \<and> ht_lookup t' = ht_lookup t ++ learned now [rrs ! i]"
proof -
  let ?rr = "rrs ! i"
  have suc: "take (Suc i) rrs = take i rrs @ [?rr]" using i by (simp add: take_Suc_conv_app_nth)
  have shrink: "room_for n t" using t(2) by (simp add: room_for_def)
  consider (a) "rr_type ?rr = 1" | (cn) "rr_type ?rr = 5" | (aaaa) "rr_type ?rr = 28"
    | (other) "rr_type ?rr \<notin> {1, 5, 28}" by blast
  then show ?thesis
  proof cases
    case a
    with ty obtain x where "rr_data ?rr = Address4 x" by (auto simp: rr_typed_def)
    with a i t shrink show ?thesis
      by (simp add: collect_answer_def arr_simps suc collected_of_def v4_records_def v6_records_def
          owner_def learned_def alias_records_def)
  next
    case cn
    with ty obtain d where d: "rr_data ?rr = Cname d" by (auto simp: rr_typed_def)
    from put_correct [OF t(1) room_for_room [OF t(2)], of "rr_name ?rr" "alias_item now d"] obtain t' where
      t': "hash_table_put t (Some (rr_name ?rr)) (Some (alias_item now d)) = Inr t'" "ht_inv t'"
        "ht_lookup t' = (ht_lookup t)(rr_name ?rr \<mapsto> alias_item now d)" by blast
    with put_room_for [OF t t'(1)] cn d i show ?thesis
      by (simp add: collect_answer_def arr_simps suc collected_of_def v4_records_def v6_records_def
          owner_def learned_def alias_records_def cname_cache_put_def cname_item_def alias_item_def Let_def)
  next
    case aaaa
    with ty obtain bs where "rr_data ?rr = Address6 bs" "length bs = 16" by (auto simp: rr_typed_def)
    with aaaa i t shrink show ?thesis
      by (simp add: collect_answer_def arr_simps suc collected_of_def v4_records_def v6_records_def
          owner_def learned_def alias_records_def)
  next
    case other
    with i t shrink show ?thesis
      by (auto simp: collect_answer_def arr_simps suc collected_of_def v4_records_def v6_records_def
          owner_def learned_def alias_records_def split: rdata_t.splits)
  qed
qed

lemma learned_append: "learned now (xs @ ys) = learned now xs ++ learned now ys"
  by (simp add: learned_def alias_records_def)

lemma collect_answers_correct:
  assumes ty: "list_all rr_typed rrs" and t: "ht_inv t" "room_for (length rrs) t"
  shows "\<exists>t'. forE (length rrs) 0 (collect_answer now rrs) (nothing_collected, t) = Inr (collected_of rrs, t') \<and>
     ht_inv t' \<and> ht_lookup t' = ht_lookup t ++ learned now rrs"
proof -
  let ?I = "\<lambda>i (c, u). c = collected_of (take i rrs) \<and> ht_inv u \<and> room_for (length rrs - i) u \<and>
     ht_lookup u = ht_lookup t ++ learned now (take i rrs)"
  have "\<exists>st'. collect_answer now rrs i st = Inr st' \<and> ?I (Suc i) st'" if I: "?I i st" and i: "i < length rrs" for i st
  proof -
    obtain u where u: "st = (collected_of (take i rrs), u)" "ht_inv u" "room_for (Suc (length rrs - Suc i)) u"
      "ht_lookup u = ht_lookup t ++ learned now (take i rrs)"
      using I i by (cases st) (auto simp: Suc_diff_Suc)
    have "rr_typed (rrs ! i)" using ty i by (simp add: list_all_length)
    from collect_answer_correct [OF this i u(2,3), of now] u(4) show ?thesis
      unfolding u(1) take_Suc_conv_app_nth [OF i] learned_append by auto
  qed
  moreover have "?I 0 (nothing_collected, t)"
    using t by (simp add: collected_of_def nothing_collected_def v4_records_def v6_records_def owner_def
        learned_def alias_records_def)
  ultimately have "\<exists>st'. forE (length rrs) 0 (collect_answer now rrs) (nothing_collected, t) = Inr st' \<and>
      ?I (0 + length rrs) st'"
    by (intro forE_rule [where I = ?I]) simp_all
  then show ?thesis by auto
qed


section \<open>The caches after a reply\<close>

text \<open>The entry an upstream reply leaves in the two address caches.\<close>

definition v4_update ::
    "int \<Rightarrow> resource_record_t list \<Rightarrow> (string_t \<Rightarrow> ipv4_cache_t option) \<Rightarrow> string_t \<Rightarrow> ipv4_cache_t option" where
  "v4_update now rrs m = (case owner (v4_records rrs) of
     None \<Rightarrow> m
   | Some d \<Rightarrow>
       if \<exists>old. m d = Some old \<and> v4_manual old then m
       else m(d \<mapsto> \<lparr>v4_node = map snd (v4_records rrs), v4_ttl = 120, v4_timestamp = now, v4_manual = False\<rparr>))"

definition v6_update ::
    "int \<Rightarrow> resource_record_t list \<Rightarrow> (string_t \<Rightarrow> ipv6_cache_t option) \<Rightarrow> string_t \<Rightarrow> ipv6_cache_t option" where
  "v6_update now rrs m = (case owner (v6_records rrs) of
     None \<Rightarrow> m
   | Some d \<Rightarrow>
       m(d \<mapsto> \<lparr>v6_node = map snd (v6_records rrs), v6_ttl = 120, v6_timestamp = now, v6_manual = False\<rparr>))"

lemma store_collected_correct:
  assumes inv: "srv_inv s" and room: "ht_room (ipv4_table s)" "ht_room (ipv6_table s)"
  shows "\<exists>t4 t6. store_collected now (collected_of rrs) s = Inr (s\<lparr>ipv4_table := t4, ipv6_table := t6\<rparr>) \<and>
     ht_inv t4 \<and> ht_inv t6 \<and> v4_filled t4 \<and>
     ht_lookup t4 = v4_update now rrs (ht_lookup (ipv4_table s)) \<and>
     ht_lookup t6 = v6_update now rrs (ht_lookup (ipv6_table s))"
proof -
  have i: "ht_inv (ipv4_table s)" "ht_inv (ipv6_table s)" "v4_filled (ipv4_table s)"
    using inv by (simp_all add: srv_inv_def)
  let ?e4 = "\<lparr>v4_node = map snd (v4_records rrs), v4_ttl = 120, v4_timestamp = now, v4_manual = False\<rparr>"
  let ?e6 = "\<lparr>v6_node = map snd (v6_records rrs), v6_ttl = 120, v6_timestamp = now, v6_manual = False\<rparr>"
  have "\<exists>t4. (case owner (v4_records rrs) of None \<Rightarrow> Inr (ipv4_table s)
        | Some d \<Rightarrow> ipv4_cache_put now (ipv4_table s) d ?e4) = Inr t4 \<and> ht_inv t4 \<and> v4_filled t4 \<and>
      ht_lookup t4 = v4_update now rrs (ht_lookup (ipv4_table s))"
  proof (cases "owner (v4_records rrs)")
    case None
    with i show ?thesis by (simp add: v4_update_def)
  next
    case (Some d)
    then have ne: "v4_node ?e4 \<noteq> []" by (auto simp: owner_def split: if_splits)
    from ipv4_put_correct [OF i(1) room(1), of now d ?e4] Some i(3) ne show ?thesis
      by (auto simp: v4_update_def ipv4_item_def v4_filled_def split: if_splits)
  qed
  moreover have "\<exists>t6. (case owner (v6_records rrs) of None \<Rightarrow> Inr (ipv6_table s)
        | Some d \<Rightarrow> ipv6_cache_put now (ipv6_table s) d ?e6) = Inr t6 \<and> ht_inv t6 \<and>
      ht_lookup t6 = v6_update now rrs (ht_lookup (ipv6_table s))"
    using ipv6_put_correct [OF i(2) room(2), of now _ ?e6] i(2)
    by (cases "owner (v6_records rrs)") (auto simp: v6_update_def ipv6_item_def)
  ultimately obtain t4 t6 where
    "(case owner (v4_records rrs) of None \<Rightarrow> Inr (ipv4_table s)
        | Some d \<Rightarrow> ipv4_cache_put now (ipv4_table s) d ?e4) = Inr t4"
    "ht_inv t4" "v4_filled t4" "ht_lookup t4 = v4_update now rrs (ht_lookup (ipv4_table s))"
    "(case owner (v6_records rrs) of None \<Rightarrow> Inr (ipv6_table s)
        | Some d \<Rightarrow> ipv6_cache_put now (ipv6_table s) d ?e6) = Inr t6"
    "ht_inv t6" "ht_lookup t6 = v6_update now rrs (ht_lookup (ipv6_table s))" by blast
  then show ?thesis
    by (intro exI [of _ t4] exI [of _ t6]) (simp add: store_collected_def collected_of_def cong: option.case_cong)
qed

text \<open>The answers of a message, none when it counts none.\<close>

definition answer_list :: "message_t \<Rightarrow> resource_record_t list" where
  "answer_list m = (if answer_count m = 0 then [] else the (answers m))"

lemma query_socket_read_front:
  assumes inv: "srv_inv s" and req: "request m q number base"
    and room: "ht_room (ipv4_table s)" "ht_room (ipv6_table s)"
      "room_for (length (answer_list m)) (cname_table s)"
  shows "\<exists>t4 t6 tc. query_socket_read now number base s =
      bindE (send_response (s\<lparr>cname_table := tc, ipv4_table := t4, ipv6_table := t6\<rparr>) m)
        (\<lambda>(s, message). bindE (message_free message) (\<lambda>_. Inr s)) \<and>
     ht_inv t4 \<and> ht_inv t6 \<and> ht_inv tc \<and> v4_filled t4 \<and>
     ht_lookup t4 = v4_update now (answer_list m) (ht_lookup (ipv4_table s)) \<and>
     ht_lookup t6 = v6_update now (answer_list m) (ht_lookup (ipv6_table s)) \<and>
     ht_lookup tc = ht_lookup (cname_table s) ++ learned now (answer_list m)"
proof -
  let ?rrs = "answer_list m"
  from req have m: "message_sound m" and at: "has_at base 0 (wire_message m)" and n: "12 < number"
    by (simp_all add: request_def)
  have dec: "buf2message \<lparr>buf_base = base, buf_len = nat number\<rparr> = Inr m"
    by (rule buf2message_wire [OF m]) (use at n in simp_all)
  obtain out where log: "message_log m = Inr out"
    using message_log_ok [OF message_sound_ok [OF m]] by blast
  have sec: "section_of (answer_count m) (answers m) = Inr ?rrs" "unat (answer_count m) = length ?rrs"
    "list_all rr_typed ?rrs"
    using m message_sound_ok [OF m]
    by (auto simp: section_of_def answer_list_def message_ok_def word_neq_0_conv)
  have "ht_inv (cname_table s)" using inv by (simp add: srv_inv_def)
  from collect_answers_correct [OF sec(3) this room(3)] obtain tc where
    tc: "forE (length ?rrs) 0 (collect_answer now ?rrs) (nothing_collected, cname_table s) = Inr (collected_of ?rrs, tc)"
      "ht_inv tc" "ht_lookup tc = ht_lookup (cname_table s) ++ learned now ?rrs" by blast
  have "srv_inv (s\<lparr>cname_table := tc\<rparr>)" using inv tc(2) by (simp add: srv_inv_def)
  from store_collected_correct [OF this, of now ?rrs] room obtain t4 t6 where
    t: "store_collected now (collected_of ?rrs) (s\<lparr>cname_table := tc\<rparr>) =
        Inr (s\<lparr>cname_table := tc, ipv4_table := t4, ipv6_table := t6\<rparr>)"
      "ht_inv t4" "ht_inv t6" "v4_filled t4" "ht_lookup t4 = v4_update now ?rrs (ht_lookup (ipv4_table s))"
      "ht_lookup t6 = v6_update now ?rrs (ht_lookup (ipv6_table s))" by auto
  have "query_socket_read now number base s =
      bindE (send_response (s\<lparr>cname_table := tc, ipv4_table := t4, ipv6_table := t6\<rparr>) m)
        (\<lambda>(s, message). bindE (message_free message) (\<lambda>_. Inr s))"
    using n by (simp add: query_socket_read_def dec log sec(1,2) tc(1) t(1) del: forE.simps)
  with t tc show ?thesis by blast
qed

lemma query_socket_read_correct:
  assumes inv: "srv_inv s" and req: "request m q number base"
    and room: "ht_room (ipv4_table s)" "ht_room (ipv6_table s)"
      "room_for (length (answer_list m)) (cname_table s)"
    and client: "ht_lookup (clients_hash_table s) (feature_of m) = Some address"
    and rem: "ht_removable (clients_hash_table s) (feature_of m)"
  shows "\<exists>s'. query_socket_read now number base s = Inr s' \<and> srv_inv s' \<and>
     sent s' = sent s @ [\<lparr>pk_socket = Bind_Socket, pk_buf = wire_packet (prepare_message m), pk_to = address\<rparr>] \<and>
     ht_lookup (clients_hash_table s') = (ht_lookup (clients_hash_table s))(feature_of m := None) \<and>
     ht_lookup (ipv4_table s') = v4_update now (answer_list m) (ht_lookup (ipv4_table s)) \<and>
     ht_lookup (ipv6_table s') = v6_update now (answer_list m) (ht_lookup (ipv6_table s)) \<and>
     ht_lookup (cname_table s') = ht_lookup (cname_table s) ++ learned now (answer_list m)"
proof -
  from query_socket_read_front [OF inv req room, of now] obtain t4 t6 tc where
    run: "query_socket_read now number base s =
      bindE (send_response (s\<lparr>cname_table := tc, ipv4_table := t4, ipv6_table := t6\<rparr>) m)
        (\<lambda>(s, message). bindE (message_free message) (\<lambda>_. Inr s))"
    and t: "ht_inv t4" "ht_inv t6" "ht_inv tc" "v4_filled t4"
      "ht_lookup t4 = v4_update now (answer_list m) (ht_lookup (ipv4_table s))"
      "ht_lookup t6 = v6_update now (answer_list m) (ht_lookup (ipv6_table s))"
      "ht_lookup tc = ht_lookup (cname_table s) ++ learned now (answer_list m)" by blast
  let ?s = "s\<lparr>cname_table := tc, ipv4_table := t4, ipv6_table := t6\<rparr>"
  from req have m: "message_sound m" "queries m = Some [q]" "query_count m = 1"
    by (simp_all add: request_def)
  have cl: "ht_inv (clients_hash_table ?s)" using inv by (simp add: srv_inv_def)
  from send_response_correct [OF cl m(2), of address] m(3) client rem prepare_encodable [OF req]
  obtain c where c: "send_response ?s m = Inr (?s\<lparr>bind_data := Some (wire_packet (prepare_message m)),
        sent := sent s @ [\<lparr>pk_socket = Bind_Socket, pk_buf = wire_packet (prepare_message m),
                          pk_to = address\<rparr>],
        clients_hash_table := c\<rparr>, prepare_message m)" "ht_inv c"
      "ht_lookup c = (ht_lookup (clients_hash_table s))(feature_of m := None)" by auto
  obtain out where "message_free (prepare_message m) = Inr out"
    using message_log_ok message_free_ok message_sound_ok [OF m(1)] message_ok_prepare by metis
  with run c t show ?thesis by (simp add: srv_inv_def)
qed

text \<open>A reply nobody waits for is cached and dropped.\<close>

lemma query_socket_read_unknown:
  assumes inv: "srv_inv s" and req: "request m q number base"
    and room: "ht_room (ipv4_table s)" "ht_room (ipv6_table s)"
      "room_for (length (answer_list m)) (cname_table s)"
    and client: "ht_lookup (clients_hash_table s) (feature_of m) = None"
  shows "\<exists>s'. query_socket_read now number base s = Inr s' \<and> srv_inv s' \<and> sent s' = sent s \<and>
     clients_hash_table s' = clients_hash_table s \<and>
     ht_lookup (ipv4_table s') = v4_update now (answer_list m) (ht_lookup (ipv4_table s)) \<and>
     ht_lookup (ipv6_table s') = v6_update now (answer_list m) (ht_lookup (ipv6_table s)) \<and>
     ht_lookup (cname_table s') = ht_lookup (cname_table s) ++ learned now (answer_list m)"
proof -
  from query_socket_read_front [OF inv req room, of now] obtain t4 t6 tc where
    run: "query_socket_read now number base s =
      bindE (send_response (s\<lparr>cname_table := tc, ipv4_table := t4, ipv6_table := t6\<rparr>) m)
        (\<lambda>(s, message). bindE (message_free message) (\<lambda>_. Inr s))"
    and t: "ht_inv t4" "ht_inv t6" "ht_inv tc" "v4_filled t4"
      "ht_lookup t4 = v4_update now (answer_list m) (ht_lookup (ipv4_table s))"
      "ht_lookup t6 = v6_update now (answer_list m) (ht_lookup (ipv6_table s))"
      "ht_lookup tc = ht_lookup (cname_table s) ++ learned now (answer_list m)" by blast
  let ?s = "s\<lparr>cname_table := tc, ipv4_table := t4, ipv6_table := t6\<rparr>"
  from req have m: "message_sound m" "queries m = Some [q]" "query_count m = 1"
    by (simp_all add: request_def)
  have "send_response ?s m = Inr (?s, m)"
    by (rule send_response_unknown [OF _ m(2)]) (use inv m(3) client in \<open>simp_all add: srv_inv_def\<close>)
  moreover obtain out where "message_free m = Inr out"
    using message_log_ok message_free_ok message_sound_ok [OF m(1)] by metis
  ultimately show ?thesis using run t inv by (simp add: srv_inv_def)
qed

end
