(* ===== verification/Table_Data.thy ===== *)
theory Table_Data
  imports Hash_Table
begin

text \<open>
  The data a table holds: what its nodes carry, freed nodes included, also when the table is not well
  formed any more. The operations never make up data.
\<close>

definition bucket_data :: "'d bucket \<Rightarrow> 'd set" where
  "bucket_data b = {d. \<exists>node \<in> set b. node_data node = Some d}"

definition table_data :: "'d hash_table_t \<Rightarrow> 'd set" where
  "table_data t = (\<Union>b \<in> set (ht_table t). bucket_data b)"

lemma bucket_data_simps [simp]:
  "bucket_data [] = {}"
  "bucket_data (node # rest) = set_option (node_data node) \<union> bucket_data rest"
  by (auto simp: bucket_data_def)

lemma table_data_update:
  "table_data (t\<lparr>ht_table := (ht_table t)[i := b]\<rparr>) \<subseteq> table_data t \<union> bucket_data b"
  by (auto simp: table_data_def dest!: set_update_subset_insert [THEN subsetD])

lemma table_data_bucket: "arr_get (ht_table t) i = Inr b \<Longrightarrow> bucket_data b \<subseteq> table_data t"
  by (auto simp: table_data_def arr_get_def split: if_splits intro: nth_mem)

lemma table_data_fields [simp]:
  "table_data (t\<lparr>ht_lock := l\<rparr>) = table_data t" "table_data (t\<lparr>ht_count := n\<rparr>) = table_data t"
  by (simp_all add: table_data_def)

lemma bucket_add_data: "bucket_add b name d = Inr b' \<Longrightarrow> bucket_data b' \<subseteq> bucket_data b \<union> set_option d"
  by (induction b arbitrary: b')
    (auto simp: bindE_eq_Inr_iff new_node_def split: if_splits option.splits)

lemma add_node_data:
  assumes "add_node t name d = Inr t'"
  shows "table_data t' \<subseteq> table_data t \<union> set_option d"
proof -
  from assms obtain b b' i where b: "arr_get (ht_table t) i = Inr b" "bucket_add b name d = Inr b'"
    "t' = t\<lparr>ht_table := (ht_table t)[i := b'], ht_count := ht_count t + 1\<rparr>"
    by (auto simp: add_node_def Let_def bindE_eq_Inr_iff split: if_splits)
  have "table_data t' = table_data (t\<lparr>ht_table := (ht_table t)[i := b']\<rparr>)"
    unfolding b(3) by (simp add: table_data_def)
  with bucket_add_data [OF b(2)] table_data_bucket [OF b(1)] table_data_update [of t i b'] show ?thesis by auto
qed

lemma rehash_bucket_data:
  "rehash_bucket b t = Inr t' \<Longrightarrow> table_data t' \<subseteq> table_data t \<union> bucket_data b"
proof (induction b arbitrary: t)
  case (Cons node b)
  show ?case
  proof (cases "node_name node")
    case (Some name)
    with Cons.prems obtain t1 where "add_node t name (node_data node) = Inr t1" "rehash_bucket b t1 = Inr t'"
      by (auto simp: bindE_eq_Inr_iff split: if_splits)
    with Cons.IH [of t1] add_node_data [of t name "node_data node" t1] show ?thesis by auto
  qed (use Cons.prems in \<open>auto split: if_splits\<close>)
qed simp

lemma resize_data:
  assumes "resize t = Inr t'"
  shows "table_data t' \<subseteq> table_data t"
proof -
  let ?t = "t\<lparr>ht_capacity := 2 * ht_capacity t + 1, ht_threshold := load_threshold (2 * ht_capacity t + 1),
                ht_table := replicate (2 * ht_capacity t + 1) [empty_node]\<rparr>"
  have run: "forE (ht_capacity t) 0 (resize_step (ht_table t)) ?t = Inr t'"
    using assms by (simp add: resize_def Let_def split: if_splits)
  show ?thesis
  proof (rule forE_inv [OF run, where I = "\<lambda>_ u. table_data u \<subseteq> table_data t"])
    show "table_data ?t \<subseteq> table_data t" by (auto simp: table_data_def empty_node_def)
  next
    fix k u u'
    assume u: "table_data u \<subseteq> table_data t" and step: "resize_step (ht_table t) k u = Inr u'"
    then obtain b where "arr_get (ht_table t) k = Inr b" "rehash_bucket b u = Inr u'"
      by (auto simp: resize_step_def bindE_eq_Inr_iff)
    with u table_data_bucket [of t k b] rehash_bucket_data [of b u u'] show "table_data u' \<subseteq> table_data t"
      by blast
  qed
qed

lemma bucket_replace_data:
  "bucket_replace b name d = Inr (Some b') \<Longrightarrow> bucket_data b' \<subseteq> insert d (bucket_data b)"
  by (induction b arbitrary: b') (auto simp: bindE_eq_Inr_iff split: if_splits)

lemma put_absent_data:
  assumes "put_absent t name d = Inr t'"
  shows "table_data t' \<subseteq> insert d (table_data t)"
proof -
  from assms obtain t1 t2 where t: "add_node t name (Some d) = Inr t1"
    "t2 = t1 \<or> resize t1 = Inr t2" "t' = t2\<lparr>ht_lock := False\<rparr>"
    by (auto simp: put_absent_def bindE_eq_Inr_iff uv_rwlock_wrunlock_def split: if_splits)
  with add_node_data [OF t(1)] resize_data [of t1 t2] show ?thesis by auto
qed

lemma hash_table_put_data:
  assumes "hash_table_put t (Some name) (Some d) = Inr t'"
  shows "table_data t' \<subseteq> insert d (table_data t)"
proof -
  let ?t = "t\<lparr>ht_lock := True\<rparr>"
  from assms obtain b r where b: "arr_get (ht_table t) (ht_index (ht_capacity t) name) = Inr b"
    "bucket_replace b name d = Inr r"
    "case r of Some b' \<Rightarrow> t' = put_found ?t (ht_index (ht_capacity t) name) b' | None \<Rightarrow> put_absent ?t name d = Inr t'"
    by (auto simp: hash_table_put.simps uv_rwlock_wrlock_def bindE_eq_Inr_iff Let_def split: if_splits option.splits)
  show ?thesis
  proof (cases r)
    case None
    with b(3) put_absent_data [of ?t name d t'] show ?thesis by simp
  next
    case (Some b')
    with b(3) have "t' = (?t\<lparr>ht_table := (ht_table ?t)[ht_index (ht_capacity t) name := b']\<rparr>)\<lparr>ht_lock := False\<rparr>"
      by (simp add: put_found_def uv_rwlock_wrunlock_def)
    then have "table_data t' \<subseteq> table_data t \<union> bucket_data b'"
      using table_data_update [of t "ht_index (ht_capacity t) name" b'] by (simp add: table_data_def)
    with table_data_bucket [OF b(1)] bucket_replace_data [of b name d b'] b(2) Some show ?thesis by auto
  qed
qed

lemma bucket_get_data: "bucket_get b name = Inr (Some d) \<Longrightarrow> d \<in> bucket_data b"
  by (induction b) (auto split: if_splits)

lemma hash_table_get_data: "hash_table_get t name = Inr (Some d) \<Longrightarrow> d \<in> table_data t"
  using bucket_get_data table_data_bucket by (fastforce simp: hash_table_get_def bindE_eq_Inr_iff)

lemma free_node_data: "free_node b = Inr b' \<Longrightarrow> bucket_data b' = bucket_data b"
  by (cases b) (auto split: if_splits)

lemma remove_head_data: "remove_head b = Inr b' \<Longrightarrow> bucket_data b' \<subseteq> bucket_data b"
  using free_node_data
  by (cases b rule: remove_head.cases) (fastforce simp: bindE_eq_Inr_iff split: if_splits)+

lemma remove_chain_data: "remove_chain b name = Inr (Some b') \<Longrightarrow> bucket_data b' \<subseteq> bucket_data b"
  by (induction b arbitrary: b') (auto simp: bindE_eq_Inr_iff split: if_splits)

lemma bucket_remove_data: "bucket_remove b name = Inr (Some b') \<Longrightarrow> bucket_data b' \<subseteq> bucket_data b"
  using remove_head_data remove_chain_data
  by (cases b) (fastforce simp: bindE_eq_Inr_iff split: if_splits)+

lemma hash_table_remove_data:
  assumes "hash_table_remove t name = Inr t'"
  shows "table_data t' \<subseteq> table_data t"
proof -
  from assms obtain b r where b: "arr_get (ht_table t) (ht_index (ht_capacity t) name) = Inr b"
    "bucket_remove b name = Inr r"
    "case r of None \<Rightarrow> t' = t
       | Some b' \<Rightarrow> t' = t\<lparr>ht_table := (ht_table t)[ht_index (ht_capacity t) name := b'], ht_lock := False\<rparr>"
    by (auto simp: hash_table_remove_def uv_rwlock_wrlock_def uv_rwlock_wrunlock_def bindE_eq_Inr_iff Let_def
        split: if_splits option.splits)
  show ?thesis
  proof (cases r)
    case (Some b')
    with b(3) have "table_data t' = table_data (t\<lparr>ht_table := (ht_table t)[ht_index (ht_capacity t) name := b']\<rparr>)"
      by (simp add: table_data_def)
    with table_data_update [of t _ b'] table_data_bucket [OF b(1)] bucket_remove_data [of b name b'] b(2) Some
    show ?thesis by blast
  qed (use b(3) in simp)
qed

lemma table_data_new [simp]: "table_data hash_table_new = {}"
  by (auto simp: table_data_def hash_table_new_def empty_node_def)

end
