(* ===== verification/Table_Runs.thy ===== *)
theory Table_Runs
  imports Hash_Table_Correct Table_Data
begin

text \<open>
  Insertions that came to their end, with no bound on the table assumed: then the counter did not
  overflow, and the table is well formed and holds what it should.
\<close>

lemma add_node_run: "add_node t k d = Inr t' \<Longrightarrow> ht_count t < INT_MAX \<and> ht_count t' = ht_count t + 1"
  by (auto simp: add_node_def Let_def bindE_eq_Inr_iff split: if_splits)

lemma rehash_run:
  "rehash_bucket (map mk_node es) t = Inr t' \<Longrightarrow> ht_count t \<le> INT_MAX \<Longrightarrow>
     ht_count t' = ht_count t + length es \<and> ht_count t' \<le> INT_MAX"
proof (induction es arbitrary: t)
  case (Cons e es)
  then obtain t1 where t1: "add_node t (fst e) (Some (snd e)) = Inr t1" "rehash_bucket (map mk_node es) t1 = Inr t'"
    by (auto simp: bindE_eq_Inr_iff)
  with Cons.IH [OF t1(2)] add_node_run [OF t1(1)] show ?case by simp
qed simp

lemma resize_run:
  assumes wf: "ht_wf t" and c: "ht_count t \<le> INT_MAX" and run: "resize t = Inr t'"
  shows "ht_count t + ht_size t \<le> INT_MAX \<and> 2 * ht_capacity t + 1 \<le> INT_MAX"
proof -
  let ?t = "t\<lparr>ht_capacity := 2 * ht_capacity t + 1, ht_threshold := load_threshold (2 * ht_capacity t + 1),
                ht_table := replicate (2 * ht_capacity t + 1) [empty_node]\<rparr>"
  let ?sz = "\<lambda>i. sum_list (map (\<lambda>b. length (bucket_entries b)) (take i (ht_table t)))"
  let ?I = "\<lambda>i u. ht_count u = ht_count t + ?sz i \<and> ht_count u \<le> INT_MAX"
  from run have loop: "forE (ht_capacity t) 0 (resize_step (ht_table t)) ?t = Inr t'"
    and cap: "2 * ht_capacity t + 1 \<le> INT_MAX"
    by (simp_all add: resize_def Let_def split: if_splits)
  have "?I (0 + ht_capacity t) t'"
  proof (rule forE_inv [OF loop, where I = ?I])
    fix k u u'
    assume k: "k < 0 + ht_capacity t" and u: "?I k u" and step: "resize_step (ht_table t) k u = Inr u'"
    from wf k obtain es where es: "ht_table t ! k = embed_bucket es" "k < length (ht_table t)"
      unfolding ht_wf_def bucket_ok_def Let_def by (metis add_0)
    with step have "rehash_bucket (embed_bucket es) u = Inr u'"
      by (auto simp: resize_step_def arr_get_def bindE_eq_Inr_iff)
    then have "rehash_bucket (map mk_node es) u = Inr u'"
      by (cases es) (simp_all add: embed_bucket_def empty_node_def)
    with rehash_run [OF this] u es show "?I (Suc k) u'" by (simp add: take_Suc_conv_app_nth)
  qed (use c in simp)
  with cap wf show ?thesis by (simp add: ht_size_def ht_wf_def)
qed

lemma put_run:
  assumes inv: "ht_inv t" and run: "hash_table_put t (Some k) (Some d) = Inr t'"
  shows "ht_inv t' \<and> ht_lookup t' = (ht_lookup t)(k \<mapsto> d)"
proof (cases "ht_lookup t k = None")
  case False
  have wf: "ht_wf t" using inv by (simp add: ht_inv_def)
  from replace_correct(1) [OF wf False, of d] update_entries_lookup [OF wf, of k d] inv run show ?thesis
    by (auto simp: put_present [OF inv False] ht_inv_def)
next
  case True
  let ?t = "t\<lparr>ht_lock := True\<rparr>"
  have wf: "ht_wf ?t" using inv by (simp add: ht_inv_def)
  from run have put: "put_absent ?t k d = Inr t'" by (simp add: put_absent_eq [OF inv True])
  then obtain t0 where "add_node ?t k (Some d) = Inr t0" by (auto simp: put_absent_def bindE_eq_Inr_iff)
  with add_node_run [OF this] add_node_correct [OF wf, of k d] True obtain t1 where
    t1: "add_node ?t k (Some d) = Inr t1" "ht_added ?t [(k, d)] t1" "ht_count t1 \<le> INT_MAX" by auto
  show ?thesis
  proof (cases "ht_count t1 > ht_threshold t1")
    case False
    with put t1 show ?thesis
      by (auto simp: put_absent_def uv_rwlock_wrunlock_def ht_added_def ht_inv_def)
  next
    case gt: True
    with put t1 obtain t2 where t2: "resize t1 = Inr t2" "t' = t2\<lparr>ht_lock := False\<rparr>"
      by (auto simp: put_absent_def uv_rwlock_wrunlock_def bindE_eq_Inr_iff)
    have wf1: "ht_wf t1" using t1(2) by (simp add: ht_added_def)
    from resize_correct [OF wf1] resize_run [OF wf1 t1(3) t2(1)] t2 t1(2) show ?thesis
      by (auto simp: ht_inv_def ht_added_def)
  qed
qed

lemma store_run:
  assumes inv: "ht_inv t" and run: "hash_table_store t k d = Inr t'"
  shows "ht_inv t' \<and> ht_lookup t' = (ht_lookup t)(k \<mapsto> d)"
proof -
  have wf: "ht_wf t" using inv by (simp add: ht_inv_def)
  have "ht_lookup t k \<noteq> None"
    using run by (auto simp: hash_table_store_def ht_wfD(1) [OF wf] bucket_replace_embed Let_def
        ht_lookup_def split: if_splits)
  with store_correct [OF inv this, of d] run show ?thesis by auto
qed

end
