(* ===== verification/Server_Main.thy ===== *)
theory Server_Main
  imports Upstream Table_Runs
begin

text \<open>
  The process, \<open>src/main.c\<close>: start-up, the two callbacks of \<open>main.c\<close>, and the events of the loop as a
  step relation on the state of the process.
\<close>

section \<open>Start-up\<close>

text \<open>
  \<open>None\<close> is \<open>exit(0)\<close>. \<open>blank\<close> are the globals before \<open>main\<close> runs, \<open>bind_result\<close> what \<open>uv_udp_bind\<close>
  returns, \<open>files\<close> the file system and \<open>frame\<close> the memory behind a stack array.
\<close>

definition main ::
    "server_t \<Rightarrow> (socket_id \<Rightarrow> int) \<Rightarrow> (nat \<Rightarrow> cells) \<Rightarrow> (byte list \<Rightarrow> byte list option) \<Rightarrow> int \<Rightarrow>
     logging_level_t \<Rightarrow> byte list list \<Rightarrow> server_t option res" where
  "main blank bind_result frame files now level argv =
     bindE (config_init level argv) (\<lambda>configured.
     case configured of
       Exited _ \<Rightarrow> Inr None
     | Configured st \<Rightarrow>
         let dns_config = config st in
         bindE (socket_init bind_result (upstream_name dns_config) blank) (\<lambda>started.
         case started of
           None \<Rightarrow> Inr None
         | Some s \<Rightarrow>
             bindE (ipv4_read_file frame files now (ipv4_config_file dns_config) ipv4_cache_init) (\<lambda>t4.
             Inr (Some (s\<lparr>ipv4_table := t4, ipv6_table := ipv6_cache_init, cname_table := cname_cache_init\<rparr>)))))"

section \<open>The callbacks\<close>

definition SIGINT :: int where
  "SIGINT = 2"

definition sigint_callback :: "int \<Rightarrow> server_t \<Rightarrow> server_t option res" where
  "sigint_callback signum s =
     (if signum = SIGINT then
        bindE (socket_free s) (\<lambda>s.
        bindE (ipv4_cache_free (ipv4_table s)) (\<lambda>_.
        bindE (ipv6_cache_free (ipv6_table s)) (\<lambda>_.
        bindE (cname_cache_free (cname_table s)) (\<lambda>_. Inr None))))
      else Inr (Some s))"

definition clear_callback :: "int \<Rightarrow> server_t \<Rightarrow> server_t res" where
  "clear_callback now s =
     bindE (ipv4_cache_clear now (ipv4_table s)) (\<lambda>t4.
     bindE (ipv6_cache_clear now (ipv6_table s)) (\<lambda>t6.
     bindE (cname_cache_clear now (cname_table s)) (\<lambda>tc.
     Inr (s\<lparr>ipv4_table := t4, ipv6_table := t6, cname_table := tc\<rparr>))))"

section \<open>The event loop\<close>

datatype event =
    Client_Datagram int cells sockaddr_in
  | Upstream_Datagram int cells
  | Clear_Timer
  | Signal int

datatype process = Running server_t | Stopped | Failed c_error

fun settle :: "server_t res \<Rightarrow> process" where
  "settle (Inl e) = Failed e"
| "settle (Inr s) = Running s"

fun settle_option :: "server_t option res \<Rightarrow> process" where
  "settle_option (Inl e) = Failed e"
| "settle_option (Inr None) = Stopped"
| "settle_option (Inr (Some s)) = Running s"

text \<open>The time of an event and the contents of the memory \<open>malloc\<close> returns are not determined.\<close>

inductive server_step :: "process \<Rightarrow> event \<Rightarrow> process \<Rightarrow> bool" where
  client: "server_step (Running s) (Client_Datagram number base address)
             (settle (bind_socket_read fresh number base address s))"
| upstream: "server_step (Running s) (Upstream_Datagram number base)
             (settle (query_socket_read now number base s))"
| clear: "server_step (Running s) Clear_Timer (settle (clear_callback now s))"
| signal: "server_step (Running s) (Signal signum) (settle_option (sigint_callback signum s))"

inductive_simps server_step_simps:
  "server_step (Running s) (Client_Datagram number base address) p"
  "server_step (Running s) (Upstream_Datagram number base) p"
  "server_step (Running s) Clear_Timer p"
  "server_step (Running s) (Signal signum) p"

inductive_cases server_step_from: "server_step p e (Running s')"

inductive server_runs :: "process \<Rightarrow> event list \<Rightarrow> process \<Rightarrow> bool" where
  idle: "server_runs p [] p"
| step: "server_runs p es p' \<Longrightarrow> server_step p' e p'' \<Longrightarrow> server_runs p (es @ [e]) p''"

lemma settle_Running [simp]: "settle r = Running s \<longleftrightarrow> r = Inr s" "Running s = settle r \<longleftrightarrow> r = Inr s"
  by (cases r; auto)+

lemma settle_option_Running [simp]:
  "settle_option r = Running s \<longleftrightarrow> r = Inr (Some s)" "Running s = settle_option r \<longleftrightarrow> r = Inr (Some s)"
  by (cases r rule: settle_option.cases; auto)+

text \<open>What every step of a running server keeps holds after every run.\<close>

lemma server_runs_invariant:
  assumes "server_runs (Running s) es p" "p = Running s'" "P s"
    and "\<And>u e u'. e \<in> set es \<Longrightarrow> P u \<Longrightarrow> server_step (Running u) e (Running u') \<Longrightarrow> P u'"
  shows "P s'"
  using assms
proof (induction "Running s" es p arbitrary: s' rule: server_runs.induct)
  case (step es p' e p'')
  from step.hyps(3) step.prems(1) obtain u where u: "p' = Running u"
    by (auto elim: server_step.cases)
  have "P u" by (rule step.hyps(2)) (use u step.prems in auto)
  with step.prems(3) [of e u s'] step.hyps(3) u step.prems(1) show ?case by simp
qed simp

section \<open>What the server sends, and to whom\<close>

text \<open>
  \<open>asked\<close> are the addresses that have sent a datagram. The clients that are waiting are among them, a
  packet of the server socket goes to one of them and a packet of the query socket goes upstream.
\<close>

definition sends_to :: "sockaddr_in set \<Rightarrow> server_t \<Rightarrow> bool" where
  "sends_to asked s \<longleftrightarrow> table_data (clients_hash_table s) \<subseteq> asked \<and>
     (\<forall>p \<in> set (sent s). pk_to p \<in> (if pk_socket p = Bind_Socket then asked else {dns_address s}))"

lemma sends_to_caches [simp]:
  "sends_to asked (s\<lparr>ipv4_table := t4\<rparr>) = sends_to asked s"
  "sends_to asked (s\<lparr>ipv6_table := t6\<rparr>) = sends_to asked s"
  "sends_to asked (s\<lparr>cname_table := tc\<rparr>) = sends_to asked s"
  by (simp_all add: sends_to_def cong: if_cong)

text \<open>The part of the state the two send functions leave alone.\<close>

definition caches :: "server_t \<Rightarrow> ipv4_table_t \<times> ipv6_table_t \<times> cname_table_t \<times> sockaddr_in" where
  "caches s = (ipv4_table s, ipv6_table s, cname_table s, dns_address s)"

lemma send_response_parts:
  assumes "send_response s m = Inr (s', m')"
  obtains "s' = s"
  | k address buf t where "hash_table_get (clients_hash_table s) k = Inr (Some address)"
    "hash_table_remove (clients_hash_table s) k = Inr t"
    "s' = s\<lparr>bind_data := Some buf,
            sent := sent s @ [\<lparr>pk_socket = Bind_Socket, pk_buf = buf, pk_to = address\<rparr>],
            clients_hash_table := t\<rparr>"
proof -
  from assms obtain k a where k: "message2feature_string m = Inr k" "hash_table_get (clients_hash_table s) k = Inr a"
    by (auto simp: send_response_def bindE_eq_Inr_iff)
  show thesis
  proof (cases a)
    case None
    with k assms show ?thesis by (intro that(1)) (simp add: send_response_def)
  next
    case (Some address)
    with k assms obtain buf t where "hash_table_remove (clients_hash_table s) k = Inr t"
      "s' = s\<lparr>bind_data := Some buf,
              sent := sent s @ [\<lparr>pk_socket = Bind_Socket, pk_buf = buf, pk_to = address\<rparr>],
              clients_hash_table := t\<rparr>"
      by (auto simp: send_response_def Let_def bindE_eq_Inr_iff)
    with k(2) Some show ?thesis by (intro that(2)) simp_all
  qed
qed

lemma send_response_caches: "send_response s m = Inr (s', m') \<Longrightarrow> caches s' = caches s"
  by (erule send_response_parts) (simp_all add: caches_def)

lemma send_response_sends_to:
  assumes run: "send_response s m = Inr (s', m')" and ok: "sends_to asked s"
  shows "sends_to asked s'"
  using run
proof (cases rule: send_response_parts)
  case (2 k address buf t)
  have "address \<in> asked" using hash_table_get_data [OF 2(1)] ok by (auto simp: sends_to_def)
  with 2(3) ok hash_table_remove_data [OF 2(2)] show ?thesis by (auto simp: sends_to_def)
qed (use ok in simp)

lemma answer_request_parts:
  assumes "answer_request qs m reply st s = Inr (s', m')"
  obtains r m2 where "send_response s r = Inr (s', m2)" | "send_query s m = Inr (s', m')"
  using assms by (cases "cached st") (auto simp: answer_request_def bindE_eq_Inr_iff)

lemma answer_request_caches:
  assumes "answer_request qs m reply st s = Inr (s', m')"
  shows "caches s' = caches s"
  using assms
proof (cases rule: answer_request_parts)
  case (1 r m2)
  then show ?thesis by (rule send_response_caches)
next
  case 2
  then show ?thesis by (auto simp: send_query_def Let_def bindE_eq_Inr_iff caches_def)
qed

lemma answer_request_sends_to:
  assumes "answer_request qs m reply st s = Inr (s', m')" and ok: "sends_to asked s"
  shows "sends_to asked s'"
  using assms(1)
proof (cases rule: answer_request_parts)
  case (1 r m2)
  then show ?thesis using ok by (rule send_response_sends_to)
next
  case 2
  with ok show ?thesis by (auto simp: send_query_def Let_def bindE_eq_Inr_iff sends_to_def split: if_splits)
qed

section \<open>What every datagram keeps\<close>

definition caches_inv :: "server_t \<Rightarrow> bool" where
  "caches_inv s \<longleftrightarrow> ht_inv (ipv4_table s) \<and> ht_inv (ipv6_table s) \<and> ht_inv (cname_table s) \<and>
     v4_filled (ipv4_table s)"

lemma caches_inv_cong: "caches s' = caches s \<Longrightarrow> caches_inv s' = caches_inv s"
  by (simp add: caches_def caches_inv_def)

lemma lookup_query_table:
  assumes inv: "caches_inv s" and t: "ht_inv (lookup_table st)" "same_nodes (lookup_table st) (ipv4_table s)"
    and run: "lookup_query s qs i st = Inr st'"
  shows "ht_inv (lookup_table st') \<and> same_nodes (lookup_table st') (ipv4_table s)"
proof (cases "cached st")
  case False
  with run t show ?thesis by (simp add: lookup_query_def)
next
  case True
  let ?s = "s\<lparr>clients_hash_table := hash_table_new\<rparr>"
  have "lookup_query ?s qs i st = lookup_query s qs i st"
    by (simp add: lookup_query_def cong: if_cong)
  moreover have "srv_inv ?s" using inv by (simp add: srv_inv_def caches_inv_def new_correct)
  moreover have "i < length qs"
    using run True by (auto simp: lookup_query_def bindE_eq_Inr_iff arr_get_def split: if_splits)
  ultimately have "counted ?s (qs ! i) st st'"
    using lookup_query_counted [of ?s i qs st st'] True t run by simp
  then have "ht_inv (lookup_table st')" "same_nodes (lookup_table st') (lookup_table st)"
    by (simp_all add: counted_def)
  with t(2) show ?thesis by (simp add: same_nodes_def)
qed

lemma first_pass_table:
  assumes inv: "caches_inv s"
    and run: "forE n 0 (lookup_query s qs)
       \<lparr>cached = True, banned = False, reply_count = 0, lookup_table = ipv4_table s\<rparr> = Inr st"
  shows "ht_inv (lookup_table st) \<and> same_nodes (lookup_table st) (ipv4_table s)"
proof (rule forE_inv [OF run,
      where I = "\<lambda>_ st. ht_inv (lookup_table st) \<and> same_nodes (lookup_table st) (ipv4_table s)"])
qed (use inv lookup_query_table [OF inv] in \<open>auto simp: caches_inv_def\<close>)

lemma bind_socket_read_parts:
  assumes run: "bind_socket_read fresh number base address s = Inr s'" and n: "0 < number"
  obtains k t qs m c reply st m' where
    "hash_table_put (clients_hash_table s) (Some k) (Some address) = Inr t"
    "forE c 0 (lookup_query (s\<lparr>clients_hash_table := t\<rparr>) qs)
       \<lparr>cached = True, banned = False, reply_count = 0, lookup_table = ipv4_table s\<rparr> = Inr st"
    "answer_request qs m reply st (s\<lparr>clients_hash_table := t, ipv4_table := lookup_table st\<rparr>) = Inr (s', m')"
  using run n unfolding bind_socket_read_def
  by (auto simp: bindE_eq_Inr_iff Let_def simp del: forE.simps)

lemma bind_socket_read_sends_to:
  assumes run: "bind_socket_read fresh number base address s = Inr s'"
    and ok: "sends_to asked s" and a: "address \<in> asked"
  shows "sends_to asked s' \<and> dns_address s' = dns_address s"
proof (cases "0 < number")
  case False
  with run ok show ?thesis by (simp add: bind_socket_read_def)
next
  case True
  from bind_socket_read_parts [OF run True] obtain k t qs m reply st m' where
    p: "hash_table_put (clients_hash_table s) (Some k) (Some address) = Inr t"
    "answer_request qs m reply st (s\<lparr>clients_hash_table := t, ipv4_table := lookup_table st\<rparr>) = Inr (s', m')"
    by metis
  have "sends_to asked (s\<lparr>clients_hash_table := t, ipv4_table := lookup_table st\<rparr>)"
    using hash_table_put_data [OF p(1)] ok a by (auto simp: sends_to_def)
  from answer_request_sends_to [OF p(2) this] answer_request_caches [OF p(2)] show ?thesis
    by (simp add: caches_def)
qed

lemma bind_socket_read_keeps:
  assumes run: "bind_socket_read fresh number base address s = Inr s'" and inv: "caches_inv s"
  shows "caches_inv s'"
proof (cases "0 < number")
  case False
  with run inv show ?thesis by (simp add: bind_socket_read_def)
next
  case True
  from bind_socket_read_parts [OF run True] obtain k t qs m c reply st m' where
    p: "forE c 0 (lookup_query (s\<lparr>clients_hash_table := t\<rparr>) qs)
       \<lparr>cached = True, banned = False, reply_count = 0, lookup_table = ipv4_table s\<rparr> = Inr st"
    "answer_request qs m reply st (s\<lparr>clients_hash_table := t, ipv4_table := lookup_table st\<rparr>) = Inr (s', m')"
    by metis
  let ?u = "s\<lparr>clients_hash_table := t, ipv4_table := lookup_table st\<rparr>"
  have "caches_inv (s\<lparr>clients_hash_table := t\<rparr>)" using inv by (simp add: caches_inv_def)
  from first_pass_table [OF this, of c qs st] p(1)
  have "ht_inv (lookup_table st)" "same_nodes (lookup_table st) (ipv4_table s)" by simp_all
  with inv same_nodes_filled [of "lookup_table st" "ipv4_table s"] have "caches_inv ?u" by (simp add: caches_inv_def)
  with answer_request_caches [OF p(2)] show ?thesis using caches_inv_cong [of s' ?u] by blast
qed

lemma collect_answer_keeps:
  assumes run: "collect_answer now rrs i (c, t) = Inr (c', t')" and t: "ht_inv t"
    and c: "ipv4_domain c = None \<or> ipv4_nodes c \<noteq> []"
  shows "ht_inv t' \<and> (ipv4_domain c' = None \<or> ipv4_nodes c' \<noteq> [])"
proof -
  from run obtain rr where rr: "arr_get rrs i = Inr rr" by (auto simp: collect_answer_def bindE_eq_Inr_iff)
  show ?thesis
  proof (cases "rr_type rr = 5")
    case False
    with run rr t c show ?thesis
      by (auto simp: collect_answer_def bindE_eq_Inr_iff split: if_splits rdata_t.splits)
  next
    case True
    with run rr obtain e where c': "c' = c" and put: "hash_table_put t (Some (rr_name rr)) (Some e) = Inr t'"
      by (auto simp: collect_answer_def cname_cache_put_def Let_def bindE_eq_Inr_iff split: if_splits rdata_t.splits)
    from put_run [OF t put] c c' show ?thesis by simp
  qed
qed

lemma ipv4_cache_put_keeps:
  assumes run: "ipv4_cache_put now t k c = Inr t'" and t: "ht_inv t" "v4_filled t" and c: "v4_node c \<noteq> []"
  shows "ht_inv t' \<and> v4_filled t'"
proof -
  from run have "t' = t \<or> (\<exists>e. v4_node e = v4_node c \<and>
      (hash_table_put t (Some k) (Some e) = Inr t' \<or> hash_table_store t k e = Inr t'))"
    by (auto simp: ipv4_cache_put_def bindE_eq_Inr_iff ipv4_item_def split: option.splits if_splits)
  then have "ht_inv t' \<and> (t' = t \<or> (\<exists>e. v4_node e = v4_node c \<and> ht_lookup t' = (ht_lookup t)(k \<mapsto> e)))"
    using put_run [OF t(1), of k _ t'] store_run [OF t(1), of k _ t'] t(1) by blast
  with t(2) c show ?thesis by (auto simp: v4_filled_def split: if_splits)
qed

lemma ipv6_cache_put_keeps:
  assumes run: "ipv6_cache_put now t k c = Inr t'" and t: "ht_inv t"
  shows "ht_inv t'"
proof -
  from run obtain e where "hash_table_put t (Some k) (Some e) = Inr t' \<or> hash_table_store t k e = Inr t'"
    by (auto simp: ipv6_cache_put_def bindE_eq_Inr_iff split: option.splits)
  with put_run [OF t, of k e t'] store_run [OF t, of k e t'] show ?thesis by auto
qed

lemma store_collected_parts:
  assumes "store_collected now c s = Inr s'"
  obtains t4 t6 where "s' = s\<lparr>ipv4_table := t4, ipv6_table := t6\<rparr>"
    "(case ipv4_domain c of None \<Rightarrow> Inr (ipv4_table s)
         | Some d \<Rightarrow> ipv4_cache_put now (ipv4_table s) d
             \<lparr>v4_node = ipv4_nodes c, v4_ttl = 120, v4_timestamp = now, v4_manual = False\<rparr>) = Inr t4"
    "(case ipv6_domain c of None \<Rightarrow> Inr (ipv6_table s)
         | Some d \<Rightarrow> ipv6_cache_put now (ipv6_table s) d
             \<lparr>v6_node = ipv6_nodes c, v6_ttl = 120, v6_timestamp = now, v6_manual = False\<rparr>) = Inr t6"
  using assms by (auto simp: store_collected_def bindE_eq_Inr_iff)

lemma store_collected_keeps:
  assumes run: "store_collected now c s = Inr s'" and inv: "caches_inv s"
    and c: "ipv4_domain c = None \<or> ipv4_nodes c \<noteq> []"
  shows "caches_inv s'"
  using run
proof (cases rule: store_collected_parts)
  case (1 t4 t6)
  have "ht_inv t4 \<and> v4_filled t4"
  proof (cases "ipv4_domain c")
    case (Some d)
    with 1(2) have "ipv4_cache_put now (ipv4_table s) d
        \<lparr>v4_node = ipv4_nodes c, v4_ttl = 120, v4_timestamp = now, v4_manual = False\<rparr> = Inr t4" by simp
    from ipv4_cache_put_keeps [OF this] inv c Some show ?thesis by (simp add: caches_inv_def)
  qed (use 1(2) inv in \<open>simp add: caches_inv_def\<close>)
  moreover have "ht_inv t6"
    using 1(3) inv ipv6_cache_put_keeps by (cases "ipv6_domain c") (auto simp: caches_inv_def)
  ultimately show ?thesis using 1(1) inv by (simp add: caches_inv_def)
qed

lemma query_socket_read_parts:
  assumes run: "query_socket_read now number base s = Inr s'" and n: "0 < number"
  obtains rrs k c t s1 m m' where
    "forE k 0 (collect_answer now rrs) (nothing_collected, cname_table s) = Inr (c, t)"
    "store_collected now c (s\<lparr>cname_table := t\<rparr>) = Inr s1"
    "send_response s1 m = Inr (s', m')"
  using run n unfolding query_socket_read_def
  by (auto simp: bindE_eq_Inr_iff simp del: forE.simps)

lemma query_socket_read_sends_to:
  assumes run: "query_socket_read now number base s = Inr s'" and ok: "sends_to asked s"
  shows "sends_to asked s' \<and> dns_address s' = dns_address s"
proof (cases "0 < number")
  case False
  with run ok show ?thesis by (simp add: query_socket_read_def)
next
  case True
  from query_socket_read_parts [OF run True] obtain c t s1 m m' where
    p: "store_collected now c (s\<lparr>cname_table := t\<rparr>) = Inr s1" "send_response s1 m = Inr (s', m')" by metis
  from p(1) obtain t4 t6 where "s1 = s\<lparr>cname_table := t, ipv4_table := t4, ipv6_table := t6\<rparr>"
    by (auto elim: store_collected_parts)
  with ok send_response_sends_to [OF p(2), of asked] send_response_caches [OF p(2)] show ?thesis
    by (simp add: caches_def)
qed

lemma query_socket_read_keeps:
  assumes run: "query_socket_read now number base s = Inr s'" and inv: "caches_inv s"
  shows "caches_inv s'"
proof (cases "0 < number")
  case False
  with run inv show ?thesis by (simp add: query_socket_read_def)
next
  case True
  let ?I = "\<lambda>(_ :: nat) (c, t). ht_inv t \<and> (ipv4_domain c = None \<or> ipv4_nodes c \<noteq> [])"
  from query_socket_read_parts [OF run True] obtain rrs k c t s1 m m' where
    p: "forE k 0 (collect_answer now rrs) (nothing_collected, cname_table s) = Inr (c, t)"
    "store_collected now c (s\<lparr>cname_table := t\<rparr>) = Inr s1" "send_response s1 m = Inr (s', m')" .
  have "?I (0 + k) (c, t)"
  proof (rule forE_inv [OF p(1), where I = ?I])
    fix i u u'
    assume "?I i u" "collect_answer now rrs i u = Inr u'"
    with collect_answer_keeps [of now rrs i "fst u" "snd u" "fst u'" "snd u'"] show "?I (Suc i) u'"
      by (simp add: case_prod_beta)
  qed (use inv in \<open>simp add: caches_inv_def nothing_collected_def\<close>)
  then have c: "ht_inv t" "ipv4_domain c = None \<or> ipv4_nodes c \<noteq> []" by simp_all
  have "caches_inv (s\<lparr>cname_table := t\<rparr>)" using inv c(1) by (simp add: caches_inv_def)
  from store_collected_keeps [OF p(2) this c(2)] caches_inv_cong [OF send_response_caches [OF p(3)]]
  show ?thesis by simp
qed

section \<open>Invariants of every run\<close>

definition event_source :: "event \<Rightarrow> sockaddr_in set" where
  "event_source e = (case e of Client_Datagram n b a \<Rightarrow> {a} | _ \<Rightarrow> {})"

lemma signal_step: "sigint_callback signum s = Inr (Some s') \<Longrightarrow> s' = s"
  by (auto simp: sigint_callback_def bindE_eq_Inr_iff split: if_splits)

lemma server_step_sends_to:
  assumes step: "server_step (Running s) e (Running s')" and ok: "sends_to asked s" "event_source e \<subseteq> asked"
  shows "sends_to asked s' \<and> dns_address s' = dns_address s"
proof (cases e)
  case (Client_Datagram n b a)
  with step obtain fresh where run: "bind_socket_read fresh n b a s = Inr s'" by (auto simp: server_step_simps)
  from Client_Datagram ok(2) have "a \<in> asked" by (simp add: event_source_def)
  with bind_socket_read_sends_to [OF run ok(1)] show ?thesis .
next
  case (Upstream_Datagram n b)
  with step obtain now where "query_socket_read now n b s = Inr s'" by (auto simp: server_step_simps)
  from query_socket_read_sends_to [OF this ok(1)] show ?thesis .
next
  case Clear_Timer
  with step ok show ?thesis by (auto simp: server_step_simps clear_callback_def bindE_eq_Inr_iff)
next
  case (Signal signum)
  with step ok show ?thesis by (auto simp: server_step_simps dest: signal_step)
qed

lemma server_runs_sends_to:
  assumes run: "server_runs (Running s) es (Running s')" and ok: "sends_to asked s"
    and e: "\<Union> (event_source ` set es) \<subseteq> asked"
  shows "sends_to asked s' \<and> dns_address s' = dns_address s"
proof (rule server_runs_invariant [OF run refl,
      where P = "\<lambda>u. sends_to asked u \<and> dns_address u = dns_address s"])
  fix u e' u'
  assume "e' \<in> set es" "sends_to asked u \<and> dns_address u = dns_address s"
    "server_step (Running u) e' (Running u')"
  with server_step_sends_to [of u e' u' asked] e
  show "sends_to asked u' \<and> dns_address u' = dns_address s" by auto
qed (use ok in simp)

lemma server_step_caches:
  assumes step: "server_step (Running s) e (Running s')" and inv: "caches_inv s" and e: "e \<noteq> Clear_Timer"
  shows "caches_inv s'"
  using e step bind_socket_read_keeps [OF _ inv] query_socket_read_keeps [OF _ inv] inv
  by (cases e) (auto simp: server_step_simps dest: signal_step)

lemma server_runs_caches:
  assumes run: "server_runs (Running s) es (Running s')" and inv: "caches_inv s" and e: "Clear_Timer \<notin> set es"
  shows "caches_inv s'"
proof (rule server_runs_invariant [OF run refl, where P = caches_inv])
  fix u e' u'
  assume "e' \<in> set es" "caches_inv u" "server_step (Running u) e' (Running u')"
  with server_step_caches [of u e' u'] e show "caches_inv u'" by auto
qed (rule inv)

end
