(* ===== verification/Exchange.thy ===== *)
theory Exchange
  imports Server_Main
begin

text \<open>
  A question that goes upstream and comes back, and the same question answered from the cache.
\<close>

section \<open>Few waiting clients\<close>

lemma ht_size_empty: "ht_wf t \<Longrightarrow> ht_lookup t = Map.empty \<Longrightarrow> ht_size t = 0"
proof -
  assume wf: "ht_wf t" and e: "ht_lookup t = Map.empty"
  have "bucket_entries b = []" if "b \<in> set (ht_table t)" for b
  proof (rule ccontr)
    assume "bucket_entries b \<noteq> []"
    then obtain k d where kd: "(k, d) \<in> set (bucket_entries b)" by (cases "bucket_entries b") auto
    from that wf obtain i where i: "i < ht_capacity t" "b = ht_table t ! i"
      by (auto simp: in_set_conv_nth ht_wf_def)
    with wf kd have "ht_index (ht_capacity t) k = i" unfolding ht_wf_def bucket_ok_def Let_def by force
    with kd i have "(k, d) \<in> set (ht_entries t k)" by (simp add: ht_entries_def)
    with ht_wfD(2) [OF wf] have "ht_lookup t k = Some d" by (simp add: ht_lookup_def)
    with e show False by simp
  qed
  then show "ht_size t = 0" by (simp add: ht_size_def)
qed

lemma ht_size_shallow: "ht_size t \<le> 2 \<Longrightarrow> ht_shallow t"
proof -
  assume "ht_size t \<le> 2"
  then have "length (bucket_entries b) \<le> 2" if "b \<in> set (ht_table t)" for b
    using member_le_sum_list [of "length (bucket_entries b)" "map (\<lambda>b. length (bucket_entries b)) (ht_table t)"] that
    by (auto simp: ht_size_def)
  then show "ht_shallow t" by (simp add: ht_shallow_def list_all_iff)
qed

lemma put_first_removable:
  assumes inv: "ht_inv t" and room: "ht_room t" and e: "ht_lookup t = Map.empty"
    and put: "hash_table_put t (Some k) (Some d) = Inr t'"
  shows "ht_inv t' \<and> ht_lookup t' = [k \<mapsto> d] \<and> ht_removable t' k"
proof -
  from put_absent_correct [OF inv _ room, of k d] e put
  have t': "ht_inv t'" "ht_lookup t' = [k \<mapsto> d]" "ht_size t' = ht_size t + 1" by (auto split: if_splits)
  have "ht_size t = 0" using ht_size_empty [OF _ e] inv by (simp add: ht_inv_def)
  with t'(3) have "ht_shallow t'" by (intro ht_size_shallow) simp
  with t'(1,2) ht_shallow_removable [of t' k] show ?thesis by (simp add: ht_inv_def)
qed

section \<open>A question that goes upstream\<close>

text \<open>
  No client waits, a question comes in that the caches do not know, and the reply of the upstream server
  to it, with the same question and id: the reply goes to the client, its records are cached and again no
  client waits.
\<close>

definition idle :: "server_t \<Rightarrow> bool" where
  "idle s \<longleftrightarrow> srv_inv s \<and> srv_room s \<and> ht_lookup (clients_hash_table s) = Map.empty"

lemma exchange_correct:
  assumes idle: "idle s" and tc: "room_for (length (answer_list m')) (cname_table s)"
    and req: "request m q number base" and miss: "answer_of s q = Inr Miss"
    and rep: "request m' q number' base'" and id: "msg_id m' = msg_id m"
  shows "\<exists>s1 s2. bind_socket_read fresh number base address s = Inr s1 \<and>
     query_socket_read now number' base' s1 = Inr s2 \<and>
     sent s1 = sent s @ [\<lparr>pk_socket = Query_Socket, pk_buf = wire_packet (prepare_message m),
                          pk_to = dns_address s\<rparr>] \<and>
     sent s2 = sent s1 @ [\<lparr>pk_socket = Bind_Socket, pk_buf = wire_packet (prepare_message m'),
                          pk_to = address\<rparr>] \<and>
     srv_inv s2 \<and> ht_lookup (clients_hash_table s2) = Map.empty \<and>
     ht_lookup (ipv6_table s2) = v6_update now (answer_list m') (ht_lookup (ipv6_table s)) \<and>
     ht_lookup (cname_table s2) = ht_lookup (cname_table s) ++ learned now (answer_list m') \<and>
     (\<exists>m4. (\<forall>d. map_option v4_node (m4 d) = map_option v4_node (ht_lookup (ipv4_table s) d)) \<and>
        ht_lookup (ipv4_table s2) = v4_update now (answer_list m') m4)"
proof -
  from idle have inv: "srv_inv s" and rooms: "ht_room (ipv4_table s)" "ht_room (ipv6_table s)"
    "ht_room (clients_hash_table s)" and none: "ht_lookup (clients_hash_table s) = Map.empty"
    by (simp_all add: idle_def srv_room_def)
  have cl: "ht_inv (clients_hash_table s)" using inv by (simp add: srv_inv_def)
  from put_correct [OF cl rooms(3), of "feature_of m" address] obtain t where
    t: "hash_table_put (clients_hash_table s) (Some (feature_of m)) (Some address) = Inr t" by blast
  have filed: "filed s m address t" using t by (simp add: filed_def)
  from bind_socket_read_correct [OF inv rooms(3) req filed _ miss, of fresh] obtain s1 where
    s1: "bind_socket_read fresh number base address s = Inr s1" "srv_inv s1"
      "sent s1 = sent s @ [outcome s m address Miss]"
      "same_nodes (ipv4_table s1) (ipv4_table s)" "ipv6_table s1 = ipv6_table s"
      "cname_table s1 = cname_table s" "ht_room (ipv4_table s1)"
      "ht_lookup (clients_hash_table s1) = [feature_of m \<mapsto> address]" "clients_hash_table s1 = t"
    using rooms(1) none by (auto simp: outcome_fits_def)
  have f: "feature_of m' = feature_of m"
    using req rep id by (intro feature_of_reply) (simp_all add: request_def)
  have rem: "ht_removable (clients_hash_table s1) (feature_of m')"
    using put_first_removable [OF cl rooms(3) none t] f s1(9) by simp
  from query_socket_read_correct [OF s1(2) rep _ _ _ _ rem, of address now] rooms(2) tc s1 f obtain s2 where
    "query_socket_read now number' base' s1 = Inr s2" "srv_inv s2"
    "sent s2 = sent s1 @ [\<lparr>pk_socket = Bind_Socket, pk_buf = wire_packet (prepare_message m'), pk_to = address\<rparr>]"
    "ht_lookup (clients_hash_table s2) = Map.empty"
    "ht_lookup (ipv4_table s2) = v4_update now (answer_list m') (ht_lookup (ipv4_table s1))"
    "ht_lookup (ipv6_table s2) = v6_update now (answer_list m') (ht_lookup (ipv6_table s))"
    "ht_lookup (cname_table s2) = ht_lookup (cname_table s) ++ learned now (answer_list m')" by auto
  with s1 show ?thesis
    by (intro exI [of _ s1] exI [of _ s2]) (auto simp: outcome_def same_nodes_def)
qed

section \<open>The same question again\<close>

lemma chain_of_no_alias:
  assumes "ht_inv (cname_table s)" "ht_lookup (cname_table s) name = None"
  shows "chain_of s name = Inr ([], name)"
  unfolding chain_of_def
  by (rule follow_cname_ends [OF assms(1)]) (use assms(2) in \<open>simp add: cname_next_def chain_end\<close>)

lemma answer_of_address:
  assumes inv: "srv_inv s" and q: "q_type q = 1" "ht_lookup (cname_table s) (q_name q) = None"
  shows "answer_of s q = Inr (case ht_lookup (ipv4_table s) (q_name q) of
     None \<Rightarrow> Miss
   | Some c \<Rightarrow> if hd (v4_node c) = 0 then Blocked
               else Hit (map (generate_ipv4_response (q_name q)) (v4_node c)))"
proof -
  have ch: "chain_of s (q_name q) = Inr ([], q_name q)"
    by (rule chain_of_no_alias) (use inv q in \<open>simp_all add: srv_inv_def\<close>)
  show ?thesis
    by (simp add: answer_of_def ch q(1) query_records_def cname_records_def split: option.split)
qed

text \<open>A reply that holds addresses of the name asked for, and nothing else.\<close>

definition addresses_reply :: "string_t \<Rightarrow> u32 list \<Rightarrow> message_t \<Rightarrow> bool" where
  "addresses_reply name as m \<longleftrightarrow> list_all2 (\<lambda>rr a. rr_name rr = name \<and> rr_type rr = 1 \<and> rr_data rr = Address4 a)
     (answer_list m) as"

lemma addresses_reply_records:
  assumes "addresses_reply name as m"
  shows "v4_records (answer_list m) = map (\<lambda>a. (name, a)) as" "learned now (answer_list m) = Map.empty"
proof -
  have r: "v4_records rrs = map (\<lambda>a. (name, a)) as \<and> alias_records rrs = []"
    if "list_all2 (\<lambda>rr a. rr_name rr = name \<and> rr_type rr = 1 \<and> rr_data rr = Address4 a) rrs as" for rrs
    using that by (induction rrs as rule: list_all2_induct) (auto simp: v4_records_def alias_records_def)
  from r [OF assms [unfolded addresses_reply_def]]
  show "v4_records (answer_list m) = map (\<lambda>a. (name, a)) as" "learned now (answer_list m) = Map.empty"
    by (simp_all add: learned_def)
qed

lemma learned_then_served:
  assumes idle: "idle s" and tc: "room_for (length as) (cname_table s)"
    and req: "request m q number base" and miss: "answer_of s q = Inr Miss"
    and q: "q_type q = 1" "ht_lookup (cname_table s) (q_name q) = None"
    and rep: "request m' q number' base'" and id: "msg_id m' = msg_id m"
    and as: "addresses_reply (q_name q) as m'" "as \<noteq> []" "hd as \<noteq> 0"
  shows "\<exists>s1 s2. bind_socket_read fresh number base address s = Inr s1 \<and>
     query_socket_read now number' base' s1 = Inr s2 \<and>
     answer_of s2 q = Inr (Hit (map (generate_ipv4_response (q_name q)) as))"
proof -
  have len: "length (answer_list m') = length as"
    using as(1) by (auto simp: addresses_reply_def dest: list_all2_lengthD)
  from exchange_correct [OF idle _ req miss rep id, of fresh address now] tc len obtain s1 s2 m4 where
    run: "bind_socket_read fresh number base address s = Inr s1" "query_socket_read now number' base' s1 = Inr s2"
      "srv_inv s2" and
    tabs: "ht_lookup (cname_table s2) = ht_lookup (cname_table s)"
      "\<forall>d. map_option v4_node (m4 d) = map_option v4_node (ht_lookup (ipv4_table s) d)"
      "ht_lookup (ipv4_table s2) = v4_update now (answer_list m') m4"
    using addresses_reply_records(2) [OF as(1)] by auto
  have "ht_lookup (ipv4_table s) (q_name q) = None"
    using miss answer_of_address [of s q] idle q by (auto simp: idle_def split: option.splits if_splits)
  then have "m4 (q_name q) = None" using tabs(2) by (metis map_option_is_None)
  moreover have "owner (v4_records (answer_list m')) = Some (q_name q)"
    using as(2) by (simp add: addresses_reply_records(1) [OF as(1)] owner_def last_map)
  ultimately have "\<exists>c. ht_lookup (ipv4_table s2) (q_name q) = Some c \<and> v4_node c = as"
    by (simp add: tabs(3) v4_update_def addresses_reply_records(1) [OF as(1)] comp_def)
  with answer_of_address [OF run(3), of q] q tabs(1) as(3) run show ?thesis
    by (intro exI [of _ s1] exI [of _ s2]) auto
qed

end
