(* ===== verification/Lifecycle.thy ===== *)
theory Lifecycle
  imports Exchange
begin

text \<open>
  The process outside its datagrams: the clear timer, the interrupt, and start-up from an abstract
  command line, with and without a configuration file.
\<close>

section \<open>The timer and the interrupt\<close>

lemma clear_callback_correct:
  assumes inv: "srv_inv s" and sh: "ht_shallow (ipv4_table s)" "ht_shallow (ipv6_table s)"
  shows "\<exists>s'. clear_callback now s = Inr s' \<and> srv_inv s' \<and>
     ht_lookup (ipv4_table s') = (\<lambda>k. case ht_lookup (ipv4_table s) k of None \<Rightarrow> None
        | Some c \<Rightarrow> if ipv4_stale now c then None else Some c) \<and>
     ht_lookup (ipv6_table s') = (\<lambda>k. case ht_lookup (ipv6_table s) k of None \<Rightarrow> None
        | Some c \<Rightarrow> if ipv6_stale now c then None else Some c) \<and>
     cname_table s' = cname_table s \<and> clients_hash_table s' = clients_hash_table s \<and> sent s' = sent s"
proof -
  from inv have i: "ht_inv (ipv4_table s)" "ht_inv (ipv6_table s)" by (simp_all add: srv_inv_def)
  from v4.clear_law [OF i(1) sh(1), of now] obtain t4 where t4: "ipv4_cache_clear now (ipv4_table s) = Inr t4"
    "ht_inv t4" "ht_lookup t4 = (\<lambda>k. case ht_lookup (ipv4_table s) k of None \<Rightarrow> None
        | Some c \<Rightarrow> if ipv4_stale now c then None else Some c)" by blast
  from v6.clear_law [OF i(2) sh(2), of now] obtain t6 where t6: "ipv6_cache_clear now (ipv6_table s) = Inr t6"
    "ht_inv t6" "ht_lookup t6 = (\<lambda>k. case ht_lookup (ipv6_table s) k of None \<Rightarrow> None
        | Some c \<Rightarrow> if ipv6_stale now c then None else Some c)" by blast
  have "v4_filled t4"
    using inv by (auto simp: v4_filled_def t4(3) srv_inv_def split: option.splits if_splits)
  with t4 t6 inv show ?thesis
    by (intro exI [of _ "s\<lparr>ipv4_table := t4, ipv6_table := t6\<rparr>"])
      (simp add: clear_callback_def cname_cache_clear_def srv_inv_def)
qed

lemma sigint_callback_correct:
  assumes "srv_inv s"
  shows "sigint_callback signum s = Inr (if signum = SIGINT then None else Some s)"
  using assms
  by (simp add: sigint_callback_def socket_free_def ipv4_cache_free_def ipv6_cache_free_def
      cname_cache_free_def hash_table_free_correct srv_inv_def ht_inv_def Let_def)

section \<open>Start-up\<close>

lemma config_init_options:
  assumes "list_all cli_ok opts"
  shows "\<exists>logs. config_init level (prog # concat (map cli_args opts)) =
     Inr (Configured \<lparr>config = fold cli_apply opts default_config, logging_level = level, config_log = logs\<rparr>)"
  using config_loop_options [OF assms, of "prog # concat (map cli_args opts)" "[prog]" 1
      "\<lparr>config = default_config, logging_level = level, config_log = [log_debug 19 []]\<rparr>"]
  by (simp add: config_init_def)

lemma any_address_text: "c_str (ascii ''0.0.0.0'') = dotted_quad (le32 0)"
  by (simp add: ascii_def c_str_def le32_def dotted_quad_def dec_digits.simps)

definition local_address :: "u16 \<Rightarrow> sockaddr_in" where
  "local_address port = \<lparr>sin_family = AF_INET, sin_port = htons port, s_addr = 0\<rparr>"

text \<open>The state after start-up.\<close>

definition started :: "server_t \<Rightarrow> u32 \<Rightarrow> server_t" where
  "started blank up =
     blank\<lparr>bind_address := local_address 53, bind_receiving := True, query_address := local_address 0,
       query_receiving := True, clients_hash_table := hash_table_new,
       dns_address := \<lparr>sin_family = AF_INET, sin_port = htons 53, s_addr = up\<rparr>,
       ipv4_table := hash_table_new, ipv6_table := hash_table_new, cname_table := hash_table_new\<rparr>"

lemma socket_init_correct:
  assumes "c_str u = dotted_quad (le32 up)" "\<forall>i. bind_result i = 0"
  shows "socket_init bind_result (Some u) s = Inr (Some (s\<lparr>bind_address := local_address 53, bind_receiving := True,
     query_address := local_address 0, query_receiving := True, clients_hash_table := hash_table_new,
     dns_address := \<lparr>sin_family = AF_INET, sin_port = htons 53, s_addr = up\<rparr>\<rparr>))"
  using assms
  by (simp add: socket_init_def uv_ip4_addr_text [OF any_address_text] uv_ip4_addr_text local_address_def)

lemma main_correct:
  assumes opts: "list_all cli_ok opts" and c: "c = fold cli_apply opts default_config"
    and f: "ipv4_config_file c = None" and u: "upstream_name c = Some u" "c_str u = dotted_quad (le32 up)"
    and b: "\<forall>i. bind_result i = 0"
  shows "main blank bind_result frame files now level (prog # concat (map cli_args opts)) =
     Inr (Some (started blank up)) \<and> idle (started blank up)"
proof -
  obtain logs where logs: "config_init level (prog # concat (map cli_args opts)) =
      Inr (Configured \<lparr>config = c, logging_level = level, config_log = logs\<rparr>)"
    using config_init_options [OF opts] c by blast
  have "main blank bind_result frame files now level (prog # concat (map cli_args opts)) =
     Inr (Some (started blank up))"
    unfolding main_def logs
    by (simp add: u(1) socket_init_correct [OF u(2) b] f ipv4_read_file_def started_def ipv4_cache_init_def
        ipv6_cache_init_def cname_cache_init_def)
  moreover have "idle (started blank up)"
    by (simp add: idle_def srv_inv_def srv_room_def started_def new_correct v4_filled_def)
  ultimately show ?thesis by blast
qed

text \<open>With a configuration file whose first line has two fields, start-up writes out of bounds.\<close>

lemma fgets_take_line: "10 \<notin> set cs \<Longrightarrow> length cs < n \<Longrightarrow> fgets_take n (cs @ 10 # rest) = cs @ [10]"
  by (induction n cs rule: fgets_take.induct) (auto simp: less_Suc_eq_0_disj)

lemma ipv4_read_file_strict:
  assumes nf: "{0, 10, 32} \<inter> set name = {}" "{0, 10, 32} \<inter> set field = {}"
    and len: "length name + length field < 1000"
    and f: "files fn = Some (name @ 32 # field @ 10 # rest)"
  shows "ipv4_read_file malloc_cells files now (Some fn) t = Inl Out_Of_Bounds"
proof -
  have l: "fgets_take 1023 (name @ 32 # field @ 10 # rest) = name @ 32 # field @ [10]"
    using fgets_take_line [of "name @ 32 # field" 1023 rest] nf len by simp
  have "ipv4_read_line malloc_cells now (name @ 32 # field @ [10]) t = Inl Out_Of_Bounds"
    using nf by (subst ipv4_read_line_two) (auto simp: ipv4_entry_strict)
  then show ?thesis
    using f l by (simp add: ipv4_read_file_def ipv4_read_lines.simps [of _ _ "name @ _"] Let_def)
qed

lemma main_config_file:
  assumes opts: "list_all cli_ok opts" and c: "c = fold cli_apply opts default_config"
    and f: "ipv4_config_file c = Some fn" "files fn = Some (name @ 32 # field @ 10 # rest)"
    and nf: "{0, 10, 32} \<inter> set name = {}" "{0, 10, 32} \<inter> set field = {}" "length name + length field < 1000"
    and u: "upstream_name c = Some u" "c_str u = dotted_quad (le32 up)" and b: "\<forall>i. bind_result i = 0"
  shows "main blank bind_result malloc_cells files now level (prog # concat (map cli_args opts)) = Inl Out_Of_Bounds"
proof -
  obtain logs where logs: "config_init level (prog # concat (map cli_args opts)) =
      Inr (Configured \<lparr>config = c, logging_level = level, config_log = logs\<rparr>)"
    using config_init_options [OF opts] c by blast
  show ?thesis
    unfolding main_def logs
    by (simp add: u(1) socket_init_correct [OF u(2) b] f(1) ipv4_read_file_strict [OF nf, where files = files, OF f(2)])
qed

end
