(* ===== verification/Uv_Heap.thy ===== *)
theory Uv_Heap
  imports Prelude
begin

text \<open>
  The binary heap of libuv's timers, \<open>src/libuv/src/heap-inl.h\<close>, with its pointers. An address is a number,
  \<open>None\<close> is the null pointer, and \<open>hp_nodes\<close> is the memory of the nodes. A loop that climbs or descends runs with
  a fuel above the number of nodes.
\<close>

unbundle bit_operations_syntax

section \<open>Nodes\<close>

record heap_node =
  hn_left :: "nat option"
  hn_right :: "nat option"
  hn_parent :: "nat option"

record heap =
  hp_min :: "nat option"
  hp_nelts :: u32
  hp_nodes :: "nat \<Rightarrow> heap_node option"

definition heap_init :: "heap \<Rightarrow> heap" where
  "heap_init h = h\<lparr>hp_min := None, hp_nelts := 0\<rparr>"

definition heap_min :: "heap \<Rightarrow> nat option" where
  "heap_min h = hp_min h"

text \<open>Reading and writing through a pointer.\<close>

definition node_at :: "heap \<Rightarrow> nat option \<Rightarrow> heap_node res" where
  "node_at h p = bindE (or_fail Null_Deref p) (\<lambda>a. or_fail Use_After_Free (hp_nodes h a))"

definition put_node :: "nat \<Rightarrow> heap_node \<Rightarrow> heap \<Rightarrow> heap" where
  "put_node a n h = h\<lparr>hp_nodes := (hp_nodes h)(a \<mapsto> n)\<rparr>"

definition upd_node :: "(heap_node \<Rightarrow> heap_node) \<Rightarrow> nat option \<Rightarrow> heap \<Rightarrow> heap res" where
  "upd_node f p h = bindE (node_at h p) (\<lambda>n. Inr (put_node (the p) (f n) h))"

definition set_left :: "nat option \<Rightarrow> nat option \<Rightarrow> heap \<Rightarrow> heap res" where
  "set_left v = upd_node (\<lambda>n. n\<lparr>hn_left := v\<rparr>)"

definition set_right :: "nat option \<Rightarrow> nat option \<Rightarrow> heap \<Rightarrow> heap res" where
  "set_right v = upd_node (\<lambda>n. n\<lparr>hn_right := v\<rparr>)"

definition set_parent :: "nat option \<Rightarrow> nat option \<Rightarrow> heap \<Rightarrow> heap res" where
  "set_parent v = upd_node (\<lambda>n. n\<lparr>hn_parent := v\<rparr>)"

text \<open>\<open>if (p != NULL) p->parent = v\<close>, and making \<open>new\<close> the child of \<open>up\<close> that \<open>old\<close> was.\<close>

definition adopt :: "nat \<Rightarrow> nat option \<Rightarrow> heap \<Rightarrow> heap res" where
  "adopt v p h = (if p \<noteq> None then set_parent (Some v) p h else Inr h)"

definition relink :: "nat option \<Rightarrow> nat \<Rightarrow> nat \<Rightarrow> heap \<Rightarrow> heap res" where
  "relink up old new h =
     (if up = None then Inr (h\<lparr>hp_min := Some new\<rparr>)
      else bindE (node_at h up) (\<lambda>g.
        if hn_left g = Some old then set_left (Some new) up h else set_right (Some new) up h))"

section \<open>Swapping a node with its parent\<close>

definition heap_node_swap :: "heap \<Rightarrow> nat \<Rightarrow> nat \<Rightarrow> heap res" where
  "heap_node_swap h parent child =
     bindE (node_at h (Some parent)) (\<lambda>t.
     bindE (node_at h (Some child)) (\<lambda>c.
     let h = put_node child t (put_node parent c h) in
     bindE (set_parent (Some child) (Some parent) h) (\<lambda>h.
     bindE (node_at h (Some child)) (\<lambda>c.
     bindE (if hn_left c = Some child
            then bindE (set_left (Some parent) (Some child) h) (\<lambda>h. Inr (h, hn_right c))
            else bindE (set_right (Some parent) (Some child) h) (\<lambda>h. Inr (h, hn_left c))) (\<lambda>(h, sibling).
     bindE (adopt child sibling h) (\<lambda>h.
     bindE (node_at h (Some parent)) (\<lambda>p.
     bindE (adopt parent (hn_left p) h) (\<lambda>h.
     bindE (node_at h (Some parent)) (\<lambda>p.
     bindE (adopt parent (hn_right p) h) (\<lambda>h.
     bindE (node_at h (Some child)) (\<lambda>c.
     relink (hn_parent c) parent child h)))))))))))"

section \<open>The path to a position\<close>

text \<open>The bits of \<open>n\<close> below its highest one, the first step in the lowest bit.\<close>

function path_loop :: "u32 \<Rightarrow> u32 \<Rightarrow> nat \<Rightarrow> u32 \<times> nat" where
  "path_loop path n k =
     (if n \<ge> 2 then path_loop (push_bit 1 path OR (n AND 1)) (n div 2) (k + 1) else (path, k))"
  by pat_completeness auto
termination
proof (relation "measure (\<lambda>(_, n, _). unat n)")
  fix path n :: u32 and k :: nat
  assume "2 \<le> n"
  then have "2 \<le> unat n" by (simp add: word_le_nat_alt)
  then show "((push_bit 1 path OR (n AND 1), n div 2, k + 1), path, n, k) \<in> measure (\<lambda>(_, n, _). unat n)"
    by (simp add: unat_div)
qed simp

declare path_loop.simps [simp del]

text \<open>A pointer to a pointer: to \<open>heap->min\<close> or to a field of a node.\<close>

datatype slot = Min_Slot | Left_Slot nat | Right_Slot nat

definition read_slot :: "heap \<Rightarrow> slot \<Rightarrow> nat option res" where
  "read_slot h s =
     (case s of
        Min_Slot \<Rightarrow> Inr (hp_min h)
      | Left_Slot a \<Rightarrow> bindE (node_at h (Some a)) (\<lambda>n. Inr (hn_left n))
      | Right_Slot a \<Rightarrow> bindE (node_at h (Some a)) (\<lambda>n. Inr (hn_right n)))"

definition write_slot :: "nat option \<Rightarrow> slot \<Rightarrow> heap \<Rightarrow> heap res" where
  "write_slot v s h =
     (case s of
        Min_Slot \<Rightarrow> Inr (h\<lparr>hp_min := v\<rparr>)
      | Left_Slot a \<Rightarrow> set_left v (Some a) h
      | Right_Slot a \<Rightarrow> set_right v (Some a) h)"

fun walk :: "heap \<Rightarrow> nat \<Rightarrow> u32 \<Rightarrow> slot \<Rightarrow> slot \<Rightarrow> (slot \<times> slot) res" where
  "walk h 0 path parent child = Inr (parent, child)"
| "walk h (Suc k) path parent child =
     bindE (read_slot h child) (\<lambda>p.
     bindE (or_fail Null_Deref p) (\<lambda>a.
     walk h k (drop_bit 1 path) child (if path AND 1 \<noteq> 0 then Right_Slot a else Left_Slot a)))"

section \<open>Restoring the order\<close>

text \<open>The comparison \<open>lt\<close> is a function of the two nodes.\<close>

type_synonym heap_compare_fn = "nat \<Rightarrow> nat \<Rightarrow> bool"

fun walk_up :: "nat \<Rightarrow> heap_compare_fn \<Rightarrow> nat \<Rightarrow> heap \<Rightarrow> heap res" where
  "walk_up 0 lt node h = Inl Diverges"
| "walk_up (Suc fuel) lt node h =
     bindE (node_at h (Some node)) (\<lambda>n.
     case hn_parent n of
       None \<Rightarrow> Inr h
     | Some p \<Rightarrow>
         (if lt node p then bindE (heap_node_swap h p node) (walk_up fuel lt node)
          else Inr h))"

definition smaller :: "heap_compare_fn \<Rightarrow> nat option \<Rightarrow> nat \<Rightarrow> nat" where
  "smaller lt p smallest =
     (case p of None \<Rightarrow> smallest | Some a \<Rightarrow> if lt a smallest then a else smallest)"

fun walk_down :: "nat \<Rightarrow> heap_compare_fn \<Rightarrow> nat \<Rightarrow> heap \<Rightarrow> heap res" where
  "walk_down 0 lt child h = Inl Diverges"
| "walk_down (Suc fuel) lt child h =
     bindE (node_at h (Some child)) (\<lambda>n.
     let smallest = smaller lt (hn_right n) (smaller lt (hn_left n) child)
     in if smallest = child then Inr h
        else bindE (heap_node_swap h child smallest) (walk_down fuel lt child))"

section \<open>Insertion and removal\<close>

definition heap_insert :: "heap_compare_fn \<Rightarrow> nat \<Rightarrow> heap \<Rightarrow> heap res" where
  "heap_insert lt newnode h =
     bindE (upd_node (\<lambda>_. \<lparr>hn_left = None, hn_right = None, hn_parent = None\<rparr>) (Some newnode) h) (\<lambda>h.
     let (path, k) = path_loop 0 (1 + hp_nelts h) 0 in
     bindE (walk h k path Min_Slot Min_Slot) (\<lambda>(parent, child).
     bindE (read_slot h parent) (\<lambda>p.
     bindE (set_parent p (Some newnode) h) (\<lambda>h.
     bindE (write_slot (Some newnode) child h) (\<lambda>h.
     let h = h\<lparr>hp_nelts := hp_nelts h + 1\<rparr>
     in walk_up (unat (hp_nelts h) + 1) lt newnode h)))))"

text \<open>Putting \<open>child\<close>, which is not linked any more, in the place of \<open>node\<close>.\<close>

definition replace_node :: "nat \<Rightarrow> nat \<Rightarrow> heap \<Rightarrow> heap res" where
  "replace_node node child h =
     bindE (node_at h (Some node)) (\<lambda>n.
     bindE (upd_node (\<lambda>_. \<lparr>hn_left = hn_left n, hn_right = hn_right n, hn_parent = hn_parent n\<rparr>) (Some child) h) (\<lambda>h.
     bindE (node_at h (Some child)) (\<lambda>c.
     bindE (adopt child (hn_left c) h) (\<lambda>h.
     bindE (node_at h (Some child)) (\<lambda>c.
     bindE (adopt child (hn_right c) h) (\<lambda>h.
     bindE (node_at h (Some node)) (\<lambda>n.
     relink (hn_parent n) node child h)))))))"

definition heap_remove :: "heap_compare_fn \<Rightarrow> nat \<Rightarrow> heap \<Rightarrow> heap res" where
  "heap_remove lt node h =
     (if hp_nelts h = 0 then Inr h
      else
        let (path, k) = path_loop 0 (hp_nelts h) 0 in
        bindE (walk h k path Min_Slot Min_Slot) (\<lambda>(_, slot).
        let h = h\<lparr>hp_nelts := hp_nelts h - 1\<rparr> in
        bindE (read_slot h slot) (\<lambda>child.
        bindE (write_slot None slot h) (\<lambda>h.
        if child = Some node then
          Inr (if child = hp_min h then h\<lparr>hp_min := None\<rparr> else h)
        else
          bindE (or_fail Null_Deref child) (\<lambda>child.
          bindE (replace_node node child h) (\<lambda>h.
          let fuel = unat (hp_nelts h) + 1 in
          bindE (walk_down fuel lt child h) (walk_up fuel lt child)))))))"

definition heap_dequeue :: "heap_compare_fn \<Rightarrow> heap \<Rightarrow> heap res" where
  "heap_dequeue lt h =
     (case hp_min h of None \<Rightarrow> if hp_nelts h = 0 then Inr h else Inl Null_Deref | Some m \<Rightarrow> heap_remove lt m h)"

end
