(* ===== verification/Uv_Timer.thy ===== *)
theory Uv_Timer
  imports Uv_Heap
begin

text \<open>
  The timers of libuv's event loop, \<open>src/libuv/src/timer.c\<close>, and the macros of \<open>uv-common.h\<close> that count active
  handles. A handle and the heap node inside it have the same address; \<open>lp_timers\<close> is the memory of the handles.
  The flags of a handle are booleans. What a callback does to the loop and to the state \<open>'s\<close> of the program is the
  argument \<open>call\<close> of \<open>uv__run_timers\<close>, whose loop runs with a fuel.
\<close>

section \<open>State\<close>

record 'cb uv_timer =
  tm_cb :: "'cb option"
  tm_timeout :: u64
  tm_repeat :: u64
  tm_start_id :: u64
  tm_active :: bool
  tm_closing :: bool
  tm_ref :: bool

record 'cb uv_loop =
  lp_time :: u64
  lp_timer_counter :: u64
  lp_active_handles :: u32
  lp_handle_queue :: "nat list"
  lp_timer_heap :: heap
  lp_timers :: "nat \<Rightarrow> 'cb uv_timer option"

definition timer_at :: "'cb uv_loop \<Rightarrow> nat \<Rightarrow> 'cb uv_timer res" where
  "timer_at l p = or_fail Use_After_Free (lp_timers l p)"

definition set_timer :: "nat \<Rightarrow> 'cb uv_timer \<Rightarrow> 'cb uv_loop \<Rightarrow> 'cb uv_loop" where
  "set_timer p t l = l\<lparr>lp_timers := (lp_timers l)(p \<mapsto> t)\<rparr>"

section \<open>Active handles\<close>

definition uv__handle_start :: "nat \<Rightarrow> 'cb uv_loop \<Rightarrow> 'cb uv_loop res" where
  "uv__handle_start p l =
     bindE (timer_at l p) (\<lambda>t.
     if tm_active t then Inr l
     else
       let l = set_timer p (t\<lparr>tm_active := True\<rparr>) l
       in Inr (if tm_ref t then l\<lparr>lp_active_handles := lp_active_handles l + 1\<rparr> else l))"

definition uv__handle_stop :: "nat \<Rightarrow> 'cb uv_loop \<Rightarrow> 'cb uv_loop res" where
  "uv__handle_stop p l =
     bindE (timer_at l p) (\<lambda>t.
     if \<not> tm_active t then Inr l
     else
       let l = set_timer p (t\<lparr>tm_active := False\<rparr>) l
       in Inr (if tm_ref t then l\<lparr>lp_active_handles := lp_active_handles l - 1\<rparr> else l))"

section \<open>The order of timers\<close>

definition timer_less_than :: "'cb uv_timer \<Rightarrow> 'cb uv_timer \<Rightarrow> bool" where
  "timer_less_than a b =
     (if tm_timeout a < tm_timeout b then True
      else if tm_timeout b < tm_timeout a then False
      else tm_start_id a < tm_start_id b)"

text \<open>The comparison of heap nodes: of the handles that contain them.\<close>

definition container_of :: "(nat \<Rightarrow> 'cb uv_timer option) \<Rightarrow> nat \<Rightarrow> 'cb uv_timer" where
  "container_of m p =
     (case m p of
        Some t \<Rightarrow> t
      | None \<Rightarrow> \<lparr>tm_cb = None, tm_timeout = 0, tm_repeat = 0, tm_start_id = 0, tm_active = False,
                 tm_closing = False, tm_ref = False\<rparr>)"

definition node_less_than :: "(nat \<Rightarrow> 'cb uv_timer option) \<Rightarrow> heap_compare_fn" where
  "node_less_than m ha hb = timer_less_than (container_of m ha) (container_of m hb)"

section \<open>Operations\<close>

definition uv_timer_init :: "nat \<Rightarrow> 'cb uv_loop \<Rightarrow> (int \<times> 'cb uv_loop) res" where
  "uv_timer_init p l =
     bindE (timer_at l p) (\<lambda>t.
     Inr (0, set_timer p (t\<lparr>tm_active := False, tm_closing := False, tm_ref := True, tm_cb := None,
                           tm_timeout := 0, tm_repeat := 0\<rparr>)
               (l\<lparr>lp_handle_queue := lp_handle_queue l @ [p]\<rparr>)))"

definition uv_timer_stop :: "nat \<Rightarrow> 'cb uv_loop \<Rightarrow> (int \<times> 'cb uv_loop) res" where
  "uv_timer_stop p l =
     bindE (timer_at l p) (\<lambda>t.
     if \<not> tm_active t then Inr (0, l)
     else
       bindE (heap_remove (node_less_than (lp_timers l)) p (lp_timer_heap l)) (\<lambda>h.
       bindE (uv__handle_stop p (l\<lparr>lp_timer_heap := h\<rparr>)) (\<lambda>l. Inr (0, l))))"

text \<open>The sum wraps; a wrapped sum is replaced by the largest time.\<close>

definition clamp :: "u64 \<Rightarrow> u64 \<Rightarrow> u64" where
  "clamp time timeout = (if time + timeout < timeout then - 1 else time + timeout)"

definition uv_timer_start ::
    "nat \<Rightarrow> 'cb option \<Rightarrow> u64 \<Rightarrow> u64 \<Rightarrow> 'cb uv_loop \<Rightarrow> (int \<times> 'cb uv_loop) res" where
  "uv_timer_start p cb timeout repeat l =
     bindE (timer_at l p) (\<lambda>t.
     if tm_closing t \<or> cb = None then Inr (UV_EINVAL, l)
     else
       bindE (if tm_active t then uv_timer_stop p l else Inr (0, l)) (\<lambda>(_, l).
       bindE (timer_at l p) (\<lambda>t.
       let l = set_timer p (t\<lparr>tm_cb := cb, tm_timeout := clamp (lp_time l) timeout, tm_repeat := repeat,
                             tm_start_id := lp_timer_counter l\<rparr>) l;
           l = l\<lparr>lp_timer_counter := lp_timer_counter l + 1\<rparr>
       in bindE (heap_insert (node_less_than (lp_timers l)) p (lp_timer_heap l)) (\<lambda>h.
          bindE (uv__handle_start p (l\<lparr>lp_timer_heap := h\<rparr>)) (\<lambda>l. Inr (0, l))))))"

definition uv_timer_again :: "nat \<Rightarrow> 'cb uv_loop \<Rightarrow> (int \<times> 'cb uv_loop) res" where
  "uv_timer_again p l =
     bindE (timer_at l p) (\<lambda>t.
     if tm_cb t = None then Inr (UV_EINVAL, l)
     else if tm_repeat t \<noteq> 0 then
       bindE (uv_timer_stop p l) (\<lambda>(_, l).
       bindE (timer_at l p) (\<lambda>t.
       bindE (uv_timer_start p (tm_cb t) (tm_repeat t) (tm_repeat t) l) (\<lambda>(_, l). Inr (0, l))))
     else Inr (0, l))"

definition uv_timer_set_repeat :: "nat \<Rightarrow> u64 \<Rightarrow> 'cb uv_loop \<Rightarrow> 'cb uv_loop res" where
  "uv_timer_set_repeat p repeat l = bindE (timer_at l p) (\<lambda>t. Inr (set_timer p (t\<lparr>tm_repeat := repeat\<rparr>) l))"

definition uv_timer_get_repeat :: "nat \<Rightarrow> 'cb uv_loop \<Rightarrow> u64 res" where
  "uv_timer_get_repeat p l = bindE (timer_at l p) (\<lambda>t. Inr (tm_repeat t))"

definition uv_timer_get_due_in :: "nat \<Rightarrow> 'cb uv_loop \<Rightarrow> u64 res" where
  "uv_timer_get_due_in p l =
     bindE (timer_at l p) (\<lambda>t. Inr (if lp_time l \<ge> tm_timeout t then 0 else tm_timeout t - lp_time l))"

text \<open>How long the loop may wait for events: -1 without limit, at most the largest \<open>int\<close>.\<close>

definition uv__next_timeout :: "'cb uv_loop \<Rightarrow> int res" where
  "uv__next_timeout l =
     (case heap_min (lp_timer_heap l) of
        None \<Rightarrow> Inr (- 1)
      | Some p \<Rightarrow>
          bindE (timer_at l p) (\<lambda>t.
          if tm_timeout t \<le> lp_time l then Inr 0
          else
            let diff = tm_timeout t - lp_time l
            in Inr (uint (if diff > 2147483647 then 2147483647 else diff))))"

fun uv__run_timers ::
    "nat \<Rightarrow> ('cb \<Rightarrow> nat \<Rightarrow> 's \<times> 'cb uv_loop \<Rightarrow> ('s \<times> 'cb uv_loop) res) \<Rightarrow> 's \<times> 'cb uv_loop \<Rightarrow> ('s \<times> 'cb uv_loop) res" where
  "uv__run_timers 0 call st = Inl Diverges"
| "uv__run_timers (Suc fuel) call (s, l) =
     (case heap_min (lp_timer_heap l) of
        None \<Rightarrow> Inr (s, l)
      | Some p \<Rightarrow>
          bindE (timer_at l p) (\<lambda>t.
          if tm_timeout t > lp_time l then Inr (s, l)
          else
            bindE (uv_timer_stop p l) (\<lambda>(_, l).
            bindE (uv_timer_again p l) (\<lambda>(_, l).
            bindE (timer_at l p) (\<lambda>t.
            bindE (or_fail Null_Deref (tm_cb t)) (\<lambda>cb.
            bindE (call cb p (s, l)) (uv__run_timers fuel call)))))))"

definition uv__timer_close :: "nat \<Rightarrow> 'cb uv_loop \<Rightarrow> 'cb uv_loop res" where
  "uv__timer_close p l = bindE (uv_timer_stop p l) (\<lambda>(_, l). Inr l)"

end
