(* ===== verification/Uv_Heap_Tree.thy ===== *)
theory Uv_Heap_Tree
  imports Uv_Heap "HOL-Library.Tree" "HOL-Library.Multiset" "HOL-Library.Sublist"
begin

text \<open>
  The trees the heap stands for. A position is the list of turns from the root, \<open>True\<close> to the right; \<open>index\<close> numbers
  the positions row by row. A context is a tree with a hole: the turns, nodes and siblings above it, inside out.
\<close>

section \<open>Positions\<close>

fun positions :: "'a tree \<Rightarrow> bool list set" where
  "positions Leaf = {}"
| "positions (Node l x r) = insert [] ((#) False ` positions l \<union> (#) True ` positions r)"

definition index :: "bool list \<Rightarrow> nat" where
  "index p = foldl (\<lambda>n b. 2 * n + of_bool b) 1 p"

lemma index_simps [simp]: "index [] = 1" "index (p @ [b]) = 2 * index p + of_bool b"
  by (simp_all add: index_def)

lemma index_pos: "length p < index p"
  by (induction p rule: rev_induct) simp_all

lemma index_prefix: "strict_prefix q p \<Longrightarrow> index q < index p"
proof (induction p rule: rev_induct)
  case (snoc b p)
  have "index p \<le> index (p @ [b])" "0 < index p" using index_pos [of p] by simp_all
  with snoc show ?case by (cases "q = p") (auto simp: strict_prefix_def)
qed simp

fun bits :: "nat \<Rightarrow> bool list" where
  "bits n = (if n < 2 then [] else bits (n div 2) @ [odd n])"

declare bits.simps [simp del]

lemma index_bits: "0 < n \<Longrightarrow> index (bits n) = n"
proof (induction n rule: bits.induct)
  case (1 n)
  show ?case
  proof (cases "n < 2")
    case False
    then have "index (bits (n div 2)) = n div 2" using 1 by simp
    with False show ?thesis by (simp add: bits.simps [of n])
  qed (use 1 in \<open>simp add: bits.simps\<close>)
qed

lemma bits_index: "bits (index p) = p"
proof (induction p rule: rev_induct)
  case (snoc b p)
  have "0 < index p" using index_pos [of p] by simp
  with snoc show ?case by (subst bits.simps) (cases b; simp)
qed (simp add: bits.simps)

lemma index_eq: "index p = n \<Longrightarrow> p = bits n"
  using bits_index [of p] by simp

lemma index_eq_Suc: "index p = Suc n \<longleftrightarrow> p = bits (Suc n)"
  using index_bits [of "Suc n"] index_eq by blast

lemma index_Suc: "insert (bits (Suc n)) {p. index p \<le> n} = {p. index p \<le> Suc n}"
  by (simp add: le_Suc_eq index_eq_Suc insert_compr disj_commute)

lemma index_less: "{p. index p \<le> Suc n} - {bits (Suc n)} = {p. index p \<le> n}"
  by (auto simp: le_Suc_eq index_eq_Suc index_bits)

text \<open>The rows are full up to the last one, which is filled from the left.\<close>

definition full :: "nat \<Rightarrow> 'a tree \<Rightarrow> bool" where
  "full n t \<longleftrightarrow> positions t = {p. index p \<le> n}"

section \<open>Contexts\<close>

type_synonym 'a ctx = "(bool \<times> 'a \<times> 'a tree) list"

fun plug :: "'a ctx \<Rightarrow> 'a tree \<Rightarrow> 'a tree" where
  "plug [] t = t"
| "plug ((d, p, s) # cs) t = plug cs (if d then Node s p t else Node t p s)"

lemma plug_append: "plug (cs @ ds) t = plug ds (plug cs t)"
  by (induction cs t rule: plug.induct) auto

definition turns :: "'a ctx \<Rightarrow> bool list" where
  "turns cs = rev (map fst cs)"

lemma turns_simps [simp]: "turns [] = []" "turns (c # cs) = turns cs @ [fst c]" "turns (cs @ ds) = turns ds @ turns cs"
  "length (turns cs) = length cs"
  by (simp_all add: turns_def)

lemma positions_plug: "positions (plug cs t) = positions (plug cs Leaf) \<union> (@) (turns cs) ` positions t"
proof (induction cs arbitrary: t)
  case (Cons c cs)
  obtain d p s where c: "c = (d, p, s)" by (cases c)
  let ?T = "\<lambda>u. if d then Node s p u else Node u p s"
  have "positions (?T t) = positions (?T Leaf) \<union> (#) d ` positions t" by (cases d) auto
  moreover have "(@) (turns (c # cs)) ` positions t = (@) (turns cs) ` (#) d ` positions t"
    by (simp add: c image_image)
  moreover have "positions (plug (c # cs) u) = positions (plug cs Leaf) \<union> (@) (turns cs) ` positions (?T u)" for u
    unfolding c plug.simps by (rule Cons.IH)
  ultimately show ?case by (simp only: image_Un Un_assoc)
qed simp

lemma positions_plug_cong: "positions t = positions t' \<Longrightarrow> positions (plug cs t) = positions (plug cs t')"
  by (subst (1 2) positions_plug) simp

lemma turns_not_position: "turns cs @ q \<notin> positions (plug cs Leaf)"
proof (induction cs arbitrary: q)
  case (Cons c cs)
  obtain d p s where c: "c = (d, p, s)" by (cases c)
  let ?t = "if d then Node s p Leaf else Node Leaf p s"
  have "d # q \<notin> positions ?t" by (cases d) auto
  moreover have "turns (c # cs) @ q = turns cs @ d # q" by (simp add: c)
  moreover have "positions (plug (c # cs) Leaf) = positions (plug cs Leaf) \<union> (@) (turns cs) ` positions ?t"
    unfolding c plug.simps by (rule positions_plug)
  moreover have "turns cs @ d # q \<in> (@) (turns cs) ` P \<longleftrightarrow> d # q \<in> P" for P by (simp add: image_iff)
  ultimately show ?case using Cons.IH [of "d # q"] by simp
qed simp

lemma plug_at:
  assumes "\<And>q. strict_prefix q p \<Longrightarrow> q \<in> positions t"
  shows "\<exists>cs t'. t = plug cs t' \<and> turns cs = p \<and> positions t' = {q. p @ q \<in> positions t}"
  using assms
proof (induction p arbitrary: t)
  case Nil
  then show ?case by (intro exI [of _ "[]"]) simp
next
  case (Cons b p)
  have "[] \<in> positions t" using Cons.prems [of "[]"] by simp
  then obtain l x r where t: "t = Node l x r" by (cases t) auto
  let ?c = "if b then r else l" and ?s = "if b then l else r"
  have pos: "q \<in> positions ?c \<longleftrightarrow> b # q \<in> positions t" for q by (auto simp: t)
  have "q \<in> positions ?c" if "strict_prefix q p" for q
    using Cons.prems [of "b # q"] that pos by simp
  from Cons.IH [OF this] obtain cs t' where
    "?c = plug cs t'" "turns cs = p" "positions t' = {q. p @ q \<in> positions ?c}" by blast
  then have "t = plug (cs @ [(b, x, ?s)]) t'" "turns (cs @ [(b, x, ?s)]) = b # p"
    by (simp_all only: plug_append plug.simps turns_simps) (cases b; simp add: t)+
  moreover have "positions t' = {q. (b # p) @ q \<in> positions t}"
    using \<open>positions t' = _\<close> by (simp add: pos)
  ultimately show ?case by blast
qed

lemma positions_Leaf_iff: "positions t = {} \<longleftrightarrow> t = Leaf"
  by (cases t) auto

lemma singleton_positions:
  assumes "positions t = {[]}"
  shows "\<exists>x. t = Node Leaf x Leaf"
proof -
  obtain l x r where t: "t = Node l x r" using assms by (cases t) auto
  then have "(#) False ` positions l \<union> (#) True ` positions r \<subseteq> {[]}" using assms by simp
  then have "positions l = {}" "positions r = {}" by auto
  with t show ?thesis by (simp add: positions_Leaf_iff)
qed

text \<open>The position of the next node, and the last node.\<close>

lemma full_next:
  assumes "full n t"
  shows "\<exists>cs. t = plug cs Leaf \<and> turns cs = bits (Suc n) \<and> full (Suc n) (plug cs (Node Leaf x Leaf))"
proof -
  let ?p = "bits (Suc n)"
  have i: "index ?p = Suc n" by (simp add: index_bits)
  have "q \<in> positions t" if "strict_prefix q ?p" for q
    using index_prefix [OF that] i assms by (simp add: full_def)
  then obtain cs t' where t: "t = plug cs t'" "turns cs = ?p" "positions t' = {q. ?p @ q \<in> positions t}"
    using plug_at by blast
  have "?p @ q \<notin> positions t" for q
    using index_prefix [of ?p "?p @ q"] i assms by (cases "q = []") (auto simp: full_def strict_prefix_def)
  with t(3) have "t' = Leaf" by (simp flip: positions_Leaf_iff)
  moreover have "full (Suc n) (plug cs (Node Leaf x Leaf))"
  proof -
    have "positions (plug cs (Node Leaf x Leaf)) = insert ?p {p. index p \<le> n}"
      using positions_plug [of cs "Node Leaf x Leaf"] assms t(1,2) \<open>t' = Leaf\<close> by (simp add: full_def)
    then show ?thesis by (simp add: full_def index_Suc)
  qed
  ultimately show ?thesis using t by blast
qed

lemma full_last:
  assumes "full (Suc n) t"
  shows "\<exists>cs x. t = plug cs (Node Leaf x Leaf) \<and> turns cs = bits (Suc n) \<and> full n (plug cs Leaf)"
proof -
  let ?p = "bits (Suc n)"
  have i: "index ?p = Suc n" by (simp add: index_bits)
  have "q \<in> positions t" if "strict_prefix q ?p" for q
    using index_prefix [OF that] i assms by (simp add: full_def)
  then obtain cs t' where t: "t = plug cs t'" "turns cs = ?p" "positions t' = {q. ?p @ q \<in> positions t}"
    using plug_at by blast
  have "?p @ q \<notin> positions t" if "q \<noteq> []" for q
    using index_prefix [of ?p "?p @ q"] i assms that by (auto simp: full_def strict_prefix_def)
  moreover have "?p \<in> positions t" using i assms by (simp add: full_def)
  ultimately have "positions t' = {[]}" using t(3) by auto
  then obtain x where t': "t' = Node Leaf x Leaf"
    using singleton_positions by blast
  have "positions t = insert ?p (positions (plug cs Leaf))"
    using positions_plug [of cs t'] t(1,2) t' by simp
  moreover have "?p \<notin> positions (plug cs Leaf)" using turns_not_position [of cs "[]"] t(2) by simp
  ultimately have "positions (plug cs Leaf) = positions t - {?p}" by simp
  then have "full n (plug cs Leaf)" using assms index_less by (simp add: full_def)
  with t t' show ?thesis by auto
qed

lemma plug_depth:
  assumes "full n (plug cs (Node l x r))"
  shows "length cs < n"
proof -
  have "turns cs \<in> positions (plug cs (Node l x r))" by (subst positions_plug) (simp add: image_iff)
  then have "index (turns cs) \<le> n" using assms by (simp add: full_def)
  with index_pos [of "turns cs"] show ?thesis by simp
qed

section \<open>Elements\<close>

fun ctx_elems :: "'a ctx \<Rightarrow> 'a list" where
  "ctx_elems [] = []"
| "ctx_elems ((d, p, s) # cs) = p # inorder s @ ctx_elems cs"

lemma mset_plug: "mset (inorder (plug cs t)) = mset (inorder t) + mset (ctx_elems cs)"
  by (induction cs t rule: plug.induct) auto

lemma set_plug: "set_tree (plug cs t) = set_tree t \<union> set (ctx_elems cs)"
  using mset_plug [of cs t] by (metis set_inorder set_mset_mset set_mset_union)

lemma distinct_plug:
  "distinct (inorder (plug cs t)) \<longleftrightarrow> distinct (inorder t) \<and> distinct (ctx_elems cs) \<and> set_tree t \<inter> set (ctx_elems cs) = {}"
proof -
  have "mset (inorder (plug cs t)) = mset (inorder t @ ctx_elems cs)" by (simp add: mset_plug)
  then have "distinct (inorder (plug cs t)) \<longleftrightarrow> distinct (inorder t @ ctx_elems cs)" by (rule mset_eq_imp_distinct_iff)
  then show ?thesis by simp
qed

lemma plug_focus: "x \<in> set_tree t \<Longrightarrow> \<exists>cs l r. t = plug cs (Node l x r)"
proof (induction t)
  case (Node l y r)
  then consider "y = x" | "x \<in> set_tree l" | "x \<in> set_tree r" by auto
  then show ?case
  proof cases
    case 1
    then show ?thesis by (intro exI [of _ "[]"]) auto
  next
    case 2
    with Node.IH(1) obtain cs l' r' where "l = plug cs (Node l' x r')" by blast
    then have "Node l y r = plug (cs @ [(False, y, r)]) (Node l' x r')" by (simp add: plug_append)
    then show ?thesis by blast
  next
    case 3
    with Node.IH(2) obtain cs l' r' where "r = plug cs (Node l' x r')" by blast
    then have "Node l y r = plug (cs @ [(True, y, l)]) (Node l' x r')" by (simp add: plug_append)
    then show ?thesis by blast
  qed
qed simp

section \<open>Order\<close>

text \<open>A strict order that compares by some rank.\<close>

locale node_order =
  fixes lt :: "nat \<Rightarrow> nat \<Rightarrow> bool"
  assumes asym: "lt a b \<Longrightarrow> \<not> lt b a"
    and negtrans: "\<not> lt b a \<Longrightarrow> \<not> lt c b \<Longrightarrow> \<not> lt c a"
begin

lemma irrefl: "\<not> lt a a"
  using asym by blast

lemma trans: "lt a b \<Longrightarrow> lt b c \<Longrightarrow> lt a c"
  using asym [of b c] negtrans [of c b a] by blast

end

fun ordered :: "('a \<Rightarrow> 'a \<Rightarrow> bool) \<Rightarrow> 'a tree \<Rightarrow> bool" where
  "ordered lt Leaf \<longleftrightarrow> True"
| "ordered lt (Node l x r) \<longleftrightarrow> ordered lt l \<and> ordered lt r \<and> (\<forall>y \<in> set_tree l \<union> set_tree r. \<not> lt y x)"

text \<open>A context into which a tree with elements \<open>S\<close> fits.\<close>

fun ctx_ordered :: "('a \<Rightarrow> 'a \<Rightarrow> bool) \<Rightarrow> 'a set \<Rightarrow> 'a ctx \<Rightarrow> bool" where
  "ctx_ordered lt S [] \<longleftrightarrow> True"
| "ctx_ordered lt S ((d, p, s) # cs) \<longleftrightarrow> ordered lt s \<and> (\<forall>y \<in> S \<union> set_tree s. \<not> lt y p) \<and>
     ctx_ordered lt (insert p (S \<union> set_tree s)) cs"

lemma ordered_plug: "ordered lt (plug cs t) \<longleftrightarrow> ordered lt t \<and> ctx_ordered lt (set_tree t) cs"
proof (induction cs t rule: plug.induct)
  case (2 d p s cs t)
  then show ?case by (cases d) (auto simp: Un_commute)
qed simp

lemma ctx_ordered_mono: "ctx_ordered lt S cs \<Longrightarrow> T \<subseteq> S \<Longrightarrow> ctx_ordered lt T cs"
proof (induction cs arbitrary: S T)
  case (Cons c cs)
  obtain d p s where c: "c = (d, p, s)" by (cases c)
  from Cons.prems(2) have "insert p (T \<union> set_tree s) \<subseteq> insert p (S \<union> set_tree s)" by blast
  with Cons.IH [of "insert p (S \<union> set_tree s)" "insert p (T \<union> set_tree s)"] Cons.prems show ?case
    by (auto simp: c)
qed simp

context node_order
begin

lemma ctx_ordered_insert:
  "ctx_ordered lt S cs \<Longrightarrow> p \<in> S \<Longrightarrow> \<not> lt x p \<Longrightarrow> ctx_ordered lt (insert x S) cs"
proof (induction cs arbitrary: S p)
  case (Cons c cs)
  obtain d q s where c: "c = (d, q, s)" by (cases c)
  from Cons.prems have "\<not> lt x q" using negtrans [of p q x] by (auto simp: c)
  moreover have "ctx_ordered lt (insert x (insert q (S \<union> set_tree s))) cs"
    using Cons.IH [of "insert q (S \<union> set_tree s)" p] Cons.prems by (auto simp: c)
  ultimately show ?case using Cons.prems by (auto simp: c insert_commute)
qed simp

lemma ctx_ordered_focus:
  assumes "ctx_ordered lt S ((d, p, s) # cs)" "\<not> lt x p"
  shows "ctx_ordered lt (insert x S) ((d, p, s) # cs)"
  using assms ctx_ordered_insert [of "insert p (S \<union> set_tree s)" cs p x]
  by (auto simp: insert_commute)

lemma ordered_min: "ordered lt (Node l x r) \<Longrightarrow> y \<in> set_tree (Node l x r) \<Longrightarrow> \<not> lt y x"
  using irrefl by auto

end

end
