(* ===== verification/Uv_Heap_Links.thy ===== *)
theory Uv_Heap_Links
  imports Uv_Heap_Tree
begin

text \<open>
  The pointers of the heap as a tree of addresses, and what swapping, linking and unlinking nodes do to it.
\<close>

section \<open>Links\<close>

fun tree_root :: "'a tree \<Rightarrow> 'a option" where
  "tree_root Leaf = None"
| "tree_root (Node l x r) = Some x"

fun linked :: "(nat \<Rightarrow> heap_node option) \<Rightarrow> nat option \<Rightarrow> nat tree \<Rightarrow> bool" where
  "linked m up Leaf \<longleftrightarrow> True"
| "linked m up (Node l x r) \<longleftrightarrow>
     m x = Some \<lparr>hn_left = tree_root l, hn_right = tree_root r, hn_parent = up\<rparr> \<and>
     linked m (Some x) l \<and> linked m (Some x) r"

fun ctx_up :: "nat ctx \<Rightarrow> nat option" where
  "ctx_up [] = None"
| "ctx_up ((d, p, s) # cs) = Some p"

fun ctx_linked :: "(nat \<Rightarrow> heap_node option) \<Rightarrow> nat option \<Rightarrow> nat ctx \<Rightarrow> bool" where
  "ctx_linked m hole [] \<longleftrightarrow> True"
| "ctx_linked m hole ((d, p, s) # cs) \<longleftrightarrow>
     m p = Some \<lparr>hn_left = (if d then tree_root s else hole), hn_right = (if d then hole else tree_root s),
                 hn_parent = ctx_up cs\<rparr> \<and>
     linked m (Some p) s \<and> ctx_linked m (Some p) cs"

fun ctx_root :: "nat option \<Rightarrow> nat ctx \<Rightarrow> nat option" where
  "ctx_root hole [] = hole"
| "ctx_root hole ((d, p, s) # cs) = ctx_root (Some p) cs"

lemma linked_plug: "linked m None (plug cs t) \<longleftrightarrow> linked m (ctx_up cs) t \<and> ctx_linked m (tree_root t) cs"
proof (induction cs t rule: plug.induct)
  case (2 d p s cs t)
  then show ?case by (cases d) auto
qed simp

lemma root_plug: "tree_root (plug cs t) = ctx_root (tree_root t) cs"
proof (induction cs t rule: plug.induct)
  case (2 d p s cs t)
  then show ?case by (cases d) auto
qed simp

lemma root_in: "tree_root t = Some x \<Longrightarrow> x \<in> set_tree t"
  by (cases t) auto

lemma linked_cong: "\<forall>x \<in> set_tree t. m' x = m x \<Longrightarrow> linked m' up t = linked m up t"
  by (induction t arbitrary: up) auto

lemma ctx_linked_cong: "\<forall>x \<in> set (ctx_elems cs). m' x = m x \<Longrightarrow> ctx_linked m' hole cs = ctx_linked m hole cs"
proof (induction cs arbitrary: hole)
  case (Cons c cs)
  obtain d p s where c: "c = (d, p, s)" by (cases c)
  with Cons linked_cong [of s m' m] show ?case by auto
qed simp

text \<open>The heap stands for the tree.\<close>

definition rep :: "heap \<Rightarrow> nat tree \<Rightarrow> bool" where
  "rep h t \<longleftrightarrow> distinct (inorder t) \<and> hp_min h = tree_root t \<and> linked (hp_nodes h) None t"

lemma rep_plug: "rep h (plug cs t) \<longleftrightarrow>
    distinct (inorder t) \<and> distinct (ctx_elems cs) \<and> set_tree t \<inter> set (ctx_elems cs) = {} \<and>
    hp_min h = ctx_root (tree_root t) cs \<and> linked (hp_nodes h) (ctx_up cs) t \<and>
    ctx_linked (hp_nodes h) (tree_root t) cs"
  by (simp add: rep_def distinct_plug root_plug linked_plug conj_ac)

section \<open>Writing links\<close>

lemma node_at_Some [simp]: "hp_nodes h a = Some n \<Longrightarrow> node_at h (Some a) = Inr n"
  by (simp add: node_at_def)

lemma upd_node_Some: "hp_nodes h a = Some n \<Longrightarrow> upd_node f (Some a) h = Inr (put_node a (f n) h)"
  by (simp add: upd_node_def)

lemma put_node_simps [simp]:
  "hp_nodes (put_node a n h) = (hp_nodes h)(a \<mapsto> n)" "hp_min (put_node a n h) = hp_min h"
  "hp_nelts (put_node a n h) = hp_nelts h"
  by (simp_all add: put_node_def)

text \<open>A step that keeps the counter, all nodes but some, and the memory of all.\<close>

definition heap_frame :: "nat set \<Rightarrow> heap \<Rightarrow> heap \<Rightarrow> bool" where
  "heap_frame A h h' \<longleftrightarrow> hp_nelts h' = hp_nelts h \<and> (\<forall>y. y \<notin> A \<longrightarrow> hp_nodes h' y = hp_nodes h y) \<and>
     (\<forall>y. hp_nodes h' y = None \<longleftrightarrow> hp_nodes h y = None)"

lemma heap_frame_refl [simp]: "heap_frame A h h"
  by (simp add: heap_frame_def)

lemma heap_frame_trans: "heap_frame A h1 h2 \<Longrightarrow> heap_frame A h2 h3 \<Longrightarrow> heap_frame A h1 h3"
  by (simp add: heap_frame_def)

lemma heap_frame_mono: "heap_frame A h h' \<Longrightarrow> A \<subseteq> B \<Longrightarrow> heap_frame B h h'"
  by (auto simp: heap_frame_def)

lemma adopt_linked:
  assumes "linked (hp_nodes h) up t" "distinct (inorder t)"
  shows "\<exists>h'. adopt v (tree_root t) h = Inr h' \<and> linked (hp_nodes h') (Some v) t \<and> hp_min h' = hp_min h \<and>
     heap_frame (set_tree t) h h'"
proof (cases t)
  case Leaf
  then show ?thesis by (simp add: adopt_def)
next
  case (Node l x r)
  let ?h = "put_node x \<lparr>hn_left = tree_root l, hn_right = tree_root r, hn_parent = Some v\<rparr> h"
  have "adopt v (tree_root t) h = Inr ?h"
    using assms Node by (simp add: adopt_def set_parent_def upd_node_Some)
  moreover have "x \<notin> set_tree l" "x \<notin> set_tree r" using assms(2) Node by auto
  then have "linked (hp_nodes ?h) (Some v) t"
    using assms(1) Node linked_cong [of l "hp_nodes ?h" "hp_nodes h"] linked_cong [of r "hp_nodes ?h" "hp_nodes h"] by auto
  moreover have "heap_frame (set_tree t) h ?h" using assms(1) Node by (auto simp: heap_frame_def)
  ultimately show ?thesis by auto
qed

text \<open>Filling the hole of a context with another node.\<close>

lemma relink_linked:
  assumes "ctx_linked (hp_nodes h) (Some old) cs" "distinct (ctx_elems cs)" "old \<notin> set (ctx_elems cs)"
    and "hp_min h = ctx_root (Some old) cs"
  shows "\<exists>h'. relink (ctx_up cs) old new h = Inr h' \<and> ctx_linked (hp_nodes h') (Some new) cs \<and>
     hp_min h' = ctx_root (Some new) cs \<and> heap_frame (set (ctx_elems cs)) h h'"
proof (cases cs)
  case Nil
  then show ?thesis by (simp add: relink_def heap_frame_def)
next
  case (Cons c cs')
  obtain d p s where c: "c = (d, p, s)" by (cases c)
  let ?n = "\<lparr>hn_left = (if d then tree_root s else Some new), hn_right = (if d then Some new else tree_root s),
              hn_parent = ctx_up cs'\<rparr>"
  let ?h = "put_node p ?n h"
  have m: "hp_nodes h p = Some \<lparr>hn_left = (if d then tree_root s else Some old),
      hn_right = (if d then Some old else tree_root s), hn_parent = ctx_up cs'\<rparr>"
    and rest: "linked (hp_nodes h) (Some p) s" "ctx_linked (hp_nodes h) (Some p) cs'"
    using assms(1) by (auto simp: Cons c)
  have "tree_root s \<noteq> Some old" using assms(3) root_in [of s old] by (auto simp: Cons c)
  then have "relink (ctx_up cs) old new h = Inr ?h"
    using m by (cases d) (simp_all add: relink_def Cons c set_left_def set_right_def upd_node_Some)
  moreover have "p \<notin> set_tree s" "p \<notin> set (ctx_elems cs')" using assms(2) by (auto simp: Cons c)
  then have "ctx_linked (hp_nodes ?h) (Some new) cs"
    using rest linked_cong [of s "hp_nodes ?h" "hp_nodes h"] ctx_linked_cong [of cs' "hp_nodes ?h" "hp_nodes h"]
    by (auto simp: Cons c)
  moreover have "heap_frame (set (ctx_elems cs)) h ?h" using m by (auto simp: Cons c heap_frame_def)
  ultimately show ?thesis using assms(4) by (auto simp: Cons c)
qed

section \<open>Swapping\<close>

lemma heap_node_swap_start:
  assumes "hp_nodes h p = Some \<lparr>hn_left = (if d then rs else Some x), hn_right = (if d then Some x else rs), hn_parent = up\<rparr>"
    and "hp_nodes h x = Some \<lparr>hn_left = ll, hn_right = rr, hn_parent = Some p\<rparr>" "x \<noteq> p" "rs \<noteq> Some x"
  shows "heap_node_swap h p x =
     bindE (adopt x rs (put_node x \<lparr>hn_left = (if d then rs else Some p), hn_right = (if d then Some p else rs), hn_parent = up\<rparr>
        (put_node p \<lparr>hn_left = ll, hn_right = rr, hn_parent = Some x\<rparr> h))) (\<lambda>h.
     bindE (node_at h (Some p)) (\<lambda>n.
     bindE (adopt p (hn_left n) h) (\<lambda>h.
     bindE (node_at h (Some p)) (\<lambda>n.
     bindE (adopt p (hn_right n) h) (\<lambda>h.
     bindE (node_at h (Some x)) (\<lambda>c.
     relink (hn_parent c) p x h))))))"
  using assms
  by (cases d)
    (simp_all add: heap_node_swap_def Let_def set_parent_def set_left_def set_right_def upd_node_Some
      put_node_def fun_upd_twist [of p x])

lemma heap_node_swap_plug:
  assumes rep: "rep h (plug ((d, p, s) # cs) (Node l x r))"
  shows "\<exists>h'. heap_node_swap h p x = Inr h' \<and>
     rep h' (plug cs (if d then Node s x (Node l p r) else Node (Node l p r) x s)) \<and>
     heap_frame (set_tree (plug ((d, p, s) # cs) (Node l x r))) h h'"
proof -
  let ?A = "set_tree (plug ((d, p, s) # cs) (Node l x r))"
  let ?X = "\<lparr>hn_left = (if d then tree_root s else Some p), hn_right = (if d then Some p else tree_root s), hn_parent = ctx_up cs\<rparr>"
  let ?P = "\<lparr>hn_left = tree_root l, hn_right = tree_root r, hn_parent = Some x\<rparr>"
  have dist: "distinct (inorder l)" "distinct (inorder r)" "distinct (inorder s)" "distinct (ctx_elems cs)"
    and neq: "x \<noteq> p" "x \<notin> set_tree l" "x \<notin> set_tree r" "x \<notin> set_tree s" "x \<notin> set (ctx_elems cs)"
      "p \<notin> set_tree l" "p \<notin> set_tree r" "p \<notin> set_tree s" "p \<notin> set (ctx_elems cs)"
    and disj: "set_tree l \<inter> set_tree r = {}" "set_tree l \<inter> set_tree s = {}" "set_tree r \<inter> set_tree s = {}"
      "set_tree l \<inter> set (ctx_elems cs) = {}" "set_tree r \<inter> set (ctx_elems cs) = {}" "set_tree s \<inter> set (ctx_elems cs) = {}"
    and hm: "hp_min h = ctx_root (Some p) cs"
    and px: "hp_nodes h x = Some \<lparr>hn_left = tree_root l, hn_right = tree_root r, hn_parent = Some p\<rparr>"
    and pp: "hp_nodes h p = Some \<lparr>hn_left = (if d then tree_root s else Some x), hn_right = (if d then Some x else tree_root s),
        hn_parent = ctx_up cs\<rparr>"
    and lk: "linked (hp_nodes h) (Some x) l" "linked (hp_nodes h) (Some x) r" "linked (hp_nodes h) (Some p) s"
      "ctx_linked (hp_nodes h) (Some p) cs"
    using rep unfolding rep_plug by auto
  have ns: "tree_root s \<noteq> Some x" using root_in [of s x] neq(4) by blast
  have A: "?A = {x, p} \<union> set_tree l \<union> set_tree r \<union> set_tree s \<union> set (ctx_elems cs)"
    by (simp only: set_plug) auto
  define h3 where "h3 = put_node x ?X (put_node p ?P h)"
  have n3: "hp_nodes h3 y = hp_nodes h y" if "y \<noteq> x" "y \<noteq> p" for y using that by (simp add: h3_def)
  have p3: "hp_nodes h3 p = Some ?P" "hp_nodes h3 x = Some ?X" using neq by (simp_all add: h3_def)
  have "linked (hp_nodes h3) (Some p) s" using lk(3) linked_cong [of s "hp_nodes h3" "hp_nodes h"] n3 neq by metis
  then obtain h4 where h4: "adopt x (tree_root s) h3 = Inr h4" "linked (hp_nodes h4) (Some x) s" "hp_min h4 = hp_min h3"
      and f4: "heap_frame (set_tree s) h3 h4" using adopt_linked [OF _ dist(3)] by blast
  have e4: "hp_nodes h4 y = hp_nodes h3 y" if "y \<notin> set_tree s" for y using f4 that by (simp add: heap_frame_def)
  have p4: "hp_nodes h4 p = Some ?P" "hp_nodes h4 x = Some ?X" using e4 neq p3 by simp_all
  have "linked (hp_nodes h4) (Some x) l"
    using lk(1) linked_cong [of l "hp_nodes h4" "hp_nodes h"] n3 e4 neq disj by (metis disjoint_iff)
  then obtain h5 where h5: "adopt p (tree_root l) h4 = Inr h5" "linked (hp_nodes h5) (Some p) l" "hp_min h5 = hp_min h4"
      and f5: "heap_frame (set_tree l) h4 h5" using adopt_linked [OF _ dist(1)] by blast
  have e5: "hp_nodes h5 y = hp_nodes h4 y" if "y \<notin> set_tree l" for y using f5 that by (simp add: heap_frame_def)
  have p5: "hp_nodes h5 p = Some ?P" "hp_nodes h5 x = Some ?X" using e5 neq p4 by simp_all
  have "linked (hp_nodes h5) (Some x) r"
    using lk(2) linked_cong [of r "hp_nodes h5" "hp_nodes h"] n3 e4 e5 neq disj by (metis disjoint_iff)
  then obtain h6 where h6: "adopt p (tree_root r) h5 = Inr h6" "linked (hp_nodes h6) (Some p) r" "hp_min h6 = hp_min h5"
      and f6: "heap_frame (set_tree r) h5 h6" using adopt_linked [OF _ dist(2)] by blast
  have e6: "hp_nodes h6 y = hp_nodes h5 y" if "y \<notin> set_tree r" for y using f6 that by (simp add: heap_frame_def)
  have p6: "hp_nodes h6 p = Some ?P" "hp_nodes h6 x = Some ?X" using e6 neq p5 by simp_all
  have "ctx_linked (hp_nodes h6) (Some p) cs"
    using lk(4) ctx_linked_cong [of cs "hp_nodes h6" "hp_nodes h"] n3 e4 e5 e6 neq disj by (metis disjoint_iff)
  moreover have "hp_min h6 = ctx_root (Some p) cs" using h4(3) h5(3) h6(3) hm by (simp add: h3_def)
  ultimately obtain h7 where h7: "relink (ctx_up cs) p x h6 = Inr h7" "ctx_linked (hp_nodes h7) (Some x) cs"
      "hp_min h7 = ctx_root (Some x) cs" and f7: "heap_frame (set (ctx_elems cs)) h6 h7"
    using relink_linked [OF _ dist(4) neq(9)] by blast
  have e7: "hp_nodes h7 y = hp_nodes h6 y" if "y \<notin> set (ctx_elems cs)" for y using f7 that by (simp add: heap_frame_def)
  have swap: "heap_node_swap h p x = Inr h7"
    using heap_node_swap_start [OF pp px neq(1) ns] h4(1) h5(1) h6(1) h7(1) p4 p5 p6 by (simp add: h3_def)
  have "linked (hp_nodes h7) (Some x) s"
    using h4(2) linked_cong [of s "hp_nodes h7" "hp_nodes h4"] e5 e6 e7 disj by (metis disjoint_iff)
  moreover have "linked (hp_nodes h7) (Some p) l"
    using h5(2) linked_cong [of l "hp_nodes h7" "hp_nodes h5"] e6 e7 disj by (metis disjoint_iff)
  moreover have "linked (hp_nodes h7) (Some p) r"
    using h6(2) linked_cong [of r "hp_nodes h7" "hp_nodes h6"] e7 disj by (metis disjoint_iff)
  moreover have "hp_nodes h7 p = Some ?P" "hp_nodes h7 x = Some ?X" using e7 neq p6 by simp_all
  ultimately have "rep h7 (plug cs (if d then Node s x (Node l p r) else Node (Node l p r) x s))"
    unfolding rep_plug using dist neq disj h7 by (cases d) auto
  moreover have "heap_frame ?A h h7"
  proof -
    have "heap_frame ?A h h3" using A px pp by (auto simp: heap_frame_def h3_def)
    moreover have "heap_frame ?A h3 h4" by (rule heap_frame_mono [OF f4]) (use A in blast)
    moreover have "heap_frame ?A h4 h5" by (rule heap_frame_mono [OF f5]) (use A in blast)
    moreover have "heap_frame ?A h5 h6" by (rule heap_frame_mono [OF f6]) (use A in blast)
    moreover have "heap_frame ?A h6 h7" by (rule heap_frame_mono [OF f7]) (use A in blast)
    ultimately show ?thesis by (meson heap_frame_trans)
  qed
  ultimately show ?thesis using swap by blast
qed

end
