(* ===== verification/Uv_Heap_Order.thy ===== *)
theory Uv_Heap_Order
  imports Uv_Heap_Links
begin

text \<open>
  Climbing and descending restore the order of the heap and change neither its shape nor its nodes.
\<close>

unbundle bit_operations_syntax

section \<open>Climbing and descending\<close>

text \<open>The outcome of reordering: the same positions and nodes.\<close>

definition reordered :: "nat tree \<Rightarrow> heap \<Rightarrow> heap \<Rightarrow> nat tree \<Rightarrow> bool" where
  "reordered t h h' t' \<longleftrightarrow> rep h' t' \<and> positions t' = positions t \<and> set_tree t' = set_tree t \<and> heap_frame (set_tree t) h h'"

lemma reordered_refl: "rep h t \<Longrightarrow> reordered t h h t"
  by (simp add: reordered_def)

lemma reordered_trans: "reordered t h1 h2 t2 \<Longrightarrow> reordered t2 h2 h3 t3 \<Longrightarrow> reordered t h1 h3 t3"
  by (auto simp: reordered_def intro: heap_frame_trans)

abbreviation risen :: "bool \<Rightarrow> nat \<Rightarrow> nat tree \<Rightarrow> nat tree \<Rightarrow> nat \<Rightarrow> nat tree \<Rightarrow> nat tree" where
  "risen d p s l x r \<equiv> (if d then Node s x (Node l p r) else Node (Node l p r) x s)"

lemma swap_reordered:
  assumes "rep h (plug ((d, p, s) # cs) (Node l x r))"
  shows "\<exists>h'. heap_node_swap h p x = Inr h' \<and>
     reordered (plug ((d, p, s) # cs) (Node l x r)) h h' (plug cs (risen d p s l x r))"
proof -
  have "positions (risen d p s l x r) = positions (if d then Node s p (Node l x r) else Node (Node l x r) p s)"
    by (cases d) auto
  from positions_plug_cong [OF this, of cs]
  have "positions (plug cs (risen d p s l x r)) = positions (plug ((d, p, s) # cs) (Node l x r))" by simp
  moreover have "set_tree (plug cs (risen d p s l x r)) = set_tree (plug ((d, p, s) # cs) (Node l x r))"
    by (cases d) (auto simp only: set_plug ctx_elems.simps tree.set if_True if_False list.set set_append set_inorder)
  ultimately show ?thesis using heap_node_swap_plug [OF assms] unfolding reordered_def by metis
qed

context node_order
begin

lemma ordered_rise:
  assumes "ordered lt (Node l x r)" "ctx_ordered lt (set_tree l \<union> set_tree r) ((d, p, s) # cs)" "lt x p"
  shows "ordered lt (risen d p s l x r) \<and> ctx_ordered lt (set_tree s \<union> set_tree (Node l p r)) cs"
proof -
  have x: "\<not> lt y x" if "\<not> lt y p" for y using that assms(3) asym negtrans by blast
  have "insert p (set_tree l \<union> set_tree r \<union> set_tree s) = set_tree s \<union> set_tree (Node l p r)" by auto
  with assms x asym show ?thesis by (cases d) auto
qed

lemma walk_up_correct:
  assumes "rep h (plug cs (Node l x r))" "ordered lt (Node l x r)"
    and "ctx_ordered lt (set_tree l \<union> set_tree r) cs" "length cs < fuel"
  shows "\<exists>h' t. walk_up fuel lt x h = Inr h' \<and> ordered lt t \<and> reordered (plug cs (Node l x r)) h h' t"
  using assms
proof (induction fuel arbitrary: h cs l r)
  case (Suc fuel)
  have x: "hp_nodes h x = Some \<lparr>hn_left = tree_root l, hn_right = tree_root r, hn_parent = ctx_up cs\<rparr>"
    using Suc.prems(1) by (simp add: rep_plug)
  show ?case
  proof (cases cs)
    case Nil
    then have "walk_up (Suc fuel) lt x h = Inr h" "plug cs (Node l x r) = Node l x r" using x by simp_all
    with Suc.prems(2) reordered_refl [OF Suc.prems(1)] show ?thesis by metis
  next
    case (Cons c cs')
    obtain d p s where c: "c = (d, p, s)" by (cases c)
    show ?thesis
    proof (cases "lt x p")
      case False
      from Suc.prems(3) False have "ctx_ordered lt (insert x (set_tree l \<union> set_tree r)) cs"
        unfolding Cons c by (rule ctx_ordered_focus)
      then have "ordered lt (plug cs (Node l x r))" using Suc.prems(2) unfolding ordered_plug by (simp add: Un_commute)
      with False x Cons c reordered_refl [OF Suc.prems(1)] show ?thesis by auto
    next
      case True
      let ?t = "plug cs (Node l x r)" and ?t' = "plug cs' (risen d p s l x r)"
      obtain h' where h': "heap_node_swap h p x = Inr h'" "reordered ?t h h' ?t'"
        using swap_reordered [of h d p s cs' l x r] Suc.prems(1) by (auto simp: Cons c)
      have o: "ordered lt (risen d p s l x r)" "ctx_ordered lt (set_tree s \<union> set_tree (Node l p r)) cs'"
        using ordered_rise [OF Suc.prems(2) Suc.prems(3) [unfolded Cons c] True] by blast+
      obtain l' r' where lr: "risen d p s l x r = Node l' x r'" "set_tree l' \<union> set_tree r' = set_tree s \<union> set_tree (Node l p r)"
        by (cases d) auto
      have "\<exists>h2 t. walk_up fuel lt x h' = Inr h2 \<and> ordered lt t \<and> reordered ?t' h' h2 t"
        unfolding lr(1) by (rule Suc.IH) (use h' o lr Suc.prems(4) in \<open>simp_all add: reordered_def Cons\<close>)
      with h' True x Cons c reordered_trans show ?thesis by fastforce
    qed
  qed
qed simp

lemma smaller_cases:
  obtains "smaller lt (tree_root r) (smaller lt (tree_root l) c) = c"
      "\<And>z. tree_root l = Some z \<or> tree_root r = Some z \<Longrightarrow> \<not> lt z c"
  | d a y b where "(if d then r else l) = Node a y b" "smaller lt (tree_root r) (smaller lt (tree_root l) c) = y" "lt y c"
      "\<And>z. tree_root (if d then l else r) = Some z \<Longrightarrow> \<not> lt z y"
proof (cases r)
  case Leaf
  show ?thesis
  proof (cases l)
    case (Node a y b)
    with Leaf that(1) that(2) [of False a y b] show ?thesis by (cases "lt y c") (auto simp: smaller_def)
  qed (use Leaf that(1) in \<open>simp add: smaller_def\<close>)
next
  case r: (Node a y b)
  show ?thesis
  proof (cases l)
    case Leaf
    with r that(1) that(2) [of True a y b] show ?thesis by (cases "lt y c") (auto simp: smaller_def)
  next
    case (Node a' z b')
    consider "lt z c" "lt y z" | "lt z c" "\<not> lt y z" | "\<not> lt z c" "lt y c" | "\<not> lt z c" "\<not> lt y c" by blast
    then show ?thesis
    proof cases
      case 1
      then show ?thesis using that(2) [of True a y b] r Node trans [of y z c] asym [of y z] by (simp add: smaller_def)
    next
      case 2
      then show ?thesis using that(2) [of False a' z b'] r Node by (simp add: smaller_def)
    next
      case 3
      then show ?thesis using that(2) [of True a y b] r Node trans [of z y c] by (auto simp: smaller_def)
    next
      case 4
      then show ?thesis using that(1) r Node by (auto simp: smaller_def)
    qed
  qed
qed

lemma ordered_root: "ordered lt t \<Longrightarrow> y \<in> set_tree t \<Longrightarrow> (\<And>z. tree_root t = Some z \<Longrightarrow> \<not> lt z c) \<Longrightarrow> \<not> lt y c"
  using negtrans by (cases t) auto

lemma walk_down_correct:
  assumes "rep h (plug cs (Node l c r))" "ordered lt l" "ordered lt r" "ctx_ordered lt (set_tree l \<union> set_tree r) cs"
    and "\<And>q. q \<in> positions (plug cs (Node l c r)) \<Longrightarrow> length q < length cs + fuel"
  shows "\<exists>h' cs' l' r'. walk_down fuel lt c h = Inr h' \<and> ordered lt (Node l' c r') \<and>
     ctx_ordered lt (set_tree l' \<union> set_tree r') cs' \<and>
     reordered (plug cs (Node l c r)) h h' (plug cs' (Node l' c r'))"
  using assms
proof (induction fuel arbitrary: h cs l r)
  case 0
  have "turns cs \<in> positions (plug cs (Node l c r))" by (subst positions_plug) (simp add: image_iff)
  with 0(5) [of "turns cs"] show ?case by simp
next
  case (Suc fuel)
  have n: "hp_nodes h c = Some \<lparr>hn_left = tree_root l, hn_right = tree_root r, hn_parent = ctx_up cs\<rparr>"
    using Suc.prems(1) by (simp add: rep_plug)
  let ?m = "smaller lt (tree_root r) (smaller lt (tree_root l) c)"
  show ?case
  proof (cases rule: smaller_cases [of r l c])
    case 1
    then have "ordered lt (Node l c r)" using Suc.prems(2,3) ordered_root [of l _ c] ordered_root [of r _ c] by auto
    moreover have "walk_down (Suc fuel) lt c h = Inr h" using n 1(1) by (simp add: Let_def)
    ultimately show ?thesis using Suc.prems(4) reordered_refl [OF Suc.prems(1)] by blast
  next
    case (2 d a y b)
    let ?s = "if d then l else r" and ?t = "plug cs (Node l c r)" and ?cs = "(d, y, if d then l else r) # cs"
    have t: "?t = plug ((d, c, ?s) # cs) (Node a y b)" using 2(1) by (cases d) auto
    obtain h' where h': "heap_node_swap h c y = Inr h'" "reordered ?t h h' (plug cs (risen d c ?s a y b))"
      using swap_reordered [of h d c ?s cs a y b] Suc.prems(1) t by metis
    have p: "plug cs (risen d c ?s a y b) = plug ?cs (Node a c b)" by simp
    have sub: "ordered lt a" "ordered lt b" "\<forall>z \<in> set_tree a \<union> set_tree b. \<not> lt z y" "ordered lt ?s"
      using Suc.prems(2,3) 2(1) by (cases d; auto)+
    have "\<not> lt z y" if "z \<in> set_tree ?s" for z using ordered_root [OF sub(4) that] 2(4) by blast
    moreover have "insert y (set_tree a \<union> set_tree b \<union> set_tree ?s) = set_tree l \<union> set_tree r"
      using 2(1) by (cases d) auto
    ultimately have o: "ctx_ordered lt (set_tree a \<union> set_tree b) ?cs"
      using sub Suc.prems(4) unfolding ctx_ordered.simps by auto
    have "y \<noteq> c" using 2(3) irrefl by blast
    then have step: "walk_down (Suc fuel) lt c h = walk_down fuel lt c h'" using n 2(2) h'(1) by (simp add: Let_def)
    have "\<exists>h2 cs' l' r'. walk_down fuel lt c h' = Inr h2 \<and> ordered lt (Node l' c r') \<and>
        ctx_ordered lt (set_tree l' \<union> set_tree r') cs' \<and> reordered (plug ?cs (Node a c b)) h' h2 (plug cs' (Node l' c r'))"
    proof (rule Suc.IH [OF _ sub(1,2) o])
      show "rep h' (plug ?cs (Node a c b))" using h'(2) unfolding reordered_def p by blast
      show "length q < length ?cs + fuel" if "q \<in> positions (plug ?cs (Node a c b))" for q
        using that h'(2) Suc.prems(5) [of q] unfolding reordered_def p by simp
    qed
    then obtain h2 cs' l' r' where w: "walk_down fuel lt c h' = Inr h2" "ordered lt (Node l' c r')"
        "ctx_ordered lt (set_tree l' \<union> set_tree r') cs'" "reordered (plug ?cs (Node a c b)) h' h2 (plug cs' (Node l' c r'))"
      by blast
    from reordered_trans [OF h'(2) [unfolded p] w(4)] w(1-3) step show ?thesis by metis
  qed
qed

end

end
