(* ===== verification/Uv_Heap_Slots.thy ===== *)
theory Uv_Heap_Slots
  imports Uv_Heap_Links
begin

text \<open>
  The walk from the root to a position ends at the hole of the context with the turns of that position.
\<close>

unbundle bit_operations_syntax

section \<open>The path\<close>

definition low :: "nat \<Rightarrow> u32 \<Rightarrow> bool list" where
  "low k w = map (bit w) [0..<k]"

lemma low_0 [simp]: "low 0 w = []"
  by (simp add: low_def)

lemma low_Suc: "low (Suc k) w = odd w # low k (drop_bit 1 w)"
proof -
  have "[0..<Suc k] = 0 # map Suc [0..<k]" by (simp add: upt_conv_Cons map_Suc_upt)
  then show ?thesis by (simp add: low_def bit_0 bit_drop_bit_eq)
qed

lemma low_push: "Suc k \<le> 32 \<Longrightarrow> low (Suc k) (push_bit 1 w OR (n AND 1)) = odd n # low k w"
proof -
  assume k: "Suc k \<le> 32"
  have "bit (push_bit 1 w OR (n AND 1)) (Suc i) = bit w i" if "i < k" for i
    unfolding bit_or_iff bit_and_iff bit_push_bit_iff bit_1_iff using that k by simp
  moreover have "odd (push_bit 1 w OR (n AND 1)) = odd n"
    unfolding bit_0 [symmetric] bit_or_iff bit_and_iff bit_push_bit_iff bit_1_iff by simp
  moreover have "low k (drop_bit 1 (push_bit 1 w OR (n AND 1))) = low k w"
    unfolding low_def bit_drop_bit_eq using calculation(1) by (intro map_cong refl) (simp only: o_def set_upt atLeastLessThan_iff plus_1_eq_Suc)
  ultimately show ?thesis by (simp only: low_Suc)
qed

lemma bits_length: "0 < n \<Longrightarrow> 2 ^ length (bits n) \<le> n"
proof (induction n rule: bits.induct)
  case (1 n)
  show ?case
  proof (cases "n < 2")
    case False
    then have "2 ^ length (bits (n div 2)) \<le> n div 2" using 1 by simp
    with False show ?thesis by (simp add: bits.simps [of n])
  qed (use 1 in \<open>simp add: bits.simps\<close>)
qed

lemma bits_length_32: "0 < n \<Longrightarrow> n < 2 ^ 32 \<Longrightarrow> length (bits n) < 32"
  using bits_length [of n] power_less_imp_less_exp [of "2 :: nat" "length (bits n)" 32] by linarith

lemma odd_unat: "odd (unat (n :: u32)) \<longleftrightarrow> odd n"
  by (simp add: bit_0 [symmetric] bit_unsigned_iff)

lemma path_loop_bits:
  assumes "0 < unat n" "length (bits (unat n)) + k \<le> 32"
  shows "\<exists>path'. path_loop path n k = (path', length (bits (unat n)) + k) \<and>
     low (length (bits (unat n)) + k) path' = bits (unat n) @ low k path"
  using assms
proof (induction path n k rule: path_loop.induct)
  case (1 path n k)
  show ?case
  proof (cases "2 \<le> n")
    case True
    then have n: "2 \<le> unat n" by (simp add: word_le_nat_alt)
    then have b: "bits (unat n) = bits (unat (n div 2)) @ [odd n]"
      by (subst bits.simps) (simp add: unat_div odd_unat)
    have l: "Suc k \<le> 32" using "1.prems"(2) b by simp
    have "0 < unat (n div 2)" using n by (simp add: unat_div)
    with "1.IH" [OF True] "1.prems"(2) b obtain path' where
      "path_loop (push_bit 1 path OR (n AND 1)) (n div 2) (k + 1) = (path', length (bits (unat n)) + k)"
      "low (length (bits (unat n)) + k) path' = bits (unat (n div 2)) @ low (Suc k) (push_bit 1 path OR (n AND 1))"
      by auto
    with True b low_push [OF l] show ?thesis by (simp add: path_loop.simps [of path])
  next
    case False
    then have "unat n < 2" by (simp add: word_le_nat_alt)
    then have "bits (unat n) = []" by (simp add: bits.simps)
    with False show ?thesis by (simp add: path_loop.simps [of path])
  qed
qed

section \<open>Slots\<close>

fun hole_slot :: "nat ctx \<Rightarrow> slot" where
  "hole_slot [] = Min_Slot"
| "hole_slot ((d, p, s) # cs) = (if d then Right_Slot p else Left_Slot p)"

fun parent_slot :: "nat ctx \<Rightarrow> slot" where
  "parent_slot [] = Min_Slot"
| "parent_slot (c # cs) = hole_slot cs"

lemma read_hole: "rep h (plug cs t) \<Longrightarrow> read_slot h (hole_slot cs) = Inr (tree_root t)"
  by (cases cs rule: hole_slot.cases) (auto simp: rep_plug read_slot_def, simp add: rep_def)

lemma read_parent:
  assumes "rep h (plug cs Leaf)"
  shows "read_slot h (parent_slot cs) = Inr (ctx_up cs)"
proof (cases cs)
  case Nil
  then show ?thesis using assms by (simp add: read_slot_def rep_def)
next
  case (Cons c cs')
  obtain d p s where c: "c = (d, p, s)" by (cases c)
  have "rep h (plug cs' (if d then Node s p Leaf else Node Leaf p s))" using assms by (simp add: Cons c)
  from read_hole [OF this] show ?thesis by (cases d) (simp_all add: Cons c)
qed

lemma write_hole:
  assumes "ctx_linked (hp_nodes h) hole cs" "distinct (ctx_elems cs)" "hp_min h = ctx_root hole cs"
  shows "\<exists>h'. write_slot v (hole_slot cs) h = Inr h' \<and> ctx_linked (hp_nodes h') v cs \<and> hp_min h' = ctx_root v cs \<and>
     heap_frame (set (ctx_elems cs)) h h'"
proof (cases cs)
  case Nil
  then show ?thesis by (simp add: write_slot_def heap_frame_def)
next
  case (Cons c cs')
  obtain d p s where c: "c = (d, p, s)" by (cases c)
  let ?h = "put_node p \<lparr>hn_left = (if d then tree_root s else v), hn_right = (if d then v else tree_root s),
      hn_parent = ctx_up cs'\<rparr> h"
  have "write_slot v (hole_slot cs) h = Inr ?h"
    using assms(1) by (cases d) (simp_all add: Cons c write_slot_def set_left_def set_right_def upd_node_Some)
  moreover have "p \<notin> set_tree s" "p \<notin> set (ctx_elems cs')" using assms(2) by (auto simp: Cons c)
  then have "ctx_linked (hp_nodes ?h) v cs"
    using assms(1) linked_cong [of s "hp_nodes ?h" "hp_nodes h"] ctx_linked_cong [of cs' "hp_nodes ?h" "hp_nodes h"]
    by (auto simp: Cons c)
  moreover have "heap_frame (set (ctx_elems cs)) h ?h" using assms(1) by (auto simp: Cons c heap_frame_def)
  ultimately show ?thesis using assms(3) by (auto simp: Cons c)
qed

lemma walk_hole:
  assumes "rep h (plug (ds @ es) t)" "low (length ds) path = turns ds"
  shows "walk h (length ds) path (parent_slot es) (hole_slot es) = Inr (parent_slot (ds @ es), hole_slot (ds @ es))"
  using assms
proof (induction ds arbitrary: es path rule: rev_induct)
  case (snoc c ds)
  obtain d p s where c: "c = (d, p, s)" by (cases c)
  have "rep h (plug es (if d then Node s p (plug ds t) else Node (plug ds t) p s))"
    using snoc.prems(1) by (simp add: c plug_append)
  from read_hole [OF this] have "read_slot h (hole_slot es) = Inr (Some p)" by (cases d) simp_all
  moreover have "(path AND 1 \<noteq> 0) = d" "low (length ds) (drop_bit 1 path) = turns ds"
    using snoc.prems(2) by (simp_all add: low_Suc c odd_iff_mod_2_eq_one and_one_eq)
  moreover have "walk h (length ds) (drop_bit 1 path) (parent_slot (c # es)) (hole_slot (c # es)) =
      Inr (parent_slot (ds @ c # es), hole_slot (ds @ c # es))"
    by (rule snoc.IH) (use snoc.prems(1) calculation(3) in simp_all)
  ultimately show ?case by (simp add: c)
qed simp

lemma walk_to:
  assumes "rep h (plug cs t)" "turns cs = bits (unat n)" "0 < unat n"
  shows "\<exists>path. path_loop 0 n 0 = (path, length cs) \<and> walk h (length cs) path Min_Slot Min_Slot = Inr (parent_slot cs, hole_slot cs)"
proof -
  have l: "length cs = length (bits (unat n))" using assms(2) by (metis turns_simps(4))
  moreover have "length (bits (unat n)) < 32" by (rule bits_length_32) (use assms(3) unsigned_less [of n] in simp_all)
  ultimately obtain path where "path_loop 0 n 0 = (path, length cs)" "low (length cs) path = turns cs"
    using path_loop_bits [of n 0 0] assms(2,3) by auto
  with walk_hole [of h cs "[]" t path] assms(1) show ?thesis by auto
qed

end
