(* ===== verification/Uv_Heap_Edit.thy ===== *)
theory Uv_Heap_Edit
  imports Uv_Heap_Order Uv_Heap_Slots
begin

text \<open>
  The heap as the set of its nodes, and what linking, unlinking and replacing one node does to its tree.
\<close>

section \<open>The heap as a set\<close>

definition heap_ok :: "heap_compare_fn \<Rightarrow> heap \<Rightarrow> nat tree \<Rightarrow> bool" where
  "heap_ok lt h t \<longleftrightarrow> rep h t \<and> ordered lt t \<and> full (unat (hp_nelts h)) t"

definition holds :: "heap_compare_fn \<Rightarrow> heap \<Rightarrow> nat set \<Rightarrow> bool" where
  "holds lt h A \<longleftrightarrow> (\<exists>t. heap_ok lt h t \<and> set_tree t = A)"

lemma rep_cong:
  "rep h t \<Longrightarrow> hp_min h' = hp_min h \<Longrightarrow> \<forall>x \<in> set_tree t. hp_nodes h' x = hp_nodes h x \<Longrightarrow> rep h' t"
  using linked_cong [of t "hp_nodes h'" "hp_nodes h"] by (simp add: rep_def)

lemma full_empty: "full 0 t \<longleftrightarrow> t = Leaf"
proof -
  have "0 < index p" for p using index_pos [of p] by simp
  then have "{p. index p \<le> 0} = {}" by simp
  then show ?thesis unfolding full_def by (simp only: positions_Leaf_iff)
qed

lemma holds_empty: "hp_nelts h = 0 \<Longrightarrow> holds lt h A \<longleftrightarrow> A = {} \<and> hp_min h = None"
  by (auto simp: holds_def heap_ok_def full_empty rep_def)

lemma holds_none:
  assumes "holds lt h {}"
  shows "hp_nelts h = 0"
proof -
  have "full (unat (hp_nelts h)) (Leaf :: nat tree)" using assms by (auto simp: holds_def heap_ok_def)
  then have "[] \<notin> {p. index p \<le> unat (hp_nelts h)}" by (simp add: full_def)
  then show ?thesis by (auto simp: not_le less_Suc_eq unat_eq_zero)
qed

lemma heap_init_holds: "holds lt (heap_init h) {}"
  by (simp add: holds_empty heap_init_def)

lemma holds_nodes: "holds lt h A \<Longrightarrow> x \<in> A \<Longrightarrow> hp_nodes h x \<noteq> None"
proof -
  assume "holds lt h A" "x \<in> A"
  then obtain t where "rep h t" "x \<in> set_tree t" by (auto simp: holds_def heap_ok_def)
  moreover from this plug_focus [of x t] obtain cs l r where "t = plug cs (Node l x r)" by blast
  ultimately show "hp_nodes h x \<noteq> None" by (auto simp: rep_plug)
qed

section \<open>Linking and unlinking\<close>

lemma link_hole:
  assumes "rep h (plug cs Leaf)" "x \<notin> set (ctx_elems cs)" "hp_nodes h x \<noteq> None"
  shows "\<exists>h1 h2. upd_node (\<lambda>_. \<lparr>hn_left = None, hn_right = None, hn_parent = None\<rparr>) (Some x) h = Inr h1 \<and>
     rep h1 (plug cs Leaf) \<and> hp_nelts h1 = hp_nelts h \<and>
     bindE (set_parent (ctx_up cs) (Some x) h1) (write_slot (Some x) (hole_slot cs)) = Inr h2 \<and>
     rep h2 (plug cs (Node Leaf x Leaf)) \<and> heap_frame (insert x (set (ctx_elems cs))) h h2"
proof -
  let ?h1 = "put_node x \<lparr>hn_left = None, hn_right = None, hn_parent = None\<rparr> h"
  let ?h = "put_node x \<lparr>hn_left = None, hn_right = None, hn_parent = ctx_up cs\<rparr> ?h1"
  have ok: "rep ?h1 (plug cs Leaf)" "rep ?h (plug cs Leaf)"
    using assms(1,2) by (auto intro!: rep_cong [OF assms(1)] simp: set_plug)
  then obtain h2 where h2: "write_slot (Some x) (hole_slot cs) ?h = Inr h2" "ctx_linked (hp_nodes h2) (Some x) cs"
      "hp_min h2 = ctx_root (Some x) cs" "heap_frame (set (ctx_elems cs)) ?h h2"
    using write_hole [of ?h None cs "Some x"] by (auto simp: rep_plug)
  have "hp_nodes h2 x = hp_nodes ?h x" using h2(4) assms(2) by (simp add: heap_frame_def)
  with h2 ok(2) assms(2) have "rep h2 (plug cs (Node Leaf x Leaf))" by (simp add: rep_plug)
  moreover have "heap_frame (insert x (set (ctx_elems cs))) h h2" using h2(4) assms(3) by (auto simp: heap_frame_def)
  moreover have "upd_node (\<lambda>_. \<lparr>hn_left = None, hn_right = None, hn_parent = None\<rparr>) (Some x) h = Inr ?h1"
    using assms(3) by (auto simp: upd_node_Some)
  moreover have "set_parent (ctx_up cs) (Some x) ?h1 = Inr ?h" by (simp add: set_parent_def upd_node_Some)
  ultimately show ?thesis using h2(1) ok(1) by (intro exI [of _ ?h1] exI [of _ h2]) simp
qed

lemma unlink_hole:
  assumes "rep h (plug cs (Node Leaf x Leaf))"
  shows "\<exists>h'. write_slot None (hole_slot cs) h = Inr h' \<and> rep h' (plug cs Leaf) \<and> heap_frame (set (ctx_elems cs)) h h'"
proof -
  obtain h' where "write_slot None (hole_slot cs) h = Inr h'" "ctx_linked (hp_nodes h') None cs"
      "hp_min h' = ctx_root None cs" "heap_frame (set (ctx_elems cs)) h h'"
    using write_hole [of h "Some x" cs None] assms by (auto simp: rep_plug)
  with assms show ?thesis by (auto simp: rep_plug)
qed

lemma replace_node_plug:
  assumes rep: "rep h (plug cs (Node l x r))" and m: "m \<notin> set_tree (plug cs (Node l x r))" "hp_nodes h m \<noteq> None"
  shows "\<exists>h'. replace_node x m h = Inr h' \<and> rep h' (plug cs (Node l m r)) \<and>
     heap_frame (insert m (set_tree (plug cs (Node l x r)))) h h'"
proof -
  let ?A = "insert m (set_tree (plug cs (Node l x r)))"
  let ?M = "\<lparr>hn_left = tree_root l, hn_right = tree_root r, hn_parent = ctx_up cs\<rparr>"
  have A: "?A = {m, x} \<union> set_tree l \<union> set_tree r \<union> set (ctx_elems cs)" by (simp only: set_plug) auto
  have px: "hp_nodes h x = Some ?M" and dist: "distinct (inorder l)" "distinct (inorder r)" "distinct (ctx_elems cs)"
    and neq: "x \<notin> set_tree l" "x \<notin> set_tree r" "x \<notin> set (ctx_elems cs)"
      "m \<noteq> x" "m \<notin> set_tree l" "m \<notin> set_tree r" "m \<notin> set (ctx_elems cs)"
    and disj: "set_tree l \<inter> set_tree r = {}" "set_tree l \<inter> set (ctx_elems cs) = {}" "set_tree r \<inter> set (ctx_elems cs) = {}"
    and lk: "linked (hp_nodes h) (Some x) l" "linked (hp_nodes h) (Some x) r" "ctx_linked (hp_nodes h) (Some x) cs"
      "hp_min h = ctx_root (Some x) cs"
    using rep m(1) unfolding rep_plug set_plug by auto
  define h1 where "h1 = put_node m ?M h"
  have n1: "hp_nodes h1 y = hp_nodes h y" if "y \<noteq> m" for y using that by (simp add: h1_def)
  have "linked (hp_nodes h1) (Some x) l" using lk(1) linked_cong [of l "hp_nodes h1" "hp_nodes h"] n1 neq by metis
  then obtain h2 where h2: "adopt m (tree_root l) h1 = Inr h2" "linked (hp_nodes h2) (Some m) l" "hp_min h2 = hp_min h1"
      and f2: "heap_frame (set_tree l) h1 h2" using adopt_linked [OF _ dist(1)] by blast
  have e2: "hp_nodes h2 y = hp_nodes h1 y" if "y \<notin> set_tree l" for y using f2 that by (simp add: heap_frame_def)
  have "linked (hp_nodes h2) (Some x) r"
    using lk(2) linked_cong [of r "hp_nodes h2" "hp_nodes h"] n1 e2 neq disj by (metis disjoint_iff)
  then obtain h3 where h3: "adopt m (tree_root r) h2 = Inr h3" "linked (hp_nodes h3) (Some m) r" "hp_min h3 = hp_min h2"
      and f3: "heap_frame (set_tree r) h2 h3" using adopt_linked [OF _ dist(2)] by blast
  have e3: "hp_nodes h3 y = hp_nodes h2 y" if "y \<notin> set_tree r" for y using f3 that by (simp add: heap_frame_def)
  have at: "hp_nodes h1 m = Some ?M" "hp_nodes h2 m = Some ?M" "hp_nodes h3 x = Some ?M"
    using px e2 e3 neq by (simp_all add: h1_def)
  have "ctx_linked (hp_nodes h3) (Some x) cs"
    using lk(3) ctx_linked_cong [of cs "hp_nodes h3" "hp_nodes h"] n1 e2 e3 neq disj by (metis disjoint_iff)
  moreover have "hp_min h3 = ctx_root (Some x) cs" using h2(3) h3(3) lk(4) by (simp add: h1_def)
  ultimately obtain h4 where h4: "relink (ctx_up cs) x m h3 = Inr h4" "ctx_linked (hp_nodes h4) (Some m) cs"
      "hp_min h4 = ctx_root (Some m) cs" and f4: "heap_frame (set (ctx_elems cs)) h3 h4"
    using relink_linked [OF _ dist(3) neq(3)] by blast
  have e4: "hp_nodes h4 y = hp_nodes h3 y" if "y \<notin> set (ctx_elems cs)" for y using f4 that by (simp add: heap_frame_def)
  have "replace_node x m h = Inr h4"
    using px m(2) at h2(1) h3(1) h4(1) by (auto simp: replace_node_def upd_node_Some h1_def)
  moreover have "linked (hp_nodes h4) (Some m) l"
    using h2(2) linked_cong [of l "hp_nodes h4" "hp_nodes h2"] e3 e4 disj by (metis disjoint_iff)
  moreover have "linked (hp_nodes h4) (Some m) r"
    using h3(2) linked_cong [of r "hp_nodes h4" "hp_nodes h3"] e4 disj by (metis disjoint_iff)
  moreover have "hp_nodes h4 m = Some ?M" using e4 e3 e2 neq at by simp
  ultimately have "replace_node x m h = Inr h4 \<and> rep h4 (plug cs (Node l m r))"
    unfolding rep_plug using dist neq disj h4 by auto
  moreover have "heap_frame ?A h h1" using A m(2) by (auto simp: h1_def heap_frame_def)
  moreover have "heap_frame ?A h1 h2" by (rule heap_frame_mono [OF f2]) (use A in blast)
  moreover have "heap_frame ?A h2 h3" by (rule heap_frame_mono [OF f3]) (use A in blast)
  moreover have "heap_frame ?A h3 h4" by (rule heap_frame_mono [OF f4]) (use A in blast)
  ultimately show ?thesis by (meson heap_frame_trans)
qed

end
