(* ===== verification/Uv_Heap_Correct.thy ===== *)
theory Uv_Heap_Correct
  imports Uv_Heap_Edit
begin

text \<open>
  Insertion and removal: the heap keeps its rows full and its order, and its set of nodes changes as it should.
\<close>

declare walk_up.simps(2) [simp del] walk_down.simps(2) [simp del]

lemma unat_Suc: "unat (n :: u32) + 1 < 2 ^ 32 \<Longrightarrow> unat (1 + n) = Suc (unat n)"
  by (simp add: unat_word_ariths unat_of_nat)

context node_order
begin

lemma heap_min_holds:
  assumes "holds lt h A"
  shows "(heap_min h = None \<longleftrightarrow> A = {}) \<and> (\<forall>m. heap_min h = Some m \<longrightarrow> m \<in> A \<and> (\<forall>y \<in> A. \<not> lt y m))"
proof -
  obtain t where "rep h t" "ordered lt t" "set_tree t = A" using assms by (auto simp: holds_def heap_ok_def)
  then show ?thesis using ordered_min by (cases t) (auto simp: heap_min_def rep_def)
qed

lemma heap_insert_holds:
  assumes "holds lt h A" "x \<notin> A" "hp_nodes h x \<noteq> None" "unat (hp_nelts h) + 1 < 2 ^ 32"
  shows "\<exists>h'. heap_insert lt x h = Inr h' \<and> holds lt h' (insert x A) \<and> hp_nelts h' = hp_nelts h + 1 \<and>
     (\<forall>y. y \<notin> insert x A \<longrightarrow> hp_nodes h' y = hp_nodes h y) \<and>
     (\<forall>y. hp_nodes h' y = None \<longleftrightarrow> hp_nodes h y = None)"
proof -
  let ?n = "1 + hp_nelts h"
  have n: "unat ?n = Suc (unat (hp_nelts h))" using unat_Suc [OF assms(4)] .
  obtain t where t: "rep h t" "ordered lt t" "full (unat (hp_nelts h)) t" "set_tree t = A"
    using assms(1) by (auto simp: holds_def heap_ok_def)
  obtain cs where cs: "t = plug cs Leaf" "turns cs = bits (unat ?n)" and full: "full (unat ?n) (plug cs (Node Leaf x Leaf))"
    using full_next [OF t(3), of x] n by auto
  have A: "set (ctx_elems cs) = A" using t(4) by (simp add: cs(1) set_plug)
  obtain h1 h2 where h1: "upd_node (\<lambda>_. \<lparr>hn_left = None, hn_right = None, hn_parent = None\<rparr>) (Some x) h = Inr h1"
      "rep h1 (plug cs Leaf)" "hp_nelts h1 = hp_nelts h"
    and h2: "bindE (set_parent (ctx_up cs) (Some x) h1) (write_slot (Some x) (hole_slot cs)) = Inr h2"
      "rep h2 (plug cs (Node Leaf x Leaf))" and f2: "heap_frame (insert x A) h h2"
    using link_hole [of h cs x] t(1) cs(1) A assms(2,3) by auto
  obtain path where path: "path_loop 0 ?n 0 = (path, length cs)"
      "walk h1 (length cs) path Min_Slot Min_Slot = Inr (parent_slot cs, hole_slot cs)"
    using walk_to [OF h1(2) cs(2)] n by auto
  let ?h3 = "h2\<lparr>hp_nelts := hp_nelts h2 + 1\<rparr>" and ?t = "plug cs (Node Leaf x Leaf)"
  have e2: "hp_nelts h2 = hp_nelts h" using f2 by (simp add: heap_frame_def)
  have "ctx_ordered lt {} cs" using t(2) by (simp add: cs(1) ordered_plug)
  then obtain h4 t4 where w: "walk_up (unat (hp_nelts h + 1) + 1) lt x ?h3 = Inr h4" "ordered lt t4" "reordered ?t ?h3 h4 t4"
    using walk_up_correct [of ?h3 cs Leaf x Leaf "unat (hp_nelts h + 1) + 1"] rep_cong [OF h2(2), of ?h3]
      plug_depth [OF full] by (auto simp: add.commute)
  have "heap_insert lt x h = Inr h4"
    using h1 path read_parent [OF h1(2)] h2(1) e2 w(1) by (simp add: heap_insert_def Let_def bindE_assoc [symmetric] del: bindE_assoc)
  moreover have "holds lt h4 (insert x A)"
    using w(2,3) full e2 A unfolding holds_def heap_ok_def reordered_def heap_frame_def full_def
    by (intro exI [of _ t4]) (auto simp: set_plug add.commute)
  ultimately show ?thesis using w(3) f2 e2 A by (auto simp: reordered_def heap_frame_def set_plug)
qed

text \<open>A node in the place of another is brought to where it belongs.\<close>

lemma replaced_reordered:
  assumes "rep h t" "ordered lt t" "full n t" "x \<in> set_tree t" "m \<notin> set_tree t" "hp_nodes h m \<noteq> None"
    and n: "unat (hp_nelts h) = n"
  shows "\<exists>h'. bindE (replace_node x m h) (\<lambda>h.
         bindE (walk_down (unat (hp_nelts h) + 1) lt m h) (walk_up (unat (hp_nelts h) + 1) lt m)) = Inr h' \<and>
     holds lt h' (insert m (set_tree t - {x})) \<and> heap_frame (insert m (set_tree t)) h h'"
proof -
  obtain ds l r where ds: "t = plug ds (Node l x r)" using plug_focus [OF assms(4)] by blast
  let ?t = "plug ds (Node l m r)"
  obtain h2 where h2: "replace_node x m h = Inr h2" "rep h2 ?t" "heap_frame (insert m (set_tree t)) h h2"
    using replace_node_plug [of h ds l x r m] assms(1,5,6) ds by auto
  then have e2: "hp_nelts h2 = hp_nelts h" by (simp add: heap_frame_def)
  have full2: "full n ?t"
    using assms(3) ds positions_plug_cong [of "Node l m r" "Node l x r" ds] by (simp add: full_def)
  have o: "ordered lt l" "ordered lt r" "ctx_ordered lt (set_tree l \<union> set_tree r) ds"
    using assms(2) ctx_ordered_mono [of lt "set_tree (Node l x r)" ds "set_tree l \<union> set_tree r"]
    by (auto simp: ds ordered_plug)
  have "length q < length ds + (n + 1)" if "q \<in> positions ?t" for q
    using that full2 index_pos [of q] by (auto simp: full_def)
  from walk_down_correct [OF h2(2) o this] obtain h3 cs' l' r' where
    w3: "walk_down (n + 1) lt m h2 = Inr h3" "ordered lt (Node l' m r')" "ctx_ordered lt (set_tree l' \<union> set_tree r') cs'"
      "reordered ?t h2 h3 (plug cs' (Node l' m r'))" by blast
  have t3: "rep h3 (plug cs' (Node l' m r'))" "full n (plug cs' (Node l' m r'))"
    using w3(4) full2 by (simp_all add: reordered_def full_def)
  obtain h4 t4 where w4: "walk_up (n + 1) lt m h3 = Inr h4" "ordered lt t4"
      "reordered (plug cs' (Node l' m r')) h3 h4 t4"
    using walk_up_correct [OF t3(1) w3(2,3), of "n + 1"] plug_depth [OF t3(2)] by auto
  have r: "reordered ?t h2 h4 t4" by (rule reordered_trans [OF w3(4) w4(3)])
  have s: "set_tree ?t = insert m (set_tree t - {x})" using assms(1) by (auto simp: ds rep_plug set_plug)
  have "holds lt h4 (insert m (set_tree t - {x}))"
    using r w4(2) full2 e2 n unfolding holds_def heap_ok_def reordered_def heap_frame_def full_def s
    by (intro exI [of _ t4]) simp
  moreover have "heap_frame (insert m (set_tree t)) h2 h4" using r unfolding reordered_def s by (elim conjE) (erule heap_frame_mono, blast)
  ultimately show ?thesis using h2(1,3) w3(1) w4(1) e2 n heap_frame_trans by auto
qed

lemma heap_remove_holds:
  assumes "holds lt h A" "x \<in> A"
  shows "\<exists>h'. heap_remove lt x h = Inr h' \<and> holds lt h' (A - {x}) \<and> hp_nelts h' = hp_nelts h - 1 \<and>
     (\<forall>y. y \<notin> A \<longrightarrow> hp_nodes h' y = hp_nodes h y) \<and>
     (\<forall>y. hp_nodes h' y = None \<longleftrightarrow> hp_nodes h y = None)"
proof -
  obtain t where t: "rep h t" "ordered lt t" "full (unat (hp_nelts h)) t" "set_tree t = A"
    using assms(1) by (auto simp: holds_def heap_ok_def)
  have nz: "hp_nelts h \<noteq> 0" using holds_empty [of h lt A] assms by auto
  then obtain n where n: "unat (hp_nelts h) = Suc n" by (cases "unat (hp_nelts h)") (auto simp: unat_eq_zero)
  then have n1: "unat (hp_nelts h - 1) = n" using nz by (simp add: unat_minus_one)
  obtain cs m where cs: "t = plug cs (Node Leaf m Leaf)" "turns cs = bits (unat (hp_nelts h))" and full: "full n (plug cs Leaf)"
    using full_last [of n t] t(3) n by auto
  obtain path where path: "path_loop 0 (hp_nelts h) 0 = (path, length cs)"
      "walk h (length cs) path Min_Slot Min_Slot = Inr (parent_slot cs, hole_slot cs)"
    using walk_to [OF t(1) [unfolded cs(1)] cs(2)] n by auto
  let ?h0 = "h\<lparr>hp_nelts := hp_nelts h - 1\<rparr>" and ?t1 = "plug cs Leaf"
  have rep0: "rep ?h0 (plug cs (Node Leaf m Leaf))" using rep_cong [OF t(1), of ?h0] cs(1) by simp
  obtain h1 where h1: "write_slot None (hole_slot cs) ?h0 = Inr h1" "rep h1 ?t1" "heap_frame (set (ctx_elems cs)) ?h0 h1"
    using unlink_hole [OF rep0] by blast
  have m: "m \<notin> set_tree ?t1" "A = insert m (set_tree ?t1)" using rep0 t(4) by (auto simp: rep_plug cs(1) set_plug)
  have e1: "hp_nelts h1 = hp_nelts h - 1" "\<And>y. y \<notin> set_tree ?t1 \<Longrightarrow> hp_nodes h1 y = hp_nodes h y"
      "\<And>y. hp_nodes h1 y = None \<longleftrightarrow> hp_nodes h y = None"
    using h1(3) by (auto simp: heap_frame_def set_plug)
  have "ctx_ordered lt {m} cs" using t(2) by (simp add: cs(1) ordered_plug)
  then have ord1: "ordered lt ?t1" using ctx_ordered_mono [of lt "{m}" cs "{}"] by (simp add: ordered_plug)
  have start: "heap_remove lt x h =
      (if m = x then Inr (if hp_min h1 = Some m then h1\<lparr>hp_min := None\<rparr> else h1)
       else bindE (replace_node x m h1) (\<lambda>h.
         bindE (walk_down (unat (hp_nelts h) + 1) lt m h) (walk_up (unat (hp_nelts h) + 1) lt m)))"
    using nz path read_hole [OF rep0] h1(1) by (simp add: heap_remove_def Let_def)
  show ?thesis
  proof (cases "m = x")
    case True
    have "hp_min h1 \<noteq> Some m" using h1(2) m(1) root_in [of ?t1 m] by (auto simp: rep_def)
    then have "heap_remove lt x h = Inr h1" using start True by simp
    moreover have "holds lt h1 (A - {x})"
      using h1(2) ord1 full e1(1) n1 m True by (auto simp: holds_def heap_ok_def)
    ultimately show ?thesis using e1 m(2) by auto
  next
    case False
    have "hp_nodes h1 m \<noteq> None" using holds_nodes [OF assms(1)] m e1(2) by simp
    moreover have "x \<in> set_tree ?t1" using assms(2) m(2) False by simp
    ultimately obtain h' where "heap_remove lt x h = Inr h'" "holds lt h' (insert m (set_tree ?t1 - {x}))"
        "heap_frame (insert m (set_tree ?t1)) h1 h'"
      using replaced_reordered [OF h1(2) ord1 full _ m(1)] e1(1) n1 start False by auto
    moreover have "insert m (set_tree ?t1 - {x}) = A - {x}" using m False by blast
    ultimately show ?thesis using m(2) e1 unfolding heap_frame_def by auto
  qed
qed

end

end
