(* ===== verification/Uv_Timer_Correct.thy ===== *)
theory Uv_Timer_Correct
  imports Uv_Timer Uv_Heap_Correct
begin

text \<open>
  The timers of a loop: the heap holds the active ones, starting and stopping do what they say, and the timers that
  are due fire in order.
\<close>

section \<open>The order of timers\<close>

interpretation timer: node_order "node_less_than m" for m
  by unfold_locales (auto simp: node_less_than_def timer_less_than_def split: if_splits)

text \<open>A heap stays one when the comparison of its nodes stays.\<close>

lemma ordered_cong:
  "\<forall>x \<in> set_tree t. \<forall>y \<in> set_tree t. lt' x y = lt x y \<Longrightarrow> ordered lt' t = ordered lt t"
  by (induction t) auto

lemma holds_cong: "\<forall>x \<in> A. \<forall>y \<in> A. lt' x y = lt x y \<Longrightarrow> holds lt' h A = holds lt h A"
  using ordered_cong unfolding holds_def heap_ok_def by metis

section \<open>The invariant\<close>

definition active :: "'cb uv_loop \<Rightarrow> nat set" where
  "active l = {p. \<exists>t. lp_timers l p = Some t \<and> tm_active t}"

definition timers_ok :: "'cb uv_loop \<Rightarrow> bool" where
  "timers_ok l \<longleftrightarrow> holds (node_less_than (lp_timers l)) (lp_timer_heap l) (active l) \<and>
     (\<forall>p t. lp_timers l p = Some t \<longrightarrow> hp_nodes (lp_timer_heap l) p \<noteq> None \<and>
       (tm_active t \<longrightarrow> tm_cb t \<noteq> None \<and> \<not> tm_closing t))"

lemma active_set_timer:
  "active (set_timer p t l) = (if tm_active t then insert p (active l) else active l - {p})"
  by (auto simp: active_def set_timer_def)

lemma set_timer_simps [simp]:
  "lp_timers (set_timer p t l) = (lp_timers l)(p \<mapsto> t)" "lp_timer_heap (set_timer p t l) = lp_timer_heap l"
  "lp_time (set_timer p t l) = lp_time l" "lp_timer_counter (set_timer p t l) = lp_timer_counter l"
  "lp_active_handles (set_timer p t l) = lp_active_handles l"
  by (simp_all add: set_timer_def)

lemma active_update [simp]:
  "active (l\<lparr>lp_timer_heap := h\<rparr>) = active l" "active (l\<lparr>lp_active_handles := n\<rparr>) = active l"
  "active (l\<lparr>lp_timer_counter := c\<rparr>) = active l"
  by (simp_all add: active_def)

text \<open>The two rebuilt loops: \<open>p\<close> stopped, and \<open>p\<close> started as \<open>t\<close>.\<close>

definition count_up :: "bool \<Rightarrow> 'cb uv_loop \<Rightarrow> 'cb uv_loop" where
  "count_up b l = (if b then l\<lparr>lp_active_handles := lp_active_handles l + 1\<rparr> else l)"

definition count_down :: "bool \<Rightarrow> 'cb uv_loop \<Rightarrow> 'cb uv_loop" where
  "count_down b l = (if b then l\<lparr>lp_active_handles := lp_active_handles l - 1\<rparr> else l)"

lemma count_simps [simp]:
  "lp_timers (count_up b l) = lp_timers l" "lp_timer_heap (count_up b l) = lp_timer_heap l"
  "lp_time (count_up b l) = lp_time l" "active (count_up b l) = active l" "lp_timer_counter (count_up b l) = lp_timer_counter l"
  "lp_timers (count_down b l) = lp_timers l" "lp_timer_heap (count_down b l) = lp_timer_heap l"
  "lp_time (count_down b l) = lp_time l" "active (count_down b l) = active l" "lp_timer_counter (count_down b l) = lp_timer_counter l"
  by (simp_all add: count_up_def count_down_def)

lemma node_less_than_cong:
  assumes "\<And>x. x \<in> A \<Longrightarrow> tm_timeout (container_of m' x) = tm_timeout (container_of m x) \<and>
     tm_start_id (container_of m' x) = tm_start_id (container_of m x)"
  shows "\<forall>x \<in> A. \<forall>y \<in> A. node_less_than m' x y = node_less_than m x y"
  using assms by (simp add: node_less_than_def timer_less_than_def)

lemma container_of_upd [simp]: "container_of (m(p \<mapsto> t)) x = (if x = p then t else container_of m x)"
  by (simp add: container_of_def)

lemma container_of_Some: "m p = Some t \<Longrightarrow> container_of m p = t"
  by (simp add: container_of_def)

section \<open>Stopping and starting\<close>

definition halt_timer :: "nat \<Rightarrow> 'cb uv_timer \<Rightarrow> heap \<Rightarrow> 'cb uv_loop \<Rightarrow> 'cb uv_loop" where
  "halt_timer p t h l = count_down (tm_ref t) (set_timer p (t\<lparr>tm_active := False\<rparr>) (l\<lparr>lp_timer_heap := h\<rparr>))"

definition armed :: "'cb \<Rightarrow> u64 \<Rightarrow> u64 \<Rightarrow> 'cb uv_loop \<Rightarrow> 'cb uv_timer \<Rightarrow> 'cb uv_timer" where
  "armed cb timeout repeat l t = t\<lparr>tm_cb := Some cb, tm_timeout := clamp (lp_time l) timeout, tm_repeat := repeat,
     tm_start_id := lp_timer_counter l, tm_active := True\<rparr>"

definition arm_timer :: "nat \<Rightarrow> 'cb \<Rightarrow> u64 \<Rightarrow> u64 \<Rightarrow> 'cb uv_timer \<Rightarrow> heap \<Rightarrow> 'cb uv_loop \<Rightarrow> 'cb uv_loop" where
  "arm_timer p cb timeout repeat t h l = count_up (tm_ref t) (set_timer p (armed cb timeout repeat l t)
     (l\<lparr>lp_timer_heap := h, lp_timer_counter := lp_timer_counter l + 1\<rparr>))"

lemma uv_timer_stop_idle: "lp_timers l p = Some t \<Longrightarrow> \<not> tm_active t \<Longrightarrow> uv_timer_stop p l = Inr (0, l)"
  by (simp add: uv_timer_stop_def timer_at_def)

lemma uv_timer_stop_active:
  assumes ok: "timers_ok l" and t: "lp_timers l p = Some t" "tm_active t"
  shows "\<exists>h. uv_timer_stop p l = Inr (0, halt_timer p t h l) \<and> timers_ok (halt_timer p t h l) \<and> hp_nelts h = hp_nelts (lp_timer_heap l) - 1 \<and>
     hp_nelts (lp_timer_heap l) \<noteq> 0"
proof -
  let ?lt = "node_less_than (lp_timers l)"
  have p: "p \<in> active l" using t by (simp add: active_def)
  have holds: "holds ?lt (lp_timer_heap l) (active l)" using ok by (simp add: timers_ok_def)
  with p have nz: "hp_nelts (lp_timer_heap l) \<noteq> 0" using holds_empty [of "lp_timer_heap l" ?lt "active l"] by auto
  obtain h where h: "heap_remove ?lt p (lp_timer_heap l) = Inr h" "holds ?lt h (active l - {p})"
      "hp_nelts h = hp_nelts (lp_timer_heap l) - 1" "\<forall>y. hp_nodes h y = None \<longleftrightarrow> hp_nodes (lp_timer_heap l) y = None"
    using timer.heap_remove_holds [OF holds p] by blast
  let ?l = "halt_timer p t h l"
  have stop: "uv_timer_stop p l = Inr (0, ?l)"
    using t h(1) by (simp add: uv_timer_stop_def timer_at_def uv__handle_stop_def Let_def count_down_def halt_timer_def)
  have "holds (node_less_than ((lp_timers l)(p \<mapsto> t\<lparr>tm_active := False\<rparr>))) h (active l - {p}) = holds ?lt h (active l - {p})"
    by (rule holds_cong, rule node_less_than_cong) (simp add: t(1) container_of_Some)
  then have "timers_ok ?l" using ok t h(2,4) by (auto simp: timers_ok_def active_set_timer halt_timer_def split: if_splits)
  with stop h(3) nz show ?thesis by blast
qed

lemma uv_timer_start_fresh:
  assumes ok: "timers_ok l" and t: "lp_timers l p = Some t" "\<not> tm_active t" "\<not> tm_closing t"
    and bound: "unat (hp_nelts (lp_timer_heap l)) + 1 < 2 ^ 32"
  shows "\<exists>h. uv_timer_start p (Some cb) timeout repeat l = Inr (0, arm_timer p cb timeout repeat t h l) \<and>
     timers_ok (arm_timer p cb timeout repeat t h l) \<and> hp_nelts h = hp_nelts (lp_timer_heap l) + 1"
proof -
  define t' where "t' = armed cb timeout repeat l t"
  let ?m = "(lp_timers l)(p \<mapsto> t'\<lparr>tm_active := False\<rparr>)" and ?m' = "(lp_timers l)(p \<mapsto> t')"
  have p: "p \<notin> active l" using t by (simp add: active_def)
  have "holds (node_less_than ?m) (lp_timer_heap l) (active l) = holds (node_less_than (lp_timers l)) (lp_timer_heap l) (active l)"
    by (rule holds_cong, rule node_less_than_cong) (use p in auto)
  then have holds: "holds (node_less_than ?m) (lp_timer_heap l) (active l)" using ok by (simp add: timers_ok_def)
  have "hp_nodes (lp_timer_heap l) p \<noteq> None" using ok t(1) by (simp add: timers_ok_def)
  then obtain h where h: "heap_insert (node_less_than ?m) p (lp_timer_heap l) = Inr h"
      "holds (node_less_than ?m) h (insert p (active l))" "hp_nelts h = hp_nelts (lp_timer_heap l) + 1"
      "\<forall>y. hp_nodes h y = None \<longleftrightarrow> hp_nodes (lp_timer_heap l) y = None"
    using timer.heap_insert_holds [OF holds p _ bound] by blast
  have idle: "t\<lparr>tm_cb := Some cb, tm_timeout := clamp (lp_time l) timeout, tm_repeat := repeat,
      tm_start_id := lp_timer_counter l\<rparr> = t'\<lparr>tm_active := False\<rparr>"
    using t(2) by (cases t) (simp add: t'_def armed_def)
  let ?l = "arm_timer p cb timeout repeat t h l"
  have start: "uv_timer_start p (Some cb) timeout repeat l = Inr (0, ?l)"
    using t h(1) [folded idle]
    by (simp add: uv_timer_start_def timer_at_def uv__handle_start_def Let_def count_up_def arm_timer_def armed_def set_timer_def)
  have "holds (node_less_than ?m') h (insert p (active l)) = holds (node_less_than ?m) h (insert p (active l))"
    by (rule holds_cong, rule node_less_than_cong) simp
  then have "timers_ok ?l" using ok t h(2,4) by (auto simp: timers_ok_def active_set_timer t'_def arm_timer_def armed_def split: if_splits)
  with start h(3) show ?thesis by blast
qed

lemma halt_timer_simps [simp]:
  "lp_timers (halt_timer p t h l) = (lp_timers l)(p \<mapsto> t\<lparr>tm_active := False\<rparr>)" "lp_time (halt_timer p t h l) = lp_time l"
  "lp_timer_heap (halt_timer p t h l) = h" "lp_timer_counter (halt_timer p t h l) = lp_timer_counter l"
  by (simp_all add: halt_timer_def)

lemma arm_timer_simps [simp]:
  "lp_timers (arm_timer p cb a b t h l) = (lp_timers l)(p \<mapsto> armed cb a b l t)" "lp_time (arm_timer p cb a b t h l) = lp_time l"
  "lp_timer_heap (arm_timer p cb a b t h l) = h" "lp_timer_counter (arm_timer p cb a b t h l) = lp_timer_counter l + 1"
  by (simp_all add: arm_timer_def)

text \<open>Starting a timer that may be running.\<close>

lemma uv_timer_start_ok:
  assumes ok: "timers_ok l" and t: "lp_timers l p = Some t" "\<not> tm_closing t"
    and bound: "unat (hp_nelts (lp_timer_heap l)) + 1 < 2 ^ 32"
  shows "\<exists>l'. uv_timer_start p (Some cb) timeout repeat l = Inr (0, l') \<and> timers_ok l' \<and> lp_time l' = lp_time l \<and>
     lp_timers l' = (lp_timers l)(p \<mapsto> armed cb timeout repeat l t)"
proof (cases "tm_active t")
  case False
  then show ?thesis using uv_timer_start_fresh [OF ok t(1) _ t(2) bound, of cb timeout repeat] by auto
next
  case True
  obtain h where h: "uv_timer_stop p l = Inr (0, halt_timer p t h l)" "timers_ok (halt_timer p t h l)"
      "hp_nelts h = hp_nelts (lp_timer_heap l) - 1" "hp_nelts (lp_timer_heap l) \<noteq> 0"
    using uv_timer_stop_active [OF ok t(1) True] by blast
  let ?l = "halt_timer p t h l" and ?t = "t\<lparr>tm_active := False\<rparr>"
  have "unat (hp_nelts (lp_timer_heap ?l)) + 1 < 2 ^ 32" using bound h(3,4) by (simp add: unat_minus_one)
  then obtain h' where h': "uv_timer_start p (Some cb) timeout repeat ?l = Inr (0, arm_timer p cb timeout repeat ?t h' ?l)"
      "timers_ok (arm_timer p cb timeout repeat ?t h' ?l)"
    using uv_timer_start_fresh [OF h(2), of p ?t cb timeout repeat] t(2) by auto
  have "uv_timer_start p (Some cb) timeout repeat l = uv_timer_start p (Some cb) timeout repeat ?l"
    using t True h(1) by (simp add: uv_timer_start_def timer_at_def)
  moreover have "armed cb timeout repeat ?l ?t = armed cb timeout repeat l t" by (simp add: armed_def)
  ultimately show ?thesis using h' by (intro exI [of _ "arm_timer p cb timeout repeat ?t h' ?l"]) simp
qed

section \<open>Firing\<close>

definition due :: "'cb uv_loop \<Rightarrow> nat set" where
  "due l = {p \<in> active l. tm_timeout (container_of (lp_timers l) p) \<le> lp_time l}"

text \<open>A timer after it fired: stopped, or due again after its repeat value.\<close>

definition fired :: "u64 \<Rightarrow> 'cb uv_timer \<Rightarrow> 'cb uv_timer \<Rightarrow> bool" where
  "fired time t t' \<longleftrightarrow>
     (if tm_repeat t = 0 then t' = t\<lparr>tm_active := False\<rparr>
      else \<exists>n. t' = t\<lparr>tm_timeout := clamp time (tm_repeat t), tm_start_id := n\<rparr>)"

lemma clamp_later: "time < - 1 \<Longrightarrow> timeout \<noteq> 0 \<Longrightarrow> time < clamp time timeout"
proof -
  assume a: "time < - 1" "timeout \<noteq> 0"
  show ?thesis
  proof (cases "time + timeout < timeout")
    case True
    then show ?thesis using a by (simp add: clamp_def)
  next
    case False
    then have "time \<le> time + timeout" using word_le_nat_alt by (metis add.commute no_olen_add not_le)
    then have "time < time + timeout" using a(2) by (simp add: order.strict_iff_order)
    then show ?thesis using False by (simp add: clamp_def)
  qed
qed

lemma fire_one:
  assumes ok: "timers_ok l" and t: "lp_timers l p = Some t" "tm_active t"
  shows "\<exists>l1 l2 t'. uv_timer_stop p l = Inr (0, l1) \<and> uv_timer_again p l1 = Inr (0, l2) \<and> timers_ok l2 \<and>
     lp_time l2 = lp_time l \<and> lp_timers l2 = (lp_timers l)(p \<mapsto> t') \<and> fired (lp_time l) t t'"
proof -
  have cl: "\<not> tm_closing t" "tm_cb t \<noteq> None" using ok t by (auto simp: timers_ok_def)
  then obtain cb where cb: "tm_cb t = Some cb" by auto
  obtain h where h: "uv_timer_stop p l = Inr (0, halt_timer p t h l)" "timers_ok (halt_timer p t h l)"
      "hp_nelts h = hp_nelts (lp_timer_heap l) - 1" "hp_nelts (lp_timer_heap l) \<noteq> 0"
    using uv_timer_stop_active [OF ok t] by blast
  let ?l = "halt_timer p t h l" and ?t = "t\<lparr>tm_active := False\<rparr>"
  have b: "unat (hp_nelts (lp_timer_heap ?l)) + 1 < 2 ^ 32"
    using h(3,4) unsigned_less [of "hp_nelts (lp_timer_heap l)", where 'a = nat]
    by (simp add: unat_minus_one)
  show ?thesis
  proof (cases "tm_repeat t = 0")
    case True
    then have "uv_timer_again p ?l = Inr (0, ?l)" by (simp add: uv_timer_again_def timer_at_def cb)
    with h True show ?thesis
      by (intro exI [of _ ?l] exI [of _ ?t]) (simp add: fired_def)
  next
    case False
    obtain l2 where l2: "uv_timer_start p (Some cb) (tm_repeat t) (tm_repeat t) ?l = Inr (0, l2)" "timers_ok l2"
        "lp_time l2 = lp_time ?l" "lp_timers l2 = (lp_timers ?l)(p \<mapsto> armed cb (tm_repeat t) (tm_repeat t) ?l ?t)"
      using uv_timer_start_ok [OF h(2), of p ?t cb "tm_repeat t" "tm_repeat t"] b cl by auto
    have "uv_timer_again p ?l = Inr (0, l2)"
      using False l2(1) uv_timer_stop_idle [of ?l p ?t] by (simp add: uv_timer_again_def timer_at_def cb)
    moreover have "fired (lp_time l) t (armed cb (tm_repeat t) (tm_repeat t) ?l ?t)"
      using False t(2) cb by (cases t) (auto simp: fired_def armed_def)
    ultimately show ?thesis using h(1) l2 by auto
  qed
qed

lemma due_fired:
  assumes "lp_timers l p = Some t" "p \<in> due l" "fired (lp_time l) t t'" "lp_time l < - 1"
    and "lp_timers l2 = (lp_timers l)(p \<mapsto> t')" "lp_time l2 = lp_time l"
  shows "due l2 = due l - {p}"
proof -
  have "\<not> (tm_active t' \<and> tm_timeout t' \<le> lp_time l)"
    using assms(3) clamp_later [OF assms(4), of "tm_repeat t"] by (auto simp: fired_def split: if_splits)
  then show ?thesis using assms(5,6) by (auto simp: due_def active_def split: if_splits)
qed

lemma heap_min_timers:
  assumes "timers_ok l"
  shows "heap_min (lp_timer_heap l) = None \<Longrightarrow> active l = {}"
    "heap_min (lp_timer_heap l) = Some p \<Longrightarrow> p \<in> active l \<and> (\<forall>q \<in> active l. \<not> node_less_than (lp_timers l) q p)"
  using timer.heap_min_holds [of "lp_timers l" "lp_timer_heap l" "active l"] assms by (auto simp: timers_ok_def)

lemma not_less_timeout: "\<not> node_less_than m q p \<Longrightarrow> tm_timeout (container_of m p) \<le> tm_timeout (container_of m q)"
  by (auto simp: node_less_than_def timer_less_than_def split: if_splits)

definition run_callbacks :: "('cb \<Rightarrow> nat \<Rightarrow> 's \<Rightarrow> 's) \<Rightarrow> (nat \<Rightarrow> 'cb uv_timer option) \<Rightarrow> nat list \<Rightarrow> 's \<Rightarrow> 's" where
  "run_callbacks act m ps s = fold (\<lambda>p. act (the (tm_cb (container_of m p))) p) ps s"

lemma run_callbacks_Cons:
  "run_callbacks act m (p # ps) s = run_callbacks act m ps (act (the (tm_cb (container_of m p))) p s)"
  by (simp add: run_callbacks_def)

lemma run_callbacks_cong: "(\<And>q. q \<in> set ps \<Longrightarrow> m q = m' q) \<Longrightarrow> run_callbacks act m ps s = run_callbacks act m' ps s"
  unfolding run_callbacks_def by (rule fold_cong) (simp_all add: container_of_def)

lemma finite_due:
  assumes "timers_ok l"
  shows "finite (due l)"
proof -
  obtain t where "set_tree t = active l" using assms by (auto simp: timers_ok_def holds_def)
  then have "finite (active l)" using finite_set_tree [of t] by simp
  then show ?thesis by (simp add: due_def)
qed

lemma fired_cb: "fired time t t' \<Longrightarrow> tm_cb t' = tm_cb t"
  by (auto simp: fired_def split: if_splits)

lemma timers_ok_cb: "timers_ok l \<Longrightarrow> lp_timers l p = Some t \<Longrightarrow> tm_active t \<Longrightarrow> \<exists>cb. tm_cb t = Some cb"
  by (auto simp: timers_ok_def)

lemma none_due:
  assumes "timers_ok l" "due l = {}"
  shows "uv__run_timers (Suc fuel) call (s, l) = Inr (s, l)"
proof (cases "heap_min (lp_timer_heap l)")
  case (Some p)
  then obtain t where "lp_timers l p = Some t" "p \<in> active l"
    using heap_min_timers(2) [OF assms(1)] by (auto simp: active_def)
  with Some assms(2) show ?thesis by (auto simp: timer_at_def due_def container_of_Some)
qed simp

lemma first_due:
  assumes ok: "timers_ok l" and time: "lp_time l < - 1" and ne: "due l \<noteq> {}"
  shows "\<exists>p t t' cb l2. p \<in> due l \<and> (\<forall>q \<in> active l. \<not> node_less_than (lp_timers l) q p) \<and>
     lp_timers l p = Some t \<and> tm_cb t = Some cb \<and> timers_ok l2 \<and> lp_time l2 = lp_time l \<and>
     lp_timers l2 = (lp_timers l)(p \<mapsto> t') \<and> fired (lp_time l) t t' \<and> due l2 = due l - {p} \<and>
     (\<forall>fuel s. uv__run_timers (Suc fuel) call (s, l) = bindE (call cb p (s, l2)) (uv__run_timers fuel call))"
proof -
  obtain q where q: "q \<in> due l" using ne by blast
  then have "heap_min (lp_timer_heap l) \<noteq> None" using heap_min_timers(1) [OF ok] by (auto simp: due_def)
  then obtain p where p: "heap_min (lp_timer_heap l) = Some p" "p \<in> active l"
      "\<forall>q \<in> active l. \<not> node_less_than (lp_timers l) q p"
    using heap_min_timers(2) [OF ok] by auto
  obtain t where t: "lp_timers l p = Some t" "tm_active t" using p(2) by (auto simp: active_def)
  have "tm_timeout (container_of (lp_timers l) p) \<le> lp_time l"
    using q p(3) not_less_timeout [of "lp_timers l" q p] by (auto simp: due_def intro: order_trans)
  then have pd: "p \<in> due l" and late: "\<not> lp_time l < tm_timeout t"
    using p(2) t by (simp_all add: due_def container_of_Some not_less)
  obtain cb where cb: "tm_cb t = Some cb" using timers_ok_cb [OF ok t] by blast
  obtain l1 l2 t' where f: "uv_timer_stop p l = Inr (0, l1)" "uv_timer_again p l1 = Inr (0, l2)" "timers_ok l2"
      "lp_time l2 = lp_time l" "lp_timers l2 = (lp_timers l)(p \<mapsto> t')" "fired (lp_time l) t t'"
    using fire_one [OF ok t] by blast
  have d2: "due l2 = due l - {p}" by (rule due_fired [OF t(1) pd f(6) time f(5,4)])
  have "uv__run_timers (Suc fuel) call (s, l) = bindE (call cb p (s, l2)) (uv__run_timers fuel call)" for fuel s
    using p(1) t(1) late f(1,2,5) fired_cb [OF f(6)] cb by (simp add: timer_at_def)
  with pd p(3) t(1) cb f(3-6) d2 show ?thesis by blast
qed

lemma uv__run_timers_due:
  assumes "timers_ok l" "lp_time l < - 1" "card (due l) < fuel"
    and call: "\<And>cb p s l. call cb p (s, l) = Inr (act cb p s, l)"
  shows "\<exists>ps l'. uv__run_timers fuel call (s, l) = Inr (run_callbacks act (lp_timers l) ps s, l') \<and>
     distinct ps \<and> set ps = due l \<and> sorted_wrt (\<lambda>p q. \<not> node_less_than (lp_timers l) q p) ps \<and>
     timers_ok l' \<and> lp_time l' = lp_time l \<and> due l' = {} \<and> (\<forall>q. q \<notin> due l \<longrightarrow> lp_timers l' q = lp_timers l q) \<and>
     (\<forall>q \<in> due l. \<exists>t t'. lp_timers l q = Some t \<and> lp_timers l' q = Some t' \<and> fired (lp_time l) t t')"
  using assms(1-3)
proof (induction fuel arbitrary: l s)
  case (Suc fuel)
  show ?case
  proof (cases "due l = {}")
    case True
    with none_due [OF Suc.prems(1) True] Suc.prems show ?thesis
      by (intro exI [of _ "[]"] exI [of _ l]) (simp add: run_callbacks_def)
  next
    case False
    obtain p t t' cb l2 where pd: "p \<in> due l" and first: "\<forall>q \<in> active l. \<not> node_less_than (lp_timers l) q p"
      and t: "lp_timers l p = Some t" "tm_cb t = Some cb" and l2: "timers_ok l2" "lp_time l2 = lp_time l"
      and upd: "lp_timers l2 = (lp_timers l)(p \<mapsto> t')" "fired (lp_time l) t t'" and d2: "due l2 = due l - {p}"
      and step: "\<forall>fuel s. uv__run_timers (Suc fuel) call (s, l) = bindE (call cb p (s, l2)) (uv__run_timers fuel call)"
      using first_due [OF Suc.prems(1,2) False, where call = call]
      by (elim exE conjE) (rule that; assumption)
    have "card (due l2) < card (due l)" unfolding d2 by (rule card_Diff1_less [OF finite_due [OF Suc.prems(1)] pd])
    then have "card (due l2) < fuel" using Suc.prems(3) by simp
    then obtain ps l' where r: "uv__run_timers fuel call (act cb p s, l2) =
          Inr (run_callbacks act (lp_timers l2) ps (act cb p s), l')"
        "distinct ps" "set ps = due l2" "sorted_wrt (\<lambda>p q. \<not> node_less_than (lp_timers l2) q p) ps"
        "timers_ok l'" "lp_time l' = lp_time l2" "due l' = {}" "\<forall>q. q \<notin> due l2 \<longrightarrow> lp_timers l' q = lp_timers l2 q"
        "\<forall>q \<in> due l2. \<exists>t t'. lp_timers l2 q = Some t \<and> lp_timers l' q = Some t' \<and> fired (lp_time l2) t t'"
      using Suc.IH [OF l2(1), of "act cb p s"] Suc.prems(2) l2(2) by auto
    have same: "lp_timers l2 q = lp_timers l q" if "q \<in> set ps" for q using that r(3) d2 upd(1) by auto
    have "run_callbacks act (lp_timers l) (p # ps) s = run_callbacks act (lp_timers l2) ps (act cb p s)"
      using run_callbacks_cong [where ps = ps and m = "lp_timers l2" and m' = "lp_timers l" and act = act
          and s = "act cb p s"] same t by (simp add: run_callbacks_Cons container_of_Some)
    moreover have "sorted_wrt (\<lambda>p q. \<not> node_less_than (lp_timers l) q p) ps"
      by (rule sorted_wrt_mono_rel [OF _ r(4)]) (use same in \<open>simp add: node_less_than_def container_of_def\<close>)
    then have "sorted_wrt (\<lambda>p q. \<not> node_less_than (lp_timers l) q p) (p # ps)"
      using first r(3) d2 by (auto simp: due_def)
    moreover have "distinct (p # ps)" "set (p # ps) = due l" using r(2,3) d2 pd by auto
    moreover have "\<forall>q. q \<notin> due l \<longrightarrow> lp_timers l' q = lp_timers l q" using r(8) d2 upd(1) pd by auto
    moreover have "\<exists>t t'. lp_timers l q = Some t \<and> lp_timers l' q = Some t' \<and> fired (lp_time l) t t'" if "q \<in> due l" for q
      using r(8,9) d2 upd t(1) l2(2) that by (cases "q = p") auto
    ultimately show ?thesis
      using step r(1,5,6,7) l2(2) by (intro exI [of _ "p # ps"] exI [of _ l']) (simp add: call)
  qed
qed simp

section \<open>Waiting\<close>

text \<open>The loop never waits longer than until the next timer, and a timer is what it waits for.\<close>

lemma uv__next_timeout_correct:
  assumes ok: "timers_ok l"
  shows "\<exists>n. uv__next_timeout l = Inr n \<and> (active l = {} \<longrightarrow> n = - 1) \<and>
     (\<forall>p \<in> active l. \<exists>d. uv_timer_get_due_in p l = Inr d \<and> n \<le> uint d) \<and>
     (active l \<noteq> {} \<longrightarrow> (\<exists>p \<in> active l. \<exists>d. uv_timer_get_due_in p l = Inr d \<and> n = min 2147483647 (uint d)))"
proof (cases "heap_min (lp_timer_heap l)")
  case None
  with heap_min_timers(1) [OF ok] show ?thesis by (simp add: uv__next_timeout_def)
next
  case (Some p)
  have p: "p \<in> active l" "\<forall>q \<in> active l. \<not> node_less_than (lp_timers l) q p"
    using heap_min_timers(2) [OF ok Some] by auto
  let ?due = "\<lambda>t. if lp_time l \<ge> tm_timeout t then 0 else tm_timeout t - lp_time l :: u64"
  have due: "uv_timer_get_due_in q l = Inr (?due (container_of (lp_timers l) q))" if "q \<in> active l" for q
    using that by (auto simp: uv_timer_get_due_in_def timer_at_def active_def container_of_Some)
  let ?n = "min 2147483647 (uint (?due (container_of (lp_timers l) p)))"
  have n: "uv__next_timeout l = Inr ?n"
    using Some p(1) by (auto simp: uv__next_timeout_def timer_at_def active_def container_of_Some Let_def word_less_def)
  have "?n \<le> uint (?due (container_of (lp_timers l) q))" if "q \<in> active l" for q
  proof -
    have "tm_timeout (container_of (lp_timers l) p) \<le> tm_timeout (container_of (lp_timers l) q)"
      using p(2) that not_less_timeout by blast
    then have "?due (container_of (lp_timers l) p) \<le> ?due (container_of (lp_timers l) q)"
      by (auto simp: word_le_minus_mono_left not_le)
    then show ?thesis by (simp only: word_le_def)
  qed
  with n due p(1) show ?thesis by (intro exI [of _ ?n]) auto
qed

end
