(* ===== verification/Clear_Timer.thy ===== *)
theory Clear_Timer
  imports Lifecycle Uv_Timer_Correct
begin

text \<open>
  The timer \<open>main\<close> starts for \<open>clear_callback\<close>, in a loop where it is the only active timer.
\<close>

text \<open>The callback works on the caches and leaves the loop alone.\<close>

definition clear_call :: "int \<Rightarrow> 'cb \<Rightarrow> nat \<Rightarrow> server_t \<times> 'cb uv_loop \<Rightarrow> (server_t \<times> 'cb uv_loop) res" where
  "clear_call now cb p = (\<lambda>(s, l). bindE (clear_callback now s) (\<lambda>s. Inr (s, l)))"

definition only_timer :: "nat \<Rightarrow> u64 \<Rightarrow> u64 \<Rightarrow> 'cb uv_loop \<Rightarrow> bool" where
  "only_timer p timeout repeat l \<longleftrightarrow> timers_ok l \<and> active l = {p} \<and>
     (\<exists>t. lp_timers l p = Some t \<and> tm_timeout t = timeout \<and> tm_repeat t = repeat)"

lemma active_one: "active l = {} \<Longrightarrow> lp_timers l' = (lp_timers l)(p \<mapsto> t) \<Longrightarrow> tm_active t \<Longrightarrow> active l' = {p}"
  by (auto simp: active_def split: if_splits)

lemma only_timer_started:
  assumes "timers_ok l" "active l = {}" "lp_timers l p = Some t" "\<not> tm_closing t"
  shows "\<exists>l'. uv_timer_start p (Some cb) timeout repeat l = Inr (0, l') \<and>
     only_timer p (clamp (lp_time l) timeout) repeat l' \<and> lp_time l' = lp_time l"
proof -
  have "holds (node_less_than (lp_timers l)) (lp_timer_heap l) {}" using assms(1,2) by (simp add: timers_ok_def)
  then have "unat (hp_nelts (lp_timer_heap l)) + 1 < 2 ^ 32" by (simp add: holds_none)
  from uv_timer_start_ok [OF assms(1,3,4) this, of cb timeout repeat] obtain l' where
    l': "uv_timer_start p (Some cb) timeout repeat l = Inr (0, l')" "timers_ok l'" "lp_time l' = lp_time l"
      "lp_timers l' = (lp_timers l)(p \<mapsto> armed cb timeout repeat l t)" by blast
  moreover have "active l' = {p}" by (rule active_one [OF assms(2) l'(4)]) (simp add: armed_def)
  ultimately show ?thesis by (auto simp: only_timer_def armed_def)
qed

text \<open>The time passes: the loop reads the clock.\<close>

lemma only_timer_time: "only_timer p timeout repeat l \<Longrightarrow> only_timer p timeout repeat (l\<lparr>lp_time := now\<rparr>)"
proof -
  have a: "active (l\<lparr>lp_time := now\<rparr>) = active l" by (simp add: active_def)
  then have "timers_ok (l\<lparr>lp_time := now\<rparr>) = timers_ok l" by (simp add: timers_ok_def)
  with a show "only_timer p timeout repeat l \<Longrightarrow> only_timer p timeout repeat (l\<lparr>lp_time := now\<rparr>)"
    by (simp add: only_timer_def)
qed

lemma due_only: "only_timer p timeout repeat l \<Longrightarrow> due l = (if timeout \<le> lp_time l then {p} else {})"
  by (auto simp: only_timer_def due_def container_of_Some)

lemma only_timer_waits:
  assumes "only_timer p timeout repeat l" "lp_time l < timeout"
  shows "uv__run_timers (Suc fuel) call (s, l) = Inr (s, l)"
  by (rule none_due) (use assms due_only [OF assms(1)] in \<open>auto simp: only_timer_def\<close>)

lemma only_timer_fires:
  assumes ok: "only_timer p timeout repeat l" and time: "timeout \<le> lp_time l" "lp_time l < - 1" and rep: "repeat \<noteq> 0"
    and call: "\<And>cb l. call cb p (s, l) = Inr (s', l)"
  shows "\<exists>l'. uv__run_timers (Suc (Suc fuel)) call (s, l) = Inr (s', l') \<and>
     only_timer p (clamp (lp_time l) repeat) repeat l' \<and> lp_time l' = lp_time l"
proof -
  have d: "due l = {p}" using due_only [OF ok] time(1) by simp
  have tok: "timers_ok l" using ok by (simp add: only_timer_def)
  obtain t where t: "lp_timers l p = Some t" "tm_repeat t = repeat" "tm_active t"
  proof -
    have "p \<in> active l" using ok by (simp add: only_timer_def)
    then obtain t where "lp_timers l p = Some t" "tm_active t" by (auto simp: active_def)
    with ok that [of t] show thesis by (auto simp: only_timer_def)
  qed
  have "due l \<noteq> {}" using d by simp
  from first_due [OF tok time(2) this, where call = call] obtain t' cb l2 where
    l2: "timers_ok l2" "lp_time l2 = lp_time l" "lp_timers l2 = (lp_timers l)(p \<mapsto> t')" "fired (lp_time l) t t'" "due l2 = {}"
    and step: "\<And>fuel s. uv__run_timers (Suc fuel) call (s, l) = bindE (call cb p (s, l2)) (uv__run_timers fuel call)"
    using d t(1) by auto
  have "uv__run_timers (Suc (Suc fuel)) call (s, l) = uv__run_timers (Suc fuel) call (s', l2)"
    by (simp only: step call bindE.simps)
  also have "\<dots> = Inr (s', l2)" by (rule none_due [OF l2(1,5)])
  finally have run: "uv__run_timers (Suc (Suc fuel)) call (s, l) = Inr (s', l2)" .
  have "active l2 = active l" using l2(3,4) rep t by (auto simp: active_def fired_def split: if_splits)
  then have "active l2 = {p}" using ok by (simp add: only_timer_def)
  with l2 rep t(2) have "only_timer p (clamp (lp_time l) repeat) repeat l2"
    by (auto simp: only_timer_def fired_def)
  with run l2(2) show ?thesis by blast
qed

text \<open>From the start on: nothing until the time is up, then the caches are cleared and the timer is due again.\<close>

lemma clear_timer_correct:
  assumes ok: "timers_ok l" "active l = {}" "lp_timers l p = Some t" "\<not> tm_closing t"
    and inv: "srv_inv s" "ht_shallow (ipv4_table s)" "ht_shallow (ipv6_table s)"
  shows "\<exists>l'. uv_timer_start p (Some cb) 120000 120000 l = Inr (0, l') \<and>
     only_timer p (clamp (lp_time l) 120000) 120000 l' \<and>
     (\<forall>now. now < clamp (lp_time l) 120000 \<longrightarrow>
        uv__run_timers 2 (clear_call secs) (s, l'\<lparr>lp_time := now\<rparr>) = Inr (s, l'\<lparr>lp_time := now\<rparr>)) \<and>
     (\<forall>now. clamp (lp_time l) 120000 \<le> now \<and> now < - 1 \<longrightarrow>
        (\<exists>s' l''. uv__run_timers 2 (clear_call secs) (s, l'\<lparr>lp_time := now\<rparr>) = Inr (s', l'') \<and>
           clear_callback secs s = Inr s' \<and> only_timer p (clamp now 120000) 120000 l''))"
proof -
  obtain l' where l': "uv_timer_start p (Some cb) 120000 120000 l = Inr (0, l')"
      "only_timer p (clamp (lp_time l) 120000) 120000 l'"
    using only_timer_started [OF ok] by blast
  obtain s' where s': "clear_callback secs s = Inr s'" using clear_callback_correct [OF inv] by blast
  have two: "uv__run_timers 2 = uv__run_timers (Suc (Suc 0))" for call :: "'cb \<Rightarrow> nat \<Rightarrow> server_t \<times> 'cb uv_loop \<Rightarrow> _"
    by (simp add: numeral_2_eq_2 del: uv__run_timers.simps)
  have nz: "(120000 :: u64) \<noteq> 0" by simp
  have call: "clear_call secs cb p (s, l) = Inr (s', l)" for cb :: 'cb and l by (simp add: clear_call_def s')
  have "uv__run_timers 2 (clear_call secs) (s, l'\<lparr>lp_time := now\<rparr>) = Inr (s, l'\<lparr>lp_time := now\<rparr>)"
    if "now < clamp (lp_time l) 120000" for now
    unfolding two by (rule only_timer_waits [OF only_timer_time [OF l'(2)]]) (use that in simp)
  moreover have "\<exists>s' l''. uv__run_timers 2 (clear_call secs) (s, l'\<lparr>lp_time := now\<rparr>) = Inr (s', l'') \<and>
      clear_callback secs s = Inr s' \<and> only_timer p (clamp now 120000) 120000 l''"
    if "clamp (lp_time l) 120000 \<le> now" "now < - 1" for now
    using only_timer_fires [OF only_timer_time [OF l'(2), of now] _ _ nz, where call = "clear_call secs" and s = s
        and s' = s' and fuel = 0] call that s'
    unfolding two by auto
  ultimately show ?thesis using l' by blast
qed

end
