(* ===== verification/Uv_Idna.thy ===== *)
theory Uv_Idna
  imports Prelude
begin

text \<open>
  Host names in ASCII, \<open>src/libuv/src/idna.c\<close>: the UTF-8 decoder and the Punycode encoder of the bundled libuv.
  A pair of pointers into the input is the list of the bytes between them; the output is the list of the bytes
  written so far, in a buffer of \<open>cap\<close> bytes. A return of an error code is the left of an inner sum.
\<close>

unbundle bit_operations_syntax

section \<open>Decoding UTF-8\<close>

text \<open>What follows the switch: the checks of the bits and of the value.\<close>

definition utf8_value :: "u32 \<Rightarrow> u32 \<Rightarrow> u32 \<Rightarrow> u32 \<Rightarrow> u32 \<Rightarrow> u32" where
  "utf8_value mn a b c d =
     (if 0x80 \<noteq> (0xC0 AND (b XOR c XOR d)) then - 1
      else
        let a = push_bit 18 a OR push_bit 12 (b AND 63) OR push_bit 6 (c AND 63) OR (d AND 63)
        in if a < mn then - 1
           else if a > 0x10FFFF then - 1
           else if a \<ge> 0xD800 \<and> a \<le> 0xDFFF then - 1
           else a)"

text \<open>The cases of the switch fall through, so a case is taken with at least its number of bytes left.\<close>

definition uv__utf8_decode1_slow :: "byte list \<Rightarrow> u32 \<Rightarrow> u32 \<times> byte list" where
  "uv__utf8_decode1_slow p a =
     (if a > 0xF7 then (- 1, p)
      else if length p \<ge> 3 \<and> a > 0xEF then
        (utf8_value 0x10000 (a AND 7) (ucast (p ! 0)) (ucast (p ! 1)) (ucast (p ! 2)), drop 3 p)
      else if length p \<ge> 2 \<and> a > 0xDF then
        (utf8_value 0x800 0 (0x80 OR (a AND 15)) (ucast (p ! 0)) (ucast (p ! 1)), drop 2 p)
      else if length p \<ge> 1 \<and> a > 0xBF then
        (utf8_value 0x80 0 0x80 (0x80 OR (a AND 31)) (ucast (p ! 0)), drop 1 p)
      else (- 1, p))"

fun uv__utf8_decode1 :: "byte list \<Rightarrow> (u32 \<times> byte list) res" where
  "uv__utf8_decode1 [] = Inl Assertion_Failed"
| "uv__utf8_decode1 (b # p) = Inr (if ucast b < (128 :: u32) then (ucast b, p) else uv__utf8_decode1_slow p (ucast b))"

lemma decode1_shorter [termination_simp]: "uv__utf8_decode1 s = Inr (c, s') \<Longrightarrow> length s' < length s"
  by (cases s) (auto simp: uv__utf8_decode1_slow_def split: if_splits)

text \<open>A decoding that was checked before: an error fails the assertion.\<close>

definition decode_again :: "byte list \<Rightarrow> (u32 \<times> byte list) res" where
  "decode_again s = bindE (uv__utf8_decode1 s) (\<lambda>(c, s). if c = - 1 then Inl Assertion_Failed else Inr (c, s))"

lemma decode_again_shorter [termination_simp]: "decode_again s = Inr (c, s') \<Longrightarrow> length s' < length s"
  by (auto simp: decode_again_def res_simps decode1_shorter split: if_splits)

section \<open>One label\<close>

definition emit :: "nat \<Rightarrow> byte \<Rightarrow> byte list \<Rightarrow> byte list" where
  "emit cap c d = (if length d < cap then d @ [c] else d)"

function count_chars :: "byte list \<Rightarrow> u32 \<Rightarrow> u32 \<Rightarrow> (int + u32 \<times> u32) res" where
  "count_chars s h todo =
     (if s = [] then Inr (Inr (h, todo))
      else
        bindE (uv__utf8_decode1 s) (\<lambda>(c, s).
        if c = - 1 then Inr (Inl UV_EINVAL)
        else if c < 128 then count_chars s (h + 1) todo
        else count_chars s h (todo + 1)))"
  by pat_completeness auto
termination by (relation "measure (\<lambda>(s, _, _). length s)") (auto simp: termination_simp)

function write_ascii :: "nat \<Rightarrow> u32 \<Rightarrow> byte list \<Rightarrow> u32 \<Rightarrow> byte list \<Rightarrow> byte list res" where
  "write_ascii cap h s x d =
     (if s = [] then Inr d
      else
        bindE (decode_again s) (\<lambda>(c, s).
        if c > 127 then write_ascii cap h s x d
        else
          let d = emit cap (ucast c) d
          in if x + 1 = h then Inr d else write_ascii cap h s (x + 1) d))"
  by pat_completeness auto
termination by (relation "measure (\<lambda>(_, _, s, _, _). length s)") (auto simp: termination_simp)

text \<open>The smallest character not below \<open>n\<close>.\<close>

function next_char :: "u32 \<Rightarrow> byte list \<Rightarrow> u32 \<Rightarrow> u32 res" where
  "next_char n s m =
     (if s = [] then Inr m
      else
        bindE (decode_again s) (\<lambda>(c, s). next_char n s (if c \<ge> n \<and> c < m then c else m)))"
  by pat_completeness auto
termination by (relation "measure (\<lambda>(_, s, _). length s)") (auto simp: termination_simp)

declare count_chars.simps [simp del] write_ascii.simps [simp del] next_char.simps [simp del]

definition alphabet :: "byte list" where
  "alphabet = ascii ''abcdefghijklmnopqrstuvwxyz0123456789'' @ [0]"

definition emit_digit :: "nat \<Rightarrow> u32 \<Rightarrow> byte list \<Rightarrow> byte list res" where
  "emit_digit cap t d =
     (if length d < cap then bindE (arr_get alphabet (unat t)) (\<lambda>c. Inr (d @ [c])) else Inr d)"

definition threshold :: "u32 \<Rightarrow> u32 \<Rightarrow> u32" where
  "threshold bias k =
     (let t = (if k > bias then k - bias else 1) in if t > 26 then 26 else t)"

lemma threshold_range: "1 \<le> threshold bias k \<and> threshold bias k \<le> 26"
proof -
  have "1 \<le> k - bias" if "bias < k" using that by (simp add: word_le_nat_alt Suc_le_eq unat_gt_0)
  then show ?thesis by (auto simp: threshold_def Let_def)
qed

text \<open>A variable-length integer: all digits but the last.\<close>

function digits_loop :: "nat \<Rightarrow> u32 \<Rightarrow> u32 \<Rightarrow> u32 \<Rightarrow> byte list \<Rightarrow> (u32 \<times> byte list) res" where
  "digits_loop cap bias k q d =
     (let t = threshold bias k in
      if q < t then Inr (q, d)
      else
        let x = q - t; y = 36 - t
        in bindE (emit_digit cap (t + x mod y) d) (\<lambda>d. digits_loop cap bias (k + 36) (x div y) d))"
  by pat_completeness auto
termination
proof (relation "measure (\<lambda>(_, _, _, q, _). unat q)")
  fix cap :: nat and bias k q :: u32 and d d' :: "byte list" and t x y
  assume t: "t = threshold bias k" and q: "\<not> q < t" and x: "x = q - t" and y: "y = 36 - t"
  have r: "1 \<le> unat t" "unat t \<le> 26" using threshold_range [of bias k] by (simp_all add: t word_le_nat_alt)
  have "unat x = unat q - unat t" using q by (simp add: x unat_sub not_less)
  moreover have "unat t \<le> unat q" using q by (simp add: not_less word_le_nat_alt)
  moreover have "unat (x div y) \<le> unat x" by (simp add: unat_div)
  ultimately have "unat (x div y) < unat q" using r(1) by linarith
  then show "((cap, bias, k + 36, x div y, d'), cap, bias, k, q, d) \<in> measure (\<lambda>(_, _, _, q, _). unat q)" by simp
qed simp

text \<open>The new bias.\<close>

function bias_loop :: "u32 \<Rightarrow> u32 \<Rightarrow> u32 \<times> u32" where
  "bias_loop delta bias = (if delta > 455 then bias_loop (delta div 35) (bias + 36) else (delta, bias))"
  by pat_completeness auto
termination
proof (relation "measure (\<lambda>(delta, _). unat delta)")
  fix delta bias :: u32
  assume "455 < delta"
  then have "0 < unat delta" by (simp add: word_less_nat_alt)
  then show "((delta div 35, bias + 36), delta, bias) \<in> measure (\<lambda>(delta, _). unat delta)" by (simp add: unat_div)
qed simp

declare digits_loop.simps [simp del] bias_loop.simps [simp del]

definition div_u32 :: "u32 \<Rightarrow> u32 \<Rightarrow> u32 res" where
  "div_u32 a b = (if b = 0 then Inl Division_By_Zero else Inr (a div b))"

record punycode =
  pc_delta :: u32
  pc_bias :: u32
  pc_h :: u32
  pc_todo :: u32
  pc_first :: bool
  pc_out :: "byte list"

text \<open>Writing the delta of one character and adapting the bias.\<close>

definition write_delta :: "nat \<Rightarrow> punycode \<Rightarrow> punycode res" where
  "write_delta cap st =
     bindE (digits_loop cap (pc_bias st) 36 (pc_delta st) (pc_out st)) (\<lambda>(q, d).
     bindE (emit_digit cap q d) (\<lambda>d.
     let delta = pc_delta st div 2;
         delta = (if pc_first st then delta div 350 else delta);
         h = pc_h st + 1
     in bindE (div_u32 delta h) (\<lambda>r.
        let (delta, bias) = bias_loop (delta + r) 0
        in bindE (div_u32 (36 * delta) (delta + 38)) (\<lambda>r.
           Inr \<lparr>pc_delta = 0, pc_bias = bias + r, pc_h = h, pc_todo = pc_todo st - 1,
                pc_first = False, pc_out = d\<rparr>))))"

text \<open>All characters of the label, writing those equal to \<open>n\<close>.\<close>

function write_char :: "nat \<Rightarrow> u32 \<Rightarrow> byte list \<Rightarrow> punycode \<Rightarrow> (int + punycode) res" where
  "write_char cap n s st =
     (if s = [] then Inr (Inr st)
      else
        bindE (decode_again s) (\<lambda>(c, s).
        let st = (if c < n then st\<lparr>pc_delta := pc_delta st + 1\<rparr> else st) in
        if c < n \<and> pc_delta st = 0 then Inr (Inl UV_E2BIG)
        else if c \<noteq> n then write_char cap n s st
        else bindE (write_delta cap st) (write_char cap n s)))"
  by pat_completeness auto
termination by (relation "measure (\<lambda>(_, _, s, _). length s)") (auto simp: termination_simp)

declare write_char.simps [simp del]

fun write_rest :: "nat \<Rightarrow> nat \<Rightarrow> byte list \<Rightarrow> u32 \<Rightarrow> punycode \<Rightarrow> (int \<times> byte list) res" where
  "write_rest 0 cap s n st = Inl Diverges"
| "write_rest (Suc fuel) cap s n st =
     (if \<not> pc_todo st > 0 then Inr (0, pc_out st)
      else
        bindE (next_char n s (- 1)) (\<lambda>m.
        let x = m - n; y = pc_h st + 1 in
        bindE (div_u32 (NOT (pc_delta st)) y) (\<lambda>r.
        if x > r then Inr (UV_E2BIG, pc_out st)
        else
          bindE (write_char cap m s (st\<lparr>pc_delta := pc_delta st + x * y\<rparr>)) (\<lambda>r.
          case r of
            Inl e \<Rightarrow> Inr (e, pc_out st)
          | Inr st \<Rightarrow> write_rest fuel cap s (m + 1) (st\<lparr>pc_delta := pc_delta st + 1\<rparr>)))))"

definition uv__idna_toascii_label :: "nat \<Rightarrow> byte list \<Rightarrow> byte list \<Rightarrow> (int \<times> byte list) res" where
  "uv__idna_toascii_label cap s d =
     bindE (count_chars s 0 0) (\<lambda>r.
     case r of
       Inl e \<Rightarrow> Inr (e, d)
     | Inr (h, todo) \<Rightarrow>
         let d = (if todo > 0 then emit cap 45 (emit cap 45 (emit cap 110 (emit cap 120 d))) else d) in
         bindE (write_ascii cap h s 0 d) (\<lambda>d.
         if todo = 0 then Inr (sint h, d)
         else
           let d = (if h > 0 then emit cap 45 d else d)
           in write_rest (length s + 1) cap s 128
                \<lparr>pc_delta = 0, pc_bias = 72, pc_h = h, pc_todo = todo, pc_first = True, pc_out = d\<rparr>))"

section \<open>All labels\<close>

definition label_dot :: "u32 \<Rightarrow> bool" where
  "label_dot c \<longleftrightarrow> c = 46 \<or> c = 0x3002 \<or> c = 0xFF0E \<or> c = 0xFF61"

text \<open>\<open>lab\<close> holds the bytes from the start of the label to \<open>si\<close>.\<close>

function toascii_loop :: "nat \<Rightarrow> byte list \<Rightarrow> byte list \<Rightarrow> byte list \<Rightarrow> (int \<times> byte list \<times> byte list) res" where
  "toascii_loop cap lab si d =
     (if si = [] then Inr (0, lab, d)
      else
        bindE (uv__utf8_decode1 si) (\<lambda>(c, si').
        if c = - 1 then Inr (UV_EINVAL, lab, d)
        else if \<not> label_dot c then toascii_loop cap (lab @ take (length si - length si') si) si' d
        else
          bindE (uv__idna_toascii_label cap lab d) (\<lambda>(rc, d).
          if rc < 0 then Inr (rc, lab, d)
          else toascii_loop cap [] si' (emit cap 46 d))))"
  by pat_completeness auto
termination by (relation "measure (\<lambda>(_, _, si, _). length si)") (auto simp: termination_simp)

declare toascii_loop.simps [simp del]

definition uv__idna_toascii :: "nat \<Rightarrow> byte list \<Rightarrow> (int \<times> byte list) res" where
  "uv__idna_toascii cap s =
     bindE (toascii_loop cap [] s []) (\<lambda>(rc, lab, d).
     if rc < 0 then Inr (rc, d)
     else
       bindE (if lab \<noteq> [] then uv__idna_toascii_label cap lab d else Inr (0, d)) (\<lambda>(rc, d).
       if rc < 0 then Inr (rc, d)
       else let d = emit cap 0 d in Inr (int (length d), d)))"

end
