(* ===== verification/Uv_Idna_Correct.thy ===== *)
theory Uv_Idna_Correct
  imports Uv_Idna
begin

text \<open>
  The Punycode encoder returns on every input without leaving its arrays, and passes ASCII names on as they are.
\<close>

unbundle bit_operations_syntax

section \<open>The characters of a text\<close>

function chars :: "byte list \<Rightarrow> u32 list option" where
  "chars s =
     (if s = [] then Some []
      else
        case uv__utf8_decode1 s of
          Inl _ \<Rightarrow> None
        | Inr (c, s') \<Rightarrow> if c = - 1 then None else map_option ((#) c) (chars s'))"
  by pat_completeness auto
termination by (relation "measure length") (auto simp: termination_simp)

declare chars.simps [simp del]

lemma chars_Nil [simp]: "chars [] = Some []"
  by (simp add: chars.simps)

lemma decode1_ok: "s \<noteq> [] \<Longrightarrow> \<exists>c s'. uv__utf8_decode1 s = Inr (c, s')"
  by (cases s) (auto simp del: uv__utf8_decode1.simps simp add: uv__utf8_decode1.simps(2) split: if_splits prod.splits)

lemma chars_Some:
  assumes "chars s = Some cs" "s \<noteq> []"
  obtains c s' cs' where "uv__utf8_decode1 s = Inr (c, s')" "c \<noteq> - 1" "chars s' = Some cs'" "cs = c # cs'"
proof -
  obtain c s' where "uv__utf8_decode1 s = Inr (c, s')" using decode1_ok [OF assms(2)] by blast
  with assms that show thesis by (auto simp: chars.simps [of s] split: if_splits)
qed

lemma decode_again_ok: "uv__utf8_decode1 s = Inr (c, s') \<Longrightarrow> c \<noteq> - 1 \<Longrightarrow> decode_again s = Inr (c, s')"
  by (simp add: decode_again_def)

lemma chars_length: "chars s = Some cs \<Longrightarrow> length cs \<le> length s"
proof (induction s arbitrary: cs rule: chars.induct)
  case (1 s)
  show ?case
  proof (cases "s = []")
    case False
    with "1.prems" obtain c s' cs' where s: "uv__utf8_decode1 s = Inr (c, s')" "c \<noteq> - 1" "chars s' = Some cs'" "cs = c # cs'"
      by (rule chars_Some)
    then show ?thesis using "1.IH" [OF False s(1) refl s(2) s(3)] decode1_shorter [OF s(1)] by simp
  qed (use 1 in simp)
qed

lemma utf8_value_range: "utf8_value mn a b c d = - 1 \<or> utf8_value mn a b c d \<le> 0x10FFFF"
  by (auto simp: utf8_value_def Let_def not_less)

lemma slow_range: "fst (uv__utf8_decode1_slow p a) = - 1 \<or> fst (uv__utf8_decode1_slow p a) \<le> 0x10FFFF"
  unfolding uv__utf8_decode1_slow_def by (simp add: utf8_value_range if_split [of "\<lambda>z. fst z = - 1 \<or> fst z \<le> 0x10FFFF"] del: if_split)

lemma decode1_range: "uv__utf8_decode1 s = Inr (c, s') \<Longrightarrow> c = - 1 \<or> c \<le> 0x10FFFF"
proof (cases s)
  case (Cons b p)
  assume d: "uv__utf8_decode1 s = Inr (c, s')"
  show ?thesis
  proof (cases "ucast b < (128 :: u32)")
    case True
    then have "ucast b \<le> (0x10FFFF :: u32)" by (simp add: word_less_nat_alt word_le_nat_alt)
    with d True Cons show ?thesis by simp
  next
    case False
    with d Cons have "(c, s') = uv__utf8_decode1_slow p (ucast b)" by simp
    then have "c = fst (uv__utf8_decode1_slow p (ucast b))" by (metis fst_conv)
    then show ?thesis using slow_range [of p "ucast b"] by simp
  qed
qed simp

lemma chars_range: "chars s = Some cs \<Longrightarrow> \<forall>c \<in> set cs. c \<le> 0x10FFFF"
proof (induction s arbitrary: cs rule: chars.induct)
  case (1 s)
  show ?case
  proof (cases "s = []")
    case False
    with "1.prems" obtain c s' cs' where s: "uv__utf8_decode1 s = Inr (c, s')" "c \<noteq> - 1" "chars s' = Some cs'" "cs = c # cs'"
      by (rule chars_Some)
    then show ?thesis using "1.IH" [OF False s(1) refl s(2) s(3)] decode1_range [OF s(1)] by simp
  qed (use 1 in simp)
qed

text \<open>A loop over the text is a loop over its characters.\<close>

lemma count_chars_None: "chars s = None \<Longrightarrow> count_chars s h todo = Inr (Inl UV_EINVAL)"
proof (induction s h todo rule: count_chars.induct)
  case (1 s h todo)
  then have ne: "s \<noteq> []" by auto
  then obtain c s' where d: "uv__utf8_decode1 s = Inr (c, s')" using decode1_ok by blast
  with "1.prems" ne have n: "c = - 1 \<or> chars s' = None" by (auto simp: chars.simps [of s] split: if_splits)
  show ?case
  proof (cases "c = - 1")
    case False
    then have "chars s' = None" using n by simp
    with "1.IH" [OF ne d refl False] ne d False show ?thesis
      by (cases "c < 128") (simp_all add: count_chars.simps [of s])
  qed (use ne d in \<open>simp add: count_chars.simps [of s]\<close>)
qed

lemma count_chars_Some:
  "chars s = Some cs \<Longrightarrow> count_chars s h todo =
     Inr (Inr (h + of_nat (length (filter (\<lambda>c. c < 128) cs)), todo + of_nat (length (filter (\<lambda>c. 128 \<le> c) cs))))"
proof (induction cs arbitrary: s h todo)
  case Nil
  then have "s = []" by (metis chars_Some list.distinct(1))
  then show ?case by (simp add: count_chars.simps)
next
  case (Cons c cs)
  then have ne: "s \<noteq> []" by auto
  with Cons.prems obtain s' where d: "uv__utf8_decode1 s = Inr (c, s')" "c \<noteq> - 1" "chars s' = Some cs"
    by (metis chars_Some list.inject)
  with Cons.IH [OF d(3)] ne show ?case
    by (cases "c < 128") (simp_all add: count_chars.simps [of s] not_le not_less ac_simps)
qed

lemma chars_Cons_cases:
  assumes "chars s = Some (c # cs)"
  obtains s' where "s \<noteq> []" "uv__utf8_decode1 s = Inr (c, s')" "decode_again s = Inr (c, s')" "chars s' = Some cs"
proof -
  have ne: "s \<noteq> []" using assms by auto
  with assms obtain s' where d: "uv__utf8_decode1 s = Inr (c, s')" "c \<noteq> - 1" "chars s' = Some cs"
    by (metis chars_Some list.inject)
  with that ne decode_again_ok [OF d(1,2)] show thesis by blast
qed

lemma chars_Nil_iff: "chars s = Some [] \<longleftrightarrow> s = []"
  by (metis chars_Nil chars_Some list.distinct(1))

lemma emit_length: "length d \<le> cap \<Longrightarrow> length (emit cap c d) \<le> cap"
  by (simp add: emit_def)

lemma write_ascii_ok:
  "chars s = Some cs \<Longrightarrow> length d \<le> cap \<Longrightarrow> \<exists>d'. write_ascii cap h s x d = Inr d' \<and> length d' \<le> cap"
proof (induction cs arbitrary: s x d)
  case Nil
  then show ?case by (simp add: chars_Nil_iff write_ascii.simps)
next
  case (Cons c cs)
  from Cons.prems(1) obtain s' where s: "s \<noteq> []" "decode_again s = Inr (c, s')" "chars s' = Some cs"
    by (rule chars_Cons_cases)
  with Cons.IH [OF s(3)] Cons.prems(2) emit_length [of d cap] show ?case
    by (cases "c > 127") (simp_all add: write_ascii.simps [of _ _ s] Let_def)
qed

lemma next_char_fold:
  "chars s = Some cs \<Longrightarrow> next_char n s m = Inr (foldl (\<lambda>m c. if c \<ge> n \<and> c < m then c else m) m cs)"
proof (induction cs arbitrary: s m)
  case Nil
  then show ?case by (simp add: chars_Nil_iff next_char.simps)
next
  case (Cons c cs)
  from Cons.prems obtain s' where "s \<noteq> []" "decode_again s = Inr (c, s')" "chars s' = Some cs"
    by (rule chars_Cons_cases)
  with Cons.IH show ?case by (simp add: next_char.simps [of _ s])
qed

definition lesser_char :: "u32 \<Rightarrow> u32 \<Rightarrow> u32 \<Rightarrow> u32" where
  "lesser_char n m c = (if c \<ge> n \<and> c < m then c else m)"

lemma lesser_char_cases: "lesser_char n m c = m \<or> lesser_char n m c = c \<and> n \<le> c"
  by (simp add: lesser_char_def)

lemma lesser_char_le: "lesser_char n m c \<le> m" "n \<le> c \<Longrightarrow> lesser_char n m c \<le> c"
  by (auto simp: lesser_char_def not_less)

lemma fold_least:
  "(foldl (lesser_char n) m cs = m \<or> foldl (lesser_char n) m cs \<in> set cs \<and> n \<le> foldl (lesser_char n) m cs) \<and>
   foldl (lesser_char n) m cs \<le> m \<and> (\<forall>c \<in> set cs. n \<le> c \<longrightarrow> foldl (lesser_char n) m cs \<le> c)"
proof (induction cs arbitrary: m)
  case (Cons c cs)
  obtain r where r: "r = foldl (lesser_char n) (lesser_char n m c) cs" by blast
  note ih = Cons [of "lesser_char n m c", folded r]
  have "r = m \<or> r \<in> set (c # cs) \<and> n \<le> r" using ih lesser_char_cases [of n m c] by auto
  moreover have "r \<le> m" using ih lesser_char_le(1) [of n m c] by (meson order_trans)
  moreover have "\<forall>x \<in> set (c # cs). n \<le> x \<longrightarrow> r \<le> x" using ih lesser_char_le(2) [of n c m] by (auto intro: order_trans)
  ultimately show ?case using r by simp
qed simp

lemma minus_one_big: "\<not> (- 1 :: u32) \<le> 0x10FFFF"
proof -
  have "(- 1 :: u32) = 0xFFFFFFFF" by simp
  moreover have "\<not> (0xFFFFFFFF :: u32) \<le> 0x10FFFF" by simp
  ultimately show ?thesis by metis
qed

lemma next_char_min:
  assumes "chars s = Some cs" "c \<in> set cs" "n \<le> c"
  shows "\<exists>m. next_char n s (- 1) = Inr m \<and> m \<in> set cs \<and> n \<le> m \<and> (\<forall>c \<in> set cs. n \<le> c \<longrightarrow> m \<le> c)"
proof -
  obtain m where m: "m = foldl (lesser_char n) (- 1) cs" by blast
  note f = fold_least [of n "- 1" cs, folded m]
  have "m \<le> c" using f assms(2,3) by blast
  moreover have "c \<le> 0x10FFFF" using chars_range [OF assms(1)] assms(2) by blast
  ultimately have "m \<le> 0x10FFFF" by (rule order_trans)
  then have "m \<noteq> - 1" using minus_one_big by blast
  moreover have "next_char n s (- 1) = Inr m" using next_char_fold [OF assms(1), of n "- 1"] m by (simp add: lesser_char_def [abs_def])
  ultimately show ?thesis using f by blast
qed

declare write_rest.simps [simp del]

section \<open>One character\<close>

lemma emit_digit_ok:
  assumes "unat t < 37" "length d \<le> cap"
  obtains d' where "emit_digit cap t d = Inr d'" "length d' \<le> cap"
proof -
  have "length alphabet = 37" by (simp add: alphabet_def ascii_def)
  then show thesis using assms that by (cases "length d < cap") (auto simp: emit_digit_def arr_get_def)
qed

lemma puny_digit_range:
  fixes t :: u32
  assumes "1 \<le> t" "t \<le> 26"
  shows "unat (t + x mod (36 - t)) < 36"
proof -
  have t: "1 \<le> unat t" "unat t \<le> 26" using assms by (simp_all add: word_le_nat_alt)
  then have "unat (36 - t) = 36 - unat t" by (simp add: unat_sub word_le_nat_alt)
  then have "unat (x mod (36 - t)) < 36 - unat t" using t by (simp add: unat_mod)
  moreover from this t have "unat (t + x mod (36 - t)) = unat t + unat (x mod (36 - t))"
    by (intro unat_add_lem [THEN iffD1]) simp
  ultimately show ?thesis using t by linarith
qed

lemma digits_loop_ok:
  "length d \<le> cap \<Longrightarrow> \<exists>q' d'. digits_loop cap bias k q d = Inr (q', d') \<and> unat q' < 26 \<and> length d' \<le> cap"
proof (induction cap bias k q d rule: digits_loop.induct)
  case (1 cap bias k q d)
  define t where "t = threshold bias k"
  have t: "1 \<le> t" "t \<le> 26" using threshold_range [of bias k] by (simp_all add: t_def)
  show ?case
  proof (cases "q < t")
    case True
    then have "unat q < 26" using t by (simp add: word_less_nat_alt word_le_nat_alt)
    then show ?thesis using True "1.prems" by (simp add: digits_loop.simps [of _ _ _ q] t_def [symmetric])
  next
    case False
    obtain d' where d': "emit_digit cap (t + (q - t) mod (36 - t)) d = Inr d'" "length d' \<le> cap"
      using emit_digit_ok puny_digit_range [OF t] "1.prems" by (metis less_SucI numeral_eq_Suc pred_numeral_simps(3))
    show ?thesis
      using "1.IH" [OF t_def False refl refl d'(1) d'(2)] False d'(1)
      by (simp add: digits_loop.simps [of _ _ _ q] t_def [symmetric])
  qed
qed

lemma bias_loop_range: "bias_loop delta bias = (delta', bias') \<Longrightarrow> delta' \<le> 455"
proof (induction delta bias rule: bias_loop.induct)
  case (1 delta bias)
  then show ?case by (cases "455 < delta") (simp_all add: bias_loop.simps [of delta] not_less)
qed

lemma div_u32_ok: "b \<noteq> 0 \<Longrightarrow> div_u32 a b = Inr (a div b)"
  by (simp add: div_u32_def)

lemma write_delta_ok:
  assumes "pc_h st + 1 \<noteq> 0" "length (pc_out st) \<le> cap"
  obtains st' where "write_delta cap st = Inr st'" "pc_h st' = pc_h st + 1" "pc_todo st' = pc_todo st - 1"
    "length (pc_out st') \<le> cap"
proof -
  obtain q d where q: "digits_loop cap (pc_bias st) 36 (pc_delta st) (pc_out st) = Inr (q, d)" "unat q < 26" "length d \<le> cap"
    using digits_loop_ok [OF assms(2)] by blast
  from q(2) have "unat q < 37" by simp
  then obtain d' where d': "emit_digit cap q d = Inr d'" "length d' \<le> cap" using q(3) by (rule emit_digit_ok)
  define e where "e = (if pc_first st then pc_delta st div 2 div 350 else pc_delta st div 2)"
  obtain e' b where b: "bias_loop (e + e div (pc_h st + 1)) 0 = (e', b)" by fastforce
  have "unat e' \<le> 455" using bias_loop_range [OF b] by (simp add: word_le_nat_alt)
  then have "unat (e' + 38) = unat e' + 38" using unat_add_lem [of e' 38] by simp
  then have "e' + 38 \<noteq> 0" by (metis add_is_0 unat_0 zero_neq_numeral)
  then show thesis using that q(1) d' b assms(1) by (simp add: write_delta_def Let_def e_def [symmetric] div_u32_ok)
qed

section \<open>A label\<close>

lemma sint_of_nat_u32: "k < 2 ^ 31 \<Longrightarrow> sint (of_nat k :: u32) = int k"
proof -
  assume k: "k < 2 ^ 31"
  then have "unat (of_nat k :: u32) = k" by (simp add: unat_of_nat)
  then have "uint (of_nat k :: u32) = int k" by (metis uint_nat)
  then show ?thesis using k by (simp add: sint_uint signed_take_bit_int_eq_self)
qed

text \<open>After a round the label still misses the characters not below \<open>n\<close>.\<close>

definition equals :: "u32 \<Rightarrow> u32 list \<Rightarrow> u32 list" where
  "equals n = filter (\<lambda>c. c = n)"

definition label_wrote :: "nat \<Rightarrow> nat \<Rightarrow> punycode \<Rightarrow> punycode \<Rightarrow> bool" where
  "label_wrote cap k st st' \<longleftrightarrow>
     pc_h st' = pc_h st + of_nat k \<and> pc_todo st' = pc_todo st - of_nat k \<and> length (pc_out st') \<le> cap"

lemma write_char_ok:
  "chars s = Some cs \<Longrightarrow> length (pc_out st) \<le> cap \<Longrightarrow> unat (pc_h st) + length (equals n cs) < 2 ^ 32 - 1 \<Longrightarrow>
   write_char cap n s st = Inr (Inl UV_E2BIG) \<or>
   (\<exists>st'. write_char cap n s st = Inr (Inr st') \<and> label_wrote cap (length (equals n cs)) st st')"
proof (induction cs arbitrary: s st)
  case Nil
  then show ?case by (simp add: chars_Nil_iff write_char.simps equals_def label_wrote_def)
next
  case (Cons c cs)
  from Cons.prems(1) obtain s' where s: "s \<noteq> []" "decode_again s = Inr (c, s')" "chars s' = Some cs"
    by (rule chars_Cons_cases)
  show ?case
  proof (cases "c = n")
    case False
    let ?st = "if c < n then st\<lparr>pc_delta := pc_delta st + 1\<rparr> else st"
    have "length (equals n (c # cs)) = length (equals n cs)" using False by (simp add: equals_def)
    moreover have "label_wrote cap k ?st = label_wrote cap k st" for k by (auto simp: label_wrote_def)
    ultimately show ?thesis
      using Cons.IH [OF s(3), of ?st] Cons.prems(2,3) s(1,2) False
      by (auto simp: write_char.simps [of _ _ s] Let_def)
  next
    case True
    then have len: "length (equals n (c # cs)) = Suc (length (equals n cs))" by (simp add: equals_def)
    have h: "unat (pc_h st + 1) = unat (pc_h st) + 1"
      using Cons.prems(3) len unat_add_lem [of "pc_h st" 1] by simp
    then have "pc_h st + 1 \<noteq> 0" by (metis Suc_eq_plus1 nat.distinct(1) unat_0)
    then obtain st1 where st1: "write_delta cap st = Inr st1" "pc_h st1 = pc_h st + 1" "pc_todo st1 = pc_todo st - 1"
      "length (pc_out st1) \<le> cap" using write_delta_ok Cons.prems(2) by blast
    have "label_wrote cap (Suc k) st st'" if "label_wrote cap k st1 st'" for k st'
      using that st1(2,3) by (simp add: label_wrote_def)
    moreover have "write_char cap n s st = write_char cap n s' st1"
      using s(1,2) True st1(1) by (simp add: write_char.simps [of _ _ s] Let_def)
    ultimately show ?thesis using Cons.IH [OF s(3), of st1] Cons.prems(3) st1(2,4) len h by auto
  qed
qed

text \<open>The rounds end: each handles the smallest character that is left.\<close>

definition at_least :: "u32 \<Rightarrow> u32 list \<Rightarrow> u32 list" where
  "at_least n = filter (\<lambda>c. n \<le> c)"

lemma at_least_split:
  assumes "m \<le> 0x10FFFF" "n \<le> m" "\<forall>c \<in> set cs. n \<le> c \<longrightarrow> m \<le> c"
  shows "length (at_least n cs) = length (equals m cs) + length (at_least (m + 1) cs)"
proof -
  have "unat (m + 1) = unat m + 1"
    using assms(1) unat_add_lem [of m 1] by (simp add: word_le_nat_alt)
  then have m: "m + 1 \<le> c \<longleftrightarrow> m < c" for c by (simp add: word_le_nat_alt word_less_nat_alt Suc_le_eq)
  show ?thesis using assms(3)
  proof (induction cs)
    case (Cons c cs)
    then show ?case using assms(2) by (auto simp: at_least_def equals_def m)
  qed (simp add: at_least_def equals_def)
qed

lemma unat_of_nat_u32: "k < 2 ^ 32 \<Longrightarrow> unat (of_nat k :: u32) = k"
  by (simp add: unat_of_nat)

lemma write_rest_ok:
  "chars s = Some cs \<Longrightarrow> pc_todo st = of_nat (length (at_least n cs)) \<Longrightarrow> length (pc_out st) \<le> cap \<Longrightarrow>
   unat (pc_h st) + length (at_least n cs) < 2 ^ 32 - 1 \<Longrightarrow> length (at_least n cs) < fuel \<Longrightarrow>
   \<exists>e d. write_rest fuel cap s n st = Inr (e, d) \<and> (e = 0 \<or> e = UV_E2BIG) \<and> length d \<le> cap"
proof (induction fuel arbitrary: n st)
  case (Suc fuel)
  note write_rest.simps(2) [simp]
  have u: "unat (pc_todo st) = length (at_least n cs)" using Suc.prems(2,4) by (simp add: unat_of_nat_u32)
  show ?case
  proof (cases "pc_todo st > 0")
    case True
    then have "at_least n cs \<noteq> []" using u by (auto simp: word_less_nat_alt)
    then obtain c where "c \<in> set cs" "n \<le> c" by (auto simp: at_least_def filter_empty_conv)
    with Suc.prems(1) obtain m where m: "next_char n s (- 1) = Inr m" "m \<in> set cs" "n \<le> m"
      "\<forall>c \<in> set cs. n \<le> c \<longrightarrow> m \<le> c" using next_char_min by blast
    have "m \<le> 0x10FFFF" using chars_range [OF Suc.prems(1)] m(2) by blast
    then have split: "length (at_least n cs) = length (equals m cs) + length (at_least (m + 1) cs)"
      using m(3,4) by (rule at_least_split)
    have pos: "0 < length (equals m cs)" using m(2) by (auto simp: equals_def filter_empty_conv)
    have "unat (pc_h st + 1) = unat (pc_h st) + 1" using Suc.prems(4) unat_add_lem [of "pc_h st" 1] by simp
    then have h: "pc_h st + 1 \<noteq> 0" by (metis Suc_eq_plus1 nat.distinct(1) unat_0)
    define st1 where "st1 = st\<lparr>pc_delta := pc_delta st + (m - n) * (pc_h st + 1)\<rparr>"
    have st1: "pc_h st1 = pc_h st" "pc_todo st1 = pc_todo st" "pc_out st1 = pc_out st" by (simp_all add: st1_def)
    consider "write_char cap m s st1 = Inr (Inl UV_E2BIG)"
      | st2 where "write_char cap m s st1 = Inr (Inr st2)" "label_wrote cap (length (equals m cs)) st1 st2"
      using write_char_ok [OF Suc.prems(1), of st1 cap m] Suc.prems(3,4) split st1 by auto
    then show ?thesis
    proof cases
      case 1
      then show ?thesis using True m(1) h Suc.prems(3) by (simp add: Let_def div_u32_ok st1_def)
    next
      case (2 st2)
      let ?st = "st2\<lparr>pc_delta := pc_delta st2 + 1\<rparr>"
      have "unat (pc_h st2) = unat (pc_h st) + length (equals m cs)"
        using 2(2) st1 Suc.prems(4) split unat_add_lem [of "pc_h st" "of_nat (length (equals m cs))"]
        by (simp add: label_wrote_def unat_of_nat_u32)
      moreover have "pc_todo st2 = of_nat (length (at_least (m + 1) cs))"
        using 2(2) st1 Suc.prems(2) split by (simp add: label_wrote_def)
      ultimately have "\<exists>e d. write_rest fuel cap s (m + 1) ?st = Inr (e, d) \<and> (e = 0 \<or> e = UV_E2BIG) \<and> length d \<le> cap"
        using Suc.IH [OF Suc.prems(1), of ?st "m + 1"] Suc.prems(4,5) split pos 2(2) by (simp add: label_wrote_def)
      then show ?thesis using True m(1) h 2(1) Suc.prems(3) by (auto simp: Let_def div_u32_ok st1_def)
    qed
  qed (use Suc.prems(3) in simp)
qed simp

lemma split_ascii: "length (filter (\<lambda>c. c < 128) cs) + length (at_least 128 cs) = length (cs :: u32 list)"
  by (induction cs) (auto simp: at_least_def not_le not_less)

definition rejects :: "int \<Rightarrow> bool" where
  "rejects rc \<longleftrightarrow> rc = UV_EINVAL \<or> rc = UV_E2BIG"

lemma label_ok:
  assumes "length s < 2 ^ 31" "length d \<le> cap"
  shows "\<exists>rc d'. uv__idna_toascii_label cap s d = Inr (rc, d') \<and> (0 \<le> rc \<or> rejects rc) \<and> length d' \<le> cap"
proof (cases "chars s")
  case None
  then show ?thesis using assms(2) by (simp add: uv__idna_toascii_label_def count_chars_None rejects_def)
next
  case (Some cs)
  define h where "h = length (filter (\<lambda>c. c < 128) cs)"
  define todo where "todo = length (at_least 128 cs)"
  have len: "h + todo \<le> length s" using split_ascii [of cs] chars_length [OF Some] by (simp add: h_def todo_def)
  have count: "count_chars s 0 0 = Inr (Inr (of_nat h, of_nat todo))"
    by (simp add: count_chars_Some [OF Some] h_def todo_def at_least_def)
  define d1 where "d1 = (if (of_nat todo :: u32) > 0 then emit cap 45 (emit cap 45 (emit cap 110 (emit cap 120 d))) else d)"
  have "length d1 \<le> cap" using assms(2) by (simp add: d1_def emit_length)
  then obtain d2 where d2: "write_ascii cap (of_nat h) s 0 d1 = Inr d2" "length d2 \<le> cap"
    using write_ascii_ok [OF Some] by blast
  show ?thesis
  proof (cases "(of_nat todo :: u32) = 0")
    case True
    have "0 \<le> sint (of_nat h :: u32)" using len assms(1) by (simp add: sint_of_nat_u32)
    then show ?thesis using True count d1_def d2 by (simp add: uv__idna_toascii_label_def Let_def)
  next
    case False
    let ?st = "\<lparr>pc_delta = 0, pc_bias = 72, pc_h = of_nat h, pc_todo = of_nat todo, pc_first = True,
      pc_out = (if (of_nat h :: u32) > 0 then emit cap 45 d2 else d2)\<rparr>"
    have "unat (of_nat h :: u32) = h" using len assms(1) by (simp add: unat_of_nat_u32)
    then have "\<exists>e d. write_rest (length s + 1) cap s 128 ?st = Inr (e, d) \<and> (e = 0 \<or> e = UV_E2BIG) \<and> length d \<le> cap"
      using len assms(1) d2(2) by (intro write_rest_ok [OF Some]) (simp_all add: todo_def [symmetric] emit_length)
    then show ?thesis using False count d1_def d2 by (auto simp: uv__idna_toascii_label_def Let_def rejects_def)
  qed
qed

section \<open>A name\<close>

lemma rejects_neg: "rejects rc \<Longrightarrow> rc < 0"
  by (auto simp: rejects_def UV_EINVAL_def UV_E2BIG_def)

lemma toascii_loop_ok:
  "length lab + length si < 2 ^ 31 \<Longrightarrow> length d \<le> cap \<Longrightarrow>
   \<exists>rc lab' d'. toascii_loop cap lab si d = Inr (rc, lab', d') \<and> (rc = 0 \<or> rejects rc) \<and>
     length lab' < 2 ^ 31 \<and> length d' \<le> cap"
proof (induction cap lab si d rule: toascii_loop.induct)
  case (1 cap lab si d)
  show ?case
  proof (cases "si = []")
    case False
    then obtain c si' where c: "uv__utf8_decode1 si = Inr (c, si')" using decode1_ok by blast
    have shorter: "length si' < length si" using decode1_shorter [OF c] .
    consider "c = - 1" | "c \<noteq> - 1" "\<not> label_dot c" | "c \<noteq> - 1" "label_dot c" by blast
    then show ?thesis
    proof cases
      case 1
      then show ?thesis using False c "1.prems" by (simp add: toascii_loop.simps [of _ _ si] rejects_def)
    next
      case 2
      have "length (lab @ take (length si - length si') si) + length si' < 2 ^ 31"
        using "1.prems"(1) shorter by (auto simp: min_def)
      from "1.IH"(1) [OF False c refl 2 this "1.prems"(2)] show ?thesis
        using False c 2 by (simp add: toascii_loop.simps [of _ _ si])
    next
      case 3
      have "length lab < 2 ^ 31" using "1.prems"(1) by simp
      then obtain rc d' where l: "uv__idna_toascii_label cap lab d = Inr (rc, d')" "0 \<le> rc \<or> rejects rc" "length d' \<le> cap"
        using label_ok "1.prems"(2) by blast
      show ?thesis
      proof (cases "rc < 0")
        case True
        then show ?thesis using False c 3 l "1.prems"(1) by (auto simp: toascii_loop.simps [of _ _ si])
      next
        case neg: False
        have "length [] + length si' < 2 ^ 31" using "1.prems"(1) shorter by simp
        from "1.IH"(2) [OF False c refl 3(1) _ l(1) refl neg this emit_length [OF l(3)]] 3(2)
        show ?thesis using False c 3 l neg by (simp add: toascii_loop.simps [of _ _ si])
      qed
    qed
  qed (use "1.prems" in \<open>simp add: toascii_loop.simps\<close>)
qed

lemma toascii_ok:
  assumes "length s < 2 ^ 31"
  shows "\<exists>r d. uv__idna_toascii cap s = Inr (r, d) \<and> (r = int (length d) \<or> rejects r) \<and> length d \<le> cap"
proof -
  obtain rc lab d where l: "toascii_loop cap [] s [] = Inr (rc, lab, d)" "rc = 0 \<or> rejects rc" "length lab < 2 ^ 31"
    "length d \<le> cap" using toascii_loop_ok [of "[]" s "[]" cap] assms by auto
  from l(2) show ?thesis
  proof
    assume rc: "rc = 0"
    have "\<exists>rc d'. (if lab \<noteq> [] then uv__idna_toascii_label cap lab d else Inr (0, d)) = Inr (rc, d') \<and>
        (0 \<le> rc \<or> rejects rc) \<and> length d' \<le> cap"
      using label_ok [OF l(3,4)] l(4) by (cases "lab = []") simp_all
    then obtain rc' d' where "(if lab \<noteq> [] then uv__idna_toascii_label cap lab d else Inr (0, d)) = Inr (rc', d')"
        "0 \<le> rc' \<or> rejects rc'" "length d' \<le> cap" by blast
    then show ?thesis using l(1) rc emit_length [of d' cap 0] by (auto simp: uv__idna_toascii_def Let_def)
  next
    assume "rejects rc"
    then show ?thesis using l(1,4) rejects_neg by (auto simp: uv__idna_toascii_def)
  qed
qed

section \<open>ASCII names\<close>

definition all_ascii :: "byte list \<Rightarrow> bool" where
  "all_ascii s \<longleftrightarrow> (\<forall>b \<in> set s. b < 128)"

lemma all_ascii_simps [simp]:
  "all_ascii []" "all_ascii (b # s) \<longleftrightarrow> b < 128 \<and> all_ascii s" "all_ascii (s @ t) \<longleftrightarrow> all_ascii s \<and> all_ascii t"
  by (auto simp: all_ascii_def)

lemma ascii_byte:
  assumes "(b :: byte) < 128"
  shows "(ucast b :: u32) < 128" "(ucast b :: u32) \<noteq> - 1" "ucast (ucast b :: u32) = b"
proof -
  have "unat (ucast b :: u32) = unat b" by transfer (simp add: take_bit_take_bit)
  then show b: "(ucast b :: u32) < 128" using assms by (simp add: word_less_nat_alt)
  then have "(ucast b :: u32) \<le> 0x10FFFF" by (simp add: word_less_nat_alt word_le_nat_alt)
  then show "(ucast b :: u32) \<noteq> - 1" using minus_one_big by metis
  show "ucast (ucast b :: u32) = b" by (rule bit_word_eqI) (simp add: bit_simps)
qed

lemma decode1_ascii: "b < 128 \<Longrightarrow> uv__utf8_decode1 (b # s) = Inr (ucast b, s)"
  using ascii_byte(1) by simp

lemma decode_again_ascii: "b < 128 \<Longrightarrow> decode_again (b # s) = Inr (ucast b, s)"
  by (rule decode_again_ok [OF decode1_ascii ascii_byte(2)])

lemma count_chars_ascii: "all_ascii s \<Longrightarrow> count_chars s h todo = Inr (Inr (h + of_nat (length s), todo))"
proof (induction s arbitrary: h)
  case (Cons b s)
  then show ?case
    using ascii_byte [of b] by (simp add: count_chars.simps [of "b # s"] decode1_ascii del: uv__utf8_decode1.simps)
qed (simp add: count_chars.simps)

lemma write_ascii_ascii:
  "all_ascii s \<Longrightarrow> length d + length s \<le> cap \<Longrightarrow> k + length s < 2 ^ 32 \<Longrightarrow>
   write_ascii cap (of_nat (k + length s)) s (of_nat k) d = Inr (d @ s)"
proof (induction s arbitrary: k d)
  case (Cons b s)
  have b: "b < 128" "\<not> (127 :: u32) < ucast b"
    using Cons.prems(1) ascii_byte(1) [of b] by (simp_all add: word_less_nat_alt)
  have d: "emit cap (ucast (ucast b :: u32)) d = d @ [b]" using Cons.prems(2) ascii_byte(3) [OF b(1)] by (simp add: emit_def)
  have "(of_nat (Suc k) :: u32) = of_nat (k + length (b # s)) \<longleftrightarrow> s = []"
    using Cons.prems(3) unat_of_nat_u32 [of "Suc k"] unat_of_nat_u32 [of "k + length (b # s)"]
    by (metis Suc_lessD add_Suc_right add_cancel_right_right add_lessD1 add_Suc length_0_conv length_Cons nat.inject)
  moreover have "write_ascii cap (of_nat (Suc k + length s)) s (of_nat (Suc k)) (d @ [b]) = Inr ((d @ [b]) @ s)"
    using Cons.prems by (intro Cons.IH) simp_all
  ultimately show ?case
    using b d by (simp add: write_ascii.simps [of _ _ "b # s"] decode_again_ascii Let_def add.commute)
qed (simp add: write_ascii.simps)

lemma label_ascii:
  assumes "all_ascii s" "length d + length s \<le> cap" "length s < 2 ^ 31"
  shows "uv__idna_toascii_label cap s d = Inr (int (length s), d @ s)"
  using write_ascii_ascii [OF assms(1,2), of 0] assms(3)
  by (simp add: uv__idna_toascii_label_def count_chars_ascii [OF assms(1)] sint_of_nat_u32 Let_def)

lemma toascii_loop_ascii:
  "all_ascii lab \<Longrightarrow> all_ascii si \<Longrightarrow> length d + length lab + length si \<le> cap \<Longrightarrow> length lab + length si < 2 ^ 31 \<Longrightarrow>
   \<exists>lab' d'. toascii_loop cap lab si d = Inr (0, lab', d') \<and> d' @ lab' = d @ lab @ si \<and>
     all_ascii lab' \<and> length lab' < 2 ^ 31"
proof (induction si arbitrary: lab d)
  case (Cons b si)
  have b: "b < 128" using Cons.prems(2) by simp
  show ?case
  proof (cases "label_dot (ucast b)")
    case False
    have "\<exists>lab' d'. toascii_loop cap (lab @ [b]) si d = Inr (0, lab', d') \<and> d' @ lab' = d @ (lab @ [b]) @ si \<and>
        all_ascii lab' \<and> length lab' < 2 ^ 31"
      using Cons.prems by (intro Cons.IH) simp_all
    then show ?thesis
      using False ascii_byte(2) [OF b]
      by (simp add: toascii_loop.simps [of _ _ "b # si"] decode1_ascii [OF b] del: uv__utf8_decode1.simps)
  next
    case True
    have "(ucast b :: u32) = 46" using True ascii_byte(1) [OF b] by (auto simp: label_dot_def word_less_nat_alt)
    then have b46: "b = 46" using ascii_byte(3) [OF b] by simp
    have l: "uv__idna_toascii_label cap lab d = Inr (int (length lab), d @ lab)"
      using Cons.prems by (intro label_ascii) simp_all
    have "emit cap 46 (d @ lab) = d @ lab @ [b]" using Cons.prems(3) b46 by (simp add: emit_def)
    moreover have "\<exists>lab' d'. toascii_loop cap [] si (d @ lab @ [b]) = Inr (0, lab', d') \<and> d' @ lab' = (d @ lab @ [b]) @ [] @ si \<and>
        all_ascii lab' \<and> length lab' < 2 ^ 31"
      using Cons.prems by (intro Cons.IH) simp_all
    ultimately show ?thesis
      using True ascii_byte(2) [OF b] l
      by (simp add: toascii_loop.simps [of _ _ "b # si"] decode1_ascii [OF b] del: uv__utf8_decode1.simps)
  qed
qed (simp add: toascii_loop.simps)

lemma toascii_ascii:
  assumes "all_ascii s" "length s < cap" "length s < 2 ^ 31"
  shows "uv__idna_toascii cap s = Inr (int (length s) + 1, s @ [0])"
proof -
  obtain lab d where l: "toascii_loop cap [] s [] = Inr (0, lab, d)" "d @ lab = s" "all_ascii lab" "length lab < 2 ^ 31"
    using toascii_loop_ascii [of "[]" s "[]" cap] assms by auto
  have "length d + length lab \<le> cap" using l(2) assms(2) by auto
  then have "uv__idna_toascii_label cap lab d = Inr (int (length lab), s)"
    using label_ascii [OF l(3) _ l(4)] l(2) by simp
  then show ?thesis using l assms(2) by (cases "lab = []") (auto simp: uv__idna_toascii_def emit_def)
qed

end
