(* ===== verification/In_Flight.thy ===== *)
theory In_Flight
  imports Exchange
begin

text \<open>
  Many questions on their way upstream at once. Every client is filed under its question and id, and a reply goes to
  the client that asked this question with this id.
\<close>

record asked =
  as_message :: message_t
  as_query :: query_t
  as_number :: int
  as_base :: cells
  as_address :: sockaddr_in

definition asks :: "asked \<Rightarrow> event" where
  "asks x = Client_Datagram (as_number x) (as_base x) (as_address x)"

definition client_key :: "asked \<Rightarrow> string_t" where
  "client_key x = feature_of (as_message x)"

text \<open>A request the caches of \<open>s\<close> cannot answer, and the packet that passes it on.\<close>

definition misses :: "server_t \<Rightarrow> asked \<Rightarrow> bool" where
  "misses s x \<longleftrightarrow> request (as_message x) (as_query x) (as_number x) (as_base x) \<and> answer_of s (as_query x) = Inr Miss"

definition passed_on :: "server_t \<Rightarrow> asked \<Rightarrow> packet" where
  "passed_on s x = \<lparr>pk_socket = Query_Socket, pk_buf = wire_packet (prepare_message (as_message x)), pk_to = dns_address s\<rparr>"

definition filed_clients :: "asked list \<Rightarrow> string_t \<rightharpoonup> sockaddr_in" where
  "filed_clients xs = foldl (\<lambda>m x. m(client_key x \<mapsto> as_address x)) Map.empty xs"

lemma filed_clients_snoc: "filed_clients (xs @ [x]) = (filed_clients xs)(client_key x \<mapsto> as_address x)"
  by (simp add: filed_clients_def)

lemma filed_clients_at:
  "distinct (map client_key xs) \<Longrightarrow> x \<in> set xs \<Longrightarrow> filed_clients xs (client_key x) = Some (as_address x)"
proof (induction xs rule: rev_induct)
  case (snoc y xs)
  then have "x = y \<or> client_key x \<noteq> client_key y" by (auto simp: image_iff)
  then show ?case using snoc by (auto simp: filed_clients_snoc)
qed simp

lemma filed_clients_new: "client_key x \<notin> client_key ` set xs \<Longrightarrow> filed_clients xs (client_key x) = None"
proof (induction xs rule: rev_induct)
  case Nil
  then show ?case by (simp add: filed_clients_def)
qed (simp add: filed_clients_snoc)

section \<open>What a miss leaves alone\<close>

definition same_answers :: "server_t \<Rightarrow> server_t \<Rightarrow> bool" where
  "same_answers s' s \<longleftrightarrow> same_nodes (ipv4_table s') (ipv4_table s) \<and> ipv6_table s' = ipv6_table s \<and>
     cname_table s' = cname_table s \<and> dns_address s' = dns_address s"

lemma same_answers_miss: "same_answers s' s \<Longrightarrow> answer_of s q = Inr Miss \<Longrightarrow> answer_of s' q = Inr Miss"
proof -
  assume same: "same_answers s' s" and miss: "answer_of s q = Inr Miss"
  have ch: "chain_of s' = chain_of s" using same by (simp add: same_answers_def chain_of_def fun_eq_iff)
  have v4: "ht_lookup (ipv4_table s') d = None \<longleftrightarrow> ht_lookup (ipv4_table s) d = None" for d
    using same unfolding same_answers_def same_nodes_def by (metis map_option_is_None)
  show ?thesis
    using miss same ch v4
    by (auto simp: answer_of_def same_answers_def Let_def bindE_eq_Inr_iff split: if_splits option.splits)
qed

lemma same_answers_trans: "same_answers s2 s1 \<Longrightarrow> same_answers s1 s \<Longrightarrow> same_answers s2 s"
  by (simp add: same_answers_def same_nodes_def)

section \<open>Asking\<close>

definition in_flight :: "server_t \<Rightarrow> asked list \<Rightarrow> server_t \<Rightarrow> bool" where
  "in_flight s xs s1 \<longleftrightarrow> srv_inv s1 \<and> sent s1 = sent s @ map (passed_on s) xs \<and>
     ht_lookup (clients_hash_table s1) = filed_clients xs \<and> ht_size (clients_hash_table s1) \<le> length xs \<and>
     same_answers s1 s \<and> ht_room (ipv4_table s1)"

lemma idle_in_flight: "idle s \<Longrightarrow> in_flight s [] s"
  using ht_size_empty [of "clients_hash_table s"]
  by (auto simp: idle_def in_flight_def filed_clients_def same_answers_def srv_inv_def srv_room_def ht_inv_def)

lemma ask_one:
  assumes fl: "in_flight s xs s1" and room: "room_for (Suc k) (clients_hash_table s1)" and x: "misses s x"
    and new: "client_key x \<notin> client_key ` set xs"
  shows "\<exists>s2. bind_socket_read fresh (as_number x) (as_base x) (as_address x) s1 = Inr s2 \<and> in_flight s (xs @ [x]) s2 \<and>
    room_for k (clients_hash_table s2)"
proof -
  note f = fl [unfolded in_flight_def]
  have cl: "ht_inv (clients_hash_table s1)" using f by (simp add: srv_inv_def)
  have hr: "ht_room (clients_hash_table s1)" by (rule room_for_room [OF room])
  have "ht_lookup (clients_hash_table s1) (client_key x) = None" using f filed_clients_new [OF new] by simp
  from put_absent_correct [OF cl this hr, of "as_address x"] obtain t where
    t: "hash_table_put (clients_hash_table s1) (Some (client_key x)) (Some (as_address x)) = Inr t"
      "ht_size t = ht_size (clients_hash_table s1) + 1" by blast
  have filed: "filed s1 (as_message x) (as_address x) t" using t(1) by (simp add: filed_def client_key_def)
  have req: "request (as_message x) (as_query x) (as_number x) (as_base x)"
    and miss: "answer_of s1 (as_query x) = Inr Miss"
    using x f same_answers_miss by (auto simp: misses_def)
  from bind_socket_read_correct [OF _ hr req filed _ miss, of fresh] f obtain s2 where
    s2: "bind_socket_read fresh (as_number x) (as_base x) (as_address x) s1 = Inr s2" "srv_inv s2"
      "sent s2 = sent s1 @ [outcome s1 (as_message x) (as_address x) Miss]"
      "same_answers s2 s1" "ht_room (ipv4_table s2)"
      "ht_lookup (clients_hash_table s2) = (ht_lookup (clients_hash_table s1))(client_key x \<mapsto> as_address x)"
      "clients_hash_table s2 = t"
    by (auto simp: outcome_fits_def same_answers_def client_key_def)
  have "outcome s1 (as_message x) (as_address x) Miss = passed_on s x"
    using f by (simp add: outcome_def passed_on_def same_answers_def)
  then have "in_flight s (xs @ [x]) s2"
    using f s2 t(2) same_answers_trans [OF s2(4)] by (simp add: in_flight_def filed_clients_snoc)
  moreover have "room_for k (clients_hash_table s2)" using put_room_for [OF cl room t(1)] s2(7) by simp
  ultimately show ?thesis using s2(1) by blast
qed

lemma ask_all_exists:
  assumes "in_flight s [] s"
  shows "\<forall>x \<in> set xs. misses s x \<Longrightarrow> distinct (map client_key xs) \<Longrightarrow> room_for (length xs + k) (clients_hash_table s) \<Longrightarrow>
    \<exists>s1. server_runs (Running s) (map asks xs) (Running s1) \<and> in_flight s xs s1 \<and> room_for k (clients_hash_table s1)"
proof (induction xs arbitrary: k rule: rev_induct)
  case Nil
  then show ?case using assms by (auto intro: server_runs.idle)
next
  case (snoc x xs)
  from snoc.IH [of "Suc k"] snoc.prems obtain s1 where
    s1: "server_runs (Running s) (map asks xs) (Running s1)" "in_flight s xs s1" "room_for (Suc k) (clients_hash_table s1)"
    by auto
  from ask_one [OF s1(2,3), of x] snoc.prems obtain s2 where
    s2: "bind_socket_read undefined (as_number x) (as_base x) (as_address x) s1 = Inr s2" "in_flight s (xs @ [x]) s2"
      "room_for k (clients_hash_table s2)" by fastforce
  have "server_step (Running s1) (asks x) (Running s2)" using s2(1) by (auto simp: asks_def server_step_simps)
  from server_runs.step [OF s1(1) this] show ?case using s2 by auto
qed

lemma ask_all:
  assumes "in_flight s [] s"
  shows "server_runs (Running s) (map asks xs) (Running s1) \<Longrightarrow> \<forall>x \<in> set xs. misses s x \<Longrightarrow>
    distinct (map client_key xs) \<Longrightarrow> room_for (length xs + k) (clients_hash_table s) \<Longrightarrow> in_flight s xs s1 \<and> room_for k (clients_hash_table s1)"
proof (induction xs arbitrary: k s1 rule: rev_induct)
  case Nil
  then have "s1 = s" by (auto elim: server_runs.cases)
  then show ?case using assms Nil by simp
next
  case (snoc x xs)
  from snoc.prems(1) obtain p where p: "server_runs (Running s) (map asks xs) p" "server_step p (asks x) (Running s1)"
    by (auto elim: server_runs.cases)
  from p(2) obtain s2 where s2: "p = Running s2" by (auto elim: server_step_from)
  from snoc.IH [of s2 "Suc k"] p(1) s2 snoc.prems have i: "in_flight s xs s2" "room_for (Suc k) (clients_hash_table s2)" by auto
  from p(2) s2 obtain fresh where "bind_socket_read fresh (as_number x) (as_base x) (as_address x) s2 = Inr s1"
    by (auto simp: asks_def server_step_simps)
  with ask_one [OF i, of x fresh] snoc.prems(2,3) show ?case by auto
qed

section \<open>Replying\<close>

lemma reply_in_flight:
  assumes fl: "in_flight s xs s1" and d: "distinct (map client_key xs)" and x: "x \<in> set xs"
    and rep: "request m' (as_query x) number' base'" and id: "msg_id m' = msg_id (as_message x)"
    and req: "misses s x" and room: "ht_room (ipv6_table s)" "room_for (length (answer_list m')) (cname_table s)"
    and few: "length xs \<le> 2 \<or> ht_shallow (clients_hash_table s1)"
  shows "\<exists>s2. query_socket_read now number' base' s1 = Inr s2 \<and>
     sent s2 = sent s1 @ [\<lparr>pk_socket = Bind_Socket, pk_buf = wire_packet (prepare_message m'), pk_to = as_address x\<rparr>] \<and>
     ht_lookup (clients_hash_table s2) = (filed_clients xs)(client_key x := None)"
proof -
  note f = fl [unfolded in_flight_def]
  have key: "feature_of m' = client_key x"
    using rep req id by (auto simp: client_key_def misses_def request_def intro: feature_of_reply)
  have at: "ht_lookup (clients_hash_table s1) (feature_of m') = Some (as_address x)"
    using f filed_clients_at [OF d x] key by simp
  have "ht_shallow (clients_hash_table s1)"
    using few f ht_size_shallow [of "clients_hash_table s1"] by auto
  then have rem: "ht_removable (clients_hash_table s1) (feature_of m')"
    using f at by (intro ht_shallow_removable) (simp_all add: srv_inv_def ht_inv_def)
  from query_socket_read_correct [OF _ rep _ _ _ at rem, of now] f room show ?thesis
    by (auto simp: key same_answers_def)
qed

end
