(* ===== verification/Uv_Io.thy ===== *)
theory Uv_Io
  imports Inet_Api
begin

text \<open>
  The state libuv keeps for UDP sockets and the watchers of \<open>src/libuv/src/unix/core.c\<close>. A handle and the watcher
  inside it have the same address; the flags of a handle are booleans. A queue of \<open>queue.h\<close> is the list it holds
  (\<open>Uv_Queue\<close> proves that its macros work on lists in this way). The answers of the kernel are lists the calls
  consume: a number, or the negated \<open>errno\<close> of a failed call.
\<close>

unbundle bit_operations_syntax

section \<open>State\<close>

datatype udp_addr =
    Udp_In sockaddr
  | Udp_Unix "byte list"
  | Udp_Other u16

record 'cb uv_udp_send_t =
  rq_addr :: "udp_addr option"
  rq_bufs :: "byte list list"
  rq_cb :: "'cb option"
  rq_status :: int

record 'cb uv_udp =
  ud_type_udp :: bool
  ud_active :: bool
  ud_ref :: bool
  ud_closing :: bool
  ud_closed :: bool
  ud_ipv6 :: bool
  ud_bound :: bool
  ud_processing :: bool
  ud_connected :: bool
  ud_recvmmsg :: bool
  ud_alloc_cb :: "'cb option"
  ud_recv_cb :: "'cb option"
  ud_close_cb :: "'cb option"
  ud_send_queue_size :: u64
  ud_send_queue_count :: u64
  ud_write_queue :: "nat list"
  ud_completed_queue :: "nat list"
  io_fd :: int
  io_pevents :: u32
  io_events :: u32
  io_pending :: bool

text \<open>
  \<open>nt_epoll\<close> are the calls of \<open>epoll_ctl\<close> that succeeded, \<open>nt_batch\<close> the events that are being handed out, if any
  (\<open>lfields->inv\<close>), \<open>nt_options\<close> the options that were set; a flag of theirs says whether a group is joined or left.
\<close>

datatype epoll_op = Epoll_Add | Epoll_Mod | Epoll_Del

datatype sock_opt =
    Ip_Membership bool u32 u32
  | Ipv6_Membership bool "byte list" u32
  | Ip_Source_Membership bool u32 u32 u32
  | Mcast_Source_Group bool sockaddr_in6 sockaddr_in6 u32
  | So_Broadcast int
  | Ip_Ttl int
  | Ipv6_Unicast_Hops int
  | Ip_Multicast_Ttl int
  | Ipv6_Multicast_Hops int
  | Ip_Multicast_Loop int
  | Ipv6_Multicast_Loop int
  | Ip_Multicast_If u32
  | Ipv6_Multicast_If u32

record 'cb net =
  nt_active_handles :: u32
  nt_active_reqs :: u32
  nt_handle_queue :: "nat list"
  nt_watcher_queue :: "nat list"
  nt_pending_queue :: "nat list"
  nt_running_queue :: "nat list"
  nt_closing_handles :: "nat list"
  nt_watchers :: "nat option list"
  nt_nfds :: u32
  nt_udps :: "nat \<Rightarrow> 'cb uv_udp option"
  nt_reqs :: "nat \<Rightarrow> 'cb uv_udp_send_t option"
  nt_errno :: int
  nt_no_memory :: bool
  nt_calls :: "int list"
  nt_sends :: "int list"
  nt_recvs :: "(int + udp_addr \<times> byte list) list"
  nt_mrecvs :: "(int + (udp_addr \<times> byte list) list) list"
  nt_wire :: "(int \<times> udp_addr option \<times> byte list list) list"
  nt_epoll :: "(epoll_op \<times> int \<times> u32) list"
  nt_batch :: "(int \<times> u32) list option"
  nt_options :: "(int \<times> sock_opt) list"

definition udp_at :: "'cb net \<Rightarrow> nat \<Rightarrow> 'cb uv_udp res" where
  "udp_at n p = or_fail Use_After_Free (nt_udps n p)"

definition set_udp :: "nat \<Rightarrow> 'cb uv_udp \<Rightarrow> 'cb net \<Rightarrow> 'cb net" where
  "set_udp p u n = n\<lparr>nt_udps := (nt_udps n)(p \<mapsto> u)\<rparr>"

definition req_at :: "'cb net \<Rightarrow> nat \<Rightarrow> 'cb uv_udp_send_t res" where
  "req_at n q = or_fail Use_After_Free (nt_reqs n q)"

definition set_req :: "nat \<Rightarrow> 'cb uv_udp_send_t \<Rightarrow> 'cb net \<Rightarrow> 'cb net" where
  "set_req q r n = n\<lparr>nt_reqs := (nt_reqs n)(q \<mapsto> r)\<rparr>"

definition check :: "bool \<Rightarrow> unit res" where
  "check b = (if b then Inr () else Inl Assertion_Failed)"

section \<open>Handles and requests\<close>

definition udp_handle_start :: "nat \<Rightarrow> 'cb net \<Rightarrow> 'cb net res" where
  "udp_handle_start p n =
     bindE (udp_at n p) (\<lambda>u.
     if ud_active u then Inr n
     else
       let n = set_udp p (u\<lparr>ud_active := True\<rparr>) n
       in Inr (if ud_ref u then n\<lparr>nt_active_handles := nt_active_handles n + 1\<rparr> else n))"

definition udp_handle_stop :: "nat \<Rightarrow> 'cb net \<Rightarrow> 'cb net res" where
  "udp_handle_stop p n =
     bindE (udp_at n p) (\<lambda>u.
     if \<not> ud_active u then Inr n
     else
       let n = set_udp p (u\<lparr>ud_active := False\<rparr>) n
       in Inr (if ud_ref u then n\<lparr>nt_active_handles := nt_active_handles n - 1\<rparr> else n))"

definition udp_handle_unref :: "nat \<Rightarrow> 'cb net \<Rightarrow> 'cb net res" where
  "udp_handle_unref p n =
     bindE (udp_at n p) (\<lambda>u.
     if \<not> ud_ref u then Inr n
     else
       let n = set_udp p (u\<lparr>ud_ref := False\<rparr>) n
       in Inr (if \<not> ud_closing u \<and> ud_active u then n\<lparr>nt_active_handles := nt_active_handles n - 1\<rparr> else n))"

definition uv__req_register :: "'cb net \<Rightarrow> 'cb net" where
  "uv__req_register n = n\<lparr>nt_active_reqs := nt_active_reqs n + 1\<rparr>"

definition uv__req_unregister :: "'cb net \<Rightarrow> 'cb net res" where
  "uv__req_unregister n =
     bindE (check (nt_active_reqs n > 0)) (\<lambda>_. Inr (n\<lparr>nt_active_reqs := nt_active_reqs n - 1\<rparr>))"

section \<open>Watchers\<close>

definition POLLIN :: u32 where "POLLIN = 1"
definition POLLOUT :: u32 where "POLLOUT = 4"
definition UV__POLLRDHUP :: u32 where "UV__POLLRDHUP = 0x2000"
definition UV__POLLPRI :: u32 where "UV__POLLPRI = 2"

definition poll_mask :: u32 where
  "poll_mask = POLLIN OR POLLOUT OR UV__POLLRDHUP OR UV__POLLPRI"

definition check_events :: "u32 \<Rightarrow> unit res" where
  "check_events events = bindE (check (0 = (events AND NOT poll_mask))) (\<lambda>_. check (0 \<noteq> events))"

definition next_power_of_two :: "u32 \<Rightarrow> u32" where
  "next_power_of_two val =
     (let val = val - 1;
          val = val OR drop_bit 1 val;
          val = val OR drop_bit 2 val;
          val = val OR drop_bit 4 val;
          val = val OR drop_bit 8 val;
          val = val OR drop_bit 16 val
      in val + 1)"

text \<open>The table ends with two cells that are kept for the poller; \<open>nt_watchers\<close> are the cells before them.\<close>

definition nwatchers :: "'cb net \<Rightarrow> nat" where
  "nwatchers n = length (nt_watchers n)"

definition maybe_resize :: "u32 \<Rightarrow> 'cb net \<Rightarrow> 'cb net" where
  "maybe_resize len n =
     (if unat len \<le> nwatchers n then n
      else
        let k = unat (next_power_of_two (len + 2) - 2)
        in n\<lparr>nt_watchers := nt_watchers n @ replicate (k - nwatchers n) None\<rparr>)"

definition uv__io_init :: "int \<Rightarrow> 'cb uv_udp \<Rightarrow> 'cb uv_udp res" where
  "uv__io_init fd u =
     bindE (check (fd \<ge> - 1)) (\<lambda>_. Inr (u\<lparr>io_fd := fd, io_pevents := 0, io_events := 0, io_pending := False\<rparr>))"

definition enqueue :: "nat \<Rightarrow> nat list \<Rightarrow> nat list" where
  "enqueue p q = (if p \<in> set q then q else q @ [p])"

definition uv__io_start :: "nat \<Rightarrow> u32 \<Rightarrow> 'cb net \<Rightarrow> 'cb net res" where
  "uv__io_start p events n =
     bindE (check_events events) (\<lambda>_.
     bindE (udp_at n p) (\<lambda>u.
     bindE (check (io_fd u \<ge> 0)) (\<lambda>_.
     bindE (check (io_fd u < 2147483647)) (\<lambda>_.
     let u = u\<lparr>io_pevents := io_pevents u OR events\<rparr>;
         n = maybe_resize (of_int (io_fd u + 1)) (set_udp p u n)
     in if io_events u = io_pevents u then Inr n
        else
          let n = n\<lparr>nt_watcher_queue := enqueue p (nt_watcher_queue n)\<rparr>; fd = nat (io_fd u)
          in bindE (arr_get (nt_watchers n) fd) (\<lambda>w.
             Inr (if w = None then n\<lparr>nt_watchers := (nt_watchers n)[fd := Some p], nt_nfds := nt_nfds n + 1\<rparr> else n))))))"

definition uv__io_stop :: "nat \<Rightarrow> u32 \<Rightarrow> 'cb net \<Rightarrow> 'cb net res" where
  "uv__io_stop p events n =
     bindE (check_events events) (\<lambda>_.
     bindE (udp_at n p) (\<lambda>u.
     if io_fd u = - 1 then Inr n
     else
       bindE (check (io_fd u \<ge> 0)) (\<lambda>_.
       if nat (io_fd u) \<ge> nwatchers n then Inr n
       else
         let u = u\<lparr>io_pevents := io_pevents u AND NOT events\<rparr>
         in if io_pevents u = 0 then
              let n = set_udp p (u\<lparr>io_events := 0\<rparr>) (n\<lparr>nt_watcher_queue := removeAll p (nt_watcher_queue n)\<rparr>);
                  fd = nat (io_fd u)
              in bindE (arr_get (nt_watchers n) fd) (\<lambda>w.
                 if w = Some p then
                   bindE (check (nt_nfds n > 0)) (\<lambda>_.
                   Inr (n\<lparr>nt_watchers := (nt_watchers n)[fd := None], nt_nfds := nt_nfds n - 1\<rparr>))
                 else Inr n)
            else Inr (set_udp p u (n\<lparr>nt_watcher_queue := enqueue p (nt_watcher_queue n)\<rparr>)))))"

definition uv__io_feed :: "nat \<Rightarrow> 'cb net \<Rightarrow> 'cb net res" where
  "uv__io_feed p n =
     bindE (udp_at n p) (\<lambda>u.
     Inr (if io_pending u then n
          else set_udp p (u\<lparr>io_pending := True\<rparr>) (n\<lparr>nt_pending_queue := nt_pending_queue n @ [p]\<rparr>)))"

definition uv__io_active :: "'cb uv_udp \<Rightarrow> u32 \<Rightarrow> bool res" where
  "uv__io_active u events = bindE (check_events events) (\<lambda>_. Inr (0 \<noteq> (io_pevents u AND events)))"

definition uv__fd_exists :: "'cb net \<Rightarrow> int \<Rightarrow> bool res" where
  "uv__fd_exists n fd =
     (if uint (of_int fd :: u32) < int (nwatchers n) then
        bindE (arr_get (nt_watchers n) (unat (of_int fd :: u32))) (\<lambda>w. Inr (w \<noteq> None))
      else Inr False)"

section \<open>System calls\<close>

definition UV__ERR :: "int \<Rightarrow> int" where
  "UV__ERR e = - e"

text \<open>A call that returns a number or sets \<open>errno\<close> and returns -1.\<close>

definition sys_call :: "'cb net \<Rightarrow> (int \<times> 'cb net) res" where
  "sys_call n =
     (case nt_calls n of
        [] \<Rightarrow> Inl Diverges
      | r # rs \<Rightarrow>
          let n = n\<lparr>nt_calls := rs\<rparr> in Inr (if r < 0 then (- 1, n\<lparr>nt_errno := - r\<rparr>) else (r, n)))"

definition uv__close :: "int \<Rightarrow> 'cb net \<Rightarrow> 'cb net res" where
  "uv__close fd n =
     bindE (check (fd > 2)) (\<lambda>_.
     bindE (sys_call n) (\<lambda>(rc, n'). Inr (n'\<lparr>nt_errno := nt_errno n\<rparr>)))"

text \<open>Calls that are repeated while they are interrupted.\<close>

definition EINTR :: int where "EINTR = 4"

lemma sys_call_shorter [termination_simp]: "sys_call n = Inr (r, n') \<Longrightarrow> length (nt_calls n') < length (nt_calls n)"
  by (auto simp: sys_call_def Let_def split: list.splits if_splits)

function sys_retry :: "'cb net \<Rightarrow> (int \<times> 'cb net) res" where
  "sys_retry n =
     bindE (sys_call n) (\<lambda>(r, n). if r = - 1 \<and> nt_errno n = EINTR then sys_retry n else Inr (r, n))"
  by pat_completeness auto
termination by (relation "measure (\<lambda>n. length (nt_calls n))") (auto simp: termination_simp)

declare sys_retry.simps [simp del]

text \<open>The interest in a descriptor, without a ring of \<open>io_uring\<close>.\<close>

definition EEXIST :: int where "EEXIST = 17"

definition epoll_ctl :: "epoll_op \<Rightarrow> int \<Rightarrow> u32 \<Rightarrow> 'cb net \<Rightarrow> (int \<times> 'cb net) res" where
  "epoll_ctl op fd events n =
     bindE (sys_call n) (\<lambda>(r, n). Inr (r, if r = 0 then n\<lparr>nt_epoll := nt_epoll n @ [(op, fd, events)]\<rparr> else n))"

definition uv__epoll_ctl_prep :: "epoll_op \<Rightarrow> int \<Rightarrow> u32 \<Rightarrow> 'cb net \<Rightarrow> 'cb net res" where
  "uv__epoll_ctl_prep op fd events n =
     bindE (epoll_ctl op fd events n) (\<lambda>(r, n).
     if r = 0 \<or> op = Epoll_Del then Inr n
     else if op \<noteq> Epoll_Add \<or> nt_errno n \<noteq> EEXIST then Inl Assertion_Failed
     else bindE (epoll_ctl Epoll_Mod fd events n) (\<lambda>(r, n). if r = 0 then Inr n else Inl Assertion_Failed))"

text \<open>The events of a descriptor that is closed are not handed out any more.\<close>

definition invalidate :: "int \<Rightarrow> (int \<times> u32) list \<Rightarrow> (int \<times> u32) list" where
  "invalidate fd events = map (\<lambda>(d, e). (if d = fd then - 1 else d, e)) events"

definition uv__platform_invalidate_fd :: "int \<Rightarrow> 'cb net \<Rightarrow> 'cb net res" where
  "uv__platform_invalidate_fd fd n =
     (case nt_batch n of
        None \<Rightarrow> bindE (epoll_ctl Epoll_Del fd 0 n) (\<lambda>(r, n). Inr n)
      | Some events \<Rightarrow> uv__epoll_ctl_prep Epoll_Del fd 0 (n\<lparr>nt_batch := Some (invalidate fd events)\<rparr>))"

text \<open>The node of the watcher in the pending queue is taken out but not made a queue of its own.\<close>

definition uv__io_close :: "nat \<Rightarrow> 'cb net \<Rightarrow> 'cb net res" where
  "uv__io_close p n =
     bindE (uv__io_stop p poll_mask n) (\<lambda>n.
     let n = n\<lparr>nt_pending_queue := removeAll p (nt_pending_queue n),
               nt_running_queue := removeAll p (nt_running_queue n)\<rparr> in
     bindE (udp_at n p) (\<lambda>u. if io_fd u \<noteq> - 1 then uv__platform_invalidate_fd (io_fd u) n else Inr n))"

definition uv__nonblock :: "'cb net \<Rightarrow> (int \<times> 'cb net) res" where
  "uv__nonblock n = bindE (sys_retry n) (\<lambda>(r, n). Inr (if r \<noteq> 0 then UV__ERR (nt_errno n) else 0, n))"

definition uv__cloexec :: "'cb net \<Rightarrow> (int \<times> 'cb net) res" where
  "uv__cloexec n = bindE (sys_retry n) (\<lambda>(r, n). Inr (if r \<noteq> 0 then UV__ERR (nt_errno n) else 0, n))"

definition uv__socket :: "'cb net \<Rightarrow> (int \<times> 'cb net) res" where
  "uv__socket n =
     bindE (sys_call n) (\<lambda>(fd, n).
     if fd \<noteq> - 1 then Inr (fd, n)
     else if nt_errno n \<noteq> - UV_EINVAL then Inr (UV__ERR (nt_errno n), n)
     else
       bindE (sys_call n) (\<lambda>(fd, n).
       if fd = - 1 then Inr (UV__ERR (nt_errno n), n)
       else
         bindE (uv__nonblock n) (\<lambda>(err, n).
         bindE (if err = 0 then uv__cloexec n else Inr (err, n)) (\<lambda>(err, n).
         if err \<noteq> 0 then bindE (uv__close fd n) (\<lambda>n. Inr (err, n)) else Inr (fd, n)))))"

end
