(* ===== verification/Uv_Udp.thy ===== *)
theory Uv_Udp
  imports Uv_Io
begin

text \<open>
  UDP sockets, \<open>src/libuv/src/unix/udp.c\<close> as it is compiled for Linux, and the functions of \<open>uv-common.c\<close> in front of
  it. What the callbacks do to the sockets and to the state \<open>'s\<close> of the program are the fields of a record; the
  loops that run them have a fuel. Multicast groups, socket options and the names of a socket are in \<open>Uv_Multicast\<close>.
\<close>

unbundle bit_operations_syntax

section \<open>Constants\<close>

definition EAGAIN :: int where "EAGAIN = 11"
definition ENOBUFS :: int where "ENOBUFS = 105"
definition EAFNOSUPPORT :: int where "EAFNOSUPPORT = 97"

definition UV_EAGAIN :: int where "UV_EAGAIN = -11"
definition UV_EALREADY :: int where "UV_EALREADY = -114"
definition UV_EBUSY :: int where "UV_EBUSY = -16"
definition UV_ECANCELED :: int where "UV_ECANCELED = -125"
definition UV_EDESTADDRREQ :: int where "UV_EDESTADDRREQ = -89"
definition UV_EEXIST :: int where "UV_EEXIST = -17"
definition UV_EISCONN :: int where "UV_EISCONN = -106"
definition UV_ENOBUFS :: int where "UV_ENOBUFS = -105"
definition UV_ENOMEM :: int where "UV_ENOMEM = -12"
definition UV_ENOTCONN :: int where "UV_ENOTCONN = -107"

definition UV_UDP_IPV6ONLY :: u32 where "UV_UDP_IPV6ONLY = 1"
definition UV_UDP_PARTIAL :: u32 where "UV_UDP_PARTIAL = 2"
definition UV_UDP_REUSEADDR :: u32 where "UV_UDP_REUSEADDR = 4"
definition UV_UDP_MMSG_CHUNK :: u32 where "UV_UDP_MMSG_CHUNK = 8"
definition UV_UDP_MMSG_FREE :: u32 where "UV_UDP_MMSG_FREE = 16"
definition UV_UDP_LINUX_RECVERR :: u32 where "UV_UDP_LINUX_RECVERR = 32"
definition UV_UDP_RECVMMSG :: u32 where "UV_UDP_RECVMMSG = 256"
definition UV__UDP_DGRAM_MAXSIZE :: nat where "UV__UDP_DGRAM_MAXSIZE = 64 * 1024"

definition AF_UNIX :: u16 where "AF_UNIX = 1"

fun sa_family :: "udp_addr \<Rightarrow> u16" where
  "sa_family (Udp_In (Sockaddr_In a)) = AF_INET"
| "sa_family (Udp_In (Sockaddr_In6 a)) = AF_INET6"
| "sa_family (Udp_Unix path) = AF_UNIX"
| "sa_family (Udp_Other f) = f"

text \<open>Allocation of a buffer, a received datagram (status, buffer, its length, sender, flags), a sent one, a closed handle.\<close>

record ('s, 'cb) udp_calls =
  call_alloc :: "'cb \<Rightarrow> nat \<Rightarrow> 's \<times> 'cb net \<Rightarrow> ((cells option \<times> nat) \<times> 's \<times> 'cb net) res"
  call_recv :: "'cb \<Rightarrow> nat \<Rightarrow> int \<Rightarrow> cells option \<times> nat \<Rightarrow> udp_addr option \<Rightarrow> u32 \<Rightarrow> 's \<times> 'cb net \<Rightarrow> ('s \<times> 'cb net) res"
  call_send :: "'cb \<Rightarrow> nat \<Rightarrow> int \<Rightarrow> 's \<times> 'cb net \<Rightarrow> ('s \<times> 'cb net) res"
  call_close :: "'cb \<Rightarrow> nat \<Rightarrow> 's \<times> 'cb net \<Rightarrow> ('s \<times> 'cb net) res"

definition uv__count_bufs :: "byte list list \<Rightarrow> u64" where
  "uv__count_bufs bufs = foldl (\<lambda>bytes b. bytes + of_nat (length b)) 0 bufs"

section \<open>Sending\<close>

text \<open>The headers of at most twenty requests.\<close>

fun mmsghdrs :: "'cb net \<Rightarrow> int \<Rightarrow> nat list \<Rightarrow> (int \<times> udp_addr option \<times> byte list list) list res" where
  "mmsghdrs n fd [] = Inr []"
| "mmsghdrs n fd (q # qs) =
     bindE (req_at n q) (\<lambda>req.
     bindE (case rq_addr req of
              None \<Rightarrow> Inr None
            | Some a \<Rightarrow>
                if sa_family a = AF_INET6 \<or> sa_family a = AF_INET \<or> sa_family a = AF_UNIX then Inr (Some a)
                else Inl Assertion_Failed) (\<lambda>a.
     bindE (mmsghdrs n fd qs) (\<lambda>h. Inr ((fd, a, rq_bufs req) # h))))"

text \<open>The kernel sends the first datagrams of the array, as many as it answers, and no more than there are.\<close>

definition sendmmsg :: "(int \<times> udp_addr option \<times> byte list list) list \<Rightarrow> 'cb net \<Rightarrow> (int \<times> 'cb net) res" where
  "sendmmsg h n =
     (case nt_sends n of
        [] \<Rightarrow> Inl Diverges
      | r # rs \<Rightarrow>
          let n = n\<lparr>nt_sends := rs\<rparr>
          in Inr (if r < 0 then (- 1, n\<lparr>nt_errno := - r\<rparr>)
                  else (min r (int (length h)), n\<lparr>nt_wire := nt_wire n @ take (nat r) h\<rparr>)))"

lemma sendmmsg_shorter [termination_simp]: "sendmmsg h n = Inr (r, n') \<Longrightarrow> length (nt_sends n') < length (nt_sends n)"
  by (auto simp: sendmmsg_def Let_def split: list.splits if_splits)

function sendmmsg_retry :: "(int \<times> udp_addr option \<times> byte list list) list \<Rightarrow> 'cb net \<Rightarrow> (int \<times> 'cb net) res" where
  "sendmmsg_retry h n =
     bindE (sendmmsg h n) (\<lambda>(r, n). if r = - 1 \<and> nt_errno n = EINTR then sendmmsg_retry h n else Inr (r, n))"
  by pat_completeness auto
termination by (relation "measure (\<lambda>(h, n). length (nt_sends n))") (auto simp: termination_simp)

declare sendmmsg_retry.simps [simp del]

text \<open>At most \<open>k\<close> requests from the write queue to the completed queue.\<close>

definition complete_head :: "(('cb uv_udp_send_t) \<Rightarrow> int res) \<Rightarrow> nat \<Rightarrow> 'cb net \<Rightarrow> 'cb net res" where
  "complete_head status p n =
     bindE (udp_at n p) (\<lambda>u.
     let q = hd (ud_write_queue u) in
     bindE (req_at n q) (\<lambda>req.
     bindE (status req) (\<lambda>s.
     Inr (set_udp p (u\<lparr>ud_write_queue := tl (ud_write_queue u), ud_completed_queue := ud_completed_queue u @ [q]\<rparr>)
           (set_req q (req\<lparr>rq_status := s\<rparr>) n)))))"

fun complete_loop :: "nat \<Rightarrow> (('cb uv_udp_send_t) \<Rightarrow> int res) \<Rightarrow> nat \<Rightarrow> 'cb net \<Rightarrow> 'cb net res" where
  "complete_loop 0 status p n = Inr n"
| "complete_loop (Suc k) status p n =
     bindE (udp_at n p) (\<lambda>u.
     if ud_write_queue u = [] then Inr n
     else bindE (complete_head status p n) (complete_loop k status p))"

definition first_len :: "'cb uv_udp_send_t \<Rightarrow> int res" where
  "first_len req = bindE (arr_get (rq_bufs req) 0) (\<lambda>b. Inr (int (length b)))"

lemma complete_head_sends: "complete_head status p n = Inr n' \<Longrightarrow> nt_sends n' = nt_sends n"
  by (auto simp: complete_head_def res_simps Let_def set_udp_def set_req_def)

lemma complete_loop_sends [termination_simp]: "complete_loop k status p n = Inr n' \<Longrightarrow> nt_sends n' = nt_sends n"
  by (induction k arbitrary: n) (auto simp: res_simps complete_head_sends split: if_splits)

lemma sendmmsg_retry_shorter [termination_simp]:
  "sendmmsg_retry h n = Inr (r, n') \<Longrightarrow> length (nt_sends n') < length (nt_sends n)"
proof (induction h n rule: sendmmsg_retry.induct)
  case (1 h n)
  then obtain r1 n1 where s: "sendmmsg h n = Inr (r1, n1)"
    by (auto simp: sendmmsg_retry.simps [of h n] res_simps)
  show ?case
  proof (cases "r1 = - 1 \<and> nt_errno n1 = EINTR")
    case True
    then have "sendmmsg_retry h n1 = Inr (r, n')" using "1.prems" s by (simp add: sendmmsg_retry.simps [of h n])
    then show ?thesis using "1.IH" [OF s refl True] sendmmsg_shorter [OF s] by simp
  next
    case False
    then show ?thesis using "1.prems" s sendmmsg_shorter [OF s] by (auto simp: sendmmsg_retry.simps [of h n])
  qed
qed

text \<open>The label \<open>write_queue_drain\<close>.\<close>

function write_queue_drain :: "nat \<Rightarrow> 'cb net \<Rightarrow> 'cb net res" where
  "write_queue_drain p n =
     bindE (udp_at n p) (\<lambda>u.
     let pkts = take 20 (ud_write_queue u) in
     bindE (mmsghdrs n (io_fd u) pkts) (\<lambda>h.
     bindE (sendmmsg_retry h n) (\<lambda>(npkts, n).
     if npkts < 1 then
       (if nt_errno n = EAGAIN \<or> nt_errno n = ENOBUFS then Inr n
        else bindE (complete_loop (length pkts) (\<lambda>_. Inr (UV__ERR (nt_errno n))) p n) (uv__io_feed p))
     else
       bindE (complete_loop (nat npkts) first_len p n) (\<lambda>n.
       bindE (udp_at n p) (\<lambda>u.
       if ud_write_queue u \<noteq> [] then write_queue_drain p n else uv__io_feed p n)))))"
  by pat_completeness auto
termination by (relation "measure (\<lambda>(p, n). length (nt_sends n))") (auto simp: termination_simp)

declare write_queue_drain.simps [simp del]

definition uv__udp_sendmsg :: "nat \<Rightarrow> 'cb net \<Rightarrow> 'cb net res" where
  "uv__udp_sendmsg p n =
     bindE (udp_at n p) (\<lambda>u. if ud_write_queue u = [] then Inr n else write_queue_drain p n)"

section \<open>Completed requests\<close>

text \<open>The cells of the buffer array are freed, the pointer to it is set to null.\<close>

fun completed_loop :: "nat \<Rightarrow> ('s, 'cb) udp_calls \<Rightarrow> nat \<Rightarrow> 's \<times> 'cb net \<Rightarrow> ('s \<times> 'cb net) res" where
  "completed_loop 0 calls p st = Inl Diverges"
| "completed_loop (Suc fuel) calls p (s, n) =
     bindE (udp_at n p) (\<lambda>u.
     case ud_completed_queue u of
       [] \<Rightarrow> Inr (s, n)
     | q # qs \<Rightarrow>
         bindE (req_at n q) (\<lambda>req.
         bindE (uv__req_unregister n) (\<lambda>n.
         let n = set_udp p (u\<lparr>ud_completed_queue := qs,
                              ud_send_queue_size := ud_send_queue_size u - uv__count_bufs (rq_bufs req),
                              ud_send_queue_count := ud_send_queue_count u - 1\<rparr>)
                   (set_req q (req\<lparr>rq_bufs := []\<rparr>) n)
         in case rq_cb req of
              None \<Rightarrow> completed_loop fuel calls p (s, n)
            | Some cb \<Rightarrow>
                bindE (call_send calls cb q (if rq_status req \<ge> 0 then 0 else rq_status req) (s, n))
                  (completed_loop fuel calls p))))"

definition uv__udp_run_completed :: "nat \<Rightarrow> ('s, 'cb) udp_calls \<Rightarrow> nat \<Rightarrow> 's \<times> 'cb net \<Rightarrow> ('s \<times> 'cb net) res" where
  "uv__udp_run_completed fuel calls p = (\<lambda>(s, n).
     bindE (udp_at n p) (\<lambda>u.
     bindE (check (\<not> ud_processing u)) (\<lambda>_.
     bindE (completed_loop fuel calls p (s, set_udp p (u\<lparr>ud_processing := True\<rparr>) n)) (\<lambda>(s, n).
     bindE (udp_at n p) (\<lambda>u.
     bindE (if ud_write_queue u = [] then
              bindE (uv__io_stop p POLLOUT n) (\<lambda>n.
              bindE (udp_at n p) (\<lambda>u.
              bindE (uv__io_active u POLLIN) (\<lambda>b. if \<not> b then udp_handle_stop p n else Inr n)))
            else Inr n) (\<lambda>n.
     bindE (udp_at n p) (\<lambda>u. Inr (s, set_udp p (u\<lparr>ud_processing := False\<rparr>) n))))))))"

section \<open>Receiving\<close>

text \<open>The kernel fills the buffer with a datagram, as much of it as fits, and says whether it was cut.\<close>

fun recvmsg :: "cells \<Rightarrow> nat \<Rightarrow> 'cb net \<Rightarrow> (int \<times> cells \<times> udp_addr option \<times> bool \<times> 'cb net) res" where
  "recvmsg base len n =
     (case nt_recvs n of
        [] \<Rightarrow> Inl Diverges
      | Inl e # rs \<Rightarrow> Inr (- 1, base, None, False, n\<lparr>nt_recvs := rs, nt_errno := e\<rparr>)
      | Inr (peer, d) # rs \<Rightarrow>
          let m = take len d
          in bindE (cells_write base 0 m) (\<lambda>base.
             Inr (int (length m), base, Some peer, len < length d, n\<lparr>nt_recvs := rs\<rparr>)))"

lemma recvmsg_shorter [termination_simp]:
  "recvmsg base len n = Inr (r, b, a, t, n') \<Longrightarrow> length (nt_recvs n') < length (nt_recvs n)"
  by (auto simp: res_simps Let_def split: list.splits sum.splits)

declare recvmsg.simps [simp del]

function recvmsg_retry :: "cells \<Rightarrow> nat \<Rightarrow> 'cb net \<Rightarrow> (int \<times> cells \<times> udp_addr option \<times> bool \<times> 'cb net) res" where
  "recvmsg_retry base len n =
     bindE (recvmsg base len n) (\<lambda>(r, b, a, t, n).
     if r = - 1 \<and> nt_errno n = EINTR then recvmsg_retry b len n else Inr (r, b, a, t, n))"
  by pat_completeness auto
termination by (relation "measure (\<lambda>(b, l, n). length (nt_recvs n))") (auto simp: termination_simp)

declare recvmsg_retry.simps [simp del]

text \<open>Several datagrams with one call, each in its own chunk of the buffer: its length, its sender and whether it was cut.\<close>

fun fill_chunks :: "nat \<Rightarrow> (udp_addr \<times> byte list) list \<Rightarrow> cells \<Rightarrow> ((nat \<times> udp_addr \<times> bool) list \<times> cells) res" where
  "fill_chunks k [] base = Inr ([], base)"
| "fill_chunks k ((peer, d) # ds) base =
     (let m = take UV__UDP_DGRAM_MAXSIZE d
      in bindE (cells_write base (k * UV__UDP_DGRAM_MAXSIZE) m) (\<lambda>base.
         bindE (fill_chunks (k + 1) ds base) (\<lambda>(msgs, base).
         Inr ((length m, peer, UV__UDP_DGRAM_MAXSIZE < length d) # msgs, base))))"

definition recvmmsg :: "nat \<Rightarrow> cells \<Rightarrow> 'cb net \<Rightarrow> (int \<times> (nat \<times> udp_addr \<times> bool) list \<times> cells \<times> 'cb net) res" where
  "recvmmsg chunks base n =
     (case nt_mrecvs n of
        [] \<Rightarrow> Inl Diverges
      | Inl e # rs \<Rightarrow> Inr (- 1, [], base, n\<lparr>nt_mrecvs := rs, nt_errno := e\<rparr>)
      | Inr ds # rs \<Rightarrow>
          bindE (fill_chunks 0 (take chunks ds) base) (\<lambda>(msgs, base).
          Inr (int (length msgs), msgs, base, n\<lparr>nt_mrecvs := rs\<rparr>)))"

lemma recvmmsg_shorter [termination_simp]:
  "recvmmsg chunks base n = Inr (r, m, b, n') \<Longrightarrow> length (nt_mrecvs n') < length (nt_mrecvs n)"
  by (auto simp: recvmmsg_def res_simps Let_def split: list.splits sum.splits)

function recvmmsg_retry :: "nat \<Rightarrow> cells \<Rightarrow> 'cb net \<Rightarrow> (int \<times> (nat \<times> udp_addr \<times> bool) list \<times> cells \<times> 'cb net) res" where
  "recvmmsg_retry chunks base n =
     bindE (recvmmsg chunks base n) (\<lambda>(r, m, b, n).
     if r = - 1 \<and> nt_errno n = EINTR then recvmmsg_retry chunks b n else Inr (r, m, b, n))"
  by pat_completeness auto
termination by (relation "measure (\<lambda>(c, b, n). length (nt_mrecvs n))") (auto simp: termination_simp)

declare recvmmsg_retry.simps [simp del]

fun chunk_loop ::
    "nat \<Rightarrow> (nat \<times> udp_addr \<times> bool) list \<Rightarrow> cells \<Rightarrow> ('s, 'cb) udp_calls \<Rightarrow> nat \<Rightarrow> 's \<times> 'cb net \<Rightarrow> ('s \<times> 'cb net) res" where
  "chunk_loop k [] base calls p st = Inr st"
| "chunk_loop k ((len, peer, trunc) # msgs) base calls p (s, n) =
     bindE (udp_at n p) (\<lambda>u.
     case ud_recv_cb u of
       None \<Rightarrow> Inr (s, n)
     | Some cb \<Rightarrow>
         let chunk = take UV__UDP_DGRAM_MAXSIZE (drop (k * UV__UDP_DGRAM_MAXSIZE) base);
             flags = (if trunc then UV_UDP_MMSG_CHUNK OR UV_UDP_PARTIAL else UV_UDP_MMSG_CHUNK)
         in bindE (call_recv calls cb p (int len) (Some chunk, UV__UDP_DGRAM_MAXSIZE) (Some peer) flags (s, n))
              (chunk_loop (k + 1) msgs base calls p))"

definition uv__udp_recvmmsg :: "('s, 'cb) udp_calls \<Rightarrow> nat \<Rightarrow> cells \<Rightarrow> nat \<Rightarrow> 's \<times> 'cb net \<Rightarrow> (int \<times> 's \<times> 'cb net) res" where
  "uv__udp_recvmmsg calls p base len = (\<lambda>(s, n).
     bindE (recvmmsg_retry (min (len div UV__UDP_DGRAM_MAXSIZE) 20) base n) (\<lambda>(nread, msgs, base, n).
     if nread < 1 then
       bindE (udp_at n p) (\<lambda>u. bindE (or_fail Null_Deref (ud_recv_cb u)) (\<lambda>cb.
       bindE (call_recv calls cb p (if nread = 0 \<or> nt_errno n = EAGAIN then 0 else UV__ERR (nt_errno n)) (Some base, len) None 0 (s, n))
         (\<lambda>st. Inr (nread, st))))
     else
       bindE (chunk_loop 0 msgs base calls p (s, n)) (\<lambda>(s, n).
       bindE (udp_at n p) (\<lambda>u.
       case ud_recv_cb u of
         None \<Rightarrow> Inr (nread, s, n)
       | Some cb \<Rightarrow>
           bindE (call_recv calls cb p 0 (Some base, len) None UV_UDP_MMSG_FREE (s, n)) (\<lambda>st. Inr (nread, st))))))"

definition uv_udp_using_recvmmsg :: "'cb uv_udp \<Rightarrow> bool" where
  "uv_udp_using_recvmmsg u = ud_recvmmsg u"

text \<open>One datagram with one call.\<close>

definition receive_one :: "('s, 'cb) udp_calls \<Rightarrow> nat \<Rightarrow> cells \<Rightarrow> nat \<Rightarrow> 's \<times> 'cb net \<Rightarrow> (int \<times> 's \<times> 'cb net) res" where
  "receive_one calls p base len = (\<lambda>(s, n).
     bindE (recvmsg_retry base len n) (\<lambda>(nread, base, peer, trunc, n).
     bindE (udp_at n p) (\<lambda>u. bindE (or_fail Null_Deref (ud_recv_cb u)) (\<lambda>cb.
     bindE
       (if nread = - 1 then
          call_recv calls cb p (if nt_errno n = EAGAIN then 0 else UV__ERR (nt_errno n)) (Some base, len) None 0 (s, n)
        else call_recv calls cb p nread (Some base, len) peer (if trunc then UV_UDP_PARTIAL else 0) (s, n))
       (\<lambda>st. Inr (nread, st))))))"

text \<open>\<open>count\<close> is the number of datagrams that may still be read in this round.\<close>

fun recvmsg_loop :: "nat \<Rightarrow> int \<Rightarrow> ('s, 'cb) udp_calls \<Rightarrow> nat \<Rightarrow> 's \<times> 'cb net \<Rightarrow> ('s \<times> 'cb net) res" where
  "recvmsg_loop 0 count calls p st = Inl Diverges"
| "recvmsg_loop (Suc fuel) count calls p (s, n) =
     bindE (udp_at n p) (\<lambda>u.
     bindE (or_fail Null_Deref (ud_alloc_cb u)) (\<lambda>alloc.
     bindE (call_alloc calls alloc UV__UDP_DGRAM_MAXSIZE (s, n)) (\<lambda>((base, len), s, n).
     bindE (udp_at n p) (\<lambda>u.
     if base = None \<or> len = 0 then
       bindE (or_fail Null_Deref (ud_recv_cb u)) (\<lambda>cb. call_recv calls cb p UV_ENOBUFS (base, len) None 0 (s, n))
     else
       bindE
         (if uv_udp_using_recvmmsg u then
            bindE (uv__udp_recvmmsg calls p (the base) len (s, n)) (\<lambda>(nread, st).
            Inr (nread, if nread > 0 then count - nread else count, st))
          else
            bindE (receive_one calls p (the base) len (s, n)) (\<lambda>(nread, st). Inr (nread, count - 1, st)))
         (\<lambda>(nread, count, s, n).
          bindE (if nread \<noteq> - 1 \<and> count > 0 then udp_at n p else Inr u) (\<lambda>u.
          if nread \<noteq> - 1 \<and> count > 0 \<and> io_fd u \<noteq> - 1 \<and> ud_recv_cb u \<noteq> None then recvmsg_loop fuel count calls p (s, n)
          else Inr (s, n)))))))"

definition uv__udp_recvmsg :: "nat \<Rightarrow> ('s, 'cb) udp_calls \<Rightarrow> nat \<Rightarrow> 's \<times> 'cb net \<Rightarrow> ('s \<times> 'cb net) res" where
  "uv__udp_recvmsg fuel calls p = (\<lambda>(s, n).
     bindE (udp_at n p) (\<lambda>u.
     bindE (check (ud_recv_cb u \<noteq> None)) (\<lambda>_.
     bindE (check (ud_alloc_cb u \<noteq> None)) (\<lambda>_.
     recvmsg_loop fuel 32 calls p (s, n)))))"

definition uv__udp_io :: "nat \<Rightarrow> ('s, 'cb) udp_calls \<Rightarrow> nat \<Rightarrow> u32 \<Rightarrow> 's \<times> 'cb net \<Rightarrow> ('s \<times> 'cb net) res" where
  "uv__udp_io fuel calls p revents = (\<lambda>(s, n).
     bindE (udp_at n p) (\<lambda>u.
     bindE (check (ud_type_udp u)) (\<lambda>_.
     bindE (if revents AND POLLIN \<noteq> 0 then uv__udp_recvmsg fuel calls p (s, n) else Inr (s, n)) (\<lambda>(s, n).
     if revents AND POLLOUT \<noteq> 0 then
       bindE (uv__udp_sendmsg p n) (\<lambda>n. uv__udp_run_completed fuel calls p (s, n))
     else Inr (s, n)))))"

section \<open>Binding\<close>

definition uv__set_reuse :: "'cb net \<Rightarrow> (int \<times> 'cb net) res" where
  "uv__set_reuse n = bindE (sys_call n) (\<lambda>(r, n). Inr (if r \<noteq> 0 then UV__ERR (nt_errno n) else 0, n))"

definition uv__set_recverr :: "u16 \<Rightarrow> 'cb net \<Rightarrow> (int \<times> 'cb net) res" where
  "uv__set_recverr family n =
     (if family = AF_INET \<or> family = AF_INET6 then
        bindE (sys_call n) (\<lambda>(r, n). Inr (if r \<noteq> 0 then UV__ERR (nt_errno n) else 0, n))
      else Inr (0, n))"

text \<open>One step after another while none has failed.\<close>

definition unless_err :: "(int \<times> 'cb net) res \<Rightarrow> ('cb net \<Rightarrow> (int \<times> 'cb net) res) \<Rightarrow> (int \<times> 'cb net) res" where
  "unless_err r f = bindE r (\<lambda>(err, n). if err \<noteq> 0 then Inr (err, n) else f n)"

definition uv__udp_bind :: "nat \<Rightarrow> udp_addr \<Rightarrow> u32 \<Rightarrow> 'cb net \<Rightarrow> (int \<times> 'cb net) res" where
  "uv__udp_bind p addr flags n =
     (if flags AND NOT (UV_UDP_IPV6ONLY OR UV_UDP_REUSEADDR OR UV_UDP_LINUX_RECVERR) \<noteq> 0 then Inr (UV_EINVAL, n)
      else if flags AND UV_UDP_IPV6ONLY \<noteq> 0 \<and> sa_family addr \<noteq> AF_INET6 then Inr (UV_EINVAL, n)
      else
        bindE (udp_at n p) (\<lambda>u.
        unless_err
          (if io_fd u = - 1 then
             bindE (uv__socket n) (\<lambda>(err, n).
             if err < 0 then Inr (err, n) else Inr (0, set_udp p (u\<lparr>io_fd := err\<rparr>) n))
           else Inr (0, n)) (\<lambda>n.
        unless_err (if flags AND UV_UDP_LINUX_RECVERR \<noteq> 0 then uv__set_recverr (sa_family addr) n else Inr (0, n)) (\<lambda>n.
        unless_err (if flags AND UV_UDP_REUSEADDR \<noteq> 0 then uv__set_reuse n else Inr (0, n)) (\<lambda>n.
        unless_err
          (if flags AND UV_UDP_IPV6ONLY \<noteq> 0 then
             bindE (sys_call n) (\<lambda>(r, n). Inr (if r = - 1 then UV__ERR (nt_errno n) else 0, n))
           else Inr (0, n)) (\<lambda>n.
        bindE (sys_call n) (\<lambda>(r, n).
        if r \<noteq> 0 then Inr (if nt_errno n = EAFNOSUPPORT then UV_EINVAL else UV__ERR (nt_errno n), n)
        else
          bindE (udp_at n p) (\<lambda>u.
          Inr (0, set_udp p (u\<lparr>ud_ipv6 := (sa_family addr = AF_INET6 \<or> ud_ipv6 u), ud_bound := True\<rparr>) n)))))))))"

definition any_address :: "u16 \<Rightarrow> udp_addr res" where
  "any_address domain =
     (if domain = AF_INET then Inr (Udp_In (Sockaddr_In \<lparr>sin_family = AF_INET, sin_port = 0, s_addr = 0\<rparr>))
      else if domain = AF_INET6 then
        Inr (Udp_In (Sockaddr_In6 \<lparr>sin6_family = AF_INET6, sin6_port = 0, sin6_flowinfo = 0,
                                   sin6_addr = replicate 16 0, sin6_scope_id = 0\<rparr>))
      else Inl Assertion_Failed)"

definition uv__udp_maybe_deferred_bind :: "nat \<Rightarrow> u16 \<Rightarrow> u32 \<Rightarrow> 'cb net \<Rightarrow> (int \<times> 'cb net) res" where
  "uv__udp_maybe_deferred_bind p domain flags n =
     bindE (udp_at n p) (\<lambda>u.
     if io_fd u \<noteq> - 1 then Inr (0, n)
     else bindE (any_address domain) (\<lambda>addr. uv__udp_bind p addr flags n))"

section \<open>Connecting\<close>

text \<open>Before each call \<open>errno\<close> is cleared.\<close>

function connect_retry :: "'cb net \<Rightarrow> (int \<times> 'cb net) res" where
  "connect_retry n =
     bindE (sys_call (n\<lparr>nt_errno := 0\<rparr>)) (\<lambda>(r, n). if r = - 1 \<and> nt_errno n = EINTR then connect_retry n else Inr (r, n))"
  by pat_completeness auto
termination
proof (relation "measure (\<lambda>n. length (nt_calls n))")
  fix n n' n'' :: "'cb net" and x r
  assume "sys_call (n\<lparr>nt_errno := 0\<rparr>) = Inr x" "(r, n') = x"
  then show "(n', n) \<in> measure (\<lambda>n. length (nt_calls n))"
    using sys_call_shorter [of "n\<lparr>nt_errno := 0\<rparr>" r n'] by auto
qed simp

declare connect_retry.simps [simp del]

definition set_connected :: "bool \<Rightarrow> nat \<Rightarrow> 'cb net \<Rightarrow> (int \<times> 'cb net) res" where
  "set_connected b p n = bindE (udp_at n p) (\<lambda>u. Inr (0, set_udp p (u\<lparr>ud_connected := b\<rparr>) n))"

definition uv__udp_connect :: "nat \<Rightarrow> udp_addr \<Rightarrow> 'cb net \<Rightarrow> (int \<times> 'cb net) res" where
  "uv__udp_connect p addr n =
     unless_err (uv__udp_maybe_deferred_bind p (sa_family addr) 0 n) (\<lambda>n.
     bindE (connect_retry n) (\<lambda>(err, n).
     if err \<noteq> 0 then Inr (UV__ERR (nt_errno n), n) else set_connected True p n))"

definition uv__udp_disconnect :: "nat \<Rightarrow> 'cb net \<Rightarrow> (int \<times> 'cb net) res" where
  "uv__udp_disconnect p n =
     bindE (connect_retry n) (\<lambda>(r, n).
     if r = - 1 then Inr (UV__ERR (nt_errno n), n) else set_connected False p n)"

section \<open>Sending\<close>

definition uv__udp_send ::
    "nat \<Rightarrow> nat \<Rightarrow> byte list list \<Rightarrow> udp_addr option \<Rightarrow> 'cb option \<Rightarrow> 'cb net \<Rightarrow> (int \<times> 'cb net) res" where
  "uv__udp_send q p bufs addr send_cb n =
     bindE (check (0 < length bufs)) (\<lambda>_.
     unless_err (case addr of Some a \<Rightarrow> uv__udp_maybe_deferred_bind p (sa_family a) 0 n | None \<Rightarrow> Inr (0, n)) (\<lambda>n.
     bindE (udp_at n p) (\<lambda>u.
     let empty_queue = (ud_send_queue_count u = 0); n = uv__req_register n in
     bindE (req_at n q) (\<lambda>req.
     let req = req\<lparr>rq_addr := addr, rq_cb := send_cb\<rparr> in
     if length bufs > 4 \<and> nt_no_memory n then
       bindE (uv__req_unregister (set_req q (req\<lparr>rq_bufs := []\<rparr>) n)) (\<lambda>n. Inr (UV_ENOMEM, n))
     else
       let n = set_req q (req\<lparr>rq_bufs := bufs\<rparr>) n;
           n = set_udp p (u\<lparr>ud_send_queue_size := ud_send_queue_size u + uv__count_bufs bufs,
                            ud_send_queue_count := ud_send_queue_count u + 1,
                            ud_write_queue := ud_write_queue u @ [q]\<rparr>) n
       in bindE (udp_handle_start p n) (\<lambda>n.
          if empty_queue \<and> \<not> ud_processing u then
            bindE (uv__udp_sendmsg p n) (\<lambda>n.
            bindE (udp_at n p) (\<lambda>u.
            bindE (if ud_write_queue u \<noteq> [] then uv__io_start p POLLOUT n else Inr n) (\<lambda>n. Inr (0, n))))
          else bindE (uv__io_start p POLLOUT n) (\<lambda>n. Inr (0, n)))))))"

text \<open>One datagram with \<open>sendmsg\<close>, which answers with its size.\<close>

definition sendmsg :: "int \<times> udp_addr option \<times> byte list list \<Rightarrow> 'cb net \<Rightarrow> (int \<times> 'cb net) res" where
  "sendmsg h n =
     (case nt_sends n of
        [] \<Rightarrow> Inl Diverges
      | r # rs \<Rightarrow>
          let n = n\<lparr>nt_sends := rs\<rparr>
          in Inr (if r < 0 then (- 1, n\<lparr>nt_errno := - r\<rparr>) else (r, n\<lparr>nt_wire := nt_wire n @ [h]\<rparr>)))"

lemma sendmsg_shorter [termination_simp]: "sendmsg h n = Inr (r, n') \<Longrightarrow> length (nt_sends n') < length (nt_sends n)"
  by (auto simp: sendmsg_def Let_def split: list.splits if_splits)

function sendmsg_retry :: "int \<times> udp_addr option \<times> byte list list \<Rightarrow> 'cb net \<Rightarrow> (int \<times> 'cb net) res" where
  "sendmsg_retry h n =
     bindE (sendmsg h n) (\<lambda>(r, n). if r = - 1 \<and> nt_errno n = EINTR then sendmsg_retry h n else Inr (r, n))"
  by pat_completeness auto
termination by (relation "measure (\<lambda>(h, n). length (nt_sends n))") (auto simp: termination_simp)

declare sendmsg_retry.simps [simp del]

definition uv__udp_try_send :: "nat \<Rightarrow> byte list list \<Rightarrow> udp_addr option \<Rightarrow> 'cb net \<Rightarrow> (int \<times> 'cb net) res" where
  "uv__udp_try_send p bufs addr n =
     bindE (check (0 < length bufs)) (\<lambda>_.
     bindE (udp_at n p) (\<lambda>u.
     if ud_send_queue_count u \<noteq> 0 then Inr (UV_EAGAIN, n)
     else
       unless_err
         (case addr of
            Some a \<Rightarrow> uv__udp_maybe_deferred_bind p (sa_family a) 0 n
          | None \<Rightarrow> bindE (check (ud_connected u)) (\<lambda>_. Inr (0, n))) (\<lambda>n.
       bindE (udp_at n p) (\<lambda>u.
       bindE (sendmsg_retry (io_fd u, addr, bufs) n) (\<lambda>(r, n).
       Inr (if r = - 1 then (if nt_errno n = EAGAIN \<or> nt_errno n = ENOBUFS then UV_EAGAIN else UV__ERR (nt_errno n))
            else r, n))))))"

section \<open>Handles\<close>

definition uv__udp_init_ex :: "nat \<Rightarrow> u16 \<Rightarrow> 'cb net \<Rightarrow> (int \<times> 'cb net) res" where
  "uv__udp_init_ex p domain n =
     bindE (if domain \<noteq> 0 then uv__socket n else Inr (- 1, n)) (\<lambda>(fd, n).
     if domain \<noteq> 0 \<and> fd < 0 then Inr (fd, n)
     else
       bindE (udp_at n p) (\<lambda>u.
       bindE (uv__io_init fd
                (u\<lparr>ud_type_udp := True, ud_active := False, ud_ref := True, ud_closing := False, ud_closed := False,
                   ud_ipv6 := False, ud_bound := False, ud_processing := False, ud_connected := False,
                   ud_recvmmsg := False, ud_alloc_cb := None, ud_recv_cb := None, ud_send_queue_size := 0,
                   ud_send_queue_count := 0, ud_write_queue := [], ud_completed_queue := []\<rparr>)) (\<lambda>u.
       Inr (0, set_udp p u (n\<lparr>nt_handle_queue := nt_handle_queue n @ [p]\<rparr>)))))"

definition uv_udp_init_ex :: "nat \<Rightarrow> u32 \<Rightarrow> 'cb net \<Rightarrow> (int \<times> 'cb net) res" where
  "uv_udp_init_ex p flags n =
     (let domain = ucast (flags AND 0xFF) :: u16; extra_flags = flags AND NOT 0xFF in
      if domain \<noteq> AF_INET \<and> domain \<noteq> AF_INET6 \<and> domain \<noteq> 0 then Inr (UV_EINVAL, n)
      else if extra_flags AND NOT UV_UDP_RECVMMSG \<noteq> 0 then Inr (UV_EINVAL, n)
      else
        bindE (uv__udp_init_ex p domain n) (\<lambda>(rc, n).
        if rc = 0 \<and> extra_flags AND UV_UDP_RECVMMSG \<noteq> 0 then
          bindE (udp_at n p) (\<lambda>u. Inr (rc, set_udp p (u\<lparr>ud_recvmmsg := True\<rparr>) n))
        else Inr (rc, n)))"

definition uv_udp_init :: "nat \<Rightarrow> 'cb net \<Rightarrow> (int \<times> 'cb net) res" where
  "uv_udp_init p n = uv_udp_init_ex p 0 n"

definition uv__udp_recv_start :: "nat \<Rightarrow> 'cb option \<Rightarrow> 'cb option \<Rightarrow> 'cb net \<Rightarrow> (int \<times> 'cb net) res" where
  "uv__udp_recv_start p alloc_cb recv_cb n =
     (if alloc_cb = None \<or> recv_cb = None then Inr (UV_EINVAL, n)
      else
        bindE (udp_at n p) (\<lambda>u.
        bindE (uv__io_active u POLLIN) (\<lambda>b.
        if b then Inr (UV_EALREADY, n)
        else
          unless_err (uv__udp_maybe_deferred_bind p AF_INET 0 n) (\<lambda>n.
          bindE (udp_at n p) (\<lambda>u.
          bindE (uv__io_start p POLLIN (set_udp p (u\<lparr>ud_alloc_cb := alloc_cb, ud_recv_cb := recv_cb\<rparr>) n)) (\<lambda>n.
          bindE (udp_handle_start p n) (\<lambda>n. Inr (0, n))))))))"

definition uv__udp_recv_stop :: "nat \<Rightarrow> 'cb net \<Rightarrow> (int \<times> 'cb net) res" where
  "uv__udp_recv_stop p n =
     bindE (uv__io_stop p POLLIN n) (\<lambda>n.
     bindE (udp_at n p) (\<lambda>u.
     bindE (uv__io_active u POLLOUT) (\<lambda>b.
     bindE (if \<not> b then udp_handle_stop p n else Inr n) (\<lambda>n.
     bindE (udp_at n p) (\<lambda>u. Inr (0, set_udp p (u\<lparr>ud_alloc_cb := None, ud_recv_cb := None\<rparr>) n))))))"

section \<open>The functions in front\<close>

definition uv_udp_bind :: "nat \<Rightarrow> udp_addr \<Rightarrow> u32 \<Rightarrow> 'cb net \<Rightarrow> (int \<times> 'cb net) res" where
  "uv_udp_bind p addr flags n =
     bindE (udp_at n p) (\<lambda>u.
     if \<not> ud_type_udp u then Inr (UV_EINVAL, n)
     else if sa_family addr = AF_INET \<or> sa_family addr = AF_INET6 then uv__udp_bind p addr flags n
     else Inr (UV_EINVAL, n))"

definition uv_udp_connect :: "nat \<Rightarrow> udp_addr option \<Rightarrow> 'cb net \<Rightarrow> (int \<times> 'cb net) res" where
  "uv_udp_connect p addr n =
     bindE (udp_at n p) (\<lambda>u.
     if \<not> ud_type_udp u then Inr (UV_EINVAL, n)
     else
       case addr of
         None \<Rightarrow> if \<not> ud_connected u then Inr (UV_ENOTCONN, n) else uv__udp_disconnect p n
       | Some a \<Rightarrow>
           if \<not> (sa_family a = AF_INET \<or> sa_family a = AF_INET6) then Inr (UV_EINVAL, n)
           else if ud_connected u then Inr (UV_EISCONN, n)
           else uv__udp_connect p a n)"

text \<open>The length of the address, or an error.\<close>

definition uv__udp_check_before_send :: "'cb uv_udp \<Rightarrow> udp_addr option \<Rightarrow> int" where
  "uv__udp_check_before_send u addr =
     (if \<not> ud_type_udp u then UV_EINVAL
      else if addr \<noteq> None \<and> ud_connected u then UV_EISCONN
      else if addr = None \<and> \<not> ud_connected u then UV_EDESTADDRREQ
      else
        case addr of
          Some a \<Rightarrow>
            if sa_family a = AF_INET then 16
            else if sa_family a = AF_INET6 then 28
            else if sa_family a = AF_UNIX then 110
            else UV_EINVAL
        | None \<Rightarrow> 0)"

definition uv_udp_send ::
    "nat \<Rightarrow> nat \<Rightarrow> byte list list \<Rightarrow> udp_addr option \<Rightarrow> 'cb option \<Rightarrow> 'cb net \<Rightarrow> (int \<times> 'cb net) res" where
  "uv_udp_send q p bufs addr send_cb n =
     bindE (udp_at n p) (\<lambda>u.
     let addrlen = uv__udp_check_before_send u addr
     in if addrlen < 0 then Inr (addrlen, n) else uv__udp_send q p bufs addr send_cb n)"

definition uv_udp_try_send :: "nat \<Rightarrow> byte list list \<Rightarrow> udp_addr option \<Rightarrow> 'cb net \<Rightarrow> (int \<times> 'cb net) res" where
  "uv_udp_try_send p bufs addr n =
     bindE (udp_at n p) (\<lambda>u.
     let addrlen = uv__udp_check_before_send u addr
     in if addrlen < 0 then Inr (addrlen, n) else uv__udp_try_send p bufs addr n)"

definition uv_udp_recv_start :: "nat \<Rightarrow> 'cb option \<Rightarrow> 'cb option \<Rightarrow> 'cb net \<Rightarrow> (int \<times> 'cb net) res" where
  "uv_udp_recv_start p alloc_cb recv_cb n =
     bindE (udp_at n p) (\<lambda>u.
     if \<not> ud_type_udp u \<or> alloc_cb = None \<or> recv_cb = None then Inr (UV_EINVAL, n)
     else uv__udp_recv_start p alloc_cb recv_cb n)"

definition uv_udp_recv_stop :: "nat \<Rightarrow> 'cb net \<Rightarrow> (int \<times> 'cb net) res" where
  "uv_udp_recv_stop p n =
     bindE (udp_at n p) (\<lambda>u. if \<not> ud_type_udp u then Inr (UV_EINVAL, n) else uv__udp_recv_stop p n)"

section \<open>Closing\<close>

definition uv__udp_close :: "nat \<Rightarrow> 'cb net \<Rightarrow> 'cb net res" where
  "uv__udp_close p n =
     bindE (uv__io_close p n) (\<lambda>n.
     bindE (udp_handle_stop p n) (\<lambda>n.
     bindE (udp_at n p) (\<lambda>u.
     if io_fd u \<noteq> - 1 then
       bindE (uv__close (io_fd u) n) (\<lambda>n.
       bindE (udp_at n p) (\<lambda>u. Inr (set_udp p (u\<lparr>io_fd := - 1\<rparr>) n)))
     else Inr n)))"

definition uv__udp_finish_close :: "nat \<Rightarrow> ('s, 'cb) udp_calls \<Rightarrow> nat \<Rightarrow> 's \<times> 'cb net \<Rightarrow> ('s \<times> 'cb net) res" where
  "uv__udp_finish_close fuel calls p = (\<lambda>(s, n).
     bindE (udp_at n p) (\<lambda>u.
     bindE (uv__io_active u (POLLIN OR POLLOUT)) (\<lambda>b.
     bindE (check (\<not> b)) (\<lambda>_.
     bindE (check (io_fd u = - 1)) (\<lambda>_.
     bindE (complete_loop (length (ud_write_queue u)) (\<lambda>_. Inr UV_ECANCELED) p n) (\<lambda>n.
     bindE (uv__udp_run_completed fuel calls p (s, n)) (\<lambda>(s, n).
     bindE (udp_at n p) (\<lambda>u.
     bindE (check (ud_send_queue_size u = 0)) (\<lambda>_.
     bindE (check (ud_send_queue_count u = 0)) (\<lambda>_.
     Inr (s, set_udp p (u\<lparr>ud_recv_cb := None, ud_alloc_cb := None\<rparr>) n)))))))))))"

definition uv__make_close_pending :: "nat \<Rightarrow> 'cb net \<Rightarrow> 'cb net res" where
  "uv__make_close_pending p n =
     bindE (udp_at n p) (\<lambda>u.
     bindE (check (ud_closing u)) (\<lambda>_.
     bindE (check (\<not> ud_closed u)) (\<lambda>_.
     Inr (n\<lparr>nt_closing_handles := p # nt_closing_handles n\<rparr>))))"

text \<open>For a handle of another type the switch goes elsewhere; only sockets are modelled.\<close>

definition uv_close :: "nat \<Rightarrow> 'cb option \<Rightarrow> 'cb net \<Rightarrow> 'cb net res" where
  "uv_close p close_cb n =
     bindE (udp_at n p) (\<lambda>u.
     bindE (check (\<not> ud_closing u \<and> \<not> ud_closed u)) (\<lambda>_.
     bindE (check (ud_type_udp u)) (\<lambda>_.
     bindE (uv__udp_close p (set_udp p (u\<lparr>ud_closing := True, ud_close_cb := close_cb\<rparr>) n)) (\<lambda>n.
     uv__make_close_pending p n))))"

definition uv__finish_close :: "nat \<Rightarrow> ('s, 'cb) udp_calls \<Rightarrow> nat \<Rightarrow> 's \<times> 'cb net \<Rightarrow> ('s \<times> 'cb net) res" where
  "uv__finish_close fuel calls p = (\<lambda>(s, n).
     bindE (udp_at n p) (\<lambda>u.
     bindE (check (ud_closing u)) (\<lambda>_.
     bindE (check (\<not> ud_closed u)) (\<lambda>_.
     bindE (check (ud_type_udp u)) (\<lambda>_.
     bindE (uv__udp_finish_close fuel calls p (s, set_udp p (u\<lparr>ud_closed := True\<rparr>) n)) (\<lambda>(s, n).
     bindE (udp_handle_unref p n) (\<lambda>n.
     let n = n\<lparr>nt_handle_queue := removeAll p (nt_handle_queue n)\<rparr> in
     bindE (udp_at n p) (\<lambda>u.
     case ud_close_cb u of None \<Rightarrow> Inr (s, n) | Some cb \<Rightarrow> call_close calls cb p (s, n)))))))))"

text \<open>The list of closing handles is taken before the first of them is closed.\<close>

fun finish_close_loop :: "nat list \<Rightarrow> nat \<Rightarrow> ('s, 'cb) udp_calls \<Rightarrow> 's \<times> 'cb net \<Rightarrow> ('s \<times> 'cb net) res" where
  "finish_close_loop [] fuel calls st = Inr st"
| "finish_close_loop (p # ps) fuel calls st = bindE (uv__finish_close fuel calls p st) (finish_close_loop ps fuel calls)"

definition uv__run_closing_handles :: "nat \<Rightarrow> ('s, 'cb) udp_calls \<Rightarrow> 's \<times> 'cb net \<Rightarrow> ('s \<times> 'cb net) res" where
  "uv__run_closing_handles fuel calls = (\<lambda>(s, n).
     finish_close_loop (nt_closing_handles n) fuel calls (s, n\<lparr>nt_closing_handles := []\<rparr>))"

section \<open>Pending watchers\<close>

fun pending_loop :: "nat \<Rightarrow> ('s, 'cb) udp_calls \<Rightarrow> 's \<times> 'cb net \<Rightarrow> ('s \<times> 'cb net) res" where
  "pending_loop 0 calls st = Inl Diverges"
| "pending_loop (Suc fuel) calls (s, n) =
     (case nt_running_queue n of
        [] \<Rightarrow> Inr (s, n)
      | p # ps \<Rightarrow>
          bindE (udp_at n p) (\<lambda>u.
          bindE (uv__udp_io fuel calls p POLLOUT (s, set_udp p (u\<lparr>io_pending := False\<rparr>) (n\<lparr>nt_running_queue := ps\<rparr>)))
            (pending_loop fuel calls)))"

definition uv__run_pending :: "nat \<Rightarrow> ('s, 'cb) udp_calls \<Rightarrow> 's \<times> 'cb net \<Rightarrow> ('s \<times> 'cb net) res" where
  "uv__run_pending fuel calls = (\<lambda>(s, n).
     pending_loop fuel calls (s, n\<lparr>nt_running_queue := nt_pending_queue n, nt_pending_queue := []\<rparr>))"

end
