(* ===== verification/Uv_Udp_Correct.thy ===== *)
theory Uv_Udp_Correct
  imports Uv_Udp
begin

text \<open>
  What happens to the requests of a socket: they are sent and called back in the order they were made, each once,
  with success exactly for those the kernel took; a request that waits keeps the watcher armed.
\<close>

unbundle bit_operations_syntax

lemma or_bit_set: "(x OR POLLOUT) AND POLLOUT \<noteq> 0"
proof
  assume "(x OR POLLOUT) AND POLLOUT = 0"
  then have "bit ((x OR POLLOUT) AND POLLOUT) 2 = bit (0 :: u32) 2" by simp
  then show False by (simp add: bit_simps POLLOUT_def)
qed

lemma check_Inr [simp]: "check b = Inr x \<longleftrightarrow> b"
  by (simp add: check_def)

lemma check_True [simp]: "check True = Inr ()"
  by (simp add: check_def)

section \<open>Moving requests to the completed queue\<close>

definition set_status :: "(nat \<Rightarrow> int) \<Rightarrow> nat set \<Rightarrow> (nat \<Rightarrow> 'cb uv_udp_send_t option) \<Rightarrow> nat \<Rightarrow> 'cb uv_udp_send_t option" where
  "set_status f A m = (\<lambda>q. if q \<in> A then map_option (\<lambda>r. r\<lparr>rq_status := f q\<rparr>) (m q) else m q)"

definition moved :: "nat \<Rightarrow> 'cb uv_udp \<Rightarrow> 'cb uv_udp" where
  "moved k u = u\<lparr>ud_write_queue := drop k (ud_write_queue u),
                 ud_completed_queue := ud_completed_queue u @ take k (ud_write_queue u)\<rparr>"

lemma moved_0 [simp]: "moved 0 u = u"
  by (simp add: moved_def)

lemma moved_pending [simp]: "(moved k u)\<lparr>io_pending := io_pending u\<rparr> = moved k u"
  by (cases u) (simp add: moved_def)

lemma complete_loop_eq:
  "nt_udps n p = Some u \<Longrightarrow> distinct (ud_write_queue u) \<Longrightarrow>
   (\<And>q. q \<in> set (take k (ud_write_queue u)) \<Longrightarrow> \<exists>r. nt_reqs n q = Some r \<and> status r = Inr (f q)) \<Longrightarrow>
   complete_loop k status p n =
     Inr (n\<lparr>nt_udps := (nt_udps n)(p \<mapsto> moved k u), nt_reqs := set_status f (set (take k (ud_write_queue u))) (nt_reqs n)\<rparr>)"
proof (induction k arbitrary: n u)
  case 0
  then show ?case by (simp add: set_status_def fun_upd_idem)
next
  case (Suc k)
  show ?case
  proof (cases "ud_write_queue u")
    case Nil
    then show ?thesis using Suc.prems(1) by (simp add: udp_at_def set_status_def moved_def fun_upd_idem)
  next
    case (Cons q qs)
    obtain r where r: "nt_reqs n q = Some r" "status r = Inr (f q)" using Suc.prems(3) [of q] Cons by auto
    define n1 where "n1 = set_udp p (moved 1 u) (set_req q (r\<lparr>rq_status := f q\<rparr>) n)"
    have h: "complete_head status p n = Inr n1"
      using Suc.prems(1) Cons r by (simp add: complete_head_def udp_at_def req_at_def n1_def moved_def Let_def)
    have u1: "nt_udps n1 p = Some (moved 1 u)" "ud_write_queue (moved 1 u) = qs"
      using Cons by (simp_all add: n1_def set_udp_def moved_def)
    have "complete_loop k status p n1 =
       Inr (n1\<lparr>nt_udps := (nt_udps n1)(p \<mapsto> moved k (moved 1 u)), nt_reqs := set_status f (set (take k qs)) (nt_reqs n1)\<rparr>)"
      unfolding u1(2) [symmetric]
    proof (rule Suc.IH [OF u1(1)])
      show "distinct (ud_write_queue (moved 1 u))" using Suc.prems(2) Cons u1(2) by simp
      show "\<exists>r. nt_reqs n1 x = Some r \<and> status r = Inr (f x)" if "x \<in> set (take k (ud_write_queue (moved 1 u)))" for x
      proof -
        have "x \<in> set (take k qs)" using that u1(2) by simp
        moreover from this have "x \<noteq> q" using Suc.prems(2) Cons by (auto dest: in_set_takeD)
        ultimately show ?thesis using Suc.prems(3) [of x] Cons by (simp add: n1_def set_udp_def set_req_def)
      qed
    qed
    moreover have "set_status f (set (take k qs)) (nt_reqs n1) = set_status f (set (take (Suc k) (q # qs))) (nt_reqs n)"
      using r Suc.prems(2) Cons by (auto simp: set_status_def n1_def set_udp_def set_req_def fun_eq_iff dest: in_set_takeD)
    moreover have "moved k (moved 1 u) = moved (Suc k) u" using Cons by (simp add: moved_def)
    ultimately show ?thesis
      using Suc.prems(1) h Cons by (simp add: udp_at_def) (simp add: n1_def set_udp_def set_req_def, simp add: fun_upd_def)
  qed
qed

section \<open>The kernel's answers\<close>

definition payload :: "'cb uv_udp_send_t \<Rightarrow> udp_addr option \<times> byte list list" where
  "payload r = (rq_addr r, rq_bufs r)"

definition good_addr :: "udp_addr option \<Rightarrow> bool" where
  "good_addr a \<longleftrightarrow>
     (case a of None \<Rightarrow> True | Some a \<Rightarrow> sa_family a = AF_INET6 \<or> sa_family a = AF_INET \<or> sa_family a = AF_UNIX)"

definition payloads :: "'cb net \<Rightarrow> nat list \<Rightarrow> (udp_addr option \<times> byte list list) list" where
  "payloads n qs = map (\<lambda>q. payload (the (nt_reqs n q))) qs"

lemma mmsghdrs_eq:
  "(\<And>q. q \<in> set qs \<Longrightarrow> \<exists>r. nt_reqs n q = Some r \<and> good_addr (rq_addr r)) \<Longrightarrow>
   mmsghdrs n fd qs = Inr (map (Pair fd) (payloads n qs))"
proof (induction qs)
  case (Cons q qs)
  obtain r where r: "nt_reqs n q = Some r" "good_addr (rq_addr r)" using Cons.prems [of q] by auto
  show ?case
  proof (cases "rq_addr r")
    case None
    then show ?thesis using Cons.IH Cons.prems r by (simp add: req_at_def payloads_def payload_def)
  next
    case (Some a)
    then show ?thesis using Cons.IH Cons.prems r by (simp add: req_at_def payloads_def payload_def good_addr_def)
  qed
qed (simp add: payloads_def)

text \<open>A call with one header at least answers with an error or with a positive number.\<close>

lemma sendmmsg_retry_cases:
  assumes "sendmmsg_retry h n = Inr (r, n')" "0 \<notin> set (nt_sends n)" "h \<noteq> []"
  shows "0 \<notin> set (nt_sends n') \<and>
    ((\<exists>e. r = - 1 \<and> 0 < e \<and> n' = n\<lparr>nt_sends := nt_sends n', nt_errno := e\<rparr>) \<or>
     (0 < r \<and> r \<le> int (length h) \<and>
       n' = n\<lparr>nt_sends := nt_sends n', nt_errno := nt_errno n', nt_wire := nt_wire n @ take (nat r) h\<rparr>))"
  using assms
proof (induction h n rule: sendmmsg_retry.induct)
  case (1 h n)
  obtain a as where a: "nt_sends n = a # as" "a \<noteq> 0" "0 \<notin> set as"
    using "1.prems"(1,2) by (cases "nt_sends n") (auto simp: sendmmsg_retry.simps [of h n] sendmmsg_def)
  show ?case
  proof (cases "a < 0")
    case True
    define n1 where "n1 = n\<lparr>nt_sends := as, nt_errno := - a\<rparr>"
    have s: "sendmmsg h n = Inr (- 1, n1)" using a(1) True by (simp add: sendmmsg_def n1_def)
    show ?thesis
    proof (cases "- a = EINTR")
      case e: True
      then have c: "(- 1 :: int) = - 1 \<and> nt_errno n1 = EINTR" by (simp add: n1_def)
      have r: "sendmmsg_retry h n1 = Inr (r, n')" using "1.prems"(1) s c by (simp add: sendmmsg_retry.simps [of h n])
      have "0 \<notin> set (nt_sends n1)" using a(3) by (simp add: n1_def)
      from "1.IH" [OF s refl c r this "1.prems"(3)] show ?thesis by (auto simp: n1_def)
    next
      case False
      then have "r = - 1" "n' = n1" using "1.prems"(1) s by (auto simp: sendmmsg_retry.simps [of h n] n1_def)
      then show ?thesis using True a(3) by (auto simp: n1_def intro!: exI [of _ "- a"])
    qed
  next
    case False
    then have pos: "0 < a" using a(2) by simp
    then have "min a (int (length h)) \<noteq> - 1" by (simp add: min_def)
    then have "sendmmsg_retry h n = sendmmsg h n" using a(1) pos by (simp add: sendmmsg_retry.simps [of h n] sendmmsg_def)
    then have "r = min a (int (length h))" "n' = n\<lparr>nt_sends := as, nt_wire := nt_wire n @ take (nat a) h\<rparr>"
      using "1.prems"(1) a(1) pos by (simp_all add: sendmmsg_def)
    moreover have "take (nat (min a (int (length h)))) h = take (nat a) h" by (simp add: min_def nat_le_iff)
    ultimately show ?thesis using pos a(3) "1.prems"(3) by (simp add: min_def)
  qed
qed

section \<open>A round of sending\<close>

lemma mark_empty [simp]: "set_status f {} m = m"
  by (simp add: set_status_def)

lemma mark_mark: "A \<inter> B = {} \<Longrightarrow> set_status g B (set_status f A m) = set_status (\<lambda>q. if q \<in> A then f q else g q) (A \<union> B) m"
  by (auto simp: set_status_def fun_eq_iff)

lemma payloads_mark [simp]: "payloads (n\<lparr>nt_reqs := set_status f A m\<rparr>) qs = payloads (n\<lparr>nt_reqs := m\<rparr>) qs"
proof -
  have "payload (the (set_status f A m q)) = payload (the (m q))" for q by (cases "m q") (simp_all add: set_status_def payload_def)
  then show ?thesis by (simp add: payloads_def)
qed

lemma payloads_cong: "nt_reqs n' = nt_reqs n \<Longrightarrow> payloads n' qs = payloads n qs"
  by (simp add: payloads_def)

definition reqs_ok :: "'cb net \<Rightarrow> nat list \<Rightarrow> bool" where
  "reqs_ok n qs \<longleftrightarrow>
     (\<forall>q \<in> set qs. \<exists>r cb. nt_reqs n q = Some r \<and> good_addr (rq_addr r) \<and> rq_bufs r \<noteq> [] \<and> rq_cb r = Some cb)"

lemma reqs_ok_mark: "reqs_ok (n\<lparr>nt_reqs := set_status f A (nt_reqs n)\<rparr>) qs \<longleftrightarrow> reqs_ok n qs"
  unfolding reqs_ok_def by (auto simp: set_status_def)

lemma reqs_ok_cong: "nt_reqs n' = nt_reqs n \<Longrightarrow> reqs_ok n' qs \<longleftrightarrow> reqs_ok n qs"
  by (simp add: reqs_ok_def)

text \<open>The first \<open>k\<close> requests have got the states \<open>f\<close>; those of them that succeeded are on the wire.\<close>

definition sent_part :: "nat \<Rightarrow> 'cb uv_udp \<Rightarrow> nat \<Rightarrow> (nat \<Rightarrow> int) \<Rightarrow> bool \<Rightarrow> 'cb net \<Rightarrow> 'cb net \<Rightarrow> bool" where
  "sent_part p u k f b n n' \<longleftrightarrow>
     k \<le> length (ud_write_queue u) \<and> 0 \<notin> set (nt_sends n') \<and>
     n' = n\<lparr>nt_udps := (nt_udps n)(p \<mapsto> (moved k u)\<lparr>io_pending := b\<rparr>),
            nt_reqs := set_status f (set (take k (ud_write_queue u))) (nt_reqs n),
            nt_wire := nt_wire n @ map (Pair (io_fd u)) (payloads n (filter (\<lambda>q. 0 \<le> f q) (take k (ud_write_queue u)))),
            nt_sends := nt_sends n', nt_errno := nt_errno n', nt_pending_queue := nt_pending_queue n'\<rparr>"

lemma uv__io_feed_eq:
  assumes "nt_udps n p = Some u"
  shows "\<exists>q. uv__io_feed p n = Inr (n\<lparr>nt_udps := (nt_udps n)(p \<mapsto> u\<lparr>io_pending := True\<rparr>), nt_pending_queue := q\<rparr>)"
proof (cases "io_pending u")
  case True
  then have "(nt_udps n)(p \<mapsto> u\<lparr>io_pending := True\<rparr>) = nt_udps n" using assms by (simp add: fun_upd_idem)
  then show ?thesis using assms True by (auto simp: uv__io_feed_def udp_at_def intro!: exI [of _ "nt_pending_queue n"])
next
  case False
  then show ?thesis
    using assms by (intro exI [of _ "nt_pending_queue n @ [p]"]) (simp add: uv__io_feed_def udp_at_def set_udp_def)
qed

lemma sent_part_none:
  assumes "nt_udps n p = Some u" "0 \<notin> set ss"
  shows "sent_part p u 0 f (io_pending u) n (n\<lparr>nt_sends := ss, nt_errno := e\<rparr>)"
  using assms by (simp add: sent_part_def payloads_def fun_upd_idem)

text \<open>A batch has failed: nothing of it is on the wire.\<close>

lemma sent_part_failed:
  assumes "nt_udps n p = Some u" "distinct (ud_write_queue u)" "reqs_ok n (ud_write_queue u)" "0 < e" "0 \<notin> set ss"
    and "bindE (complete_loop (length (take 20 (ud_write_queue u))) (\<lambda>_. Inr (UV__ERR e)) p (n\<lparr>nt_sends := ss, nt_errno := e\<rparr>))
           (uv__io_feed p) = Inr n'"
  shows "sent_part p u (length (take 20 (ud_write_queue u))) (\<lambda>_. - e) True n n'"
proof -
  let ?k = "length (take 20 (ud_write_queue u))"
  define n1 where "n1 = n\<lparr>nt_sends := ss, nt_errno := e\<rparr>"
  define n2 where "n2 = n1\<lparr>nt_udps := (nt_udps n1)(p \<mapsto> moved ?k u),
    nt_reqs := set_status (\<lambda>_. - e) (set (take ?k (ud_write_queue u))) (nt_reqs n1)\<rparr>"
  have "complete_loop ?k (\<lambda>_. Inr (UV__ERR e)) p n1 = Inr n2"
    unfolding n2_def
  proof (rule complete_loop_eq)
    show "\<exists>r. nt_reqs n1 q = Some r \<and> Inr (UV__ERR e) = Inr (- e)" if "q \<in> set (take ?k (ud_write_queue u))" for q
    proof -
      have "q \<in> set (ud_write_queue u)" using that by (rule in_set_takeD)
      then show ?thesis using assms(3) by (auto simp: n1_def reqs_ok_def UV__ERR_def)
    qed
  qed (use assms in \<open>simp_all add: n1_def\<close>)
  moreover obtain q where "uv__io_feed p n2 = Inr (n2\<lparr>nt_udps := (nt_udps n2)(p \<mapsto> (moved ?k u)\<lparr>io_pending := True\<rparr>), nt_pending_queue := q\<rparr>)"
    using uv__io_feed_eq [of n2 p "moved ?k u"] by (auto simp: n2_def)
  ultimately have "n' = n2\<lparr>nt_udps := (nt_udps n2)(p \<mapsto> (moved ?k u)\<lparr>io_pending := True\<rparr>), nt_pending_queue := q\<rparr>"
    using assms(6) by (simp add: n1_def)
  then show ?thesis using assms(4,5) by (simp add: sent_part_def n2_def n1_def payloads_def)
qed

text \<open>A batch, or a part of it, has succeeded.\<close>

lemma first_len_ok: "rq_bufs r \<noteq> [] \<Longrightarrow> first_len r = Inr (int (length (hd (rq_bufs r))))"
  by (cases "rq_bufs r") (simp_all add: first_len_def arr_get_def)

lemma sent_part_success:
  assumes "nt_udps n p = Some u" "distinct (ud_write_queue u)" "reqs_ok n (ud_write_queue u)" "0 \<notin> set ss"
    and "0 < r" "r \<le> int (length (take 20 (ud_write_queue u)))"
    and h: "h = map (Pair (io_fd u)) (payloads n (take 20 (ud_write_queue u)))"
    and n1: "n1 = n\<lparr>nt_sends := ss, nt_errno := e, nt_wire := nt_wire n @ take (nat r) h\<rparr>"
  shows "\<exists>f n2. complete_loop (nat r) first_len p n1 = Inr n2 \<and> sent_part p u (nat r) f (io_pending u) n n2"
proof -
  have le: "nat r \<le> 20" "nat r \<le> length (ud_write_queue u)" using assms(6) by simp_all
  define f where "f = (\<lambda>q. int (length (hd (rq_bufs (the (nt_reqs n q))))))"
  define n2 where "n2 = n1\<lparr>nt_udps := (nt_udps n1)(p \<mapsto> moved (nat r) u),
    nt_reqs := set_status f (set (take (nat r) (ud_write_queue u))) (nt_reqs n1)\<rparr>"
  have "complete_loop (nat r) first_len p n1 = Inr n2"
    unfolding n2_def
  proof (rule complete_loop_eq)
    show "\<exists>r. nt_reqs n1 q = Some r \<and> first_len r = Inr (f q)" if "q \<in> set (take (nat r) (ud_write_queue u))" for q
    proof -
      have "q \<in> set (ud_write_queue u)" using that by (rule in_set_takeD)
      then obtain r where "nt_reqs n q = Some r" "rq_bufs r \<noteq> []" using assms(3) by (auto simp: reqs_ok_def)
      then show ?thesis by (simp add: n1 f_def first_len_ok)
    qed
  qed (use assms in \<open>simp_all add: n1\<close>)
  moreover have "take (nat r) h =
      map (Pair (io_fd u)) (payloads n (filter (\<lambda>q. 0 \<le> f q) (take (nat r) (ud_write_queue u))))"
    using le by (simp add: h take_map payloads_def f_def min_absorb1)
  then have "sent_part p u (nat r) f (io_pending u) n n2"
    using assms(4) le by (simp add: sent_part_def n2_def n1)
  ultimately show ?thesis by blast
qed

text \<open>Two parts one after another.\<close>

lemma sent_part_trans:
  assumes "sent_part p u k f b n n1" "sent_part p u1 k1 f1 b1 n1 n2"
    and "u1 = (moved k u)\<lparr>io_pending := b\<rparr>" "distinct (ud_write_queue u)"
  shows "sent_part p u (k + k1) (\<lambda>q. if q \<in> set (take k (ud_write_queue u)) then f q else f1 q) b1 n n2"
proof -
  define A where "A = take k (ud_write_queue u)"
  define B where "B = take k1 (drop k (ud_write_queue u))"
  let ?g = "\<lambda>q. if q \<in> set A then f q else f1 q"
  have AB: "take (k + k1) (ud_write_queue u) = A @ B" by (simp add: A_def B_def take_add)
  have d: "set A \<inter> set B = {}"
    using assms(4) AB by (metis append_take_drop_id distinct_append)
  have n1: "n1 = n\<lparr>nt_udps := (nt_udps n)(p \<mapsto> (moved k u)\<lparr>io_pending := b\<rparr>), nt_reqs := set_status f (set A) (nt_reqs n),
      nt_wire := nt_wire n @ map (Pair (io_fd u)) (payloads n (filter (\<lambda>q. 0 \<le> f q) A)),
      nt_sends := nt_sends n1, nt_errno := nt_errno n1, nt_pending_queue := nt_pending_queue n1\<rparr>"
    using assms(1) by (simp add: sent_part_def A_def)
  have n2: "n2 = n1\<lparr>nt_udps := (nt_udps n1)(p \<mapsto> (moved k1 u1)\<lparr>io_pending := b1\<rparr>), nt_reqs := set_status f1 (set B) (nt_reqs n1),
      nt_wire := nt_wire n1 @ map (Pair (io_fd u)) (payloads n1 (filter (\<lambda>q. 0 \<le> f1 q) B)),
      nt_sends := nt_sends n2, nt_errno := nt_errno n2, nt_pending_queue := nt_pending_queue n2\<rparr>"
    using assms(2,3) by (simp add: sent_part_def B_def moved_def)
  have k: "k + k1 \<le> length (ud_write_queue u)" "0 \<notin> set (nt_sends n2)"
    using assms(1-3) by (auto simp: sent_part_def moved_def)
  have m: "(moved k1 u1)\<lparr>io_pending := b1\<rparr> = (moved (k + k1) u)\<lparr>io_pending := b1\<rparr>"
    using assms(3) by (simp add: moved_def take_add add.commute)
  have pn: "payloads n1 qs = payloads n qs" for qs
  proof -
    have "payloads n1 qs = payloads (n\<lparr>nt_reqs := set_status f (set A) (nt_reqs n)\<rparr>) qs"
      using arg_cong [OF n1, of nt_reqs] by (intro payloads_cong) simp
    also have "\<dots> = payloads (n\<lparr>nt_reqs := nt_reqs n\<rparr>) qs" by (rule payloads_mark)
    also have "\<dots> = payloads n qs" by (rule payloads_cong) simp
    finally show ?thesis .
  qed
  have w: "filter (\<lambda>q. 0 \<le> ?g q) (A @ B) = filter (\<lambda>q. 0 \<le> f q) A @ filter (\<lambda>q. 0 \<le> f1 q) B"
    using d by (auto intro!: arg_cong2 [where f = "(@)"] filter_cong)
  have udps: "(nt_udps n1)(p \<mapsto> z) = (nt_udps n)(p \<mapsto> z)" for z using arg_cong [OF n1, of nt_udps] by simp
  have reqs: "set_status f1 (set B) (nt_reqs n1) = set_status ?g (set (A @ B)) (nt_reqs n)"
    using arg_cong [OF n1, of nt_reqs] by (simp add: mark_mark [OF d])
  have wire: "nt_wire n1 @ map (Pair (io_fd u)) (payloads n1 (filter (\<lambda>q. 0 \<le> f1 q) B)) =
      nt_wire n @ map (Pair (io_fd u)) (payloads n (filter (\<lambda>q. 0 \<le> ?g q) (A @ B)))"
    unfolding w pn using arg_cong [OF n1, of nt_wire] by (simp add: payloads_def)
  have over: "n1\<lparr>nt_udps := a, nt_reqs := a', nt_wire := c, nt_sends := d', nt_errno := e, nt_pending_queue := g\<rparr> =
      n\<lparr>nt_udps := a, nt_reqs := a', nt_wire := c, nt_sends := d', nt_errno := e, nt_pending_queue := g\<rparr>" for a a' c d' e g
    by (subst n1) simp
  show ?thesis
    unfolding sent_part_def AB A_def [symmetric]
    by (intro conjI k) (rule n2 [unfolded m udps reqs wire over])
qed

lemma sent_part_reqs:
  assumes "sent_part p u k f b n n'"
  shows "reqs_ok n' qs \<longleftrightarrow> reqs_ok n qs"
proof -
  have "nt_reqs n' = set_status f (set (take k (ud_write_queue u))) (nt_reqs n)"
    using arg_cong [of n' _ nt_reqs] assms unfolding sent_part_def by (elim conjE) (drule arg_cong [of n' _ nt_reqs], simp)
  then have "reqs_ok n' qs \<longleftrightarrow> reqs_ok (n\<lparr>nt_reqs := set_status f (set (take k (ud_write_queue u))) (nt_reqs n)\<rparr>) qs"
    by (intro reqs_ok_cong) simp
  then show ?thesis by (simp only: reqs_ok_mark)
qed

lemma sent_part_udp: "sent_part p u k f b n n' \<Longrightarrow> nt_udps n' p = Some ((moved k u)\<lparr>io_pending := b\<rparr>)"
  unfolding sent_part_def by (elim conjE) (drule arg_cong [of n' _ nt_udps], simp)

lemma write_queue_drain_part:
  "write_queue_drain p n = Inr n' \<Longrightarrow> nt_udps n p = Some u \<Longrightarrow> distinct (ud_write_queue u) \<Longrightarrow>
   reqs_ok n (ud_write_queue u) \<Longrightarrow> ud_write_queue u \<noteq> [] \<Longrightarrow> 0 \<notin> set (nt_sends n) \<Longrightarrow>
   \<exists>k f b. sent_part p u k f b n n' \<and> (k = length (ud_write_queue u) \<longrightarrow> b)"
proof (induction p n arbitrary: u rule: write_queue_drain.induct)
  case (1 p n)
  let ?pkts = "take 20 (ud_write_queue u)"
  define h where "h = map (Pair (io_fd u)) (payloads n ?pkts)"
  have u: "udp_at n p = Inr u" using "1.prems"(2) by (simp add: udp_at_def)
  have h: "mmsghdrs n (io_fd u) ?pkts = Inr h"
    unfolding h_def using "1.prems"(4) by (intro mmsghdrs_eq) (auto simp: reqs_ok_def dest: in_set_takeD)
  have ne: "h \<noteq> []" using "1.prems"(5) by (simp add: h_def payloads_def)
  obtain r n1 where s: "sendmmsg_retry h n = Inr (r, n1)"
    using "1.prems"(1) u h by (auto simp: write_queue_drain.simps [of p n] res_simps Let_def)
  note cases = sendmmsg_retry_cases [OF s "1.prems"(6) ne]
  have ss: "0 \<notin> set (nt_sends n1)" using cases by blast
  have lenh: "length h = length ?pkts" by (simp add: h_def payloads_def)
  from cases consider e where "r = - 1" "0 < e" "n1 = n\<lparr>nt_sends := nt_sends n1, nt_errno := e\<rparr>"
    | "0 < r" "r \<le> int (length ?pkts)"
      "n1 = n\<lparr>nt_sends := nt_sends n1, nt_errno := nt_errno n1, nt_wire := nt_wire n @ take (nat r) h\<rparr>"
    unfolding lenh by blast
  then show ?case
  proof cases
    case (1 e)
    have err: "nt_errno n1 = e" using arg_cong [OF 1(3), of nt_errno] by simp
    show ?thesis
    proof (cases "e = EAGAIN \<or> e = ENOBUFS")
      case True
      then have "n' = n1" using "1.prems"(1) u h s 1(1) err by (simp add: write_queue_drain.simps [of p n] Let_def)
      then have "sent_part p u 0 (\<lambda>_. 0) (io_pending u) n n'"
        using sent_part_none [OF "1.prems"(2) ss, of "\<lambda>_. 0" e] 1(3) by metis
      then show ?thesis using "1.prems"(5) by (intro exI conjI) auto
    next
      case False
      then have "bindE (complete_loop (length ?pkts) (\<lambda>_. Inr (UV__ERR e)) p n1) (uv__io_feed p) = Inr n'"
        using "1.prems"(1) u h s 1(1) err by (simp add: write_queue_drain.simps [of p n] Let_def)
      then have "sent_part p u (length ?pkts) (\<lambda>_. - e) True n n'"
        using sent_part_failed [OF "1.prems"(2-4) 1(2) ss] 1(3) by metis
      then show ?thesis by blast
    qed
  next
    case 2
    obtain f n2 where f: "complete_loop (nat r) first_len p n1 = Inr n2" "sent_part p u (nat r) f (io_pending u) n n2"
      using sent_part_success [OF "1.prems"(2-4) ss 2(1,2) h_def 2(3)] by blast
    define u2 where "u2 = moved (nat r) u"
    have u2: "nt_udps n2 p = Some u2" "udp_at n2 p = Inr u2"
      using sent_part_udp [OF f(2)] by (simp_all add: u2_def udp_at_def)
    have r1: "\<not> r < 1" using 2(1) by simp
    show ?thesis
    proof (cases "ud_write_queue u2 = []")
      case True
      then have "uv__io_feed p n2 = Inr n'"
        using "1.prems"(1) u h s r1 f(1) u2(2) by (simp add: write_queue_drain.simps [of p n] Let_def)
      then obtain q where q: "n' = n2\<lparr>nt_udps := (nt_udps n2)(p \<mapsto> u2\<lparr>io_pending := True\<rparr>), nt_pending_queue := q\<rparr>"
        using uv__io_feed_eq [OF u2(1)] by auto
      have part: "sent_part p u2 0 f True n2 n'"
        using f(2) by (simp add: q sent_part_def payloads_def)
      then have "sent_part p u (nat r + 0) (\<lambda>q. if q \<in> set (take (nat r) (ud_write_queue u)) then f q else f q) True n n'"
        using sent_part_trans [OF f(2) part _ "1.prems"(3)] by (simp add: u2_def)
      then show ?thesis by blast
    next
      case False
      then have w: "write_queue_drain p n2 = Inr n'"
        using "1.prems"(1) u h s r1 f(1) u2(2) by (simp add: write_queue_drain.simps [of p n] Let_def)
      have d: "distinct (ud_write_queue u2)" using "1.prems"(3) by (simp add: u2_def moved_def)
      have "reqs_ok n (ud_write_queue u2)"
        using "1.prems"(4) by (auto simp: u2_def moved_def reqs_ok_def dest: in_set_dropD)
      then have ok: "reqs_ok n2 (ud_write_queue u2)" using sent_part_reqs [OF f(2)] by simp
      have ss2: "0 \<notin> set (nt_sends n2)" using f(2) by (simp add: sent_part_def)
      obtain k f1 b where k: "sent_part p u2 k f1 b n2 n'" "k = length (ud_write_queue u2) \<longrightarrow> b"
        using "1.IH" [OF u refl h s refl r1 f(1) u2(2) False w u2(1) d ok False ss2] by blast
      have "sent_part p u (nat r + k) (\<lambda>q. if q \<in> set (take (nat r) (ud_write_queue u)) then f q else f1 q) b n n'"
        using sent_part_trans [OF f(2) k(1) _ "1.prems"(3)] by (simp add: u2_def)
      moreover have "nat r + k = length (ud_write_queue u) \<longrightarrow> b"
        using k(2) f(2) by (auto simp: u2_def moved_def sent_part_def)
      ultimately show ?thesis by blast
    qed
  qed
qed

section \<open>The callbacks\<close>

text \<open>A callback that notes the request and its result and frees it, as \<open>udp_on_send\<close> does.\<close>

definition frees_requests :: "((nat \<times> int) list, 'cb) udp_calls \<Rightarrow> bool" where
  "frees_requests calls \<longleftrightarrow>
     (\<forall>cb q st log n. call_send calls cb q st (log, n) = Inr (log @ [(q, st)], n\<lparr>nt_reqs := (nt_reqs n)(q := None)\<rparr>))"

definition result_of :: "'cb net \<Rightarrow> nat \<Rightarrow> int" where
  "result_of n q = min 0 (rq_status (the (nt_reqs n q)))"

definition queue_bytes :: "'cb net \<Rightarrow> nat list \<Rightarrow> u64" where
  "queue_bytes n qs = sum_list (map (\<lambda>q. uv__count_bufs (rq_bufs (the (nt_reqs n q)))) qs)"

definition called_back :: "nat \<Rightarrow> 'cb uv_udp \<Rightarrow> 'cb net \<Rightarrow> 'cb net" where
  "called_back p u n =
     n\<lparr>nt_active_reqs := nt_active_reqs n - of_nat (length (ud_completed_queue u)),
       nt_udps := (nt_udps n)(p \<mapsto> u\<lparr>ud_completed_queue := [],
         ud_send_queue_size := ud_send_queue_size u - queue_bytes n (ud_completed_queue u),
         ud_send_queue_count := ud_send_queue_count u - of_nat (length (ud_completed_queue u))\<rparr>),
       nt_reqs := (\<lambda>q. if q \<in> set (ud_completed_queue u) then None else nt_reqs n q)\<rparr>"

lemma completed_loop_eq:
  assumes "frees_requests calls"
  shows "nt_udps n p = Some u \<Longrightarrow> reqs_ok n (ud_completed_queue u) \<Longrightarrow> distinct (ud_completed_queue u) \<Longrightarrow>
   length (ud_completed_queue u) \<le> unat (nt_active_reqs n) \<Longrightarrow>
   completed_loop fuel calls p (log, n) =
     (if fuel \<le> length (ud_completed_queue u) then Inl Diverges
      else Inr (log @ map (\<lambda>q. (q, result_of n q)) (ud_completed_queue u), called_back p u n))"
proof (induction "ud_completed_queue u" arbitrary: fuel log n u)
  case Nil
  then show ?case
    by (cases fuel) (simp_all add: udp_at_def called_back_def queue_bytes_def fun_upd_idem)
next
  case (Cons q qs)
  show ?case
  proof (cases fuel)
    case (Suc k)
    have cq: "ud_completed_queue u = q # qs" using Cons.hyps(2) by simp
    obtain r cb where r: "nt_reqs n q = Some r" "rq_cb r = Some cb"
      using Cons.prems(2) unfolding cq by (auto simp: reqs_ok_def)
    define u1 where "u1 = u\<lparr>ud_completed_queue := qs,
      ud_send_queue_size := ud_send_queue_size u - uv__count_bufs (rq_bufs r),
      ud_send_queue_count := ud_send_queue_count u - 1\<rparr>"
    define n1 where "n1 = n\<lparr>nt_active_reqs := nt_active_reqs n - 1, nt_udps := (nt_udps n)(p \<mapsto> u1), nt_reqs := (nt_reqs n)(q := None)\<rparr>"
    have q: "q \<notin> set qs" using Cons.prems(3) cq by simp
    have pos: "0 < unat (nt_active_reqs n)" using Cons.prems(4) cq by simp
    then have act: "nt_active_reqs n > 0" "unat (nt_active_reqs n - 1) = unat (nt_active_reqs n) - 1"
      by (simp_all add: word_less_nat_alt unat_sub word_le_nat_alt)
    have res: "(if rq_status r \<ge> 0 then 0 else rq_status r) = result_of n q" using r(1) by (simp add: result_of_def)
    have step: "completed_loop fuel calls p (log, n) = completed_loop k calls p (log @ [(q, result_of n q)], n1)"
      using Suc Cons.prems(1) cq r act(1) assms
      by (simp add: udp_at_def req_at_def uv__req_unregister_def Let_def res frees_requests_def
          set_udp_def set_req_def n1_def u1_def)
    have same: "result_of n1 x = result_of n x" "nt_reqs n1 x = nt_reqs n x" if "x \<in> set qs" for x
    proof -
      have "x \<noteq> q" using that q by blast
      then show "result_of n1 x = result_of n x" "nt_reqs n1 x = nt_reqs n x" by (simp_all add: n1_def result_of_def)
    qed
    have "completed_loop k calls p (log @ [(q, result_of n q)], n1) =
      (if k \<le> length qs then Inl Diverges
       else Inr ((log @ [(q, result_of n q)]) @ map (\<lambda>q. (q, result_of n1 q)) qs, called_back p u1 n1))"
    proof -
      have "qs = ud_completed_queue u1" by (simp add: u1_def)
      moreover have "nt_udps n1 p = Some u1" by (simp add: n1_def)
      moreover have "reqs_ok n1 qs" using Cons.prems(2) same cq by (auto simp: reqs_ok_def)
      moreover have "distinct qs" using Cons.prems(3) cq by simp
      moreover have "length qs \<le> unat (nt_active_reqs n1)" using Cons.prems(4) cq act(2) by (simp add: n1_def)
      ultimately show ?thesis using Cons.hyps(1) [of u1 n1 k "log @ [(q, result_of n q)]"] by simp
    qed
    moreover have "map (\<lambda>q. (q, result_of n1 q)) qs = map (\<lambda>q. (q, result_of n q)) qs" using same(1) by simp
    moreover have "queue_bytes n1 qs = queue_bytes n qs"
      unfolding queue_bytes_def using same(2) by (intro arg_cong [where f = sum_list] map_cong) simp_all
    then have "called_back p u1 n1 = called_back p u n"
      using cq r(1) by (simp add: called_back_def u1_def) (simp add: n1_def queue_bytes_def fun_eq_iff algebra_simps)
    ultimately show ?thesis using step Suc cq by simp
  qed simp
qed

end
