(* ===== verification/Uv_Udp_Order.thy ===== *)
theory Uv_Udp_Order
  imports Uv_Udp_Correct
begin

text \<open>The steps of a socket keep its requests in order.\<close>

unbundle bit_operations_syntax

section \<open>What the other operations leave alone\<close>

definition core_udp :: "'cb uv_udp \<Rightarrow> bool \<times> bool \<times> u64 \<times> u64 \<times> nat list \<times> nat list \<times> bool" where
  "core_udp u = (ud_type_udp u, ud_processing u, ud_send_queue_size u, ud_send_queue_count u, ud_write_queue u,
     ud_completed_queue u, io_pending u)"

definition core :: "nat \<Rightarrow> 'cb net \<Rightarrow> _" where
  "core p n = (map_option core_udp (nt_udps n p), nt_reqs n, nt_wire n, nt_sends n, nt_active_reqs n)"

definition write_armed :: "nat \<Rightarrow> 'cb net \<Rightarrow> bool" where
  "write_armed p n \<longleftrightarrow> (\<exists>u. nt_udps n p = Some u \<and> io_pevents u AND POLLOUT \<noteq> 0)"

lemma udp_at_Inr [simp]: "udp_at n p = Inr u \<longleftrightarrow> nt_udps n p = Some u"
  by (simp add: udp_at_def or_fail_eq_Inr_iff)

lemma set_udp_simps [simp]:
  "nt_udps (set_udp p u n) = (nt_udps n)(p \<mapsto> u)"
  "nt_reqs (set_udp p u n) = nt_reqs n"
  "nt_wire (set_udp p u n) = nt_wire n"
  "nt_sends (set_udp p u n) = nt_sends n"
  "nt_active_reqs (set_udp p u n) = nt_active_reqs n"
  "nt_calls (set_udp p u n) = nt_calls n"
  "nt_errno (set_udp p u n) = nt_errno n"
  "nt_watchers (set_udp p u n) = nt_watchers n"
  by (simp_all add: set_udp_def)

lemma core_simps [simp]:
  "core p (n\<lparr>nt_watchers := x0\<rparr>) = core p n"
  "core p (n\<lparr>nt_watcher_queue := x1\<rparr>) = core p n"
  "core p (n\<lparr>nt_nfds := x2\<rparr>) = core p n"
  "core p (n\<lparr>nt_active_handles := x3\<rparr>) = core p n"
  "core p (n\<lparr>nt_calls := x4\<rparr>) = core p n"
  "core p (n\<lparr>nt_errno := x5\<rparr>) = core p n"
  "core p (n\<lparr>nt_pending_queue := x6\<rparr>) = core p n"
  "core p (n\<lparr>nt_running_queue := x7\<rparr>) = core p n"
  "core p (n\<lparr>nt_handle_queue := x8\<rparr>) = core p n"
  "core p (n\<lparr>nt_closing_handles := x9\<rparr>) = core p n"
  "core p (n\<lparr>nt_no_memory := x10\<rparr>) = core p n"
  "core p (n\<lparr>nt_recvs := x11\<rparr>) = core p n"
  "core p (n\<lparr>nt_mrecvs := x12\<rparr>) = core p n"
  by (simp_all add: core_def)

lemma armed_simps [simp]:
  "write_armed p (n\<lparr>nt_watchers := x0\<rparr>) \<longleftrightarrow> write_armed p n"
  "write_armed p (n\<lparr>nt_watcher_queue := x1\<rparr>) \<longleftrightarrow> write_armed p n"
  "write_armed p (n\<lparr>nt_nfds := x2\<rparr>) \<longleftrightarrow> write_armed p n"
  "write_armed p (n\<lparr>nt_active_handles := x3\<rparr>) \<longleftrightarrow> write_armed p n"
  "write_armed p (n\<lparr>nt_calls := x4\<rparr>) \<longleftrightarrow> write_armed p n"
  "write_armed p (n\<lparr>nt_errno := x5\<rparr>) \<longleftrightarrow> write_armed p n"
  "write_armed p (n\<lparr>nt_pending_queue := x6\<rparr>) \<longleftrightarrow> write_armed p n"
  "write_armed p (n\<lparr>nt_running_queue := x7\<rparr>) \<longleftrightarrow> write_armed p n"
  "write_armed p (n\<lparr>nt_handle_queue := x8\<rparr>) \<longleftrightarrow> write_armed p n"
  "write_armed p (n\<lparr>nt_closing_handles := x9\<rparr>) \<longleftrightarrow> write_armed p n"
  "write_armed p (n\<lparr>nt_no_memory := x10\<rparr>) \<longleftrightarrow> write_armed p n"
  "write_armed p (n\<lparr>nt_recvs := x11\<rparr>) \<longleftrightarrow> write_armed p n"
  "write_armed p (n\<lparr>nt_mrecvs := x12\<rparr>) \<longleftrightarrow> write_armed p n"
  by (simp_all add: write_armed_def)

lemma core_set_udp: "nt_udps n p = Some u \<Longrightarrow> core_udp u' = core_udp u \<Longrightarrow> core p (set_udp p u' n) = core p n"
  by (simp add: core_def)

lemma armed_set_udp [simp]: "write_armed p (set_udp p u n) \<longleftrightarrow> io_pevents u AND POLLOUT \<noteq> 0"
  by (simp add: write_armed_def)

lemma armed_Some: "nt_udps n p = Some u \<Longrightarrow> write_armed p n \<longleftrightarrow> io_pevents u AND POLLOUT \<noteq> 0"
  by (simp add: write_armed_def)

lemma core_udp_simps [simp]:
  "core_udp (u\<lparr>ud_active := b\<rparr>) = core_udp u" "core_udp (u\<lparr>io_fd := fd\<rparr>) = core_udp u"
  "core_udp (u\<lparr>io_events := e\<rparr>) = core_udp u" "core_udp (u\<lparr>io_pevents := e\<rparr>) = core_udp u"
  "core_udp (u\<lparr>ud_ipv6 := b\<rparr>) = core_udp u" "core_udp (u\<lparr>ud_bound := b\<rparr>) = core_udp u"
  by (simp_all add: core_udp_def)

lemma udp_handle_start_core:
  "udp_handle_start p n = Inr n' \<Longrightarrow> core p n' = core p n \<and> (write_armed p n' \<longleftrightarrow> write_armed p n)"
  by (auto simp: udp_handle_start_def res_simps Let_def core_set_udp armed_Some split: if_splits)

lemma udp_handle_stop_core:
  "udp_handle_stop p n = Inr n' \<Longrightarrow> core p n' = core p n \<and> (write_armed p n' \<longleftrightarrow> write_armed p n)"
  by (auto simp: udp_handle_stop_def res_simps Let_def core_set_udp armed_Some split: if_splits)

lemma maybe_resize_core [simp]: "core p (maybe_resize k n) = core p n" "write_armed p (maybe_resize k n) \<longleftrightarrow> write_armed p n"
  by (simp_all add: maybe_resize_def Let_def)

lemma POLLOUT_nonzero [simp]: "POLLOUT \<noteq> 0"
  by (simp add: POLLOUT_def)

lemma uv__io_start_core: "uv__io_start p POLLOUT n = Inr n' \<Longrightarrow> core p n' = core p n \<and> write_armed p n'"
  by (auto simp: uv__io_start_def res_simps Let_def core_set_udp or_bit_set split: if_splits)

lemma uv__io_stop_core: "uv__io_stop p e n = Inr n' \<Longrightarrow> core p n' = core p n"
  by (auto simp: uv__io_stop_def res_simps Let_def core_set_udp split: if_splits)

section \<open>Binding leaves the queues alone\<close>

text \<open>A step that answers with a number and leaves a part \<open>g\<close> of the state as it is.\<close>

definition leaves :: "('cb net \<Rightarrow> 'b) \<Rightarrow> 'cb net \<Rightarrow> ('a \<times> 'cb net) res \<Rightarrow> bool" where
  "leaves g n r \<longleftrightarrow> (\<forall>x n'. r = Inr (x, n') \<longrightarrow> g n' = g n)"

lemma keeps_Inr: "g n' = g n \<Longrightarrow> leaves g n (Inr (x, n'))"
  by (simp add: leaves_def)

lemma keeps_refl: "leaves g n (Inr (x, n))"
  by (simp add: leaves_def)

lemma keeps_Inl [simp]: "leaves g n (Inl e)"
  by (simp add: leaves_def)

lemma keeps_if: "(b \<Longrightarrow> leaves g n x) \<Longrightarrow> (\<not> b \<Longrightarrow> leaves g n y) \<Longrightarrow> leaves g n (if b then x else y)"
  by simp

lemma keeps_bind:
  "leaves g n r \<Longrightarrow> (\<And>x n'. r = Inr (x, n') \<Longrightarrow> leaves g n' (f x n')) \<Longrightarrow> leaves g n (bindE r (\<lambda>(x, n). f x n))"
  by (cases r) (auto simp: leaves_def)

lemma keeps_bind_pure: "(\<And>x. r = Inr x \<Longrightarrow> leaves g n (f x)) \<Longrightarrow> leaves g n (bindE r f)"
  by (cases r) (auto simp: leaves_def)

lemma keeps_unless_err:
  "leaves g n r \<Longrightarrow> (\<And>n'. r = Inr (0, n') \<Longrightarrow> leaves g n' (f n')) \<Longrightarrow> leaves g n (unless_err r f)"
  unfolding unless_err_def by (intro keeps_bind keeps_if keeps_refl) auto

text \<open>System calls keep all but their answers and \<open>errno\<close>.\<close>

definition quiet :: "('cb net \<Rightarrow> 'b) \<Rightarrow> bool" where
  "quiet g \<longleftrightarrow> (\<forall>n rs e. g (n\<lparr>nt_calls := rs\<rparr>) = g n \<and> g (n\<lparr>nt_errno := e\<rparr>) = g n)"

lemma sys_call_keeps: "quiet g \<Longrightarrow> leaves g n (sys_call n)"
  by (auto simp: leaves_def sys_call_def Let_def quiet_def split: list.splits if_splits)

lemma sys_retry_keeps: "quiet g \<Longrightarrow> leaves g n (sys_retry n)"
proof (induction n rule: sys_retry.induct)
  case (1 n)
  show ?case
    unfolding sys_retry.simps [of n]
    by (intro keeps_bind keeps_if keeps_refl sys_call_keeps "1.prems") (metis "1.IH" "1.prems")
qed

lemma uv__nonblock_keeps: "quiet g \<Longrightarrow> leaves g n (uv__nonblock n)"
  unfolding uv__nonblock_def by (intro keeps_bind keeps_refl sys_retry_keeps)

lemma uv__cloexec_keeps: "quiet g \<Longrightarrow> leaves g n (uv__cloexec n)"
  unfolding uv__cloexec_def by (intro keeps_bind keeps_refl sys_retry_keeps)

lemma uv__close_keeps: "quiet g \<Longrightarrow> leaves g n (bindE (uv__close fd n) (\<lambda>n. Inr (x, n)))"
  using sys_call_keeps [of g n] by (auto simp: uv__close_def leaves_def res_simps) (simp_all add: quiet_def)

lemma uv__socket_keeps: "quiet g \<Longrightarrow> leaves g n (uv__socket n)"
  unfolding uv__socket_def
  by (intro keeps_bind keeps_if keeps_refl sys_call_keeps uv__nonblock_keeps uv__cloexec_keeps uv__close_keeps)

definition io_core :: "nat \<Rightarrow> 'cb net \<Rightarrow> _" where
  "io_core p n = (core p n, write_armed p n)"

lemma quiet_io_core: "quiet (io_core p)"
  by (simp add: quiet_def io_core_def)

lemma quiet_udps: "quiet nt_udps"
  by (simp add: quiet_def)

lemma set_udp_keeps:
  "nt_udps n p = Some u \<Longrightarrow> core_udp u' = core_udp u \<Longrightarrow> io_pevents u' = io_pevents u \<Longrightarrow>
   leaves (io_core p) n (Inr (x, set_udp p u' n))"
  by (simp add: leaves_def io_core_def core_set_udp armed_Some)

lemma uv__udp_bind_keeps: "leaves (io_core p) n (uv__udp_bind p addr flags n)"
proof -
  note q = quiet_io_core [of p]
  have open_socket:
    "leaves (io_core p) n (bindE (uv__socket n) (\<lambda>(err, n). if err < 0 then Inr (err, n) else Inr (0, set_udp p (u\<lparr>io_fd := err\<rparr>) n)))"
    if "nt_udps n p = Some u" for u
  proof (intro keeps_bind keeps_if keeps_refl uv__socket_keeps q set_udp_keeps [of _ _ u])
    fix fd n' assume "uv__socket n = Inr (fd, n')"
    then show "nt_udps n' p = Some u" using uv__socket_keeps [OF quiet_udps, of n] that by (simp add: leaves_def)
  qed simp_all
  have bound: "leaves (io_core p) n (bindE (udp_at n p) (\<lambda>u. Inr (0, set_udp p (u\<lparr>ud_ipv6 := b u, ud_bound := True\<rparr>) n)))"
    for n :: "'a net" and b
    by (rule keeps_bind_pure) (auto intro: set_udp_keeps)
  show ?thesis
    unfolding uv__udp_bind_def uv__set_recverr_def uv__set_reuse_def
    by (intro keeps_bind keeps_if keeps_refl keeps_unless_err sys_call_keeps q bound keeps_bind_pure open_socket) auto
qed

lemma uv__udp_maybe_deferred_bind_keeps: "leaves (io_core p) n (uv__udp_maybe_deferred_bind p domain flags n)"
  unfolding uv__udp_maybe_deferred_bind_def
  by (intro keeps_bind_pure keeps_if keeps_refl uv__udp_bind_keeps)

section \<open>Runs of a socket\<close>

type_synonym accepted = "(nat \<times> udp_addr option \<times> byte list list) list"

text \<open>The datagrams of the requests whose result is known to be a success.\<close>

definition handed_over :: "accepted \<Rightarrow> int list \<Rightarrow> (udp_addr option \<times> byte list list) list" where
  "handed_over acc rs = map (\<lambda>x. snd (fst x)) (filter (\<lambda>x. snd x = 0) (zip acc rs))"

text \<open>
  What the program asked to send, what it was called back with, and the sockets: requests are called back in the
  order in which they were made, and what was sent are the datagrams of those that did not fail.
\<close>

definition socket_queues :: "nat \<Rightarrow> 'cb net \<Rightarrow> (nat list \<times> nat list) option" where
  "socket_queues p n = map_option (\<lambda>u. (ud_completed_queue u, ud_write_queue u)) (nt_udps n p)"

definition queues_ok :: "'cb uv_udp \<Rightarrow> 'cb net \<Rightarrow> bool" where
  "queues_ok u n \<longleftrightarrow>
     (let qs = ud_completed_queue u @ ud_write_queue u in
      \<not> ud_processing u \<and> distinct qs \<and> reqs_ok n qs \<and> length qs \<le> unat (nt_active_reqs n) \<and>
      ud_send_queue_count u = of_nat (length qs) \<and> ud_send_queue_size u = queue_bytes n qs \<and> 0 \<notin> set (nt_sends n))"

definition in_order :: "'cb uv_udp \<Rightarrow> accepted \<Rightarrow> (nat \<times> int) list \<Rightarrow> 'cb net \<Rightarrow> bool" where
  "in_order u acc log n \<longleftrightarrow>
     map fst acc = map fst log @ ud_completed_queue u @ ud_write_queue u \<and>
     map snd (drop (length log) acc) = payloads n (ud_completed_queue u @ ud_write_queue u) \<and>
     map snd (nt_wire n) = handed_over acc (map snd log @ map (result_of n) (ud_completed_queue u))"

definition waits_armed :: "nat \<Rightarrow> 'cb uv_udp \<Rightarrow> 'cb net \<Rightarrow> bool" where
  "waits_armed p u n \<longleftrightarrow>
     (ud_write_queue u \<noteq> [] \<longrightarrow> write_armed p n) \<and> (ud_completed_queue u \<noteq> [] \<longrightarrow> io_pending u \<or> write_armed p n)"

definition udp_inv :: "nat \<Rightarrow> accepted \<Rightarrow> (nat \<times> int) list \<Rightarrow> 'cb net \<Rightarrow> bool" where
  "udp_inv p acc log n \<longleftrightarrow>
     (\<exists>u. nt_udps n p = Some u \<and> queues_ok u n \<and> in_order u acc log n \<and> waits_armed p u n)"

text \<open>The three parts depend on the core of the socket.\<close>

lemma core_eqD:
  assumes "core p n' = core p n" "nt_udps n p = Some u"
  obtains u' where "nt_udps n' p = Some u'" "core_udp u' = core_udp u" "nt_reqs n' = nt_reqs n" "nt_wire n' = nt_wire n"
    "nt_sends n' = nt_sends n" "nt_active_reqs n' = nt_active_reqs n"
  using assms that by (cases "nt_udps n' p") (auto simp: core_def)

lemma core_queues_ok:
  assumes "core_udp u' = core_udp u" "nt_reqs n' = nt_reqs n" "nt_sends n' = nt_sends n" "nt_active_reqs n' = nt_active_reqs n"
  shows "queues_ok u' n' \<longleftrightarrow> queues_ok u n"
  using assms by (simp add: queues_ok_def core_udp_def Let_def queue_bytes_def reqs_ok_def)

lemma core_in_order:
  assumes "core_udp u' = core_udp u" "nt_reqs n' = nt_reqs n" "nt_wire n' = nt_wire n"
  shows "in_order u' acc log n' \<longleftrightarrow> in_order u acc log n"
proof -
  have "result_of n' = result_of n" using assms by (simp add: result_of_def fun_eq_iff)
  then show ?thesis using assms by (simp add: in_order_def core_udp_def payloads_def)
qed

lemma queues_okD:
  assumes "queues_ok u n"
  shows "\<not> ud_processing u" "distinct (ud_completed_queue u)" "distinct (ud_write_queue u)"
    "set (ud_completed_queue u) \<inter> set (ud_write_queue u) = {}" "reqs_ok n (ud_completed_queue u)"
    "reqs_ok n (ud_write_queue u)" "length (ud_completed_queue u) + length (ud_write_queue u) \<le> unat (nt_active_reqs n)"
    "0 \<notin> set (nt_sends n)"
    "ud_send_queue_count u = of_nat (length (ud_completed_queue u)) + of_nat (length (ud_write_queue u))"
    "ud_send_queue_size u = queue_bytes n (ud_completed_queue u) + queue_bytes n (ud_write_queue u)"
  using assms by (auto simp: queues_ok_def Let_def reqs_ok_def queue_bytes_def)

section \<open>Sending keeps the order\<close>

lemma zip_take_left: "length rs \<le> k \<Longrightarrow> zip (take k xs) rs = zip xs rs"
proof (induction xs rs arbitrary: k rule: list_induct2')
  case (4 x xs r rs)
  then show ?case by (cases k) simp_all
qed simp_all

lemma delivered_take: "length rs \<le> k \<Longrightarrow> handed_over (take k acc) rs = handed_over acc rs"
  by (simp add: handed_over_def zip_take_left)

lemma delivered_snoc: "length rs \<le> length acc \<Longrightarrow> handed_over (acc @ [x]) rs = handed_over acc rs"
  using delivered_take [of rs "length acc" "acc @ [x]"] by simp

lemma delivered_append:
  "length rs \<le> length acc \<Longrightarrow> handed_over acc (rs @ rs') = handed_over acc rs @ handed_over (drop (length rs) acc) rs'"
  by (simp add: handed_over_def zip_append2 zip_take_left)

lemma delivered_map:
  "map snd acc = payloads n (qs @ qs') \<Longrightarrow> handed_over acc (map g qs) = payloads n (filter (\<lambda>q. g q = 0) qs)"
proof (induction qs arbitrary: acc)
  case (Cons q qs)
  then obtain a as where "acc = a # as" "snd a = payload (the (nt_reqs n q))" "map snd as = payloads n (qs @ qs')"
    by (auto simp: payloads_def)
  then show ?case using Cons.IH by (simp add: handed_over_def payloads_def)
qed (simp add: handed_over_def payloads_def)

lemma sent_part_fields:
  assumes "sent_part p u k f b n n'"
  shows "nt_reqs n' = set_status f (set (take k (ud_write_queue u))) (nt_reqs n)"
    "nt_wire n' = nt_wire n @ map (Pair (io_fd u)) (payloads n (filter (\<lambda>q. 0 \<le> f q) (take k (ud_write_queue u))))"
    "nt_active_reqs n' = nt_active_reqs n" "nt_udps n' p = Some ((moved k u)\<lparr>io_pending := b\<rparr>)" "0 \<notin> set (nt_sends n')"
    "k \<le> length (ud_write_queue u)"
proof -
  have e: "n' = n\<lparr>nt_udps := (nt_udps n)(p \<mapsto> (moved k u)\<lparr>io_pending := b\<rparr>),
      nt_reqs := set_status f (set (take k (ud_write_queue u))) (nt_reqs n),
      nt_wire := nt_wire n @ map (Pair (io_fd u)) (payloads n (filter (\<lambda>q. 0 \<le> f q) (take k (ud_write_queue u)))),
      nt_sends := nt_sends n', nt_errno := nt_errno n', nt_pending_queue := nt_pending_queue n'\<rparr>"
    using assms unfolding sent_part_def by blast
  show "nt_reqs n' = set_status f (set (take k (ud_write_queue u))) (nt_reqs n)" using arg_cong [OF e, of nt_reqs] by simp
  show "nt_wire n' = nt_wire n @ map (Pair (io_fd u)) (payloads n (filter (\<lambda>q. 0 \<le> f q) (take k (ud_write_queue u))))"
    using arg_cong [OF e, of nt_wire] by simp
  show "nt_active_reqs n' = nt_active_reqs n" using arg_cong [OF e, of nt_active_reqs] by simp
  show "nt_udps n' p = Some ((moved k u)\<lparr>io_pending := b\<rparr>)" using arg_cong [OF e, of nt_udps] by simp
  show "0 \<notin> set (nt_sends n')" "k \<le> length (ud_write_queue u)" using assms unfolding sent_part_def by blast+
qed

lemma queue_bytes_mark: "nt_reqs n' = set_status f A (nt_reqs n) \<Longrightarrow> queue_bytes n' qs = queue_bytes n qs"
proof -
  assume m: "nt_reqs n' = set_status f A (nt_reqs n)"
  have "rq_bufs (the (nt_reqs n' q)) = rq_bufs (the (nt_reqs n q))" for q
    unfolding m by (cases "nt_reqs n q") (simp_all add: set_status_def)
  then show ?thesis by (simp add: queue_bytes_def)
qed

lemma payloads_mark': "nt_reqs n' = set_status f A (nt_reqs n) \<Longrightarrow> payloads n' qs = payloads n qs"
proof -
  assume m: "nt_reqs n' = set_status f A (nt_reqs n)"
  have "payload (the (nt_reqs n' q)) = payload (the (nt_reqs n q))" for q
    unfolding m by (cases "nt_reqs n q") (simp_all add: set_status_def payload_def)
  then show ?thesis by (simp add: payloads_def)
qed

lemma result_of_mark:
  assumes "nt_reqs n' = set_status f A (nt_reqs n)" "nt_reqs n q = Some r"
  shows "result_of n' q = (if q \<in> A then min 0 (f q) else result_of n q)"
  using assms by (simp add: result_of_def set_status_def)

lemma queues_ok_sent:
  assumes "queues_ok u n" "sent_part p u k f b n n'"
  shows "queues_ok ((moved k u)\<lparr>io_pending := b\<rparr>) n'"
proof -
  let ?A = "take k (ud_write_queue u)" and ?B = "drop k (ud_write_queue u)"
  note s = sent_part_fields [OF assms(2)] and q = queues_okD [OF assms(1)]
  have w: "ud_write_queue u = ?A @ ?B" by simp
  have "distinct (ud_completed_queue u @ ?A @ ?B)" using q(2,3,4) by simp
  moreover have "reqs_ok n' (ud_completed_queue u @ ?A @ ?B)"
    unfolding sent_part_reqs [OF assms(2)] using q(5,6) by (auto simp: reqs_ok_def)
  moreover have "queue_bytes n' (ud_completed_queue u @ ?A @ ?B) = ud_send_queue_size u"
    using q(10) queue_bytes_mark [OF s(1)] by (simp add: queue_bytes_def)
  ultimately show ?thesis
    using assms(1) s(3,5) by (simp add: queues_ok_def Let_def moved_def)
qed

lemma in_order_sent:
  assumes "queues_ok u n" "in_order u acc log n" "sent_part p u k f b n n'"
  shows "in_order ((moved k u)\<lparr>io_pending := b\<rparr>) acc log n'"
proof -
  let ?C = "ud_completed_queue u" and ?A = "take k (ud_write_queue u)" and ?B = "drop k (ud_write_queue u)"
  note s = sent_part_fields [OF assms(3)] and q = queues_okD [OF assms(1)]
  have fst: "map fst acc = map fst log @ ?C @ ?A @ ?B"
    and snd: "map snd (drop (length log) acc) = payloads n ?C @ payloads n (?A @ ?B)"
    and wire: "map snd (nt_wire n) = handed_over acc (map snd log @ map (result_of n) ?C)"
    using assms(2) by (simp_all add: in_order_def payloads_def)
  have len: "length log + length ?C \<le> length acc" using arg_cong [OF fst, of length] by simp
  have "result_of n' x = result_of n x" if "x \<in> set ?C" for x
  proof -
    have "x \<notin> set ?A" using that q(4) by (auto dest: in_set_takeD)
    moreover obtain r where "nt_reqs n x = Some r" using q(5) \<open>x \<in> set ?C\<close> by (auto simp: reqs_ok_def)
    ultimately show ?thesis using result_of_mark [OF s(1)] by simp
  qed
  then have C: "map (result_of n') ?C = map (result_of n) ?C" by simp
  have "result_of n' x = min 0 (f x)" if "x \<in> set ?A" for x
  proof -
    have "x \<in> set (ud_write_queue u)" using that by (rule in_set_takeD)
    then obtain r where "nt_reqs n x = Some r" using q(6) by (auto simp: reqs_ok_def)
    then show ?thesis using result_of_mark [OF s(1)] that by simp
  qed
  then have A: "map (result_of n') ?A = map (\<lambda>x. min 0 (f x)) ?A" by simp
  have "map snd (drop (length log + length ?C) acc) = payloads n (?A @ ?B)"
    using arg_cong [OF snd, of "drop (length ?C)"] by (simp add: drop_map payloads_def add.commute)
  then have "handed_over (drop (length log + length ?C) acc) (map (\<lambda>x. min 0 (f x)) ?A) =
      payloads n (filter (\<lambda>x. min 0 (f x) = 0) ?A)" by (rule delivered_map)
  also have "(\<lambda>x. min 0 (f x) = 0) = (\<lambda>x. 0 \<le> f x)" by (auto simp: fun_eq_iff)
  finally have wire': "map snd (nt_wire n') = handed_over acc ((map snd log @ map (result_of n) ?C) @ map (\<lambda>x. min 0 (f x)) ?A)"
    using len s(2) wire by (simp add: delivered_append payloads_def comp_def add.commute [of "length log"])
  have "map snd (nt_wire n') = handed_over acc (map snd log @ map (result_of n') (?C @ ?A))"
    unfolding map_append C A using wire' by (simp only: append_assoc)
  moreover have "map snd (drop (length log) acc) = payloads n' ((?C @ ?A) @ ?B)"
    unfolding payloads_mark' [OF s(1)] using snd by (simp add: payloads_def)
  moreover have "map fst acc = map fst log @ (?C @ ?A) @ ?B" using fst by simp
  ultimately show ?thesis unfolding in_order_def by (simp add: moved_def)
qed

lemma sendmsg_keeps_order:
  assumes "uv__udp_sendmsg p n = Inr n'" "nt_udps n p = Some u" "queues_ok u n" "in_order u acc log n"
  obtains u' where "nt_udps n' p = Some u'" "queues_ok u' n'" "in_order u' acc log n'" "write_armed p n' \<longleftrightarrow> write_armed p n"
    "ud_write_queue u \<noteq> [] \<and> ud_write_queue u' = [] \<longrightarrow> io_pending u'"
proof (cases "ud_write_queue u = []")
  case True
  then have "n' = n" using assms(1,2) by (simp add: uv__udp_sendmsg_def udp_at_def)
  then show thesis using that assms True by blast
next
  case False
  then have "write_queue_drain p n = Inr n'" using assms(1,2) by (simp add: uv__udp_sendmsg_def udp_at_def)
  then obtain k f b where s: "sent_part p u k f b n n'" "k = length (ud_write_queue u) \<longrightarrow> b"
    using write_queue_drain_part assms(2) queues_okD [OF assms(3)] False by blast
  show thesis
  proof (rule that)
    show "nt_udps n' p = Some ((moved k u)\<lparr>io_pending := b\<rparr>)" using s(1) by (rule sent_part_fields)
    show "queues_ok ((moved k u)\<lparr>io_pending := b\<rparr>) n'" by (rule queues_ok_sent [OF assms(3) s(1)])
    show "in_order ((moved k u)\<lparr>io_pending := b\<rparr>) acc log n'" by (rule in_order_sent [OF assms(3,4) s(1)])
    show "write_armed p n' \<longleftrightarrow> write_armed p n" using sent_part_fields(4) [OF s(1)] assms(2) by (simp add: write_armed_def moved_def)
    show "ud_write_queue u \<noteq> [] \<and> ud_write_queue ((moved k u)\<lparr>io_pending := b\<rparr>) = [] \<longrightarrow>
        io_pending ((moved k u)\<lparr>io_pending := b\<rparr>)"
      using s(2) sent_part_fields(6) [OF s(1)] by (simp add: moved_def)
  qed
qed

section \<open>Calling back keeps the order\<close>

lemma called_back_order:
  assumes "queues_ok u n" "in_order u acc log n" "n' = called_back p u n"
    and "u' = u\<lparr>ud_completed_queue := [], ud_send_queue_size := ud_send_queue_size u - queue_bytes n (ud_completed_queue u),
         ud_send_queue_count := ud_send_queue_count u - of_nat (length (ud_completed_queue u))\<rparr>"
  shows "queues_ok u' n'" "in_order u' acc (log @ map (\<lambda>q. (q, result_of n q)) (ud_completed_queue u)) n'"
proof -
  let ?C = "ud_completed_queue u" and ?W = "ud_write_queue u"
  note q = queues_okD [OF assms(1)]
  have reqs: "nt_reqs n' x = nt_reqs n x" if "x \<in> set ?W" for x using that q(4) by (auto simp: assms(3) called_back_def)
  have active: "unat (nt_active_reqs n') = unat (nt_active_reqs n) - length ?C"
  proof -
    have "unat (nt_active_reqs n) < 2 ^ 32" using unsigned_less [of "nt_active_reqs n"] by simp
    then have "length ?C < 2 ^ 32" using q(7) by simp
    then have "unat (of_nat (length ?C) :: u32) = length ?C" by (simp add: unat_of_nat)
    moreover from this have "of_nat (length ?C) \<le> nt_active_reqs n" using q(7) by (simp add: word_le_nat_alt)
    ultimately show ?thesis by (simp add: assms(3) called_back_def unat_sub)
  qed
  have "reqs_ok n' ?W" using q(6) reqs by (simp add: reqs_ok_def)
  moreover have "queue_bytes n' ?W = queue_bytes n ?W"
    unfolding queue_bytes_def using reqs by (intro arg_cong [where f = sum_list] map_cong) simp_all
  moreover have "nt_sends n' = nt_sends n" by (simp add: assms(3) called_back_def)
  ultimately show "queues_ok u' n'"
    using q active by (simp add: queues_ok_def Let_def assms(4))
  have fst: "map fst acc = map fst log @ ?C @ ?W"
    and snd: "map snd (drop (length log) acc) = payloads n ?C @ payloads n ?W"
    and wire: "map snd (nt_wire n) = handed_over acc (map snd log @ map (result_of n) ?C)"
    using assms(2) by (simp_all add: in_order_def payloads_def)
  have "payloads n' ?W = payloads n ?W" using reqs by (simp add: payloads_def)
  moreover have "map snd (drop (length log + length ?C) acc) = payloads n ?W"
    using arg_cong [OF snd, of "drop (length ?C)"] by (simp add: drop_map payloads_def add.commute)
  moreover have "nt_wire n' = nt_wire n" by (simp add: assms(3) called_back_def)
  ultimately show "in_order u' acc (log @ map (\<lambda>q. (q, result_of n q)) ?C) n'"
    using fst wire by (simp add: in_order_def assms(4) comp_def)
qed

lemma run_completed_order:
  assumes "uv__udp_run_completed fuel calls p (log, n) = Inr (log', n')" "frees_requests calls"
    and "nt_udps n p = Some u" "queues_ok u n" "in_order u acc log n"
  obtains u' where "nt_udps n' p = Some u'" "queues_ok u' n'" "in_order u' acc log' n'" "ud_completed_queue u' = []"
    "ud_write_queue u' = ud_write_queue u" "ud_write_queue u \<noteq> [] \<longrightarrow> (write_armed p n' \<longleftrightarrow> write_armed p n)"
proof -
  define u1 where "u1 = u\<lparr>ud_processing := True\<rparr>"
  define n1 where "n1 = set_udp p u1 n"
  note q = queues_okD [OF assms(4)]
  have n1: "nt_udps n1 p = Some u1" "nt_reqs n1 = nt_reqs n" "nt_active_reqs n1 = nt_active_reqs n" by (simp_all add: n1_def)
  obtain log1 n2 where loop: "completed_loop fuel calls p (log, n1) = Inr (log1, n2)"
    using assms(1,3) by (auto simp: uv__udp_run_completed_def res_simps n1_def u1_def)
  have "completed_loop fuel calls p (log, n1) =
     (if fuel \<le> length (ud_completed_queue u1) then Inl Diverges
      else Inr (log @ map (\<lambda>q. (q, result_of n1 q)) (ud_completed_queue u1), called_back p u1 n1))"
    using q n1 by (intro completed_loop_eq [OF assms(2)]) (simp_all add: u1_def reqs_ok_def)
  with loop have l: "log1 = log @ map (\<lambda>q. (q, result_of n q)) (ud_completed_queue u)" "n2 = called_back p u1 n1"
    by (simp_all add: u1_def result_of_def n1 split: if_splits)
  define v where "v = u\<lparr>ud_completed_queue := [], ud_send_queue_size := ud_send_queue_size u - queue_bytes n (ud_completed_queue u),
         ud_send_queue_count := ud_send_queue_count u - of_nat (length (ud_completed_queue u))\<rparr>"
  have ord: "queues_ok v (called_back p u n)" "in_order v acc log1 (called_back p u n)"
    using called_back_order [OF assms(4,5) refl v_def] l(1) by simp_all
  have u2: "nt_udps n2 p = Some (v\<lparr>ud_processing := True\<rparr>)"
    by (simp add: l(2) called_back_def u1_def v_def queue_bytes_def n1)
  have n2: "nt_reqs n2 = nt_reqs (called_back p u n)" "nt_wire n2 = nt_wire (called_back p u n)"
    "nt_sends n2 = nt_sends (called_back p u n)" "nt_active_reqs n2 = nt_active_reqs (called_back p u n)"
    by (simp_all add: l(2) called_back_def u1_def n1_def cong: if_cong)
  have arm: "write_armed p n2 \<longleftrightarrow> write_armed p n" using u2 assms(3) by (simp add: write_armed_def v_def)
  obtain n3 u3 where n3: "(if ud_write_queue v = [] then
       bindE (uv__io_stop p POLLOUT n2) (\<lambda>n.
       bindE (udp_at n p) (\<lambda>u.
       bindE (uv__io_active u POLLIN) (\<lambda>b. if \<not> b then udp_handle_stop p n else Inr n)))
     else Inr n2) = Inr n3" and u3: "nt_udps n3 p = Some u3" and last: "n' = set_udp p (u3\<lparr>ud_processing := False\<rparr>) n3" "log' = log1"
    using assms(1,3) loop u2 q(1) by (auto simp: uv__udp_run_completed_def n1_def u1_def res_simps)
  have core: "core p n3 = core p n2"
    using n3 by (auto simp: res_simps dest!: uv__io_stop_core udp_handle_stop_core split: if_splits)
  have arm3: "ud_write_queue u \<noteq> [] \<longrightarrow> (write_armed p n3 \<longleftrightarrow> write_armed p n)" using n3 arm by (auto simp: v_def)
  obtain w where w: "nt_udps n3 p = Some w" "core_udp w = core_udp (v\<lparr>ud_processing := True\<rparr>)" "nt_reqs n3 = nt_reqs n2"
    "nt_wire n3 = nt_wire n2" "nt_sends n3 = nt_sends n2" "nt_active_reqs n3 = nt_active_reqs n2"
    using core_eqD [OF core u2] .
  then have u3w: "u3 = w" using u3 by simp
  let ?u = "u3\<lparr>ud_processing := False\<rparr>"
  have cu: "core_udp ?u = core_udp v" using w(2) q(1) by (simp add: u3w core_udp_def v_def)
  show thesis
  proof (rule that)
    show "nt_udps n' p = Some ?u" by (simp add: last)
    show "queues_ok ?u n'"
      using ord(1) core_queues_ok [OF cu, of n' "called_back p u n"] w n2 by (simp add: last)
    show "in_order ?u acc log' n'"
      using ord(2) core_in_order [OF cu, of n' "called_back p u n"] w n2 by (simp add: last)
    show "ud_completed_queue ?u = []" "ud_write_queue ?u = ud_write_queue u" using cu by (simp_all add: core_udp_def v_def)
    show "ud_write_queue u \<noteq> [] \<longrightarrow> (write_armed p n' \<longleftrightarrow> write_armed p n)"
      using arm3 armed_Some [OF u3] by (simp add: last)
  qed
qed

section \<open>Accepting keeps the order\<close>

lemma queue_bytes_append: "queue_bytes n (qs @ qs') = queue_bytes n qs + queue_bytes n qs'"
  by (simp add: queue_bytes_def)

lemma reqs_ok_fresh: "reqs_ok n qs \<Longrightarrow> nt_reqs n q = None \<Longrightarrow> q \<notin> set qs"
  by (auto simp: reqs_ok_def)

text \<open>A new request at the end of the write queue.\<close>

lemma accepted_order:
  assumes "queues_ok u n" "in_order u acc log n" "nt_reqs n q = None" "bufs \<noteq> []" "good_addr addr" "nt_active_reqs n < - 1"
    and r: "rq_addr r = addr" "rq_bufs r = bufs" "rq_cb r = Some cb"
    and n': "nt_reqs n' = (nt_reqs n)(q \<mapsto> r)" "nt_wire n' = nt_wire n" "nt_sends n' = nt_sends n"
      "nt_active_reqs n' = nt_active_reqs n + 1"
    and u': "ud_completed_queue u' = ud_completed_queue u" "ud_write_queue u' = ud_write_queue u @ [q]"
      "ud_send_queue_count u' = ud_send_queue_count u + 1"
      "ud_send_queue_size u' = ud_send_queue_size u + uv__count_bufs bufs" "ud_processing u' = ud_processing u"
  shows "queues_ok u' n'" "in_order u' (acc @ [(q, addr, bufs)]) log n'"
proof -
  let ?C = "ud_completed_queue u" and ?W = "ud_write_queue u"
  note a = queues_okD [OF assms(1)]
  have q: "q \<notin> set ?C" "q \<notin> set ?W" using reqs_ok_fresh a(5,6) assms(3) by blast+
  have reqs: "nt_reqs n' x = nt_reqs n x" if "x \<in> set (?C @ ?W)" for x using that q n'(1) by auto
  have "unat (nt_active_reqs n') = unat (nt_active_reqs n) + 1"
  proof -
    have "(- 1 :: u32) = 0xFFFFFFFF" by simp
    with assms(6) have "nt_active_reqs n < 0xFFFFFFFF" by metis
    then have "unat (nt_active_reqs n) + unat (1 :: u32) < 2 ^ 32" by (simp add: word_less_nat_alt)
    then show ?thesis using n'(4) unat_add_lem [of "nt_active_reqs n" 1] by simp
  qed
  moreover have "reqs_ok n' (?C @ ?W @ [q])"
    using a(5,6) reqs n'(1) r assms(4,5) by (auto simp: reqs_ok_def)
  moreover have "queue_bytes n' (?C @ ?W @ [q]) = queue_bytes n ?C + queue_bytes n ?W + uv__count_bufs bufs"
  proof -
    have "queue_bytes n' qs = queue_bytes n qs" if "set qs \<subseteq> set (?C @ ?W)" for qs
      unfolding queue_bytes_def using that reqs by (intro arg_cong [where f = sum_list] map_cong) auto
    from this [of ?C] this [of ?W] have "queue_bytes n' ?C = queue_bytes n ?C" "queue_bytes n' ?W = queue_bytes n ?W"
      by simp_all
    moreover have "queue_bytes n' [q] = uv__count_bufs bufs" using n'(1) r(2) by (simp add: queue_bytes_def)
    ultimately show ?thesis by (simp only: queue_bytes_append add.assoc)
  qed
  ultimately show "queues_ok u' n'"
    using a q n'(3) u' by (simp add: queues_ok_def Let_def)
  have fst: "map fst acc = map fst log @ ?C @ ?W"
    and snd: "map snd (drop (length log) acc) = payloads n (?C @ ?W)"
    and wire: "map snd (nt_wire n) = handed_over acc (map snd log @ map (result_of n) ?C)"
    using assms(2) by (simp_all add: in_order_def)
  have len: "length log + length ?C \<le> length acc" using arg_cong [OF fst, of length] by simp
  have "payloads n' (?C @ ?W) = payloads n (?C @ ?W)" unfolding payloads_def using reqs by (intro map_cong) simp_all
  moreover have "payloads n' [q] = [(addr, bufs)]" using n'(1) r by (simp add: payloads_def payload_def)
  ultimately have "map snd (drop (length log) (acc @ [(q, addr, bufs)])) = payloads n' (?C @ ?W @ [q])"
    using snd len by (simp add: payloads_def)
  moreover have C: "map (result_of n') ?C = map (result_of n) ?C" using reqs by (intro map_cong) (simp_all add: result_of_def)
  have "map snd (nt_wire n') = handed_over (acc @ [(q, addr, bufs)]) (map snd log @ map (result_of n') ?C)"
    unfolding C using wire n'(2) len delivered_snoc [of "map snd log @ map (result_of n) ?C" acc] by simp
  moreover have "map fst (acc @ [(q, addr, bufs)]) = map fst log @ ?C @ ?W @ [q]" using fst by simp
  ultimately show "in_order u' (acc @ [(q, addr, bufs)]) log n'" unfolding in_order_def u' by blast
qed

text \<open>A request that is not queued does not matter.\<close>

lemma unqueued_order:
  assumes "queues_ok u n" "in_order u acc log n" "nt_reqs n q = None" "core_udp u' = core_udp u"
    and n': "nt_reqs n' = (nt_reqs n)(q \<mapsto> r)" "nt_wire n' = nt_wire n" "nt_sends n' = nt_sends n"
      "nt_active_reqs n' = nt_active_reqs n"
  shows "queues_ok u' n'" "in_order u' acc log n'"
proof -
  let ?C = "ud_completed_queue u" and ?W = "ud_write_queue u"
  note a = queues_okD [OF assms(1)]
  have q: "q \<notin> set ?C" "q \<notin> set ?W" using reqs_ok_fresh a(5,6) assms(3) by blast+
  have reqs: "nt_reqs n' x = nt_reqs n x" if "x \<in> set (?C @ ?W)" for x using that q n'(1) by auto
  have u': "ud_completed_queue u' = ?C" "ud_write_queue u' = ?W" "ud_send_queue_count u' = ud_send_queue_count u"
    "ud_send_queue_size u' = ud_send_queue_size u" "ud_processing u' = ud_processing u"
    using assms(4) by (simp_all add: core_udp_def)
  have "queue_bytes n' (?C @ ?W) = queue_bytes n (?C @ ?W)"
    unfolding queue_bytes_def using reqs by (intro arg_cong [where f = sum_list] map_cong) simp_all
  moreover have "reqs_ok n' (?C @ ?W)" using a(5,6) reqs by (auto simp: reqs_ok_def)
  ultimately show "queues_ok u' n'" using assms(1) n'(3,4) u' by (simp add: queues_ok_def Let_def)
  have "payloads n' (?C @ ?W) = payloads n (?C @ ?W)" unfolding payloads_def using reqs by (intro map_cong) simp_all
  moreover have "map (result_of n') ?C = map (result_of n) ?C" using reqs by (intro map_cong) (simp_all add: result_of_def)
  ultimately show "in_order u' acc log n'" using assms(2) n'(2) u' unfolding in_order_def by metis
qed

lemma check_before_send: "\<not> uv__udp_check_before_send u addr < 0 \<Longrightarrow> good_addr addr"
  by (auto simp: uv__udp_check_before_send_def good_addr_def UV_EINVAL_def UV_EISCONN_def UV_EDESTADDRREQ_def
      split: if_splits option.splits)

lemma io_core_set_req:
  "io_core p n' = io_core p n \<Longrightarrow> core p n' = core p n \<and> (write_armed p n' \<longleftrightarrow> write_armed p n)"
  by (simp add: io_core_def)

lemma udp_invI:
  "nt_udps n p = Some u \<Longrightarrow> queues_ok u n \<Longrightarrow> in_order u acc log n \<Longrightarrow> waits_armed p u n \<Longrightarrow> udp_inv p acc log n"
  unfolding udp_inv_def by blast

lemma waits_armed_core:
  "core_udp u' = core_udp u \<Longrightarrow> (write_armed p n' \<longleftrightarrow> write_armed p n) \<Longrightarrow> waits_armed p u' n' \<longleftrightarrow> waits_armed p u n"
  by (simp add: waits_armed_def core_udp_def)

lemma armed_waits: "write_armed p n \<Longrightarrow> waits_armed p u n"
  by (simp add: waits_armed_def)

text \<open>From here on the request is in the queue: it is sent at once, or the watcher is armed.\<close>

lemma send_now_or_later:
  assumes "nt_udps n p = Some u" "queues_ok u n" "in_order u acc log n" "ud_write_queue u \<noteq> []"
    and "(if b then
            bindE (uv__udp_sendmsg p n) (\<lambda>n.
            bindE (udp_at n p) (\<lambda>u.
            bindE (if ud_write_queue u \<noteq> [] then uv__io_start p POLLOUT n else Inr n) (\<lambda>n. Inr (0, n))))
          else bindE (uv__io_start p POLLOUT n) (\<lambda>n. Inr (0 :: int, n))) = Inr (e, n')"
  shows "e = 0 \<and> udp_inv p acc log n'"
proof -
  have later: "udp_inv p acc log n'"
    if s: "uv__io_start p POLLOUT m = Inr n'" "nt_udps m p = Some v" "queues_ok v m" "in_order v acc log m" for m v
  proof -
    have c: "core p n' = core p m" "write_armed p n'" using uv__io_start_core [OF s(1)] by simp_all
    obtain w where w: "nt_udps n' p = Some w" "core_udp w = core_udp v" "nt_reqs n' = nt_reqs m" "nt_wire n' = nt_wire m"
      "nt_sends n' = nt_sends m" "nt_active_reqs n' = nt_active_reqs m" using core_eqD [OF c(1) s(2)] .
    show ?thesis
      using udp_invI [OF w(1)] core_queues_ok [OF w(2,3,5,6)] core_in_order [OF w(2,3,4)] s(3,4) armed_waits [OF c(2)]
      by blast
  qed
  show ?thesis
  proof (cases b)
    case False
    then show ?thesis using later assms by (auto simp: res_simps)
  next
    case True
    then obtain m v where m: "uv__udp_sendmsg p n = Inr m" "nt_udps m p = Some v"
      and rest: "(if ud_write_queue v \<noteq> [] then uv__io_start p POLLOUT m else Inr m) = Inr n'" and e: "e = 0"
      using assms(5) by (auto simp: res_simps)
    obtain v' where v': "nt_udps m p = Some v'" "queues_ok v' m" "in_order v' acc log m"
      "ud_write_queue u \<noteq> [] \<and> ud_write_queue v' = [] \<longrightarrow> io_pending v'"
      using sendmsg_keeps_order [OF m(1) assms(1-3)] by blast
    then have v: "v' = v" using m(2) by simp
    show ?thesis
    proof (cases "ud_write_queue v = []")
      case True
      then have "n' = m" "waits_armed p v m" using rest v' v assms(4) by (simp_all add: waits_armed_def)
      then show ?thesis using e udp_invI [OF m(2)] v'(2,3) v by simp
    next
      case False
      then show ?thesis using e later [of m v] rest v' v m(2) by simp
    qed
  qed
qed

lemma send_keeps_order:
  assumes send: "uv_udp_send q p bufs addr (Some cb) (set_req q r n) = Inr (e, n')" and inv: "udp_inv p acc log n"
    and fresh: "nt_reqs n q = None" and room: "nt_active_reqs n < - 1"
  shows "udp_inv p (if e = 0 then acc @ [(q, addr, bufs)] else acc) log n'"
proof -
  obtain u where u: "nt_udps n p = Some u" "queues_ok u n" "in_order u acc log n" "waits_armed p u n"
    using inv unfolding udp_inv_def by blast
  define n0 where "n0 = set_req q r n"
  have n0: "nt_udps n0 = nt_udps n" "nt_reqs n0 = (nt_reqs n)(q \<mapsto> r)" "nt_wire n0 = nt_wire n" "nt_sends n0 = nt_sends n"
    "nt_active_reqs n0 = nt_active_reqs n" by (simp_all add: n0_def set_req_def)
  have a0: "write_armed p n0 \<longleftrightarrow> write_armed p n" by (simp add: write_armed_def n0)
  have failed: "udp_inv p acc log m" if c: "io_core p m = io_core p n0" for m
  proof -
    have m: "core p m = core p n0" "write_armed p m \<longleftrightarrow> write_armed p n" using io_core_set_req [OF c] a0 by simp_all
    obtain v where v: "nt_udps m p = Some v" "core_udp v = core_udp u" "nt_reqs m = nt_reqs n0" "nt_wire m = nt_wire n0"
      "nt_sends m = nt_sends n0" "nt_active_reqs m = nt_active_reqs n0" using core_eqD [OF m(1)] u(1) n0(1) by metis
    have "queues_ok v m" "in_order v acc log m"
      using unqueued_order [OF u(2,3) fresh v(2), of m r] v n0 by simp_all
    then show ?thesis using udp_invI [OF v(1)] waits_armed_core [OF v(2) m(2)] u(4) by simp
  qed
  show ?thesis
  proof (cases "uv__udp_check_before_send u addr < 0")
    case True
    then have "e \<noteq> 0" "n' = n0" using send u(1) n0(1) by (auto simp: uv_udp_send_def Let_def udp_at_def n0_def [symmetric])
    then show ?thesis using failed [of n0] by simp
  next
    case False
    then have good: "good_addr addr" by (rule check_before_send)
    have s: "uv__udp_send q p bufs addr (Some cb) n0 = Inr (e, n')"
      using send u(1) n0(1) False by (simp add: uv_udp_send_def Let_def udp_at_def n0_def [symmetric])
    define b where "b = (case addr of Some a \<Rightarrow> uv__udp_maybe_deferred_bind p (sa_family a) 0 n0 | None \<Rightarrow> Inr (0, n0))"
    have "leaves (io_core p) n0 b"
      by (simp add: b_def uv__udp_maybe_deferred_bind_keeps keeps_refl split: option.split)
    moreover obtain err n1 where b: "b = Inr (err, n1)" and bufs: "bufs \<noteq> []"
      using s by (auto simp: uv__udp_send_def unless_err_def res_simps b_def)
    ultimately have c1: "io_core p n1 = io_core p n0" by (simp add: leaves_def)
    show ?thesis
    proof (cases "err = 0")
      case False
      then have "e = err" "n' = n1" using s b bufs by (auto simp: uv__udp_send_def unless_err_def b_def)
      then show ?thesis using failed [OF c1] False by simp
    next
      case True
      have m: "core p n1 = core p n0" "write_armed p n1 \<longleftrightarrow> write_armed p n" using io_core_set_req [OF c1] a0 by simp_all
      obtain v where v: "nt_udps n1 p = Some v" "core_udp v = core_udp u" "nt_reqs n1 = nt_reqs n0" "nt_wire n1 = nt_wire n0"
        "nt_sends n1 = nt_sends n0" "nt_active_reqs n1 = nt_active_reqs n0" using core_eqD [OF m(1)] u(1) n0(1) by metis
      have rq: "nt_reqs n1 q = Some r" using v(3) n0(2) by simp
      note step = s [unfolded uv__udp_send_def unless_err_def, folded b_def, unfolded b True]
      show ?thesis
      proof (cases "length bufs > 4 \<and> nt_no_memory n1")
        case True
        have "uv__req_register n1 = n1\<lparr>nt_active_reqs := nt_active_reqs n1 + 1\<rparr>" by (simp add: uv__req_register_def)
        then have "e = UV_ENOMEM" "n' = set_req q (r\<lparr>rq_addr := addr, rq_cb := Some cb, rq_bufs := []\<rparr>) n1"
          using step v(1) rq bufs True
          by (auto simp: Let_def udp_at_def req_at_def uv__req_unregister_def set_req_def check_def res_simps split: if_splits)
        moreover have "udp_inv p acc log (set_req q (r\<lparr>rq_addr := addr, rq_cb := Some cb, rq_bufs := []\<rparr>) n1)"
        proof (rule udp_invI)
          let ?n = "set_req q (r\<lparr>rq_addr := addr, rq_cb := Some cb, rq_bufs := []\<rparr>) n1"
          show "nt_udps ?n p = Some v" using v(1) by (simp add: set_req_def)
          show "queues_ok v ?n" "in_order v acc log ?n"
            using unqueued_order [OF u(2,3) fresh v(2), of ?n "r\<lparr>rq_addr := addr, rq_cb := Some cb, rq_bufs := []\<rparr>"] v n0
            by (simp_all add: set_req_def)
          have "write_armed p ?n \<longleftrightarrow> write_armed p n" using m(2) by (simp add: set_req_def write_armed_def)
          then show "waits_armed p v ?n" using waits_armed_core [OF v(2)] u(4) by blast
        qed
        ultimately show ?thesis by (simp add: UV_ENOMEM_def)
      next
        case False
        define req where "req = r\<lparr>rq_addr := addr, rq_cb := Some cb, rq_bufs := bufs\<rparr>"
        define v' where "v' = v\<lparr>ud_send_queue_size := ud_send_queue_size v + uv__count_bufs bufs,
          ud_send_queue_count := ud_send_queue_count v + 1, ud_write_queue := ud_write_queue v @ [q]\<rparr>"
        define n4 where "n4 = set_udp p v' (set_req q req (uv__req_register n1))"
        let ?b = "ud_send_queue_count v = 0 \<and> \<not> ud_processing v"
        have cv: "ud_completed_queue v = ud_completed_queue u" "ud_write_queue v = ud_write_queue u"
          "ud_send_queue_count v = ud_send_queue_count u" "ud_send_queue_size v = ud_send_queue_size u"
          "ud_processing v = ud_processing u" using v(2) by (simp_all add: core_udp_def)
        have n4: "nt_udps n4 p = Some v'" "nt_reqs n4 = (nt_reqs n)(q \<mapsto> req)" "nt_wire n4 = nt_wire n"
          "nt_sends n4 = nt_sends n" "nt_active_reqs n4 = nt_active_reqs n + 1"
          using v n0 by (simp_all add: n4_def set_req_def uv__req_register_def)
        have ord: "queues_ok v' n4" "in_order v' (acc @ [(q, addr, bufs)]) log n4"
          using accepted_order [OF u(2,3) fresh bufs good room, of req cb n4 v'] n4 by (simp_all add: req_def v'_def cv)
        obtain n5 where n5: "udp_handle_start p n4 = Inr n5" and rest:
          "(if ?b then
              bindE (uv__udp_sendmsg p n5) (\<lambda>n.
              bindE (udp_at n p) (\<lambda>u.
              bindE (if ud_write_queue u \<noteq> [] then uv__io_start p POLLOUT n else Inr n) (\<lambda>n. Inr (0, n))))
            else bindE (uv__io_start p POLLOUT n5) (\<lambda>n. Inr (0, n))) = Inr (e, n')"
        proof -
          have "bindE (udp_handle_start p n4) (\<lambda>n.
              if ?b then
                bindE (uv__udp_sendmsg p n) (\<lambda>n.
                bindE (udp_at n p) (\<lambda>u.
                bindE (if ud_write_queue u \<noteq> [] then uv__io_start p POLLOUT n else Inr n) (\<lambda>n. Inr (0, n))))
              else bindE (uv__io_start p POLLOUT n) (\<lambda>n. Inr (0, n))) = Inr (e, n')"
            using step v(1) rq bufs False
            by (simp add: Let_def udp_at_def req_at_def n4_def v'_def req_def uv__req_register_def check_def)
          then show thesis using that by (auto simp: bindE_eq_Inr_iff)
        qed
        have c5: "core p n5 = core p n4" using udp_handle_start_core [OF n5] by simp
        obtain w where w: "nt_udps n5 p = Some w" "core_udp w = core_udp v'" "nt_reqs n5 = nt_reqs n4"
          "nt_wire n5 = nt_wire n4" "nt_sends n5 = nt_sends n4" "nt_active_reqs n5 = nt_active_reqs n4"
          using core_eqD [OF c5 n4(1)] .
        have "queues_ok w n5" "in_order w (acc @ [(q, addr, bufs)]) log n5" "ud_write_queue w \<noteq> []"
          using core_queues_ok [OF w(2,3,5,6)] core_in_order [OF w(2,3,4)] ord w(2) by (simp_all add: core_udp_def v'_def)
        from send_now_or_later [OF w(1) this rest] show ?thesis by simp
      qed
    qed
  qed
qed

section \<open>Any run\<close>

lemma io_keeps_order:
  assumes io: "uv__udp_io fuel calls p POLLOUT (log, n) = Inr (log', n')" and "frees_requests calls" and inv: "udp_inv p acc log n"
  shows "udp_inv p acc log' n' \<and> (\<exists>u. nt_udps n' p = Some u \<and> ud_completed_queue u = [])"
proof -
  obtain u where u: "nt_udps n p = Some u" "queues_ok u n" "in_order u acc log n" "waits_armed p u n"
    using inv unfolding udp_inv_def by blast
  have "POLLOUT AND POLLIN = 0" by (simp add: POLLOUT_def POLLIN_def)
  then obtain m where m: "uv__udp_sendmsg p n = Inr m" and rc: "uv__udp_run_completed fuel calls p (log, m) = Inr (log', n')"
    using io u(1) by (auto simp: uv__udp_io_def res_simps udp_at_def)
  obtain v where v: "nt_udps m p = Some v" "queues_ok v m" "in_order v acc log m" "write_armed p m \<longleftrightarrow> write_armed p n"
    "ud_write_queue u \<noteq> [] \<and> ud_write_queue v = [] \<longrightarrow> io_pending v"
    using sendmsg_keeps_order [OF m u(1-3)] .
  obtain w where w: "nt_udps n' p = Some w" "queues_ok w n'" "in_order w acc log' n'" "ud_completed_queue w = []"
    "ud_write_queue w = ud_write_queue v" "ud_write_queue v \<noteq> [] \<longrightarrow> (write_armed p n' \<longleftrightarrow> write_armed p m)"
    using run_completed_order [OF rc assms(2) v(1-3)] .
  have "ud_write_queue v \<noteq> [] \<longrightarrow> ud_write_queue u \<noteq> []"
  proof (rule impI, rule notI)
    assume "ud_write_queue v \<noteq> []" "ud_write_queue u = []"
    moreover from this have "m = n" using m u(1) by (simp add: uv__udp_sendmsg_def udp_at_def)
    ultimately show False using v(1) u(1) by simp
  qed
  then have "waits_armed p w n'" using u(4) v(4) w(4,5,6) by (simp add: waits_armed_def)
  then show ?thesis using udp_invI [OF w(1-3)] w(1,4) by blast
qed

text \<open>The program asks to send with a request of its own; the loop reports that the socket can be written to.\<close>

inductive udp_step ::
  "((nat \<times> int) list, 'cb) udp_calls \<Rightarrow> nat \<Rightarrow>
   accepted \<times> (nat \<times> int) list \<times> 'cb net \<Rightarrow> accepted \<times> (nat \<times> int) list \<times> 'cb net \<Rightarrow> bool" for calls p where
  asked: "nt_reqs n q = None \<Longrightarrow> nt_active_reqs n < - 1 \<Longrightarrow>
    uv_udp_send q p bufs addr (Some cb) (set_req q r n) = Inr (e, n') \<Longrightarrow>
    udp_step calls p (acc, log, n) (if e = 0 then acc @ [(q, addr, bufs)] else acc, log, n')"
| writable: "uv__udp_io fuel calls p POLLOUT (log, n) = Inr (log', n') \<Longrightarrow>
    udp_step calls p (acc, log, n) (acc, log', n')"

inductive udp_run ::
  "((nat \<times> int) list, 'cb) udp_calls \<Rightarrow> nat \<Rightarrow>
   accepted \<times> (nat \<times> int) list \<times> 'cb net \<Rightarrow> accepted \<times> (nat \<times> int) list \<times> 'cb net \<Rightarrow> bool" for calls p where
  run_refl: "udp_run calls p x x"
| run_step: "udp_run calls p x y \<Longrightarrow> udp_step calls p y z \<Longrightarrow> udp_run calls p x z"

inductive_cases udp_stepE: "udp_step calls p (acc, log, n) (acc', log', n')"

lemma udp_step_keeps_order:
  "udp_step calls p (acc, log, n) (acc', log', n') \<Longrightarrow> frees_requests calls \<Longrightarrow> udp_inv p acc log n \<Longrightarrow> udp_inv p acc' log' n'"
  by (erule udp_stepE) (auto dest: send_keeps_order io_keeps_order)

lemma udp_run_keeps_order:
  assumes "udp_run calls p x y" "frees_requests calls" "udp_inv p (fst x) (fst (snd x)) (snd (snd x))"
  shows "udp_inv p (fst y) (fst (snd y)) (snd (snd y))"
  using assms
proof (induction rule: udp_run.induct)
  case (run_step x y z)
  then show ?case by (cases y; cases z) (auto intro: udp_step_keeps_order)
qed simp

text \<open>A socket that was just made.\<close>

definition fresh_socket :: "nat \<Rightarrow> 'cb net \<Rightarrow> bool" where
  "fresh_socket p n \<longleftrightarrow>
     (\<exists>u. nt_udps n p = Some u \<and> ud_write_queue u = [] \<and> ud_completed_queue u = [] \<and> \<not> ud_processing u \<and>
       ud_send_queue_count u = 0 \<and> ud_send_queue_size u = 0) \<and> nt_wire n = [] \<and> 0 \<notin> set (nt_sends n)"

lemma fresh_socket_inv: "fresh_socket p n \<Longrightarrow> udp_inv p [] [] n"
  by (auto simp: fresh_socket_def udp_inv_def queues_ok_def in_order_def waits_armed_def Let_def reqs_ok_def queue_bytes_def
      payloads_def handed_over_def)

lemma init_is_fresh:
  assumes "uv_udp_init p n = Inr (0, n')" "nt_wire n = []" "0 \<notin> set (nt_sends n)"
  shows "fresh_socket p n'"
proof -
  obtain u where u: "nt_udps n p = Some u"
    using assms(1) by (auto simp: uv_udp_init_def uv_udp_init_ex_def uv__udp_init_ex_def Let_def res_simps split: if_splits)
  show ?thesis
    using assms u
    by (auto simp: uv_udp_init_def uv_udp_init_ex_def uv__udp_init_ex_def uv__io_init_def Let_def res_simps
        fresh_socket_def udp_at_def check_def)
qed

text \<open>What a run shows: the order of the callbacks, and what was sent.\<close>

lemma udp_run_order:
  assumes "uv_udp_init p n0 = Inr (0, n1)" "nt_wire n0 = []" "0 \<notin> set (nt_sends n0)" "frees_requests calls"
    and "udp_run calls p ([], [], n1) (acc, log, n)"
  shows "\<exists>done waiting. nt_udps n p \<noteq> None \<and> socket_queues p n = Some (done, waiting) \<and>
     map fst acc = map fst log @ done @ waiting \<and>
     map snd (nt_wire n) = handed_over acc (map snd log @ map (result_of n) done) \<and>
     (waiting \<noteq> [] \<longrightarrow> write_armed p n)"
proof -
  have "udp_inv p acc log n"
    using udp_run_keeps_order [OF assms(5,4)] fresh_socket_inv [OF init_is_fresh [OF assms(1-3)]] by simp
  then show ?thesis by (auto simp: udp_inv_def in_order_def waits_armed_def socket_queues_def)
qed

end
