(* ===== verification/Uv_Udp_Ends.thy ===== *)
theory Uv_Udp_Ends
  imports Uv_Udp_Order
begin

text \<open>Sending returns, a batch that fails fails as a whole, and closing a socket calls every request back.\<close>

unbundle bit_operations_syntax

section \<open>Sending returns\<close>

text \<open>The answers that are not interruptions.\<close>

definition final_answers :: "int list \<Rightarrow> int list" where
  "final_answers rs = filter (\<lambda>r. r \<noteq> - EINTR) rs"

lemma sendmmsg_retry_returns:
  "final_answers (nt_sends n) \<noteq> [] \<Longrightarrow>
   \<exists>r n'. sendmmsg_retry h n = Inr (r, n') \<and> final_answers (nt_sends n') = tl (final_answers (nt_sends n))"
proof (induction h n rule: sendmmsg_retry.induct)
  case (1 h n)
  then obtain a as where a: "nt_sends n = a # as" by (cases "nt_sends n") (auto simp: final_answers_def)
  show ?case
  proof (cases "a = - EINTR")
    case True
    define n1 where "n1 = n\<lparr>nt_sends := as, nt_errno := EINTR\<rparr>"
    have s: "sendmmsg h n = Inr (- 1, n1)" using a True by (simp add: sendmmsg_def n1_def EINTR_def)
    have f: "final_answers (nt_sends n1) = final_answers (nt_sends n)" using a True by (simp add: n1_def final_answers_def)
    have c: "(- 1 :: int) = - 1 \<and> nt_errno n1 = EINTR" by (simp add: n1_def)
    show ?thesis using "1.IH" [OF s refl c] "1.prems" f s c by (simp add: sendmmsg_retry.simps [of h n])
  next
    case False
    define n1 where "n1 = (if a < 0 then n\<lparr>nt_sends := as, nt_errno := - a\<rparr>
      else n\<lparr>nt_sends := as, nt_wire := nt_wire n @ take (nat a) h\<rparr>)"
    define r where "r = (if a < 0 then - 1 else min a (int (length h)))"
    have s: "sendmmsg h n = Inr (r, n1)" using a by (simp add: sendmmsg_def n1_def r_def)
    have "\<not> (r = - 1 \<and> nt_errno n1 = EINTR)" using False by (auto simp: r_def n1_def min_def split: if_splits)
    then have "sendmmsg_retry h n = Inr (r, n1)" using s by (auto simp: sendmmsg_retry.simps [of h n])
    moreover have "nt_sends n1 = as" by (simp add: n1_def)
    ultimately show ?thesis using a False by (simp add: final_answers_def)
  qed
qed

lemma write_queue_drain_returns:
  "nt_udps n p = Some u \<Longrightarrow> distinct (ud_write_queue u) \<Longrightarrow> reqs_ok n (ud_write_queue u) \<Longrightarrow> ud_write_queue u \<noteq> [] \<Longrightarrow>
   0 \<notin> set (nt_sends n) \<Longrightarrow> length (ud_write_queue u) \<le> length (final_answers (nt_sends n)) \<Longrightarrow>
   \<exists>n'. write_queue_drain p n = Inr n'"
proof (induction "length (ud_write_queue u)" arbitrary: n u rule: less_induct)
  case less
  let ?pkts = "take 20 (ud_write_queue u)"
  define h where "h = map (Pair (io_fd u)) (payloads n ?pkts)"
  have u: "udp_at n p = Inr u" using less.prems(1) by (simp add: udp_at_def)
  have h: "mmsghdrs n (io_fd u) ?pkts = Inr h"
    unfolding h_def using less.prems(3) by (intro mmsghdrs_eq) (auto simp: reqs_ok_def dest: in_set_takeD)
  have ne: "h \<noteq> []" using less.prems(4) by (simp add: h_def payloads_def)
  have "0 < length (final_answers (nt_sends n))" using less.prems(4,6) by (cases "ud_write_queue u") auto
  then have "final_answers (nt_sends n) \<noteq> []" by simp
  then obtain r n1 where s: "sendmmsg_retry h n = Inr (r, n1)"
    and left: "final_answers (nt_sends n1) = tl (final_answers (nt_sends n))"
    using sendmmsg_retry_returns by blast
  note cases = sendmmsg_retry_cases [OF s less.prems(5) ne]
  have ss: "0 \<notin> set (nt_sends n1)" using cases by blast
  have lenh: "length h = length ?pkts" by (simp add: h_def payloads_def)
  from cases consider e where "r = - 1" "0 < e" "n1 = n\<lparr>nt_sends := nt_sends n1, nt_errno := e\<rparr>"
    | "0 < r" "r \<le> int (length ?pkts)"
      "n1 = n\<lparr>nt_sends := nt_sends n1, nt_errno := nt_errno n1, nt_wire := nt_wire n @ take (nat r) h\<rparr>"
    unfolding lenh by blast
  then show ?case
  proof cases
    case (1 e)
    have err: "nt_errno n1 = e" and n1: "nt_udps n1 = nt_udps n" "nt_reqs n1 = nt_reqs n"
      using arg_cong [OF 1(3), of nt_errno] arg_cong [OF 1(3), of nt_udps] arg_cong [OF 1(3), of nt_reqs] by simp_all
    have "\<exists>n'. complete_loop (length ?pkts) (\<lambda>_. Inr (UV__ERR e)) p n1 = Inr n' \<and> nt_udps n' p = Some (moved (length ?pkts) u)"
    proof (intro exI conjI)
      show "complete_loop (length ?pkts) (\<lambda>_. Inr (UV__ERR e)) p n1 =
        Inr (n1\<lparr>nt_udps := (nt_udps n1)(p \<mapsto> moved (length ?pkts) u),
               nt_reqs := set_status (\<lambda>_. - e) (set (take (length ?pkts) (ud_write_queue u))) (nt_reqs n1)\<rparr>)"
      proof (rule complete_loop_eq)
        fix q assume "q \<in> set (take (length ?pkts) (ud_write_queue u))"
        then have "q \<in> set (ud_write_queue u)" by (rule in_set_takeD)
        then show "\<exists>r. nt_reqs n1 q = Some r \<and> Inr (UV__ERR e) = Inr (- e)"
          using less.prems(3) n1 by (auto simp: reqs_ok_def UV__ERR_def)
      qed (use less.prems n1 in simp_all)
    qed simp
    then obtain n2 where n2: "complete_loop (length ?pkts) (\<lambda>_. Inr (UV__ERR e)) p n1 = Inr n2"
      "nt_udps n2 p = Some (moved (length ?pkts) u)" by blast
    then show ?thesis
      using u h s 1(1) err uv__io_feed_eq [OF n2(2)] by (auto simp: write_queue_drain.simps [of p n] Let_def simp del: udp_at_Inr length_take)
  next
    case 2
    obtain f n2 where f: "complete_loop (nat r) first_len p n1 = Inr n2" "sent_part p u (nat r) f (io_pending u) n n2"
      using sent_part_success [OF less.prems(1-3) ss 2(1,2) h_def 2(3)] by blast
    define u2 where "u2 = moved (nat r) u"
    have u2: "nt_udps n2 p = Some u2" "udp_at n2 p = Inr u2"
      using sent_part_udp [OF f(2)] by (simp_all add: u2_def udp_at_def)
    have r1: "\<not> r < 1" using 2(1) by simp
    have sends2: "nt_sends n2 = nt_sends n1" using complete_loop_sends [OF f(1)] .
    show ?thesis
    proof (cases "ud_write_queue u2 = []")
      case True
      then show ?thesis
        using u h s r1 f(1) u2 uv__io_feed_eq [OF u2(1)] by (auto simp: write_queue_drain.simps [of p n] Let_def simp del: udp_at_Inr length_take)
    next
      case False
      have len: "length (ud_write_queue u2) < length (ud_write_queue u)"
        using 2(1) less.prems(4) by (cases "ud_write_queue u") (simp_all add: u2_def moved_def)
      have d: "distinct (ud_write_queue u2)" using less.prems(2) by (simp add: u2_def moved_def)
      have "reqs_ok n (ud_write_queue u2)"
        using less.prems(3) by (auto simp: u2_def moved_def reqs_ok_def dest: in_set_dropD)
      then have ok: "reqs_ok n2 (ud_write_queue u2)" using sent_part_reqs [OF f(2)] by simp
      have "length (ud_write_queue u2) \<le> length (final_answers (nt_sends n2))"
        using len less.prems(6) left sends2 by simp
      then have "\<exists>n'. write_queue_drain p n2 = Inr n'"
        using less.hyps [OF len u2(1) d ok False] ss sends2 by simp
      then show ?thesis using u h s r1 f(1) u2(2) False by (auto simp: write_queue_drain.simps [of p n] Let_def simp del: udp_at_Inr length_take)
    qed
  qed
qed

lemma uv__udp_sendmsg_returns:
  assumes "nt_udps n p = Some u" "queues_ok u n" "length (ud_write_queue u) \<le> length (final_answers (nt_sends n))"
  shows "\<exists>n'. uv__udp_sendmsg p n = Inr n'"
  using write_queue_drain_returns [OF assms(1)] queues_okD [OF assms(2)] assms(1,3)
  by (cases "ud_write_queue u = []") (auto simp: uv__udp_sendmsg_def udp_at_def)

section \<open>A batch that fails\<close>

lemma failed_batch:
  assumes "nt_udps n p = Some u" "queues_ok u n" "ud_write_queue u \<noteq> []" "nt_sends n = - e # rs" "0 < e" "0 \<notin> set rs"
    and "e \<noteq> EAGAIN" "e \<noteq> ENOBUFS" "e \<noteq> EINTR"
  shows "\<exists>n'. uv__udp_sendmsg p n = Inr n' \<and>
     socket_queues p n' = Some (ud_completed_queue u @ take 20 (ud_write_queue u), drop 20 (ud_write_queue u)) \<and>
     nt_wire n' = nt_wire n \<and> (\<forall>q \<in> set (take 20 (ud_write_queue u)). result_of n' q = - e)"
proof -
  let ?pkts = "take 20 (ud_write_queue u)"
  note q = queues_okD [OF assms(2)]
  define h where "h = map (Pair (io_fd u)) (payloads n ?pkts)"
  define n1 where "n1 = n\<lparr>nt_sends := rs, nt_errno := e\<rparr>"
  have h: "mmsghdrs n (io_fd u) ?pkts = Inr h"
    unfolding h_def using q(6) by (intro mmsghdrs_eq) (auto simp: reqs_ok_def dest: in_set_takeD)
  have s: "sendmmsg_retry h n = Inr (- 1, n1)"
    using assms(4,5,9) by (simp add: sendmmsg_retry.simps [of h n] sendmmsg_def n1_def)
  have "length (ud_write_queue u) > 0" using assms(3) by simp
  have "\<exists>n2. complete_loop (length ?pkts) (\<lambda>_. Inr (UV__ERR e)) p n1 = Inr n2 \<and> nt_udps n2 p = Some (moved (length ?pkts) u)"
  proof (intro exI conjI)
    show "complete_loop (length ?pkts) (\<lambda>_. Inr (UV__ERR e)) p n1 =
      Inr (n1\<lparr>nt_udps := (nt_udps n1)(p \<mapsto> moved (length ?pkts) u),
             nt_reqs := set_status (\<lambda>_. - e) (set (take (length ?pkts) (ud_write_queue u))) (nt_reqs n1)\<rparr>)"
    proof (rule complete_loop_eq)
      fix x assume "x \<in> set (take (length ?pkts) (ud_write_queue u))"
      then have "x \<in> set (ud_write_queue u)" by (rule in_set_takeD)
      then show "\<exists>r. nt_reqs n1 x = Some r \<and> Inr (UV__ERR e) = Inr (- e)"
        using q(6) by (auto simp: n1_def reqs_ok_def UV__ERR_def)
    qed (use assms q in \<open>simp_all add: n1_def\<close>)
  qed simp
  then obtain n2 where n2: "complete_loop (length ?pkts) (\<lambda>_. Inr (UV__ERR e)) p n1 = Inr n2"
    "nt_udps n2 p = Some (moved (length ?pkts) u)" by blast
  obtain n' where n': "uv__io_feed p n2 = Inr n'" using uv__io_feed_eq [OF n2(2)] by blast
  have part: "sent_part p u (length ?pkts) (\<lambda>_. - e) True n n'"
    using sent_part_failed [OF assms(1) q(3,6) assms(5,6)] n2(1) n' by (simp add: n1_def)
  have errno: "nt_errno n1 = e" by (simp add: n1_def)
  have "uv__udp_sendmsg p n = Inr n'"
    using assms(1,3,7,8) h s n2(1) n' errno
    by (simp add: uv__udp_sendmsg_def udp_at_def write_queue_drain.simps [of p n] Let_def del: udp_at_Inr length_take)
  moreover have k: "take (length ?pkts) (ud_write_queue u) = ?pkts" "drop (length ?pkts) (ud_write_queue u) = drop 20 (ud_write_queue u)"
    by (simp_all add: min_def)
  have "socket_queues p n' = Some (ud_completed_queue u @ ?pkts, drop 20 (ud_write_queue u))"
    using sent_part_fields(4) [OF part] k by (simp add: socket_queues_def moved_def del: length_take)
  moreover have "nt_wire n' = nt_wire n" using sent_part_fields(2) [OF part] assms(5) by (simp add: payloads_def)
  moreover have "result_of n' x = - e" if "x \<in> set ?pkts" for x
  proof -
    have "x \<in> set (ud_write_queue u)" using that by (rule in_set_takeD)
    then obtain r where "nt_reqs n x = Some r" using q(6) by (auto simp: reqs_ok_def)
    then show ?thesis using result_of_mark [OF sent_part_fields(1) [OF part]] that k assms(5) by (simp del: length_take)
  qed
  ultimately show ?thesis by blast
qed

section \<open>Closing\<close>

lemma udp_handle_stop_ok: "nt_udps n p = Some u \<Longrightarrow> \<exists>n'. udp_handle_stop p n = Inr n'"
  by (cases "ud_active u") (simp_all add: udp_handle_stop_def Let_def udp_at_def)

lemma finish_close_cancels:
  assumes "nt_udps n p = Some u" "queues_ok u n" "io_fd u = - 1" "io_pevents u = 0" "frees_requests calls"
    and fuel: "length (ud_completed_queue u @ ud_write_queue u) < fuel"
  shows "\<exists>n'. uv__udp_finish_close fuel calls p (log, n) =
       Inr (log @ map (\<lambda>q. (q, result_of n q)) (ud_completed_queue u) @ map (\<lambda>q. (q, UV_ECANCELED)) (ud_write_queue u), n') \<and>
     socket_queues p n' = Some ([], []) \<and> nt_wire n' = nt_wire n"
proof -
  let ?C = "ud_completed_queue u" and ?W = "ud_write_queue u"
  note q = queues_okD [OF assms(2)]
  define v where "v = moved (length ?W) u"
  define n1 where "n1 = n\<lparr>nt_udps := (nt_udps n)(p \<mapsto> v), nt_reqs := set_status (\<lambda>_. UV_ECANCELED) (set ?W) (nt_reqs n)\<rparr>"
  have cl: "complete_loop (length ?W) (\<lambda>_. Inr UV_ECANCELED) p n = Inr n1"
    using complete_loop_eq [OF assms(1) q(3), of "length ?W" "\<lambda>_. Inr UV_ECANCELED" "\<lambda>_. UV_ECANCELED"] q(6)
    by (auto simp: n1_def v_def reqs_ok_def)
  define v1 where "v1 = v\<lparr>ud_processing := True\<rparr>"
  define n2 where "n2 = set_udp p v1 n1"
  have v1: "ud_completed_queue v1 = ?C @ ?W" "ud_write_queue v1 = []" by (simp_all add: v1_def v_def moved_def)
  have rq: "reqs_ok n2 (?C @ ?W)"
  proof -
    have "reqs_ok n (?C @ ?W)" using q(5,6) by (auto simp: reqs_ok_def)
    then have "reqs_ok (n\<lparr>nt_reqs := set_status (\<lambda>_. UV_ECANCELED) (set ?W) (nt_reqs n)\<rparr>) (?C @ ?W)" by (simp only: reqs_ok_mark)
    then show ?thesis by (simp add: reqs_ok_def n2_def n1_def)
  qed
  have "completed_loop fuel calls p (log, n2) =
      Inr (log @ map (\<lambda>q. (q, result_of n2 q)) (?C @ ?W), called_back p v1 n2)"
    using completed_loop_eq [OF assms(5), of n2 p v1 fuel log] rq v1 q(2,3,4,7) fuel by (simp add: n2_def) (simp add: n1_def)
  moreover have "map (\<lambda>q. (q, result_of n2 q)) (?C @ ?W) =
      map (\<lambda>q. (q, result_of n q)) ?C @ map (\<lambda>q. (q, UV_ECANCELED)) ?W"
  proof -
    have "result_of n2 x = result_of n x" if "x \<in> set ?C" for x
      using that q(4) by (auto simp: result_of_def n2_def n1_def set_status_def)
    moreover have "result_of n2 x = UV_ECANCELED" if "x \<in> set ?W" for x
    proof -
      obtain r where "nt_reqs n x = Some r" using q(6) \<open>x \<in> set ?W\<close> by (auto simp: reqs_ok_def)
      then show ?thesis using that by (simp add: result_of_def n2_def n1_def set_status_def UV_ECANCELED_def)
    qed
    ultimately show ?thesis by simp
  qed
  ultimately have loop: "completed_loop fuel calls p (log, n2) =
      Inr (log @ map (\<lambda>q. (q, result_of n q)) ?C @ map (\<lambda>q. (q, UV_ECANCELED)) ?W, called_back p v1 n2)" by simp
  define n3 where "n3 = called_back p v1 n2"
  define v3 where "v3 = v1\<lparr>ud_completed_queue := [], ud_send_queue_size := 0, ud_send_queue_count := 0\<rparr>"
  have "queue_bytes n2 (?C @ ?W) = queue_bytes n (?C @ ?W)"
    using queue_bytes_mark [of n2 "\<lambda>_. UV_ECANCELED" "set ?W" n] by (simp add: n2_def n1_def)
  then have "nt_udps n3 p = Some v3"
    using q(9,10) by (simp add: n3_def called_back_def v1 v3_def queue_bytes_append) (simp add: v1_def v_def moved_def)
  moreover have ev: "check_events POLLIN = Inr ()" "check_events POLLOUT = Inr ()" "check_events (POLLIN OR POLLOUT) = Inr ()"
    by (simp_all add: check_events_def poll_mask_def POLLIN_def POLLOUT_def UV__POLLRDHUP_def UV__POLLPRI_def)
  moreover have "io_fd v3 = - 1" "io_pevents v3 = 0" "ud_write_queue v3 = []"
    using assms(3,4) by (simp_all add: v3_def v1_def v_def moved_def)
  ultimately have stop: "uv__io_stop p POLLOUT n3 = Inr n3" "udp_at n3 p = Inr v3" "uv__io_active v3 POLLIN = Inr False"
    "ud_write_queue v3 = []"
    by (simp_all add: uv__io_stop_def uv__io_active_def udp_at_def)
  obtain n4 where n4: "udp_handle_stop p n3 = Inr n4"
    using udp_handle_stop_ok stop(2) by (metis udp_at_Inr)
  have core: "core p n4 = core p n3" using udp_handle_stop_core [OF n4] by simp
  obtain v4 where v4: "nt_udps n4 p = Some v4" "core_udp v4 = core_udp v3" "nt_wire n4 = nt_wire n3"
    using core_eqD [OF core] stop(2) by (metis udp_at_Inr)
  define n5 where "n5 = set_udp p (v4\<lparr>ud_processing := False\<rparr>) n4"
  have "uv__udp_run_completed fuel calls p (log, n1) =
      Inr (log @ map (\<lambda>q. (q, result_of n q)) ?C @ map (\<lambda>q. (q, UV_ECANCELED)) ?W, n5)"
  proof -
    have "udp_at n1 p = Inr v" "\<not> ud_processing v" using q(1) by (simp_all add: n1_def v_def moved_def)
    then show ?thesis
      using loop [folded n3_def] stop n4 v4(1)
      by (simp add: uv__udp_run_completed_def n2_def [symmetric] v1_def [symmetric] n5_def udp_at_def del: udp_at_Inr)
  qed
  moreover have "ud_send_queue_size v4 = 0" "ud_send_queue_count v4 = 0" "ud_completed_queue v4 = []" "ud_write_queue v4 = []"
    using v4(2) stop(4) by (simp_all add: core_udp_def v3_def)
  moreover have "nt_wire n5 = nt_wire n" using v4(3) by (simp add: n5_def n3_def called_back_def n2_def n1_def)
  moreover have "uv__io_active u (POLLIN OR POLLOUT) = Inr False" using ev assms(4) by (simp add: uv__io_active_def)
  ultimately show ?thesis
    using assms(1,3) cl
    by (simp add: uv__udp_finish_close_def udp_at_def n5_def socket_queues_def)
qed

section \<open>Receiving\<close>

text \<open>Callbacks that allocate what is suggested and note the status, the bytes, the sender and the flags.\<close>

type_synonym received = "(int \<times> cells \<times> udp_addr option \<times> u32) list"

definition notes_datagrams :: "(received, 'cb) udp_calls \<Rightarrow> bool" where
  "notes_datagrams calls \<longleftrightarrow>
     (\<forall>cb k st. call_alloc calls cb k st = Inr ((Some (malloc_cells k), k), st)) \<and>
     (\<forall>cb p r base len a f s n.
        call_recv calls cb p r (Some base, len) a f (s, n) = Inr (s @ [(r, take (nat r) base, a, f)], n))"

definition receives :: "'cb uv_udp \<Rightarrow> bool" where
  "receives u \<longleftrightarrow> ud_alloc_cb u \<noteq> None \<and> ud_recv_cb u \<noteq> None \<and> \<not> ud_recvmmsg u \<and> io_fd u \<noteq> - 1"

definition noted :: "udp_addr \<times> byte list \<Rightarrow> int \<times> cells \<times> udp_addr option \<times> u32" where
  "noted x = (int (length (take UV__UDP_DGRAM_MAXSIZE (snd x))), map Some (take UV__UDP_DGRAM_MAXSIZE (snd x)), Some (fst x),
     if UV__UDP_DGRAM_MAXSIZE < length (snd x) then UV_UDP_PARTIAL else 0)"

lemma receive_one_datagram:
  assumes "notes_datagrams calls" "nt_udps n p = Some u" "receives u" "nt_recvs n = Inr x # rs"
  shows "receive_one calls p (malloc_cells UV__UDP_DGRAM_MAXSIZE) UV__UDP_DGRAM_MAXSIZE (s, n) =
    Inr (int (length (take UV__UDP_DGRAM_MAXSIZE (snd x))), s @ [noted x], n\<lparr>nt_recvs := rs\<rparr>)"
proof -
  obtain a d where x: "x = (a, d)" by (cases x)
  let ?m = "take UV__UDP_DGRAM_MAXSIZE d"
  obtain cb where cb: "ud_recv_cb u = Some cb" using assms(3) by (auto simp: receives_def)
  define base where "base = map Some ?m @ drop (length ?m) (malloc_cells UV__UDP_DGRAM_MAXSIZE)"
  have w: "cells_write (malloc_cells UV__UDP_DGRAM_MAXSIZE) 0 ?m = Inr base"
    by (simp add: cells_write_def arr_write_def base_def malloc_cells_def)
  have r: "recvmsg (malloc_cells UV__UDP_DGRAM_MAXSIZE) UV__UDP_DGRAM_MAXSIZE n =
      Inr (int (length ?m), base, Some a, UV__UDP_DGRAM_MAXSIZE < length d, n\<lparr>nt_recvs := rs\<rparr>)"
    using assms(4) w x by (simp add: recvmsg.simps Let_def)
  have "int (length ?m) \<noteq> - 1" by linarith
  then have rr: "recvmsg_retry (malloc_cells UV__UDP_DGRAM_MAXSIZE) UV__UDP_DGRAM_MAXSIZE n =
      Inr (int (length ?m), base, Some a, UV__UDP_DGRAM_MAXSIZE < length d, n\<lparr>nt_recvs := rs\<rparr>)"
    unfolding recvmsg_retry.simps [of "malloc_cells UV__UDP_DGRAM_MAXSIZE"] r by simp
  have "take (length ?m) base = map Some ?m" by (simp add: base_def)
  then show ?thesis
    using assms(1,2) cb \<open>int (length ?m) \<noteq> - 1\<close>
    by (simp add: receive_one_def rr udp_at_def notes_datagrams_def noted_def x del: length_take)
qed

lemma receive_one_empty:
  assumes "notes_datagrams calls" "nt_udps n p = Some u" "receives u" "nt_recvs n = Inl EAGAIN # rs"
  shows "receive_one calls p (malloc_cells UV__UDP_DGRAM_MAXSIZE) UV__UDP_DGRAM_MAXSIZE (s, n) =
    Inr (- 1, s @ [(0, [], None, 0)], n\<lparr>nt_recvs := rs, nt_errno := EAGAIN\<rparr>)"
proof -
  obtain cb where cb: "ud_recv_cb u = Some cb" using assms(3) by (auto simp: receives_def)
  have r: "recvmsg (malloc_cells UV__UDP_DGRAM_MAXSIZE) UV__UDP_DGRAM_MAXSIZE n =
      Inr (- 1, malloc_cells UV__UDP_DGRAM_MAXSIZE, None, False, n\<lparr>nt_recvs := rs, nt_errno := EAGAIN\<rparr>)"
    using assms(4) by (simp add: recvmsg.simps)
  have rr: "recvmsg_retry (malloc_cells UV__UDP_DGRAM_MAXSIZE) UV__UDP_DGRAM_MAXSIZE n =
      Inr (- 1, malloc_cells UV__UDP_DGRAM_MAXSIZE, None, False, n\<lparr>nt_recvs := rs, nt_errno := EAGAIN\<rparr>)"
    unfolding recvmsg_retry.simps [of "malloc_cells UV__UDP_DGRAM_MAXSIZE"] r by (simp add: EAGAIN_def EINTR_def)
  show ?thesis using assms(1,2) cb by (simp add: receive_one_def rr udp_at_def notes_datagrams_def)
qed

lemma recvmsg_loop_order:
  assumes calls: "notes_datagrams calls"
  shows "nt_udps n p = Some u \<Longrightarrow> receives u \<Longrightarrow> nt_recvs n = map Inr ds @ Inl EAGAIN # rs \<Longrightarrow> int (length ds) < count \<Longrightarrow>
   length ds < fuel \<Longrightarrow>
   recvmsg_loop fuel count calls p (s, n) =
     Inr (s @ map noted ds @ [(0, [], None, 0)], n\<lparr>nt_recvs := rs, nt_errno := EAGAIN\<rparr>)"
proof (induction ds arbitrary: fuel count s n)
  case (Cons x ds)
  obtain k where k: "fuel = Suc k" using Cons.prems(5) by (cases fuel) simp_all
  obtain ac where ac: "ud_alloc_cb u = Some ac" using Cons.prems(2) by (auto simp: receives_def)
  define n1 where "n1 = n\<lparr>nt_recvs := map Inr ds @ Inl EAGAIN # rs\<rparr>"
  have one: "receive_one calls p (malloc_cells UV__UDP_DGRAM_MAXSIZE) UV__UDP_DGRAM_MAXSIZE (s, n) =
      Inr (int (length (take UV__UDP_DGRAM_MAXSIZE (snd x))), s @ [noted x], n1)"
    using receive_one_datagram [OF calls Cons.prems(1,2)] Cons.prems(3) by (simp add: n1_def)
  have big: "UV__UDP_DGRAM_MAXSIZE \<noteq> 0" by (simp add: UV__UDP_DGRAM_MAXSIZE_def)
  have "nt_udps n1 p = Some u" using Cons.prems(1) by (simp add: n1_def)
  moreover have "recvmsg_loop k (count - 1) calls p (s @ [noted x], n1) =
      Inr ((s @ [noted x]) @ map noted ds @ [(0, [], None, 0)], n1\<lparr>nt_recvs := rs, nt_errno := EAGAIN\<rparr>)"
    using Cons.prems k by (intro Cons.IH) (simp_all add: n1_def)
  moreover have "int (length (take UV__UDP_DGRAM_MAXSIZE (snd x))) \<noteq> - 1" by linarith
  ultimately show ?case
    using k ac calls Cons.prems(1,2,4) one big
    by (simp add: udp_at_def notes_datagrams_def receives_def uv_udp_using_recvmmsg_def del: length_take) (simp add: n1_def)
next
  case Nil
  obtain k where k: "fuel = Suc k" using Nil.prems(5) by (cases fuel) simp_all
  obtain ac where ac: "ud_alloc_cb u = Some ac" using Nil.prems(2) by (auto simp: receives_def)
  have one: "receive_one calls p (malloc_cells UV__UDP_DGRAM_MAXSIZE) UV__UDP_DGRAM_MAXSIZE (s, n) =
    Inr (- 1, s @ [(0, [], None, 0)], n\<lparr>nt_recvs := rs, nt_errno := EAGAIN\<rparr>)"
    using receive_one_empty [OF calls Nil.prems(1,2)] Nil.prems(3) by simp
  have big: "UV__UDP_DGRAM_MAXSIZE \<noteq> 0" by (simp add: UV__UDP_DGRAM_MAXSIZE_def)
  show ?case
    using k ac calls Nil.prems(1,2) one big
    by (simp add: udp_at_def notes_datagrams_def receives_def uv_udp_using_recvmmsg_def)
qed

lemma uv__udp_recvmsg_order:
  assumes "notes_datagrams calls" "nt_udps n p = Some u" "receives u" "nt_recvs n = map Inr ds @ Inl EAGAIN # rs"
    "length ds < 32" "length ds < fuel"
  shows "uv__udp_recvmsg fuel calls p (s, n) =
     Inr (s @ map noted ds @ [(0, [], None, 0)], n\<lparr>nt_recvs := rs, nt_errno := EAGAIN\<rparr>)"
  using recvmsg_loop_order [OF assms(1-4), of 32 fuel s] assms(2,3,5,6)
  by (simp add: uv__udp_recvmsg_def udp_at_def receives_def)

end
