(* ===== verification/Relay.thy ===== *)
theory Relay
  imports In_Flight Uv_Udp_Ends
begin

text \<open>
  The program on top of libuv's sockets: the callbacks of \<open>socket.c\<close> and \<open>utils.c\<close> as the callbacks of a socket of
  \<open>Uv_Udp\<close>. What \<open>send_response\<close> and \<open>send_query\<close> add to \<open>sent\<close> is given to \<open>uv_udp_send\<close>; the request of a send is
  fresh memory, whose address \<open>malloc\<close> chooses. The addresses of the two sockets are the argument \<open>sock\<close>. The sockets
  are bound to IPv4 addresses, so the sender of a datagram has one.
\<close>

section \<open>Callbacks\<close>

datatype relay_cb = Alloc_Buffer | Bind_Read | Query_Read | On_Send

definition new_request :: "relay_cb uv_udp_send_t" where
  "new_request = \<lparr>rq_addr = None, rq_bufs = [], rq_cb = None, rq_status = 0\<rparr>"

definition send_packet :: "(relay_cb net \<Rightarrow> nat) \<Rightarrow> (socket_id \<Rightarrow> nat) \<Rightarrow> packet \<Rightarrow> relay_cb net \<Rightarrow> relay_cb net res" where
  "send_packet malloc sock pk n =
     bindE (cells_read (buf_base (pk_buf pk)) 0 (buf_len (pk_buf pk))) (\<lambda>data.
     bindE (uv_udp_send (malloc n) (sock (pk_socket pk)) [data] (Some (Udp_In (Sockaddr_In (pk_to pk)))) (Some On_Send)
              (set_req (malloc n) new_request n)) (\<lambda>(err, n). Inr n))"

fun send_packets :: "(relay_cb net \<Rightarrow> nat) \<Rightarrow> (socket_id \<Rightarrow> nat) \<Rightarrow> packet list \<Rightarrow> relay_cb net \<Rightarrow> relay_cb net res" where
  "send_packets malloc sock [] n = Inr n"
| "send_packets malloc sock (pk # pks) n = bindE (send_packet malloc sock pk n) (send_packets malloc sock pks)"

text \<open>The callback that got \<open>number\<close> bytes or a status; \<open>fresh\<close> is fresh memory of a message, \<open>now\<close> the time.\<close>

definition read_datagram :: "message_t \<Rightarrow> int \<Rightarrow> relay_cb \<Rightarrow> int \<Rightarrow> cells \<Rightarrow> udp_addr option \<Rightarrow> server_t \<Rightarrow> server_t res" where
  "read_datagram fresh now cb number base peer s =
     (if number \<le> 0 then Inr s
      else if cb = Query_Read then query_socket_read now number base s
      else
        case peer of
          Some (Udp_In (Sockaddr_In address)) \<Rightarrow> bind_socket_read fresh number base address s
        | _ \<Rightarrow> Inl Null_Deref)"

definition relay_calls ::
    "(relay_cb net \<Rightarrow> nat) \<Rightarrow> (socket_id \<Rightarrow> nat) \<Rightarrow> message_t \<Rightarrow> int \<Rightarrow> (server_t, relay_cb) udp_calls" where
  "relay_calls malloc sock fresh now =
     \<lparr>call_alloc = \<lambda>cb k st. Inr ((Some (buf_base (udp_alloc_buffer k)), buf_len (udp_alloc_buffer k)), st),
      call_recv = \<lambda>cb p number buf peer flags (s, n).
        bindE (case fst buf of None \<Rightarrow> Inr s | Some base \<Rightarrow> read_datagram fresh now cb number base peer s) (\<lambda>s'.
        bindE (send_packets malloc sock (drop (length (sent s)) (sent s')) n) (\<lambda>n'. Inr (s', n'))),
      call_send = \<lambda>cb q status (s, n). Inr (s, n\<lparr>nt_reqs := (nt_reqs n)(q := None)\<rparr>),
      call_close = \<lambda>cb p st. Inr st\<rparr>"

section \<open>Sending from an idle socket\<close>

text \<open>A socket of the server that receives and has nothing to send.\<close>

definition open_socket :: "relay_cb net \<Rightarrow> nat \<Rightarrow> relay_cb \<Rightarrow> int \<Rightarrow> bool" where
  "open_socket n p cb fd \<longleftrightarrow>
     (\<exists>u. nt_udps n p = Some u \<and> ud_type_udp u \<and> ud_alloc_cb u = Some Alloc_Buffer \<and> ud_recv_cb u = Some cb \<and>
        \<not> ud_recvmmsg u \<and> \<not> ud_connected u \<and> \<not> ud_processing u \<and> io_fd u = fd \<and> fd \<noteq> - 1 \<and>
        ud_send_queue_count u = 0 \<and> ud_write_queue u = [])"

text \<open>Such a socket after it has sent, as far as receiving is concerned.\<close>

definition receiving_socket :: "relay_cb net \<Rightarrow> nat \<Rightarrow> relay_cb \<Rightarrow> bool" where
  "receiving_socket n p cb \<longleftrightarrow>
     (\<exists>u. nt_udps n p = Some u \<and> ud_type_udp u \<and> ud_alloc_cb u = Some Alloc_Buffer \<and> ud_recv_cb u = Some cb \<and>
        \<not> ud_recvmmsg u \<and> io_fd u \<noteq> - 1)"

lemma open_receives: "open_socket n p cb fd \<Longrightarrow> receiving_socket n p cb"
  by (auto simp: open_socket_def receiving_socket_def)

lemma sendmsg_one:
  assumes u: "nt_udps n p = Some u" "ud_write_queue u = [q]" and req: "nt_reqs n q = Some req"
      "rq_addr req = Some (Udp_In (Sockaddr_In a))" "rq_bufs req = [data]" and k: "nt_sends n = k # ks" "1 \<le> k"
  shows "uv__udp_sendmsg p n = uv__io_feed p
     (set_udp p (u\<lparr>ud_write_queue := [], ud_completed_queue := ud_completed_queue u @ [q]\<rparr>)
       (set_req q (req\<lparr>rq_status := int (length data)\<rparr>)
         (n\<lparr>nt_sends := ks, nt_wire := nt_wire n @ [(io_fd u, Some (Udp_In (Sockaddr_In a)), [data])]\<rparr>)))"
proof -
  let ?h = "[(io_fd u, Some (Udp_In (Sockaddr_In a)), [data])]"
  let ?n = "n\<lparr>nt_sends := ks, nt_wire := nt_wire n @ ?h\<rparr>"
  obtain j where j: "nat k = Suc j" using k(2) by (cases "nat k") simp_all
  have h: "mmsghdrs n (io_fd u) [q] = Inr ?h" using req by (simp add: req_at_def)
  have m: "min k 1 = 1" using k(2) by simp
  have s: "sendmmsg_retry ?h n = Inr (1, ?n)"
    using k j m by (simp add: sendmmsg_retry.simps [of ?h] sendmmsg_def Let_def)
  have c: "complete_loop (nat 1) first_len p ?n = Inr
     (set_udp p (u\<lparr>ud_write_queue := [], ud_completed_queue := ud_completed_queue u @ [q]\<rparr>)
       (set_req q (req\<lparr>rq_status := int (length data)\<rparr>) ?n))"
    using u req(1,3) by (simp add: complete_head_def first_len_def arr_get_def udp_at_def req_at_def Let_def)
  show ?thesis unfolding uv__udp_sendmsg_def write_queue_drain.simps [of p n]
    using u h s c by (simp add: Let_def udp_at_def set_udp_def)
qed

text \<open>The datagram is on the wire when the send returns; the other sockets have not changed.\<close>

lemma send_packet_at_once:
  assumes op: "open_socket n (sock (pk_socket pk)) cb fd" and data: "cells_read (buf_base (pk_buf pk)) 0 (buf_len (pk_buf pk)) = Inr data"
    and k: "nt_sends n = k # ks" "1 \<le> k"
  shows "\<exists>n'. send_packets malloc sock [pk] n = Inr n' \<and>
     nt_wire n' = nt_wire n @ [(fd, Some (Udp_In (Sockaddr_In (pk_to pk))), [data])] \<and>
     nt_sends n' = ks \<and> nt_recvs n' = nt_recvs n \<and> receiving_socket n' (sock (pk_socket pk)) cb \<and>
     (\<forall>p. p \<noteq> sock (pk_socket pk) \<longrightarrow> nt_udps n' p = nt_udps n p)"
proof -
  let ?p = "sock (pk_socket pk)" and ?q = "malloc n" and ?a = "Some (Udp_In (Sockaddr_In (pk_to pk)))"
  obtain u where u: "nt_udps n ?p = Some u" "ud_type_udp u" "\<not> ud_connected u" "\<not> ud_processing u" "io_fd u = fd"
    "fd \<noteq> - 1" "ud_send_queue_count u = 0" "ud_write_queue u = []" "ud_alloc_cb u = Some Alloc_Buffer"
    "ud_recv_cb u = Some cb" "\<not> ud_recvmmsg u"
    using op by (auto simp: open_socket_def)
  let ?req = "new_request\<lparr>rq_addr := ?a, rq_cb := Some On_Send, rq_bufs := [data]\<rparr>"
  let ?u = "u\<lparr>ud_send_queue_size := ud_send_queue_size u + uv__count_bufs [data], ud_send_queue_count := 1,
              ud_write_queue := [?q]\<rparr>"
  define n1 where "n1 = set_udp ?p ?u (set_req ?q ?req (uv__req_register (set_req ?q new_request n)))"
  obtain n2 where n2: "udp_handle_start ?p n1 = Inr n2" using that
    by (cases "ud_active u") (auto simp: n1_def udp_handle_start_def udp_at_def set_udp_def Let_def)
  have u2: "nt_udps n2 ?p = Some (?u\<lparr>ud_active := True\<rparr>)" and q2: "nt_reqs n2 ?q = Some ?req" and
    same: "nt_sends n2 = k # ks" "nt_wire n2 = nt_wire n" "nt_recvs n2 = nt_recvs n" "\<forall>p. p \<noteq> ?p \<longrightarrow> nt_udps n2 p = nt_udps n p"
    using n2 k(1) by (auto simp: n1_def udp_handle_start_def udp_at_def set_udp_def set_req_def uv__req_register_def Let_def
        split: if_splits)
  let ?u3 = "?u\<lparr>ud_active := True, ud_write_queue := [], ud_completed_queue := ud_completed_queue u @ [?q]\<rparr>"
  define n3 where "n3 = set_udp ?p ?u3 (set_req ?q (?req\<lparr>rq_status := int (length data)\<rparr>)
         (n2\<lparr>nt_sends := ks, nt_wire := nt_wire n2 @ [(fd, ?a, [data])]\<rparr>))"
  have sm: "uv__udp_sendmsg ?p n2 = uv__io_feed ?p n3"
    using sendmsg_one [OF u2 _ q2 _ _ same(1) k(2)] u(5) by (simp add: n3_def)
  obtain n4 where n4: "uv__io_feed ?p n3 = Inr n4" by (simp add: uv__io_feed_def udp_at_def n3_def set_udp_def)
  have u4: "\<exists>b. nt_udps n4 ?p = Some (?u3\<lparr>io_pending := b\<rparr>)" and
    end4: "nt_wire n4 = nt_wire n @ [(fd, ?a, [data])]" "nt_sends n4 = ks" "nt_recvs n4 = nt_recvs n"
      "\<forall>p. p \<noteq> ?p \<longrightarrow> nt_udps n4 p = nt_udps n p"
    using n4 same by (auto simp: uv__io_feed_def udp_at_def n3_def set_udp_def set_req_def split: if_splits
        intro: exI [of _ True] exI [of _ "io_pending u"])
  obtain b where u4b: "nt_udps n4 ?p = Some (?u3\<lparr>io_pending := b\<rparr>)" using u4 by blast
  have "send_packets malloc sock [pk] n = Inr n4"
    using data u n2 sm n4 u4b by (simp add: send_packet_def uv_udp_send_def uv__udp_send_def uv__udp_check_before_send_def
        uv__udp_maybe_deferred_bind_def unless_err_def udp_at_def req_at_def n1_def Let_def set_req_def uv__req_register_def) 
  moreover have "receiving_socket n4 ?p cb" using u4 u by (auto simp: receiving_socket_def)
  ultimately show ?thesis using end4 by blast
qed

section \<open>Receiving\<close>

lemma receive_datagram:
  assumes rec: "receiving_socket n p cb" "nt_recvs n = Inr (peer, d) # Inl EAGAIN # rs" "length d \<le> UV__UDP_DGRAM_MAXSIZE"
    and read: "read_datagram fresh now cb (int (length d)) (filled UV__UDP_DGRAM_MAXSIZE d) (Some peer) s = Inr s'"
    and sent: "send_packets malloc sock (drop (length (sent s)) (sent s')) (n\<lparr>nt_recvs := Inl EAGAIN # rs\<rparr>) = Inr n'"
    and after: "receiving_socket n' p cb" "nt_recvs n' = Inl EAGAIN # rs"
  shows "uv__udp_io (Suc (Suc fuel)) (relay_calls malloc sock fresh now) p POLLIN (s, n) =
     Inr (s', n'\<lparr>nt_recvs := rs, nt_errno := EAGAIN\<rparr>)"
proof -
  let ?c = "relay_calls malloc sock fresh now" and ?b = "malloc_cells UV__UDP_DGRAM_MAXSIZE"
  obtain u where u: "nt_udps n p = Some u" "ud_type_udp u" "ud_alloc_cb u = Some Alloc_Buffer" "ud_recv_cb u = Some cb"
    "\<not> ud_recvmmsg u" "io_fd u \<noteq> - 1" using rec(1) by (auto simp: receiving_socket_def)
  obtain v where v: "nt_udps n' p = Some v" "ud_type_udp v" "ud_alloc_cb v = Some Alloc_Buffer" "ud_recv_cb v = Some cb"
    "\<not> ud_recvmmsg v" "io_fd v \<noteq> - 1" using after(1) by (auto simp: receiving_socket_def)
  have big: "UV__UDP_DGRAM_MAXSIZE \<noteq> 0" by (simp add: UV__UDP_DGRAM_MAXSIZE_def)
  have w: "cells_write ?b 0 d = Inr (filled UV__UDP_DGRAM_MAXSIZE d)"
    using rec(3) by (simp add: cells_write_def arr_write_def filled_def malloc_cells_def)
  have "recvmsg ?b UV__UDP_DGRAM_MAXSIZE n = Inr (int (length d), filled UV__UDP_DGRAM_MAXSIZE d, Some peer, False,
      n\<lparr>nt_recvs := Inl EAGAIN # rs\<rparr>)"
    using rec(2,3) w by (simp add: recvmsg.simps Let_def)
  moreover have nn: "int (length d) \<noteq> - 1" by linarith
  ultimately have "recvmsg_retry ?b UV__UDP_DGRAM_MAXSIZE n = Inr (int (length d), filled UV__UDP_DGRAM_MAXSIZE d,
      Some peer, False, n\<lparr>nt_recvs := Inl EAGAIN # rs\<rparr>)"
    unfolding recvmsg_retry.simps [of ?b] by simp
  then have one: "receive_one ?c p ?b UV__UDP_DGRAM_MAXSIZE (s, n) = Inr (int (length d), s', n')"
    using u(1,4) read sent nn by (simp add: receive_one_def udp_at_def relay_calls_def)
  have "recvmsg ?b UV__UDP_DGRAM_MAXSIZE n' = Inr (- 1, ?b, None, False, n'\<lparr>nt_recvs := rs, nt_errno := EAGAIN\<rparr>)"
    using after(2) by (simp add: recvmsg.simps)
  then have "recvmsg_retry ?b UV__UDP_DGRAM_MAXSIZE n' = Inr (- 1, ?b, None, False, n'\<lparr>nt_recvs := rs, nt_errno := EAGAIN\<rparr>)"
    unfolding recvmsg_retry.simps [of ?b] by (simp add: EAGAIN_def EINTR_def)
  then have two: "receive_one ?c p ?b UV__UDP_DGRAM_MAXSIZE (s', n') = Inr (- 1, s', n'\<lparr>nt_recvs := rs, nt_errno := EAGAIN\<rparr>)"
    using v(1,4) by (simp add: receive_one_def udp_at_def relay_calls_def read_datagram_def)
  have alloc: "call_alloc ?c Alloc_Buffer UV__UDP_DGRAM_MAXSIZE st = Inr ((Some ?b, UV__UDP_DGRAM_MAXSIZE), st)" for st
    by (simp add: relay_calls_def udp_alloc_buffer_def)
  have "recvmsg_loop (Suc fuel) 31 ?c p (s', n') = Inr (s', n'\<lparr>nt_recvs := rs, nt_errno := EAGAIN\<rparr>)"
    using v two alloc big by (simp add: udp_at_def uv_udp_using_recvmmsg_def)
  then have "recvmsg_loop (Suc (Suc fuel)) 32 ?c p (s, n) = Inr (s', n'\<lparr>nt_recvs := rs, nt_errno := EAGAIN\<rparr>)"
    using u v(1,4,6) one alloc big nn by (simp add: udp_at_def uv_udp_using_recvmmsg_def)
  moreover have "POLLIN AND POLLIN \<noteq> 0" "POLLIN AND POLLOUT = 0" by (simp_all add: POLLIN_def POLLOUT_def)
  ultimately show ?thesis
    using u by (simp add: uv__udp_io_def uv__udp_recvmsg_def udp_at_def)
qed

section \<open>A question and its reply\<close>

lemma cells_read_wire: "cells_read (buf_base (wire_packet m)) 0 (buf_len (wire_packet m)) = Inr (wire_message m)"
  by (simp add: wire_packet_def cells_read_filled)

text \<open>The datagram that holds a request with one question, as it is read into the buffer.\<close>

definition question_datagram :: "message_t \<Rightarrow> query_t \<Rightarrow> bool" where
  "question_datagram m q \<longleftrightarrow> message_sound m \<and> queries m = Some [q] \<and> query_count m = 1 \<and> length (wire_message m) \<le> 1500"

lemma question_datagram_request:
  assumes "question_datagram m q"
  shows "request m q (int (length (wire_message m))) (filled UV__UDP_DGRAM_MAXSIZE (wire_message m))"
    "length (wire_message m) \<le> UV__UDP_DGRAM_MAXSIZE"
  using assms has_at_map_Some [of "wire_message m"]
  by (auto simp: question_datagram_def request_def filled_def UV__UDP_DGRAM_MAXSIZE_def wire_message_def)

lemma exchange_on_the_wire:
  assumes idle: "idle s" and tc: "room_for (length (answer_list m')) (cname_table s)"
    and m: "question_datagram m q" "answer_of s q = Inr Miss" and m': "question_datagram m' q" "msg_id m' = msg_id m"
    and b: "open_socket n (sock Bind_Socket) Bind_Read bfd" and q: "open_socket n (sock Query_Socket) Query_Read qfd"
    and two: "sock Bind_Socket \<noteq> sock Query_Socket"
    and recvs: "nt_recvs n = [Inr (Udp_In (Sockaddr_In address), wire_message m), Inl EAGAIN,
                              Inr (peer, wire_message m'), Inl EAGAIN]"
    and sends: "nt_sends n = [k, k']" "1 \<le> k" "1 \<le> k'"
  shows "\<exists>st s2 n2. uv__udp_io (Suc (Suc fuel)) (relay_calls malloc sock fresh now) (sock Bind_Socket) POLLIN (s, n) = Inr st \<and>
     uv__udp_io (Suc (Suc fuel)) (relay_calls malloc sock fresh now') (sock Query_Socket) POLLIN st = Inr (s2, n2) \<and>
     nt_wire n2 = nt_wire n @
       [(qfd, Some (Udp_In (Sockaddr_In (dns_address s))), [wire_message (prepare_message m)]),
        (bfd, Some (Udp_In (Sockaddr_In address)), [wire_message (prepare_message m')])] \<and>
     srv_inv s2 \<and> ht_lookup (clients_hash_table s2) = Map.empty"
proof -
  note rq = question_datagram_request [OF m(1)] and rp = question_datagram_request [OF m'(1)]
  have pos: "0 < int (length (wire_message m))" "0 < int (length (wire_message m'))"
    using rq(1) rp(1) unfolding request_def by linarith+
  from exchange_correct [OF idle tc rq(1) m(2) rp(1) m'(2), of fresh address now'] obtain s1 s2 where
    s1: "bind_socket_read fresh (int (length (wire_message m))) (filled UV__UDP_DGRAM_MAXSIZE (wire_message m)) address s = Inr s1"
      "sent s1 = sent s @ [\<lparr>pk_socket = Query_Socket, pk_buf = wire_packet (prepare_message m), pk_to = dns_address s\<rparr>]" and
    s2: "query_socket_read now' (int (length (wire_message m'))) (filled UV__UDP_DGRAM_MAXSIZE (wire_message m')) s1 = Inr s2"
      "sent s2 = sent s1 @ [\<lparr>pk_socket = Bind_Socket, pk_buf = wire_packet (prepare_message m'), pk_to = address\<rparr>]"
      "srv_inv s2" "ht_lookup (clients_hash_table s2) = Map.empty"
    by blast
  let ?r1 = "[Inl EAGAIN, Inr (peer, wire_message m'), Inl EAGAIN]" and ?r2 = "[Inl EAGAIN]"
  let ?pk1 = "\<lparr>pk_socket = Query_Socket, pk_buf = wire_packet (prepare_message m), pk_to = dns_address s\<rparr>"
    and ?pk2 = "\<lparr>pk_socket = Bind_Socket, pk_buf = wire_packet (prepare_message m'), pk_to = address\<rparr>"
  have "open_socket (n\<lparr>nt_recvs := ?r1\<rparr>) (sock (pk_socket ?pk1)) Query_Read qfd" using q by (simp add: open_socket_def)
  from send_packet_at_once [where sock = sock and pk = ?pk1, OF this, of "wire_message (prepare_message m)" k "[k']" malloc] sends cells_read_wire obtain n1 where
    n1: "send_packets malloc sock [?pk1] (n\<lparr>nt_recvs := ?r1\<rparr>) = Inr n1"
      "nt_wire n1 = nt_wire n @ [(qfd, Some (Udp_In (Sockaddr_In (dns_address s))), [wire_message (prepare_message m)])]"
      "nt_sends n1 = [k']" "nt_recvs n1 = ?r1" "receiving_socket n1 (sock Query_Socket) Query_Read"
      "\<forall>p. p \<noteq> sock Query_Socket \<longrightarrow> nt_udps n1 p = nt_udps n p"
    by auto
  have b1: "open_socket n1 (sock Bind_Socket) Bind_Read bfd" using b n1(6) two by (simp add: open_socket_def)
  have io1: "uv__udp_io (Suc (Suc fuel)) (relay_calls malloc sock fresh now) (sock Bind_Socket) POLLIN (s, n) =
      Inr (s1, n1\<lparr>nt_recvs := tl ?r1, nt_errno := EAGAIN\<rparr>)"
    by (rule receive_datagram [where d = "wire_message m" and peer = "Udp_In (Sockaddr_In address)", OF open_receives [OF b]])
      (use recvs rq(2) s1 n1 pos open_receives [OF b1] in \<open>simp_all add: read_datagram_def\<close>)
  let ?n1 = "n1\<lparr>nt_recvs := tl ?r1, nt_errno := EAGAIN\<rparr>"
  have "open_socket (?n1\<lparr>nt_recvs := ?r2\<rparr>) (sock (pk_socket ?pk2)) Bind_Read bfd" using b1 by (simp add: open_socket_def)
  from send_packet_at_once [where sock = sock and pk = ?pk2, OF this, of "wire_message (prepare_message m')" k' "[]" malloc] sends n1(2,3) cells_read_wire
  obtain n2 where
    n2: "send_packets malloc sock [?pk2] (?n1\<lparr>nt_recvs := ?r2\<rparr>) = Inr n2"
      "nt_wire n2 = nt_wire n1 @ [(bfd, Some (Udp_In (Sockaddr_In address)), [wire_message (prepare_message m')])]"
      "nt_recvs n2 = ?r2" "\<forall>p. p \<noteq> sock Bind_Socket \<longrightarrow> nt_udps n2 p = nt_udps n1 p"
    by auto
  have q2: "receiving_socket n2 (sock Query_Socket) Query_Read"
    using n1(5) n2(4) two by (simp add: receiving_socket_def)
  have "receiving_socket ?n1 (sock Query_Socket) Query_Read" using n1(5) by (simp add: receiving_socket_def)
  then have io2: "uv__udp_io (Suc (Suc fuel)) (relay_calls malloc sock fresh now') (sock Query_Socket) POLLIN (s1, ?n1) =
      Inr (s2, n2\<lparr>nt_recvs := [], nt_errno := EAGAIN\<rparr>)"
    by (rule receive_datagram [where d = "wire_message m'" and peer = peer]) (use rp(2) s2(1,2) n2 q2 pos in \<open>simp_all add: read_datagram_def\<close>)
  from io1 io2 n1(2) n2(2) s2(3,4) show ?thesis
    by (intro exI [of _ "(s1, ?n1)"] exI [of _ s2] exI [of _ "n2\<lparr>nt_recvs := [], nt_errno := EAGAIN\<rparr>"]) simp
qed

end
