(* ===== verification/Samples.thy ===== *)
theory Samples
  imports Clear_Timer Uv_Idna_Correct Relay
begin

text \<open>Concrete inputs on which the properties are applied: a question, a reply, a server that has just started.\<close>

definition sample_name :: string_t where
  "sample_name = [97, 46, 98]"

definition sample_question :: query_t where
  "sample_question = \<lparr>q_name = sample_name, q_type = 1, q_class = 1\<rparr>"

definition sample_query :: message_t where
  "sample_query = \<lparr>msg_id = 7,
     msg_flags = \<lparr>QR = 0, Opcode = 0, AA = 0, TC = 0, RD = 1, RA = 0, Z = 0, RCODE = 0\<rparr>,
     query_count = 1, answer_count = 0, authority_count = 0, additional_count = 0,
     queries = Some [sample_question], answers = None, authorities = None, additional = None\<rparr>"

definition sample_record :: resource_record_t where
  "sample_record = generate_ipv4_response sample_name 0x04030201"

definition sample_reply :: message_t where
  "sample_reply = sample_query\<lparr>msg_flags := (msg_flags sample_query)\<lparr>QR := 1\<rparr>,
     answer_count := 1, answers := Some [sample_record]\<rparr>"

definition sample_datagram :: "message_t \<Rightarrow> cells" where
  "sample_datagram m = map Some (wire_message m)"

definition sample_client6 :: sockaddr_in6 where
  "sample_client6 = \<lparr>sin6_family = 10, sin6_port = 0x3500, sin6_flowinfo = 0,
     sin6_addr = [0x20, 1, 0x0d, 0xb8, 0, 0, 0, 0, 0, 0, 0, 0, 0, 0, 0, 1], sin6_scope_id = 0\<rparr>"

definition sample_client :: sockaddr_in where
  "sample_client = \<lparr>sin_family = AF_INET, sin_port = 9, s_addr = 5\<rparr>"

definition sample_blank :: server_t where
  "sample_blank = \<lparr>ipv4_table = hash_table_new, ipv6_table = hash_table_new, cname_table = hash_table_new,
     clients_hash_table = hash_table_new, bind_address = sample_client, query_address = sample_client,
     dns_address = sample_client, bind_receiving = False, query_receiving = False, bind_data = None,
     query_data = None, sent = []\<rparr>"

definition sample_server :: server_t where
  "sample_server = started sample_blank 0x2C09030A"

lemmas sample_defs = sample_name_def sample_question_def sample_query_def sample_record_def sample_reply_def
  generate_ipv4_response_def

lemma sample_name_sound: "name_sound sample_name"
  by (simp add: name_sound_def sample_name_def dot_def)

lemma sample_query_sound: "message_sound sample_query"
  using sample_name_sound
  by (simp add: message_sound_def sample_query_def sample_question_def flags_sound_def flags_ok_def)

lemma sample_reply_sound: "message_sound sample_reply"
  using sample_name_sound
  by (simp add: message_sound_def sample_reply_def sample_query_def sample_question_def flags_sound_def flags_ok_def
      sample_record_def generate_ipv4_response_def rr_sound_def)

lemma sample_wire_length:
  "length (wire_message sample_query) = 21" "length (wire_message sample_reply) = 40"
  by (simp_all add: wire_message_def sample_defs length_wire_header length_wire_query wire_rr_def length_wire_rr_head wire_rdata_def be32_def)

lemma sample_request:
  "request sample_query sample_question 21 (sample_datagram sample_query)"
  "request sample_reply sample_question 40 (sample_datagram sample_reply)"
  using sample_query_sound sample_reply_sound has_at_map_Some [of _ "[]"]
  by (simp_all add: request_def sample_wire_length sample_datagram_def)
    (simp_all add: sample_reply_def sample_query_def)

lemma sample_idle: "idle sample_server"
  by (simp add: idle_def srv_inv_def srv_room_def sample_server_def started_def new_correct v4_filled_def)

lemma sample_tables:
  "ht_lookup (ipv4_table sample_server) = Map.empty" "ht_lookup (ipv6_table sample_server) = Map.empty"
  "ht_lookup (cname_table sample_server) = Map.empty" "ht_lookup (clients_hash_table sample_server) = Map.empty"
  by (simp_all add: sample_server_def started_def new_correct)

lemma sample_miss: "answer_of sample_server sample_question = Inr Miss"
  using answer_of_address [of sample_server sample_question] sample_idle
  by (simp add: idle_def sample_tables sample_question_def)

lemma sample_reply_addresses: "addresses_reply sample_name [0x04030201] sample_reply"
  by (simp add: addresses_reply_def answer_list_def sample_defs)

lemma sample_room: "room_for n (cname_table sample_server)" if "n \<le> 4"
proof -
  have "room_for 4 (cname_table sample_server)"
    by (simp add: room_for_def sample_server_def started_def hash_table_new_def)
  moreover have "2 ^ n * x \<le> 2 ^ 4 * x" for x :: nat
    using that by (intro mult_le_mono1 power_increasing) simp_all
  ultimately show ?thesis unfolding room_for_def by (meson le_trans)
qed

text \<open>Two clients that ask the same question with different ids.\<close>

definition sample_asked :: "u16 \<Rightarrow> u16 \<Rightarrow> asked" where
  "sample_asked i port = \<lparr>as_message = sample_query\<lparr>msg_id := i\<rparr>, as_query = sample_question, as_number = 21,
     as_base = sample_datagram (sample_query\<lparr>msg_id := i\<rparr>), as_address = sample_client\<lparr>sin_port := port\<rparr>\<rparr>"

lemma sample_asked_misses: "misses sample_server (sample_asked i port)"
proof -
  let ?m = "sample_query\<lparr>msg_id := i\<rparr>"
  have "message_sound ?m"
    using sample_name_sound
    by (simp add: message_sound_def sample_query_def sample_question_def flags_sound_def flags_ok_def)
  moreover have "length (wire_message ?m) = 21"
    by (simp add: wire_message_def sample_defs length_wire_header length_wire_query)
  ultimately show ?thesis
    using sample_miss has_at_map_Some [of "wire_message ?m" "[]"]
    by (simp add: misses_def sample_asked_def request_def sample_datagram_def) (simp add: sample_query_def)
qed

lemma sample_asked_keys: "distinct (map client_key [sample_asked 7 9, sample_asked 8 10])"
  by code_simp

lemma sample_clients_room: "room_for 2 (clients_hash_table sample_server)"
  by (simp add: room_for_def sample_server_def started_def hash_table_new_def)

text \<open>A table with one name in it.\<close>

lemma sample_put: "\<exists>t. hash_table_put hash_table_new (Some k) (Some d) = Inr t \<and> ht_inv t \<and> ht_lookup t = [k \<mapsto> d] \<and>
     ht_removable t k"
proof -
  from put_correct [OF new_correct(1,2), of k d] obtain t where
    "hash_table_put hash_table_new (Some k) (Some d) = Inr t" by blast
  with put_first_removable [OF new_correct(1,2,3) this] show ?thesis by blast
qed

definition sample_entry :: ipv4_cache_t where
  "sample_entry = \<lparr>v4_node = [0x04030201], v4_ttl = 120, v4_timestamp = 100, v4_manual = False\<rparr>"

text \<open>The two sockets of the server, and what arrives for them: the question and its reply.\<close>

definition sample_relay_socket :: "relay_cb \<Rightarrow> int \<Rightarrow> relay_cb uv_udp" where
  "sample_relay_socket cb fd = \<lparr>ud_type_udp = True, ud_active = True, ud_ref = True, ud_closing = False, ud_closed = False,
     ud_ipv6 = False, ud_bound = True, ud_processing = False, ud_connected = False, ud_recvmmsg = False,
     ud_alloc_cb = Some Alloc_Buffer, ud_recv_cb = Some cb, ud_close_cb = None, ud_send_queue_size = 0,
     ud_send_queue_count = 0, ud_write_queue = [], ud_completed_queue = [], io_fd = fd, io_pevents = 1, io_events = 1,
     io_pending = False\<rparr>"

definition sample_sock :: "socket_id \<Rightarrow> nat" where
  "sample_sock i = (case i of Bind_Socket \<Rightarrow> 1 | Query_Socket \<Rightarrow> 2)"

definition sample_malloc :: "relay_cb net \<Rightarrow> nat" where
  "sample_malloc n = (if nt_reqs n 1 = None then 1 else 2)"

definition sample_relay_net :: "relay_cb net" where
  "sample_relay_net = \<lparr>nt_active_handles = 2, nt_active_reqs = 0, nt_handle_queue = [1, 2], nt_watcher_queue = [],
     nt_pending_queue = [], nt_running_queue = [], nt_closing_handles = [],
     nt_watchers = replicate 5 None @ [Some 1, Some 2] @ replicate 7 None, nt_nfds = 2,
     nt_udps = [1 \<mapsto> sample_relay_socket Bind_Read 5, 2 \<mapsto> sample_relay_socket Query_Read 6],
     nt_reqs = Map.empty, nt_errno = 0, nt_no_memory = False, nt_calls = [], nt_sends = [1, 1],
     nt_recvs = [Inr (Udp_In (Sockaddr_In sample_client), wire_message sample_query), Inl EAGAIN,
                 Inr (Udp_In (Sockaddr_In (dns_address sample_server)), wire_message sample_reply), Inl EAGAIN],
     nt_mrecvs = [], nt_wire = [], nt_epoll = [], nt_batch = None, nt_options = []\<rparr>"

lemma sample_relay_sockets:
  "open_socket sample_relay_net (sample_sock Bind_Socket) Bind_Read 5"
  "open_socket sample_relay_net (sample_sock Query_Socket) Query_Read 6"
  by (simp_all add: open_socket_def sample_relay_net_def sample_sock_def sample_relay_socket_def)

lemma sample_relay_answers:
  "nt_recvs sample_relay_net = [Inr (Udp_In (Sockaddr_In sample_client), wire_message sample_query), Inl EAGAIN,
     Inr (Udp_In (Sockaddr_In (dns_address sample_server)), wire_message sample_reply), Inl EAGAIN]"
  "nt_sends sample_relay_net = [1, 1]"
  by (simp_all add: sample_relay_net_def)

lemma sample_question_datagrams:
  "question_datagram sample_query sample_question" "question_datagram sample_reply sample_question"
  using sample_request by (simp_all add: question_datagram_def request_def)

section \<open>Timers\<close>

text \<open>A loop at time 10 with two timers: the first active, due since time 5 and repeating, the second idle.\<close>

definition sample_timer :: "bool \<Rightarrow> nat uv_timer" where
  "sample_timer b = \<lparr>tm_cb = Some 3, tm_timeout = 5, tm_repeat = 7, tm_start_id = 0, tm_active = b,
     tm_closing = False, tm_ref = True\<rparr>"

definition sample_node :: heap_node where
  "sample_node = \<lparr>hn_left = None, hn_right = None, hn_parent = None\<rparr>"

definition sample_heap :: heap where
  "sample_heap = \<lparr>hp_min = Some 0, hp_nelts = 1, hp_nodes = [0 \<mapsto> sample_node, 1 \<mapsto> sample_node]\<rparr>"

definition sample_loop :: "nat uv_loop" where
  "sample_loop = \<lparr>lp_time = 10, lp_timer_counter = 1, lp_active_handles = 1, lp_handle_queue = [0, 1],
     lp_timer_heap = sample_heap, lp_timers = [0 \<mapsto> sample_timer True, 1 \<mapsto> sample_timer False]\<rparr>"

definition sample_idle_loop :: "nat uv_loop" where
  "sample_idle_loop = \<lparr>lp_time = 10, lp_timer_counter = 0, lp_active_handles = 0, lp_handle_queue = [1],
     lp_timer_heap = sample_heap\<lparr>hp_min := None, hp_nelts := 0\<rparr>, lp_timers = [1 \<mapsto> sample_timer False]\<rparr>"

lemma sample_heap_holds: "holds lt sample_heap {0}"
proof -
  have "{p. index p \<le> 1} = {[]}"
  proof -
    have "p = []" if "index p \<le> 1" for p using that index_pos [of p] by (cases p) auto
    then show ?thesis by auto
  qed
  then have "heap_ok lt sample_heap (Node Leaf 0 Leaf)"
    by (simp add: heap_ok_def rep_def full_def sample_heap_def sample_node_def)
  then show ?thesis unfolding holds_def by (intro exI [of _ "Node Leaf 0 Leaf"]) simp
qed

lemma sample_loop_ok: "timers_ok sample_loop" "active sample_loop = {0}" "due sample_loop = {0}"
proof -
  show a: "active sample_loop = {0}"
    by (auto simp: active_def sample_loop_def sample_timer_def split: if_splits)
  then show "timers_ok sample_loop"
    using sample_heap_holds
    by (auto simp: timers_ok_def sample_loop_def sample_timer_def sample_heap_def split: if_splits)
  show "due sample_loop = {0}"
    unfolding due_def a by (simp add: sample_loop_def sample_timer_def container_of_def)
qed

lemma sample_idle_loop_ok: "timers_ok sample_idle_loop" "active sample_idle_loop = {}"
proof -
  show a: "active sample_idle_loop = {}"
    by (auto simp: active_def sample_idle_loop_def sample_timer_def split: if_splits)
  then show "timers_ok sample_idle_loop"
    by (auto simp: timers_ok_def holds_empty sample_idle_loop_def sample_timer_def sample_heap_def split: if_splits)
qed

end
