(* ===== verification/Uv_Io_Correct.thy ===== *)
theory Uv_Io_Correct
  imports Uv_Io
begin

text \<open>The table of watchers grows to a power of two less two and then holds every descriptor it is asked for.\<close>

unbundle bit_operations_syntax

text \<open>After a step the bits of \<open>y\<close> are those of \<open>x\<close> moved down by less than \<open>2 * k\<close> places.\<close>

definition spread :: "nat \<Rightarrow> u32 \<Rightarrow> u32 \<Rightarrow> bool" where
  "spread k x y \<longleftrightarrow> (\<forall>i. bit y i \<longleftrightarrow> (\<exists>d < k. bit x (i + d)))"

lemma spread_1: "spread 1 x x"
  by (simp add: spread_def)

lemma spread_step:
  assumes "spread k x y" "m = k + k" "y' = y OR drop_bit k y"
  shows "spread m x y'"
  unfolding spread_def assms(2,3)
proof
  fix i
  have "bit (y OR drop_bit k y) i \<longleftrightarrow> (\<exists>d < k. bit x (i + d)) \<or> (\<exists>d < k. bit x (i + k + d))"
    using assms(1) by (simp add: spread_def bit_simps add.commute)
  also have "\<dots> \<longleftrightarrow> (\<exists>d < k + k. bit x (i + d))"
  proof
    assume "\<exists>d < k + k. bit x (i + d)"
    then obtain d where "d < k + k" "bit x (i + d)" by blast
    then show "(\<exists>d < k. bit x (i + d)) \<or> (\<exists>d < k. bit x (i + k + d))"
    proof (cases "d < k")
      case False
      then have "d - k < k \<and> bit x (i + k + (d - k))" using \<open>d < k + k\<close> \<open>bit x (i + d)\<close> by simp
      then show ?thesis by blast
    qed auto
  next
    assume "(\<exists>d < k. bit x (i + d)) \<or> (\<exists>d < k. bit x (i + k + d))"
    then show "\<exists>d < k + k. bit x (i + d)" by (metis add.assoc add_less_cancel_left trans_less_add1)
  qed
  finally show "bit (y OR drop_bit k y) i \<longleftrightarrow> (\<exists>d < k + k. bit x (i + d))" .
qed

lemma spread_32:
  "y = x OR drop_bit 1 x \<Longrightarrow> z = y OR drop_bit 2 y \<Longrightarrow> w = z OR drop_bit 4 z \<Longrightarrow> v = w OR drop_bit 8 w \<Longrightarrow>
   spread 32 x (v OR drop_bit 16 v)"
proof -
  assume y: "y = x OR drop_bit 1 x" and z: "z = y OR drop_bit 2 y" and w: "w = z OR drop_bit 4 z" and v: "v = w OR drop_bit 8 w"
  have "spread 2 x y" by (rule spread_step [OF spread_1 _ y]) simp
  then have "spread 4 x z" by (rule spread_step [OF _ _ z]) simp
  then have "spread 8 x w" by (rule spread_step [OF _ _ w]) simp
  then have "spread 16 x v" by (rule spread_step [OF _ _ v]) simp
  then show ?thesis by (rule spread_step) simp_all
qed

lemma spread_mask:
  fixes x y :: u32
  assumes "spread 32 x y" "2 ^ k \<le> unat x" "unat x < 2 ^ (k + 1)" "k < 32"
  shows "y = mask (k + 1)"
proof (rule bit_word_eqI)
  fix i assume "i < LENGTH(32)"
  have b: "bit x j \<longleftrightarrow> bit (unat x) j" for j by (simp add: bit_unsigned_iff)
  have "unat x div 2 ^ k = 1" using assms(2,3) by (simp add: div_nat_eqI)
  then have "bit (unat x) k" by (simp add: bit_iff_odd)
  then have top: "bit x k" using b by blast
  have none: "\<not> bit x j" if "k < j" for j
  proof -
    have "(2 :: nat) ^ (k + 1) \<le> 2 ^ j" using that by (intro power_increasing) simp_all
    then have "unat x < 2 ^ j" using assms(3) by linarith
    then have "\<not> bit (unat x) j" by (simp add: bit_iff_odd)
    then show ?thesis using b by blast
  qed
  have "bit y i \<longleftrightarrow> (\<exists>d < 32. bit x (i + d))" using assms(1) by (simp add: spread_def)
  also have "\<dots> \<longleftrightarrow> i \<le> k"
  proof
    assume "i \<le> k"
    then show "\<exists>d < 32. bit x (i + d)" using top assms(4) by (intro exI [of _ "k - i"]) auto
  next
    assume "\<exists>d < 32. bit x (i + d)"
    then show "i \<le> k" using none by (metis add_leD1 not_le)
  qed
  finally show "bit y i \<longleftrightarrow> bit (mask (k + 1) :: u32) i" using \<open>i < LENGTH(32)\<close> by (auto simp: bit_mask_iff)
qed

lemma next_power_of_two_eq:
  assumes "0 < val" "unat val \<le> 2 ^ 31"
  shows "\<exists>k \<le> (31 :: nat). next_power_of_two val = 2 ^ k \<and> unat val \<le> 2 ^ k \<and> (k = 0 \<or> 2 ^ (k - 1) < unat val)"
proof -
  define x where "x = val - 1"
  have pos: "0 < unat val" using assms(1) by (simp add: word_less_nat_alt)
  then have x: "unat x = unat val - 1" by (simp add: x_def unat_sub word_le_nat_alt)
  define y where "y = x OR drop_bit 1 x"
  define z where "z = y OR drop_bit 2 y"
  define w where "w = z OR drop_bit 4 z"
  define v where "v = w OR drop_bit 8 w"
  have n: "next_power_of_two val = (v OR drop_bit 16 v) + 1"
    by (simp add: next_power_of_two_def Let_def x_def y_def z_def w_def v_def)
  have s: "spread 32 x (v OR drop_bit 16 v)" by (rule spread_32 [OF y_def z_def w_def v_def])
  show ?thesis
  proof (cases "unat x = 0")
    case True
    then have "x = 0" by (simp add: unat_eq_0)
    then have "v OR drop_bit 16 v = 0" using s by (intro bit_word_eqI) (simp add: spread_def)
    then show ?thesis using True x pos by (intro exI [of _ 0]) (simp add: n)
  next
    case False
    obtain k where k: "2 ^ k \<le> unat x" "unat x < 2 ^ (k + 1)" using False ex_power_ivl1 [of 2 "unat x"] by auto
    have "(2 :: nat) ^ k < 2 ^ 31" using k(1) x assms(2) pos by linarith
    then have "k < 31" by (rule power_less_imp_less_exp [rotated]) simp
    then have "v OR drop_bit 16 v = mask (k + 1)" using spread_mask [OF s k] by simp
    then have "next_power_of_two val = 2 ^ (k + 1)" by (simp add: n mask_eq_decr_exp)
    moreover have "unat val \<le> 2 ^ (k + 1)" "2 ^ k < unat val" using k x pos by linarith+
    ultimately show ?thesis using \<open>k < 31\<close> by (intro exI [of _ "k + 1"]) simp
  qed
qed

text \<open>So the table keeps its watchers, is large enough for the descriptor, and holds two less than a power of two that is
less than twice what was asked for.\<close>

lemma maybe_resize_table:
  assumes "unat len + 2 \<le> 2 ^ 31"
  shows "\<exists>new. nt_watchers (maybe_resize len n) = nt_watchers n @ new \<and> (\<forall>w \<in> set new. w = None) \<and>
    unat len \<le> nwatchers (maybe_resize len n) \<and>
    (nwatchers n < unat len \<longrightarrow> (\<exists>k. nwatchers (maybe_resize len n) + 2 = 2 ^ k \<and> 2 ^ k < 2 * (unat len + 2)))"
proof (cases "unat len \<le> nwatchers n")
  case False
  have l: "unat (len + 2) = unat len + 2" using assms unat_add_lem [of len 2] by simp
  then have "0 < len + 2" by (simp add: word_less_nat_alt)
  then obtain k where k: "k \<le> 31" "next_power_of_two (len + 2) = 2 ^ k" "unat (len + 2) \<le> 2 ^ k"
      "k = 0 \<or> 2 ^ (k - 1) < unat (len + 2)"
    using next_power_of_two_eq [of "len + 2"] l assms by auto
  have "(2 :: nat) ^ k < 2 ^ 32" using k(1) by (intro power_strict_increasing) simp_all
  then have "unat (of_nat (2 ^ k) :: u32) = 2 ^ k" unfolding unat_of_nat by simp
  then have p: "unat (2 ^ k :: u32) = 2 ^ k" by simp
  then have u: "unat (2 ^ k - 2 :: u32) = 2 ^ k - 2" using k(3) l by (simp add: unat_sub word_le_nat_alt)
  have w: "nt_watchers (maybe_resize len n) = nt_watchers n @ replicate (2 ^ k - 2 - nwatchers n) None"
    using False k(2) u by (simp add: maybe_resize_def nwatchers_def Let_def)
  have "(2 :: nat) ^ k < 2 * (unat len + 2)" using k(4) l by (cases k) auto
  moreover have "nwatchers (maybe_resize len n) = 2 ^ k - 2"
    using False k(3) l w by (simp add: nwatchers_def)
  moreover have "2 ^ k - 2 + 2 = (2 :: nat) ^ k" using k(3) l by simp
  ultimately show ?thesis using w k(3) l by fastforce
qed (simp add: maybe_resize_def)

end
