(* ===== verification/Uv_Queue.thy ===== *)
theory Uv_Queue
  imports Prelude
begin

text \<open>
  The circular queues of libuv, \<open>src/libuv/src/queue.h\<close>. A node is two cells, the addresses of the next and of the
  previous node; the memory of the nodes is a pair of maps from addresses. The macros read and write these cells
  in the order of their statements; \<open>ring\<close> says which list a queue holds.
\<close>

section \<open>Nodes\<close>

record queue_mem =
  q_next :: "nat \<Rightarrow> nat option"
  q_prev :: "nat \<Rightarrow> nat option"

definition QUEUE_NEXT :: "nat \<Rightarrow> queue_mem \<Rightarrow> nat res" where
  "QUEUE_NEXT q m = or_fail Use_After_Free (q_next m q)"

definition QUEUE_PREV :: "nat \<Rightarrow> queue_mem \<Rightarrow> nat res" where
  "QUEUE_PREV q m = or_fail Use_After_Free (q_prev m q)"

definition set_next :: "nat \<Rightarrow> nat \<Rightarrow> queue_mem \<Rightarrow> queue_mem res" where
  "set_next q x m = bindE (QUEUE_NEXT q m) (\<lambda>_. Inr (m\<lparr>q_next := (q_next m)(q \<mapsto> x)\<rparr>))"

definition set_prev :: "nat \<Rightarrow> nat \<Rightarrow> queue_mem \<Rightarrow> queue_mem res" where
  "set_prev q x m = bindE (QUEUE_PREV q m) (\<lambda>_. Inr (m\<lparr>q_prev := (q_prev m)(q \<mapsto> x)\<rparr>))"

definition set_prev_next :: "nat \<Rightarrow> nat \<Rightarrow> queue_mem \<Rightarrow> queue_mem res" where
  "set_prev_next q x m = bindE (QUEUE_PREV q m) (\<lambda>p. set_next p x m)"

definition set_next_prev :: "nat \<Rightarrow> nat \<Rightarrow> queue_mem \<Rightarrow> queue_mem res" where
  "set_next_prev q x m = bindE (QUEUE_NEXT q m) (\<lambda>n. set_prev n x m)"

section \<open>Macros\<close>

definition QUEUE_EMPTY :: "nat \<Rightarrow> queue_mem \<Rightarrow> bool res" where
  "QUEUE_EMPTY q m = bindE (QUEUE_NEXT q m) (\<lambda>n. Inr (q = n))"

definition QUEUE_HEAD :: "nat \<Rightarrow> queue_mem \<Rightarrow> nat res" where
  "QUEUE_HEAD q m = QUEUE_NEXT q m"

definition QUEUE_INIT :: "nat \<Rightarrow> queue_mem \<Rightarrow> queue_mem res" where
  "QUEUE_INIT q m = bindE (set_next q q m) (set_prev q q)"

definition QUEUE_ADD :: "nat \<Rightarrow> nat \<Rightarrow> queue_mem \<Rightarrow> queue_mem res" where
  "QUEUE_ADD h n m =
     bindE (QUEUE_NEXT n m) (\<lambda>x. bindE (set_prev_next h x m) (\<lambda>m.
     bindE (QUEUE_PREV h m) (\<lambda>x. bindE (set_next_prev n x m) (\<lambda>m.
     bindE (QUEUE_PREV n m) (\<lambda>x. bindE (set_prev h x m) (\<lambda>m.
     set_prev_next h h m))))))"

definition QUEUE_SPLIT :: "nat \<Rightarrow> nat \<Rightarrow> nat \<Rightarrow> queue_mem \<Rightarrow> queue_mem res" where
  "QUEUE_SPLIT h q n m =
     bindE (QUEUE_PREV h m) (\<lambda>x. bindE (set_prev n x m) (\<lambda>m.
     bindE (set_prev_next n n m) (\<lambda>m.
     bindE (set_next n q m) (\<lambda>m.
     bindE (QUEUE_PREV q m) (\<lambda>x. bindE (set_prev h x m) (\<lambda>m.
     bindE (set_prev_next h h m) (\<lambda>m.
     set_prev q n m)))))))"

definition QUEUE_MOVE :: "nat \<Rightarrow> nat \<Rightarrow> queue_mem \<Rightarrow> queue_mem res" where
  "QUEUE_MOVE h n m =
     bindE (QUEUE_EMPTY h m) (\<lambda>e.
     if e then QUEUE_INIT n m
     else bindE (QUEUE_HEAD h m) (\<lambda>q. QUEUE_SPLIT h q n m))"

definition QUEUE_INSERT_HEAD :: "nat \<Rightarrow> nat \<Rightarrow> queue_mem \<Rightarrow> queue_mem res" where
  "QUEUE_INSERT_HEAD h q m =
     bindE (QUEUE_NEXT h m) (\<lambda>x. bindE (set_next q x m) (\<lambda>m.
     bindE (set_prev q h m) (\<lambda>m.
     bindE (set_next_prev q q m) (\<lambda>m.
     set_next h q m))))"

definition QUEUE_INSERT_TAIL :: "nat \<Rightarrow> nat \<Rightarrow> queue_mem \<Rightarrow> queue_mem res" where
  "QUEUE_INSERT_TAIL h q m =
     bindE (set_next q h m) (\<lambda>m.
     bindE (QUEUE_PREV h m) (\<lambda>x. bindE (set_prev q x m) (\<lambda>m.
     bindE (set_prev_next q q m) (\<lambda>m.
     set_prev h q m))))"

definition QUEUE_REMOVE :: "nat \<Rightarrow> queue_mem \<Rightarrow> queue_mem res" where
  "QUEUE_REMOVE q m =
     bindE (QUEUE_NEXT q m) (\<lambda>x. bindE (set_prev_next q x m) (\<lambda>m.
     bindE (QUEUE_PREV q m) (\<lambda>x. set_next_prev q x m)))"

text \<open>The nodes a loop \<open>QUEUE_FOREACH\<close> visits, of which there are at most \<open>fuel\<close>.\<close>

fun foreach_from :: "nat \<Rightarrow> nat \<Rightarrow> nat \<Rightarrow> queue_mem \<Rightarrow> nat list res" where
  "foreach_from 0 q h m = (if q = h then Inr [] else Inl Diverges)"
| "foreach_from (Suc fuel) q h m =
     (if q = h then Inr []
      else bindE (QUEUE_NEXT q m) (\<lambda>n. bindE (foreach_from fuel n h m) (\<lambda>qs. Inr (q # qs))))"

definition QUEUE_FOREACH :: "nat \<Rightarrow> nat \<Rightarrow> queue_mem \<Rightarrow> nat list res" where
  "QUEUE_FOREACH fuel h m = bindE (QUEUE_NEXT h m) (\<lambda>q. foreach_from fuel q h m)"

lemmas queue_defs = QUEUE_NEXT_def QUEUE_PREV_def set_next_def set_prev_def set_prev_next_def set_next_prev_def

section \<open>Segments and rings\<close>

text \<open>From \<open>a\<close> over the nodes \<open>xs\<close> to \<open>b\<close>, in both directions.\<close>

primrec queue_links :: "queue_mem \<Rightarrow> nat \<Rightarrow> nat list \<Rightarrow> nat \<Rightarrow> bool" where
  "queue_links m a [] b \<longleftrightarrow> q_next m a = Some b \<and> q_prev m b = Some a"
| "queue_links m a (x # xs) b \<longleftrightarrow> q_next m a = Some x \<and> q_prev m x = Some a \<and> queue_links m x xs b"

definition ring :: "queue_mem \<Rightarrow> nat \<Rightarrow> nat list \<Rightarrow> bool" where
  "ring m h xs \<longleftrightarrow> distinct (h # xs) \<and> queue_links m h xs h"

lemma links_append: "queue_links m a (xs @ x # ys) b \<longleftrightarrow> queue_links m a xs x \<and> queue_links m x ys b"
  by (induction xs arbitrary: a) auto

lemma links_ends: "queue_links m a xs b \<Longrightarrow> q_next m a = Some (hd (xs @ [b])) \<and> q_prev m b = Some (last (a # xs))"
  by (induction xs arbitrary: a) auto

lemma links_last: "queue_links m a xs b \<Longrightarrow> q_next m (last (a # xs)) = Some b"
  by (induction xs arbitrary: a) auto

text \<open>A segment depends on the next cells of its nodes but the last and the previous cells of its nodes but the first.\<close>

lemma links_cong:
  "(\<And>x. x \<in> set (a # xs) \<Longrightarrow> q_next m' x = q_next m x) \<Longrightarrow> (\<And>x. x \<in> set (xs @ [b]) \<Longrightarrow> q_prev m' x = q_prev m x) \<Longrightarrow>
   queue_links m' a xs b \<longleftrightarrow> queue_links m a xs b"
  by (induction xs arbitrary: a) auto

lemma ring_cong:
  "(\<And>x. x \<in> set (h # xs) \<Longrightarrow> q_next m' x = q_next m x \<and> q_prev m' x = q_prev m x) \<Longrightarrow> ring m' h xs \<longleftrightarrow> ring m h xs"
  unfolding ring_def by (intro conj_cong refl links_cong) auto

text \<open>Any node of a ring can be taken for its head.\<close>

lemma ring_rotate: "ring m h (xs @ x # ys) \<longleftrightarrow> ring m x (ys @ h # xs)"
  by (auto simp: ring_def links_append)

definition queue_node :: "queue_mem \<Rightarrow> nat \<Rightarrow> bool" where
  "queue_node m q \<longleftrightarrow> q_next m q \<noteq> None \<and> q_prev m q \<noteq> None"

text \<open>Only the nodes of \<open>A\<close> differ, and no node is lost or made.\<close>

definition only_nodes :: "nat set \<Rightarrow> queue_mem \<Rightarrow> queue_mem \<Rightarrow> bool" where
  "only_nodes A m m' \<longleftrightarrow>
     (\<forall>x. x \<notin> A \<longrightarrow> q_next m' x = q_next m x \<and> q_prev m' x = q_prev m x) \<and> (\<forall>x. queue_node m' x \<longleftrightarrow> queue_node m x)"

lemma only_nodes_ring: "only_nodes A m m' \<Longrightarrow> set (h # xs) \<inter> A = {} \<Longrightarrow> ring m' h xs \<longleftrightarrow> ring m h xs"
  by (rule ring_cong) (auto simp: only_nodes_def)

section \<open>The macros on rings\<close>

lemma node_atI: "ring m h xs \<Longrightarrow> x \<in> set (h # xs) \<Longrightarrow> queue_node m x"
proof -
  assume r: "ring m h xs" and x: "x \<in> set (h # xs)"
  show ?thesis
  proof (cases "x = h")
    case True
    then show ?thesis using r links_ends [of m h xs h] by (auto simp: ring_def queue_node_def)
  next
    case False
    then obtain ys zs where "xs = ys @ x # zs" using x by (auto dest: split_list)
    then have "queue_links m h ys x" "queue_links m x zs h" using r by (simp_all add: ring_def links_append)
    then show ?thesis using links_ends by (fastforce simp: queue_node_def)
  qed
qed

lemma QUEUE_HEAD_ring: "ring m h xs \<Longrightarrow> QUEUE_HEAD h m = Inr (hd (xs @ [h]))"
  using links_ends [of m h xs h] by (simp add: ring_def QUEUE_HEAD_def QUEUE_NEXT_def)

lemma QUEUE_EMPTY_ring: "ring m h xs \<Longrightarrow> QUEUE_EMPTY h m = Inr (xs = [])"
proof -
  assume r: "ring m h xs"
  then have "QUEUE_NEXT h m = Inr (hd (xs @ [h]))" using QUEUE_HEAD_ring by (simp add: QUEUE_HEAD_def)
  moreover have "h = hd (xs @ [h]) \<longleftrightarrow> xs = []" using r by (cases xs) (auto simp: ring_def)
  ultimately show ?thesis by (simp add: QUEUE_EMPTY_def)
qed

lemma QUEUE_INIT_ring:
  assumes "queue_node m q"
  obtains m' where "QUEUE_INIT q m = Inr m'" "ring m' q []" "only_nodes {q} m m'"
proof -
  define m' where "m' = m\<lparr>q_next := (q_next m)(q \<mapsto> q), q_prev := (q_prev m)(q \<mapsto> q)\<rparr>"
  have "QUEUE_INIT q m = Inr m'" using assms by (auto simp: QUEUE_INIT_def queue_defs queue_node_def m'_def)
  moreover have "ring m' q []" "only_nodes {q} m m'"
    using assms by (auto simp: ring_def only_nodes_def queue_node_def m'_def)
  ultimately show thesis by (rule that)
qed

lemma QUEUE_INSERT_TAIL_ring:
  assumes "ring m h xs" "q \<notin> set (h # xs)" "queue_node m q"
  obtains m' where "QUEUE_INSERT_TAIL h q m = Inr m'" "ring m' h (xs @ [q])" "only_nodes (set (q # h # xs)) m m'"
proof (cases xs rule: rev_cases)
  case Nil
  define m' where "m' = m\<lparr>q_next := (q_next m)(q \<mapsto> h, h \<mapsto> q), q_prev := (q_prev m)(q \<mapsto> h, h \<mapsto> q)\<rparr>"
  have c: "q_next m h = Some h" "q_prev m h = Some h" "q \<noteq> h" using assms(1,2) Nil by (auto simp: ring_def)
  have "QUEUE_INSERT_TAIL h q m = Inr m'"
    using c assms(3) by (auto simp: QUEUE_INSERT_TAIL_def queue_defs queue_node_def m'_def)
  moreover have "ring m' h (xs @ [q])" using c Nil by (simp add: ring_def m'_def)
  moreover have "only_nodes (set (q # h # xs)) m m'"
    using c assms(3) Nil by (auto simp: only_nodes_def queue_node_def m'_def)
  ultimately show thesis by (rule that)
next
  case (snoc ys p)
  define m' where "m' = m\<lparr>q_next := (q_next m)(q \<mapsto> h, p \<mapsto> q), q_prev := (q_prev m)(q \<mapsto> p, h \<mapsto> q)\<rparr>"
  from assms(1) snoc have l: "queue_links m h ys p" "q_next m p = Some h" "q_prev m h = Some p" and d: "distinct (h # ys @ [p])"
    by (simp_all add: ring_def links_append)
  have ne: "q \<noteq> h" "q \<noteq> p" "p \<noteq> h" using assms(2) snoc d by auto
  have "QUEUE_INSERT_TAIL h q m = Inr m'"
    using assms(3) l(2,3) ne by (auto simp: QUEUE_INSERT_TAIL_def queue_defs queue_node_def m'_def)
  moreover have "queue_links m' h ys p \<longleftrightarrow> queue_links m h ys p"
    using d assms(2) snoc by (intro links_cong) (auto simp: m'_def)
  then have "ring m' h (xs @ [q])"
    using l(1) d assms(2) snoc ne by (simp add: ring_def links_append) (simp add: m'_def)
  moreover have "only_nodes (set (q # h # xs)) m m'"
    using l(2,3) assms(3) snoc by (auto simp: only_nodes_def queue_node_def m'_def)
  ultimately show thesis by (rule that)
qed

lemma QUEUE_INSERT_HEAD_ring:
  assumes "ring m h xs" "q \<notin> set (h # xs)" "queue_node m q"
  obtains m' where "QUEUE_INSERT_HEAD h q m = Inr m'" "ring m' h (q # xs)" "only_nodes (set (q # h # xs)) m m'"
proof (cases xs)
  case Nil
  define m' where "m' = m\<lparr>q_next := (q_next m)(q \<mapsto> h, h \<mapsto> q), q_prev := (q_prev m)(q \<mapsto> h, h \<mapsto> q)\<rparr>"
  have c: "q_next m h = Some h" "q_prev m h = Some h" "q \<noteq> h" using assms(1,2) Nil by (auto simp: ring_def)
  have "QUEUE_INSERT_HEAD h q m = Inr m'"
    using c assms(3) by (auto simp: QUEUE_INSERT_HEAD_def queue_defs queue_node_def m'_def)
  moreover have "ring m' h (q # xs)" using c Nil by (simp add: ring_def m'_def)
  moreover have "only_nodes (set (q # h # xs)) m m'"
    using c assms(3) Nil by (auto simp: only_nodes_def queue_node_def m'_def)
  ultimately show thesis by (rule that)
next
  case (Cons p ys)
  define m' where "m' = m\<lparr>q_next := (q_next m)(q \<mapsto> p, h \<mapsto> q), q_prev := (q_prev m)(q \<mapsto> h, p \<mapsto> q)\<rparr>"
  from assms(1) Cons have l: "queue_links m p ys h" "q_next m h = Some p" "q_prev m p = Some h" and d: "distinct (h # p # ys)"
    by (simp_all add: ring_def)
  have ne: "q \<noteq> h" "q \<noteq> p" "p \<noteq> h" using assms(2) Cons d by auto
  have "QUEUE_INSERT_HEAD h q m = Inr m'"
    using assms(3) l(2,3) ne by (auto simp: QUEUE_INSERT_HEAD_def queue_defs queue_node_def m'_def)
  moreover have "queue_links m' p ys h \<longleftrightarrow> queue_links m p ys h"
    using d assms(2) Cons by (intro links_cong) (auto simp: m'_def)
  then have "ring m' h (q # xs)"
    using l(1) d assms(2) Cons ne by (simp add: ring_def) (simp add: m'_def)
  moreover have "only_nodes (set (q # h # xs)) m m'"
    using l(2,3) assms(3) Cons by (auto simp: only_nodes_def queue_node_def m'_def)
  ultimately show thesis by (rule that)
qed

text \<open>The removed node keeps its own cells.\<close>

lemma QUEUE_REMOVE_ring:
  assumes "ring m h (xs @ q # ys)"
  obtains m' where "QUEUE_REMOVE q m = Inr m'" "ring m' h (xs @ ys)" "only_nodes (set (h # xs @ q # ys)) m m'"
    "q_next m' q = q_next m q" "q_prev m' q = q_prev m q"
proof -
  define p where "p = last (h # xs)"
  define n where "n = hd (ys @ [h])"
  define m' where "m' = m\<lparr>q_next := (q_next m)(p \<mapsto> n), q_prev := (q_prev m)(n \<mapsto> p)\<rparr>"
  have d: "distinct (h # xs @ q # ys)" and l: "queue_links m h xs q" "queue_links m q ys h"
    using assms by (simp_all add: ring_def links_append)
  have c: "q_next m q = Some n" "q_prev m q = Some p" using links_ends l by (simp_all add: n_def p_def)
  have p: "p \<in> set (h # xs)" "q_next m p = Some q"
    using l(1) by (cases xs rule: rev_cases; auto simp: p_def links_append)+
  have n: "n \<in> set (h # ys)" "q_prev m n = Some q" using l(2) by (cases ys; simp add: n_def)+
  have ne: "p \<noteq> q" "n \<noteq> q" using p(1) n(1) d by auto
  have "QUEUE_REMOVE q m = Inr m'" using c p n ne by (auto simp: QUEUE_REMOVE_def queue_defs m'_def)
  moreover have "ring m' h (xs @ ys)"
  proof (cases xs rule: rev_cases)
    case Nil
    then have ph: "p = h" by (simp add: p_def)
    show ?thesis
    proof (cases ys)
      case (Cons z zs)
      have "queue_links m' z zs h \<longleftrightarrow> queue_links m z zs h"
        using d Nil Cons ph by (intro links_cong) (auto simp: m'_def n_def)
      then show ?thesis using d l(2) Nil Cons ph by (simp add: ring_def) (simp add: m'_def n_def)
    qed (use Nil ph in \<open>simp add: ring_def m'_def n_def\<close>)
  next
    case (snoc zs z)
    then have pz: "p = z" by (simp add: p_def)
    have "queue_links m' h zs z \<longleftrightarrow> queue_links m h zs z"
      using d snoc pz n(1) by (intro links_cong) (auto simp: m'_def)
    then have 1: "queue_links m' h zs z" using l(1) snoc by (simp add: links_append)
    have "queue_links m' z ys h"
    proof (cases ys)
      case (Cons w ws)
      have "queue_links m' w ws h \<longleftrightarrow> queue_links m w ws h"
        using d snoc Cons pz by (intro links_cong) (auto simp: m'_def n_def)
      then show ?thesis using l(2) Cons pz by (simp add: m'_def n_def)
    qed (use pz in \<open>simp add: m'_def n_def\<close>)
    with 1 show ?thesis using d snoc by (simp add: ring_def links_append)
  qed
  moreover have "only_nodes (set (h # xs @ q # ys)) m m'"
    using p n by (auto simp: only_nodes_def queue_node_def m'_def)
  moreover have "q_next m' q = q_next m q" "q_prev m' q = q_prev m q" using ne by (simp_all add: m'_def)
  ultimately show thesis by (rule that)
qed

text \<open>Giving a segment another end.\<close>

lemma links_retarget:
  assumes "queue_links m a xs b" "\<And>x. x \<in> set (butlast (a # xs)) \<Longrightarrow> q_next m' x = q_next m x"
    and "\<And>x. x \<in> set xs \<Longrightarrow> q_prev m' x = q_prev m x"
    and "q_next m' (last (a # xs)) = Some c" "q_prev m' c = Some (last (a # xs))"
  shows "queue_links m' a xs c"
proof (cases xs rule: rev_cases)
  case (snoc ys p)
  then have "queue_links m a ys p" using assms(1) by (simp add: links_append)
  moreover have "queue_links m' a ys p \<longleftrightarrow> queue_links m a ys p"
    using assms(2,3) snoc by (intro links_cong) (auto simp: butlast_append)
  ultimately show ?thesis using assms(4,5) snoc by (simp add: links_append)
qed (use assms in simp)

lemma butlast_last:
  "distinct (a # xs) \<Longrightarrow> x \<in> set (butlast (a # xs)) \<Longrightarrow> x \<in> set (a # xs) \<and> x \<noteq> last (a # xs)"
  by (induction xs arbitrary: a) (auto split: if_splits dest: in_set_butlastD)

lemma QUEUE_SPLIT_ring:
  assumes "ring m h (xs @ q # ys)" "n \<notin> set (h # xs @ q # ys)" "queue_node m n"
  obtains m' where "QUEUE_SPLIT h q n m = Inr m'" "ring m' h xs" "ring m' n (q # ys)"
    "only_nodes (set (n # h # xs @ q # ys)) m m'"
proof -
  define p where "p = last (h # xs)"
  define l where "l = last (q # ys)"
  define m' where "m' = m\<lparr>q_next := (q_next m)(l \<mapsto> n, n \<mapsto> q, p \<mapsto> h), q_prev := (q_prev m)(n \<mapsto> l, h \<mapsto> p, q \<mapsto> n)\<rparr>"
  have d: "distinct (h # xs @ q # ys)" and s: "queue_links m h xs q" "queue_links m q ys h"
    using assms(1) by (simp_all add: ring_def links_append)
  have c: "q_prev m q = Some p" "q_prev m h = Some l" using links_ends s by (simp_all add: p_def l_def)
  have p: "p \<in> set (h # xs)" and l: "l \<in> set (q # ys)" unfolding p_def l_def by (rule last_in_set, simp)+
  have e: "q_next m p = Some q" "q_next m l = Some h"
    using links_last [OF s(1)] links_last [OF s(2)] by (simp_all add: p_def l_def)
  have ne: "p \<noteq> l" "n \<noteq> p" "n \<noteq> l" "n \<noteq> q" "n \<noteq> h" "q \<noteq> h" "l \<noteq> h" "p \<noteq> q" using p l d assms(2) by auto
  have "QUEUE_SPLIT h q n m = Inr m'"
    using c e ne assms(3) by (auto simp: QUEUE_SPLIT_def queue_defs queue_node_def m'_def)
  moreover have "queue_links m' h xs h"
  proof (rule links_retarget [OF s(1)])
    fix x assume "x \<in> set (butlast (h # xs))"
    then have "x \<in> set (h # xs)" "x \<noteq> p" using butlast_last [of h xs x] d unfolding p_def by simp_all
    then show "q_next m' x = q_next m x" using l d assms(2) by (auto simp: m'_def)
  next
    fix x assume "x \<in> set xs"
    then show "q_prev m' x = q_prev m x" using d assms(2) by (auto simp: m'_def)
  qed (use ne in \<open>simp_all add: m'_def p_def\<close>)
  then have "ring m' h xs" using d by (simp add: ring_def)
  moreover have "queue_links m' q ys n"
  proof (rule links_retarget [OF s(2)])
    fix x assume "x \<in> set (butlast (q # ys))"
    then have "x \<in> set (q # ys)" "x \<noteq> l" using butlast_last [of q ys x] d unfolding l_def by simp_all
    then show "q_next m' x = q_next m x" using p d assms(2) by (auto simp: m'_def)
  next
    fix x assume "x \<in> set ys"
    then show "q_prev m' x = q_prev m x" using d assms(2) by (auto simp: m'_def)
  qed (use ne in \<open>simp_all add: m'_def l_def\<close>)
  then have "ring m' n (q # ys)" using d assms(2) ne by (simp add: ring_def) (simp add: m'_def)
  moreover have "only_nodes (set (n # h # xs @ q # ys)) m m'"
    using p l c e assms(3) by (auto simp: only_nodes_def queue_node_def m'_def)
  ultimately show thesis by (rule that)
qed

lemma QUEUE_MOVE_ring:
  assumes "ring m h xs" "n \<notin> set (h # xs)" "queue_node m n"
  obtains m' where "QUEUE_MOVE h n m = Inr m'" "ring m' h []" "ring m' n xs" "only_nodes (set (n # h # xs)) m m'"
proof (cases xs)
  case Nil
  obtain m' where m': "QUEUE_INIT n m = Inr m'" "ring m' n []" "only_nodes {n} m m'"
    using assms(3) by (rule QUEUE_INIT_ring)
  have "ring m' h [] \<longleftrightarrow> ring m h []" using assms(2) by (intro only_nodes_ring [OF m'(3)]) simp
  then show thesis
    using that [of m'] m' QUEUE_EMPTY_ring [OF assms(1)] assms(1) Nil by (simp add: QUEUE_MOVE_def only_nodes_def)
next
  case (Cons q ys)
  then have r: "ring m h ([] @ q # ys)" "n \<notin> set (h # [] @ q # ys)" using assms by simp_all
  obtain m' where "QUEUE_SPLIT h q n m = Inr m'" "ring m' h []" "ring m' n (q # ys)"
    "only_nodes (set (n # h # [] @ q # ys)) m m'" using QUEUE_SPLIT_ring [OF r assms(3)] .
  then show thesis
    using that [of m'] QUEUE_EMPTY_ring [OF assms(1)] QUEUE_HEAD_ring [OF assms(1)] Cons by (simp add: QUEUE_MOVE_def)
qed

lemma QUEUE_ADD_ring:
  assumes "ring m h xs" "ring m n ys" "set (h # xs) \<inter> set (n # ys) = {}"
  obtains m' where "QUEUE_ADD h n m = Inr m'" "ring m' h (xs @ ys)"
proof -
  define p where "p = last (h # xs)"
  define l where "l = last (n # ys)"
  have d: "distinct (h # xs)" "distinct (n # ys)" and s: "queue_links m h xs h" "queue_links m n ys n"
    using assms(1,2) by (simp_all add: ring_def)
  have c: "q_prev m h = Some p" "q_prev m n = Some l" using links_ends s by (simp_all add: p_def l_def)
  have p: "p \<in> set (h # xs)" and l: "l \<in> set (n # ys)" unfolding p_def l_def by (rule last_in_set, simp)+
  have e: "q_next m p = Some h" "q_next m l = Some n"
    using links_last [OF s(1)] links_last [OF s(2)] by (simp_all add: p_def l_def)
  show thesis
  proof (cases ys)
    case Nil
    define m' where "m' = m\<lparr>q_next := (q_next m)(p \<mapsto> h), q_prev := (q_prev m)(n \<mapsto> p, h \<mapsto> p)\<rparr>"
    have ne: "n \<noteq> h" "n \<noteq> p" "l = n" using p assms(3) Nil by (auto simp: l_def)
    have "QUEUE_ADD h n m = Inr m'"
      using c e ne by (auto simp: QUEUE_ADD_def queue_defs m'_def)
    moreover have "ring m' h xs \<longleftrightarrow> ring m h xs"
      using c e assms(3) by (intro ring_cong) (auto simp: m'_def)
    ultimately show thesis using that assms(1) Nil by simp
  next
    case (Cons z zs)
    define m' where "m' = m\<lparr>q_next := (q_next m)(p \<mapsto> z, l \<mapsto> h), q_prev := (q_prev m)(z \<mapsto> p, h \<mapsto> l)\<rparr>"
    have z: "q_next m n = Some z" "q_prev m z = Some n" "queue_links m z zs n" "l = last (z # zs)"
      using s(2) Cons by (simp_all add: l_def)
    have ne: "n \<noteq> h" "n \<noteq> p" "l \<noteq> n" "z \<noteq> h" "z \<noteq> p" "l \<noteq> h" "l \<noteq> p" "z \<noteq> n"
      using p l d assms(3) Cons z(4) by auto
    have "QUEUE_ADD h n m = Inr m'"
      using c e z(1,2) ne by (auto simp: QUEUE_ADD_def queue_defs m'_def)
    moreover have "queue_links m' h xs z"
    proof (rule links_retarget [OF s(1)])
      fix x assume "x \<in> set (butlast (h # xs))"
      then have "x \<in> set (h # xs)" "x \<noteq> p" using butlast_last [of h xs x] d unfolding p_def by simp_all
      then show "q_next m' x = q_next m x" using l assms(3) by (auto simp: m'_def)
    next
      fix x assume "x \<in> set xs"
      then show "q_prev m' x = q_prev m x" using d assms(3) Cons by (auto simp: m'_def)
    qed (use ne in \<open>simp_all add: m'_def p_def\<close>)
    moreover have "queue_links m' z zs h"
    proof (rule links_retarget [OF z(3)])
      fix x assume "x \<in> set (butlast (z # zs))"
      then have "x \<in> set (z # zs)" "x \<noteq> l" using butlast_last [of z zs x] d Cons unfolding z(4) by simp_all
      then show "q_next m' x = q_next m x" using p assms(3) Cons by (auto simp: m'_def)
    next
      fix x assume "x \<in> set zs"
      then show "q_prev m' x = q_prev m x" using d assms(3) Cons by (auto simp: m'_def)
    qed (use ne z(4) in \<open>simp_all add: m'_def\<close>)
    ultimately have "QUEUE_ADD h n m = Inr m'" "ring m' h (xs @ ys)"
      using d assms(3) Cons by (auto simp: ring_def links_append)
    then show thesis by (rule that)
  qed
qed

lemma foreach_from_links:
  "queue_links m a xs h \<Longrightarrow> h \<notin> set xs \<Longrightarrow> length xs \<le> fuel \<Longrightarrow> foreach_from fuel (hd (xs @ [h])) h m = Inr xs"
proof (induction xs arbitrary: a fuel)
  case (Cons x xs)
  then obtain f where f: "fuel = Suc f" by (cases fuel) auto
  have "q_next m x = Some (hd (xs @ [h]))" using Cons.prems(1) links_ends [of m x xs h] by simp
  then show ?case using Cons.IH [of x f] Cons.prems f by (simp add: QUEUE_NEXT_def)
next
  case Nil
  then show ?case by (cases fuel) simp_all
qed

lemma QUEUE_FOREACH_ring: "ring m h xs \<Longrightarrow> length xs \<le> fuel \<Longrightarrow> QUEUE_FOREACH fuel h m = Inr xs"
  using foreach_from_links [of m h xs h fuel] QUEUE_HEAD_ring [of m h xs]
  by (simp add: QUEUE_FOREACH_def QUEUE_HEAD_def ring_def)

section \<open>Emptying one queue into another\<close>

text \<open>
  The loop with which \<open>udp.c\<close> moves requests: while a queue is not empty its head is removed and inserted at the
  tail of another. It is proved for any queue that keeps the laws of the locale.
\<close>

fun drain_with ::
    "(nat \<Rightarrow> 'm \<Rightarrow> bool res) \<Rightarrow> (nat \<Rightarrow> 'm \<Rightarrow> nat res) \<Rightarrow> (nat \<Rightarrow> 'm \<Rightarrow> 'm res) \<Rightarrow> (nat \<Rightarrow> nat \<Rightarrow> 'm \<Rightarrow> 'm res) \<Rightarrow>
     nat \<Rightarrow> nat \<Rightarrow> nat \<Rightarrow> 'm \<Rightarrow> 'm res" where
  "drain_with is_empty head remove insert_tail 0 h k m = Inl Diverges"
| "drain_with is_empty head remove insert_tail (Suc fuel) h k m =
     bindE (is_empty h m) (\<lambda>e.
     if e then Inr m
     else
       bindE (head h m) (\<lambda>q.
       bindE (remove q m) (\<lambda>m.
       bindE (insert_tail k q m) (drain_with is_empty head remove insert_tail fuel h k))))"

definition drain_queue :: "nat \<Rightarrow> nat \<Rightarrow> nat \<Rightarrow> queue_mem \<Rightarrow> queue_mem res" where
  "drain_queue = drain_with QUEUE_EMPTY QUEUE_HEAD QUEUE_REMOVE QUEUE_INSERT_TAIL"

locale list_queue =
  fixes queue_holds :: "'m \<Rightarrow> nat \<Rightarrow> nat list \<Rightarrow> bool"
    and usable :: "'m \<Rightarrow> nat \<Rightarrow> bool"
    and touches :: "nat set \<Rightarrow> 'm \<Rightarrow> 'm \<Rightarrow> bool"
    and is_empty :: "nat \<Rightarrow> 'm \<Rightarrow> bool res"
    and head :: "nat \<Rightarrow> 'm \<Rightarrow> nat res"
    and remove :: "nat \<Rightarrow> 'm \<Rightarrow> 'm res"
    and insert_tail :: "nat \<Rightarrow> nat \<Rightarrow> 'm \<Rightarrow> 'm res"
  assumes empty_law: "queue_holds m h xs \<Longrightarrow> is_empty h m = Inr (xs = [])"
    and head_law: "queue_holds m h (x # xs) \<Longrightarrow> head h m = Inr x"
    and remove_law: "queue_holds m h (x # xs) \<Longrightarrow>
      \<exists>m'. remove x m = Inr m' \<and> queue_holds m' h xs \<and> touches (set (h # x # xs)) m m'"
    and insert_law: "queue_holds m h xs \<Longrightarrow> q \<notin> set (h # xs) \<Longrightarrow> usable m q \<Longrightarrow>
      \<exists>m'. insert_tail h q m = Inr m' \<and> queue_holds m' h (xs @ [q]) \<and> touches (set (q # h # xs)) m m'"
    and frame_law: "touches A m m' \<Longrightarrow> set (h # xs) \<inter> A = {} \<Longrightarrow> queue_holds m' h xs \<longleftrightarrow> queue_holds m h xs"
    and usable_law: "touches A m m' \<Longrightarrow> usable m' q \<longleftrightarrow> usable m q"
    and nodes_law: "queue_holds m h xs \<Longrightarrow> distinct (h # xs) \<and> (\<forall>x \<in> set xs. usable m x)"
begin

lemma drain_with_moves:
  "queue_holds m h xs \<Longrightarrow> queue_holds m k ys \<Longrightarrow> set (h # xs) \<inter> set (k # ys) = {} \<Longrightarrow> length xs < fuel \<Longrightarrow>
   \<exists>m'. drain_with is_empty head remove insert_tail fuel h k m = Inr m' \<and> queue_holds m' h [] \<and> queue_holds m' k (ys @ xs)"
proof (induction xs arbitrary: m ys fuel)
  case Nil
  then obtain f where "fuel = Suc f" by (cases fuel) simp_all
  then show ?case using Nil empty_law [OF Nil.prems(1)] by simp
next
  case (Cons x xs)
  obtain f where f: "fuel = Suc f" using Cons.prems(4) by (cases fuel) simp_all
  obtain m1 where m1: "remove x m = Inr m1" "queue_holds m1 h xs" "touches (set (h # x # xs)) m m1"
    using remove_law [OF Cons.prems(1)] by blast
  have d: "distinct (h # x # xs)" "usable m x" using nodes_law [OF Cons.prems(1)] by simp_all
  have k1: "queue_holds m1 k ys" using frame_law [OF m1(3), of k ys] Cons.prems(2,3) by auto
  have "usable m1 x" using usable_law [OF m1(3)] d(2) by simp
  then obtain m2 where m2: "insert_tail k x m1 = Inr m2" "queue_holds m2 k (ys @ [x])" "touches (set (x # k # ys)) m1 m2"
    using insert_law [OF k1, of x] Cons.prems(3) by auto
  have "set (h # xs) \<inter> set (x # k # ys) = {}" using Cons.prems(3) d(1) by auto
  then have h2: "queue_holds m2 h xs" using frame_law [OF m2(3)] m1(2) by blast
  have "set (h # xs) \<inter> set (k # ys @ [x]) = {}" using Cons.prems(3) d(1) by auto
  then obtain m' where "drain_with is_empty head remove insert_tail f h k m2 = Inr m'" "queue_holds m' h []"
    "queue_holds m' k ((ys @ [x]) @ xs)" using Cons.IH [OF h2 m2(2)] Cons.prems(4) f by auto
  then show ?case using f empty_law [OF Cons.prems(1)] head_law [OF Cons.prems(1)] m1(1) m2(1) by simp
qed

end

interpretation ring_queue: list_queue ring queue_node only_nodes QUEUE_EMPTY QUEUE_HEAD QUEUE_REMOVE QUEUE_INSERT_TAIL
proof (unfold_locales, goal_cases)
  case (3 m h x xs)
  then show ?case using QUEUE_REMOVE_ring [of m h "[]" x xs] by auto
next
  case (4 m h xs q)
  then show ?case by (metis QUEUE_INSERT_TAIL_ring)
next
  case (5 A m m' h xs)
  then show ?case by (rule only_nodes_ring)
next
  case (7 m h xs)
  then show ?case using node_atI [of m h xs] by (auto simp: ring_def)
qed (simp_all add: QUEUE_EMPTY_ring QUEUE_HEAD_ring only_nodes_def)

lemma drain_queue_moves:
  assumes "ring m h xs" "ring m k ys" "set (h # xs) \<inter> set (k # ys) = {}" "length xs < fuel"
  shows "\<exists>m'. drain_queue fuel h k m = Inr m' \<and> ring m' h [] \<and> ring m' k (ys @ xs)"
  unfolding drain_queue_def by (rule ring_queue.drain_with_moves [OF assms])

end
