(* ===== verification/Uv_Utf8.thy ===== *)
theory Uv_Utf8
  imports Uv_Idna_Correct
begin

text \<open>
  UTF-8 as RFC 3629 writes it, and the decoder of \<open>idna.c\<close> as its inverse: every Unicode scalar value is read back
  from its bytes, whatever follows them.
\<close>

unbundle bit_operations_syntax

section \<open>The encoding\<close>

definition scalar :: "u32 \<Rightarrow> bool" where
  "scalar c \<longleftrightarrow> c < 0x110000 \<and> \<not> (0xD800 \<le> c \<and> c \<le> 0xDFFF)"

definition utf8_lead :: "u32 \<Rightarrow> nat \<Rightarrow> u32 \<Rightarrow> byte" where
  "utf8_lead mark k c = ucast (mark OR drop_bit k c)"

definition utf8_tail :: "nat \<Rightarrow> u32 \<Rightarrow> byte" where
  "utf8_tail k c = ucast (0x80 OR (drop_bit k c AND 63))"

definition utf8 :: "u32 \<Rightarrow> byte list" where
  "utf8 c =
     (if c < 0x80 then [ucast c]
      else if c < 0x800 then [utf8_lead 0xC0 6 c, utf8_tail 0 c]
      else if c < 0x10000 then [utf8_lead 0xE0 12 c, utf8_tail 6 c, utf8_tail 0 c]
      else [utf8_lead 0xF0 18 c, utf8_tail 12 c, utf8_tail 6 c, utf8_tail 0 c])"

section \<open>Bits\<close>

lemma upt32: "[0..<32] = [0, 1, 2, 3, 4, 5, 6, 7, 8, 9, 10, 11, 12, 13, 14, 15, 16, 17, 18, 19, 20, 21, 22, 23, 24, 25, 26, 27,
      28, 29, 30, 31]"
  by (simp add: upt_conv_Cons)

lemma all_less_32:
  "(\<forall>i < (32 :: nat). P i) \<longleftrightarrow>
     P 0 \<and> P 1 \<and> P 2 \<and> P 3 \<and> P 4 \<and> P 5 \<and> P 6 \<and> P 7 \<and> P 8 \<and> P 9 \<and> P 10 \<and> P 11 \<and> P 12 \<and> P 13 \<and> P 14 \<and> P 15 \<and>
     P 16 \<and> P 17 \<and> P 18 \<and> P 19 \<and> P 20 \<and> P 21 \<and> P 22 \<and> P 23 \<and> P 24 \<and> P 25 \<and> P 26 \<and> P 27 \<and> P 28 \<and> P 29 \<and> P 30 \<and> P 31"
proof -
  have "(\<forall>i < (32 :: nat). P i) \<longleftrightarrow> list_all P [0..<32]" by (auto simp: list_all_iff)
  then show ?thesis unfolding upt32 by simp
qed

lemma word_eq_bits: "(x :: u32) = y \<longleftrightarrow> (\<forall>i < 32. bit x i = bit y i)"
  by (auto intro: bit_word_eqI)

lemma small_word_bit: "(c :: u32) < 2 ^ k \<Longrightarrow> k \<le> i \<Longrightarrow> \<not> bit c i"
proof -
  assume c: "c < 2 ^ k" and i: "k \<le> i"
  show "\<not> bit c i"
  proof (cases "i < 32")
    case True
    have "(2 :: nat) ^ k < 2 ^ 32" using i True by (intro power_strict_increasing) simp_all
    then have "unat (of_nat (2 ^ k) :: u32) = 2 ^ k" unfolding unat_of_nat by simp
    then have "unat c < 2 ^ k" using c by (simp add: word_less_nat_alt)
    also have "(2 :: nat) ^ k \<le> 2 ^ i" using i by simp
    finally have "\<not> bit (unat c) i" by (simp add: bit_iff_odd)
    then show ?thesis by (simp add: bit_unsigned_iff)
  qed (use bit_imp_le_length in force)
qed

lemma value_2:
  assumes "(c :: u32) < 0x800" "0x80 \<le> c"
  shows "utf8_value 0x80 0 0x80 (0x80 OR (ucast (utf8_lead 0xC0 6 c) AND 31)) (ucast (utf8_tail 0 c)) = c"
proof -
  let ?b = "0x80 :: u32" and ?c = "0x80 OR (ucast (utf8_lead 0xC0 6 c) AND 31) :: u32" and ?d = "ucast (utf8_tail 0 c) :: u32"
  have high: "\<not> bit c i" if "11 \<le> i" for i using small_word_bit [of c 11 i] assms(1) that by simp
  have m: "0xC0 AND (?b XOR ?c XOR ?d) = 0x80"
    using high unfolding word_eq_bits all_less_32 by (simp add: bit_simps utf8_lead_def utf8_tail_def)
  have v: "push_bit 18 0 OR push_bit 12 (?b AND 63) OR push_bit 6 (?c AND 63) OR (?d AND 63) = c"
    using high unfolding word_eq_bits all_less_32 by (simp add: bit_simps utf8_lead_def utf8_tail_def)
  have "\<not> 0x10FFFF < c" "\<not> (0xD800 \<le> c \<and> c \<le> 0xDFFF)" using assms(1) by (simp_all add: word_less_nat_alt word_le_nat_alt)
  then show ?thesis unfolding utf8_value_def Let_def v m using assms(2) by (auto simp: not_less)
qed

lemma value_3:
  assumes "(c :: u32) < 0x10000" "0x800 \<le> c" "scalar c"
  shows "utf8_value 0x800 0 (0x80 OR (ucast (utf8_lead 0xE0 12 c) AND 15)) (ucast (utf8_tail 6 c)) (ucast (utf8_tail 0 c)) = c"
proof -
  let ?b = "0x80 OR (ucast (utf8_lead 0xE0 12 c) AND 15) :: u32" and ?c = "ucast (utf8_tail 6 c) :: u32"
    and ?d = "ucast (utf8_tail 0 c) :: u32"
  have high: "\<not> bit c i" if "16 \<le> i" for i using small_word_bit [of c 16 i] assms(1) that by simp
  have m: "0xC0 AND (?b XOR ?c XOR ?d) = 0x80"
    using high unfolding word_eq_bits all_less_32 by (simp add: bit_simps utf8_lead_def utf8_tail_def)
  have v: "push_bit 18 0 OR push_bit 12 (?b AND 63) OR push_bit 6 (?c AND 63) OR (?d AND 63) = c"
    using high unfolding word_eq_bits all_less_32 by (simp add: bit_simps utf8_lead_def utf8_tail_def)
  have "\<not> 0x10FFFF < c" using assms(1) by (simp add: word_less_nat_alt)
  then show ?thesis using assms(2,3) unfolding utf8_value_def Let_def v m scalar_def by (auto simp: not_less)
qed

lemma value_4:
  assumes "0x10000 \<le> (c :: u32)" "scalar c"
  shows "utf8_value 0x10000 (ucast (utf8_lead 0xF0 18 c) AND 7) (ucast (utf8_tail 12 c)) (ucast (utf8_tail 6 c))
    (ucast (utf8_tail 0 c)) = c"
proof -
  let ?a = "ucast (utf8_lead 0xF0 18 c) AND 7 :: u32" and ?b = "ucast (utf8_tail 12 c) :: u32"
    and ?c = "ucast (utf8_tail 6 c) :: u32" and ?d = "ucast (utf8_tail 0 c) :: u32"
  have "c < 2 ^ 21" using assms(2) by (simp add: scalar_def word_less_nat_alt)
  then have high: "\<not> bit c i" if "21 \<le> i" for i using small_word_bit [of c 21 i] that by simp
  have m: "0xC0 AND (?b XOR ?c XOR ?d) = 0x80"
    using high unfolding word_eq_bits all_less_32 by (simp add: bit_simps utf8_lead_def utf8_tail_def)
  have v: "push_bit 18 ?a OR push_bit 12 (?b AND 63) OR push_bit 6 (?c AND 63) OR (?d AND 63) = c"
    using high unfolding word_eq_bits all_less_32 by (simp add: bit_simps utf8_lead_def utf8_tail_def)
  have "\<not> 0x10FFFF < c" using assms(2) by (simp add: scalar_def word_less_nat_alt)
  then show ?thesis using assms unfolding utf8_value_def Let_def v m scalar_def by (auto simp: not_less)
qed

text \<open>The first byte tells how many follow.\<close>

lemma lead_byte:
  assumes "\<And>i. k + 8 \<le> i \<Longrightarrow> \<not> bit c i" "mark AND drop_bit k c = 0" "mark = 0xC0 \<or> mark = 0xE0 \<or> mark = 0xF0"
  shows "unat (ucast (utf8_lead mark k c) :: u32) = unat mark + unat c div 2 ^ k"
proof -
  have d: "\<not> bit (drop_bit k c) i" if "8 \<le> i" for i using assms(1) [of "k + i"] that by (simp add: bit_simps add.commute)
  have "\<not> bit mark i" if "8 \<le> i" for i
    using small_word_bit [of mark 8 i] assms(3) that by (auto simp: word_less_nat_alt)
  then have "(ucast (utf8_lead mark k c) :: u32) = mark OR drop_bit k c"
    using d by (intro bit_word_eqI) (force simp: utf8_lead_def bit_simps not_less [symmetric])
  also have "\<dots> = mark + drop_bit k c" using assms(2) by (simp add: disjunctive_add_eq_or)
  finally have e: "ucast (utf8_lead mark k c) = mark + drop_bit k c" .
  have "unat (drop_bit k c) = unat c div 2 ^ k" unfolding unat_drop_bit_eq by (rule drop_bit_eq_div)
  moreover have "unat (drop_bit k c) < 2 ^ 8"
  proof -
    have "drop_bit k c = take_bit 8 (drop_bit k c)" using d by (intro bit_word_eqI) (force simp: bit_simps not_less [symmetric])
    then show ?thesis by (metis take_bit_nat_less_exp unsigned_take_bit_eq)
  qed
  moreover have "unat mark \<le> 240" using assms(3) by auto
  ultimately show ?thesis using e unat_add_lem [of mark "drop_bit k c"] by simp
qed

lemma decode1_2:
  assumes "(c :: u32) < 0x800" "0x80 \<le> c"
  shows "uv__utf8_decode1 (utf8_lead 0xC0 6 c # utf8_tail 0 c # s) = Inr (c, s)"
proof -
  have high: "\<not> bit c i" if "11 \<le> i" for i using small_word_bit [of c 11 i] assms(1) that by simp
  have z: "0xC0 AND drop_bit 6 c = 0" using high unfolding word_eq_bits all_less_32 by (simp add: bit_simps)
  have "unat (ucast (utf8_lead 0xC0 6 c) :: u32) = 192 + unat c div 64" using lead_byte [of 6 c "0xC0"] high z by simp
  moreover have "unat c div 64 < 32" using assms(1) by (simp add: word_less_nat_alt)
  ultimately show ?thesis using value_2 [OF assms] by (simp add: uv__utf8_decode1_slow_def word_less_nat_alt)
qed

lemma decode1_3:
  assumes "(c :: u32) < 0x10000" "0x800 \<le> c" "scalar c"
  shows "uv__utf8_decode1 (utf8_lead 0xE0 12 c # utf8_tail 6 c # utf8_tail 0 c # s) = Inr (c, s)"
proof -
  have high: "\<not> bit c i" if "16 \<le> i" for i using small_word_bit [of c 16 i] assms(1) that by simp
  have z: "0xE0 AND drop_bit 12 c = 0" using high unfolding word_eq_bits all_less_32 by (simp add: bit_simps)
  have "unat (ucast (utf8_lead 0xE0 12 c) :: u32) = 224 + unat c div 4096" using lead_byte [of 12 c "0xE0"] high z by simp
  moreover have "unat c div 4096 < 16" using assms(1) by (simp add: word_less_nat_alt)
  ultimately show ?thesis using value_3 [OF assms] by (simp add: uv__utf8_decode1_slow_def word_less_nat_alt)
qed

lemma decode1_4:
  assumes "0x10000 \<le> (c :: u32)" "scalar c"
  shows "uv__utf8_decode1 (utf8_lead 0xF0 18 c # utf8_tail 12 c # utf8_tail 6 c # utf8_tail 0 c # s) = Inr (c, s)"
proof -
  have c: "unat c < 0x110000" using assms(2) by (simp add: scalar_def word_less_nat_alt)
  then have high: "\<not> bit c i" if "21 \<le> i" for i using small_word_bit [of c 21 i] that by (simp add: word_less_nat_alt)
  have z: "0xF0 AND drop_bit 18 c = 0" using high unfolding word_eq_bits all_less_32 by (simp add: bit_simps)
  have "unat (ucast (utf8_lead 0xF0 18 c) :: u32) = 240 + unat c div 262144" using lead_byte [of 18 c "0xF0"] high z by simp
  moreover have "unat c div 262144 < 8" using c by simp
  ultimately show ?thesis using value_4 [OF assms] by (simp add: uv__utf8_decode1_slow_def word_less_nat_alt)
qed

lemma decode1_utf8:
  assumes "scalar c"
  shows "uv__utf8_decode1 (utf8 c @ s) = Inr (c, s)"
proof -
  consider "c < 0x80" | "0x80 \<le> c" "c < 0x800" | "0x800 \<le> c" "c < 0x10000" | "0x10000 \<le> c" by (metis not_le)
  then show ?thesis
  proof cases
    case 1
    then have "\<not> bit c i" if "7 \<le> i" for i using small_word_bit [of c 7 i] that by simp
    then have "ucast (ucast c :: byte) = c" unfolding word_eq_bits all_less_32 by (simp add: bit_simps)
    then show ?thesis using 1 by (simp add: utf8_def)
  next
    case 2
    then show ?thesis using decode1_2 [of c s] by (simp add: utf8_def not_le [symmetric])
  next
    case 3
    then have "\<not> c < 0x80" by (simp add: word_less_nat_alt word_le_nat_alt)
    then show ?thesis using 3 assms decode1_3 [of c s] by (simp add: utf8_def not_le [symmetric])
  next
    case 4
    then have "\<not> c < 0x80" "\<not> c < 0x800" by (simp_all add: word_less_nat_alt word_le_nat_alt)
    then show ?thesis using 4 assms decode1_4 [of c s] by (simp add: utf8_def not_le [symmetric])
  qed
qed

lemma utf8_not_empty: "utf8 c \<noteq> []"
  by (simp add: utf8_def)

lemma scalar_not_error: "scalar c \<Longrightarrow> c \<noteq> - 1"
proof -
  assume "scalar c"
  then have "c \<le> 0x10FFFF" by (simp add: scalar_def word_less_nat_alt word_le_nat_alt)
  then show "c \<noteq> - 1" using minus_one_big by metis
qed

text \<open>A text in UTF-8 has the characters it was made of.\<close>

lemma chars_utf8: "\<forall>c \<in> set cs. scalar c \<Longrightarrow> chars (concat (map utf8 cs)) = Some cs"
proof (induction cs)
  case (Cons c cs)
  then show ?case
    using decode1_utf8 [of c "concat (map utf8 cs)"] utf8_not_empty [of c] scalar_not_error [of c]
    by (simp add: chars.simps [of "utf8 c @ concat (map utf8 cs)"])
qed simp

end
