(* ===== verification/Uv_Punycode.thy ===== *)
theory Uv_Punycode
  imports Uv_Utf8
begin

text \<open>
  The decoder of RFC 3492 as the reference, and the proof that it reads back what the encoder of \<open>idna.c\<close> writes.
\<close>

section \<open>The reference decoder\<close>

definition rfc_threshold :: "nat \<Rightarrow> nat \<Rightarrow> nat" where
  "rfc_threshold bias k = (if k \<le> bias + 1 then 1 else if bias + 26 \<le> k then 26 else k - bias)"

definition digit_value :: "byte \<Rightarrow> nat option" where
  "digit_value b =
     (if 97 \<le> b \<and> b \<le> 122 then Some (unat b - 97)
      else if 65 \<le> b \<and> b \<le> 90 then Some (unat b - 65)
      else if 48 \<le> b \<and> b \<le> 57 then Some (unat b - 48 + 26)
      else None)"

text \<open>A variable-length integer, added to \<open>i\<close>.\<close>

fun read_integer :: "nat \<Rightarrow> nat \<Rightarrow> nat \<Rightarrow> nat \<Rightarrow> byte list \<Rightarrow> (nat \<times> byte list) option" where
  "read_integer bias k w i [] = None"
| "read_integer bias k w i (b # bs) =
     (case digit_value b of
        None \<Rightarrow> None
      | Some e \<Rightarrow>
          let i = i + e * w; t = rfc_threshold bias k
          in if e < t then Some (i, bs) else read_integer bias (k + 36) (w * (36 - t)) i bs)"

lemma read_integer_shorter: "read_integer bias k w i bs = Some (j, bs') \<Longrightarrow> length bs' < length bs"
proof (induction bs arbitrary: k w i)
  case (Cons b bs)
  then show ?case by (fastforce simp: Let_def split: option.splits if_splits dest: less_SucI)
qed simp

declare read_integer.simps [simp del]

lemma read_integer_le [termination_simp]: "read_integer bias k w i (b # bs) = Some (j, bs') \<Longrightarrow> length bs' \<le> length bs"
  using read_integer_shorter [of bias k w i "b # bs"] by simp

fun adapt_loop :: "nat \<Rightarrow> nat \<Rightarrow> nat" where
  "adapt_loop k d = (if d > 455 then adapt_loop (k + 36) (d div 35) else k + 36 * d div (d + 38))"

declare adapt_loop.simps [simp del]

definition adapt :: "nat \<Rightarrow> nat \<Rightarrow> bool \<Rightarrow> nat" where
  "adapt delta points fst_time =
     (let d = (if fst_time then delta div 700 else delta div 2) in adapt_loop 0 (d + d div points))"

fun read_chars :: "nat \<Rightarrow> nat \<Rightarrow> nat \<Rightarrow> nat list \<Rightarrow> byte list \<Rightarrow> nat list option" where
  "read_chars n i bias out [] = Some out"
| "read_chars n i bias out (b # bs) =
     (case read_integer bias 36 1 i (b # bs) of
        None \<Rightarrow> None
      | Some (i', bs') \<Rightarrow>
          let points = length out + 1; n' = n + i' div points; j = i' mod points
          in read_chars n' (j + 1) (adapt (i' - i) points (i = 0)) (take j out @ n' # drop j out) bs')"

text \<open>What stands before the last hyphen is copied; without a hyphen nothing is.\<close>

definition rfc3492_decode :: "byte list \<Rightarrow> nat list option" where
  "rfc3492_decode bs =
     (let ext = rev (takeWhile (\<lambda>b. b \<noteq> 45) (rev bs));
          basic = butlast (take (length bs - length ext) bs)
      in if \<forall>b \<in> set basic. b < 128 then read_chars 128 0 72 (map unat basic) ext else None)"

text \<open>The example of the RFC: \<open>bcher-kva\<close> stands for a word with an umlaut.\<close>

lemma decode_example: "rfc3492_decode (ascii ''bcher-kva'') = Some [98, 252, 99, 104, 101, 114]"
  by code_simp

section \<open>Digits\<close>

definition puny_byte :: "nat \<Rightarrow> byte" where
  "puny_byte t = of_nat (if t < 26 then 97 + t else 22 + t)"

lemma puny_bytes:
  "\<forall>t \<in> set [0..<36]. arr_get alphabet t = Inr (puny_byte t) \<and> digit_value (puny_byte t) = Some t \<and> puny_byte t \<noteq> 45"
  by code_simp

lemma puny_byte:
  "t < 36 \<Longrightarrow> arr_get alphabet t = Inr (puny_byte t)" "t < 36 \<Longrightarrow> digit_value (puny_byte t) = Some t"
  "t < 36 \<Longrightarrow> puny_byte t \<noteq> 45"
  using puny_bytes by simp_all

lemma emit_take: "emit cap c (take cap (d @ e)) = take cap (d @ e @ [c])"
  by (simp add: emit_def)

lemma emit_digit_take:
  "unat t < 36 \<Longrightarrow> emit_digit cap t (take cap (d @ e)) = Inr (take cap (d @ e @ [puny_byte (unat t)]))"
  by (simp add: emit_digit_def puny_byte(1))

lemma threshold_nat:
  "unat (threshold bias k) = rfc_threshold (unat bias) (unat k)"
proof (cases "k > bias")
  case True
  then have "unat (k - bias) = unat k - unat bias" by (simp add: unat_sub word_le_nat_alt word_less_nat_alt)
  then show ?thesis
    using True by (auto simp: threshold_def rfc_threshold_def Let_def word_less_nat_alt)
next
  case False
  then show ?thesis by (simp add: threshold_def rfc_threshold_def Let_def word_less_nat_alt)
qed

lemma rfc_threshold_range: "1 \<le> rfc_threshold bias k \<and> rfc_threshold bias k \<le> 26"
  by (auto simp: rfc_threshold_def)

text \<open>The digits the encoder writes for \<open>q\<close> are read as \<open>q\<close>.\<close>

definition digits_read :: "nat \<Rightarrow> nat \<Rightarrow> nat \<Rightarrow> byte list \<Rightarrow> bool" where
  "digits_read bias k q es \<longleftrightarrow> 45 \<notin> set es \<and> (\<forall>w i F. read_integer bias k w i (es @ F) = Some (i + q * w, F))"

lemma digits_read_last: "q < rfc_threshold bias k \<Longrightarrow> digits_read bias k q [puny_byte q]"
  using rfc_threshold_range [of bias k] puny_byte(3) [of q]
  by (auto simp: digits_read_def read_integer.simps puny_byte(2) Let_def)

lemma digits_read_more:
  assumes "digits_read bias (k + 36) ((q - t) div (36 - t)) es" "t = rfc_threshold bias k" "t \<le> q"
  shows "digits_read bias k q (puny_byte (t + (q - t) mod (36 - t)) # es)"
proof -
  have t: "1 \<le> t" "t \<le> 26" using rfc_threshold_range [of bias k] assms(2) by simp_all
  then have m: "t + (q - t) mod (36 - t) < 36" using mod_less_divisor [of "36 - t" "q - t"] by linarith
  have "(t + (q - t) mod (36 - t)) + (q - t) div (36 - t) * (36 - t) = q"
    using assms(3) mod_div_mult_eq [of "q - t" "36 - t"] by linarith
  then have e: "(t + (q - t) mod (36 - t)) * w + (q - t) div (36 - t) * (w * (36 - t)) = q * w" for w
    by (metis add_mult_distrib mult.assoc mult.commute)
  show ?thesis
    using assms(1) puny_byte(3) [OF m] e
    by (auto simp: digits_read_def read_integer.simps puny_byte(2) [OF m] Let_def assms(2) [symmetric] add.assoc)
qed

lemma digits_loop_read:
  "unat q < 10 ^ j \<Longrightarrow> unat k + 36 * j < 2 ^ 32 \<Longrightarrow>
   \<exists>q' es. digits_loop cap bias k q (take cap (d @ e)) = Inr (q', take cap (d @ e @ es)) \<and> unat q' < 36 \<and>
     digits_read (unat bias) (unat k) (unat q) (es @ [puny_byte (unat q')])"
proof (induction j arbitrary: k q e)
  case 0
  have "q < threshold bias k" using 0 threshold_range [of bias k] by (simp add: word_less_nat_alt word_le_nat_alt)
  then show ?case
    using digits_read_last [of "unat q" "unat bias" "unat k"] rfc_threshold_range [of "unat bias" "unat k"]
    by (auto simp: digits_loop.simps [of _ _ _ q] Let_def word_less_nat_alt threshold_nat)
next
  case (Suc j)
  define t where "t = threshold bias k"
  have t: "unat t = rfc_threshold (unat bias) (unat k)" "1 \<le> unat t" "unat t \<le> 26"
    using threshold_nat rfc_threshold_range by (simp_all add: t_def)
  show ?case
  proof (cases "q < t")
    case True
    then show ?thesis
      using digits_read_last [of "unat q" "unat bias" "unat k"] t
      by (auto simp: digits_loop.simps [of _ _ _ q] Let_def t_def [symmetric] word_less_nat_alt)
  next
    case False
    then have q: "unat t \<le> unat q" by (simp add: not_less word_le_nat_alt)
    define x where "x = (q - t) div (36 - t)"
    define m where "m = t + (q - t) mod (36 - t)"
    have u: "unat (36 - t) = 36 - unat t" "unat (q - t) = unat q - unat t"
      using t q by (simp_all add: unat_sub word_le_nat_alt)
    have x: "unat x = (unat q - unat t) div (36 - unat t)" by (simp add: x_def unat_div u)
    have r: "unat ((q - t) mod (36 - t)) = (unat q - unat t) mod (36 - unat t)" by (simp add: unat_mod u)
    have rl: "(unat q - unat t) mod (36 - unat t) < 36 - unat t" using t by (intro mod_less_divisor) linarith
    then have m: "unat m = unat t + (unat q - unat t) mod (36 - unat t)"
    proof -
      have "unat t + unat ((q - t) mod (36 - t)) < 36" 
        using less_diff_conv [THEN iffD1, OF rl] unfolding r by (simp only: add.commute)
      then have "unat t + unat ((q - t) mod (36 - t)) < 2 ^ 32" by simp
      then show ?thesis using unat_add_lem [of t "(q - t) mod (36 - t)"] r by (simp add: m_def)
    qed
    have m36: "unat m < 36" using less_diff_conv [THEN iffD1, OF rl] unfolding m by (simp only: add.commute)
    have "unat x \<le> unat q div 10" unfolding x using t by (intro order_trans [OF div_le_mono div_le_mono2]) simp_all
    then have "unat x < 10 ^ j" using Suc.prems(1) by (simp add: less_mult_imp_div_less mult.commute)
    moreover have k: "unat (k + 36) = unat k + 36" using Suc.prems(2) unat_add_lem [of k 36] by simp
    ultimately obtain q' es where ih: "digits_loop cap bias (k + 36) x (take cap (d @ e @ [puny_byte (unat m)])) =
          Inr (q', take cap (d @ (e @ [puny_byte (unat m)]) @ es))"
        "unat q' < 36" "digits_read (unat bias) (unat k + 36) (unat x) (es @ [puny_byte (unat q')])"
      using Suc.IH [of x "k + 36" "e @ [puny_byte (unat m)]"] Suc.prems(2) by auto
    have "digits_loop cap bias k q (take cap (d @ e)) = Inr (q', take cap (d @ e @ puny_byte (unat m) # es))"
      using False ih(1) emit_digit_take [OF m36, of cap d e]
      by (simp add: digits_loop.simps [of _ _ _ q] Let_def t_def [symmetric] x_def [symmetric] m_def [symmetric])
    moreover have "digits_read (unat bias) (unat k) (unat q) (puny_byte (unat m) # es @ [puny_byte (unat q')])"
      using digits_read_more [OF ih(3) [unfolded x] t(1) q] by (simp add: m)
    ultimately show ?thesis using ih(2) by (metis append_Cons)
  qed
qed

section \<open>The bias\<close>

lemma bias_loop_adapt:
  "unat d < 455 * 35 ^ j + 1 \<Longrightarrow> unat b + 36 * j < 2 ^ 31 \<Longrightarrow>
   \<exists>d' b'. bias_loop d b = (d', b') \<and> unat d' \<le> 455 \<and> unat b' \<le> unat b + 36 * j \<and>
     adapt_loop (unat b) (unat d) = unat b' + 36 * unat d' div (unat d' + 38)"
proof (induction j arbitrary: d b)
  case 0
  then have "\<not> d > 455" "unat d \<le> 455" by (simp_all add: word_less_nat_alt)
  then show ?case by (simp add: bias_loop.simps [of d] adapt_loop.simps [of _ "unat d"])
next
  case (Suc j)
  show ?case
  proof (cases "d > 455")
    case True
    have "unat (d div 35) = unat d div 35" by (simp add: unat_div)
    moreover have "unat (b + 36) = unat b + 36" using Suc.prems(2) unat_add_lem [of b 36] by simp
    moreover have "unat d div 35 < 455 * 35 ^ j + 1"
      using Suc.prems(1) div_le_mono [of "unat d" "455 * 35 ^ j * 35" 35] by simp
    ultimately obtain d' b' where "bias_loop (d div 35) (b + 36) = (d', b')" "unat d' \<le> 455"
        "unat b' \<le> unat b + 36 + 36 * j" "adapt_loop (unat b + 36) (unat d div 35) = unat b' + 36 * unat d' div (unat d' + 38)"
      using Suc.IH [of "d div 35" "b + 36"] Suc.prems(2) by auto
    then show ?thesis
      using True by (simp add: bias_loop.simps [of d] adapt_loop.simps [of _ "unat d"] word_less_nat_alt)
  next
    case False
    then show ?thesis by (simp add: bias_loop.simps [of d] adapt_loop.simps [of _ "unat d"] word_less_nat_alt)
  qed
qed

section \<open>One character\<close>

lemma unat_u32_less: "unat (x :: u32) < 2 ^ 32"
  using unsigned_less [of x, where 'a = nat] by simp

text \<open>
  The encoder and the decoder in step: what is in the buffer, \<open>E\<close> after \<open>d\<close>, brings the decoder to \<open>n\<close>, \<open>i\<close> and \<open>out\<close>.
\<close>

definition in_step :: "nat \<Rightarrow> byte list \<Rightarrow> nat list \<Rightarrow> byte list \<Rightarrow> punycode \<Rightarrow> nat \<Rightarrow> nat \<Rightarrow> nat list \<Rightarrow> bool" where
  "in_step cap d basic E st n i out \<longleftrightarrow>
     pc_out st = take cap (d @ E) \<and> 45 \<notin> set E \<and>
     (\<forall>F. read_chars 128 0 72 basic (E @ F) = read_chars n i (unat (pc_bias st)) out F) \<and>
     length out = unat (pc_h st) \<and> (pc_first st \<longleftrightarrow> i = 0)"

lemma read_chars_step:
  "read_integer bias 36 1 i bs = Some (i', bs') \<Longrightarrow>
   read_chars n i bias out bs =
     read_chars (n + i' div (length out + 1)) (i' mod (length out + 1) + 1) (adapt (i' - i) (length out + 1) (i = 0))
       (take (i' mod (length out + 1)) out @ (n + i' div (length out + 1)) # drop (i' mod (length out + 1)) out) bs'"
  by (cases bs) (simp_all add: read_integer.simps Let_def)

lemma adapt_bias:
  assumes "0 < unat h"
  shows "\<exists>d b. bias_loop (delta' + delta' div h) 0 = (d, b) \<and> div_u32 (36 * d) (d + 38) = Inr (36 * d div (d + 38)) \<and>
    (delta' = (if fst_time then delta div 2 div 350 else delta div 2) \<longrightarrow>
       unat (b + 36 * d div (d + 38)) = adapt (unat delta) (unat h) fst_time)"
proof -
  have half: "unat (delta div 2) = unat delta div 2" "unat (delta div 2 div 350) = unat delta div 700"
    by (simp_all add: unat_div div_mult2_eq [symmetric])
  obtain d b where db: "bias_loop (delta' + delta' div h) 0 = (d, b)" by fastforce
  have "unat (delta' + delta' div h) < 455 * 35 ^ 5 + 1"
    using unat_u32_less [of "delta' + delta' div h"] by simp
  then have b: "unat d \<le> 455" "unat b \<le> 180"
      "adapt_loop 0 (unat (delta' + delta' div h)) = unat b + 36 * unat d div (unat d + 38)"
    using bias_loop_adapt [of "delta' + delta' div h" 5 0] db by auto
  have d38: "unat (d + 38) = unat d + 38" using b(1) unat_add_lem [of d 38] by simp
  then have "d + 38 \<noteq> 0" by (metis add_is_0 unat_0 zero_neq_numeral)
  then have div: "div_u32 (36 * d) (d + 38) = Inr (36 * d div (d + 38))" by (simp add: div_u32_def)
  have m: "unat (36 * d) = 36 * unat d" using b(1) unat_mult_lem [of 36 d] by simp
  then have q: "unat (36 * d div (d + 38)) = 36 * unat d div (unat d + 38)" by (simp add: unat_div d38)
  have "36 * unat d div (unat d + 38) \<le> 36 * unat d" by (rule div_le_dividend)
  also have "\<dots> \<le> 16380" using b(1) by simp
  finally have "unat b + 36 * unat d div (unat d + 38) \<le> 180 + 16380" by (rule add_mono [OF b(2)])
  then have "unat b + 36 * unat d div (unat d + 38) < 2 ^ 32" by (rule le_less_trans) simp
  then have sum: "unat (b + 36 * d div (d + 38)) = unat b + 36 * unat d div (unat d + 38)"
    using q unat_add_lem [of b "36 * d div (d + 38)"] by simp
  have "unat (b + 36 * d div (d + 38)) = adapt (unat delta) (unat h) fst_time"
    if e: "delta' = (if fst_time then delta div 2 div 350 else delta div 2)"
  proof -
    have u: "unat delta' = (if fst_time then unat delta div 700 else unat delta div 2)" using e half by simp
    then have "unat delta' \<le> unat delta div 2" by (auto intro: div_le_mono2)
    moreover have "unat delta' div unat h \<le> unat delta'" by simp
    moreover have "unat delta < 2 ^ 32" using unat_u32_less [of delta] by simp
    ultimately have "unat delta' + unat delta' div unat h < 2 ^ 32" by linarith
    then have "unat (delta' + delta' div h) = unat delta' + unat delta' div unat h"
      using unat_add_lem [of delta' "delta' div h"] by (simp add: unat_div)
    then show ?thesis using b(3) sum u by (simp add: adapt_def Let_def)
  qed
  then show ?thesis using db div by blast
qed

lemma write_delta_step:
  assumes "in_step cap d basic E st n i out" "unat (pc_h st) + 1 < 2 ^ 32" "i' = i + unat (pc_delta st)"
    and "points = length out + 1"
  shows "\<exists>E' st'. write_delta cap st = Inr st' \<and> pc_delta st' = 0 \<and> pc_h st' = pc_h st + 1 \<and> pc_todo st' = pc_todo st - 1 \<and>
    in_step cap d basic E' st' (n + i' div points) (i' mod points + 1)
      (take (i' mod points) out @ (n + i' div points) # drop (i' mod points) out)"
proof -
  note s = assms(1) [unfolded in_step_def]
  have "unat (pc_delta st) < 10 ^ 10" using unat_u32_less [of "pc_delta st"] by simp
  then obtain q es where loop: "digits_loop cap (pc_bias st) 36 (pc_delta st) (take cap (d @ E)) = Inr (q, take cap (d @ E @ es))"
      "unat q < 36" "digits_read (unat (pc_bias st)) 36 (unat (pc_delta st)) (es @ [puny_byte (unat q)])"
    using digits_loop_read [of "pc_delta st" 10 36 cap "pc_bias st" d E] by auto
  define E' where "E' = E @ es @ [puny_byte (unat q)]"
  have last: "emit_digit cap q (take cap (d @ E @ es)) = Inr (take cap (d @ E'))"
    using emit_digit_take [OF loop(2), of cap d "E @ es"] by (simp add: E'_def)
  define delta' where "delta' = (if pc_first st then pc_delta st div 2 div 350 else pc_delta st div 2)"
  have h: "unat (pc_h st + 1) = unat (pc_h st) + 1" using assms(2) unat_add_lem [of "pc_h st" 1] by simp
  then have h0: "pc_h st + 1 \<noteq> 0" by (metis Suc_eq_plus1 nat.distinct(1) unat_0)
  obtain dd b where db: "bias_loop (delta' + delta' div (pc_h st + 1)) 0 = (dd, b)"
      "div_u32 (36 * dd) (dd + 38) = Inr (36 * dd div (dd + 38))"
      "unat (b + 36 * dd div (dd + 38)) = adapt (unat (pc_delta st)) (unat (pc_h st + 1)) (pc_first st)"
    using adapt_bias [of "pc_h st + 1" delta' "pc_first st" "pc_delta st"] h by (auto simp: delta'_def)
  define st' where "st' = \<lparr>pc_delta = 0, pc_bias = b + 36 * dd div (dd + 38), pc_h = pc_h st + 1, pc_todo = pc_todo st - 1,
    pc_first = False, pc_out = take cap (d @ E')\<rparr>"
  have w: "write_delta cap st = Inr st'"
    using s loop(1) last db(1,2) h0 by (simp add: write_delta_def Let_def div_u32_def st'_def delta'_def)
  have pts: "points = unat (pc_h st + 1)" using s h assms(4) by simp
  have "read_integer (unat (pc_bias st)) 36 1 i ((es @ [puny_byte (unat q)]) @ F) = Some (i', F)" for F
    using loop(3) by (simp add: digits_read_def assms(3))
  note step = read_chars_step [OF this]
  have "read_chars 128 0 72 basic (E' @ F) = read_chars (n + i' div points) (i' mod points + 1) (unat (pc_bias st'))
      (take (i' mod points) out @ (n + i' div points) # drop (i' mod points) out) F" for F
    using s step [of n out F] db(3) pts assms(3,4) by (simp add: E'_def st'_def)
  moreover have "45 \<notin> set E'" using s loop(3) by (auto simp: E'_def digits_read_def)
  moreover have "length (take (i' mod points) out @ (n + i' div points) # drop (i' mod points) out) = unat (pc_h st')"
    using s h by (simp add: st'_def)
  ultimately have "in_step cap d basic E' st' (n + i' div points) (i' mod points + 1)
      (take (i' mod points) out @ (n + i' div points) # drop (i' mod points) out)"
    by (simp add: in_step_def st'_def)
  then show ?thesis using w by (auto simp: st'_def)
qed

section \<open>All characters\<close>

definition chars_up_to :: "u32 \<Rightarrow> u32 list \<Rightarrow> u32 list" where
  "chars_up_to m cs = filter (\<lambda>c. c \<le> m) cs"

definition chars_below :: "u32 \<Rightarrow> u32 list \<Rightarrow> u32 list" where
  "chars_below m cs = filter (\<lambda>c. c < m) cs"

lemma filter_lengths: "length (chars_up_to m ps) \<le> length ps" "length (chars_below m ss) \<le> length ss"
  by (simp_all add: chars_up_to_def chars_below_def)

text \<open>In a short label no delta overflows.\<close>

lemma small_delta:
  assumes "delta + i = (m - n) * (points + 1) + (pos :: nat)" "m < 0x110000" "points \<le> 3854" "pos \<le> points"
  shows "delta + 1 < 2 ^ 32"
proof -
  have "(m - n) * (points + 1) \<le> 1114111 * (points + 1)" using assms(2) by (intro mult_right_mono) simp_all
  then show ?thesis using assms by simp
qed

lemma position_div_mod:
  "pos < (p :: nat) \<Longrightarrow> (pos + a * p) div p = a" "pos < p \<Longrightarrow> (pos + a * p) mod p = pos"
  by simp_all

lemma write_char_step:
  "chars s = Some ss \<Longrightarrow> in_step cap d basic E st n i (map unat (chars_up_to m ps @ chars_below m ss)) \<Longrightarrow>
   unat (pc_delta st) + i = (unat m - n) * (length (chars_up_to m ps @ chars_below m ss) + 1) + length (chars_up_to m ps) \<Longrightarrow>
   n \<le> unat m \<Longrightarrow> unat m < 0x110000 \<Longrightarrow> length (ps @ ss) < 3855 \<Longrightarrow>
   \<exists>E' st' n' i'. write_char cap m s st = Inr (Inr st') \<and> in_step cap d basic E' st' n' i' (map unat (chars_up_to m (ps @ ss))) \<and>
     unat (pc_delta st') + i' = (unat m - n') * (length (chars_up_to m (ps @ ss)) + 1) + length (chars_up_to m (ps @ ss)) \<and>
     n' \<le> unat m \<and> pc_todo st' = pc_todo st - of_nat (length (equals m ss))"
proof (induction ss arbitrary: s st E n i ps)
  case Nil
  then have "s = []" by (simp add: chars_Nil_iff)
  then have "write_char cap m s st = Inr (Inr st) \<and> in_step cap d basic E st n i (map unat (chars_up_to m (ps @ []))) \<and>
     unat (pc_delta st) + i = (unat m - n) * (length (chars_up_to m (ps @ [])) + 1) + length (chars_up_to m (ps @ [])) \<and>
     n \<le> unat m \<and> pc_todo st = pc_todo st - of_nat (length (equals m []))"
    using Nil by (simp add: write_char.simps [of _ _ "[]"] equals_def chars_below_def)
  then show ?case by blast
next
  case (Cons c ss)
  obtain s' where s: "s \<noteq> []" "decode_again s = Inr (c, s')" "chars s' = Some ss"
    using Cons.prems(1) by (rule chars_Cons_cases)
  let ?out = "chars_up_to m ps @ chars_below m (c # ss)"
  have len: "length ?out \<le> 3854" using Cons.prems(6) filter_lengths(1) [of m ps] filter_lengths(2) [of m "c # ss"] by simp
  have small: "unat (pc_delta st) + 1 < 2 ^ 32" by (rule small_delta [OF Cons.prems(3) Cons.prems(5) len]) simp
  have ps: "(ps @ [c]) @ ss = ps @ c # ss" by simp
  consider "c < m" | "c = m" | "m < c" by (meson linorder_less_linear)
  then show ?case
  proof cases
    case 1
    let ?st = "st\<lparr>pc_delta := pc_delta st + 1\<rparr>"
    have u: "unat (pc_delta st + 1) = unat (pc_delta st) + 1" using small unat_add_lem [of "pc_delta st" 1] by simp
    then have d0: "pc_delta st + 1 \<noteq> 0" by (metis Suc_eq_plus1 nat.distinct(1) unat_0)
    have out: "chars_up_to m (ps @ [c]) @ chars_below m ss = ?out" using 1 by (simp add: chars_up_to_def chars_below_def)
    have "in_step cap d basic E ?st n i (map unat (chars_up_to m (ps @ [c]) @ chars_below m ss))"
      using Cons.prems(2) unfolding out by (simp add: in_step_def)
    moreover have "unat (pc_delta ?st) + i = (unat m - n) * (length (chars_up_to m (ps @ [c]) @ chars_below m ss) + 1) + length (chars_up_to m (ps @ [c]))"
      using Cons.prems(3) u 1 unfolding out by (simp add: chars_up_to_def)
    ultimately have ih: "\<exists>E' st' n' i'. write_char cap m s' ?st = Inr (Inr st') \<and>
       in_step cap d basic E' st' n' i' (map unat (chars_up_to m (ps @ c # ss))) \<and>
       unat (pc_delta st') + i' = (unat m - n') * (length (chars_up_to m (ps @ c # ss)) + 1) + length (chars_up_to m (ps @ c # ss)) \<and>
       n' \<le> unat m \<and> pc_todo st' = pc_todo ?st - of_nat (length (equals m ss))"
      using Cons.IH [OF s(3), of E ?st n i "ps @ [c]"] Cons.prems(4-6) unfolding ps by simp
    have "write_char cap m s st = write_char cap m s' ?st"
      using s 1 d0 less_imp_neq [OF 1] by (simp add: write_char.simps [of _ _ s] Let_def)
    moreover have "equals m (c # ss) = equals m ss" using 1 by (simp add: equals_def)
    ultimately show ?thesis using ih by simp
  next
    case 3
    then have n: "\<not> c < m" "\<not> c \<le> m" "c \<noteq> m" by auto
    have "in_step cap d basic E st n i (map unat (chars_up_to m (ps @ [c]) @ chars_below m ss))"
      using Cons.prems(2) n by (simp add: chars_up_to_def chars_below_def)
    moreover have "unat (pc_delta st) + i = (unat m - n) * (length (chars_up_to m (ps @ [c]) @ chars_below m ss) + 1) + length (chars_up_to m (ps @ [c]))"
      using Cons.prems(3) n by (simp add: chars_up_to_def chars_below_def)
    ultimately have ih: "\<exists>E' st' n' i'. write_char cap m s' st = Inr (Inr st') \<and>
       in_step cap d basic E' st' n' i' (map unat (chars_up_to m (ps @ c # ss))) \<and>
       unat (pc_delta st') + i' = (unat m - n') * (length (chars_up_to m (ps @ c # ss)) + 1) + length (chars_up_to m (ps @ c # ss)) \<and>
       n' \<le> unat m \<and> pc_todo st' = pc_todo st - of_nat (length (equals m ss))"
      using Cons.IH [OF s(3), of E st n i "ps @ [c]"] Cons.prems(4-6) unfolding ps by simp
    have "write_char cap m s st = write_char cap m s' st"
      using s n by (simp add: write_char.simps [of _ _ s] Let_def)
    moreover have "equals m (c # ss) = equals m ss" using n by (simp add: equals_def)
    ultimately show ?thesis using ih by simp
  next
    case 2
    let ?pos = "length (chars_up_to m ps)" and ?points = "length (map unat ?out) + 1"
    have h: "unat (pc_h st) + 1 < 2 ^ 32" using Cons.prems(2) len by (simp add: in_step_def)
    have pos: "?pos < ?points" by simp
    have i': "i + unat (pc_delta st) = ?pos + (unat m - n) * ?points" using Cons.prems(3) by simp
    have q: "n + (i + unat (pc_delta st)) div ?points = unat m" "(i + unat (pc_delta st)) mod ?points = ?pos"
      unfolding i' using position_div_mod [OF pos, of "unat m - n"] Cons.prems(4) by linarith+
    obtain E' st' where st': "write_delta cap st = Inr st'" "pc_delta st' = 0" "pc_h st' = pc_h st + 1"
        "pc_todo st' = pc_todo st - 1"
        "in_step cap d basic E' st' (unat m) (?pos + 1)
          (take ?pos (map unat ?out) @ unat m # drop ?pos (map unat ?out))"
      using write_delta_step [OF Cons.prems(2) h refl refl] unfolding q by blast
    have out: "take ?pos (map unat ?out) @ unat m # drop ?pos (map unat ?out) = map unat (chars_up_to m (ps @ [c]) @ chars_below m ss)"
      using 2 by (simp add: chars_up_to_def chars_below_def)
    have "unat (pc_delta st') + (?pos + 1) =
        (unat m - unat m) * (length (chars_up_to m (ps @ [c]) @ chars_below m ss) + 1) + length (chars_up_to m (ps @ [c]))"
      using st'(2) 2 by (simp add: chars_up_to_def)
    then have ih: "\<exists>E'' st'' n' i'. write_char cap m s' st' = Inr (Inr st'') \<and>
       in_step cap d basic E'' st'' n' i' (map unat (chars_up_to m (ps @ c # ss))) \<and>
       unat (pc_delta st'') + i' = (unat m - n') * (length (chars_up_to m (ps @ c # ss)) + 1) + length (chars_up_to m (ps @ c # ss)) \<and>
       n' \<le> unat m \<and> pc_todo st'' = pc_todo st' - of_nat (length (equals m ss))"
      using Cons.IH [OF s(3) st'(5) [unfolded out]] Cons.prems(5,6) unfolding ps by simp
    have "write_char cap m s st = write_char cap m s' st'"
      using s 2 st'(1) by (simp add: write_char.simps [of _ _ s] Let_def)
    moreover have "length (equals m (c # ss)) = length (equals m ss) + 1" using 2 by (simp add: equals_def)
    ultimately show ?thesis using ih st'(4) by (simp add: algebra_simps)
  qed
qed

lemma unat_not: "unat (NOT (x :: u32)) = 2 ^ 32 - 1 - unat x"
proof -
  have "NOT x = - 1 - x" by (simp add: not_eq_complement)
  moreover have "unat (- 1 - x) = unat (- 1 :: u32) - unat x" by (rule unat_sub) simp
  moreover have "unat (- 1 :: u32) = 2 ^ 32 - 1" by (simp add: unsigned_minus_1_eq_mask mask_eq_exp_minus_1)
  ultimately show ?thesis by simp
qed

lemma write_rest_step:
  "chars s = Some cs \<Longrightarrow> in_step cap d basic E st n i (map unat (chars_below N cs)) \<Longrightarrow>
   unat (pc_delta st) + i = (unat N - n) * (length (chars_below N cs) + 1) \<Longrightarrow> n \<le> unat N \<Longrightarrow> unat N \<le> 0x110000 \<Longrightarrow>
   pc_todo st = of_nat (length (at_least N cs)) \<Longrightarrow> length cs < 3855 \<Longrightarrow> length (at_least N cs) < fuel \<Longrightarrow>
   \<exists>E'. write_rest fuel cap s N st = Inr (0, take cap (d @ E')) \<and> 45 \<notin> set E' \<and>
     read_chars 128 0 72 basic E' = Some (map unat cs)"
proof (induction fuel arbitrary: E st n i N)
  case (Suc fuel)
  note write_rest.simps(2) [simp]
  have todo: "unat (pc_todo st) = length (at_least N cs)"
    using Suc.prems(6,7) by (simp add: at_least_def unat_of_nat_u32 le_less_trans [OF length_filter_le])
  show ?case
  proof (cases "at_least N cs = []")
    case True
    then have "chars_below N cs = cs" by (auto simp: at_least_def chars_below_def filter_empty_conv filter_id_conv not_le)
    moreover have "\<not> pc_todo st > 0" using todo True by (simp add: word_less_nat_alt)
    moreover have "read_chars 128 0 72 basic E = Some (map unat (chars_below N cs))"
      using Suc.prems(2) unfolding in_step_def by (metis append_Nil2 read_chars.simps(1))
    ultimately show ?thesis using Suc.prems(2) by (auto simp: in_step_def)
  next
    case False
    then obtain c where "c \<in> set cs" "N \<le> c" by (auto simp: at_least_def filter_empty_conv)
    with Suc.prems(1) obtain m where m: "next_char N s (- 1) = Inr m" "m \<in> set cs" "N \<le> m"
      "\<forall>c \<in> set cs. N \<le> c \<longrightarrow> m \<le> c" using next_char_min by blast
    have m_le: "m \<le> 0x10FFFF" using chars_range [OF Suc.prems(1)] m(2) by blast
    then have um: "unat m < 0x110000" by (simp add: word_le_nat_alt)
    have split: "length (at_least N cs) = length (equals m cs) + length (at_least (m + 1) cs)"
      using m_le m(3,4) by (rule at_least_split)
    have same: "chars_below N cs = chars_below m cs"
      using m(3,4) unfolding chars_below_def by (intro filter_cong) (auto simp: not_less dest: le_less_trans less_le_trans)
    have pos: "0 < length (equals m cs)" using m(2) by (auto simp: equals_def filter_empty_conv)
    define h where "h = length (chars_below N cs)"
    have h: "unat (pc_h st) = h" "h \<le> 3854"
      using Suc.prems(2,7) filter_lengths(2) [of N cs] by (simp_all add: in_step_def h_def)
    have y: "unat (pc_h st + 1) = h + 1" using h unat_add_lem [of "pc_h st" 1] by simp
    then have y0: "pc_h st + 1 \<noteq> 0" by (metis Suc_eq_plus1 nat.distinct(1) unat_0)
    have x: "unat (m - N) = unat m - unat N" using m(3) by (simp add: unat_sub)
    have le: "unat N \<le> unat m" using m(3) by (simp add: word_le_nat_alt)
    have e: "(unat m - n) * (h + 1) = (unat m - unat N) * (h + 1) + (unat N - n) * (h + 1)"
      using le Suc.prems(4) by (metis add_mult_distrib le_add_diff_inverse2 Nat.add_diff_assoc2 add.commute)
    then have sum: "unat (pc_delta st) + (unat m - unat N) * (h + 1) + i = (unat m - n) * (h + 1)"
      using Suc.prems(3) by (simp add: h_def)
    have bound: "unat (pc_delta st) + (unat m - unat N) * (h + 1) < 2 ^ 32"
      using small_delta [of "unat (pc_delta st) + (unat m - unat N) * (h + 1)" i "unat m" n h 0] sum um h(2) by simp
    have xy: "unat ((m - N) * (pc_h st + 1)) = (unat m - unat N) * (h + 1)"
      using bound unat_mult_lem [of "m - N" "pc_h st + 1"] x y by simp
    define st1 where "st1 = st\<lparr>pc_delta := pc_delta st + (m - N) * (pc_h st + 1)\<rparr>"
    have delta: "unat (pc_delta st1) = unat (pc_delta st) + (unat m - unat N) * (h + 1)"
      using bound unat_add_lem [of "pc_delta st" "(m - N) * (pc_h st + 1)"] xy by (simp add: st1_def)
    have no_overflow: "\<not> m - N > NOT (pc_delta st) div (pc_h st + 1)"
      using bound y by (simp add: word_less_nat_alt unat_div unat_not x not_less less_eq_div_iff_mult_less_eq)
    have "in_step cap d basic E st1 n i (map unat (chars_up_to m [] @ chars_below m cs))"
      using Suc.prems(2) same by (simp add: in_step_def st1_def chars_up_to_def)
    moreover have "unat (pc_delta st1) + i = (unat m - n) * (length (chars_up_to m [] @ chars_below m cs) + 1) + length (chars_up_to m [])"
      using delta sum same by (simp add: chars_up_to_def h_def)
    ultimately obtain E2 st2 n2 i2 where st2: "write_char cap m s st1 = Inr (Inr st2)"
        "in_step cap d basic E2 st2 n2 i2 (map unat (chars_up_to m cs))"
        "unat (pc_delta st2) + i2 = (unat m - n2) * (length (chars_up_to m cs) + 1) + length (chars_up_to m cs)"
        "n2 \<le> unat m" "pc_todo st2 = pc_todo st1 - of_nat (length (equals m cs))"
      using write_char_step [OF Suc.prems(1), of cap d basic E st1 n i m "[]"] Suc.prems(4,7) le um by auto
    let ?st = "st2\<lparr>pc_delta := pc_delta st2 + 1\<rparr>"
    have um1: "unat (m + 1) = unat m + 1" using um unat_add_lem [of m 1] by simp
    have up: "chars_below (m + 1) cs = chars_up_to m cs"
      unfolding chars_below_def chars_up_to_def using um1 by (intro filter_cong) (auto simp: word_less_nat_alt word_le_nat_alt)
    have len: "length (chars_up_to m cs) \<le> 3854" using Suc.prems(7) filter_lengths(1) [of m cs] by simp
    have "unat (pc_delta st2) + 1 < 2 ^ 32" by (rule small_delta [OF st2(3) um len order_refl])
    then have d2: "unat (pc_delta ?st) = unat (pc_delta st2) + 1" using unat_add_lem [of "pc_delta st2" 1] by simp
    have "in_step cap d basic E2 ?st n2 i2 (map unat (chars_below (m + 1) cs))"
      using st2(2) up by (simp add: in_step_def)
    moreover have "unat (pc_delta ?st) + i2 = (unat (m + 1) - n2) * (length (chars_below (m + 1) cs) + 1)"
      using d2 st2(3,4) um1 up by (simp add: Suc_diff_le)
    moreover have "pc_todo ?st = of_nat (length (at_least (m + 1) cs))"
      using st2(5) Suc.prems(6) split by (simp add: st1_def)
    ultimately have "\<exists>E'. write_rest fuel cap s (m + 1) ?st = Inr (0, take cap (d @ E')) \<and> 45 \<notin> set E' \<and>
       read_chars 128 0 72 basic E' = Some (map unat cs)"
      using Suc.IH [OF Suc.prems(1), of E2 ?st n2 i2 "m + 1"] st2(4) um um1 Suc.prems(7,8) split pos by simp
    moreover have "pc_todo st > 0" using todo False by (simp add: word_less_nat_alt)
    ultimately show ?thesis
      using m(1) y0 st2(1) no_overflow by (simp add: Let_def div_u32_ok st1_def)
  qed
qed simp

section \<open>One label\<close>

lemma write_ascii_step:
  "chars s = Some cs \<Longrightarrow> unat x + length (chars_below 128 cs) = unat h \<Longrightarrow>
   write_ascii cap h s x (take cap (d @ e)) = Inr (take cap (d @ e @ map ucast (chars_below 128 cs)))"
proof (induction cs arbitrary: s x e)
  case Nil
  then show ?case by (simp add: chars_Nil_iff write_ascii.simps chars_below_def)
next
  case (Cons c cs)
  obtain s' where s: "s \<noteq> []" "decode_again s = Inr (c, s')" "chars s' = Some cs"
    using Cons.prems(1) by (rule chars_Cons_cases)
  show ?case
  proof (cases "c < 128")
    case False
    then have c: "c > 127" "chars_below 128 (c # cs) = chars_below 128 cs" by (simp_all add: chars_below_def word_less_nat_alt)
    then show ?thesis
      using Cons.IH [OF s(3), of x e] Cons.prems(2) s(1,2) by (simp add: write_ascii.simps [of _ _ s])
  next
    case True
    then have c: "\<not> c > 127" "chars_below 128 (c # cs) = c # chars_below 128 cs" by (simp_all add: chars_below_def word_less_nat_alt)
    have b: "unat x + 1 + length (chars_below 128 cs) = unat h" using Cons.prems(2) c(2) by simp
    then have "unat x + 1 < 2 ^ 32" using unat_u32_less [of h] by linarith
    then have x: "unat (x + 1) = unat x + 1" using unat_add_lem [of x 1] by simp
    show ?thesis
    proof (cases "x + 1 = h")
      case True
      then have "chars_below 128 cs = []" using b x by simp
      then show ?thesis using True s c emit_take [of cap "ucast c" d e] by (simp add: write_ascii.simps [of _ _ s] Let_def)
    next
      case False
      have "write_ascii cap h s' (x + 1) (take cap (d @ e @ [ucast c])) = Inr (take cap (d @ (e @ [ucast c]) @ map ucast (chars_below 128 cs)))"
        using Cons.IH [OF s(3), of "x + 1" "e @ [ucast c]"] b x by simp
      then show ?thesis
        using False s c emit_take [of cap "ucast c" d e] by (simp add: write_ascii.simps [of _ _ s] Let_def)
    qed
  qed
qed

text \<open>What a label is written as: itself, or the prefix and what the reference decoder reads as the label.\<close>

definition ascii_label :: "byte list \<Rightarrow> u32 list \<Rightarrow> bool" where
  "ascii_label t cs \<longleftrightarrow>
     (if \<forall>c \<in> set cs. c < 128 then t = map ucast cs
      else \<exists>e. t = ascii ''xn--'' @ e \<and> rfc3492_decode e = Some (map unat cs))"

lemma rfc3492_decode_split:
  assumes "45 \<notin> set E" "\<forall>b \<in> set B. b < 128"
  shows "rfc3492_decode (B @ 45 # E) = read_chars 128 0 72 (map unat B) E"
    and "rfc3492_decode E = read_chars 128 0 72 [] E"
proof -
  have w: "rev (takeWhile (\<lambda>b. b \<noteq> 45) (rev E)) = E"
  proof -
    have "takeWhile (\<lambda>b. b \<noteq> 45) (rev E) = rev E"
      by (rule takeWhile_eq_all_conv [THEN iffD2]) (use assms(1) in auto)
    then show ?thesis by (simp only: rev_rev_ident)
  qed
  have "takeWhile (\<lambda>b. b \<noteq> 45) (rev E @ 45 # rev B) = rev E"
    using assms(1) by (subst takeWhile_append2) auto
  then have ext: "rev (takeWhile (\<lambda>b. b \<noteq> 45) (rev (B @ 45 # E))) = E" by simp
  have basic: "butlast (take (length (B @ 45 # E) - length E) (B @ 45 # E)) = B" by (simp add: butlast_append)
  show "rfc3492_decode (B @ 45 # E) = read_chars 128 0 72 (map unat B) E"
    unfolding rfc3492_decode_def ext Let_def basic by (rule if_P [OF assms(2)])
  show "rfc3492_decode E = read_chars 128 0 72 [] E" by (simp add: rfc3492_decode_def Let_def w)
qed

lemma below_bytes: "map unat (map ucast (chars_below 128 cs) :: byte list) = map unat (chars_below 128 cs)"
    "\<forall>b \<in> set (map ucast (chars_below 128 cs) :: byte list). b < 128"
proof -
  have u: "unat (ucast c :: byte) = unat c" if "c < 128" for c :: u32
  proof -
    have "\<not> bit c i" if "7 \<le> i" for i using small_word_bit [of c 7 i] \<open>c < 128\<close> that by simp
    then have "ucast (ucast c :: byte) = c" unfolding word_eq_bits all_less_32 by (simp add: bit_simps)
    moreover have "unat (ucast (x :: byte) :: u32) = unat x" for x by transfer (simp add: take_bit_take_bit)
    ultimately show ?thesis by metis
  qed
  then show "map unat (map ucast (chars_below 128 cs) :: byte list) = map unat (chars_below 128 cs)" by (simp add: chars_below_def)
  show "\<forall>b \<in> set (map ucast (chars_below 128 cs) :: byte list). b < 128"
    using u by (auto simp: chars_below_def word_less_nat_alt)
qed

lemma label_punycode:
  assumes "chars s = Some cs" "length cs < 3855"
  shows "\<exists>r t. uv__idna_toascii_label cap s (take cap d) = Inr (r, take cap (d @ t)) \<and> 0 \<le> r \<and> ascii_label t cs"
proof -
  define h where "h = length (chars_below 128 cs)"
  define todo where "todo = length (at_least 128 cs)"
  have len: "h + todo < 3855" using split_ascii [of cs] assms(2) by (simp add: h_def todo_def chars_below_def)
  have u: "unat (of_nat h :: u32) = h" "unat (of_nat todo :: u32) = todo" using len by (simp_all add: unat_of_nat_u32)
  have count: "count_chars s 0 0 = Inr (Inr (of_nat h, of_nat todo))"
    by (simp add: count_chars_Some [OF assms(1)] h_def todo_def at_least_def chars_below_def)
  let ?b = "map ucast (chars_below 128 cs) :: byte list"
  have wa: "write_ascii cap (of_nat h) s 0 (take cap (d @ e)) = Inr (take cap (d @ e @ ?b))" for e
    by (rule write_ascii_step [OF assms(1)]) (simp add: u h_def [symmetric])
  show ?thesis
  proof (cases "todo = 0")
    case True
    then have all: "\<forall>c \<in> set cs. c < 128" by (auto simp: todo_def at_least_def filter_empty_conv not_le)
    then have "chars_below 128 cs = cs" by (simp add: chars_below_def)
    moreover have "0 \<le> sint (of_nat h :: u32)" using len by (simp add: sint_of_nat_u32)
    ultimately show ?thesis
      using True count wa [of "[]"] all by (simp add: uv__idna_toascii_label_def ascii_label_def)
  next
    case False
    then have t: "(of_nat todo :: u32) > 0" using u(2) by (simp add: word_less_nat_alt)
    then have t': "(of_nat todo :: u32) \<noteq> 0" by auto
    have sep: "(of_nat h :: u32) > 0 \<longleftrightarrow> h > 0" using u(1) by (simp add: word_less_nat_alt)
    define d0 where "d0 = d @ ascii ''xn--'' @ ?b @ (if h > 0 then [45] else [])"
    have xn: "emit cap 45 (emit cap 45 (emit cap 110 (emit cap 120 (take cap d)))) = take cap (d @ ascii ''xn--'')"
      using emit_take [of cap 120 d "[]"] emit_take [of cap 110 d "[120]"] emit_take [of cap 45 d "[120, 110]"]
        emit_take [of cap 45 d "[120, 110, 45]"] by (simp add: ascii_def of_char_def del: take_append)
    let ?st = "\<lparr>pc_delta = 0, pc_bias = 72, pc_h = of_nat h, pc_todo = of_nat todo, pc_first = True, pc_out = take cap d0\<rparr>"
    have "in_step cap d0 (map unat (chars_below 128 cs)) [] ?st 128 0 (map unat (chars_below 128 cs))"
      using u by (simp add: in_step_def h_def)
    moreover have "length (at_least 128 cs) < length s + 1"
      using chars_length [OF assms(1)] len by (simp add: at_least_def le_less_trans [OF length_filter_le])
    ultimately obtain E where E: "write_rest (length s + 1) cap s 128 ?st = Inr (0, take cap (d0 @ E))" "45 \<notin> set E"
        "read_chars 128 0 72 (map unat (chars_below 128 cs)) E = Some (map unat cs)"
      using write_rest_step [OF assms(1), of cap d0 "map unat (chars_below 128 cs)" "[]" ?st 128 0 128 "length s + 1"]
        assms(2) by (auto simp: todo_def simp del: take_append)
    have lab: "uv__idna_toascii_label cap s (take cap d) = Inr (0, take cap (d0 @ E))"
      using count wa [of "ascii ''xn--''"] t t' sep E(1) emit_take [of cap 45 d "ascii ''xn--'' @ ?b"] xn
      by (cases "h > 0") (simp_all add: uv__idna_toascii_label_def Let_def d0_def)
    have "rfc3492_decode (?b @ (if h > 0 then [45] else []) @ E) = Some (map unat cs)"
    proof (cases "h > 0")
      case True
      have "read_chars 128 0 72 (map unat ?b) E = Some (map unat cs)" unfolding below_bytes(1) by (rule E(3))
      then show ?thesis using rfc3492_decode_split(1) [OF E(2) below_bytes(2) [of cs]] True by (simp del: map_map)
    next
      case False
      then have "chars_below 128 cs = []" by (simp add: h_def)
      then show ?thesis using rfc3492_decode_split(2) [OF E(2), of "[]"] E(3) False by simp
    qed
    moreover have "\<not> (\<forall>c \<in> set cs. c < 128)"
      using False by (auto simp: todo_def at_least_def filter_empty_conv not_le)
    ultimately have "ascii_label (ascii ''xn--'' @ ?b @ (if h > 0 then [45] else []) @ E) cs"
      unfolding ascii_label_def by (subst if_not_P) auto
    then show ?thesis using lab unfolding d0_def by (metis append.assoc order_refl)
  qed
qed

section \<open>A name\<close>

text \<open>The labels of a name, where the first one already has the characters \<open>l\<close>.\<close>

fun labels_of :: "u32 list \<Rightarrow> u32 list \<Rightarrow> u32 list list" where
  "labels_of l [] = [l]"
| "labels_of l (c # cs) = (if label_dot c then l # labels_of [] cs else labels_of (l @ [c]) cs)"

definition join_labels :: "byte list list \<Rightarrow> byte list" where
  "join_labels ts = concat (map (\<lambda>t. t @ [46]) (butlast ts)) @ last ts"

lemma join_labels_Cons: "ts \<noteq> [] \<Longrightarrow> join_labels (t # ts) = t @ [46] @ join_labels ts"
  by (simp add: join_labels_def)

text \<open>The loop leaves the last label to its caller.\<close>

lemma toascii_loop_labels:
  "\<forall>c \<in> set (l @ cs). scalar c \<Longrightarrow> length (l @ cs) < 3855 \<Longrightarrow>
   \<exists>ts lst ls. toascii_loop cap (concat (map utf8 l)) (concat (map utf8 cs)) (take cap d) =
       Inr (0, concat (map utf8 lst), take cap (d @ concat (map (\<lambda>t. t @ [46]) ts))) \<and>
     labels_of l cs = ls @ [lst] \<and> list_all2 ascii_label ts ls \<and> (\<forall>c \<in> set lst. scalar c) \<and> length lst < 3855"
proof (induction cs arbitrary: l d)
  case Nil
  have "toascii_loop cap (concat (map utf8 l)) [] (take cap d) =
      Inr (0, concat (map utf8 l), take cap (d @ concat (map (\<lambda>t. t @ [46]) [])))"
    by (simp add: toascii_loop.simps)
  moreover have "labels_of l [] = [] @ [l]" "list_all2 ascii_label [] []" by simp_all
  ultimately show ?case using Nil by (metis append_Nil2 concat.simps(1) list.simps(8))
next
  case (Cons c cs)
  let ?lab = "concat (map utf8 l)" and ?s = "concat (map utf8 cs)"
  have c: "scalar c" using Cons.prems(1) by simp
  note d1 = decode1_utf8 [OF c, of ?s] and err = scalar_not_error [OF c]
  show ?case
  proof (cases "label_dot c")
    case False
    have "toascii_loop cap ?lab (utf8 c @ ?s) (take cap d) = toascii_loop cap (concat (map utf8 (l @ [c]))) ?s (take cap d)"
      using utf8_not_empty [of c] d1 err False by (simp add: toascii_loop.simps [of _ _ "utf8 c @ ?s"])
    moreover have "\<forall>x \<in> set ((l @ [c]) @ cs). scalar x" "length ((l @ [c]) @ cs) < 3855" using Cons.prems by simp_all
    ultimately show ?thesis using Cons.IH [of "l @ [c]" d] False by simp
  next
    case True
    have l: "\<forall>x \<in> set l. scalar x" "length l < 3855" using Cons.prems by simp_all
    obtain r t where t: "uv__idna_toascii_label cap ?lab (take cap d) = Inr (r, take cap (d @ t))" "0 \<le> r" "ascii_label t l"
      using label_punycode [OF chars_utf8 [OF l(1)] l(2), of cap d] by blast
    have "toascii_loop cap ?lab (utf8 c @ ?s) (take cap d) = toascii_loop cap [] ?s (take cap (d @ t @ [46]))"
      using utf8_not_empty [of c] d1 err True t(1,2) emit_take [of cap 46 d t] by (simp add: toascii_loop.simps [of _ _ "utf8 c @ ?s"] del: take_append)
    moreover obtain ts lst ls where ih: "toascii_loop cap [] ?s (take cap (d @ t @ [46])) =
          Inr (0, concat (map utf8 lst), take cap ((d @ t @ [46]) @ concat (map (\<lambda>t. t @ [46]) ts)))"
        "labels_of [] cs = ls @ [lst]" "list_all2 ascii_label ts ls" "\<forall>c \<in> set lst. scalar c" "length lst < 3855"
      using Cons.IH [of "[]" "d @ t @ [46]"] Cons.prems by auto
    ultimately have "toascii_loop cap ?lab (utf8 c @ ?s) (take cap d) =
        Inr (0, concat (map utf8 lst), take cap (d @ concat (map (\<lambda>t. t @ [46]) (t # ts))))"
      by (simp del: take_append)
    moreover have "labels_of l (c # cs) = (l # ls) @ [lst]" "list_all2 ascii_label (t # ts) (l # ls)"
      using True ih(2,3) t(3) by simp_all
    moreover have "concat (map utf8 (c # cs)) = utf8 c @ ?s" by simp
    ultimately show ?thesis using ih(4,5) by metis
  qed
qed

lemma toascii_labels:
  assumes "\<forall>c \<in> set cs. scalar c" "length cs < 3855"
  shows "\<exists>ts. list_all2 ascii_label ts (labels_of [] cs) \<and>
    (let out = take cap (join_labels ts @ [0]) in uv__idna_toascii cap (concat (map utf8 cs)) = Inr (int (length out), out))"
proof -
  obtain ts lst ls where l: "toascii_loop cap [] (concat (map utf8 cs)) [] =
        Inr (0, concat (map utf8 lst), take cap (concat (map (\<lambda>t. t @ [46]) ts)))"
      "labels_of [] cs = ls @ [lst]" "list_all2 ascii_label ts ls" "\<forall>c \<in> set lst. scalar c" "length lst < 3855"
    using toascii_loop_labels [of "[]" cs cap "[]"] assms by auto
  let ?d = "concat (map (\<lambda>t. t @ [46]) ts)"
  obtain r t where t: "uv__idna_toascii_label cap (concat (map utf8 lst)) (take cap ?d) = Inr (r, take cap (?d @ t))"
      "0 \<le> r" "ascii_label t lst"
    using label_punycode [OF chars_utf8 [OF l(4)] l(5), of cap ?d] by blast
  have "\<exists>t. (if concat (map utf8 lst) \<noteq> [] then uv__idna_toascii_label cap (concat (map utf8 lst)) (take cap ?d)
        else Inr (0, take cap ?d)) = Inr (if concat (map utf8 lst) \<noteq> [] then r else 0, take cap (?d @ t)) \<and> ascii_label t lst"
  proof (cases "concat (map utf8 lst) = []")
    case True
    then have "lst = []" using utf8_not_empty by auto
    then show ?thesis using True by (intro exI [of _ "[]"]) (simp add: ascii_label_def)
  next
    case False
    then show ?thesis using t by auto
  qed
  then obtain t where t': "(if concat (map utf8 lst) \<noteq> [] then uv__idna_toascii_label cap (concat (map utf8 lst)) (take cap ?d)
        else Inr (0, take cap ?d)) = Inr (if concat (map utf8 lst) \<noteq> [] then r else 0, take cap (?d @ t))" "ascii_label t lst"
    by blast
  have "join_labels (ts @ [t]) = ?d @ t" by (simp add: join_labels_def)
  moreover have "list_all2 ascii_label (ts @ [t]) (labels_of [] cs)" using l(2,3) t'(2) by (simp add: list_all2_appendI)
  moreover have "uv__idna_toascii cap (concat (map utf8 cs)) =
      Inr (int (length (take cap ((?d @ t) @ [0]))), take cap ((?d @ t) @ [0]))"
    using l(1) t'(1) t(2) emit_take [of cap 0 ?d t] by (simp add: uv__idna_toascii_def Let_def del: take_append length_take)
  ultimately show ?thesis by (intro exI [of _ "ts @ [t]"]) (simp add: Let_def del: take_append length_take append_assoc)
qed

end
