(* ===== verification/Uv_Samples.thy ===== *)
theory Uv_Samples
  imports Uv_Udp_Ends Uv_Io_Correct Uv_Queue Uv_Punycode
begin

text \<open>Concrete sockets, queues and answers of the kernel for the properties of the event loop.\<close>

definition sample_udp_addr :: udp_addr where
  "sample_udp_addr = Udp_In (Sockaddr_In \<lparr>sin_family = 2, sin_port = 0x3500, s_addr = 0x0100007F\<rparr>)"

definition sample_udp :: "nat uv_udp" where
  "sample_udp = \<lparr>ud_type_udp = True, ud_active = False, ud_ref = True, ud_closing = False, ud_closed = False, ud_ipv6 = False,
     ud_bound = False, ud_processing = False, ud_connected = False, ud_recvmmsg = False, ud_alloc_cb = None, ud_recv_cb = None,
     ud_close_cb = None, ud_send_queue_size = 0, ud_send_queue_count = 0, ud_write_queue = [], ud_completed_queue = [],
     io_fd = - 1, io_pevents = 0, io_events = 0, io_pending = False\<rparr>"

definition sample_send_request :: "nat uv_udp_send_t" where
  "sample_send_request = \<lparr>rq_addr = None, rq_bufs = [], rq_cb = None, rq_status = 0\<rparr>"

text \<open>The kernel opens descriptor 3 and binds it, would block at first, and then sends.\<close>

definition sample_net :: "nat net" where
  "sample_net = \<lparr>nt_active_handles = 0, nt_active_reqs = 0, nt_handle_queue = [], nt_watcher_queue = [], nt_pending_queue = [],
     nt_running_queue = [], nt_closing_handles = [], nt_watchers = [], nt_nfds = 0, nt_udps = [5 \<mapsto> sample_udp],
     nt_reqs = Map.empty, nt_errno = 0, nt_no_memory = False, nt_calls = [3, 0], nt_sends = [- 11, 1], nt_recvs = [],
     nt_mrecvs = [], nt_wire = [], nt_epoll = [], nt_batch = None, nt_options = []\<rparr>"

definition sample_udp_calls :: "((nat \<times> int) list, nat) udp_calls" where
  "sample_udp_calls = \<lparr>call_alloc = \<lambda>cb k st. Inr ((None, 0), st), call_recv = \<lambda>cb p r b a f st. Inr st,
     call_send = \<lambda>cb q s (log, n). Inr (log @ [(q, s)], n\<lparr>nt_reqs := (nt_reqs n)(q := None)\<rparr>),
     call_close = \<lambda>cb p st. Inr st\<rparr>"

definition sample_net1 :: "nat net" where
  "sample_net1 = snd (projr (uv_udp_init 5 sample_net))"

definition sample_net2 :: "nat net" where
  "sample_net2 = snd (projr (uv_udp_send 1 5 [[104, 105]] (Some sample_udp_addr) (Some 9) (set_req 1 sample_send_request sample_net1)))"

definition sample_net3 :: "nat net" where
  "sample_net3 = snd (projr (uv__udp_io 2 sample_udp_calls 5 POLLOUT ([], sample_net2)))"

lemma projr_fst: "\<not> isl x \<Longrightarrow> fst (projr x) = a \<Longrightarrow> x = Inr (a, snd (projr x))"
  by (cases x) auto

lemma sample_net1: "uv_udp_init 5 sample_net = Inr (0, sample_net1)"
  unfolding sample_net1_def by (rule projr_fst) code_simp+

lemma sample_net2: "uv_udp_send 1 5 [[104, 105]] (Some sample_udp_addr) (Some 9) (set_req 1 sample_send_request sample_net1) = Inr (0, sample_net2)"
  unfolding sample_net2_def by (rule projr_fst) code_simp+

lemma sample_net3: "uv__udp_io 2 sample_udp_calls 5 POLLOUT ([], sample_net2) = Inr ([(1, 0)], sample_net3)"
  unfolding sample_net3_def by (rule projr_fst) code_simp+

lemma sample_udp_calls: "frees_requests sample_udp_calls"
  by (simp add: frees_requests_def sample_udp_calls_def)

text \<open>A request that is made, waits, and is sent when the socket can be written to.\<close>

lemma sample_udp_run:
  "udp_run sample_udp_calls 5 ([], [], sample_net1) ([(1, Some sample_udp_addr, [[104, 105]])], [(1, 0)], sample_net3)"
proof -
  have fresh: "nt_reqs sample_net1 1 = None" "nt_active_reqs sample_net1 < - 1" by code_simp+
  have "udp_step sample_udp_calls 5 ([], [], sample_net1) ([(1, Some sample_udp_addr, [[104, 105]])], [], sample_net2)"
    using asked [OF fresh sample_net2, where acc = "[]" and log = "[]" and calls = sample_udp_calls] by simp
  moreover have "udp_step sample_udp_calls 5 ([(1, Some sample_udp_addr, [[104, 105]])], [], sample_net2)
      ([(1, Some sample_udp_addr, [[104, 105]])], [(1, 0)], sample_net3)"
    by (rule writable [OF sample_net3])
  ultimately show ?thesis by (blast intro: run_refl run_step)
qed

text \<open>Two requests wait in a socket.\<close>

definition sample_socket :: "nat uv_udp" where
  "sample_socket = sample_udp\<lparr>ud_send_queue_size := 3, ud_send_queue_count := 2, ud_write_queue := [1, 2], io_fd := 3, io_pevents := 4\<rparr>"

definition sample_waiting :: "int list \<Rightarrow> nat net" where
  "sample_waiting answers = sample_net\<lparr>nt_active_reqs := 2, nt_udps := [5 \<mapsto> sample_socket],
     nt_reqs := [1 \<mapsto> sample_send_request\<lparr>rq_addr := Some sample_udp_addr, rq_bufs := [[104, 105]], rq_cb := Some 9\<rparr>,
                 2 \<mapsto> sample_send_request\<lparr>rq_addr := Some sample_udp_addr, rq_bufs := [[106]], rq_cb := Some 9\<rparr>],
     nt_sends := answers\<rparr>"

lemma sample_waiting:
  "nt_udps (sample_waiting answers) 5 = Some sample_socket" "nt_sends (sample_waiting answers) = answers"
  "nt_wire (sample_waiting answers) = []"
  "ud_write_queue sample_socket = [1, 2]" "ud_completed_queue sample_socket = []"
  by (simp_all add: sample_waiting_def sample_socket_def sample_net_def sample_udp_def)

lemma sample_queues_ok: "0 \<notin> set answers \<Longrightarrow> queues_ok sample_socket (sample_waiting answers)"
  by (simp add: queues_ok_def Let_def sample_waiting_def sample_socket_def sample_udp_def reqs_ok_def queue_bytes_def
      uv__count_bufs_def good_addr_def sample_udp_addr_def)

text \<open>The same socket after \<open>uv_close\<close> has closed its descriptor.\<close>

definition sample_closed_socket :: "nat uv_udp" where
  "sample_closed_socket = sample_socket\<lparr>io_fd := - 1, io_pevents := 0\<rparr>"

definition sample_closing :: "nat net" where
  "sample_closing = (sample_waiting [])\<lparr>nt_udps := [5 \<mapsto> sample_closed_socket]\<rparr>"

lemma sample_closing:
  "nt_udps sample_closing 5 = Some sample_closed_socket" "queues_ok sample_closed_socket sample_closing"
  "io_fd sample_closed_socket = - 1" "io_pevents sample_closed_socket = 0" "nt_wire sample_closing = []"
  "ud_write_queue sample_closed_socket = [1, 2]" "ud_completed_queue sample_closed_socket = []"
  by (simp_all add: sample_closing_def sample_closed_socket_def queues_ok_def Let_def sample_waiting_def sample_socket_def
      sample_udp_def sample_net_def reqs_ok_def queue_bytes_def uv__count_bufs_def good_addr_def sample_udp_addr_def)

text \<open>A socket that receives: one datagram has arrived.\<close>

definition sample_receiver :: "nat uv_udp" where
  "sample_receiver = sample_socket\<lparr>ud_alloc_cb := Some 7, ud_recv_cb := Some 8\<rparr>"

definition sample_arrived :: "nat net" where
  "sample_arrived = (sample_waiting [])\<lparr>nt_udps := [5 \<mapsto> sample_receiver],
     nt_recvs := [Inr (sample_udp_addr, [1, 2, 3]), Inl EAGAIN]\<rparr>"

lemma sample_arrived:
  "nt_udps sample_arrived 5 = Some sample_receiver" "receives sample_receiver"
  "nt_recvs sample_arrived = map Inr [(sample_udp_addr, [1, 2, 3])] @ Inl EAGAIN # []"
  by (simp_all add: sample_arrived_def sample_receiver_def receives_def sample_socket_def sample_udp_def)

definition sample_notes :: "(received, nat) udp_calls" where
  "sample_notes = \<lparr>call_alloc = \<lambda>cb k st. Inr ((Some (malloc_cells k), k), st),
     call_recv = \<lambda>cb p r b a f (s, n).
       Inr (s @ [(r, case fst b of None \<Rightarrow> [] | Some base \<Rightarrow> take (nat r) base, a, f)], n),
     call_send = \<lambda>cb q s st. Inr st, call_close = \<lambda>cb p st. Inr st\<rparr>"

lemma sample_notes: "notes_datagrams sample_notes"
  by (simp add: notes_datagrams_def sample_notes_def)

text \<open>A ring of the head 0 and two nodes, and a node of its own.\<close>

definition sample_ring :: queue_mem where
  "sample_ring = \<lparr>q_next = [0 \<mapsto> 1, 1 \<mapsto> 2, 2 \<mapsto> 0, 3 \<mapsto> 3, 4 \<mapsto> 4], q_prev = [0 \<mapsto> 2, 1 \<mapsto> 0, 2 \<mapsto> 1, 3 \<mapsto> 3, 4 \<mapsto> 4]\<rparr>"

lemma sample_ring: "ring sample_ring 0 [1, 2]" "ring sample_ring 4 []" "queue_node sample_ring 3"
  by (simp_all add: ring_def sample_ring_def queue_node_def)

text \<open>A host name of two labels, the first with an umlaut.\<close>

definition sample_host_name :: "u32 list" where
  "sample_host_name = [98, 252, 99, 104, 101, 114, 46, 100, 101]"

lemma sample_host_name:
  "\<forall>c \<in> set sample_host_name. scalar c" "length sample_host_name < 3855"
  "labels_of [] sample_host_name = [[98, 252, 99, 104, 101, 114], [100, 101]]"
  by (simp_all add: sample_host_name_def scalar_def label_dot_def)

end
