(* ===== verification/Uv_Watch.thy ===== *)
theory Uv_Watch
  imports Uv_Io "HOL-Library.Sublist"
begin

text \<open>
  The watchers that run once in every round of the loop, \<open>src/libuv/src/unix/loop-watcher.c\<close>: one macro defines them
  for the prepare, the check and the idle handles, so one record holds the handles of a kind. \<open>wt_queue\<close> is the
  queue of the loop, \<open>wt_running\<close> the queue of the round that is on.
\<close>

record 'cb loop_watcher =
  lw_cb :: "'cb option"
  lw_active :: bool
  lw_ref :: bool
  lw_closing :: bool

record 'cb watch =
  wt_active_handles :: u32
  wt_handle_queue :: "nat list"
  wt_handles :: "nat \<Rightarrow> 'cb loop_watcher option"
  wt_queue :: "nat list"
  wt_running :: "nat list"

definition watcher_at :: "'cb watch \<Rightarrow> nat \<Rightarrow> 'cb loop_watcher res" where
  "watcher_at w p = or_fail Use_After_Free (wt_handles w p)"

definition set_watcher :: "nat \<Rightarrow> 'cb loop_watcher \<Rightarrow> 'cb watch \<Rightarrow> 'cb watch" where
  "set_watcher p h w = w\<lparr>wt_handles := (wt_handles w)(p \<mapsto> h)\<rparr>"

section \<open>Operations\<close>

definition uv_watcher_init :: "nat \<Rightarrow> 'cb watch \<Rightarrow> (int \<times> 'cb watch) res" where
  "uv_watcher_init p w =
     bindE (watcher_at w p) (\<lambda>h.
     Inr (0, set_watcher p \<lparr>lw_cb = None, lw_active = False, lw_ref = True, lw_closing = False\<rparr>
               (w\<lparr>wt_handle_queue := wt_handle_queue w @ [p]\<rparr>)))"

definition watcher_handle_start :: "nat \<Rightarrow> 'cb watch \<Rightarrow> 'cb watch res" where
  "watcher_handle_start p w =
     bindE (watcher_at w p) (\<lambda>h.
     if lw_active h then Inr w
     else
       let w = set_watcher p (h\<lparr>lw_active := True\<rparr>) w
       in Inr (if lw_ref h then w\<lparr>wt_active_handles := wt_active_handles w + 1\<rparr> else w))"

definition watcher_handle_stop :: "nat \<Rightarrow> 'cb watch \<Rightarrow> 'cb watch res" where
  "watcher_handle_stop p w =
     bindE (watcher_at w p) (\<lambda>h.
     if \<not> lw_active h then Inr w
     else
       let w = set_watcher p (h\<lparr>lw_active := False\<rparr>) w
       in Inr (if lw_ref h then w\<lparr>wt_active_handles := wt_active_handles w - 1\<rparr> else w))"

definition uv_watcher_start :: "nat \<Rightarrow> 'cb option \<Rightarrow> 'cb watch \<Rightarrow> (int \<times> 'cb watch) res" where
  "uv_watcher_start p cb w =
     bindE (watcher_at w p) (\<lambda>h.
     if lw_active h then Inr (0, w)
     else if cb = None then Inr (UV_EINVAL, w)
     else
       let w = set_watcher p (h\<lparr>lw_cb := cb\<rparr>) (w\<lparr>wt_queue := p # wt_queue w\<rparr>)
       in bindE (watcher_handle_start p w) (\<lambda>w. Inr (0, w)))"

text \<open>The node is taken out of the queue it is in.\<close>

definition uv_watcher_stop :: "nat \<Rightarrow> 'cb watch \<Rightarrow> (int \<times> 'cb watch) res" where
  "uv_watcher_stop p w =
     bindE (watcher_at w p) (\<lambda>h.
     if \<not> lw_active h then Inr (0, w)
     else
       bindE (watcher_handle_stop p (w\<lparr>wt_queue := removeAll p (wt_queue w), wt_running := removeAll p (wt_running w)\<rparr>))
         (\<lambda>w. Inr (0, w)))"

fun run_watchers_loop ::
    "nat \<Rightarrow> ('cb \<Rightarrow> nat \<Rightarrow> 's \<times> 'cb watch \<Rightarrow> ('s \<times> 'cb watch) res) \<Rightarrow> 's \<times> 'cb watch \<Rightarrow> ('s \<times> 'cb watch) res" where
  "run_watchers_loop 0 call st = Inl Diverges"
| "run_watchers_loop (Suc fuel) call (s, w) =
     (case wt_running w of
        [] \<Rightarrow> Inr (s, w)
      | p # ps \<Rightarrow>
          let w = w\<lparr>wt_running := ps, wt_queue := wt_queue w @ [p]\<rparr>
          in bindE (watcher_at w p) (\<lambda>h.
             bindE (or_fail Null_Deref (lw_cb h)) (\<lambda>cb.
             bindE (call cb p (s, w)) (run_watchers_loop fuel call))))"

definition uv__run_watchers ::
    "nat \<Rightarrow> ('cb \<Rightarrow> nat \<Rightarrow> 's \<times> 'cb watch \<Rightarrow> ('s \<times> 'cb watch) res) \<Rightarrow> 's \<times> 'cb watch \<Rightarrow> ('s \<times> 'cb watch) res" where
  "uv__run_watchers fuel call = (\<lambda>(s, w). run_watchers_loop fuel call (s, w\<lparr>wt_running := wt_queue w, wt_queue := []\<rparr>))"

definition uv__watcher_close :: "nat \<Rightarrow> 'cb watch \<Rightarrow> 'cb watch res" where
  "uv__watcher_close p w = bindE (uv_watcher_stop p w) (\<lambda>(_, w). Inr w)"

section \<open>What callbacks may do to the watchers\<close>

inductive watch_changes :: "'cb watch \<Rightarrow> 'cb watch \<Rightarrow> bool" where
  none: "watch_changes w w"
| started: "watch_changes w w' \<Longrightarrow> uv_watcher_start p cb w' = Inr (e, w'') \<Longrightarrow> watch_changes w w''"
| stopped: "watch_changes w w' \<Longrightarrow> uv_watcher_stop p w' = Inr (e, w'') \<Longrightarrow> watch_changes w w''"

text \<open>The handles in the two queues are the active ones, each is in one place, and has a callback.\<close>

definition watch_ok :: "'cb watch \<Rightarrow> bool" where
  "watch_ok w \<longleftrightarrow> distinct (wt_running w @ wt_queue w) \<and>
     (\<forall>p. p \<in> set (wt_running w @ wt_queue w) \<longleftrightarrow> (\<exists>h. wt_handles w p = Some h \<and> lw_active h)) \<and>
     (\<forall>p h. wt_handles w p = Some h \<longrightarrow> lw_active h \<longrightarrow> lw_cb h \<noteq> None)"

lemma start_effect:
  assumes "uv_watcher_start p cb w = Inr (e, w')" "watch_ok w"
  shows "watch_ok w' \<and> wt_running w' = wt_running w"
proof -
  obtain h where h: "wt_handles w p = Some h" using assms(1)
    by (auto simp: uv_watcher_start_def watcher_at_def res_simps)
  show ?thesis
  proof (cases "lw_active h \<or> cb = None")
    case True
    then show ?thesis using assms h by (auto simp: uv_watcher_start_def watcher_at_def split: if_splits)
  next
    case False
    then have w': "wt_running w' = wt_running w" "wt_queue w' = p # wt_queue w"
        "wt_handles w' = (wt_handles w)(p \<mapsto> h\<lparr>lw_cb := cb, lw_active := True\<rparr>)"
      using assms(1) h
      by (auto simp: uv_watcher_start_def watcher_at_def watcher_handle_start_def set_watcher_def Let_def split: if_splits)
    have "p \<notin> set (wt_running w @ wt_queue w)" using assms(2) h False by (auto simp: watch_ok_def)
    then show ?thesis using assms(2) False unfolding watch_ok_def w' by auto
  qed
qed

lemma stop_effect:
  assumes "uv_watcher_stop p w = Inr (e, w')" "watch_ok w"
  shows "watch_ok w' \<and> subseq (wt_running w') (wt_running w)"
proof -
  obtain h where h: "wt_handles w p = Some h" using assms(1)
    by (auto simp: uv_watcher_stop_def watcher_at_def res_simps)
  show ?thesis
  proof (cases "lw_active h")
    case False
    then show ?thesis using assms h by (auto simp: uv_watcher_stop_def watcher_at_def split: if_splits)
  next
    case True
    then have w': "wt_running w' = removeAll p (wt_running w)" "wt_queue w' = removeAll p (wt_queue w)"
        "wt_handles w' = (wt_handles w)(p \<mapsto> h\<lparr>lw_active := False\<rparr>)"
      using assms(1) h
      by (auto simp: uv_watcher_stop_def watcher_at_def watcher_handle_stop_def set_watcher_def Let_def split: if_splits)
    have "subseq (removeAll p (wt_running w)) (wt_running w)"
      by (simp add: removeAll_filter_not_eq subseq_filter_left)
    then show ?thesis using assms(2) unfolding watch_ok_def w' by (auto simp: distinct_removeAll)
  qed
qed

lemma changes_effect: "watch_changes w w' \<Longrightarrow> watch_ok w \<Longrightarrow> watch_ok w' \<and> subseq (wt_running w') (wt_running w)"
  by (induction rule: watch_changes.induct) (auto dest: start_effect stop_effect intro: subseq_order.order_trans)

section \<open>A round\<close>

text \<open>Callbacks that note which handle was called and start and stop watchers as they like.\<close>

definition notes_calls :: "('cb \<Rightarrow> nat \<Rightarrow> nat list \<times> 'cb watch \<Rightarrow> (nat list \<times> 'cb watch) res) \<Rightarrow> bool" where
  "notes_calls call \<longleftrightarrow> (\<forall>cb p s w. \<exists>w'. call cb p (s, w) = Inr (s @ [p], w') \<and> watch_changes w w')"

lemma run_watchers_loop_once:
  "notes_calls call \<Longrightarrow> watch_ok w \<Longrightarrow> length (wt_running w) < fuel \<Longrightarrow>
   \<exists>called w'. run_watchers_loop fuel call (s, w) = Inr (s @ called, w') \<and> subseq called (wt_running w) \<and>
     watch_ok w' \<and> wt_running w' = []"
proof (induction fuel arbitrary: s w)
  case (Suc fuel)
  show ?case
  proof (cases "wt_running w")
    case Nil
    then show ?thesis using Suc.prems by auto
  next
    case (Cons p ps)
    let ?w = "w\<lparr>wt_running := ps, wt_queue := wt_queue w @ [p]\<rparr>"
    have ok: "watch_ok ?w" using Suc.prems(2) Cons by (auto simp: watch_ok_def)
    obtain h cb where h: "wt_handles w p = Some h" "lw_cb h = Some cb"
      using Suc.prems(2) Cons unfolding watch_ok_def by (metis append_Cons list.set_intros(1) not_None_eq)
    obtain w1 where w1: "call cb p (s, ?w) = Inr (s @ [p], w1)" "watch_changes ?w w1"
      using Suc.prems(1) unfolding notes_calls_def by blast
    have c: "watch_ok w1" "subseq (wt_running w1) ps" using changes_effect [OF w1(2) ok] by simp_all
    then have "length (wt_running w1) < fuel" using Suc.prems(3) Cons list_emb_length [OF c(2)] by simp
    then obtain called w' where ih: "run_watchers_loop fuel call (s @ [p], w1) = Inr ((s @ [p]) @ called, w')"
        "subseq called (wt_running w1)" "watch_ok w'" "wt_running w' = []"
      using Suc.IH [OF Suc.prems(1) c(1)] by blast
    have "subseq called ps" using ih(2) c(2) by (rule subseq_order.order_trans)
    then have "subseq (p # called) (wt_running w)" using Cons by simp
    moreover have "run_watchers_loop (Suc fuel) call (s, w) = Inr (s @ p # called, w')"
      using Cons h w1(1) ih(1) by (simp add: watcher_at_def Let_def)
    ultimately show ?thesis using ih(3,4) by blast
  qed
qed simp

text \<open>Callbacks that leave the watchers alone: each is called once, and the queue is as before.\<close>

lemma run_watchers_loop_all:
  "(\<And>cb p s w. call cb p (s, w) = Inr (s @ [p], w)) \<Longrightarrow> watch_ok w \<Longrightarrow> length (wt_running w) < fuel \<Longrightarrow>
   run_watchers_loop fuel call (s, w) = Inr (s @ wt_running w, w\<lparr>wt_running := [], wt_queue := wt_queue w @ wt_running w\<rparr>)"
proof (induction fuel arbitrary: s w)
  case (Suc fuel)
  show ?case
  proof (cases "wt_running w")
    case (Cons p ps)
    let ?w = "w\<lparr>wt_running := ps, wt_queue := wt_queue w @ [p]\<rparr>"
    have ok: "watch_ok ?w" using Suc.prems(2) Cons by (auto simp: watch_ok_def)
    obtain h cb where h: "wt_handles w p = Some h" "lw_cb h = Some cb"
      using Suc.prems(2) Cons unfolding watch_ok_def by (metis append_Cons list.set_intros(1) not_None_eq)
    have "run_watchers_loop fuel call (s @ [p], ?w) =
        Inr ((s @ [p]) @ ps, ?w\<lparr>wt_running := [], wt_queue := (wt_queue w @ [p]) @ ps\<rparr>)"
      using Suc.IH [OF Suc.prems(1) ok, of "s @ [p]"] Suc.prems(3) Cons by simp
    then show ?thesis using Cons h Suc.prems(1) by (simp add: watcher_at_def Let_def)
  qed simp
qed simp

end
