(* ===== verification/Uv_Loop.thy ===== *)
theory Uv_Loop
  imports Uv_Udp Uv_Timer Uv_Watch
begin

text \<open>
  The event loop: \<open>uv_run\<close> and its parts of \<open>src/libuv/src/unix/core.c\<close> and \<open>uv__io_poll\<close> of
  \<open>src/libuv/src/unix/linux.c\<close>. The sockets, the timers and the watchers of a loop are the records of the theories
  before; the count of active handles and the queue of handles, which they share, are those of the loop and are put
  into a part while it runs. \<open>el_clock\<close> are the answers of the clock, in nanoseconds. The kernel's \<open>epoll_pwait\<close>
  is the argument \<open>pwait\<close>: it answers a timeout with events or with an \<open>errno\<close>. Not modelled are the ring of
  \<open>io_uring\<close>, the metrics, the signal mask and the watchers of the loop itself (signals, wake-ups of threads).
\<close>

unbundle bit_operations_syntax

section \<open>State\<close>

datatype watch_kind = Prepare | Check | Idle

datatype uv_run_mode = UV_RUN_DEFAULT | UV_RUN_ONCE | UV_RUN_NOWAIT

type_synonym epoll_events = "(int \<times> u32) list"

record ('a, 'cb) event_loop =
  el_prog :: 'a
  el_active_handles :: u32
  el_handle_queue :: "nat list"
  el_net :: "'cb net"
  el_timers :: "'cb uv_loop"
  el_watch :: "watch_kind \<Rightarrow> 'cb watch"
  el_stop_flag :: bool
  el_clock :: "u64 list"

record ('a, 'cb) loop_calls =
  on_alloc :: "'cb \<Rightarrow> nat \<Rightarrow> ('a, 'cb) event_loop \<Rightarrow> ((cells option \<times> nat) \<times> ('a, 'cb) event_loop) res"
  on_recv :: "'cb \<Rightarrow> nat \<Rightarrow> int \<Rightarrow> cells option \<times> nat \<Rightarrow> udp_addr option \<Rightarrow> u32 \<Rightarrow> ('a, 'cb) event_loop \<Rightarrow> ('a, 'cb) event_loop res"
  on_send :: "'cb \<Rightarrow> nat \<Rightarrow> int \<Rightarrow> ('a, 'cb) event_loop \<Rightarrow> ('a, 'cb) event_loop res"
  on_close :: "'cb \<Rightarrow> nat \<Rightarrow> ('a, 'cb) event_loop \<Rightarrow> ('a, 'cb) event_loop res"
  on_timer :: "'cb \<Rightarrow> nat \<Rightarrow> ('a, 'cb) event_loop \<Rightarrow> ('a, 'cb) event_loop res"
  on_watch :: "watch_kind \<Rightarrow> 'cb \<Rightarrow> nat \<Rightarrow> ('a, 'cb) event_loop \<Rightarrow> ('a, 'cb) event_loop res"

section \<open>The parts of a loop\<close>

definition get_net :: "('a, 'cb) event_loop \<Rightarrow> 'cb net" where
  "get_net e = (el_net e)\<lparr>nt_active_handles := el_active_handles e, nt_handle_queue := el_handle_queue e\<rparr>"

definition put_net :: "'cb net \<Rightarrow> ('a, 'cb) event_loop \<Rightarrow> ('a, 'cb) event_loop" where
  "put_net n e = e\<lparr>el_net := n, el_active_handles := nt_active_handles n, el_handle_queue := nt_handle_queue n\<rparr>"

definition get_timers :: "('a, 'cb) event_loop \<Rightarrow> 'cb uv_loop" where
  "get_timers e = (el_timers e)\<lparr>lp_active_handles := el_active_handles e, lp_handle_queue := el_handle_queue e\<rparr>"

definition put_timers :: "'cb uv_loop \<Rightarrow> ('a, 'cb) event_loop \<Rightarrow> ('a, 'cb) event_loop" where
  "put_timers l e = e\<lparr>el_timers := l, el_active_handles := lp_active_handles l, el_handle_queue := lp_handle_queue l\<rparr>"

definition get_watch :: "watch_kind \<Rightarrow> ('a, 'cb) event_loop \<Rightarrow> 'cb watch" where
  "get_watch k e = (el_watch e k)\<lparr>wt_active_handles := el_active_handles e, wt_handle_queue := el_handle_queue e\<rparr>"

definition put_watch :: "watch_kind \<Rightarrow> 'cb watch \<Rightarrow> ('a, 'cb) event_loop \<Rightarrow> ('a, 'cb) event_loop" where
  "put_watch k w e =
     e\<lparr>el_watch := (el_watch e)(k := w), el_active_handles := wt_active_handles w, el_handle_queue := wt_handle_queue w\<rparr>"

text \<open>A step of a part with the rest of the loop beside it, and the callbacks as such a part sees them.\<close>

definition on_net ::
    "(('a, 'cb) event_loop \<times> 'cb net \<Rightarrow> (('a, 'cb) event_loop \<times> 'cb net) res) \<Rightarrow> ('a, 'cb) event_loop \<Rightarrow> ('a, 'cb) event_loop res" where
  "on_net f e = bindE (f (e, get_net e)) (\<lambda>(e, n). Inr (put_net n e))"

definition in_net ::
    "(('a, 'cb) event_loop \<Rightarrow> ('a, 'cb) event_loop res) \<Rightarrow> ('a, 'cb) event_loop \<times> 'cb net \<Rightarrow> (('a, 'cb) event_loop \<times> 'cb net) res" where
  "in_net call = (\<lambda>(e, n). bindE (call (put_net n e)) (\<lambda>e. Inr (e, get_net e)))"

definition net_calls :: "('a, 'cb) loop_calls \<Rightarrow> (('a, 'cb) event_loop, 'cb) udp_calls" where
  "net_calls c =
     \<lparr>call_alloc = \<lambda>cb k (e, n). bindE (on_alloc c cb k (put_net n e)) (\<lambda>(b, e). Inr (b, e, get_net e)),
      call_recv = \<lambda>cb p r b a f. in_net (on_recv c cb p r b a f),
      call_send = \<lambda>cb q s. in_net (on_send c cb q s),
      call_close = \<lambda>cb p. in_net (on_close c cb p)\<rparr>"

definition timer_calls ::
    "('a, 'cb) loop_calls \<Rightarrow> 'cb \<Rightarrow> nat \<Rightarrow> ('a, 'cb) event_loop \<times> 'cb uv_loop \<Rightarrow> (('a, 'cb) event_loop \<times> 'cb uv_loop) res" where
  "timer_calls c cb p = (\<lambda>(e, l). bindE (on_timer c cb p (put_timers l e)) (\<lambda>e. Inr (e, get_timers e)))"

definition watch_calls ::
    "watch_kind \<Rightarrow> ('a, 'cb) loop_calls \<Rightarrow> 'cb \<Rightarrow> nat \<Rightarrow> ('a, 'cb) event_loop \<times> 'cb watch \<Rightarrow> (('a, 'cb) event_loop \<times> 'cb watch) res" where
  "watch_calls k c cb p = (\<lambda>(e, w). bindE (on_watch c k cb p (put_watch k w e)) (\<lambda>e. Inr (e, get_watch k e)))"

definition run_timers :: "nat \<Rightarrow> ('a, 'cb) loop_calls \<Rightarrow> ('a, 'cb) event_loop \<Rightarrow> ('a, 'cb) event_loop res" where
  "run_timers fuel c e = bindE (uv__run_timers fuel (timer_calls c) (e, get_timers e)) (\<lambda>(e, l). Inr (put_timers l e))"

definition run_watchers :: "watch_kind \<Rightarrow> nat \<Rightarrow> ('a, 'cb) loop_calls \<Rightarrow> ('a, 'cb) event_loop \<Rightarrow> ('a, 'cb) event_loop res" where
  "run_watchers k fuel c e =
     bindE (uv__run_watchers fuel (watch_calls k c) (e, get_watch k e)) (\<lambda>(e, w). Inr (put_watch k w e))"

section \<open>The time\<close>

definition el_time :: "('a, 'cb) event_loop \<Rightarrow> u64" where
  "el_time e = lp_time (el_timers e)"

definition uv__update_time :: "('a, 'cb) event_loop \<Rightarrow> ('a, 'cb) event_loop res" where
  "uv__update_time e =
     (case el_clock e of
        [] \<Rightarrow> Inl Diverges
      | t # ts \<Rightarrow> Inr (e\<lparr>el_timers := (el_timers e)\<lparr>lp_time := t div 1000000\<rparr>, el_clock := ts\<rparr>))"

definition uv_now :: "('a, 'cb) event_loop \<Rightarrow> u64" where
  "uv_now e = el_time e"

definition uv_stop :: "('a, 'cb) event_loop \<Rightarrow> ('a, 'cb) event_loop" where
  "uv_stop e = e\<lparr>el_stop_flag := True\<rparr>"

section \<open>Polling\<close>

definition POLLERR :: u32 where "POLLERR = 8"
definition POLLHUP :: u32 where "POLLHUP = 16"

text \<open>The sockets whose events have changed since the last poll.\<close>

fun register_watchers :: "nat list \<Rightarrow> 'cb net \<Rightarrow> 'cb net res" where
  "register_watchers [] n = Inr n"
| "register_watchers (p # ps) n =
     (let n = n\<lparr>nt_watcher_queue := ps\<rparr> in
      bindE (udp_at n p) (\<lambda>u.
      let op = (if io_events u = 0 then Epoll_Add else Epoll_Mod);
          n = set_udp p (u\<lparr>io_events := io_pevents u\<rparr>) n
      in bindE (uv__epoll_ctl_prep op (io_fd u) (io_pevents u) n) (register_watchers ps)))"

text \<open>What is given to the callback of a watcher for the events of the kernel.\<close>

definition wanted_events :: "u32 \<Rightarrow> u32 \<Rightarrow> u32" where
  "wanted_events pevents events =
     (let ev = events AND (pevents OR POLLERR OR POLLHUP)
      in if ev = POLLERR \<or> ev = POLLHUP then ev OR (pevents AND poll_mask) else ev)"

text \<open>The events from the \<open>i\<close>-th on, and how many callbacks there were.\<close>

fun hand_out :: "nat \<Rightarrow> ('s, 'cb) udp_calls \<Rightarrow> nat \<Rightarrow> nat \<Rightarrow> nat \<Rightarrow> 's \<times> 'cb net \<Rightarrow> (nat \<times> 's \<times> 'cb net) res" where
  "hand_out fuel calls i 0 nevents st = Inr (nevents, st)"
| "hand_out fuel calls i (Suc k) nevents (s, n) =
     bindE (or_fail Null_Deref (nt_batch n)) (\<lambda>events.
     bindE (arr_get events i) (\<lambda>(fd, ev).
     if fd = - 1 then hand_out fuel calls (i + 1) k nevents (s, n)
     else
       bindE (check (fd \<ge> 0)) (\<lambda>_.
       bindE (check (nat fd < nwatchers n)) (\<lambda>_.
       bindE (arr_get (nt_watchers n) (nat fd)) (\<lambda>w.
       case w of
         None \<Rightarrow> bindE (uv__epoll_ctl_prep Epoll_Del fd ev n) (\<lambda>n. hand_out fuel calls (i + 1) k nevents (s, n))
       | Some p \<Rightarrow>
           bindE (udp_at n p) (\<lambda>u.
           let ev = wanted_events (io_pevents u) ev;
               n = n\<lparr>nt_batch := Some (events[i := (fd, ev)])\<rparr>
           in if ev \<noteq> 0 then
                bindE (uv__udp_io fuel calls p ev (s, n)) (hand_out fuel calls (i + 1) k (nevents + 1))
              else hand_out fuel calls (i + 1) k nevents (s, n)))))))"

definition hand_out_all ::
    "nat \<Rightarrow> ('a, 'cb) loop_calls \<Rightarrow> epoll_events \<Rightarrow> ('a, 'cb) event_loop \<Rightarrow> (nat \<times> ('a, 'cb) event_loop) res" where
  "hand_out_all fuel c events e =
     bindE (hand_out fuel (net_calls c) 0 (length events) 0 (e, (get_net e)\<lparr>nt_batch := Some events\<rparr>)) (\<lambda>(nevents, e, n).
     Inr (nevents, put_net (n\<lparr>nt_batch := None\<rparr>) e))"

text \<open>What is left of a timeout of \<open>remain\<close> milliseconds, an \<open>int\<close>, at the label \<open>update_timeout\<close>.\<close>

definition less_elapsed :: "u64 \<Rightarrow> int \<Rightarrow> ('a, 'cb) event_loop \<Rightarrow> int" where
  "less_elapsed base remain e = sint (ucast (of_int remain - (el_time e - base)) :: u32)"

definition set_errno :: "int + epoll_events \<Rightarrow> ('a, 'cb) event_loop \<Rightarrow> ('a, 'cb) event_loop" where
  "set_errno answer e = (case answer of Inl err \<Rightarrow> e\<lparr>el_net := (el_net e)\<lparr>nt_errno := err\<rparr>\<rparr> | Inr events \<Rightarrow> e)"

text \<open>
  The endless loop around \<open>epoll_pwait\<close>, with a bound on its rounds. \<open>remain\<close> is \<open>real_timeout\<close>, \<open>batches\<close> (\<open>count\<close>) the number of
  full batches that may still be handed out.
\<close>

fun poll_loop ::
    "nat \<Rightarrow> nat \<Rightarrow> ('a, 'cb) loop_calls \<Rightarrow> (int \<Rightarrow> ('a, 'cb) event_loop \<Rightarrow> ((int + epoll_events) \<times> ('a, 'cb) event_loop) res) \<Rightarrow>
     u64 \<Rightarrow> nat \<Rightarrow> int \<Rightarrow> int \<Rightarrow> ('a, 'cb) event_loop \<Rightarrow> ('a, 'cb) event_loop res" where
  "poll_loop 0 fuel c pwait base batches timeout remain e = Inl Diverges"
| "poll_loop (Suc rounds) fuel c pwait base batches timeout remain e =
     (if nt_nfds (el_net e) = 0 then Inr e
      else
        bindE (pwait timeout e) (\<lambda>(answer, e).
        bindE (uv__update_time (set_errno answer e)) (\<lambda>e.
        let again = (\<lambda>e.
              let remain = less_elapsed base remain e
              in bindE (check (timeout > 0)) (\<lambda>_.
                 if remain \<le> 0 then Inr e else poll_loop rounds fuel c pwait base batches remain remain e))
        in case answer of
             Inl err \<Rightarrow>
               if err \<noteq> EINTR then Inl Assertion_Failed
               else if timeout = - 1 then poll_loop rounds fuel c pwait base batches timeout remain e
               else if timeout = 0 then Inr e
               else again e
           | Inr events \<Rightarrow>
               if events = [] then
                 bindE (check (timeout \<noteq> - 1)) (\<lambda>_. if timeout = 0 then Inr e else again e)
               else
                 bindE (hand_out_all fuel c (take 1024 events) e) (\<lambda>(nevents, e).
                 if nevents \<noteq> 0 then
                   (if length events \<ge> 1024 \<and> batches > 1 then poll_loop rounds fuel c pwait base (batches - 1) 0 remain e
                    else Inr e)
                 else if timeout = 0 then Inr e
                 else if timeout = - 1 then poll_loop rounds fuel c pwait base batches timeout remain e
                 else again e))))"

definition uv__io_poll ::
    "nat \<Rightarrow> nat \<Rightarrow> ('a, 'cb) loop_calls \<Rightarrow> (int \<Rightarrow> ('a, 'cb) event_loop \<Rightarrow> ((int + epoll_events) \<times> ('a, 'cb) event_loop) res) \<Rightarrow>
     int \<Rightarrow> ('a, 'cb) event_loop \<Rightarrow> ('a, 'cb) event_loop res" where
  "uv__io_poll rounds fuel c pwait timeout e =
     bindE (check (timeout \<ge> - 1)) (\<lambda>_.
     bindE (on_net (\<lambda>(e, n). bindE (register_watchers (nt_watcher_queue n) n) (\<lambda>n. Inr (e, n))) e) (\<lambda>e.
     poll_loop rounds fuel c pwait (el_time e) 48 timeout timeout e))"

section \<open>Running\<close>

definition uv__loop_alive :: "('a, 'cb) event_loop \<Rightarrow> bool" where
  "uv__loop_alive e \<longleftrightarrow> el_active_handles e > 0 \<or> nt_active_reqs (el_net e) > 0 \<or>
     nt_pending_queue (el_net e) \<noteq> [] \<or> nt_closing_handles (el_net e) \<noteq> []"

definition uv__backend_timeout :: "('a, 'cb) event_loop \<Rightarrow> int res" where
  "uv__backend_timeout e =
     (if \<not> el_stop_flag e \<and> (el_active_handles e > 0 \<or> nt_active_reqs (el_net e) > 0) \<and>
         nt_pending_queue (el_net e) = [] \<and> wt_queue (el_watch e Idle) = [] \<and> nt_closing_handles (el_net e) = []
      then uv__next_timeout (el_timers e)
      else Inr 0)"

definition uv_backend_timeout :: "('a, 'cb) event_loop \<Rightarrow> int res" where
  "uv_backend_timeout e = (if nt_watcher_queue (el_net e) = [] then uv__backend_timeout e else Inr 0)"

text \<open>At most \<open>k\<close> rounds of pending callbacks.\<close>

fun pending_rounds :: "nat \<Rightarrow> nat \<Rightarrow> ('a, 'cb) loop_calls \<Rightarrow> ('a, 'cb) event_loop \<Rightarrow> ('a, 'cb) event_loop res" where
  "pending_rounds 0 fuel c e = Inr e"
| "pending_rounds (Suc k) fuel c e =
     (if nt_pending_queue (el_net e) = [] then Inr e
      else bindE (on_net (uv__run_pending fuel (net_calls c)) e) (pending_rounds k fuel c))"

text \<open>A round of the loop.\<close>

definition loop_round ::
    "nat \<Rightarrow> nat \<Rightarrow> ('a, 'cb) loop_calls \<Rightarrow> (int \<Rightarrow> ('a, 'cb) event_loop \<Rightarrow> ((int + epoll_events) \<times> ('a, 'cb) event_loop) res) \<Rightarrow>
     uv_run_mode \<Rightarrow> ('a, 'cb) event_loop \<Rightarrow> ('a, 'cb) event_loop res" where
  "loop_round rounds fuel c pwait mode e =
     (let can_sleep = (nt_pending_queue (el_net e) = [] \<and> wt_queue (el_watch e Idle) = []) in
      bindE (on_net (uv__run_pending fuel (net_calls c)) e) (\<lambda>e.
      bindE (run_watchers Idle fuel c e) (\<lambda>e.
      bindE (run_watchers Prepare fuel c e) (\<lambda>e.
      bindE (if mode = UV_RUN_ONCE \<and> can_sleep \<or> mode = UV_RUN_DEFAULT then uv__backend_timeout e else Inr 0) (\<lambda>timeout.
      bindE (uv__io_poll rounds fuel c pwait timeout e) (\<lambda>e.
      bindE (pending_rounds 8 fuel c e) (\<lambda>e.
      bindE (run_watchers Check fuel c e) (\<lambda>e.
      bindE (on_net (uv__run_closing_handles fuel (net_calls c)) e) (\<lambda>e.
      bindE (uv__update_time e) (run_timers fuel c))))))))))"

fun run_loop ::
    "nat \<Rightarrow> nat \<Rightarrow> ('a, 'cb) loop_calls \<Rightarrow> (int \<Rightarrow> ('a, 'cb) event_loop \<Rightarrow> ((int + epoll_events) \<times> ('a, 'cb) event_loop) res) \<Rightarrow>
     uv_run_mode \<Rightarrow> bool \<times> ('a, 'cb) event_loop \<Rightarrow> (bool \<times> ('a, 'cb) event_loop) res" where
  "run_loop 0 fuel c pwait mode st = Inl Diverges"
| "run_loop (Suc rounds) fuel c pwait mode (r, e) =
     (if r \<and> \<not> el_stop_flag e then
        bindE (loop_round rounds fuel c pwait mode e) (\<lambda>e.
        let r = uv__loop_alive e
        in if mode = UV_RUN_ONCE \<or> mode = UV_RUN_NOWAIT then Inr (r, e) else run_loop rounds fuel c pwait mode (r, e))
      else Inr (r, e))"

definition uv_run ::
    "nat \<Rightarrow> nat \<Rightarrow> ('a, 'cb) loop_calls \<Rightarrow> (int \<Rightarrow> ('a, 'cb) event_loop \<Rightarrow> ((int + epoll_events) \<times> ('a, 'cb) event_loop) res) \<Rightarrow>
     uv_run_mode \<Rightarrow> ('a, 'cb) event_loop \<Rightarrow> (bool \<times> ('a, 'cb) event_loop) res" where
  "uv_run rounds fuel c pwait mode e =
     (let r = uv__loop_alive e in
      bindE (if \<not> r then uv__update_time e else Inr e) (\<lambda>e.
      bindE (if mode = UV_RUN_DEFAULT then bindE (if r then uv__update_time e else Inr e) (run_timers fuel c) else Inr e) (\<lambda>e.
      bindE (run_loop rounds fuel c pwait mode (r, e)) (\<lambda>(r, e).
      Inr (r, e\<lparr>el_stop_flag := False\<rparr>)))))"

end
