(* ===== verification/Uv_Loop_Correct.thy ===== *)
theory Uv_Loop_Correct
  imports Uv_Loop Uv_Timer_Correct
begin

text \<open>
  How long the loop waits: with \<open>careful ok pwait\<close>, a kernel that fails when it is asked to wait in a way that is not
  \<open>ok\<close>, a run is the same as with \<open>pwait\<close> exactly when all its waits are \<open>ok\<close>.
\<close>

definition careful ::
    "(int \<Rightarrow> ('a, 'cb) event_loop \<Rightarrow> bool) \<Rightarrow> (int \<Rightarrow> ('a, 'cb) event_loop \<Rightarrow> ((int + epoll_events) \<times> ('a, 'cb) event_loop) res) \<Rightarrow>
     int \<Rightarrow> ('a, 'cb) event_loop \<Rightarrow> ((int + epoll_events) \<times> ('a, 'cb) event_loop) res" where
  "careful ok pwait t e = (if ok t e then pwait t e else Inl Assertion_Failed)"

section \<open>Polls that do not block\<close>

lemma poll_at_once:
  "poll_loop (Suc rounds) fuel c pwait base batches 0 remain e =
     (if nt_nfds (el_net e) = 0 then Inr e
      else
        bindE (pwait 0 e) (\<lambda>(answer, e).
        bindE (uv__update_time (set_errno answer e)) (\<lambda>e.
        case answer of
          Inl err \<Rightarrow> if err \<noteq> EINTR then Inl Assertion_Failed else Inr e
        | Inr events \<Rightarrow>
            if events = [] then Inr e
            else
              bindE (hand_out_all fuel c (take 1024 events) e) (\<lambda>(nevents, e).
              if nevents \<noteq> 0 \<and> length events \<ge> 1024 \<and> batches > 1 then
                poll_loop rounds fuel c pwait base (batches - 1) 0 remain e
              else Inr e))))"
  by (auto simp: check_def Let_def intro!: bindE_cong split: sum.split)

lemma poll_loop_at_once:
  "(\<And>e. ok 0 e) \<Longrightarrow>
   poll_loop rounds fuel c (careful ok pwait) base batches 0 remain e = poll_loop rounds fuel c pwait base batches 0 remain e"
proof (induction rounds arbitrary: batches e)
  case (Suc rounds)
  show ?case unfolding poll_at_once by (auto simp: careful_def Suc intro!: bindE_cong split: sum.split)
qed simp

text \<open>Such a poll asks at most as often as full batches may be handed out.\<close>

lemma poll_loop_rounds:
  "0 < batches \<Longrightarrow> poll_loop (batches + k) fuel c pwait base batches 0 remain e = poll_loop batches fuel c pwait base batches 0 remain e"
proof (induction batches arbitrary: e)
  case (Suc batches)
  show ?case
  proof (cases "batches = 0")
    case True
    then show ?thesis by (cases k) (auto simp: poll_at_once simp del: poll_loop.simps intro!: bindE_cong split: sum.split)
  next
    case False
    then show ?thesis using Suc.IH by (auto simp: poll_at_once simp del: poll_loop.simps intro!: bindE_cong split: sum.split)
  qed
qed simp

lemma uv__io_poll_at_once:
  "uv__io_poll rounds fuel c (careful (\<lambda>t e. t = 0) pwait) 0 e = uv__io_poll rounds fuel c pwait 0 e"
  by (simp add: uv__io_poll_def poll_loop_at_once)

lemma uv__io_poll_rounds: "uv__io_poll (48 + k) fuel c pwait 0 e = uv__io_poll 48 fuel c pwait 0 e"
  by (simp add: uv__io_poll_def check_def poll_loop_rounds)

lemma loop_round_at_once:
  "mode = UV_RUN_NOWAIT \<Longrightarrow>
   loop_round rounds fuel c (careful (\<lambda>t e. t = 0) pwait) mode e = loop_round rounds fuel c pwait mode e"
  by (simp add: loop_round_def uv__io_poll_at_once Let_def)

lemma uv_run_at_once:
  "uv_run rounds fuel c (careful (\<lambda>t e. t = 0) pwait) UV_RUN_NOWAIT e = uv_run rounds fuel c pwait UV_RUN_NOWAIT e"
proof -
  have "run_loop k fuel c (careful (\<lambda>t e. t = 0) pwait) UV_RUN_NOWAIT st = run_loop k fuel c pwait UV_RUN_NOWAIT st" for k st
    by (cases k; cases st) (simp_all add: loop_round_at_once)
  then show ?thesis by (simp add: uv_run_def)
qed

section \<open>Polls that wait\<close>

text \<open>A wait ends when the next timer is due, or before; without a limit the loop waits only when no timer is active.\<close>

definition waits_for_timers :: "int \<Rightarrow> ('a, 'cb) event_loop \<Rightarrow> bool" where
  "waits_for_timers t e \<longleftrightarrow> t = 0 \<or> t = - 1 \<and> active (el_timers e) = {} \<or>
     0 < t \<and> (\<forall>p \<in> active (el_timers e).
       uint (el_time e) + t \<le> uint (tm_timeout (container_of (lp_timers (el_timers e)) p)))"

text \<open>The kernel leaves the timers and the clock alone; the clock does not go back, and not 24 days ahead in a poll.\<close>

definition kernel_call :: "(int \<Rightarrow> ('a, 'cb) event_loop \<Rightarrow> ((int + epoll_events) \<times> ('a, 'cb) event_loop) res) \<Rightarrow> bool" where
  "kernel_call pwait \<longleftrightarrow>
     (\<forall>t e a e'. pwait t e = Inr (a, e') \<longrightarrow> el_timers e' = el_timers e \<and> el_clock e' = el_clock e)"

definition steady_clock :: "u64 \<Rightarrow> ('a, 'cb) event_loop \<Rightarrow> bool" where
  "steady_clock base e \<longleftrightarrow> sorted (map uint (el_time e # map (\<lambda>t. t div 1000000) (el_clock e))) \<and>
     (\<forall>t \<in> set (el_clock e). uint (t div 1000000) < uint base + 2 ^ 31)"

definition poll_ok :: "u64 \<Rightarrow> int \<Rightarrow> int \<Rightarrow> ('a, 'cb) event_loop \<Rightarrow> bool" where
  "poll_ok base timeout remain e \<longleftrightarrow> steady_clock base e \<and> base \<le> el_time e \<and> waits_for_timers timeout e \<and>
     (timeout > 0 \<longrightarrow> timeout = remain \<and> remain < 2 ^ 31)"

lemma hand_out_counts:
  "hand_out fuel calls i k nevents (s, n) = Inr (m, s', n') \<Longrightarrow> nevents \<le> m \<and> (m = nevents \<longrightarrow> s' = s)"
proof (induction k arbitrary: i nevents s n)
  case (Suc k)
  then obtain events fd ev where "nt_batch n = Some events" "arr_get events i = Inr (fd, ev)"
    by (auto simp: bindE_eq_Inr_iff or_fail_eq_Inr_iff)
  with Suc.prems obtain j s1 n1 where "hand_out fuel calls (i + 1) k j (s1, n1) = Inr (m, s', n')"
      "j = nevents \<and> s1 = s \<or> j = nevents + 1"
    by (fastforce simp: bindE_eq_Inr_iff Let_def split: if_splits option.splits)
  then show ?case using Suc.IH by fastforce
qed simp

lemma hand_out_all_none:
  "hand_out_all fuel c events e = Inr (0, e') \<Longrightarrow> el_timers e' = el_timers e \<and> el_clock e' = el_clock e"
  by (auto simp: hand_out_all_def res_simps put_net_def dest!: hand_out_counts)

lemma ucast_of_int: "ucast (of_int k :: u64) = (of_int k :: u32)"
  by (simp add: unsigned_of_int word_of_int_eq_iff take_bit_take_bit)

lemma sint_of_int: "- (2 ^ 31) \<le> k \<Longrightarrow> k < 2 ^ 31 \<Longrightarrow> sint (of_int k :: u32) = k"
  by (simp add: sint_sbintrunc' signed_take_bit_int_eq_self_iff)

lemma less_elapsed:
  assumes "0 < remain" "remain < 2 ^ 31" "base \<le> el_time e" "uint (el_time e) < uint base + 2 ^ 31"
  shows "less_elapsed base remain e = remain - (uint (el_time e) - uint base)"
proof -
  let ?x = "remain - (uint (el_time e) - uint base)"
  have "of_int remain - (el_time e - base) = (of_int ?x :: u64)" by (simp add: word_of_int_uint)
  moreover have "ucast (of_int ?x :: u64) = (of_int ?x :: u32)" by (rule ucast_of_int)
  moreover have "sint (of_int ?x :: u32) = ?x"
    by (rule sint_of_int) (use assms in \<open>simp_all add: word_le_def\<close>)
  ultimately show ?thesis unfolding less_elapsed_def by (simp only:)
qed

text \<open>The time after a wait, and what is left of the timeout.\<close>

lemma after_wait:
  assumes "uv__update_time e = Inr e'" "steady_clock base e" "base \<le> el_time e"
  shows "steady_clock base e' \<and> base \<le> el_time e' \<and> uint (el_time e') < uint base + 2 ^ 31 \<and>
     active (el_timers e') = active (el_timers e) \<and> lp_timers (el_timers e') = lp_timers (el_timers e)"
proof -
  obtain t ts where "el_clock e = t # ts" "e' = e\<lparr>el_timers := (el_timers e)\<lparr>lp_time := t div 1000000\<rparr>, el_clock := ts\<rparr>"
    using assms(1) by (auto simp: uv__update_time_def split: list.splits)
  then show ?thesis using assms(2,3) by (auto simp: steady_clock_def el_time_def active_def word_le_def)
qed

lemma again_ok:
  assumes ok: "poll_ok base timeout remain e" and time: "uv__update_time e = Inr e'"
    and pos: "timeout > 0" "less_elapsed base remain e' > 0"
  shows "poll_ok base (less_elapsed base remain e') (less_elapsed base remain e') e'"
proof -
  have e: "steady_clock base e" "base \<le> el_time e" "remain < 2 ^ 31" "timeout = remain" "0 < remain"
    using ok pos(1) by (simp_all add: poll_ok_def)
  note e' = after_wait [OF time e(1,2)]
  have x: "less_elapsed base remain e' = remain - (uint (el_time e') - uint base)"
    by (rule less_elapsed) (use e e' in auto)
  have "uint base \<le> uint (el_time e)" "uint base \<le> uint (el_time e')" using e(2) e' by (simp_all add: word_le_def)
  moreover have "\<forall>p \<in> active (el_timers e). uint (el_time e) + remain \<le> uint (tm_timeout (container_of (lp_timers (el_timers e)) p))"
    using ok pos(1) e(4) by (auto simp: poll_ok_def waits_for_timers_def)
  ultimately show ?thesis using e' e(3) pos(2) unfolding poll_ok_def waits_for_timers_def x by force
qed

text \<open>Only the timers and the clock matter.\<close>

definition same_time :: "('a, 'cb) event_loop \<Rightarrow> ('a, 'cb) event_loop \<Rightarrow> bool" where
  "same_time e e' \<longleftrightarrow> el_timers e' = el_timers e \<and> el_clock e' = el_clock e"

lemma poll_ok_cong: "same_time e e' \<Longrightarrow> poll_ok base timeout remain e' = poll_ok base timeout remain e"
  by (simp only: same_time_def poll_ok_def steady_clock_def waits_for_timers_def el_time_def)

lemma less_elapsed_cong: "same_time e e' \<Longrightarrow> less_elapsed base remain e' = less_elapsed base remain e"
  by (simp only: same_time_def less_elapsed_def el_time_def)

lemma kernel_ok:
  assumes "kernel_call pwait" "pwait timeout e = Inr (a, e')" "poll_ok base timeout remain e"
  shows "poll_ok base timeout remain (set_errno a e')"
proof -
  have "same_time e (set_errno a e')"
    using assms(1,2) by (cases a) (simp_all add: kernel_call_def same_time_def set_errno_def)
  from poll_ok_cong [OF this] assms(3) show ?thesis by simp
qed

lemma without_limit_ok:
  assumes "poll_ok base (- 1) remain e" "uv__update_time e = Inr e'"
  shows "poll_ok base (- 1) remain e'"
  using assms(1) after_wait [OF assms(2)] by (auto simp: poll_ok_def waits_for_timers_def)

lemma poll_loop_waits:
  assumes "kernel_call pwait"
  shows "poll_ok base timeout remain e \<Longrightarrow>
     poll_loop rounds fuel c (careful waits_for_timers pwait) base batches timeout remain e =
     poll_loop rounds fuel c pwait base batches timeout remain e"
proof (induction rounds arbitrary: timeout remain e)
  case (Suc rounds)
  let ?loop = "\<lambda>pwait. poll_loop rounds fuel c pwait base"
  have now: "careful waits_for_timers pwait timeout e = pwait timeout e"
    using Suc.prems by (simp add: careful_def poll_ok_def)
  have at_once: "?loop (careful waits_for_timers pwait) b 0 r e = ?loop pwait b 0 r e" for b r e
    by (rule poll_loop_at_once) (simp add: waits_for_timers_def)
  have again: "?loop (careful waits_for_timers pwait) batches x x e' = ?loop pwait batches x x e'"
    if "pwait timeout e = Inr (a, e1)" "uv__update_time (set_errno a e1) = Inr e2" "timeout > 0" "same_time e2 e'"
      "x = less_elapsed base remain e'" "\<not> x \<le> 0" for a e1 e2 e' x
  proof (rule Suc.IH)
    have "x = less_elapsed base remain e2" using that(5) less_elapsed_cong [OF that(4)] by simp
    then show "poll_ok base x x e'"
      using again_ok [OF kernel_ok [OF assms that(1) Suc.prems] that(2,3)] that(6) poll_ok_cong [OF that(4)] by simp
  qed
  have unlimited: "?loop (careful waits_for_timers pwait) batches (- 1) remain e' = ?loop pwait batches (- 1) remain e'"
    if "pwait timeout e = Inr (a, e1)" "uv__update_time (set_errno a e1) = Inr e2" "timeout = - 1" "same_time e2 e'"
    for a e1 e2 e'
    using Suc.IH without_limit_ok [OF _ that(2)] kernel_ok [OF assms that(1) Suc.prems] that(3) poll_ok_cong [OF that(4)] by blast
  have same: "same_time e e" "hand_out_all fuel c ev e = Inr (0, e') \<Longrightarrow> same_time e e'" for ev e e'
    by (simp_all add: same_time_def hand_out_all_none)
  have nonneg: "timeout = - 1 \<or> timeout = 0 \<or> timeout > 0"
    using Suc.prems by (auto simp: poll_ok_def waits_for_timers_def)
  show ?case unfolding poll_loop.simps now Let_def
    by (intro if_cong refl bindE_cong prod.case_cong sum.case_cong)
      (use nonneg in \<open>auto simp: check_def intro!: at_once again unlimited bindE_cong intro: same\<close>)
qed simp

text \<open>The timeout with which \<open>uv_run\<close> polls.\<close>

lemma backend_timeout_waits:
  assumes ok: "timers_ok (el_timers e)" and t: "uv__backend_timeout e = Inr timeout"
  shows "waits_for_timers timeout e \<and> timeout < 2 ^ 31 \<and> timeout \<ge> - 1"
proof (cases "timeout = 0")
  case False
  then have n: "uv__next_timeout (el_timers e) = Inr timeout" using t by (auto simp: uv__backend_timeout_def split: if_splits)
  note wait = uv__next_timeout_correct [OF ok, unfolded n]
  show ?thesis
  proof (cases "active (el_timers e) = {}")
    case True
    with wait show ?thesis by (simp add: waits_for_timers_def)
  next
    case act: False
    then have range: "0 \<le> timeout" "timeout < 2 ^ 31" using wait by auto
    have "uint (el_time e) + timeout \<le> uint (tm_timeout (container_of (lp_timers (el_timers e)) p))"
      if p: "p \<in> active (el_timers e)" for p
    proof -
      obtain tm where tm: "lp_timers (el_timers e) p = Some tm" using p by (auto simp: active_def)
      obtain d where d: "uv_timer_get_due_in p (el_timers e) = Inr d" "timeout \<le> uint d" using wait p by auto
      then have "el_time e < tm_timeout tm" "d = tm_timeout tm - el_time e"
        using tm range(1) False by (auto simp: uv_timer_get_due_in_def timer_at_def el_time_def split: if_splits)
      then show ?thesis using d(2) tm
        by (simp add: container_of_Some uint_sub_lem [THEN iffD1] word_less_def)
    qed
    with range False show ?thesis by (simp add: waits_for_timers_def)
  qed
qed (simp add: waits_for_timers_def)

lemma uv__io_poll_waits:
  assumes "timers_ok (el_timers e)" "uv__backend_timeout e = Inr timeout" "kernel_call pwait" "steady_clock (el_time e) e"
  shows "uv__io_poll rounds fuel c (careful waits_for_timers pwait) timeout e = uv__io_poll rounds fuel c pwait timeout e"
proof -
  have ok: "poll_ok (el_time e) timeout timeout e"
    using backend_timeout_waits [OF assms(1,2)] assms(4) by (simp add: poll_ok_def)
  have "poll_loop rounds fuel c (careful waits_for_timers pwait) (el_time e') 48 timeout timeout e' =
      poll_loop rounds fuel c pwait (el_time e') 48 timeout timeout e'"
    if "on_net (\<lambda>(e, n). bindE (register_watchers (nt_watcher_queue n) n) (\<lambda>n. Inr (e, n))) e = Inr e'" for e'
  proof (rule poll_loop_waits [OF assms(3)])
    have s: "same_time e e'" using that by (auto simp: on_net_def res_simps put_net_def same_time_def)
    then have "el_time e' = el_time e" by (simp add: same_time_def el_time_def)
    then show "poll_ok (el_time e') timeout timeout e'" using ok poll_ok_cong [OF s] by simp
  qed
  then show ?thesis unfolding uv__io_poll_def by (intro bindE_cong refl) auto
qed

end
