(* ===== verification/Uv_Loop_Rule.thy ===== *)
theory Uv_Loop_Rule
  imports Uv_Loop
begin

text \<open>
  What the callbacks keep, the loop keeps: an invariant of the program's state and the stop flag that every callback
  keeps holds after \<open>uv_run\<close> and each of its parts.
\<close>

section \<open>Sockets\<close>

definition calls_keep :: "('s \<Rightarrow> bool) \<Rightarrow> ('s, 'cb) udp_calls \<Rightarrow> bool" where
  "calls_keep J calls \<longleftrightarrow> (\<forall>s n s' n'. J s \<longrightarrow>
     (\<forall>cb k b. call_alloc calls cb k (s, n) = Inr (b, s', n') \<longrightarrow> J s') \<and>
     (\<forall>cb p r b a f. call_recv calls cb p r b a f (s, n) = Inr (s', n') \<longrightarrow> J s') \<and>
     (\<forall>cb q r. call_send calls cb q r (s, n) = Inr (s', n') \<longrightarrow> J s') \<and>
     (\<forall>cb p. call_close calls cb p (s, n) = Inr (s', n') \<longrightarrow> J s'))"

lemma calls_keepD:
  assumes "calls_keep J calls"
  shows "call_alloc calls cb k (s, n) = Inr (b, s', n') \<Longrightarrow> J s \<Longrightarrow> J s'"
    "call_recv calls cb p r bl a f (s, n) = Inr (s', n') \<Longrightarrow> J s \<Longrightarrow> J s'"
    "call_send calls cb q r (s, n) = Inr (s', n') \<Longrightarrow> J s \<Longrightarrow> J s'"
    "call_close calls cb p (s, n) = Inr (s', n') \<Longrightarrow> J s \<Longrightarrow> J s'"
  using assms unfolding calls_keep_def by blast+

lemma completed_loop_keeps:
  assumes calls: "calls_keep J calls"
  shows "completed_loop fuel calls p (s, n) = Inr (s', n') \<Longrightarrow> J s \<Longrightarrow> J s'"
proof (induction fuel arbitrary: s n)
  case (Suc fuel)
  then obtain u where u: "udp_at n p = Inr u" by (auto simp: bindE_eq_Inr_iff)
  show ?case
  proof (cases "ud_completed_queue u")
    case (Cons q qs)
    with Suc.prems(1) u obtain req where req: "req_at n q = Inr req" by (auto simp: bindE_eq_Inr_iff)
    show ?thesis
    proof (cases "rq_cb req")
      case None
      then show ?thesis using Suc.prems u Cons req Suc.IH by (auto simp: bindE_eq_Inr_iff Let_def)
    next
      case (Some cb)
      then show ?thesis using Suc.prems u Cons req Suc.IH calls_keepD(3) [OF calls]
        by (fastforce simp: bindE_eq_Inr_iff Let_def)
    qed
  qed (use Suc.prems u in auto)
qed simp

lemma run_completed_keeps:
  assumes "calls_keep J calls" "uv__udp_run_completed fuel calls p (s, n) = Inr (s', n')" "J s"
  shows "J s'"
  using assms(2,3) completed_loop_keeps [OF assms(1)] by (auto simp: uv__udp_run_completed_def res_simps)

lemma chunk_loop_keeps:
  assumes calls: "calls_keep J calls"
  shows "chunk_loop k msgs base calls p (s, n) = Inr (s', n') \<Longrightarrow> J s \<Longrightarrow> J s'"
proof (induction msgs arbitrary: k s n)
  case (Cons m msgs)
  obtain len peer trunc where m: "m = (len, peer, trunc)" by (cases m)
  show ?case
  proof (cases "\<exists>u. udp_at n p = Inr u \<and> ud_recv_cb u = None")
    case True
    then show ?thesis using Cons.prems m by (auto simp: bindE_eq_Inr_iff)
  next
    case False
    then obtain cb b f s1 n1 where r: "call_recv calls cb p (int len) b (Some peer) f (s, n) = Inr (s1, n1)"
        "chunk_loop (k + 1) msgs base calls p (s1, n1) = Inr (s', n')"
      using Cons.prems(1) m by (auto simp: bindE_eq_Inr_iff Let_def split: option.splits)
    show ?thesis by (rule Cons.IH [OF r(2) calls_keepD(2) [OF calls r(1) Cons.prems(2)]])
  qed
qed simp

lemma recvmmsg_keeps:
  assumes "calls_keep J calls" "uv__udp_recvmmsg calls p base len (s, n) = Inr (r, s', n')" "J s"
  shows "J s'"
  using assms(2,3)
  by (auto simp: uv__udp_recvmmsg_def res_simps split: if_splits option.splits
      dest: calls_keepD(2) [OF assms(1)] chunk_loop_keeps [OF assms(1)])

lemma receive_one_keeps:
  assumes "calls_keep J calls" "receive_one calls p base len (s, n) = Inr (r, s', n')" "J s"
  shows "J s'"
  using assms(2,3) by (auto simp: receive_one_def res_simps split: if_splits dest: calls_keepD(2) [OF assms(1)])

lemma recvmsg_loop_keeps:
  assumes calls: "calls_keep J calls"
  shows "recvmsg_loop fuel k calls p (s, n) = Inr (s', n') \<Longrightarrow> J s \<Longrightarrow> J s'"
proof (induction fuel arbitrary: k s n)
  case (Suc fuel)
  obtain u a b len s1 n1 u1 where a: "udp_at n p = Inr u" "call_alloc calls a UV__UDP_DGRAM_MAXSIZE (s, n) = Inr ((b, len), s1, n1)"
      "ud_alloc_cb u = Some a" "udp_at n1 p = Inr u1"
    using Suc.prems(1) by (fastforce simp: bindE_eq_Inr_iff or_fail_eq_Inr_iff)
  have j: "J s1" using calls_keepD(1) [OF calls a(2) Suc.prems(2)] .
  show ?case
  proof (cases "b = None \<or> len = 0")
    case True
    then show ?thesis using Suc.prems(1) a j calls_keepD(2) [OF calls] by (auto simp: res_simps)
  next
    case False
    let ?read = "if uv_udp_using_recvmmsg u1 then
        bindE (uv__udp_recvmmsg calls p (the b) len (s1, n1)) (\<lambda>(nread, st). Inr (nread, if nread > 0 then k - nread else k, st))
      else bindE (receive_one calls p (the b) len (s1, n1)) (\<lambda>(nread, st). Inr (nread, k - 1, st))"
    obtain nread k' s2 n2 where r: "?read = Inr (nread, k', s2, n2)"
        "recvmsg_loop fuel k' calls p (s2, n2) = Inr (s', n') \<or> s' = s2"
      using Suc.prems(1) a False by (fastforce simp: bindE_eq_Inr_iff split: if_splits)
    then have "J s2" using j recvmmsg_keeps [OF calls] receive_one_keeps [OF calls]
      by (auto simp: bindE_eq_Inr_iff split: if_splits)
    with r show ?thesis using Suc.IH by blast
  qed
qed simp

lemma recvmsg_keeps:
  assumes "calls_keep J calls" "uv__udp_recvmsg fuel calls p (s, n) = Inr (s', n')" "J s"
  shows "J s'"
  using assms(2,3) by (auto simp: uv__udp_recvmsg_def res_simps dest: recvmsg_loop_keeps [OF assms(1)])

lemma udp_io_keeps:
  assumes "calls_keep J calls" "uv__udp_io fuel calls p ev (s, n) = Inr (s', n')" "J s"
  shows "J s'"
  using assms(2,3)
  by (auto simp: uv__udp_io_def res_simps split: if_splits dest: recvmsg_keeps [OF assms(1)] run_completed_keeps [OF assms(1)])

lemma pending_loop_keeps:
  assumes calls: "calls_keep J calls"
  shows "pending_loop fuel calls (s, n) = Inr (s', n') \<Longrightarrow> J s \<Longrightarrow> J s'"
proof (induction fuel arbitrary: s n)
  case (Suc fuel)
  then show ?case by (auto simp: res_simps split: list.splits dest: udp_io_keeps [OF calls])
qed simp

lemma finish_close_keeps:
  assumes "calls_keep J calls" "uv__finish_close fuel calls p (s, n) = Inr (s', n')" "J s"
  shows "J s'"
  using assms(2,3)
  by (auto simp: uv__finish_close_def uv__udp_finish_close_def res_simps Let_def split: option.splits
      dest: run_completed_keeps [OF assms(1)] calls_keepD(4) [OF assms(1)])

lemma finish_close_loop_keeps:
  assumes calls: "calls_keep J calls"
  shows "finish_close_loop ps fuel calls (s, n) = Inr (s', n') \<Longrightarrow> J s \<Longrightarrow> J s'"
proof (induction ps arbitrary: s n)
  case (Cons p ps)
  then show ?case by (auto simp: res_simps dest: finish_close_keeps [OF calls])
qed simp

lemma hand_out_keeps:
  assumes calls: "calls_keep J calls"
  shows "hand_out fuel calls i k nevents (s, n) = Inr (m, s', n') \<Longrightarrow> J s \<Longrightarrow> J s'"
proof (induction k arbitrary: i nevents s n)
  case (Suc k)
  then obtain events fd ev where "nt_batch n = Some events" "arr_get events i = Inr (fd, ev)"
    by (auto simp: bindE_eq_Inr_iff or_fail_eq_Inr_iff)
  with Suc.prems obtain j s1 n1 where "hand_out fuel calls (i + 1) k j (s1, n1) = Inr (m, s', n')" "J s1"
    using udp_io_keeps [OF calls]
    by (fastforce simp: bindE_eq_Inr_iff Let_def split: if_splits option.splits)
  then show ?case using Suc.IH by blast
qed simp

section \<open>The parts of the loop\<close>

text \<open>An invariant of the program's state and the stop flag.\<close>

definition holds_in :: "('a \<Rightarrow> bool \<Rightarrow> bool) \<Rightarrow> ('a, 'cb) event_loop \<Rightarrow> bool" where
  "holds_in I e = I (el_prog e) (el_stop_flag e)"

definition loop_calls_keep :: "('a \<Rightarrow> bool \<Rightarrow> bool) \<Rightarrow> ('a, 'cb) loop_calls \<Rightarrow> bool" where
  "loop_calls_keep I c \<longleftrightarrow> (\<forall>e e'. holds_in I e \<longrightarrow>
     (\<forall>cb k b. on_alloc c cb k e = Inr (b, e') \<longrightarrow> holds_in I e') \<and>
     (\<forall>cb p r b a f. on_recv c cb p r b a f e = Inr e' \<longrightarrow> holds_in I e') \<and>
     (\<forall>cb q r. on_send c cb q r e = Inr e' \<longrightarrow> holds_in I e') \<and>
     (\<forall>cb p. on_close c cb p e = Inr e' \<longrightarrow> holds_in I e') \<and>
     (\<forall>cb p. on_timer c cb p e = Inr e' \<longrightarrow> holds_in I e') \<and>
     (\<forall>k cb p. on_watch c k cb p e = Inr e' \<longrightarrow> holds_in I e'))"

lemma loop_calls_keepD:
  assumes "loop_calls_keep I c"
  shows "on_alloc c cb m e = Inr (b, e') \<Longrightarrow> holds_in I e \<Longrightarrow> holds_in I e'"
    "on_recv c cb p r bl a f e = Inr e' \<Longrightarrow> holds_in I e \<Longrightarrow> holds_in I e'"
    "on_send c cb q r e = Inr e' \<Longrightarrow> holds_in I e \<Longrightarrow> holds_in I e'"
    "on_close c cb p e = Inr e' \<Longrightarrow> holds_in I e \<Longrightarrow> holds_in I e'"
    "on_timer c cb p e = Inr e' \<Longrightarrow> holds_in I e \<Longrightarrow> holds_in I e'"
    "on_watch c k cb p e = Inr e' \<Longrightarrow> holds_in I e \<Longrightarrow> holds_in I e'"
  using assms unfolding loop_calls_keep_def by metis+

lemma holds_in_put [simp]:
  "holds_in I (put_net n e) = holds_in I e" "holds_in I (put_timers l e) = holds_in I e"
  "holds_in I (put_watch k w e) = holds_in I e"
  by (simp_all add: holds_in_def put_net_def put_timers_def put_watch_def)

lemma in_net_keeps:
  "(\<And>e e'. call e = Inr e' \<Longrightarrow> holds_in I e \<Longrightarrow> holds_in I e') \<Longrightarrow> in_net call (e, n) = Inr (e', n') \<Longrightarrow>
   holds_in I e \<Longrightarrow> holds_in I e'"
  by (fastforce simp: in_net_def bindE_eq_Inr_iff)

lemma net_calls_keep:
  assumes c: "loop_calls_keep I c"
  shows "calls_keep (holds_in I) (net_calls c)"
  unfolding calls_keep_def net_calls_def udp_calls.simps
proof (intro allI impI conjI)
  fix s s' :: "('a, 'b) event_loop" and n n' :: "'b net" and cb k b
  assume "holds_in I s" "(case (s, n) of (e, n) \<Rightarrow>
      bindE (on_alloc c cb k (put_net n e)) (\<lambda>(b, e). Inr (b, e, get_net e))) = Inr (b, s', n')"
  then show "holds_in I s'" using loop_calls_keepD(1) [OF c] by (fastforce simp: bindE_eq_Inr_iff)
qed (erule in_net_keeps [rotated 1], assumption, erule loop_calls_keepD(2-4) [OF c], assumption)+

text \<open>The kernel keeps the memory of the program.\<close>

definition kernel_keeps :: "('a \<Rightarrow> bool \<Rightarrow> bool) \<Rightarrow> (int \<Rightarrow> ('a, 'cb) event_loop \<Rightarrow> ((int + epoll_events) \<times> ('a, 'cb) event_loop) res) \<Rightarrow> bool" where
  "kernel_keeps I pwait \<longleftrightarrow> (\<forall>t e a e'. pwait t e = Inr (a, e') \<longrightarrow> holds_in I e \<longrightarrow> holds_in I e')"

lemma timer_calls_apply:
  "timer_calls c cb p (e, l) = bindE (on_timer c cb p (put_timers l e)) (\<lambda>e. Inr (e, get_timers e))"
  by (simp add: timer_calls_def)

lemma watch_calls_apply:
  "watch_calls k c cb p (e, w) = bindE (on_watch c k cb p (put_watch k w e)) (\<lambda>e. Inr (e, get_watch k e))"
  by (simp add: watch_calls_def)

lemma run_timers_keep:
  assumes "loop_calls_keep I c"
  shows "uv__run_timers fuel (timer_calls c) (e, l) = Inr (e', l') \<Longrightarrow> holds_in I e \<Longrightarrow> holds_in I e'"
proof (induction fuel arbitrary: e l)
  case (Suc fuel)
  show ?case
  proof (cases "heap_min (lp_timer_heap l)")
    case (Some p)
    then obtain t where t: "timer_at l p = Inr t" using Suc.prems(1) by (auto simp: bindE_eq_Inr_iff)
    show ?thesis
    proof (cases "tm_timeout t > lp_time l")
      case False
      then obtain cb l1 e2 where s: "on_timer c cb p (put_timers l1 e) = Inr e2"
          "uv__run_timers fuel (timer_calls c) (e2, get_timers e2) = Inr (e', l')"
        using Suc.prems(1) Some t by (auto simp: bindE_eq_Inr_iff timer_calls_apply)
      have "holds_in I e2" using loop_calls_keepD(5) [OF assms s(1)] Suc.prems(2) by simp
      then show ?thesis using Suc.IH s(2) by blast
    qed (use Suc.prems Some t in auto)
  qed (use Suc.prems in auto)
qed simp

lemma run_watchers_loop_keeps:
  assumes "loop_calls_keep I c"
  shows "run_watchers_loop fuel (watch_calls k c) (e, w) = Inr (e', w') \<Longrightarrow> holds_in I e \<Longrightarrow> holds_in I e'"
proof (induction fuel arbitrary: e w)
  case (Suc fuel)
  show ?case
  proof (cases "wt_running w")
    case (Cons p ps)
    then obtain cb w1 e2 where s: "on_watch c k cb p (put_watch k w1 e) = Inr e2"
        "run_watchers_loop fuel (watch_calls k c) (e2, get_watch k e2) = Inr (e', w')"
      using Suc.prems(1) by (auto simp: bindE_eq_Inr_iff watch_calls_apply Let_def)
    have "holds_in I e2" using loop_calls_keepD(6) [OF assms s(1)] Suc.prems(2) by simp
    then show ?thesis using Suc.IH s(2) by blast
  qed (use Suc.prems in auto)
qed simp

lemma run_parts_keep:
  assumes c: "loop_calls_keep I c" and I: "holds_in I e"
  shows "run_timers fuel c e = Inr e' \<Longrightarrow> holds_in I e'" "run_watchers k fuel c e = Inr e' \<Longrightarrow> holds_in I e'"
    "on_net (uv__run_pending fuel (net_calls c)) e = Inr e' \<Longrightarrow> holds_in I e'"
    "on_net (uv__run_closing_handles fuel (net_calls c)) e = Inr e' \<Longrightarrow> holds_in I e'"
    "hand_out_all fuel c events e = Inr (m, e') \<Longrightarrow> holds_in I e'"
    "uv__update_time e = Inr e' \<Longrightarrow> holds_in I e'"
  using I run_timers_keep [OF c] run_watchers_loop_keeps [OF c] pending_loop_keeps [OF net_calls_keep [OF c]]
    finish_close_loop_keeps [OF net_calls_keep [OF c]] hand_out_keeps [OF net_calls_keep [OF c]]
  by (fastforce simp: run_timers_def run_watchers_def uv__run_watchers_def on_net_def uv__run_pending_def
      uv__run_closing_handles_def hand_out_all_def uv__update_time_def holds_in_def [of I "_\<lparr>el_timers := _, el_clock := _\<rparr>"]
      holds_in_def [of I e] bindE_eq_Inr_iff split: list.splits)+

lemma holds_in_set_errno [simp]: "holds_in I (set_errno a e) = holds_in I e"
  by (cases a) (simp_all add: set_errno_def holds_in_def)

lemma poll_loop_keeps:
  assumes c: "loop_calls_keep I c" and k: "kernel_keeps I pwait"
  shows "poll_loop rounds fuel c pwait base batches timeout remain e = Inr e' \<Longrightarrow> holds_in I e \<Longrightarrow> holds_in I e'"
proof (induction rounds arbitrary: batches timeout remain e)
  case (Suc rounds)
  show ?case
  proof (cases "nt_nfds (el_net e) = 0")
    case False
    then obtain a e1 e2 where w: "pwait timeout e = Inr (a, e1)" "uv__update_time (set_errno a e1) = Inr e2"
      using Suc.prems(1) by (auto simp: bindE_eq_Inr_iff)
    have "holds_in I e1" using k w(1) Suc.prems(2) by (simp add: kernel_keeps_def)
    then have e2: "holds_in I e2" using run_parts_keep(6) [OF c _ w(2)] by simp
    note run = Suc.prems(1) [unfolded poll_loop.simps, simplified False w bindE.simps prod.case if_False Let_def]
    show ?thesis
    proof (cases a)
      case (Inl err)
      then show ?thesis using run e2 Suc.IH by (auto simp: bindE_eq_Inr_iff split: if_splits)
    next
      case (Inr events)
      show ?thesis
      proof (cases "events = []")
        case True
        then show ?thesis using run Inr e2 Suc.IH by (auto simp: bindE_eq_Inr_iff split: if_splits)
      next
        case ev: False
        then obtain m e3 where h: "hand_out_all fuel c (take 1024 events) e2 = Inr (m, e3)"
          using run Inr by (auto simp: bindE_eq_Inr_iff)
        show ?thesis using run Inr ev h run_parts_keep(5) [OF c e2 h] Suc.IH
          by (auto simp: bindE_eq_Inr_iff split: if_splits)
      qed
    qed
  qed (use Suc.prems in auto)
qed simp

lemma uv__io_poll_keeps:
  assumes "loop_calls_keep I c" "kernel_keeps I pwait" "uv__io_poll rounds fuel c pwait timeout e = Inr e'" "holds_in I e"
  shows "holds_in I e'"
  using assms(3,4) poll_loop_keeps [OF assms(1,2)] by (fastforce simp: uv__io_poll_def on_net_def bindE_eq_Inr_iff)

lemma pending_rounds_keep:
  assumes c: "loop_calls_keep I c"
  shows "pending_rounds k fuel c e = Inr e' \<Longrightarrow> holds_in I e \<Longrightarrow> holds_in I e'"
proof (induction k arbitrary: e)
  case (Suc k)
  then show ?case using run_parts_keep(3) [OF c] by (auto simp: bindE_eq_Inr_iff split: if_splits)
qed simp

lemma loop_round_keeps:
  assumes c: "loop_calls_keep I c" and k: "kernel_keeps I pwait"
    and r: "loop_round rounds fuel c pwait mode e = Inr e'" and I: "holds_in I e"
  shows "holds_in I e'"
proof -
  obtain e1 e2 e3 t e4 e5 e6 e7 e8 where s: "on_net (uv__run_pending fuel (net_calls c)) e = Inr e1"
      "run_watchers Idle fuel c e1 = Inr e2" "run_watchers Prepare fuel c e2 = Inr e3"
      "uv__io_poll rounds fuel c pwait t e3 = Inr e4" "pending_rounds 8 fuel c e4 = Inr e5"
      "run_watchers Check fuel c e5 = Inr e6" "on_net (uv__run_closing_handles fuel (net_calls c)) e6 = Inr e7"
      "uv__update_time e7 = Inr e8" "run_timers fuel c e8 = Inr e'"
    using r unfolding loop_round_def Let_def bindE_eq_Inr_iff by blast
  note part = run_parts_keep [OF c]
  have "holds_in I e3" using part(2) [OF part(2) [OF part(3) [OF I s(1)] s(2)] s(3)] .
  then have "holds_in I e5" using pending_rounds_keep [OF c s(5)] uv__io_poll_keeps [OF c k s(4)] by blast
  then have "holds_in I e8" using part(6) [OF part(4) [OF part(2) [OF _ s(6)] s(7)] s(8)] by blast
  then show ?thesis by (rule part(1) [OF _ s(9)])
qed

lemma run_loop_keeps:
  assumes c: "loop_calls_keep I c" and k: "kernel_keeps I pwait"
  shows "run_loop rounds fuel c pwait mode (r, e) = Inr (r', e') \<Longrightarrow> holds_in I e \<Longrightarrow> holds_in I e'"
proof (induction rounds arbitrary: r e)
  case (Suc rounds)
  then show ?case using loop_round_keeps [OF c k] by (auto simp: bindE_eq_Inr_iff Let_def split: if_splits)
qed simp

section \<open>A run\<close>

lemma first_timers_keep:
  assumes c: "loop_calls_keep I c" and I: "holds_in I e"
    and r: "(if first then bindE (if r then uv__update_time e else Inr e) (run_timers fuel c) else Inr e) = Inr e'"
  shows "holds_in I e'"
proof (cases first)
  case True
  obtain e1 where e1: "(if r then uv__update_time e else Inr e) = Inr e1" "run_timers fuel c e1 = Inr e'"
    using r True by (auto simp: bindE_eq_Inr_iff simp del: if_split)
  have "holds_in I e1" using e1(1) I run_parts_keep(6) [OF c I] by (cases r) simp_all
  then show ?thesis by (rule run_parts_keep(1) [OF c _ e1(2)])
qed (use assms in simp)

text \<open>The loop ends when it is stopped or nothing is alive.\<close>

lemma run_loop_alive:
  "run_loop rounds fuel c pwait mode (r, e) = Inr (r', e') \<Longrightarrow> r = uv__loop_alive e \<Longrightarrow> r' = uv__loop_alive e'"
proof (induction rounds arbitrary: r e)
  case (Suc rounds)
  then show ?case by (auto simp: bindE_eq_Inr_iff Let_def split: if_splits)
qed simp

lemma run_loop_default:
  "run_loop rounds fuel c pwait UV_RUN_DEFAULT (r, e) = Inr (r', e') \<Longrightarrow> r' \<Longrightarrow> el_stop_flag e'"
proof (induction rounds arbitrary: r e)
  case (Suc rounds)
  then show ?case by (auto simp: bindE_eq_Inr_iff Let_def split: if_splits)
qed simp

lemma run_loop_enters:
  assumes "run_loop rounds fuel c pwait UV_RUN_DEFAULT (True, e) = Inr (r, e')" "\<not> el_stop_flag e"
  shows "r = uv__loop_alive e'"
  using assms by (cases rounds) (auto simp: bindE_eq_Inr_iff Let_def dest: run_loop_alive)

text \<open>The flag that stops the loop is reset at the end; the invariant holds with the flag as it was before.\<close>

lemma uv_run_keeps:
  assumes c: "loop_calls_keep I c" and k: "kernel_keeps I pwait" and e: "I (el_prog e) (el_stop_flag e)"
    and run: "uv_run rounds fuel c pwait mode e = Inr (r, e')"
  shows "\<exists>stopped. I (el_prog e') stopped \<and> \<not> el_stop_flag e' \<and> (mode = UV_RUN_DEFAULT \<longrightarrow>
     (r \<longrightarrow> stopped) \<and> (uv__loop_alive e \<longrightarrow> (\<forall>p. \<not> I p True) \<longrightarrow> r = uv__loop_alive e'))"
proof -
  let ?r = "uv__loop_alive e"
  let ?init = "if \<not> ?r then uv__update_time e else Inr e"
  let ?timers = "\<lambda>e. if mode = UV_RUN_DEFAULT then bindE (if ?r then uv__update_time e else Inr e) (run_timers fuel c) else Inr e"
  let ?rest = "\<lambda>e. bindE (run_loop rounds fuel c pwait mode (?r, e)) (\<lambda>(r, e). Inr (r, e\<lparr>el_stop_flag := False\<rparr>))"
  obtain e1 e2 where s: "?init = Inr e1" "?timers e1 = Inr e2" "?rest e2 = Inr (r, e')"
    using run unfolding uv_run_def Let_def bindE_eq_Inr_iff [of ?init] bindE_eq_Inr_iff [of "?timers x" for x] by blast
  then obtain e3 where l: "run_loop rounds fuel c pwait mode (?r, e2) = Inr (r, e3)" "e' = e3\<lparr>el_stop_flag := False\<rparr>"
    by (auto simp: bindE_eq_Inr_iff)
  have "holds_in I e" using e by (simp add: holds_in_def)
  then have "holds_in I e1" using s(1) run_parts_keep(6) [OF c, of e e1] by (cases ?r) simp_all
  then have I2: "holds_in I e2" using first_timers_keep [OF c] s(2) by blast
  then have I: "holds_in I e3" by (rule run_loop_keeps [OF c k l(1)])
  have "r = uv__loop_alive e'" if "mode = UV_RUN_DEFAULT" ?r "\<forall>p. \<not> I p True"
  proof -
    have "\<not> el_stop_flag e2" using I2 that(3) unfolding holds_in_def by (metis (full_types))
    then have "r = uv__loop_alive e3" using run_loop_enters l(1) that(1,2) by simp
    then show ?thesis using l(2) by (simp add: uv__loop_alive_def)
  qed
  moreover have "mode = UV_RUN_DEFAULT \<Longrightarrow> r \<Longrightarrow> el_stop_flag e3" using run_loop_default l(1) by simp
  ultimately show ?thesis using I l(2) unfolding holds_in_def by (intro exI [of _ "el_stop_flag e3"]) auto
qed

text \<open>Callbacks that never stop the loop: it runs until nothing is alive.\<close>

definition unstopped :: "('a \<Rightarrow> bool) \<Rightarrow> 'a \<Rightarrow> bool \<Rightarrow> bool" where
  "unstopped I p stopped \<longleftrightarrow> I p \<and> \<not> stopped"

lemma uv_run_until_idle:
  assumes "loop_calls_keep (unstopped I) c" "kernel_keeps (unstopped I) pwait" "unstopped I (el_prog e) (el_stop_flag e)"
    and "uv__loop_alive e" "uv_run rounds fuel c pwait UV_RUN_DEFAULT e = Inr (r, e')"
  shows "I (el_prog e') \<and> \<not> r \<and> \<not> uv__loop_alive e'"
  using uv_run_keeps [OF assms(1,2,3,5)] assms(4) by (auto simp: unstopped_def)

end
