(* ===== verification/Uv_Interest.thy ===== *)
theory Uv_Interest
  imports Uv_Loop
begin

text \<open>
  What the kernel watches: the events for which the descriptor of a socket is registered, the table of watchers and
  the queue of the watchers that have changed, through every operation on watchers and every poll.
\<close>

unbundle bit_operations_syntax

section \<open>The registered events\<close>

definition epoll_apply :: "(int \<Rightarrow> u32 option) \<Rightarrow> epoll_op \<times> int \<times> u32 \<Rightarrow> int \<Rightarrow> u32 option" where
  "epoll_apply V = (\<lambda>(op, fd, events). V(fd := if op = Epoll_Del then None else Some events))"

definition epoll_view :: "(epoll_op \<times> int \<times> u32) list \<Rightarrow> int \<Rightarrow> u32 option" where
  "epoll_view log = foldl epoll_apply Map.empty log"

lemma epoll_view_snoc: "epoll_view (log @ [x]) = epoll_apply (epoll_view log) x"
  by (simp add: epoll_view_def)

section \<open>The invariant\<close>

definition slot :: "'cb net \<Rightarrow> nat \<Rightarrow> nat option" where
  "slot n fd = (if fd < length (nt_watchers n) then nt_watchers n ! fd else None)"

text \<open>Descriptor, wanted events, registered events.\<close>

definition io_of :: "'cb net \<Rightarrow> nat \<Rightarrow> (int \<times> u32 \<times> u32) option" where
  "io_of n p = map_option (\<lambda>u. (io_fd u, io_pevents u, io_events u)) (nt_udps n p)"

text \<open>
  A cell of the table holds the socket of its descriptor; a socket that wants events has a descriptor of its own, is in
  the table, waits in the queue when its events have changed, and is registered as the last poll left it.
\<close>

definition interest_ok ::
    "(nat \<Rightarrow> nat option) \<Rightarrow> (nat \<Rightarrow> (int \<times> u32 \<times> u32) option) \<Rightarrow> nat list \<Rightarrow> (int \<Rightarrow> u32 option) \<Rightarrow> bool" where
  "interest_ok S M Q V \<longleftrightarrow>
     (\<forall>fd p. S fd = Some p \<longrightarrow> (\<exists>pe ev. M p = Some (int fd, pe, ev) \<and> pe \<noteq> 0)) \<and>
     (\<forall>p fd pe ev. M p = Some (fd, pe, ev) \<longrightarrow> pe AND NOT poll_mask = 0 \<and>
        (if pe = 0 then ev = 0 \<and> p \<notin> set Q
         else fd \<ge> 0 \<and> S (nat fd) = Some p \<and> (ev \<noteq> pe \<longrightarrow> p \<in> set Q) \<and> (ev \<noteq> 0 \<longrightarrow> V fd = Some ev))) \<and>
     (\<forall>p q fd x y. M p = Some (fd, x) \<longrightarrow> M q = Some (fd, y) \<longrightarrow> fd \<ge> 0 \<longrightarrow> p = q) \<and>
     distinct Q \<and> (\<forall>p \<in> set Q. M p \<noteq> None)"

definition net_interest_ok :: "'cb net \<Rightarrow> bool" where
  "net_interest_ok n = interest_ok (slot n) (io_of n) (nt_watcher_queue n) (epoll_view (nt_epoll n))"

lemma interest_okD:
  assumes "interest_ok S M Q V"
  shows "S fd = Some p \<Longrightarrow> \<exists>pe ev. M p = Some (int fd, pe, ev) \<and> pe \<noteq> 0"
    "M p = Some (d, pe, ev) \<Longrightarrow> pe AND NOT poll_mask = 0"
    "M p = Some (d, 0, ev) \<Longrightarrow> ev = 0 \<and> p \<notin> set Q"
    "M p = Some (d, pe, ev) \<Longrightarrow> pe \<noteq> 0 \<Longrightarrow> d \<ge> 0 \<and> S (nat d) = Some p"
    "M p = Some (d, pe, ev) \<Longrightarrow> pe \<noteq> 0 \<Longrightarrow> ev \<noteq> pe \<Longrightarrow> p \<in> set Q"
    "M p = Some (d, pe, ev) \<Longrightarrow> ev \<noteq> 0 \<Longrightarrow> V d = Some ev"
    "M p = Some (d, x) \<Longrightarrow> M q = Some (d, y) \<Longrightarrow> d \<ge> 0 \<Longrightarrow> p = q"
    "distinct Q" "p \<in> set Q \<Longrightarrow> M p \<noteq> None"
  using assms unfolding interest_ok_def by (metis | simp)+

text \<open>Only the cell of its descriptor can hold a socket.\<close>

lemma slot_unique:
  assumes "interest_ok S M Q V" "M p = Some (d, x)" "S fd = Some p"
  shows "d = int fd"
  using interest_okD(1) [OF assms(1,3)] assms(2) by auto

lemma slot_of_descriptor:
  assumes "interest_ok S M Q V" "M p = Some (d, x)" "d \<ge> 0" "S (nat d) = Some q"
  shows "q = p"
proof -
  obtain y where "M q = Some (d, y)" using interest_okD(1) [OF assms(1,4)] assms(3) by auto
  then show ?thesis using interest_okD(7) [OF assms(1) _ assms(2)] assms(3) by blast
qed

lemma cell_cleared:
  assumes "S' = (if S i = Some p then S(i := None) else S)" "\<And>fd. S fd = Some p \<Longrightarrow> fd = i"
  shows "S' fd = Some q \<longleftrightarrow> S fd = Some q \<and> q \<noteq> p"
proof (cases "fd = i")
  case True
  then show ?thesis by (auto simp: assms(1))
next
  case False
  then have "S fd \<noteq> Some p" using assms(2) by blast
  then show ?thesis using False by (auto simp: assms(1))
qed

section \<open>Steps on the invariant\<close>

lemma interest_start:
  assumes ok: "interest_ok S M Q V" and M: "M p = Some (d, pe, ev)" and d: "d \<ge> 0"
    and P: "P \<noteq> 0" "P AND NOT poll_mask = 0" "ev \<noteq> 0 \<longrightarrow> pe \<noteq> 0"
    and Q': "Q' = enqueue p Q \<or> Q' = Q \<and> ev = P"
  shows "interest_ok (S(nat d \<mapsto> p)) (M(p \<mapsto> (d, P, ev))) Q' V"
proof -
  have S: "S fd = Some p \<Longrightarrow> fd = nat d" for fd using slot_unique [OF ok M] by auto
  have one: "S (nat d) = Some q \<Longrightarrow> q = p" for q using slot_of_descriptor [OF ok M d] by blast
  have other: "M q = Some (d, x) \<Longrightarrow> q = p" for q x using interest_okD(7) [OF ok _ M d] by blast
  have q: "set Q \<subseteq> set Q'" "set Q' \<subseteq> insert p (set Q)" "distinct Q'" using Q' interest_okD(8) [OF ok] by (auto simp: enqueue_def split: if_splits)
  have V: "ev \<noteq> 0 \<Longrightarrow> V d = Some ev" using interest_okD(6) [OF ok M] by blast
  show ?thesis unfolding interest_ok_def
  proof (intro conjI allI impI ballI)
    fix fd r assume "(S(nat d \<mapsto> p)) fd = Some r"
    then show "\<exists>pe eva. (M(p \<mapsto> (d, P, ev))) r = Some (int fd, pe, eva) \<and> pe \<noteq> 0"
      using d P(1) interest_okD(1) [OF ok] S by (cases "r = p") (auto split: if_splits)
  next
    fix r fd pe' ev' assume r: "(M(p \<mapsto> (d, P, ev))) r = Some (fd, pe', ev')"
    show "pe' AND NOT poll_mask = 0" using r P(2) interest_okD(2) [OF ok] by (auto split: if_splits)
    show "if pe' = 0 then ev' = 0 \<and> r \<notin> set Q'
       else fd \<ge> 0 \<and> (S(nat d \<mapsto> p)) (nat fd) = Some r \<and> (ev' \<noteq> pe' \<longrightarrow> r \<in> set Q') \<and> (ev' \<noteq> 0 \<longrightarrow> V fd = Some ev')"
    proof (cases "r = p")
      case True
      then show ?thesis using r d P(1) V Q' by (auto simp: enqueue_def)
    next
      case False
      then have m: "M r = Some (fd, pe', ev')" using r by simp
      have "fd \<ge> 0 \<Longrightarrow> nat fd \<noteq> nat d" using m d other False by (metis eq_nat_nat_iff)
      then show ?thesis using m False interest_okD(3) [OF ok, of r fd ev'] interest_okD(4-6) [OF ok m] q by auto
    qed
  next
    fix r s fd x y assume "(M(p \<mapsto> (d, P, ev))) r = Some (fd, x)" "(M(p \<mapsto> (d, P, ev))) s = Some (fd, y)" "fd \<ge> 0"
    then show "r = s" using other interest_okD(7) [OF ok] by (auto split: if_splits)
  qed (use q interest_okD(9) [OF ok] in auto)
qed

text \<open>A socket that wants no events, in particular a new one, one that got its descriptor and one that was stopped.\<close>

lemma interest_idle:
  assumes ok: "interest_ok S M Q V" and S': "\<And>fd q. S' fd = Some q \<longleftrightarrow> S fd = Some q \<and> q \<noteq> p"
    and Q': "Q' = removeAll p Q" and d: "\<And>q x. q \<noteq> p \<Longrightarrow> M q = Some (d, x) \<Longrightarrow> d < 0"
  shows "interest_ok S' (M(p \<mapsto> (d, 0, 0))) Q' V"
  unfolding interest_ok_def
proof (intro conjI allI impI ballI)
  fix fd r assume "S' fd = Some r"
  then show "\<exists>pe ev. (M(p \<mapsto> (d, 0, 0))) r = Some (int fd, pe, ev) \<and> pe \<noteq> 0"
    using S' interest_okD(1) [OF ok] by simp
next
  fix r fd pe' ev' assume r: "(M(p \<mapsto> (d, 0, 0))) r = Some (fd, pe', ev')"
  show "pe' AND NOT poll_mask = 0" using r interest_okD(2) [OF ok] by (auto split: if_splits)
  show "if pe' = 0 then ev' = 0 \<and> r \<notin> set Q'
     else fd \<ge> 0 \<and> S' (nat fd) = Some r \<and> (ev' \<noteq> pe' \<longrightarrow> r \<in> set Q') \<and> (ev' \<noteq> 0 \<longrightarrow> V fd = Some ev')"
  proof (cases "r = p")
    case False
    then have m: "M r = Some (fd, pe', ev')" using r by simp
    then show ?thesis using False S' Q' interest_okD(3) [OF ok, of r fd ev'] interest_okD(4-6) [OF ok m] by auto
  qed (use r Q' in auto)
next
  fix r s fd x y assume "(M(p \<mapsto> (d, 0, 0))) r = Some (fd, x)" "(M(p \<mapsto> (d, 0, 0))) s = Some (fd, y)" "fd \<ge> 0"
  then show "r = s" using d [of r x] d [of s y] interest_okD(7) [OF ok, of r fd x s y]
    by (cases "r = p"; cases "s = p") auto
qed (use Q' interest_okD(8,9) [OF ok] in \<open>auto simp: distinct_removeAll\<close>)

lemma interest_drop:
  assumes ok: "interest_ok S M Q V" and d: "\<And>q pe ev. M q = Some (d, pe, ev) \<Longrightarrow> pe = 0"
  shows "interest_ok S M Q (V(d := x))"
  unfolding interest_ok_def
proof (intro conjI allI impI ballI)
  fix r fd pe ev assume m: "M r = Some (fd, pe, ev)"
  show "if pe = 0 then ev = 0 \<and> r \<notin> set Q
     else fd \<ge> 0 \<and> S (nat fd) = Some r \<and> (ev \<noteq> pe \<longrightarrow> r \<in> set Q) \<and> (ev \<noteq> 0 \<longrightarrow> (V(d := x)) fd = Some ev)"
    using m d interest_okD(3) [OF ok, of r fd ev] interest_okD(4-6) [OF ok m] by auto
qed (use interest_okD(1,2,7,8,9) [OF ok] in blast)+

text \<open>A socket of the queue is registered.\<close>

lemma interest_poll:
  assumes ok: "interest_ok S M (p # Q) V" and M: "M p = Some (d, pe, ev)"
  shows "interest_ok S (M(p \<mapsto> (d, pe, pe))) Q (V(d \<mapsto> pe))"
proof -
  have pe: "pe \<noteq> 0" using interest_okD(3) [OF ok] M by auto
  then have d: "d \<ge> 0" using interest_okD(4) [OF ok M] by simp
  have other: "M q = Some (d, x) \<Longrightarrow> q = p" for q x using interest_okD(7) [OF ok _ M d] by blast
  show ?thesis unfolding interest_ok_def
  proof (intro conjI allI impI ballI)
    fix fd r assume "S fd = Some r"
    then show "\<exists>pea eva. (M(p \<mapsto> (d, pe, pe))) r = Some (int fd, pea, eva) \<and> pea \<noteq> 0"
      using interest_okD(1) [OF ok] M by fastforce
  next
    fix r fd pe' ev' assume r: "(M(p \<mapsto> (d, pe, pe))) r = Some (fd, pe', ev')"
    show "pe' AND NOT poll_mask = 0" using r interest_okD(2) [OF ok] M by (auto split: if_splits)
    show "if pe' = 0 then ev' = 0 \<and> r \<notin> set Q
       else fd \<ge> 0 \<and> S (nat fd) = Some r \<and> (ev' \<noteq> pe' \<longrightarrow> r \<in> set Q) \<and> (ev' \<noteq> 0 \<longrightarrow> (V(d \<mapsto> pe)) fd = Some ev')"
    proof (cases "r = p")
      case False
      then have m: "M r = Some (fd, pe', ev')" using r by simp
      then have "fd \<noteq> d" using other False by blast
      then show ?thesis using m False interest_okD(3) [OF ok, of r fd ev'] interest_okD(4-6) [OF ok m] by auto
    qed (use r pe interest_okD(4) [OF ok M] in auto)
  next
    fix r s fd x y assume "(M(p \<mapsto> (d, pe, pe))) r = Some (fd, x)" "(M(p \<mapsto> (d, pe, pe))) s = Some (fd, y)" "fd \<ge> 0"
    then show "r = s" using other interest_okD(7) [OF ok] by (auto split: if_splits)
  qed (use interest_okD(8,9) [OF ok] in auto)
qed

section \<open>Operations\<close>

lemma io_of_set_udp: "io_of (set_udp p u n) = (io_of n)(p \<mapsto> (io_fd u, io_pevents u, io_events u))"
  by (auto simp: io_of_def set_udp_def)

lemma slot_set_udp: "slot (set_udp p u n) = slot n"
  by (rule ext) (simp add: slot_def set_udp_def)

lemma set_udp_rest: "nt_watcher_queue (set_udp p u n) = nt_watcher_queue n" "nt_epoll (set_udp p u n) = nt_epoll n"
  by (simp_all add: set_udp_def)

lemma io_of_Some: "nt_udps n p = Some u \<Longrightarrow> io_of n p = Some (io_fd u, io_pevents u, io_events u)"
  by (simp add: io_of_def)

lemma slot_cong: "nt_watchers n' = nt_watchers n \<Longrightarrow> slot n' = slot n"
  by (simp add: slot_def fun_eq_iff)

lemma other_fields [simp]:
  "slot (n\<lparr>nt_epoll := log\<rparr>) = slot n" "slot (n\<lparr>nt_errno := i\<rparr>) = slot n" "slot (n\<lparr>nt_calls := is\<rparr>) = slot n"
  "slot (n\<lparr>nt_batch := b\<rparr>) = slot n" "slot (n\<lparr>nt_pending_queue := ps, nt_running_queue := qs\<rparr>) = slot n"
  "slot (n\<lparr>nt_active_handles := k\<rparr>) = slot n" "slot (n\<lparr>nt_watcher_queue := ps\<rparr>) = slot n"
  "io_of (n\<lparr>nt_epoll := log\<rparr>) = io_of n" "io_of (n\<lparr>nt_errno := i\<rparr>) = io_of n" "io_of (n\<lparr>nt_calls := is\<rparr>) = io_of n"
  "io_of (n\<lparr>nt_batch := b\<rparr>) = io_of n" "io_of (n\<lparr>nt_pending_queue := ps, nt_running_queue := qs\<rparr>) = io_of n"
  "io_of (n\<lparr>nt_active_handles := k\<rparr>) = io_of n" "io_of (n\<lparr>nt_watcher_queue := ps\<rparr>) = io_of n"
  by (simp_all add: slot_def io_of_def fun_eq_iff)

lemma slot_update:
  "fd < length (nt_watchers n) \<Longrightarrow> slot (n\<lparr>nt_watchers := (nt_watchers n)[fd := w], nt_nfds := k\<rparr>) = (slot n)(fd := w)"
  by (auto simp: slot_def fun_eq_iff)

text \<open>Only these four things matter.\<close>

definition same_interest :: "'cb net \<Rightarrow> 'cb net \<Rightarrow> bool" where
  "same_interest n n' \<longleftrightarrow> slot n' = slot n \<and> io_of n' = io_of n \<and> nt_watcher_queue n' = nt_watcher_queue n \<and> nt_epoll n' = nt_epoll n"

lemma same_interest_ok: "same_interest n n' \<Longrightarrow> net_interest_ok n' = net_interest_ok n"
  by (simp add: same_interest_def net_interest_ok_def)

lemma maybe_resize_same: "same_interest n (maybe_resize len n)"
  by (auto simp: same_interest_def maybe_resize_def slot_def io_of_def Let_def nth_append fun_eq_iff)

lemma mask_or: "x AND NOT m = 0 \<Longrightarrow> y AND NOT m = 0 \<Longrightarrow> (x OR y) AND NOT m = (0 :: u32)"
  by (simp add: bit.conj_disj_distrib2)

lemma mask_and: "x AND NOT m = 0 \<Longrightarrow> (x AND y) AND NOT m = (0 :: u32)"
  by (metis and.assoc and.commute and_zero_eq)

lemma check_eq: "check b = Inr u \<longleftrightarrow> b"
  by (simp add: check_def)

lemma io_start_interest:
  assumes ok: "net_interest_ok n" and r: "uv__io_start p events n = Inr n'"
  shows "net_interest_ok n'"
proof -
  obtain u where u: "nt_udps n p = Some u" "io_fd u \<ge> 0" "events AND NOT poll_mask = 0" "events \<noteq> 0"
    using r by (auto simp: uv__io_start_def check_events_def check_eq udp_at_def res_simps)
  define P where "P = io_pevents u OR events"
  define n1 where "n1 = maybe_resize (of_int (io_fd u + 1)) (set_udp p (u\<lparr>io_pevents := P\<rparr>) n)"
  note M = io_of_Some [OF u(1)]
  note I = ok [unfolded net_interest_ok_def]
  have P: "P \<noteq> 0" "P AND NOT poll_mask = 0" "io_events u \<noteq> 0 \<longrightarrow> io_pevents u \<noteq> 0"
    using u(4) mask_or [OF interest_okD(2) [OF I M] u(3)] interest_okD(3) [OF I] M
    by (auto simp: P_def) (metis or.commute or_eq_0_iff)
  have n1: "slot n1 = slot n" "io_of n1 = (io_of n)(p \<mapsto> (io_fd u, P, io_events u))" "nt_watcher_queue n1 = nt_watcher_queue n"
      "nt_epoll n1 = nt_epoll n"
    using maybe_resize_same [of "set_udp p (u\<lparr>io_pevents := P\<rparr>) n" "of_int (io_fd u + 1)"]
    by (simp_all add: same_interest_def n1_def io_of_set_udp slot_set_udp set_udp_rest)
  show ?thesis
  proof (cases "io_events u = P")
    case True
    then have "n' = n1" using r u by (auto simp: uv__io_start_def check_events_def check_eq udp_at_def res_simps P_def n1_def Let_def)
    moreover have "slot n (nat (io_fd u)) = Some p" using interest_okD(4) [OF I M] P True by simp
    then have "(slot n)(nat (io_fd u) \<mapsto> p) = slot n" by auto
    ultimately show ?thesis
      using interest_start [OF I M u(2) P, of "nt_watcher_queue n"] n1 True by (simp add: net_interest_ok_def)
  next
    case False
    define n2 where "n2 = n1\<lparr>nt_watcher_queue := enqueue p (nt_watcher_queue n1)\<rparr>"
    let ?fd = "nat (io_fd u)"
    have fd: "?fd < length (nt_watchers n2)"
        "n' = (if nt_watchers n2 ! ?fd = None
          then n2\<lparr>nt_watchers := (nt_watchers n2)[?fd := Some p], nt_nfds := nt_nfds n2 + 1\<rparr> else n2)"
      using r u False
      by (auto simp: uv__io_start_def check_events_def check_eq udp_at_def res_simps P_def n1_def n2_def Let_def)
    have s2: "slot n2 = slot n" using slot_cong [of n2 n1] n1(1) by (simp add: n2_def)
    have "slot n' = (slot n)(?fd \<mapsto> p)"
    proof (cases "nt_watchers n2 ! ?fd")
      case None
      then show ?thesis using fd slot_update [OF fd(1)] s2 by (simp del: fun_upd_apply)
    next
      case (Some q)
      then have "slot n ?fd = Some q" using fd(1) s2 [THEN fun_cong, of ?fd] by (simp add: slot_def)
      then have "slot n ?fd = Some p" using slot_of_descriptor [OF I M u(2)] by simp
      then show ?thesis using fd(2) Some s2 by auto
    qed
    moreover have "io_of n' = io_of n1" "nt_watcher_queue n' = enqueue p (nt_watcher_queue n)" "nt_epoll n' = nt_epoll n"
      using fd(2) n1 by (auto simp: n2_def io_of_def fun_eq_iff)
    ultimately show ?thesis
      using interest_start [OF I M u(2) P, of "enqueue p (nt_watcher_queue n)"] n1 by (simp add: net_interest_ok_def)
  qed
qed

text \<open>After a stop with every event the socket wants none.\<close>

lemma io_stop_interest:
  assumes ok: "net_interest_ok n" and r: "uv__io_stop p events n = Inr n'"
  shows "net_interest_ok n' \<and> nt_epoll n' = nt_epoll n \<and> (\<forall>q d x. io_of n' q = Some (d, x) \<longrightarrow> (\<exists>y. io_of n q = Some (d, y))) \<and>
    (events = poll_mask \<longrightarrow> (\<forall>d pe ev. io_of n' p = Some (d, pe, ev) \<longrightarrow> pe = 0))"
proof -
  obtain u where u: "nt_udps n p = Some u" using r by (auto simp: uv__io_stop_def udp_at_def res_simps)
  note M = io_of_Some [OF u]
  note I = ok [unfolded net_interest_ok_def]
  define P where "P = io_pevents u AND NOT events"
  have mask: "events = poll_mask \<Longrightarrow> P = 0" using interest_okD(2) [OF I M] by (simp add: P_def)
  show ?thesis
  proof (cases "io_fd u = - 1 \<or> nat (io_fd u) \<ge> nwatchers n")
    case True
    then have "n' = n" using r u by (auto simp: uv__io_stop_def check_events_def udp_at_def res_simps split: if_splits)
    moreover have "io_pevents u = 0"
      by (rule ccontr) (use True interest_okD(4) [OF I M] in \<open>auto simp: nwatchers_def slot_def split: if_splits\<close>)
    ultimately show ?thesis using ok M by auto
  next
    case False
    then have fd: "io_fd u \<ge> 0" "nat (io_fd u) < length (nt_watchers n)"
      using r u by (auto simp: uv__io_stop_def check_events_def check_eq udp_at_def res_simps nwatchers_def)
    let ?fd = "nat (io_fd u)"
    show ?thesis
    proof (cases "P = 0")
      case True
      define n1 where "n1 = set_udp p (u\<lparr>io_pevents := 0, io_events := 0\<rparr>) (n\<lparr>nt_watcher_queue := removeAll p (nt_watcher_queue n)\<rparr>)"
      have n': "n' = (if nt_watchers n ! ?fd = Some p
          then n1\<lparr>nt_watchers := (nt_watchers n1)[?fd := None], nt_nfds := nt_nfds n1 - 1\<rparr> else n1)"
        using r u fd False True
        by (auto simp: uv__io_stop_def check_events_def check_eq udp_at_def res_simps P_def n1_def Let_def set_udp_def)
      have w: "nt_watchers n1 = nt_watchers n" by (simp add: n1_def set_udp_def)
      have cell: "slot n ?fd = nt_watchers n ! ?fd" using fd(2) by (simp add: slot_def)
      have "slot n' = (if slot n ?fd = Some p then (slot n)(?fd := None) else slot n)"
      proof (cases "nt_watchers n ! ?fd = Some p")
        case True
        have l: "?fd < length (nt_watchers n1)" using fd(2) w by simp
        show ?thesis unfolding n' if_P [OF True] slot_update [OF l] slot_cong [OF w] cell by simp
      qed (simp add: n' cell slot_cong [OF w])
      then have S: "slot n' fd = Some q \<longleftrightarrow> slot n fd = Some q \<and> q \<noteq> p" for fd q
        by (rule cell_cleared) (use slot_unique [OF I M] in simp)
      have rest: "io_of n' = (io_of n)(p \<mapsto> (io_fd u, 0, 0))" "nt_watcher_queue n' = removeAll p (nt_watcher_queue n)" "nt_epoll n' = nt_epoll n"
        using n' by (auto simp: n1_def io_of_def set_udp_def fun_eq_iff)
      have "net_interest_ok n'" unfolding net_interest_ok_def rest
        by (rule interest_idle [OF I S]) (use interest_okD(7) [OF I _ M] fd(1) in fastforce)+
      then show ?thesis using rest M by (auto split: if_splits)
    next
      case nz: False
      have n': "n' = set_udp p (u\<lparr>io_pevents := P\<rparr>) (n\<lparr>nt_watcher_queue := enqueue p (nt_watcher_queue n)\<rparr>)"
        using r u fd False nz by (auto simp: uv__io_stop_def check_events_def check_eq udp_at_def res_simps P_def Let_def)
      have pe: "io_pevents u \<noteq> 0" using nz by (auto simp: P_def)
      have "slot n ?fd = Some p" using interest_okD(4) [OF I M pe] by simp
      then have "(slot n)(?fd \<mapsto> p) = slot n" by auto
      then have "interest_ok (slot n) ((io_of n)(p \<mapsto> (io_fd u, P, io_events u))) (enqueue p (nt_watcher_queue n)) (epoll_view (nt_epoll n))"
        using interest_start [OF I M fd(1) nz, of "enqueue p (nt_watcher_queue n)"] mask_and [OF interest_okD(2) [OF I M]] pe
        by (simp add: P_def)
      moreover have "slot n' = slot n" unfolding n' slot_set_udp by (rule slot_cong) simp
      moreover have "io_of n' = (io_of n)(p \<mapsto> (io_fd u, P, io_events u))" using n' by (auto simp: io_of_def set_udp_def fun_eq_iff)
      ultimately show ?thesis using n' nz mask M by (auto simp: net_interest_ok_def set_udp_def split: if_splits)
    qed
  qed
qed

text \<open>The system calls.\<close>

lemma same_interest_trans: "same_interest n n' \<Longrightarrow> same_interest n' n'' \<Longrightarrow> same_interest n n''"
  by (simp add: same_interest_def)

lemma sys_call_interest: "sys_call n = Inr (r, n') \<Longrightarrow> same_interest n n'"
  by (cases "nt_calls n") (auto simp: sys_call_def Let_def same_interest_def split: if_splits)

lemma uv__close_interest: "uv__close fd n = Inr n' \<Longrightarrow> same_interest n n'"
  by (auto simp: uv__close_def res_simps same_interest_def dest!: sys_call_interest)

lemma epoll_ctl_interest:
  "epoll_ctl op fd ev n = Inr (r, n') \<Longrightarrow> slot n' = slot n \<and> io_of n' = io_of n \<and> nt_watcher_queue n' = nt_watcher_queue n \<and>
   nt_epoll n' = (if r = 0 then nt_epoll n @ [(op, fd, ev)] else nt_epoll n)"
proof -
  assume "epoll_ctl op fd ev n = Inr (r, n')"
  then obtain n1 where n1: "sys_call n = Inr (r, n1)" "n' = (if r = 0 then n1\<lparr>nt_epoll := nt_epoll n1 @ [(op, fd, ev)]\<rparr> else n1)"
    by (auto simp: epoll_ctl_def bindE_eq_Inr_iff)
  show ?thesis using sys_call_interest [OF n1(1)] unfolding n1(2) by (simp add: same_interest_def)
qed

lemma uv__epoll_ctl_prep_interest:
  "uv__epoll_ctl_prep op fd ev n = Inr n' \<Longrightarrow> slot n' = slot n \<and> io_of n' = io_of n \<and> nt_watcher_queue n' = nt_watcher_queue n \<and>
   (if op = Epoll_Del then epoll_view (nt_epoll n') \<in> {epoll_view (nt_epoll n), (epoll_view (nt_epoll n))(fd := None)}
    else epoll_view (nt_epoll n') = (epoll_view (nt_epoll n))(fd \<mapsto> ev))"
proof -
  assume a: "uv__epoll_ctl_prep op fd ev n = Inr n'"
  then obtain r1 n1 where e1: "epoll_ctl op fd ev n = Inr (r1, n1)"
    by (auto simp: uv__epoll_ctl_prep_def bindE_eq_Inr_iff)
  note x1 = epoll_ctl_interest [OF e1]
  show ?thesis
  proof (cases "r1 = 0 \<or> op = Epoll_Del")
    case True
    then have "n' = n1" using a e1 by (simp add: uv__epoll_ctl_prep_def)
    then show ?thesis using x1 True by (auto simp: epoll_view_snoc epoll_apply_def)
  next
    case False
    then obtain n2 where e2: "epoll_ctl Epoll_Mod fd ev n1 = Inr (0, n2)" "n' = n2"
      using a e1 by (auto simp: uv__epoll_ctl_prep_def bindE_eq_Inr_iff split: if_splits)
    then show ?thesis using x1 epoll_ctl_interest [OF e2(1)] False by (simp add: epoll_view_snoc epoll_apply_def)
  qed
qed

lemma invalidate_interest:
  assumes "uv__platform_invalidate_fd fd n = Inr n'"
  shows "slot n' = slot n \<and> io_of n' = io_of n \<and> nt_watcher_queue n' = nt_watcher_queue n \<and>
    epoll_view (nt_epoll n') \<in> {epoll_view (nt_epoll n), (epoll_view (nt_epoll n))(fd := None)}"
proof (cases "nt_batch n")
  case None
  then show ?thesis using assms
    by (auto simp: uv__platform_invalidate_fd_def res_simps epoll_view_snoc epoll_apply_def dest!: epoll_ctl_interest)
next
  case (Some events)
  let ?n = "n\<lparr>nt_batch := Some (invalidate fd events)\<rparr>"
  show ?thesis using assms Some uv__epoll_ctl_prep_interest [of Epoll_Del fd 0 ?n n']
    by (simp add: uv__platform_invalidate_fd_def)
qed

lemma udp_handle_stop_interest:
  assumes "udp_handle_stop p n = Inr n'"
  shows "same_interest n n'"
proof -
  obtain u where u: "nt_udps n p = Some u" using assms by (auto simp: udp_handle_stop_def udp_at_def bindE_eq_Inr_iff or_fail_eq_Inr_iff)
  let ?n = "set_udp p (u\<lparr>ud_active := False\<rparr>) n"
  have "n' = n \<or> n' = ?n \<or> n' = ?n\<lparr>nt_active_handles := nt_active_handles ?n - 1\<rparr>"
    using assms u by (auto simp: udp_handle_stop_def udp_at_def Let_def split: if_splits)
  moreover have "same_interest n ?n"
    using io_of_Some [OF u] by (auto simp: same_interest_def io_of_set_udp slot_set_udp set_udp_rest)
  ultimately show ?thesis by (auto simp: same_interest_def)
qed

text \<open>A socket that wants nothing may change its descriptor to one that no other has.\<close>

lemma set_descriptor_interest:
  assumes ok: "net_interest_ok n" and idle: "\<And>d pe ev. io_of n p = Some (d, pe, ev) \<Longrightarrow> pe = 0"
    and u: "io_pevents u = 0" "io_events u = 0" "\<And>q x. q \<noteq> p \<Longrightarrow> io_of n q = Some (io_fd u, x) \<Longrightarrow> io_fd u < 0"
  shows "net_interest_ok (set_udp p u n)"
proof -
  note I = ok [unfolded net_interest_ok_def]
  have q: "p \<notin> set (nt_watcher_queue n)" using interest_okD(9) [OF I] interest_okD(3) [OF I] idle by fastforce
  have "slot n fd \<noteq> Some p" for fd using interest_okD(1) [OF I] idle by fastforce
  then have S: "slot n fd = Some q \<longleftrightarrow> slot n fd = Some q \<and> q \<noteq> p" for fd q by blast
  have Q: "nt_watcher_queue n = removeAll p (nt_watcher_queue n)" using q by simp
  show ?thesis unfolding net_interest_ok_def io_of_set_udp slot_set_udp set_udp_rest u(1,2)
    by (rule interest_idle [OF I S Q]) (rule u(3))
qed

lemma udp_close_interest:
  assumes ok: "net_interest_ok n" and r: "uv__udp_close p n = Inr n'"
  shows "net_interest_ok n'"
proof -
  obtain n1 n2 u2 n3 where s: "uv__io_stop p poll_mask n = Inr n1"
      "n2 = n1\<lparr>nt_pending_queue := removeAll p (nt_pending_queue n1), nt_running_queue := removeAll p (nt_running_queue n1)\<rparr>"
      "udp_at n2 p = Inr u2" "(if io_fd u2 \<noteq> - 1 then uv__platform_invalidate_fd (io_fd u2) n2 else Inr n2) = Inr n3"
      "bindE (udp_handle_stop p n3) (\<lambda>n. bindE (udp_at n p) (\<lambda>u. if io_fd u \<noteq> - 1 then
         bindE (uv__close (io_fd u) n) (\<lambda>n. bindE (udp_at n p) (\<lambda>u. Inr (set_udp p (u\<lparr>io_fd := - 1\<rparr>) n))) else Inr n)) = Inr n'"
    using r unfolding uv__udp_close_def uv__io_close_def Let_def bindE_assoc bindE_eq_Inr_iff by blast
  note stop = io_stop_interest [OF ok s(1)]
  have same2: "slot n2 = slot n1" "io_of n2 = io_of n1" "nt_watcher_queue n2 = nt_watcher_queue n1" "nt_epoll n2 = nt_epoll n1"
    using s(2) by simp_all
  have ok2: "net_interest_ok n2" using stop unfolding net_interest_ok_def same2 by blast
  note I2 = ok2 [unfolded net_interest_ok_def]
  have u2: "nt_udps n2 p = Some u2" using s(3) by (simp add: udp_at_def res_simps)
  have idle2: "pe = 0" if "io_of n2 p = Some (d, pe, ev)" for d pe ev using stop that unfolding same2 by blast
  have pe: "io_pevents u2 = 0" by (rule idle2 [OF io_of_Some [OF u2]])
  have none: "pe = 0" if "io_of n2 q = Some (io_fd u2, pe, ev)" for q pe ev
  proof (rule ccontr)
    assume "pe \<noteq> 0"
    then have "io_fd u2 \<ge> 0" using interest_okD(4) [OF I2 that] by blast
    then have "q = p" using interest_okD(7) [OF I2 that io_of_Some [OF u2]] by blast
    then show False using that idle2 \<open>pe \<noteq> 0\<close> by blast
  qed
  have ok3: "net_interest_ok n3 \<and> io_of n3 = io_of n2"
  proof (cases "io_fd u2 = - 1")
    case False
    then have inv: "uv__platform_invalidate_fd (io_fd u2) n2 = Inr n3" using s(4) by simp
    show ?thesis using invalidate_interest [OF inv] I2 interest_drop [OF I2 none, where x = None]
      unfolding net_interest_ok_def by auto
  qed (use s(4) ok2 in simp)
  obtain n4 where n4: "udp_handle_stop p n3 = Inr n4" using s(5) by (auto simp: bindE_eq_Inr_iff)
  note same4 = udp_handle_stop_interest [OF n4]
  have ok4: "net_interest_ok n4" using same_interest_ok [OF same4] ok3 by simp
  have io4: "io_of n4 = io_of n2" using same4 ok3 by (simp add: same_interest_def)
  obtain u4 where u4: "nt_udps n4 p = Some u4" using s(5) n4 by (auto simp: udp_at_def bindE_eq_Inr_iff or_fail_eq_Inr_iff)
  show ?thesis
  proof (cases "io_fd u4 = - 1")
    case True
    then show ?thesis using s(5) n4 u4 ok4 by (simp add: udp_at_def)
  next
    case False
    then obtain n5 u5 where n5: "uv__close (io_fd u4) n4 = Inr n5" "nt_udps n5 p = Some u5" "n' = set_udp p (u5\<lparr>io_fd := - 1\<rparr>) n5"
      using s(5) n4 u4 by (auto simp: udp_at_def bindE_eq_Inr_iff or_fail_eq_Inr_iff)
    note same5 = uv__close_interest [OF n5(1)]
    have ok5: "net_interest_ok n5" using same_interest_ok [OF same5] ok4 by simp
    have "io_of n5 = io_of n2" using same5 io4 by (simp add: same_interest_def)
    then have p5: "pe = 0" if "io_of n5 p = Some (d, pe, ev)" for d pe ev using idle2 that by simp
    have "io_pevents u5 = 0" by (rule p5 [OF io_of_Some [OF n5(2)]])
    moreover from this have "io_events u5 = 0"
      using interest_okD(3) [OF ok5 [unfolded net_interest_ok_def]] io_of_Some [OF n5(2)] by fastforce
    ultimately show ?thesis unfolding n5(3) by (intro set_descriptor_interest [OF ok5]) (simp_all add: p5)
  qed
qed

section \<open>Polling\<close>

lemma register_interest:
  "register_watchers ps n = Inr n' \<Longrightarrow> nt_watcher_queue n = ps \<Longrightarrow> net_interest_ok n \<Longrightarrow>
   net_interest_ok n' \<and> nt_watcher_queue n' = []"
proof (induction ps arbitrary: n)
  case (Cons p ps)
  note I = Cons.prems(3) [unfolded net_interest_ok_def Cons.prems(2)]
  let ?n = "n\<lparr>nt_watcher_queue := ps\<rparr>"
  obtain u where u: "nt_udps n p = Some u" using Cons.prems(1) by (auto simp: udp_at_def Let_def bindE_eq_Inr_iff or_fail_eq_Inr_iff)
  let ?op = "if io_events u = 0 then Epoll_Add else Epoll_Mod" and ?m = "set_udp p (u\<lparr>io_events := io_pevents u\<rparr>) ?n"
  obtain n1 where n1: "uv__epoll_ctl_prep ?op (io_fd u) (io_pevents u) ?m = Inr n1" "register_watchers ps n1 = Inr n'"
    using Cons.prems(1) u by (auto simp: udp_at_def Let_def bindE_eq_Inr_iff)
  have e: "slot n1 = slot n \<and> io_of n1 = (io_of n)(p \<mapsto> (io_fd u, io_pevents u, io_pevents u)) \<and> nt_watcher_queue n1 = ps \<and>
      epoll_view (nt_epoll n1) = (epoll_view (nt_epoll n))(io_fd u \<mapsto> io_pevents u)"
    using uv__epoll_ctl_prep_interest [OF n1(1)] by (simp add: io_of_set_udp slot_set_udp set_udp_rest)
  have "net_interest_ok n1" using interest_poll [OF I io_of_Some [OF u]] e by (simp add: net_interest_ok_def)
  then show ?case using Cons.IH [OF n1(2)] e by simp
qed simp

section \<open>Runs\<close>

text \<open>
  A socket is made, gets a descriptor from the kernel, starts and stops to watch for events, is closed; the loop polls;
  anything else leaves the watchers alone.
\<close>

definition unused :: "int \<Rightarrow> 'cb net \<Rightarrow> bool" where
  "unused fd n \<longleftrightarrow> (\<forall>p u. nt_udps n p = Some u \<longrightarrow> io_fd u \<noteq> fd)"

inductive socket_step :: "'cb net \<Rightarrow> 'cb net \<Rightarrow> bool" where
  made: "nt_udps n p = None \<Longrightarrow> uv__io_init fd u = Inr u' \<Longrightarrow> fd = - 1 \<or> unused fd n \<Longrightarrow> socket_step n (set_udp p u' n)"
| opened: "nt_udps n p = Some u \<Longrightarrow> io_fd u = - 1 \<Longrightarrow> fd \<ge> 0 \<Longrightarrow> unused fd n \<Longrightarrow> socket_step n (set_udp p (u\<lparr>io_fd := fd\<rparr>) n)"
| watched: "uv__io_start p events n = Inr n' \<Longrightarrow> socket_step n n'"
| unwatched: "uv__io_stop p events n = Inr n' \<Longrightarrow> socket_step n n'"
| shut: "uv__udp_close p n = Inr n' \<Longrightarrow> socket_step n n'"
| polled: "register_watchers (nt_watcher_queue n) n = Inr n' \<Longrightarrow> socket_step n n'"
| unrelated: "same_interest n n' \<Longrightarrow> socket_step n n'"

inductive socket_run :: "'cb net \<Rightarrow> 'cb net \<Rightarrow> bool" where
  at_start: "nt_udps n = Map.empty \<Longrightarrow> nt_watchers n = [] \<Longrightarrow> nt_watcher_queue n = [] \<Longrightarrow> socket_run n n"
| and_then: "socket_run n n' \<Longrightarrow> socket_step n' n'' \<Longrightarrow> socket_run n n''"

lemma unused_io: "unused fd n \<Longrightarrow> io_of n q \<noteq> Some (fd, x)"
  by (auto simp: unused_def io_of_def)

lemma socket_step_ok: "socket_step n n' \<Longrightarrow> net_interest_ok n \<Longrightarrow> net_interest_ok n'"
proof (induction rule: socket_step.induct)
  case (made n p fd u u')
  then show ?case
    by (intro set_descriptor_interest) (auto simp: uv__io_init_def res_simps check_eq io_of_def [of n p] dest: unused_io)
next
  case (opened n p u fd)
  note I = \<open>net_interest_ok n\<close> [unfolded net_interest_ok_def]
  note M = io_of_Some [OF opened(1)]
  have pe: "io_pevents u = 0" using interest_okD(4) [OF I M] opened(2) by fastforce
  then have "io_events u = 0" using interest_okD(3) [OF I] M by fastforce
  then show ?case using pe M opened by (intro set_descriptor_interest) (auto dest: unused_io)
qed (auto dest: io_start_interest io_stop_interest udp_close_interest register_interest same_interest_ok)

lemma socket_run_ok: "socket_run n n' \<Longrightarrow> net_interest_ok n'"
proof (induction rule: socket_run.induct)
  case (at_start n)
  then show ?case by (simp add: net_interest_ok_def interest_ok_def slot_def io_of_def)
qed (rule socket_step_ok)

lemma watched_after_poll:
  assumes "socket_run n0 n" "register_watchers (nt_watcher_queue n) n = Inr n'"
  shows "nt_watcher_queue n' = [] \<and>
    (\<forall>p u. nt_udps n' p = Some u \<longrightarrow> io_pevents u \<noteq> 0 \<longrightarrow>
       slot n' (nat (io_fd u)) = Some p \<and> epoll_view (nt_epoll n') (io_fd u) = Some (io_pevents u)) \<and>
    (\<forall>fd p. slot n' fd = Some p \<longrightarrow> (\<exists>u. nt_udps n' p = Some u \<and> io_fd u = int fd \<and> io_pevents u \<noteq> 0))"
proof -
  have ok: "net_interest_ok n'" "nt_watcher_queue n' = []"
    using register_interest [OF assms(2) refl socket_run_ok [OF assms(1)]] by simp_all
  note I = ok(1) [unfolded net_interest_ok_def ok(2)]
  have "slot n' (nat (io_fd u)) = Some p \<and> epoll_view (nt_epoll n') (io_fd u) = Some (io_pevents u)"
    if "nt_udps n' p = Some u" "io_pevents u \<noteq> 0" for p u
    using interest_okD(4,5,6) [OF I io_of_Some [OF that(1)]] that(2) by fastforce
  moreover have "\<exists>u. nt_udps n' p = Some u \<and> io_fd u = int fd \<and> io_pevents u \<noteq> 0" if "slot n' fd = Some p" for fd p
    using interest_okD(1) [OF I that] by (auto simp: io_of_def)
  ultimately show ?thesis using ok(2) by blast
qed

section \<open>Events of closed descriptors\<close>

lemma stop_batch: "uv__io_stop p events n = Inr n' \<Longrightarrow> nt_batch n' = nt_batch n"
  by (auto simp: uv__io_stop_def set_udp_def bindE_eq_Inr_iff Let_def split: if_splits)

lemma sys_call_batch: "sys_call n = Inr (r, n') \<Longrightarrow> nt_batch n' = nt_batch n"
  by (cases "nt_calls n") (auto simp: sys_call_def Let_def split: if_splits)

lemma epoll_ctl_batch: "epoll_ctl op fd ev n = Inr (r, n') \<Longrightarrow> nt_batch n' = nt_batch n"
  unfolding epoll_ctl_def bindE_eq_Inr_iff using sys_call_batch [of n] by (fastforce split: if_splits)

lemma handle_stop_batch: "udp_handle_stop p n = Inr n' \<Longrightarrow> nt_batch n' = nt_batch n"
  by (auto simp: udp_handle_stop_def set_udp_def bindE_eq_Inr_iff Let_def split: if_splits)

lemma descriptor_kept:
  "uv__io_stop p events n = Inr n' \<Longrightarrow> nt_udps n p = Some u \<Longrightarrow> \<exists>u'. nt_udps n' p = Some u' \<and> io_fd u' = io_fd u"
  by (auto simp: uv__io_stop_def set_udp_def udp_at_def res_simps Let_def split: if_splits)

lemma udp_close_invalidates:
  assumes r: "uv__udp_close p n = Inr n'" and u: "nt_udps n p = Some u" "io_fd u \<noteq> - 1" and b: "nt_batch n = Some events"
  shows "nt_batch n' = Some (invalidate (io_fd u) events)"
proof -
  obtain n1 n2 u2 n3 where s: "uv__io_stop p poll_mask n = Inr n1"
      "n2 = n1\<lparr>nt_pending_queue := removeAll p (nt_pending_queue n1), nt_running_queue := removeAll p (nt_running_queue n1)\<rparr>"
      "udp_at n2 p = Inr u2" "(if io_fd u2 \<noteq> - 1 then uv__platform_invalidate_fd (io_fd u2) n2 else Inr n2) = Inr n3"
      "bindE (udp_handle_stop p n3) (\<lambda>n. bindE (udp_at n p) (\<lambda>u. if io_fd u \<noteq> - 1 then
         bindE (uv__close (io_fd u) n) (\<lambda>n. bindE (udp_at n p) (\<lambda>u. Inr (set_udp p (u\<lparr>io_fd := - 1\<rparr>) n))) else Inr n)) = Inr n'"
    using r unfolding uv__udp_close_def uv__io_close_def Let_def bindE_assoc bindE_eq_Inr_iff by blast
  have u2: "io_fd u2 = io_fd u" using descriptor_kept [OF s(1) u(1)] s(2,3) by (auto simp: udp_at_def)
  have b2: "nt_batch n2 = Some events" using stop_batch [OF s(1)] s(2) b by simp
  let ?n = "n2\<lparr>nt_batch := Some (invalidate (io_fd u) events)\<rparr>"
  have "uv__epoll_ctl_prep Epoll_Del (io_fd u) 0 ?n = Inr n3"
    using s(4) u(2) u2 b2 by (simp add: uv__platform_invalidate_fd_def)
  then have "nt_batch n3 = Some (invalidate (io_fd u) events)"
    by (auto simp: uv__epoll_ctl_prep_def bindE_eq_Inr_iff dest: epoll_ctl_batch)
  then show ?thesis using s(5)
    by (auto simp: bindE_eq_Inr_iff uv__close_def set_udp_def dest!: sys_call_batch handle_stop_batch split: if_splits)
qed

lemma invalidated_is_skipped:
  assumes "nt_batch n = Some (invalidate fd events)" "i < length events" "fst (events ! i) = fd"
  shows "hand_out fuel calls i (Suc k) nevents (s, n) = hand_out fuel calls (i + 1) k nevents (s, n)"
  using assms by (cases "events ! i") (simp add: invalidate_def arr_get_def)

end
