(* ===== verification/Uv_Loop_Samples.thy ===== *)
theory Uv_Loop_Samples
  imports Samples Uv_Samples Uv_Loop_Correct Uv_Loop_Rule Uv_Interest
begin

text \<open>Concrete loops and answers of the kernel for the properties of \<open>uv_run\<close>.\<close>

section \<open>A loop with one timer\<close>

definition sample_watches :: "nat watch" where
  "sample_watches = \<lparr>wt_active_handles = 0, wt_handle_queue = [], wt_handles = Map.empty, wt_queue = [], wt_running = []\<rparr>"

definition sample_alarm :: "nat uv_timer" where
  "sample_alarm = (sample_timer True)\<lparr>tm_timeout := 10, tm_repeat := 0\<rparr>"

text \<open>The time is 4, the timer is due at 10; the clock then says 5, 7, 10 and 10.\<close>

definition sample_event_loop :: "(nat, nat) event_loop" where
  "sample_event_loop = \<lparr>el_prog = 0, el_active_handles = 1, el_handle_queue = [0, 1], el_net = sample_net\<lparr>nt_nfds := 1\<rparr>,
     el_timers = sample_loop\<lparr>lp_time := 4, lp_timers := [0 \<mapsto> sample_alarm, 1 \<mapsto> sample_timer False]\<rparr>,
     el_watch = (\<lambda>k. sample_watches), el_stop_flag = False, el_clock = [5000000, 7000000, 10000000, 10000000]\<rparr>"

definition sample_kernel :: "int \<Rightarrow> (nat, nat) event_loop \<Rightarrow> ((int + epoll_events) \<times> (nat, nat) event_loop) res" where
  "sample_kernel t e = Inr (Inr [], e)"

text \<open>Every callback counts up by two.\<close>

definition count_two :: "(nat, nat) event_loop \<Rightarrow> (nat, nat) event_loop res" where
  "count_two e = Inr (e\<lparr>el_prog := el_prog e + 2\<rparr>)"

definition sample_loop_calls :: "(nat, nat) loop_calls" where
  "sample_loop_calls = \<lparr>on_alloc = \<lambda>cb k e. Inr ((None, 0), e), on_recv = \<lambda>cb p r b a f. count_two,
     on_send = \<lambda>cb q s. count_two, on_close = \<lambda>cb p. count_two, on_timer = \<lambda>cb p. count_two, on_watch = \<lambda>k cb p. count_two\<rparr>"

lemma sample_kernel: "kernel_call sample_kernel" "kernel_keeps I sample_kernel"
  by (simp_all add: kernel_call_def kernel_keeps_def sample_kernel_def)

lemma sample_loop_calls: "loop_calls_keep (unstopped even) sample_loop_calls"
  by (auto simp: loop_calls_keep_def sample_loop_calls_def count_two_def holds_in_def unstopped_def)

lemma sample_event_loop:
  "timers_ok (el_timers sample_event_loop)" "uv__backend_timeout sample_event_loop = Inr 6"
  "steady_clock (el_time sample_event_loop) sample_event_loop"
  "even (el_prog sample_event_loop)" "\<not> el_stop_flag sample_event_loop" "uv__loop_alive sample_event_loop"
proof -
  let ?l = "el_timers sample_event_loop"
  have "active ?l = {0}"
    by (auto simp: active_def sample_event_loop_def sample_alarm_def sample_timer_def split: if_splits)
  then show "timers_ok ?l"
    using sample_heap_holds
    by (auto simp: timers_ok_def sample_event_loop_def sample_loop_def sample_alarm_def sample_timer_def sample_heap_def split: if_splits)
  show "uv__backend_timeout sample_event_loop = Inr 6" by code_simp
  show "steady_clock (el_time sample_event_loop) sample_event_loop"
    by (simp add: steady_clock_def el_time_def sample_event_loop_def sample_loop_def)
qed (simp_all add: sample_event_loop_def uv__loop_alive_def)

lemma sample_polled_loop:
  "\<exists>e. uv__io_poll 5 1 sample_loop_calls sample_kernel 6 sample_event_loop = Inr e \<and> el_time e = 10"
proof -
  have "map_sum id el_time (uv__io_poll 5 1 sample_loop_calls sample_kernel 6 sample_event_loop) = Inr 10" by code_simp
  then show ?thesis by (cases "uv__io_poll 5 1 sample_loop_calls sample_kernel 6 sample_event_loop") auto
qed

lemma sample_run:
  "\<exists>e. uv_run 5 5 sample_loop_calls sample_kernel UV_RUN_DEFAULT sample_event_loop = Inr (False, e) \<and> el_prog e = 2"
proof -
  let ?r = "uv_run 5 5 sample_loop_calls sample_kernel UV_RUN_DEFAULT sample_event_loop"
  have "map_sum id (map_prod id el_prog) ?r = Inr (False, 2)" by code_simp
  then show ?thesis by (cases ?r) auto
qed

text \<open>
  \<open>real_timeout\<close> loses the whole time since the start of the poll after every wait: woken up at 5 and at 7, the poll
  returns at 9, after the last wait has run its full 2 milliseconds, though its 6 milliseconds end at 10.
\<close>

lemma interrupted_poll_ends_early:
  "map_sum id el_time (uv__io_poll 5 1 sample_loop_calls sample_kernel 6
     (sample_event_loop\<lparr>el_clock := [5000000, 7000000, 9000000]\<rparr>)) = Inr 9"
  by code_simp

text \<open>A loop that is stopped before it runs still runs its timers, but returns what held before them.\<close>

lemma stopped_run_returns_stale_result:
  "map_sum id (map_prod id uv__loop_alive) (uv_run 5 5 sample_loop_calls sample_kernel UV_RUN_DEFAULT
     (uv_stop (sample_event_loop\<lparr>el_clock := [10000000]\<rparr>))) = Inr (True, False)"
  by code_simp

section \<open>Sockets that are watched and closed\<close>

text \<open>A socket at address 5 gets descriptor 3 and waits for datagrams.\<close>

definition sample_unwatched :: "nat net" where
  "sample_unwatched = sample_net\<lparr>nt_udps := Map.empty, nt_calls := [0]\<rparr>"

definition sample_watching :: "nat net" where
  "sample_watching = projr (uv__io_start 5 POLLIN (set_udp 5 (sample_udp\<lparr>io_fd := 3\<rparr>) (set_udp 5 sample_udp sample_unwatched)))"

definition sample_polled :: "nat net" where
  "sample_polled = projr (register_watchers (nt_watcher_queue sample_watching) sample_watching)"

lemma projr_eq: "\<not> isl x \<Longrightarrow> x = Inr (projr x)"
  by (cases x) auto

lemma sample_watching_run: "socket_run sample_unwatched sample_watching"
proof -
  let ?n = "set_udp 5 sample_udp sample_unwatched"
  have "socket_run sample_unwatched sample_unwatched"
    by (rule at_start) (simp_all add: sample_unwatched_def sample_net_def)
  moreover have "socket_step sample_unwatched ?n"
    by (rule made [of _ _ "- 1" sample_udp]) (simp_all add: sample_unwatched_def uv__io_init_def check_def sample_udp_def)
  ultimately have "socket_run sample_unwatched ?n" by (rule and_then)
  moreover have "socket_step ?n (set_udp 5 (sample_udp\<lparr>io_fd := 3\<rparr>) ?n)"
    by (rule opened) (simp_all add: set_udp_def sample_udp_def unused_def sample_unwatched_def)
  ultimately have "socket_run sample_unwatched (set_udp 5 (sample_udp\<lparr>io_fd := 3\<rparr>) ?n)" by (rule and_then)
  moreover have "uv__io_start 5 POLLIN (set_udp 5 (sample_udp\<lparr>io_fd := 3\<rparr>) ?n) = Inr sample_watching"
    unfolding sample_watching_def by (rule projr_eq) code_simp
  then have "socket_step (set_udp 5 (sample_udp\<lparr>io_fd := 3\<rparr>) ?n) sample_watching" by (rule watched)
  ultimately show ?thesis by (rule and_then)
qed

lemma sample_polled: "register_watchers (nt_watcher_queue sample_watching) sample_watching = Inr sample_polled"
  unfolding sample_polled_def by (rule projr_eq) code_simp

lemma sample_polled_socket: "\<exists>u. nt_udps sample_polled 5 = Some u \<and> io_pevents u = POLLIN \<and> io_fd u = 3"
proof -
  have "map_option (\<lambda>u. (io_pevents u, io_fd u)) (nt_udps sample_polled 5) = Some (POLLIN, 3)" by code_simp
  then show ?thesis by auto
qed

text \<open>The same socket is closed while an event for it waits behind the one that is handed out.\<close>

definition sample_handing :: "nat net" where
  "sample_handing = sample_polled\<lparr>nt_calls := [0, 0], nt_batch := Some [(4, POLLIN), (3, POLLIN)]\<rparr>"

definition sample_shut :: "nat net" where
  "sample_shut = projr (uv__udp_close 5 sample_handing)"

lemma sample_shut: "uv__udp_close 5 sample_handing = Inr sample_shut"
  unfolding sample_shut_def by (rule projr_eq) code_simp

end
