(* ===== verification/Uv_Multicast.thy ===== *)
theory Uv_Multicast
  imports Uv_Udp
begin

text \<open>
  The rest of \<open>src/libuv/src/unix/udp.c\<close>: adopting a descriptor, the groups and the options of a socket, and its names.
  \<open>if_nametoindex\<close> is an argument. An \<open>enum\<close> parameter may have a value that it does not name.
\<close>

section \<open>Options\<close>

datatype uv_membership = UV_LEAVE_GROUP | UV_JOIN_GROUP | Other_Membership

definition setsockopt :: "int \<Rightarrow> sock_opt \<Rightarrow> 'cb net \<Rightarrow> (int \<times> 'cb net) res" where
  "setsockopt fd opt n =
     bindE (sys_call n) (\<lambda>(r, n). Inr (r, if r = 0 then n\<lparr>nt_options := nt_options n @ [(fd, opt)]\<rparr> else n))"

definition or_errno :: "(int \<times> 'cb net) res \<Rightarrow> (int \<times> 'cb net) res" where
  "or_errno r = bindE r (\<lambda>(r, n). Inr (if r \<noteq> 0 then UV__ERR (nt_errno n) else 0, n))"

definition uv__setsockopt :: "nat \<Rightarrow> sock_opt \<Rightarrow> sock_opt \<Rightarrow> 'cb net \<Rightarrow> (int \<times> 'cb net) res" where
  "uv__setsockopt p option4 option6 n =
     bindE (udp_at n p) (\<lambda>u. or_errno (setsockopt (io_fd u) (if ud_ipv6 u then option6 else option4) n))"

definition uv__setsockopt_maybe_char :: "nat \<Rightarrow> (int \<Rightarrow> sock_opt) \<Rightarrow> (int \<Rightarrow> sock_opt) \<Rightarrow> int \<Rightarrow> 'cb net \<Rightarrow> (int \<times> 'cb net) res" where
  "uv__setsockopt_maybe_char p option4 option6 val n =
     (if val < 0 \<or> val > 255 then Inr (UV_EINVAL, n) else uv__setsockopt p (option4 val) (option6 val) n)"

definition uv_udp_set_broadcast :: "nat \<Rightarrow> int \<Rightarrow> 'cb net \<Rightarrow> (int \<times> 'cb net) res" where
  "uv_udp_set_broadcast p on n = bindE (udp_at n p) (\<lambda>u. or_errno (setsockopt (io_fd u) (So_Broadcast on) n))"

definition uv_udp_set_ttl :: "nat \<Rightarrow> int \<Rightarrow> 'cb net \<Rightarrow> (int \<times> 'cb net) res" where
  "uv_udp_set_ttl p ttl n =
     (if ttl < 1 \<or> ttl > 255 then Inr (UV_EINVAL, n) else uv__setsockopt_maybe_char p Ip_Ttl Ipv6_Unicast_Hops ttl n)"

definition uv_udp_set_multicast_ttl :: "nat \<Rightarrow> int \<Rightarrow> 'cb net \<Rightarrow> (int \<times> 'cb net) res" where
  "uv_udp_set_multicast_ttl p ttl n = uv__setsockopt_maybe_char p Ip_Multicast_Ttl Ipv6_Multicast_Hops ttl n"

definition uv_udp_set_multicast_loop :: "nat \<Rightarrow> int \<Rightarrow> 'cb net \<Rightarrow> (int \<times> 'cb net) res" where
  "uv_udp_set_multicast_loop p on n = uv__setsockopt_maybe_char p Ip_Multicast_Loop Ipv6_Multicast_Loop on n"

text \<open>The interface is given by its address or, for IPv6, by the zone of one.\<close>

definition uv_udp_set_multicast_interface ::
    "(byte list \<Rightarrow> u32) \<Rightarrow> nat \<Rightarrow> byte list option \<Rightarrow> 'cb net \<Rightarrow> (int \<times> 'cb net) res" where
  "uv_udp_set_multicast_interface if_nametoindex p interface_addr n =
     bindE (udp_at n p) (\<lambda>u.
     bindE
       (case interface_addr of
          None \<Rightarrow> Inr (Some (if ud_ipv6 u then Ipv6_Multicast_If 0 else Ip_Multicast_If 0))
        | Some addr \<Rightarrow>
            bindE (uv_ip4_addr (Some addr) 0) (\<lambda>(err, addr4).
            if err = 0 then Inr (Some (Ip_Multicast_If (s_addr addr4)))
            else
              bindE (uv_ip6_addr if_nametoindex addr 0) (\<lambda>(err, addr6).
              Inr (if err = 0 then Some (Ipv6_Multicast_If (sin6_scope_id addr6)) else None)))) (\<lambda>opt.
     case opt of
       None \<Rightarrow> Inr (UV_EINVAL, n)
     | Some opt \<Rightarrow>
         bindE (setsockopt (io_fd u) opt n) (\<lambda>(r, n). Inr (if r = - 1 then UV__ERR (nt_errno n) else 0, n))))"

section \<open>Groups\<close>

text \<open>The option of a membership, joined or left.\<close>

definition with_membership :: "uv_membership \<Rightarrow> (bool \<Rightarrow> sock_opt) \<Rightarrow> nat \<Rightarrow> 'cb net \<Rightarrow> (int \<times> 'cb net) res" where
  "with_membership membership opt p n =
     (if membership = Other_Membership then Inr (UV_EINVAL, n)
      else bindE (udp_at n p) (\<lambda>u. or_errno (setsockopt (io_fd u) (opt (membership = UV_JOIN_GROUP)) n)))"

text \<open>The address of an interface, the one that stands for any when none is given.\<close>

definition interface4 :: "byte list option \<Rightarrow> (int + u32) res" where
  "interface4 interface_addr =
     (case interface_addr of
        None \<Rightarrow> Inr (Inr 0)
      | Some addr \<Rightarrow>
          bindE (uv_inet_pton AF_INET (Some addr)) (\<lambda>r.
          case r of Inl e \<Rightarrow> Inr (Inl e) | Inr bs \<Rightarrow> Inr (Inr (of_le32 (bs ! 0) (bs ! 1) (bs ! 2) (bs ! 3)))))"

definition interface6 :: "(byte list \<Rightarrow> u32) \<Rightarrow> byte list option \<Rightarrow> (int + u32) res" where
  "interface6 if_nametoindex interface_addr =
     (case interface_addr of
        None \<Rightarrow> Inr (Inr 0)
      | Some addr \<Rightarrow>
          bindE (uv_ip6_addr if_nametoindex addr 0) (\<lambda>(err, addr6).
          Inr (if err \<noteq> 0 then Inl err else Inr (sin6_scope_id addr6))))"

definition uv__udp_set_membership4 ::
    "nat \<Rightarrow> sockaddr_in \<Rightarrow> byte list option \<Rightarrow> uv_membership \<Rightarrow> 'cb net \<Rightarrow> (int \<times> 'cb net) res" where
  "uv__udp_set_membership4 p multicast_addr interface_addr membership n =
     bindE (interface4 interface_addr) (\<lambda>i.
     case i of
       Inl err \<Rightarrow> Inr (err, n)
     | Inr i \<Rightarrow> with_membership membership (\<lambda>join. Ip_Membership join (s_addr multicast_addr) i) p n)"

definition uv__udp_set_membership6 ::
    "(byte list \<Rightarrow> u32) \<Rightarrow> nat \<Rightarrow> sockaddr_in6 \<Rightarrow> byte list option \<Rightarrow> uv_membership \<Rightarrow> 'cb net \<Rightarrow> (int \<times> 'cb net) res" where
  "uv__udp_set_membership6 if_nametoindex p multicast_addr interface_addr membership n =
     bindE (interface6 if_nametoindex interface_addr) (\<lambda>i.
     case i of
       Inl err \<Rightarrow> Inr (UV_EINVAL, n)
     | Inr i \<Rightarrow> with_membership membership (\<lambda>join. Ipv6_Membership join (sin6_addr multicast_addr) i) p n)"

definition uv__udp_set_source_membership4 ::
    "nat \<Rightarrow> sockaddr_in \<Rightarrow> byte list option \<Rightarrow> sockaddr_in \<Rightarrow> uv_membership \<Rightarrow> 'cb net \<Rightarrow> (int \<times> 'cb net) res" where
  "uv__udp_set_source_membership4 p multicast_addr interface_addr source_addr membership n =
     unless_err (uv__udp_maybe_deferred_bind p AF_INET UV_UDP_REUSEADDR n) (\<lambda>n.
     bindE (interface4 interface_addr) (\<lambda>i.
     case i of
       Inl err \<Rightarrow> Inr (err, n)
     | Inr i \<Rightarrow>
         with_membership membership (\<lambda>join. Ip_Source_Membership join (s_addr multicast_addr) i (s_addr source_addr)) p n))"

definition uv__udp_set_source_membership6 ::
    "(byte list \<Rightarrow> u32) \<Rightarrow> nat \<Rightarrow> sockaddr_in6 \<Rightarrow> byte list option \<Rightarrow> sockaddr_in6 \<Rightarrow> uv_membership \<Rightarrow> 'cb net \<Rightarrow> (int \<times> 'cb net) res" where
  "uv__udp_set_source_membership6 if_nametoindex p multicast_addr interface_addr source_addr membership n =
     unless_err (uv__udp_maybe_deferred_bind p AF_INET6 UV_UDP_REUSEADDR n) (\<lambda>n.
     bindE (interface6 if_nametoindex interface_addr) (\<lambda>i.
     case i of
       Inl err \<Rightarrow> Inr (err, n)
     | Inr i \<Rightarrow> with_membership membership (\<lambda>join. Mcast_Source_Group join multicast_addr source_addr i) p n))"

definition uv_udp_set_membership ::
    "(byte list \<Rightarrow> u32) \<Rightarrow> nat \<Rightarrow> byte list \<Rightarrow> byte list option \<Rightarrow> uv_membership \<Rightarrow> 'cb net \<Rightarrow> (int \<times> 'cb net) res" where
  "uv_udp_set_membership if_nametoindex p multicast_addr interface_addr membership n =
     bindE (uv_ip4_addr (Some multicast_addr) 0) (\<lambda>(err, addr4).
     if err = 0 then
       unless_err (uv__udp_maybe_deferred_bind p AF_INET UV_UDP_REUSEADDR n) (\<lambda>n.
       uv__udp_set_membership4 p addr4 interface_addr membership n)
     else
       bindE (uv_ip6_addr if_nametoindex multicast_addr 0) (\<lambda>(err, addr6).
       if err = 0 then
         unless_err (uv__udp_maybe_deferred_bind p AF_INET6 UV_UDP_REUSEADDR n) (\<lambda>n.
         uv__udp_set_membership6 if_nametoindex p addr6 interface_addr membership n)
       else Inr (UV_EINVAL, n)))"

definition uv_udp_set_source_membership ::
    "(byte list \<Rightarrow> u32) \<Rightarrow> nat \<Rightarrow> byte list \<Rightarrow> byte list option \<Rightarrow> byte list \<Rightarrow> uv_membership \<Rightarrow> 'cb net \<Rightarrow> (int \<times> 'cb net) res" where
  "uv_udp_set_source_membership if_nametoindex p multicast_addr interface_addr source_addr membership n =
     bindE (uv_ip4_addr (Some multicast_addr) 0) (\<lambda>(err, mcast4).
     if err \<noteq> 0 then
       bindE (uv_ip6_addr if_nametoindex multicast_addr 0) (\<lambda>(err, mcast6).
       if err \<noteq> 0 then Inr (err, n)
       else
         bindE (uv_ip6_addr if_nametoindex source_addr 0) (\<lambda>(err, src6).
         if err \<noteq> 0 then Inr (err, n)
         else uv__udp_set_source_membership6 if_nametoindex p mcast6 interface_addr src6 membership n))
     else
       bindE (uv_ip4_addr (Some source_addr) 0) (\<lambda>(err, src4).
       if err \<noteq> 0 then Inr (err, n)
       else uv__udp_set_source_membership4 p mcast4 interface_addr src4 membership n))"

section \<open>Descriptors and names\<close>

text \<open>The name the kernel has for a descriptor, with its length, is an argument: that of the peer or of the socket.\<close>

definition UV_EBADF :: int where "UV_EBADF = -9"

definition uv_fileno :: "'cb uv_udp \<Rightarrow> int + int" where
  "uv_fileno u =
     (if \<not> ud_type_udp u then Inl UV_EINVAL
      else if ud_closing u \<or> ud_closed u \<or> io_fd u = - 1 then Inl UV_EBADF
      else Inr (io_fd u))"

definition uv__getsockpeername :: "(int \<Rightarrow> int + udp_addr \<times> nat) \<Rightarrow> 'cb uv_udp \<Rightarrow> int + udp_addr \<times> nat" where
  "uv__getsockpeername name u =
     (case uv_fileno u of
        Inl err \<Rightarrow> Inl err
      | Inr fd \<Rightarrow> (case name fd of Inl e \<Rightarrow> Inl (UV__ERR e) | Inr a \<Rightarrow> Inr a))"

definition uv_udp_getpeername :: "(int \<Rightarrow> int + udp_addr \<times> nat) \<Rightarrow> 'cb uv_udp \<Rightarrow> int + udp_addr \<times> nat" where
  "uv_udp_getpeername getpeername u = uv__getsockpeername getpeername u"

definition uv_udp_getsockname :: "(int \<Rightarrow> int + udp_addr \<times> nat) \<Rightarrow> 'cb uv_udp \<Rightarrow> int + udp_addr \<times> nat" where
  "uv_udp_getsockname getsockname u = uv__getsockpeername getsockname u"

definition uv__udp_is_connected :: "(int \<Rightarrow> int + udp_addr \<times> nat) \<Rightarrow> 'cb uv_udp \<Rightarrow> bool" where
  "uv__udp_is_connected getpeername u =
     (ud_type_udp u \<and> (case uv_udp_getpeername getpeername u of Inl e \<Rightarrow> False | Inr (a, addrlen) \<Rightarrow> addrlen > 0))"

definition uv_udp_open :: "(int \<Rightarrow> int + udp_addr \<times> nat) \<Rightarrow> nat \<Rightarrow> int \<Rightarrow> 'cb net \<Rightarrow> (int \<times> 'cb net) res" where
  "uv_udp_open getpeername p sock n =
     bindE (udp_at n p) (\<lambda>u.
     if io_fd u \<noteq> - 1 then Inr (UV_EBUSY, n)
     else
       bindE (uv__fd_exists n sock) (\<lambda>b.
       if b then Inr (UV_EEXIST, n)
       else
         unless_err (uv__nonblock n) (\<lambda>n.
         unless_err (uv__set_reuse n) (\<lambda>n.
         bindE (udp_at n p) (\<lambda>u.
         let u = u\<lparr>io_fd := sock\<rparr>
         in Inr (0, set_udp p (if uv__udp_is_connected getpeername u then u\<lparr>ud_connected := True\<rparr> else u) n))))))"

section \<open>The groups of a socket\<close>

text \<open>What the options that were set amount to: the groups that are joined, with their interface.\<close>

fun ip_groups :: "(int \<times> sock_opt) list \<Rightarrow> (int \<times> u32 \<times> u32) set" where
  "ip_groups [] = {}"
| "ip_groups ((fd, Ip_Membership j g i) # log) =
     (if j then insert (fd, g, i) (ip_groups log) else ip_groups log - {(fd, g, i)})"
| "ip_groups (x # log) = ip_groups log"

text \<open>An open socket and the text of an IPv4 group: success changes this membership and no other.\<close>

lemma set_membership_groups:
  assumes u: "nt_udps n p = Some u" "io_fd u \<noteq> - 1" and w: "c_str s = dotted_quad (le32 w)" and k: "\<forall>r \<in> set (nt_calls n). r \<le> 0"
    and r: "uv_udp_set_membership if_nametoindex p s None membership n = Inr (0, n')"
  shows "membership \<noteq> Other_Membership \<and>
    ip_groups (rev (nt_options n')) = (if membership = UV_JOIN_GROUP then insert (io_fd u, w, 0) (ip_groups (rev (nt_options n)))
      else ip_groups (rev (nt_options n)) - {(io_fd u, w, 0)})"
proof -
  have m: "with_membership membership (\<lambda>join. Ip_Membership join w 0) p n = Inr (0, n')"
    using r u by (simp add: uv_udp_set_membership_def uv_ip4_addr_text [OF w] unless_err_def uv__udp_maybe_deferred_bind_def
        uv__udp_set_membership4_def interface4_def udp_at_def)
  then have ne: "membership \<noteq> Other_Membership" by (auto simp: with_membership_def UV_EINVAL_def)
  with m u obtain r1 n1 where n1: "sys_call n = Inr (r1, n1)"
      "or_errno (Inr (r1, if r1 = 0 then n1\<lparr>nt_options := nt_options n1 @ [(io_fd u, Ip_Membership (membership = UV_JOIN_GROUP) w 0)]\<rparr> else n1)) = Inr (0, n')"
    by (auto simp: with_membership_def setsockopt_def udp_at_def or_errno_def bindE_eq_Inr_iff)
  have o: "nt_options n1 = nt_options n" "r1 \<noteq> 0 \<Longrightarrow> nt_errno n1 \<noteq> 0"
    using n1(1) k by (auto simp: sys_call_def Let_def split: list.splits if_splits)
  have "r1 = 0" using n1(2) o(2) by (auto simp: or_errno_def UV__ERR_def split: if_splits)
  then show ?thesis using n1(2) o(1) ne by (auto simp: or_errno_def)
qed

end
