(* ===== verification/Uv_Tree.thy ===== *)
theory Uv_Tree
  imports Prelude
begin

text \<open>
  The red-black trees of \<open>src/libuv/include/uv/tree.h\<close>, with their pointers. An address is a number, \<open>None\<close> is the null
  pointer, and \<open>rbh_nodes\<close> is the memory of the entries. The macros treat left and right by two branches that are
  mirror images of each other; here they are one branch with a side \<open>d\<close>, false for left. A loop that climbs or
  descends has a fuel. The comparison of the searched element with another is the argument \<open>cmp\<close>.
\<close>

section \<open>Entries\<close>

datatype rb_color = RB_BLACK | RB_RED

record rb_entry =
  rbe_left :: "nat option"
  rbe_right :: "nat option"
  rbe_parent :: "nat option"
  rbe_color :: rb_color

record rb_head =
  rbh_root :: "nat option"
  rbh_nodes :: "nat \<Rightarrow> rb_entry option"

definition RB_INIT :: "rb_head \<Rightarrow> rb_head" where
  "RB_INIT h = h\<lparr>rbh_root := None\<rparr>"

definition RB_EMPTY :: "rb_head \<Rightarrow> bool" where
  "RB_EMPTY h \<longleftrightarrow> rbh_root h = None"

definition entry_at :: "nat option \<Rightarrow> rb_head \<Rightarrow> rb_entry res" where
  "entry_at p h = bindE (or_fail Null_Deref p) (\<lambda>a. or_fail Use_After_Free (rbh_nodes h a))"

definition put_entry :: "nat \<Rightarrow> rb_entry \<Rightarrow> rb_head \<Rightarrow> rb_head" where
  "put_entry a e h = h\<lparr>rbh_nodes := (rbh_nodes h)(a \<mapsto> e)\<rparr>"

definition upd_entry :: "(rb_entry \<Rightarrow> rb_entry) \<Rightarrow> nat option \<Rightarrow> rb_head \<Rightarrow> rb_head res" where
  "upd_entry f p h = bindE (entry_at p h) (\<lambda>e. Inr (put_entry (the p) (f e) h))"

definition side :: "bool \<Rightarrow> rb_entry \<Rightarrow> nat option" where
  "side d e = (if d then rbe_right e else rbe_left e)"

definition with_side :: "bool \<Rightarrow> nat option \<Rightarrow> rb_entry \<Rightarrow> rb_entry" where
  "with_side d v e = (if d then e\<lparr>rbe_right := v\<rparr> else e\<lparr>rbe_left := v\<rparr>)"

definition rb_side :: "bool \<Rightarrow> nat option \<Rightarrow> rb_head \<Rightarrow> nat option res" where
  "rb_side d p h = bindE (entry_at p h) (\<lambda>e. Inr (side d e))"

definition rb_parent :: "nat option \<Rightarrow> rb_head \<Rightarrow> nat option res" where
  "rb_parent p h = bindE (entry_at p h) (\<lambda>e. Inr (rbe_parent e))"

definition rb_color_of :: "nat option \<Rightarrow> rb_head \<Rightarrow> rb_color res" where
  "rb_color_of p h = bindE (entry_at p h) (\<lambda>e. Inr (rbe_color e))"

definition set_side :: "bool \<Rightarrow> nat option \<Rightarrow> nat option \<Rightarrow> rb_head \<Rightarrow> rb_head res" where
  "set_side d v = upd_entry (with_side d v)"

definition set_rb_parent :: "nat option \<Rightarrow> nat option \<Rightarrow> rb_head \<Rightarrow> rb_head res" where
  "set_rb_parent v = upd_entry (\<lambda>e. e\<lparr>rbe_parent := v\<rparr>)"

definition set_rb_color :: "rb_color \<Rightarrow> nat option \<Rightarrow> rb_head \<Rightarrow> rb_head res" where
  "set_rb_color c = upd_entry (\<lambda>e. e\<lparr>rbe_color := c\<rparr>)"

definition RB_SET :: "nat option \<Rightarrow> nat option \<Rightarrow> rb_head \<Rightarrow> rb_head res" where
  "RB_SET elm parent =
     upd_entry (\<lambda>_. \<lparr>rbe_left = None, rbe_right = None, rbe_parent = parent, rbe_color = RB_RED\<rparr>) elm"

definition RB_SET_BLACKRED :: "nat option \<Rightarrow> nat option \<Rightarrow> rb_head \<Rightarrow> rb_head res" where
  "RB_SET_BLACKRED black red h = bindE (set_rb_color RB_BLACK black h) (set_rb_color RB_RED red)"

text \<open>Tests and assignments that are skipped for the null pointer.\<close>

definition is_red :: "nat option \<Rightarrow> rb_head \<Rightarrow> bool res" where
  "is_red p h = (if p = None then Inr False else bindE (rb_color_of p h) (\<lambda>c. Inr (c = RB_RED)))"

definition reparent :: "nat option \<Rightarrow> nat option \<Rightarrow> rb_head \<Rightarrow> rb_head res" where
  "reparent v p h = (if p = None then Inr h else set_rb_parent v p h)"

definition blacken :: "nat option \<Rightarrow> rb_head \<Rightarrow> rb_head res" where
  "blacken p h = (if p = None then Inr h else set_rb_color RB_BLACK p h)"

text \<open>\<open>new\<close> takes the place of \<open>old\<close> below \<open>up\<close>, or at the root.\<close>

definition replace_child :: "nat option \<Rightarrow> nat option \<Rightarrow> nat option \<Rightarrow> rb_head \<Rightarrow> rb_head res" where
  "replace_child up old new h =
     (if up = None then Inr (h\<lparr>rbh_root := new\<rparr>)
      else bindE (rb_side False up h) (\<lambda>l. set_side (l \<noteq> old) new up h))"

section \<open>Rotations\<close>

definition RB_ROTATE :: "bool \<Rightarrow> nat option \<Rightarrow> rb_head \<Rightarrow> rb_head res" where
  "RB_ROTATE d elm h =
     bindE (rb_side (\<not> d) elm h) (\<lambda>tmp.
     bindE (rb_side d tmp h) (\<lambda>sub.
     bindE (set_side (\<not> d) sub elm h) (\<lambda>h.
     bindE (reparent elm sub h) (\<lambda>h.
     bindE (rb_parent elm h) (\<lambda>up.
     bindE (set_rb_parent up tmp h) (\<lambda>h.
     bindE (replace_child up elm tmp h) (\<lambda>h.
     bindE (set_side d elm tmp h) (\<lambda>h.
     set_rb_parent tmp elm h))))))))"

definition RB_ROTATE_LEFT :: "nat option \<Rightarrow> rb_head \<Rightarrow> rb_head res" where
  "RB_ROTATE_LEFT = RB_ROTATE False"

definition RB_ROTATE_RIGHT :: "nat option \<Rightarrow> rb_head \<Rightarrow> rb_head res" where
  "RB_ROTATE_RIGHT = RB_ROTATE True"

section \<open>Restoring the colours\<close>

text \<open>\<open>d\<close> is the side of the parent below the grandparent.\<close>

fun RB_INSERT_COLOR :: "nat \<Rightarrow> nat option \<Rightarrow> rb_head \<Rightarrow> rb_head res" where
  "RB_INSERT_COLOR 0 elm h = Inl Diverges"
| "RB_INSERT_COLOR (Suc fuel) elm h =
     bindE (rb_parent elm h) (\<lambda>parent.
     bindE (is_red parent h) (\<lambda>r.
     if \<not> r then set_rb_color RB_BLACK (rbh_root h) h
     else
       bindE (rb_parent parent h) (\<lambda>gparent.
       bindE (rb_side False gparent h) (\<lambda>l.
       let d = (parent \<noteq> l) in
       bindE (rb_side (\<not> d) gparent h) (\<lambda>tmp.
       bindE (is_red tmp h) (\<lambda>r.
       if r then
         bindE (set_rb_color RB_BLACK tmp h) (\<lambda>h.
         bindE (RB_SET_BLACKRED parent gparent h) (RB_INSERT_COLOR fuel gparent))
       else
         bindE (rb_side (\<not> d) parent h) (\<lambda>inner.
         bindE (if inner = elm then RB_ROTATE d parent h else Inr h) (\<lambda>h.
         let (parent, elm) = (if inner = elm then (elm, parent) else (parent, elm)) in
         bindE (RB_SET_BLACKRED parent gparent h) (\<lambda>h.
         bindE (RB_ROTATE (\<not> d) gparent h) (RB_INSERT_COLOR fuel elm))))))))))"

text \<open>\<open>elm\<close>, on the side \<open>d\<close> of \<open>parent\<close>, lacks a black entry above it.\<close>

definition black_children :: "nat option \<Rightarrow> rb_head \<Rightarrow> bool res" where
  "black_children tmp h =
     bindE (rb_side False tmp h) (\<lambda>l.
     bindE (is_red l h) (\<lambda>r.
     if r then Inr False
     else bindE (rb_side True tmp h) (\<lambda>r. bindE (is_red r h) (\<lambda>r. Inr (\<not> r)))))"

text \<open>
  The sibling \<open>tmp\<close> of \<open>elm\<close> is black. Either it becomes red and the loop goes on \<open>again\<close> with the parent, or its red child
  makes up for what is missing.
\<close>

definition fix_sibling ::
    "(nat option \<Rightarrow> nat option \<Rightarrow> rb_head \<Rightarrow> rb_head res) \<Rightarrow> bool \<Rightarrow> nat option \<Rightarrow> nat option \<Rightarrow> rb_head \<Rightarrow> rb_head res" where
  "fix_sibling again d parent tmp h =
     bindE (black_children tmp h) (\<lambda>b.
     if b then
       bindE (set_rb_color RB_RED tmp h) (\<lambda>h.
       bindE (rb_parent parent h) (\<lambda>up. again up parent h))
     else
       bindE (rb_side (\<not> d) tmp h) (\<lambda>far.
       bindE (is_red far h) (\<lambda>r.
       bindE
         (if \<not> r then
            bindE (rb_side d tmp h) (\<lambda>near.
            bindE (blacken near h) (\<lambda>h.
            bindE (set_rb_color RB_RED tmp h) (\<lambda>h.
            bindE (RB_ROTATE (\<not> d) tmp h) (\<lambda>h.
            bindE (rb_side (\<not> d) parent h) (\<lambda>tmp. Inr (tmp, h))))))
          else Inr (tmp, h)) (\<lambda>(tmp, h).
       bindE (rb_color_of parent h) (\<lambda>c.
       bindE (set_rb_color c tmp h) (\<lambda>h.
       bindE (set_rb_color RB_BLACK parent h) (\<lambda>h.
       bindE (rb_side (\<not> d) tmp h) (\<lambda>far.
       bindE (blacken far h) (\<lambda>h.
       bindE (RB_ROTATE d parent h) (\<lambda>h. blacken (rbh_root h) h))))))))))"

fun RB_REMOVE_COLOR :: "nat \<Rightarrow> nat option \<Rightarrow> nat option \<Rightarrow> rb_head \<Rightarrow> rb_head res" where
  "RB_REMOVE_COLOR 0 parent elm h = Inl Diverges"
| "RB_REMOVE_COLOR (Suc fuel) parent elm h =
     bindE (is_red elm h) (\<lambda>r.
     if r \<or> elm = rbh_root h then blacken elm h
     else
       bindE (rb_side False parent h) (\<lambda>l.
       let d = (l \<noteq> elm) in
       bindE (rb_side (\<not> d) parent h) (\<lambda>tmp.
       bindE (rb_color_of tmp h) (\<lambda>c.
       if c = RB_RED then
         bindE (RB_SET_BLACKRED tmp parent h) (\<lambda>h.
         bindE (RB_ROTATE d parent h) (\<lambda>h.
         bindE (rb_side (\<not> d) parent h) (\<lambda>tmp. fix_sibling (RB_REMOVE_COLOR fuel) d parent tmp h)))
       else fix_sibling (RB_REMOVE_COLOR fuel) d parent tmp h))))"

section \<open>Walking\<close>

fun descend :: "nat \<Rightarrow> bool \<Rightarrow> nat option \<Rightarrow> rb_head \<Rightarrow> nat option res" where
  "descend 0 d elm h = Inl Diverges"
| "descend (Suc fuel) d elm h =
     bindE (rb_side d elm h) (\<lambda>c. if c = None then Inr elm else descend fuel d c h)"

fun climb :: "nat \<Rightarrow> bool \<Rightarrow> nat option \<Rightarrow> rb_head \<Rightarrow> nat option res" where
  "climb 0 d elm h = Inl Diverges"
| "climb (Suc fuel) d elm h =
     bindE (rb_parent elm h) (\<lambda>up.
     bindE (if up = None then Inr False else bindE (rb_side d up h) (\<lambda>c. Inr (c = elm))) (\<lambda>b.
     if b then climb fuel d up h else Inr up))"

definition rb_step :: "nat \<Rightarrow> bool \<Rightarrow> nat option \<Rightarrow> rb_head \<Rightarrow> nat option res" where
  "rb_step fuel d elm h =
     bindE (rb_side d elm h) (\<lambda>c.
     if c \<noteq> None then descend fuel (\<not> d) c h
     else
       bindE (rb_parent elm h) (\<lambda>up.
       bindE (if up = None then Inr False else bindE (rb_side (\<not> d) up h) (\<lambda>c. Inr (c = elm))) (\<lambda>b.
       if b then Inr up else climb fuel d elm h)))"

definition RB_NEXT :: "nat \<Rightarrow> nat option \<Rightarrow> rb_head \<Rightarrow> nat option res" where
  "RB_NEXT fuel = rb_step fuel True"

definition RB_PREV :: "nat \<Rightarrow> nat option \<Rightarrow> rb_head \<Rightarrow> nat option res" where
  "RB_PREV fuel = rb_step fuel False"

fun minmax_loop :: "nat \<Rightarrow> int \<Rightarrow> nat option \<Rightarrow> nat option \<Rightarrow> rb_head \<Rightarrow> nat option res" where
  "minmax_loop 0 val tmp parent h = Inl Diverges"
| "minmax_loop (Suc fuel) val tmp parent h =
     (if tmp = None then Inr parent else bindE (rb_side (val \<ge> 0) tmp h) (\<lambda>c. minmax_loop fuel val c tmp h))"

definition RB_MINMAX :: "nat \<Rightarrow> int \<Rightarrow> rb_head \<Rightarrow> nat option res" where
  "RB_MINMAX fuel val h = minmax_loop fuel val (rbh_root h) None h"

definition RB_NEGINF :: int where "RB_NEGINF = - 1"

definition RB_INF :: int where "RB_INF = 1"

section \<open>Searching\<close>

fun find_loop :: "nat \<Rightarrow> (nat \<Rightarrow> int res) \<Rightarrow> nat option \<Rightarrow> rb_head \<Rightarrow> nat option res" where
  "find_loop 0 cmp tmp h = Inl Diverges"
| "find_loop (Suc fuel) cmp tmp h =
     (case tmp of
        None \<Rightarrow> Inr None
      | Some a \<Rightarrow>
          bindE (cmp a) (\<lambda>c.
          if c = 0 then Inr tmp else bindE (rb_side (c > 0) tmp h) (\<lambda>t. find_loop fuel cmp t h)))"

definition RB_FIND :: "nat \<Rightarrow> (nat \<Rightarrow> int res) \<Rightarrow> rb_head \<Rightarrow> nat option res" where
  "RB_FIND fuel cmp h = find_loop fuel cmp (rbh_root h) h"

fun nfind_loop :: "nat \<Rightarrow> (nat \<Rightarrow> int res) \<Rightarrow> nat option \<Rightarrow> nat option \<Rightarrow> rb_head \<Rightarrow> nat option res" where
  "nfind_loop 0 cmp tmp r h = Inl Diverges"
| "nfind_loop (Suc fuel) cmp tmp r h =
     (case tmp of
        None \<Rightarrow> Inr r
      | Some a \<Rightarrow>
          bindE (cmp a) (\<lambda>c.
          if c = 0 then Inr tmp
          else bindE (rb_side (c > 0) tmp h) (\<lambda>t. nfind_loop fuel cmp t (if c < 0 then tmp else r) h)))"

definition RB_NFIND :: "nat \<Rightarrow> (nat \<Rightarrow> int res) \<Rightarrow> rb_head \<Rightarrow> nat option res" where
  "RB_NFIND fuel cmp h = nfind_loop fuel cmp (rbh_root h) None h"

section \<open>Insertion and removal\<close>

text \<open>The entry that compares equal, if any, and otherwise the last one on the way with its comparison.\<close>

fun insert_loop ::
    "nat \<Rightarrow> (nat \<Rightarrow> int res) \<Rightarrow> nat option \<Rightarrow> nat option \<Rightarrow> int \<Rightarrow> rb_head \<Rightarrow> (nat option \<times> nat option \<times> int) res" where
  "insert_loop 0 cmp tmp parent c h = Inl Diverges"
| "insert_loop (Suc fuel) cmp tmp parent c h =
     (case tmp of
        None \<Rightarrow> Inr (None, parent, c)
      | Some a \<Rightarrow>
          bindE (cmp a) (\<lambda>c.
          if c = 0 then Inr (tmp, tmp, c)
          else bindE (rb_side (c > 0) tmp h) (\<lambda>t. insert_loop fuel cmp t tmp c h)))"

definition RB_INSERT :: "nat \<Rightarrow> (nat \<Rightarrow> int res) \<Rightarrow> nat option \<Rightarrow> rb_head \<Rightarrow> (nat option \<times> rb_head) res" where
  "RB_INSERT fuel cmp elm h =
     bindE (insert_loop fuel cmp (rbh_root h) None 0 h) (\<lambda>(found, parent, c).
     if found \<noteq> None then Inr (found, h)
     else
       bindE (RB_SET elm parent h) (\<lambda>h.
       bindE (if parent \<noteq> None then set_side (\<not> c < 0) elm parent h else Inr (h\<lparr>rbh_root := elm\<rparr>)) (\<lambda>h.
       bindE (RB_INSERT_COLOR fuel elm h) (\<lambda>h. Inr (None, h)))))"

text \<open>From the label \<open>color\<close> on.\<close>

definition remove_end :: "nat \<Rightarrow> rb_color \<Rightarrow> nat option \<Rightarrow> nat option \<Rightarrow> rb_head \<Rightarrow> rb_head res" where
  "remove_end fuel color parent child h =
     (if color = RB_BLACK then RB_REMOVE_COLOR fuel parent child h else Inr h)"

text \<open>An entry with at most one child, from the last \<open>parent = RB_PARENT(elm, field)\<close> on.\<close>

definition remove_single :: "nat \<Rightarrow> nat option \<Rightarrow> nat option \<Rightarrow> rb_head \<Rightarrow> rb_head res" where
  "remove_single fuel elm child h =
     bindE (entry_at elm h) (\<lambda>e.
     bindE (reparent (rbe_parent e) child h) (\<lambda>h.
     bindE (replace_child (rbe_parent e) elm child h) (remove_end fuel (rbe_color e) (rbe_parent e) child)))"

text \<open>\<open>elm\<close>, which is not linked any more, takes the place of \<open>old\<close>.\<close>

definition take_place :: "nat option \<Rightarrow> nat option \<Rightarrow> rb_head \<Rightarrow> rb_head res" where
  "take_place old elm h =
     bindE (entry_at old h) (\<lambda>e.
     bindE (upd_entry (\<lambda>_. e) elm h) (\<lambda>h.
     bindE (rb_parent old h) (\<lambda>up.
     bindE (replace_child up old elm h) (\<lambda>h.
     bindE (rb_side False old h) (\<lambda>l.
     bindE (set_rb_parent elm l h) (\<lambda>h.
     bindE (rb_side True old h) (\<lambda>r. reparent elm r h)))))))"

text \<open>The macro also returns \<open>old\<close>, the address it is given.\<close>

definition RB_REMOVE :: "nat \<Rightarrow> nat option \<Rightarrow> rb_head \<Rightarrow> rb_head res" where
  "RB_REMOVE fuel old h =
     bindE (rb_side False old h) (\<lambda>l.
     bindE (rb_side True old h) (\<lambda>r.
     if l = None then remove_single fuel old r h
     else if r = None then remove_single fuel old l h
     else
       bindE (descend fuel False r h) (\<lambda>elm.
       bindE (entry_at elm h) (\<lambda>e.
       let child = rbe_right e; parent = rbe_parent e in
       bindE (reparent parent child h) (\<lambda>h.
       bindE (replace_child parent elm child h) (\<lambda>h.
       bindE (rb_parent elm h) (\<lambda>up.
       bindE (take_place old elm h)
         (remove_end fuel (rbe_color e) (if up = old then elm else parent) child))))))))"

end
