(* ===== verification/Uv_Tree_Links.thy ===== *)
theory Uv_Tree_Links
  imports Uv_Tree Uv_Heap_Tree
begin

text \<open>
  The pointers of a red-black tree as a tree of addresses and colours, and what the elementary operations do to it.
  Trees with a hole are those of \<open>Uv_Heap_Tree\<close>.
\<close>

type_synonym rb_tree = "(nat \<times> rb_color) tree"
type_synonym rb_ctx = "(nat \<times> rb_color) ctx"

section \<open>Sides\<close>

text \<open>An entry with \<open>v\<close> on the side \<open>d\<close> and \<open>w\<close> on the other, and a tree with \<open>t\<close> on the side \<open>d\<close> and \<open>s\<close> on the other.\<close>

definition entry :: "bool \<Rightarrow> nat option \<Rightarrow> nat option \<Rightarrow> nat option \<Rightarrow> rb_color \<Rightarrow> rb_entry" where
  "entry d v w up c = \<lparr>rbe_left = (if d then w else v), rbe_right = (if d then v else w), rbe_parent = up, rbe_color = c\<rparr>"

lemma entry_simps [simp]:
  "side d (entry d' v w up c) = (if d = d' then v else w)"
  "with_side d x (entry d' v w up c) = (if d = d' then entry d' x w up c else entry d' v x up c)"
  "rbe_left (entry d' v w up c) = (if d' then w else v)" "rbe_right (entry d' v w up c) = (if d' then v else w)"
  "rbe_parent (entry d' v w up c) = up" "rbe_color (entry d' v w up c) = c"
  "rbe_parent_update f (entry d' v w up c) = entry d' v w (f up) c"
  "rbe_color_update g (entry d' v w up c) = entry d' v w up (g c)"
  by (simp_all add: entry_def side_def with_side_def)

lemma entry_flip: "entry (\<not> d) v w up c = entry d w v up c"
  by (simp add: entry_def)

definition branch :: "bool \<Rightarrow> 'a tree \<Rightarrow> 'a \<Rightarrow> 'a tree \<Rightarrow> 'a tree" where
  "branch d t p s = (if d then Node s p t else Node t p s)"

lemma branch_flip: "branch (\<not> d) t p s = branch d s p t"
  by (simp add: branch_def)

lemma Node_branch: "Node l p r = branch False l p r"
  by (simp add: branch_def)

lemma branch_cases: "t = Leaf \<or> (\<exists>u p s. t = branch d u p s)"
  by (cases t; cases d) (auto simp: branch_def)

lemma plug_branch: "plug ((d, p, s) # cs) t = plug cs (branch d t p s)"
  by (simp add: branch_def)

lemma branch_not_Leaf [simp]: "branch d t p s \<noteq> Leaf" "Leaf \<noteq> branch d t p s"
  by (simp_all add: branch_def)

section \<open>Links\<close>

fun rb_root :: "rb_tree \<Rightarrow> nat option" where
  "rb_root Leaf = None"
| "rb_root (Node l x r) = Some (fst x)"

fun rb_linked :: "(nat \<Rightarrow> rb_entry option) \<Rightarrow> nat option \<Rightarrow> rb_tree \<Rightarrow> bool" where
  "rb_linked m up Leaf \<longleftrightarrow> True"
| "rb_linked m up (Node l (x, c) r) \<longleftrightarrow>
     m x = Some (entry False (rb_root l) (rb_root r) up c) \<and> rb_linked m (Some x) l \<and> rb_linked m (Some x) r"

fun rb_up :: "rb_ctx \<Rightarrow> nat option" where
  "rb_up [] = None"
| "rb_up ((d, p, s) # cs) = Some (fst p)"

fun rb_ctx_linked :: "(nat \<Rightarrow> rb_entry option) \<Rightarrow> nat option \<Rightarrow> rb_ctx \<Rightarrow> bool" where
  "rb_ctx_linked m hole [] \<longleftrightarrow> True"
| "rb_ctx_linked m hole ((d, (p, c), s) # cs) \<longleftrightarrow>
     m p = Some (entry d hole (rb_root s) (rb_up cs) c) \<and> rb_linked m (Some p) s \<and> rb_ctx_linked m (Some p) cs"

fun rb_ctx_root :: "nat option \<Rightarrow> rb_ctx \<Rightarrow> nat option" where
  "rb_ctx_root hole [] = hole"
| "rb_ctx_root hole ((d, p, s) # cs) = rb_ctx_root (Some (fst p)) cs"

definition addrs :: "rb_tree \<Rightarrow> nat list" where
  "addrs t = map fst (inorder t)"

definition ctx_addrs :: "rb_ctx \<Rightarrow> nat list" where
  "ctx_addrs cs = map fst (ctx_elems cs)"

lemma addrs_simps [simp]:
  "addrs Leaf = []" "addrs (Node l (x, c) r) = addrs l @ x # addrs r"
  "ctx_addrs [] = []" "ctx_addrs ((d, (x, c), s) # cs) = x # addrs s @ ctx_addrs cs"
  by (simp_all add: addrs_def ctx_addrs_def)

lemma addrs_branch: "addrs (branch d t (x, c) s) = (if d then addrs s @ x # addrs t else addrs t @ x # addrs s)"
  by (simp add: branch_def)

lemma set_addrs_branch [simp]: "set (addrs (branch d t (x, c) s)) = insert x (set (addrs t) \<union> set (addrs s))"
  by (auto simp: branch_def)

lemma distinct_branch [simp]:
  "distinct (addrs (branch d t (x, c) s)) \<longleftrightarrow> distinct (addrs t) \<and> distinct (addrs s) \<and> x \<notin> set (addrs t) \<and>
     x \<notin> set (addrs s) \<and> set (addrs t) \<inter> set (addrs s) = {}"
  by (auto simp: branch_def)

lemma mset_addrs_plug: "mset (addrs (plug cs t)) = mset (addrs t) + mset (ctx_addrs cs)"
  using mset_plug [of cs t] by (simp add: addrs_def ctx_addrs_def)

lemma set_addrs_plug: "set (addrs (plug cs t)) = set (addrs t) \<union> set (ctx_addrs cs)"
  using mset_addrs_plug [of cs t] by (metis set_mset_mset set_mset_union)

lemma distinct_addrs_plug:
  "distinct (addrs (plug cs t)) \<longleftrightarrow> distinct (addrs t) \<and> distinct (ctx_addrs cs) \<and> set (addrs t) \<inter> set (ctx_addrs cs) = {}"
proof -
  have "mset (addrs (plug cs t)) = mset (addrs t @ ctx_addrs cs)" by (simp add: mset_addrs_plug)
  then have "distinct (addrs (plug cs t)) \<longleftrightarrow> distinct (addrs t @ ctx_addrs cs)" by (rule mset_eq_imp_distinct_iff)
  then show ?thesis by simp
qed

lemma rb_root_branch [simp]: "rb_root (branch d t p s) = Some (fst p)"
  by (simp add: branch_def)

lemma rb_root_None [simp]: "rb_root t = None \<longleftrightarrow> t = Leaf" "None = rb_root t \<longleftrightarrow> t = Leaf"
  by (cases t; auto)+

lemma rb_root_in: "rb_root t = Some x \<Longrightarrow> x \<in> set (addrs t)"
  by (cases t) (auto simp: addrs_def)

lemma rb_linked_branch [simp]:
  "rb_linked m up (branch d t (x, c) s) \<longleftrightarrow>
     m x = Some (entry d (rb_root t) (rb_root s) up c) \<and> rb_linked m (Some x) t \<and> rb_linked m (Some x) s"
  by (cases d) (auto simp: branch_def entry_def)

lemma rb_linked_plug: "rb_linked m None (plug cs t) \<longleftrightarrow> rb_linked m (rb_up cs) t \<and> rb_ctx_linked m (rb_root t) cs"
proof (induction cs arbitrary: t)
  case (Cons c cs)
  obtain d x col s where "c = (d, (x, col), s)" by (cases c) auto
  with Cons [of "branch d t (x, col) s"] show ?case by (auto simp: plug_branch simp del: plug.simps)
qed simp

lemma rb_root_plug: "rb_root (plug cs t) = rb_ctx_root (rb_root t) cs"
proof (induction cs arbitrary: t)
  case (Cons c cs)
  obtain d p s where "c = (d, p, s)" by (cases c)
  with Cons [of "branch d t p s"] show ?case by (simp add: plug_branch del: plug.simps)
qed simp

lemma rb_linked_cong: "\<forall>x \<in> set (addrs t). m' x = m x \<Longrightarrow> rb_linked m' up t = rb_linked m up t"
proof (induction t arbitrary: up)
  case (Node l p r)
  then show ?case by (cases p) auto
qed simp

lemma rb_ctx_linked_cong: "\<forall>x \<in> set (ctx_addrs cs). m' x = m x \<Longrightarrow> rb_ctx_linked m' hole cs = rb_ctx_linked m hole cs"
proof (induction cs arbitrary: hole)
  case (Cons c cs)
  obtain d x col s where "c = (d, (x, col), s)" by (cases c) auto
  with Cons rb_linked_cong [of s m' m] show ?case by auto
qed simp

text \<open>The pointers stand for the tree.\<close>

definition rb_rep :: "rb_head \<Rightarrow> rb_tree \<Rightarrow> bool" where
  "rb_rep h t \<longleftrightarrow> distinct (addrs t) \<and> rbh_root h = rb_root t \<and> rb_linked (rbh_nodes h) None t"

lemma rb_rep_plug: "rb_rep h (plug cs t) \<longleftrightarrow>
    distinct (addrs t) \<and> distinct (ctx_addrs cs) \<and> set (addrs t) \<inter> set (ctx_addrs cs) = {} \<and>
    rbh_root h = rb_ctx_root (rb_root t) cs \<and> rb_linked (rbh_nodes h) (rb_up cs) t \<and>
    rb_ctx_linked (rbh_nodes h) (rb_root t) cs"
  by (simp add: rb_rep_def distinct_addrs_plug rb_root_plug rb_linked_plug conj_ac)

section \<open>Reading and writing\<close>

lemma entry_at_Some [simp]: "rbh_nodes h a = Some e \<Longrightarrow> entry_at (Some a) h = Inr e"
  by (simp add: entry_at_def)

lemma upd_entry_Some [simp]: "rbh_nodes h a = Some e \<Longrightarrow> upd_entry f (Some a) h = Inr (put_entry a (f e) h)"
  by (simp add: upd_entry_def)

lemma put_entry_simps [simp]:
  "rbh_nodes (put_entry a e h) = (rbh_nodes h)(a \<mapsto> e)" "rbh_root (put_entry a e h) = rbh_root h"
  by (simp_all add: put_entry_def)

lemmas rb_ops = rb_side_def rb_parent_def rb_color_of_def set_side_def set_rb_parent_def set_rb_color_def

text \<open>A step that changes no entries but some, and keeps the memory of all.\<close>

definition rb_frame :: "nat set \<Rightarrow> rb_head \<Rightarrow> rb_head \<Rightarrow> bool" where
  "rb_frame A h h' \<longleftrightarrow> (\<forall>y. y \<notin> A \<longrightarrow> rbh_nodes h' y = rbh_nodes h y) \<and> (\<forall>y. rbh_nodes h' y = None \<longleftrightarrow> rbh_nodes h y = None)"

lemma rb_frame_refl [simp]: "rb_frame A h h"
  by (simp add: rb_frame_def)

lemma rb_frame_trans: "rb_frame A h1 h2 \<Longrightarrow> rb_frame A h2 h3 \<Longrightarrow> rb_frame A h1 h3"
  by (simp add: rb_frame_def)

lemma rb_frame_mono: "rb_frame A h h' \<Longrightarrow> A \<subseteq> B \<Longrightarrow> rb_frame B h h'"
  by (auto simp: rb_frame_def)

lemma rb_frame_put: "rbh_nodes h a \<noteq> None \<Longrightarrow> a \<in> A \<Longrightarrow> rb_frame A h (put_entry a e h)"
  by (auto simp: rb_frame_def)

lemma rb_frame_same: "rb_frame A h h' \<Longrightarrow> y \<notin> A \<Longrightarrow> rbh_nodes h' y = rbh_nodes h y"
  by (simp add: rb_frame_def)

lemma rb_frame_linked: "rb_frame A h h' \<Longrightarrow> set (addrs t) \<inter> A = {} \<Longrightarrow> rb_linked (rbh_nodes h') up t = rb_linked (rbh_nodes h) up t"
  by (rule rb_linked_cong) (auto simp: rb_frame_def)

lemma rb_frame_ctx:
  "rb_frame A h h' \<Longrightarrow> set (ctx_addrs cs) \<inter> A = {} \<Longrightarrow> rb_ctx_linked (rbh_nodes h') hole cs = rb_ctx_linked (rbh_nodes h) hole cs"
  by (rule rb_ctx_linked_cong) (auto simp: rb_frame_def)

lemma reparent_linked:
  assumes "rb_linked (rbh_nodes h) up t" "distinct (addrs t)"
  shows "\<exists>h'. reparent v (rb_root t) h = Inr h' \<and> rb_linked (rbh_nodes h') v t \<and> rbh_root h' = rbh_root h \<and>
     rb_frame (set (addrs t)) h h'"
proof (cases t)
  case Leaf
  then show ?thesis by (simp add: reparent_def)
next
  case (Node l p r)
  obtain x c where p: "p = (x, c)" by (cases p)
  let ?h = "put_entry x (entry False (rb_root l) (rb_root r) v c) h"
  have "x \<notin> set (addrs l)" "x \<notin> set (addrs r)" using assms(2) by (auto simp: Node p)
  then have "rb_linked (rbh_nodes ?h) v t"
    using assms(1) rb_linked_cong [of l "rbh_nodes ?h" "rbh_nodes h"] rb_linked_cong [of r "rbh_nodes ?h" "rbh_nodes h"]
    by (auto simp: Node p)
  moreover have "reparent v (rb_root t) h = Inr ?h" "rb_frame (set (addrs t)) h ?h"
    using assms(1) by (auto simp: Node p reparent_def rb_ops rb_frame_def)
  ultimately show ?thesis by auto
qed

text \<open>Another tree, or none, in the hole of a context.\<close>

lemma replace_child_linked:
  assumes "rb_ctx_linked (rbh_nodes h) old cs" "distinct (ctx_addrs cs)" "\<And>a. old = Some a \<Longrightarrow> a \<notin> set (ctx_addrs cs)" "old \<noteq> None"
    and "rbh_root h = rb_ctx_root old cs"
  shows "\<exists>h'. replace_child (rb_up cs) old new h = Inr h' \<and> rb_ctx_linked (rbh_nodes h') new cs \<and>
     rbh_root h' = rb_ctx_root new cs \<and> rb_frame (set (ctx_addrs cs)) h h'"
proof (cases cs)
  case Nil
  then show ?thesis by (simp add: replace_child_def rb_frame_def)
next
  case (Cons c cs')
  obtain d x col s where c: "c = (d, (x, col), s)" by (cases c) auto
  let ?h = "put_entry x (entry d new (rb_root s) (rb_up cs') col) h"
  have m: "rbh_nodes h x = Some (entry d old (rb_root s) (rb_up cs') col)" and
    rest: "rb_linked (rbh_nodes h) (Some x) s" "rb_ctx_linked (rbh_nodes h) (Some x) cs'"
    using assms(1) by (auto simp: Cons c)
  have "rb_root s \<noteq> old" using assms(3,4) rb_root_in [of s] by (auto simp: Cons c)
  then have "replace_child (rb_up cs) old new h = Inr ?h"
    using m by (cases d) (auto simp: replace_child_def Cons c rb_ops)
  moreover have "x \<notin> set (addrs s)" "x \<notin> set (ctx_addrs cs')" using assms(2) by (auto simp: Cons c)
  then have "rb_ctx_linked (rbh_nodes ?h) new cs"
    using rest rb_linked_cong [of s "rbh_nodes ?h" "rbh_nodes h"] rb_ctx_linked_cong [of cs' "rbh_nodes ?h" "rbh_nodes h"]
    by (auto simp: Cons c)
  moreover have "rb_frame (set (ctx_addrs cs)) h ?h" using m by (auto simp: Cons c rb_frame_def)
  ultimately show ?thesis using assms(5) by (auto simp: Cons c)
qed

section \<open>Rotations\<close>

lemma RB_ROTATE_plug:
  assumes rep: "rb_rep h (plug cs (branch d a (x, cx) (branch d b (y, cy) c)))"
  shows "\<exists>h'. RB_ROTATE d (Some x) h = Inr h' \<and> rb_rep h' (plug cs (branch d (branch d a (x, cx) b) (y, cy) c)) \<and>
     rb_frame (set (addrs (plug cs (branch d a (x, cx) (branch d b (y, cy) c))))) h h'"
proof -
  let ?A = "set (addrs (plug cs (branch d a (x, cx) (branch d b (y, cy) c))))"
  have dist: "distinct (addrs a)" "distinct (addrs b)" "distinct (addrs c)" "distinct (ctx_addrs cs)"
    and neq: "x \<noteq> y" "x \<notin> set (addrs a)" "x \<notin> set (addrs b)" "x \<notin> set (addrs c)" "x \<notin> set (ctx_addrs cs)"
      "y \<notin> set (addrs a)" "y \<notin> set (addrs b)" "y \<notin> set (addrs c)" "y \<notin> set (ctx_addrs cs)"
    and disj: "set (addrs a) \<inter> set (addrs b) = {}" "set (addrs a) \<inter> set (addrs c) = {}" "set (addrs b) \<inter> set (addrs c) = {}"
      "set (addrs a) \<inter> set (ctx_addrs cs) = {}" "set (addrs b) \<inter> set (ctx_addrs cs) = {}" "set (addrs c) \<inter> set (ctx_addrs cs) = {}"
      "set (addrs c) \<inter> set (addrs b) = {}" "set (ctx_addrs cs) \<inter> set (addrs b) = {}"
    and root: "rbh_root h = rb_ctx_root (Some x) cs"
    and px: "rbh_nodes h x = Some (entry d (rb_root a) (Some y) (rb_up cs) cx)"
    and py: "rbh_nodes h y = Some (entry d (rb_root b) (rb_root c) (Some x) cy)"
    and lk: "rb_linked (rbh_nodes h) (Some x) a" "rb_linked (rbh_nodes h) (Some y) b" "rb_linked (rbh_nodes h) (Some y) c"
      "rb_ctx_linked (rbh_nodes h) (Some x) cs"
    using rep unfolding rb_rep_plug by auto
  have A: "x \<in> ?A" "y \<in> ?A" "set (addrs b) \<subseteq> ?A" "set (ctx_addrs cs) \<subseteq> ?A" by (auto simp: set_addrs_plug)
  define h1 where "h1 = put_entry x (entry d (rb_root a) (rb_root b) (rb_up cs) cx) h"
  have f1: "rb_frame {x} h h1" using px by (auto simp: h1_def rb_frame_def)
  have "rb_linked (rbh_nodes h1) (Some y) b" using rb_frame_linked [OF f1, of b] lk(2) neq by simp
  from reparent_linked [OF this dist(2), of "Some x"] obtain h2 where
    h2: "reparent (Some x) (rb_root b) h1 = Inr h2" "rb_linked (rbh_nodes h2) (Some x) b" "rbh_root h2 = rbh_root h1"
    and f2: "rb_frame (set (addrs b)) h1 h2" by blast
  have x2: "rbh_nodes h2 x = Some (entry d (rb_root a) (rb_root b) (rb_up cs) cx)"
    using rb_frame_same [OF f2] neq by (simp add: h1_def)
  have y2: "rbh_nodes h2 y = Some (entry d (rb_root b) (rb_root c) (Some x) cy)"
    using rb_frame_same [OF f2] neq py by (simp add: h1_def)
  define h3 where "h3 = put_entry y (entry d (rb_root b) (rb_root c) (rb_up cs) cy) h2"
  have f3: "rb_frame {y} h2 h3" using y2 by (auto simp: h3_def rb_frame_def)
  have "rb_ctx_linked (rbh_nodes h3) (Some x) cs"
    using rb_frame_ctx [OF f3, of cs] rb_frame_ctx [OF f2, of cs] rb_frame_ctx [OF f1, of cs] lk(4) neq disj by auto
  moreover have "rbh_root h3 = rb_ctx_root (Some x) cs" using h2(3) root by (simp add: h3_def h1_def)
  ultimately obtain h4 where
    h4: "replace_child (rb_up cs) (Some x) (Some y) h3 = Inr h4" "rb_ctx_linked (rbh_nodes h4) (Some y) cs"
      "rbh_root h4 = rb_ctx_root (Some y) cs" and f4: "rb_frame (set (ctx_addrs cs)) h3 h4"
    using replace_child_linked [OF _ dist(4), of h3 "Some x" "Some y"] neq by auto
  have x4: "rbh_nodes h4 x = Some (entry d (rb_root a) (rb_root b) (rb_up cs) cx)"
    and y4: "rbh_nodes h4 y = Some (entry d (rb_root b) (rb_root c) (rb_up cs) cy)"
    using rb_frame_same [OF f4] neq x2 by (simp_all add: h3_def)
  define h6 where "h6 = put_entry x (entry d (rb_root a) (rb_root b) (Some y) cx)
      (put_entry y (entry d (Some x) (rb_root c) (rb_up cs) cy) h4)"
  have f6: "rb_frame {x, y} h4 h6" using x4 y4 by (auto simp: h6_def rb_frame_def)
  have "RB_ROTATE d (Some x) h = Inr h6"
    using px py h2(1) x2 y2 h4(1) x4 y4 neq(1)
    by (simp add: RB_ROTATE_def rb_ops flip: h1_def) (simp add: h3_def [symmetric] h6_def)
  moreover have "rb_linked (rbh_nodes h6) (Some x) a"
    using rb_frame_linked [OF f1, of a] rb_frame_linked [OF f2, of a] rb_frame_linked [OF f3, of a]
      rb_frame_linked [OF f4, of a] rb_frame_linked [OF f6, of a] lk(1) neq disj by auto
  moreover have "rb_linked (rbh_nodes h6) (Some y) c"
    using rb_frame_linked [OF f1, of c] rb_frame_linked [OF f2, of c] rb_frame_linked [OF f3, of c]
      rb_frame_linked [OF f4, of c] rb_frame_linked [OF f6, of c] lk(3) neq disj by auto
  moreover have "rb_linked (rbh_nodes h6) (Some x) b"
    using rb_frame_linked [OF f3, of b] rb_frame_linked [OF f4, of b] rb_frame_linked [OF f6, of b] h2(2) neq disj by auto
  moreover have "rb_ctx_linked (rbh_nodes h6) (Some y) cs" using rb_frame_ctx [OF f6, of cs] h4(2) neq by auto
  ultimately have "RB_ROTATE d (Some x) h = Inr h6 \<and> rb_rep h6 (plug cs (branch d (branch d a (x, cx) b) (y, cy) c))"
    unfolding rb_rep_plug using dist neq disj h4(3) by (auto simp: h6_def)
  moreover have "rb_frame ?A h h6"
    by (meson rb_frame_trans rb_frame_mono [OF f1] rb_frame_mono [OF f2] rb_frame_mono [OF f3] rb_frame_mono [OF f4]
        rb_frame_mono [OF f6] A empty_subsetI insert_subset)
  ultimately show ?thesis by blast
qed

section \<open>Colours\<close>

fun paint :: "rb_color \<Rightarrow> rb_tree \<Rightarrow> rb_tree" where
  "paint c Leaf = Leaf"
| "paint c (Node l x r) = Node l (fst x, c) r"

fun red :: "rb_tree \<Rightarrow> bool" where
  "red Leaf \<longleftrightarrow> False"
| "red (Node l x r) \<longleftrightarrow> snd x = RB_RED"

lemma paint_branch [simp]: "paint c (branch d t x s) = branch d t (fst x, c) s"
  by (simp add: branch_def)

lemma red_branch [simp]: "red (branch d t x s) \<longleftrightarrow> snd x = RB_RED"
  by (simp add: branch_def)

lemma paint_simps [simp]: "rb_root (paint c t) = rb_root t" "addrs (paint c t) = addrs t"
  by (cases t; auto simp: addrs_def)+

lemma red_paint [simp]: "red (paint c t) \<longleftrightarrow> t \<noteq> Leaf \<and> c = RB_RED"
  by (cases t) auto

lemma set_rb_color_plug:
  assumes "rb_rep h (plug cs (branch d t (x, c) s))"
  shows "\<exists>h'. set_rb_color c' (Some x) h = Inr h' \<and> rb_rep h' (plug cs (branch d t (x, c') s)) \<and>
     rb_frame {x} h h'"
proof -
  let ?h = "put_entry x (entry d (rb_root t) (rb_root s) (rb_up cs) c') h"
  have px: "rbh_nodes h x = Some (entry d (rb_root t) (rb_root s) (rb_up cs) c)" using assms by (simp add: rb_rep_plug)
  then have f: "rb_frame {x} h ?h" by (auto simp: rb_frame_def)
  have "rb_rep ?h (plug cs (branch d t (x, c') s))"
    using assms rb_frame_linked [OF f, of t] rb_frame_linked [OF f, of s] rb_frame_ctx [OF f, of cs]
    unfolding rb_rep_plug by auto
  with f px show ?thesis by (auto simp: rb_ops)
qed

lemma set_color_root_plug:
  assumes "rb_rep h (plug cs t)" "t \<noteq> Leaf"
  shows "\<exists>h'. set_rb_color c (rb_root t) h = Inr h' \<and> rb_rep h' (plug cs (paint c t)) \<and> rb_frame (set (addrs t)) h h'"
proof -
  obtain l x col r where t: "t = branch False l (x, col) r" using assms(2) branch_cases [of t False] by fastforce
  from set_rb_color_plug [of h cs False l x col r c] assms(1) rb_frame_mono [of "{x}" h _ "set (addrs t)"] show ?thesis
    by (auto simp: t)
qed

lemma blacken_plug:
  assumes "rb_rep h (plug cs t)"
  shows "\<exists>h'. blacken (rb_root t) h = Inr h' \<and> rb_rep h' (plug cs (paint RB_BLACK t)) \<and> rb_frame (set (addrs t)) h h'"
proof (cases "t = Leaf")
  case False
  with set_color_root_plug [OF assms, of RB_BLACK] show ?thesis by (auto simp: blacken_def)
qed (use assms in \<open>simp add: blacken_def\<close>)

lemma is_red_root: "rb_linked (rbh_nodes h) up t \<Longrightarrow> is_red (rb_root t) h = Inr (red t)"
proof (cases t)
  case (Node l p r)
  then show "rb_linked (rbh_nodes h) up t \<Longrightarrow> is_red (rb_root t) h = Inr (red t)" by (cases p) (simp add: is_red_def rb_ops)
qed (simp add: is_red_def)

lemma plug_root_paint:
  assumes "rb_rep h T"
  shows "\<exists>h'. blacken (rbh_root h) h = Inr h' \<and> rb_rep h' (paint RB_BLACK T) \<and> rb_frame (set (addrs T)) h h'"
  using blacken_plug [of h "[]" T] assms by (simp add: rb_rep_def)

end
