(* ===== verification/Uv_Tree_Balance.thy ===== *)
theory Uv_Tree_Balance
  imports Uv_Tree_Links
begin

text \<open>
  Insertion and removal of an entry as functions on trees: what the two loops over colours make of a tree whose
  entry at the hole of a context is red below a red one, or lacks a black entry above it. The order of the entries
  stays, and the result is a red-black tree.
\<close>

section \<open>Red-black trees\<close>

text \<open>Every path to a leaf has \<open>n\<close> black entries, and no red entry has a red child.\<close>

fun rbt :: "nat \<Rightarrow> rb_tree \<Rightarrow> bool" where
  "rbt n Leaf \<longleftrightarrow> n = 0"
| "rbt n (Node l x r) \<longleftrightarrow>
     (if snd x = RB_RED then rbt n l \<and> rbt n r \<and> \<not> red l \<and> \<not> red r else 0 < n \<and> rbt (n - 1) l \<and> rbt (n - 1) r)"

definition red_black :: "rb_tree \<Rightarrow> bool" where
  "red_black t \<longleftrightarrow> \<not> red t \<and> (\<exists>n. rbt n t)"

fun up_black :: "rb_ctx \<Rightarrow> bool" where
  "up_black [] \<longleftrightarrow> False"
| "up_black ((d, x, s) # cs) \<longleftrightarrow> snd x = RB_BLACK"

fun ctx_rbt :: "nat \<Rightarrow> rb_ctx \<Rightarrow> bool" where
  "ctx_rbt n [] \<longleftrightarrow> True"
| "ctx_rbt n ((d, x, s) # cs) \<longleftrightarrow>
     rbt n s \<and> (if snd x = RB_RED then \<not> red s \<and> up_black cs \<and> ctx_rbt n cs else ctx_rbt (Suc n) cs)"

lemma rb_color_neq [simp]: "c \<noteq> RB_RED \<longleftrightarrow> c = RB_BLACK" "c \<noteq> RB_BLACK \<longleftrightarrow> c = RB_RED"
  by (cases c; simp)+

lemma rbt_branch [simp]:
  "rbt n (branch d t x s) \<longleftrightarrow>
     (if snd x = RB_RED then rbt n t \<and> rbt n s \<and> \<not> red t \<and> \<not> red s else 0 < n \<and> rbt (n - 1) t \<and> rbt (n - 1) s)"
  by (auto simp: branch_def)

lemma red_black_plug: "red_black (plug cs t) \<longleftrightarrow> (\<exists>n. rbt n t \<and> ctx_rbt n cs \<and> (red t \<longrightarrow> up_black cs))"
proof (induction cs arbitrary: t)
  case (Cons c cs)
  obtain d x s where c: "c = (d, x, s)" by (cases c)
  show ?case
  proof (cases "snd x = RB_RED")
    case True
    then show ?thesis using Cons [of "branch d t x s"] by (auto simp: c plug_branch simp del: plug.simps)
  next
    case False
    have "(\<exists>n. 0 < n \<and> rbt (n - 1) t \<and> rbt (n - 1) s \<and> ctx_rbt n cs) \<longleftrightarrow> (\<exists>n. rbt n t \<and> rbt n s \<and> ctx_rbt (Suc n) cs)"
      by (metis Suc_pred' diff_Suc_1 zero_less_Suc)
    with False show ?thesis using Cons [of "branch d t x s"] by (auto simp: c plug_branch simp del: plug.simps)
  qed
qed (auto simp: red_black_def)

lemma paint_black: "\<not> red t \<Longrightarrow> paint RB_BLACK t = t"
  by (cases t) (auto simp: prod_eq_iff)

lemma rbt_paint_black: "rbt n t \<Longrightarrow> red t \<Longrightarrow> rbt (Suc n) (paint RB_BLACK t)"
  by (cases t) auto

lemma red_black_paint: "rbt n t \<Longrightarrow> red_black (paint RB_BLACK t)"
proof (cases "red t")
  case True
  then show "rbt n t \<Longrightarrow> red_black (paint RB_BLACK t)" using rbt_paint_black by (auto simp: red_black_def)
qed (auto simp: red_black_def paint_black)

lemma rbt_Suc: "rbt (Suc n) t \<Longrightarrow> \<not> red t \<Longrightarrow> \<exists>near q far. t = branch d near (q, RB_BLACK) far \<and> rbt n near \<and> rbt n far"
  using branch_cases [of t d] by (cases "t = Leaf") fastforce+

lemma rbt_red: "rbt n t \<Longrightarrow> red t \<Longrightarrow> \<exists>near q far. t = branch d near (q, RB_RED) far \<and> rbt n near \<and> rbt n far \<and>
    \<not> red near \<and> \<not> red far"
  using branch_cases [of t d] by (cases "t = Leaf") fastforce+

section \<open>The order of the entries\<close>

fun before :: "rb_ctx \<Rightarrow> nat list" where
  "before [] = []"
| "before ((d, x, s) # cs) = before cs @ (if d then addrs s @ [fst x] else [])"

fun after :: "rb_ctx \<Rightarrow> nat list" where
  "after [] = []"
| "after ((d, x, s) # cs) = (if d then [] else fst x # addrs s) @ after cs"

lemma addrs_plug: "addrs (plug cs t) = before cs @ addrs t @ after cs"
proof (induction cs arbitrary: t)
  case (Cons c cs)
  obtain d x col s where "c = (d, (x, col), s)" by (cases c) auto
  then show ?case using Cons [of "branch d t (x, col) s"] by (simp add: plug_branch addrs_branch del: plug.simps)
qed simp

section \<open>After an insertion\<close>

fun ins_fix :: "rb_ctx \<Rightarrow> rb_tree \<Rightarrow> rb_tree" where
  "ins_fix [] t = paint RB_BLACK t"
| "ins_fix [(d, p, s)] t = paint RB_BLACK (branch d t p s)"
| "ins_fix ((d, p, s) # (e, g, u) # cs) t =
     (if snd p = RB_BLACK then paint RB_BLACK (plug ((d, p, s) # (e, g, u) # cs) t)
      else if red u then ins_fix cs (branch e (branch d t (fst p, RB_BLACK) s) (fst g, RB_RED) (paint RB_BLACK u))
      else
        paint RB_BLACK (plug cs
          (if d = e then branch e t (fst p, RB_BLACK) (branch e s (fst g, RB_RED) u)
           else
             case t of
               Leaf \<Rightarrow> Leaf
             | Node l x r \<Rightarrow>
                 branch e (branch e s (fst p, RB_RED) (if e then r else l)) (fst x, RB_BLACK)
                   (branch e (if e then l else r) (fst g, RB_RED) u))))"

lemma addrs_ins_fix: "t \<noteq> Leaf \<Longrightarrow> addrs (ins_fix cs t) = addrs (plug cs t)"
proof (induction cs t rule: ins_fix.induct)
  case (2 d p s t)
  then show ?case by (cases p) (simp add: plug_branch addrs_branch del: plug.simps(2))
next
  case (3 d p s e g u cs t)
  obtain x c y c' where pg: "p = (x, c)" "g = (y, c')" by (cases p, cases g)
  show ?case
  proof (cases "snd p = RB_BLACK \<or> \<not> red u")
    case True
    then show ?thesis using 3(2) pg
      by (cases t; cases d; cases e) (auto simp: addrs_plug branch_def)
  next
    case False
    then show ?thesis using 3(1) pg by (cases d; cases e) (simp_all add: addrs_plug branch_def)
  qed
qed (auto)

lemma ins_fix_ok: "rbt n t \<Longrightarrow> red t \<Longrightarrow> ctx_rbt n cs \<Longrightarrow> red_black (ins_fix cs t)"
proof (induction cs t arbitrary: n rule: ins_fix.induct)
  case (1 t)
  then show ?case by (simp add: red_black_paint)
next
  case (2 d p s t)
  then have "rbt (Suc n) (branch d t p s)" by (auto split: if_splits)
  then show ?case by (simp add: red_black_paint del: paint_branch)
next
  case (3 d p s e g u cs t)
  show ?case
  proof (cases "snd p = RB_BLACK")
    case True
    with 3 have "red_black (plug ((d, p, s) # (e, g, u) # cs) t)"
      unfolding red_black_plug by (intro exI [of _ n]) simp
    then show ?thesis using True by (simp add: red_black_def paint_black)
  next
    case False
    with 3 have f: "snd g = RB_BLACK" "rbt n s" "\<not> red s" "rbt n u" "ctx_rbt (Suc n) cs" by auto
    show ?thesis
    proof (cases "red u")
      case True
      have "rbt (Suc n) (paint RB_BLACK u)" using f(4) True by (rule rbt_paint_black)
      with True False f 3(2) show ?thesis by (auto intro!: "3.IH" [of "Suc n"])
    next
      case u: False
      let ?G = "if d = e then branch e t (fst p, RB_BLACK) (branch e s (fst g, RB_RED) u)
        else case t of Leaf \<Rightarrow> Leaf
             | Node l x r \<Rightarrow> branch e (branch e s (fst p, RB_RED) (if e then r else l)) (fst x, RB_BLACK)
                   (branch e (if e then l else r) (fst g, RB_RED) u)"
      have "rbt (Suc n) ?G \<and> \<not> red ?G" using 3(2,3) f u by (cases t; cases e) auto
      with f(5) have "red_black (plug cs ?G)" unfolding red_black_plug by blast
      then have "red_black (paint RB_BLACK (plug cs ?G))" by (simp add: red_black_def paint_black)
      with u False show ?thesis by simp
    qed
  qed
qed

section \<open>After a removal\<close>

fun sub :: "bool \<Rightarrow> rb_tree \<Rightarrow> rb_tree" where
  "sub d Leaf = Leaf"
| "sub d (Node l x r) = (if d then r else l)"

fun label :: "rb_tree \<Rightarrow> nat" where
  "label Leaf = 0"
| "label (Node l x r) = fst x"

lemma sub_branch [simp]: "sub d (branch e t x s) = (if d = e then t else s)" "label (branch e t x s) = fst x"
  by (auto simp: branch_def)

text \<open>\<open>s\<close> is the black sibling, \<open>k\<close> goes on with the tree that lacks a black entry now.\<close>

definition fix_tree :: "(rb_tree \<Rightarrow> rb_tree) \<Rightarrow> rb_ctx \<Rightarrow> bool \<Rightarrow> nat \<Rightarrow> rb_color \<Rightarrow> rb_tree \<Rightarrow> rb_tree \<Rightarrow> rb_tree" where
  "fix_tree k cs d p c s t =
     (let near = sub d s; far = sub (\<not> d) s in
      if \<not> red near \<and> \<not> red far then k (branch d t (p, c) (paint RB_RED s))
      else
        paint RB_BLACK (plug cs
          (if red far then branch d (branch d t (p, RB_BLACK) near) (label s, c) (paint RB_BLACK far)
           else branch d (branch d t (p, RB_BLACK) (sub d near)) (label near, c)
                  (branch d (sub (\<not> d) near) (label s, RB_BLACK) far))))"

fun del_fix :: "rb_ctx \<Rightarrow> rb_tree \<Rightarrow> rb_tree" where
  "del_fix [] t = paint RB_BLACK t"
| "del_fix ((d, p, s) # cs) t =
     (if red t then plug ((d, p, s) # cs) (paint RB_BLACK t)
      else if red s then
        let cs' = (d, (label s, RB_BLACK), sub (\<not> d) s) # cs
        in fix_tree (\<lambda>u. plug cs' (paint RB_BLACK u)) cs' d (fst p) RB_RED (sub d s) t
      else fix_tree (del_fix cs) cs d (fst p) (snd p) s t)"

text \<open>The tree in the hole lacks a black entry: it has \<open>n\<close>, or it is red and gets one by being painted.\<close>

definition short :: "nat \<Rightarrow> rb_tree \<Rightarrow> bool" where
  "short n t \<longleftrightarrow> (if red t then rbt (Suc n) (paint RB_BLACK t) else rbt n t)"

lemma red_black_fix_tree:
  assumes t: "rbt n t" "\<not> red t" and s: "rbt (Suc n) s" "\<not> red s"
    and cs: "if c = RB_RED then ctx_rbt (Suc n) cs \<and> up_black cs else ctx_rbt (Suc (Suc n)) cs"
    and k: "\<And>u. c = RB_RED \<Longrightarrow> red u \<Longrightarrow> rbt (Suc n) (paint RB_BLACK u) \<Longrightarrow> red_black (k u)"
      "\<And>u. c = RB_BLACK \<Longrightarrow> rbt (Suc n) u \<Longrightarrow> \<not> red u \<Longrightarrow> red_black (k u)"
  shows "red_black (fix_tree k cs d p c s t)"
proof -
  obtain near q far where sq: "s = branch d near (q, RB_BLACK) far" "rbt n near" "rbt n far"
    using rbt_Suc [OF s, of d] by blast
  consider "\<not> red near" "\<not> red far" | "red far" | "red near" "\<not> red far" by blast
  then show ?thesis
  proof cases
    case 1
    let ?u = "branch d t (p, c) (paint RB_RED s)"
    have "red_black (k ?u)"
    proof (cases c)
      case RB_BLACK
      then show ?thesis using k(2) [of ?u] t sq 1 by simp
    next
      case RB_RED
      then show ?thesis using k(1) [of ?u] t sq 1 by simp
    qed
    then show ?thesis using 1 sq by (simp add: fix_tree_def)
  next
    case 2
    let ?G = "branch d (branch d t (p, RB_BLACK) near) (q, c) (paint RB_BLACK far)"
    have "rbt (Suc n) (paint RB_BLACK far)" using 2 sq(3) rbt_paint_black by blast
    then have "rbt (if c = RB_RED then Suc n else Suc (Suc n)) ?G" using 2 t sq by auto
    then have "red_black (plug cs ?G)" unfolding red_black_plug using cs by (cases c) auto
    then show ?thesis using 2 sq by (simp add: fix_tree_def red_black_def paint_black)
  next
    case 3
    obtain na r nb where n: "near = branch d na (r, RB_RED) nb" "rbt n na" "rbt n nb"
      using rbt_red [OF sq(2) 3(1), of d] by blast
    let ?G = "branch d (branch d t (p, RB_BLACK) na) (r, c) (branch d nb (q, RB_BLACK) far)"
    have "rbt (if c = RB_RED then Suc n else Suc (Suc n)) ?G" using 3 t sq n by auto
    then have "red_black (plug cs ?G)" unfolding red_black_plug using cs by (cases c) auto
    then show ?thesis using 3 sq n by (simp add: fix_tree_def red_black_def paint_black)
  qed
qed

lemma del_fix_ok: "short n t \<Longrightarrow> ctx_rbt (Suc n) cs \<Longrightarrow> red_black (del_fix cs t)"
proof (induction cs arbitrary: n t)
  case Nil
  then show ?case by (cases "red t") (auto simp: short_def red_black_def red_black_paint [unfolded red_black_def])
next
  case (Cons c cs)
  obtain d p s where c: "c = (d, p, s)" by (cases c)
  show ?case
  proof (cases "red t")
    case True
    then have "red_black (plug ((d, p, s) # cs) (paint RB_BLACK t))"
      unfolding red_black_plug using Cons.prems by (intro exI [of _ "Suc n"]) (simp add: c short_def)
    with True show ?thesis by (simp add: c)
  next
    case False
    then have t: "rbt n t" "\<not> red t" using Cons.prems(1) by (simp_all add: short_def)
    show ?thesis
    proof (cases "red s")
      case True
      then have s: "snd p = RB_BLACK" "rbt (Suc n) s" "ctx_rbt (Suc (Suc n)) cs"
        using Cons.prems(2) by (auto simp: c split: if_splits)
      obtain v q w where sq: "s = branch d v (q, RB_RED) w" "rbt (Suc n) v" "rbt (Suc n) w" "\<not> red v" "\<not> red w"
        using rbt_red [OF s(2) True, of d] by blast
      let ?cs = "(d, (q, RB_BLACK), w) # cs"
      have "red_black (fix_tree (\<lambda>u. plug ?cs (paint RB_BLACK u)) ?cs d (fst p) RB_RED v t)"
      proof (rule red_black_fix_tree [OF t sq(2,4)])
        fix u assume "red u" "rbt (Suc n) (paint RB_BLACK u)"
        then show "red_black (plug ?cs (paint RB_BLACK u))"
          unfolding red_black_plug using sq s by (intro exI [of _ "Suc n"]) simp
      qed (use sq s in auto)
      with True False sq show ?thesis by (simp add: c)
    next
      case s: False
      have "red_black (fix_tree (del_fix cs) cs d (fst p) (snd p) s t)"
      proof (rule red_black_fix_tree [OF t _ s])
        fix u assume "snd p = RB_RED" "red u" "rbt (Suc n) (paint RB_BLACK u)"
        then show "red_black (del_fix cs u)" using Cons.prems(2) by (intro Cons.IH [of n]) (auto simp: short_def c)
      next
        fix u assume "snd p = RB_BLACK" "rbt (Suc n) u" "\<not> red u"
        then show "red_black (del_fix cs u)" using Cons.prems(2) by (intro Cons.IH [of "Suc n"]) (auto simp: short_def c)
      qed (use Cons.prems(2) in \<open>auto simp: c split: if_splits\<close>)
      with False s show ?thesis by (simp add: c)
    qed
  qed
qed

lemma addrs_fix_tree:
  assumes k: "\<And>u. addrs (k u) = addrs (plug cs u)"
  shows "addrs (fix_tree k cs d p c s t) = addrs (plug cs (branch d t (p, c') s))"
proof (cases "s = Leaf")
  case True
  then show ?thesis using k by (simp add: fix_tree_def addrs_plug addrs_branch)
next
  case False
  then obtain near q cq far where s: "s = branch d near (q, cq) far" using branch_cases [of s d] by fastforce
  show ?thesis
  proof (cases "near = Leaf")
    case True
    then show ?thesis using s k by (cases d) (auto simp: fix_tree_def addrs_plug addrs_branch Let_def)
  next
    case False
    then obtain na r cr nb where "near = branch d na (r, cr) nb" using branch_cases [of near d] by fastforce
    then show ?thesis using s k by (cases d) (auto simp: fix_tree_def addrs_plug addrs_branch Let_def)
  qed
qed

lemma addrs_del_fix: "addrs (del_fix cs t) = addrs (plug cs t)"
proof (induction cs arbitrary: t)
  case (Cons c cs)
  obtain d p cp s where c: "c = (d, (p, cp), s)" by (cases c) auto
  show ?case
  proof (cases "red t \<or> \<not> red s")
    case True
    then show ?thesis using Cons addrs_fix_tree [of "del_fix cs" cs d p cp s t cp]
      by (auto simp: c addrs_plug plug_branch addrs_branch simp del: plug.simps)
  next
    case False
    then obtain v q w where s: "s = branch d v (q, RB_RED) w" using branch_cases [of s d] by (cases "s = Leaf") fastforce+
    let ?cs = "(d, (q, RB_BLACK), w) # cs"
    have "addrs (fix_tree (\<lambda>u. plug ?cs (paint RB_BLACK u)) ?cs d p RB_RED v t) = addrs (plug ?cs (branch d t (p, RB_RED) v))"
      by (rule addrs_fix_tree) (simp add: addrs_plug)
    then show ?thesis using False by (cases d) (simp_all add: c s addrs_plug addrs_branch)
  qed
qed simp

end
