(* ===== verification/Uv_Tree_Colors.thy ===== *)
theory Uv_Tree_Colors
  imports Uv_Tree_Balance
begin

text \<open>The loops over the colours do to the pointers what \<open>ins_fix\<close> and \<open>del_fix\<close> do to the tree.\<close>

declare plug.simps(2) [simp del] RB_INSERT_COLOR.simps(2) [simp del] RB_REMOVE_COLOR.simps(2) [simp del]

section \<open>Steps\<close>

definition leads :: "rb_head res \<Rightarrow> nat set \<Rightarrow> rb_head \<Rightarrow> rb_tree \<Rightarrow> bool" where
  "leads r A h t \<longleftrightarrow> (\<exists>h'. r = Inr h' \<and> rb_rep h' t \<and> rb_frame A h h')"

lemma leads_bind:
  assumes "leads m A h t" "\<And>h'. rb_rep h' t \<Longrightarrow> rb_frame A h h' \<Longrightarrow> leads (f h') A h' t'"
  shows "leads (bindE m f) A h t'"
proof -
  obtain h1 where h1: "m = Inr h1" "rb_rep h1 t" "rb_frame A h h1" using assms(1) by (auto simp: leads_def)
  from assms(2) [OF this(2,3)] obtain h2 where "f h1 = Inr h2" "rb_rep h2 t'" "rb_frame A h1 h2" by (auto simp: leads_def)
  with h1 show ?thesis using rb_frame_trans by (auto simp: leads_def)
qed

lemma leads_Inr: "rb_rep h t \<Longrightarrow> leads (Inr h) A h t"
  by (simp add: leads_def)

lemma leads_rotate:
  assumes "rb_rep h (plug cs (branch d a (x, cx) (branch d b (y, cy) c)))"
    "set (addrs (plug cs (branch d a (x, cx) (branch d b (y, cy) c)))) \<subseteq> A"
  shows "leads (RB_ROTATE d (Some x) h) A h (plug cs (branch d (branch d a (x, cx) b) (y, cy) c))"
  using RB_ROTATE_plug [OF assms(1)] rb_frame_mono [OF _ assms(2)] unfolding leads_def by blast

lemma leads_color:
  assumes "rb_rep h (plug cs (branch d t (x, c) s))" "x \<in> A"
  shows "leads (set_rb_color c' (Some x) h) A h (plug cs (branch d t (x, c') s))"
  using set_rb_color_plug [OF assms(1)] rb_frame_mono [of "{x}" _ _ A] assms(2) unfolding leads_def by blast

lemma leads_blacken:
  assumes "rb_rep h (plug cs t)" "set (addrs t) \<subseteq> A"
  shows "leads (blacken (rb_root t) h) A h (plug cs (paint RB_BLACK t))"
  using blacken_plug [OF assms(1)] rb_frame_mono [OF _ assms(2)] unfolding leads_def by blast

lemma leads_blacken_root:
  assumes "rb_rep h t" "set (addrs t) \<subseteq> A"
  shows "leads (blacken (rbh_root h) h) A h (paint RB_BLACK t)"
  using plug_root_paint [OF assms(1)] rb_frame_mono [OF _ assms(2)] unfolding leads_def by blast

lemma rb_reads:
  assumes "rb_rep h (plug cs (branch d t (x, c) s))"
  shows "rb_side e (Some x) h = Inr (if e = d then rb_root t else rb_root s)" "rb_parent (Some x) h = Inr (rb_up cs)"
    "rb_color_of (Some x) h = Inr c" "is_red (rb_root t) h = Inr (red t)" "is_red (rb_root s) h = Inr (red s)"
    "is_red (Some x) h = Inr (c = RB_RED)"
  using assms is_red_root [of h _ t] is_red_root [of h _ s] by (auto simp: rb_rep_plug rb_ops is_red_def)

lemma rb_roots_differ:
  assumes "rb_rep h (plug cs (branch d t (x, c) s))"
  shows "rb_root t = rb_root s \<longleftrightarrow> t = Leaf \<and> s = Leaf" "rb_root t \<noteq> Some x" "rb_root s \<noteq> Some x"
proof -
  have d: "x \<notin> set (addrs t)" "x \<notin> set (addrs s)" "set (addrs t) \<inter> set (addrs s) = {}"
    using assms by (auto simp: rb_rep_plug)
  then show "rb_root t \<noteq> Some x" "rb_root s \<noteq> Some x" using rb_root_in [of t] rb_root_in [of s] by auto
  show "rb_root t = rb_root s \<longleftrightarrow> t = Leaf \<and> s = Leaf"
    using d(3) rb_root_in [of t] rb_root_in [of s] by (cases "rb_root t") (auto simp: disjoint_iff)
qed

lemma leads_blackred:
  assumes "rb_rep h (plug cs (branch d (branch e t (x, c) s) (y, c') u))" "x \<in> A" "y \<in> A"
  shows "leads (RB_SET_BLACKRED (Some x) (Some y) h) A h (plug cs (branch d (branch e t (x, RB_BLACK) s) (y, RB_RED) u))"
    "leads (RB_SET_BLACKRED (Some y) (Some x) h) A h (plug cs (branch d (branch e t (x, RB_RED) s) (y, RB_BLACK) u))"
proof -
  have f: "leads (set_rb_color k (Some x) h) A h (plug cs (branch d (branch e t (x, k) s) (y, l) u))"
    if "rb_rep h (plug cs (branch d (branch e t (x, c) s) (y, l) u))" for h k l
    using leads_color [of h "(d, (y, l), u) # cs" e t x c s A k] that assms(2) by (simp add: plug_branch)
  have g: "leads (set_rb_color k (Some y) h) A h (plug cs (branch d (branch e t (x, l) s) (y, k) u))"
    if "rb_rep h (plug cs (branch d (branch e t (x, l) s) (y, c') u))" for h k l
    using leads_color [OF that assms(3)] .
  show "leads (RB_SET_BLACKRED (Some x) (Some y) h) A h (plug cs (branch d (branch e t (x, RB_BLACK) s) (y, RB_RED) u))"
    unfolding RB_SET_BLACKRED_def by (rule leads_bind [OF f [OF assms(1)]]) (rule g)
  show "leads (RB_SET_BLACKRED (Some y) (Some x) h) A h (plug cs (branch d (branch e t (x, RB_RED) s) (y, RB_BLACK) u))"
    unfolding RB_SET_BLACKRED_def by (rule leads_bind [OF g [OF assms(1)]]) (rule f)
qed

section \<open>After an insertion\<close>

lemma rb_ctx_root_Some: "rb_ctx_root (Some x) cs \<noteq> None"
proof (induction cs arbitrary: x)
  case (Cons c cs)
  then show ?case by (cases c) simp
qed simp

lemma insert_color_end:
  assumes "rb_rep h (plug ((d, (p, RB_BLACK), s) # cs) (branch e l (x, c) r))" "0 < fuel"
    "set (addrs (plug ((d, (p, RB_BLACK), s) # cs) (branch e l (x, c) r))) \<subseteq> A"
  shows "leads (RB_INSERT_COLOR fuel (Some x) h) A h (paint RB_BLACK (plug ((d, (p, RB_BLACK), s) # cs) (branch e l (x, c) r)))"
proof -
  let ?T = "plug ((d, (p, RB_BLACK), s) # cs) (branch e l (x, c) r)"
  obtain k where k: "fuel = Suc k" using assms(2) by (cases fuel) simp_all
  have "rbh_root h \<noteq> None" using assms(1) rb_ctx_root_Some by (simp add: rb_rep_def rb_root_plug)
  then have "set_rb_color RB_BLACK (rbh_root h) h = blacken (rbh_root h) h" by (auto simp: blacken_def)
  moreover have "rb_parent (Some x) h = Inr (Some p)" using rb_reads(2) [OF assms(1)] by simp
  moreover have "is_red (Some p) h = Inr False"
    using assms(1) rb_reads(6) [of h cs d "branch e l (x, c) r" p RB_BLACK s] by (simp add: plug_branch)
  ultimately show ?thesis using leads_blacken_root [OF assms(1,3)] by (simp add: k RB_INSERT_COLOR.simps)
qed

lemma leads_insert_color:
  "rb_rep h (plug cs t) \<Longrightarrow> red t \<Longrightarrow> ctx_rbt n cs \<Longrightarrow> length cs < fuel \<Longrightarrow> set (addrs (plug cs t)) \<subseteq> A \<Longrightarrow>
   leads (RB_INSERT_COLOR fuel (rb_root t) h) A h (ins_fix cs t)"
proof (induction cs t arbitrary: n h fuel rule: ins_fix.induct)
  case (1 t)
  obtain l x r where t: "t = branch False l (x, RB_RED) r"
    using 1(2) branch_cases [of t False] by (cases "t = Leaf") fastforce+
  obtain k where k: "fuel = Suc k" using 1(4) by (cases fuel) simp_all
  have "rbh_root h = Some x" using 1(1) by (simp add: t rb_rep_def)
  moreover have "set_rb_color RB_BLACK (Some x) h = blacken (Some x) h" by (simp add: blacken_def)
  moreover have "rb_parent (Some x) h = Inr None" using 1(1) rb_reads(2) [of h "[]"] by (simp add: t)
  ultimately show ?case
    using leads_blacken_root [of h t A] 1(1,5) by (simp add: k t is_red_def RB_INSERT_COLOR.simps)
next
  case (2 d p s t)
  obtain l x r where t: "t = branch False l (x, RB_RED) r"
    using 2(2) branch_cases [of t False] by (cases "t = Leaf") fastforce+
  have "p = (fst p, RB_BLACK)" using 2(3) by (cases p) (auto split: if_splits)
  then obtain y where p: "p = (y, RB_BLACK)" by metis
  from insert_color_end [of h d y s "[]" False l x RB_RED r fuel A] 2(1,4,5) show ?case
    by (simp add: t p plug_branch)
next
  case (3 d p s e g u cs t)
  obtain l x r where t: "t = branch (\<not> e) l (x, RB_RED) r"
    using 3(3) branch_cases [of t "\<not> e"] by (cases "t = Leaf") fastforce+
  obtain y cy z cz where pg: "p = (y, cy)" "g = (z, cz)" by (cases p, cases g)
  obtain k where k: "fuel = Suc (Suc k)" using 3(5) by (cases fuel; cases "fuel - 1") auto
  show ?case
  proof (cases cy)
    case RB_BLACK
    with insert_color_end [of h d y s "(e, g, u) # cs" "\<not> e" l x RB_RED r fuel A] 3(2,5,6) show ?thesis
      by (simp add: t pg)
  next
    case RB_RED
    have cz: "cz = RB_BLACK" and n: "ctx_rbt (Suc n) cs" "rbt n u" using 3(4) by (auto simp: pg RB_RED)
    let ?P = "branch d t (y, RB_RED) s"
    have rep: "rb_rep h (plug cs (branch e ?P (z, RB_BLACK) u))" using 3(2) by (simp add: pg RB_RED cz plug_branch)
    have A: "set (addrs (plug cs (branch e ?P (z, RB_BLACK) u))) \<subseteq> A" using 3(6) by (simp add: pg RB_RED cz plug_branch)
    have in_A: "x \<in> A" "y \<in> A" "z \<in> A" using A by (auto simp: set_addrs_plug t)
    have repP: "rb_rep h (plug ((e, (z, RB_BLACK), u) # cs) ?P)" using rep by (simp add: plug_branch)
    have px: "rb_parent (Some x) h = Inr (Some y)" using rb_reads(2) [of h "(d, (y, RB_RED), s) # (e, (z, RB_BLACK), u) # cs"] repP
      by (simp add: t plug_branch)
    note py = rb_reads [OF repP] rb_roots_differ [OF repP] and pz = rb_reads [OF rep] rb_roots_differ [OF rep]
    have xs: "rb_root s \<noteq> Some x" using py(7) by (simp add: t)
    let ?tail = "\<lambda>h. bindE (rb_side (\<not> e) (Some y) h) (\<lambda>inner.
         bindE (if inner = Some x then RB_ROTATE e (Some y) h else Inr h) (\<lambda>h.
         let (parent, elm) = (if inner = Some x then (Some x, Some y) else (Some y, Some x)) in
         bindE (RB_SET_BLACKRED parent (Some z) h) (\<lambda>h.
         bindE (RB_ROTATE (\<not> e) (Some z) h) (RB_INSERT_COLOR (Suc k) elm))))"
    have "(Some y \<noteq> (if False = e then Some y else rb_root u)) = e" using pz(7) by (cases e) auto
    then obtain L where L: "rb_side False (Some z) h = Inr L" "(Some y \<noteq> L) = e" using pz(1) [of False] by auto
    have yr: "is_red (Some y) h = Inr True" using py(6) by simp
    have uz: "rb_side (\<not> e) (Some z) h = Inr (rb_root u)" using pz(1) [of "\<not> e"] by simp
    have start: "RB_INSERT_COLOR fuel (Some x) h = (if red u then
        bindE (set_rb_color RB_BLACK (rb_root u) h) (\<lambda>h.
        bindE (RB_SET_BLACKRED (Some y) (Some z) h) (RB_INSERT_COLOR (Suc k) (Some z))) else ?tail h)"
      unfolding k RB_INSERT_COLOR.simps(2) [of "Suc k"] px bindE.simps py(2) yr rb_up.simps fst_conv not_True_eq_False if_False
        L uz pz(5) Let_def by (rule refl)
    show ?thesis
    proof (cases "red u")
      case True
      obtain ul v ur where u: "u = branch False ul (v, RB_RED) ur" using rbt_red [OF n(2) True] by blast
      let ?u = "branch False ul (v, RB_BLACK) ur"
      have "rb_rep h (plug ((\<not> e, (z, RB_BLACK), ?P) # cs) u)" using rep by (simp add: plug_branch branch_flip)
      then have "leads (set_rb_color RB_BLACK (rb_root u) h) A h (plug ((\<not> e, (z, RB_BLACK), ?P) # cs) ?u)"
        using leads_color [of h "(\<not> e, (z, RB_BLACK), ?P) # cs" False ul v RB_RED ur A] A by (simp add: u set_addrs_plug)
      moreover have "leads (bindE (RB_SET_BLACKRED (Some y) (Some z) h) (RB_INSERT_COLOR (Suc k) (Some z))) A h
          (ins_fix cs (branch e (branch d t (y, RB_BLACK) s) (z, RB_RED) ?u))"
        if "rb_rep h (plug ((\<not> e, (z, RB_BLACK), ?P) # cs) ?u)" for h
      proof (rule leads_bind [where t = "plug cs (branch e (branch d t (y, RB_BLACK) s) (z, RB_RED) ?u)"])
        show "leads (RB_SET_BLACKRED (Some y) (Some z) h) A h (plug cs (branch e (branch d t (y, RB_BLACK) s) (z, RB_RED) ?u))"
          by (rule leads_blackred) (use that in_A in \<open>simp_all add: plug_branch branch_flip\<close>)
      next
        fix h' assume "rb_rep h' (plug cs (branch e (branch d t (y, RB_BLACK) s) (z, RB_RED) ?u))"
        then show "leads (RB_INSERT_COLOR (Suc k) (Some z) h') A h' (ins_fix cs (branch e (branch d t (y, RB_BLACK) s) (z, RB_RED) ?u))"
          using "3.IH" [of h' "Suc n" "Suc k"] n 3(5) k A True by (simp add: pg RB_RED u set_addrs_plug)
      qed
      ultimately show ?thesis using start True by (simp add: t pg RB_RED u leads_bind)
    next
      case u: False
      show ?thesis
      proof (cases "d = e")
        case True
        have inner: "rb_side (\<not> e) (Some y) h = Inr (rb_root s)" using py(1) [of "\<not> e"] True by simp
        let ?T = "\<lambda>c c'. plug cs (branch e (branch e t (y, c) s) (z, c') u)"
        let ?E = "plug cs (branch e t (y, RB_BLACK) (branch e s (z, RB_RED) u))"
        have one: "leads (RB_SET_BLACKRED (Some y) (Some z) h) A h (?T RB_BLACK RB_RED)"
          by (rule leads_blackred) (use rep in_A True in simp_all)
        have two: "leads (RB_ROTATE (\<not> e) (Some z) h) A h ?E" if "rb_rep h (?T RB_BLACK RB_RED)" for h
          using leads_rotate [of h cs "\<not> e" u z RB_RED s y RB_BLACK t A] that A by (simp add: branch_flip set_addrs_plug True)
        have three: "leads (RB_INSERT_COLOR (Suc k) (Some x) h) A h (paint RB_BLACK ?E)" if "rb_rep h ?E" for h
          using insert_color_end [of h e y "branch e s (z, RB_RED) u" cs "\<not> e" l x RB_RED r "Suc k" A] that A
          by (simp add: t plug_branch set_addrs_plug)
        have "leads (bindE (RB_SET_BLACKRED (Some y) (Some z) h) (\<lambda>h. bindE (RB_ROTATE (\<not> e) (Some z) h)
            (RB_INSERT_COLOR (Suc k) (Some x)))) A h (paint RB_BLACK ?E)"
          by (rule leads_bind, rule one, rule leads_bind, erule two, erule three)
        then show ?thesis using start u xs inner True by (simp add: t pg RB_RED)
      next
        case False
        then have d: "d = (\<not> e)" by blast
        have inner: "rb_side (\<not> e) (Some y) h = Inr (Some x)" using py(1) [of "\<not> e"] by (simp add: d t)
        let ?T1 = "plug cs (branch e (branch e s (y, RB_RED) (branch e r (x, RB_RED) l)) (z, RB_BLACK) u)"
        let ?T = "\<lambda>c c'. plug cs (branch e (branch e (branch e s (y, RB_RED) r) (x, c) l) (z, c') u)"
        let ?E = "plug cs (branch e (branch e s (y, RB_RED) r) (x, RB_BLACK) (branch e l (z, RB_RED) u))"
        have "rb_rep h ?T1" using rep by (simp add: d t branch_flip)
        then have one: "leads (RB_ROTATE e (Some y) h) A h (?T RB_RED RB_BLACK)"
          using leads_rotate [of h "(e, (z, RB_BLACK), u) # cs" e s y RB_RED r x RB_RED l A] A
          by (simp add: plug_branch set_addrs_plug d t)
        have two: "leads (RB_SET_BLACKRED (Some x) (Some z) h) A h (?T RB_BLACK RB_RED)" if "rb_rep h (?T RB_RED RB_BLACK)" for h
          by (rule leads_blackred) (use that in_A in simp_all)
        have three: "leads (RB_ROTATE (\<not> e) (Some z) h) A h ?E" if "rb_rep h (?T RB_BLACK RB_RED)" for h
          using leads_rotate [of h cs "\<not> e" u z RB_RED l x RB_BLACK "branch e s (y, RB_RED) r" A] that A
          by (simp add: branch_flip set_addrs_plug d t)
        have four: "leads (RB_INSERT_COLOR (Suc k) (Some y) h) A h (paint RB_BLACK ?E)" if "rb_rep h ?E" for h
          using insert_color_end [of h e x "branch e l (z, RB_RED) u" cs e s y RB_RED r "Suc k" A] that A
          by (simp add: plug_branch set_addrs_plug d t)
        have "leads (bindE (RB_ROTATE e (Some y) h) (\<lambda>h. bindE (RB_SET_BLACKRED (Some x) (Some z) h) (\<lambda>h.
            bindE (RB_ROTATE (\<not> e) (Some z) h) (RB_INSERT_COLOR (Suc k) (Some y))))) A h (paint RB_BLACK ?E)"
          by (rule leads_bind, rule one, rule leads_bind, erule two, rule leads_bind, erule three, erule four)
        moreover have "ins_fix ((d, p, s) # (e, g, u) # cs) t = paint RB_BLACK ?E"
          using u by (cases e) (simp_all add: d t pg RB_RED branch_def)
        ultimately show ?thesis using start u inner by (simp add: t)
      qed
    qed
  qed
qed

section \<open>After a removal\<close>

text \<open>From where the sibling \<open>q\<close> gets the colour of the parent \<open>p\<close> to the end.\<close>

lemma leads_fix_end:
  assumes rep: "rb_rep h (plug cs (branch d t (p, c) (branch d near (q, cq) far)))"
    and A: "set (addrs (plug cs (branch d t (p, c) (branch d near (q, cq) far)))) \<subseteq> A"
  shows "leads (bindE (rb_color_of (Some p) h) (\<lambda>c.
       bindE (set_rb_color c (Some q) h) (\<lambda>h.
       bindE (set_rb_color RB_BLACK (Some p) h) (\<lambda>h.
       bindE (rb_side (\<not> d) (Some q) h) (\<lambda>far.
       bindE (blacken far h) (\<lambda>h.
       bindE (RB_ROTATE d (Some p) h) (\<lambda>h. blacken (rbh_root h) h)))))))
     A h (paint RB_BLACK (plug cs (branch d (branch d t (p, RB_BLACK) near) (q, c) (paint RB_BLACK far))))"
proof -
  let ?T = "\<lambda>cp cq far. plug cs (branch d t (p, cp) (branch d near (q, cq) far))"
  let ?E = "plug cs (branch d (branch d t (p, RB_BLACK) near) (q, c) (paint RB_BLACK far))"
  have in_A: "p \<in> A" "q \<in> A" "set (addrs far) \<subseteq> A" using A by (auto simp: set_addrs_plug)
  have sib: "plug ((\<not> d, (p, cp), t) # cs) s = plug cs (branch d t (p, cp) s)" for cp s
    by (simp add: plug_branch branch_flip)
  have one: "leads (set_rb_color c (Some q) h) A h (?T c c far)"
    using leads_color [of h "(\<not> d, (p, c), t) # cs" d near q cq far A c] rep in_A by (simp add: sib)
  have two: "leads (set_rb_color RB_BLACK (Some p) h) A h (?T RB_BLACK c far)" if "rb_rep h (?T c c far)" for h
    by (rule leads_color [OF that in_A(1)])
  have three: "leads (bindE (rb_side (\<not> d) (Some q) h) (\<lambda>far. blacken far h)) A h (?T RB_BLACK c (paint RB_BLACK far))"
    if "rb_rep h (?T RB_BLACK c far)" for h
  proof -
    have "rb_side (\<not> d) (Some q) h = Inr (rb_root far)"
      using rb_reads(1) [of h "(\<not> d, (p, RB_BLACK), t) # cs" d near q c far] that by (simp add: sib)
    moreover have "?T RB_BLACK c u = plug ((\<not> d, (q, c), near) # (\<not> d, (p, RB_BLACK), t) # cs) u" for u
      by (simp add: plug_branch branch_flip)
    ultimately show ?thesis
      using leads_blacken [of h "(\<not> d, (q, c), near) # (\<not> d, (p, RB_BLACK), t) # cs" far A] that in_A(3) by simp
  qed
  have four: "leads (RB_ROTATE d (Some p) h) A h ?E" if "rb_rep h (?T RB_BLACK c (paint RB_BLACK far))" for h
    using leads_rotate [OF that, of A] A by (simp add: set_addrs_plug)
  have five: "leads (blacken (rbh_root h) h) A h (paint RB_BLACK ?E)" if "rb_rep h ?E" for h
    using leads_blacken_root [OF that, of A] A by (simp add: set_addrs_plug)
  have "leads (bindE (set_rb_color c (Some q) h) (\<lambda>h. bindE (set_rb_color RB_BLACK (Some p) h) (\<lambda>h.
       bindE (bindE (rb_side (\<not> d) (Some q) h) (\<lambda>far. blacken far h)) (\<lambda>h.
       bindE (RB_ROTATE d (Some p) h) (\<lambda>h. blacken (rbh_root h) h))))) A h (paint RB_BLACK ?E)"
    by (rule leads_bind, rule one, rule leads_bind, erule two, rule leads_bind, erule three, rule leads_bind, erule four, erule five)
  then show ?thesis using rb_reads(3) [OF rep] by simp
qed

lemma leads_fix_sibling:
  assumes rep: "rb_rep h (plug cs (branch d t (p, c) s))" and s: "rbt (Suc n) s" "\<not> red s"
    and A: "set (addrs (plug cs (branch d t (p, c) s))) \<subseteq> A"
    and k: "\<And>h'. \<not> red (sub d s) \<Longrightarrow> \<not> red (sub (\<not> d) s) \<Longrightarrow> rb_rep h' (plug cs (branch d t (p, c) (paint RB_RED s))) \<Longrightarrow>
      leads (again (rb_up cs) (Some p) h') A h' (K (branch d t (p, c) (paint RB_RED s)))"
  shows "leads (fix_sibling again d (Some p) (rb_root s) h) A h (fix_tree K cs d p c s t)"
proof -
  obtain near q far where sq: "s = branch d near (q, RB_BLACK) far" "rbt n near" using rbt_Suc [OF s, of d] by blast
  let ?T = "\<lambda>near cq far. plug cs (branch d t (p, c) (branch d near (q, cq) far))"
  have sib: "plug ((\<not> d, (p, c), t) # cs) s = plug cs (branch d t (p, c) s)" for s
    by (simp add: plug_branch branch_flip)
  have in_A: "p \<in> A" "q \<in> A" "set (addrs near) \<subseteq> A" "set (addrs far) \<subseteq> A" using A by (auto simp: set_addrs_plug sq)
  have repq: "rb_rep h (plug ((\<not> d, (p, c), t) # cs) (branch d near (q, RB_BLACK) far))" using rep by (simp add: sib sq)
  note rq = rb_reads [OF repq]
  have bc: "black_children (Some q) h = Inr (\<not> red near \<and> \<not> red far)"
    using rq(1,4,5) by (cases d) (simp_all add: black_children_def)
  have color: "leads (set_rb_color RB_RED (Some q) h) A h (?T near RB_RED far)" if "rb_rep h (?T near RB_BLACK far)" for h near
    using leads_color [of h "(\<not> d, (p, c), t) # cs" d near q RB_BLACK far A RB_RED] that in_A by (simp add: sib)
  show ?thesis
  proof (cases "red far")
    case True
    have "fix_sibling again d (Some p) (Some q) h = bindE (rb_color_of (Some p) h) (\<lambda>c.
       bindE (set_rb_color c (Some q) h) (\<lambda>h. bindE (set_rb_color RB_BLACK (Some p) h) (\<lambda>h.
       bindE (rb_side (\<not> d) (Some q) h) (\<lambda>far. bindE (blacken far h) (\<lambda>h.
       bindE (RB_ROTATE d (Some p) h) (\<lambda>h. blacken (rbh_root h) h))))))"
      using bc rq(5) rq(1) [of "\<not> d"] True by (simp add: fix_sibling_def)
    with leads_fix_end [of h cs d t p c near q RB_BLACK far A] rep A True show ?thesis by (simp add: sq fix_tree_def)
  next
    case far: False
    show ?thesis
    proof (cases "red near")
      case False
      have "leads (bindE (set_rb_color RB_RED (Some q) h) (\<lambda>h. bindE (rb_parent (Some p) h) (\<lambda>up. again up (Some p) h))) A h
          (K (branch d t (p, c) (branch d near (q, RB_RED) far)))"
      proof (rule leads_bind [OF color])
        fix h' assume r: "rb_rep h' (?T near RB_RED far)"
        then show "leads (bindE (rb_parent (Some p) h') (\<lambda>up. again up (Some p) h')) A h'
            (K (branch d t (p, c) (branch d near (q, RB_RED) far)))"
          using k [of h'] rb_reads(2) [OF r] far False by (simp add: sq)
      qed (use rep sq in simp)
      then show ?thesis using bc far False by (simp add: sq fix_sibling_def fix_tree_def)
    next
      case True
      obtain na r nb where n: "near = branch d na (r, RB_RED) nb" using rbt_red [OF sq(2) True, of d] by blast
      let ?N = "branch d na (r, RB_BLACK) nb"
      let ?R = "plug cs (branch d t (p, c) (branch d na (r, RB_BLACK) (branch d nb (q, RB_RED) far)))"
      have one: "leads (blacken (rb_root near) h) A h (?T ?N RB_BLACK far)"
        using leads_blacken [of h "(d, (q, RB_BLACK), far) # (\<not> d, (p, c), t) # cs" near A] rep in_A
        by (simp add: plug_branch branch_flip sq n)
      have three: "leads (RB_ROTATE (\<not> d) (Some q) h) A h ?R" if "rb_rep h (?T ?N RB_RED far)" for h
        using leads_rotate [of h "(\<not> d, (p, c), t) # cs" "\<not> d" far q RB_RED nb r RB_BLACK na A] that A
        by (simp add: plug_branch branch_flip sq n set_addrs_plug insert_commute Un_commute Un_left_commute)
      have four: "leads (bindE (rb_side (\<not> d) (Some p) h) (\<lambda>tmp. bindE (rb_color_of (Some p) h) (\<lambda>c.
         bindE (set_rb_color c tmp h) (\<lambda>h. bindE (set_rb_color RB_BLACK (Some p) h) (\<lambda>h.
         bindE (rb_side (\<not> d) tmp h) (\<lambda>far. bindE (blacken far h) (\<lambda>h.
         bindE (RB_ROTATE d (Some p) h) (\<lambda>h. blacken (rbh_root h) h)))))))) A h (fix_tree K cs d p c s t)"
        if r: "rb_rep h ?R" for h
        using leads_fix_end [OF r, of A] rb_reads(1) [OF r, of "\<not> d"] A far True
        by (auto simp: set_addrs_plug sq n fix_tree_def)
      have "leads (bindE (blacken (rb_root near) h) (\<lambda>h. bindE (set_rb_color RB_RED (Some q) h) (\<lambda>h.
          bindE (RB_ROTATE (\<not> d) (Some q) h) (\<lambda>h. bindE (rb_side (\<not> d) (Some p) h) (\<lambda>tmp. bindE (rb_color_of (Some p) h) (\<lambda>c.
         bindE (set_rb_color c tmp h) (\<lambda>h. bindE (set_rb_color RB_BLACK (Some p) h) (\<lambda>h.
         bindE (rb_side (\<not> d) tmp h) (\<lambda>far. bindE (blacken far h) (\<lambda>h.
         bindE (RB_ROTATE d (Some p) h) (\<lambda>h. blacken (rbh_root h) h))))))))))) A h (fix_tree K cs d p c s t)"
        by (rule leads_bind, rule one, rule leads_bind, erule color, rule leads_bind, erule three, erule four)
      then show ?thesis
        using bc rq(5) rq(1) [of "\<not> d"] rq(1) [of d] far True by (simp add: sq fix_sibling_def)
    qed
  qed
qed

lemma remove_color_painted:
  assumes "rb_rep h (plug cs t)" "red t" "0 < fuel" "set (addrs (plug cs t)) \<subseteq> A"
  shows "leads (RB_REMOVE_COLOR fuel up (rb_root t) h) A h (plug cs (paint RB_BLACK t))"
proof -
  obtain k where "fuel = Suc k" using assms(3) by (cases fuel) simp_all
  moreover have "is_red (rb_root t) h = Inr True" using is_red_root assms(1,2) by (auto simp: rb_rep_plug)
  moreover have "set (addrs t) \<subseteq> A" using assms(4) by (simp add: set_addrs_plug)
  ultimately show ?thesis using leads_blacken [OF assms(1)] by (simp add: RB_REMOVE_COLOR.simps)
qed

lemma rb_ctx_root_in: "rb_ctx_root (Some x) cs = Some y \<Longrightarrow> y = x \<or> y \<in> set (ctx_addrs cs)"
proof (induction cs arbitrary: x)
  case (Cons c cs)
  obtain d p cp s where "c = (d, (p, cp), s)" by (cases c) auto
  with Cons show ?case by auto
qed simp

lemma root_above:
  assumes "rb_rep h (plug cs (branch d t (p, c) s))"
  shows "rb_root t \<noteq> rbh_root h"
proof
  assume "rb_root t = rbh_root h"
  then have "rb_root t = rb_ctx_root (Some p) cs" using assms by (simp add: rb_rep_plug)
  then obtain y where y: "rb_root t = Some y" "rb_ctx_root (Some p) cs = Some y" using rb_ctx_root_Some by force
  then have "y \<in> set (addrs t)" "y = p \<or> y \<in> set (ctx_addrs cs)" using rb_root_in rb_ctx_root_in by auto
  then show False using assms by (auto simp: rb_rep_plug)
qed

lemma leads_remove_color:
  "rb_rep h (plug cs t) \<Longrightarrow> short n t \<Longrightarrow> ctx_rbt (Suc n) cs \<Longrightarrow> length cs < fuel \<Longrightarrow> set (addrs (plug cs t)) \<subseteq> A \<Longrightarrow>
   leads (RB_REMOVE_COLOR fuel (rb_up cs) (rb_root t) h) A h (del_fix cs t)"
proof (induction cs arbitrary: n h fuel t)
  case Nil
  obtain k where "fuel = Suc k" using Nil(4) by (cases fuel) simp_all
  moreover have "is_red (rb_root t) h = Inr (red t)" "rbh_root h = rb_root t"
    using Nil(1) is_red_root by (auto simp: rb_rep_def)
  ultimately show ?case using leads_blacken [of h "[]" t A] Nil(1,5) by (simp add: RB_REMOVE_COLOR.simps)
next
  case (Cons c cs)
  obtain d p cp s where c: "c = (d, (p, cp), s)" by (cases c) auto
  obtain k where k: "fuel = Suc (Suc k)" using Cons(5) by (cases fuel; cases "fuel - 1") auto
  show ?case
  proof (cases "red t")
    case True
    with remove_color_painted [of h "c # cs" t fuel A] Cons(2,6) k show ?thesis by (simp add: c)
  next
    case False
    have rep: "rb_rep h (plug cs (branch d t (p, cp) s))" and A: "set (addrs (plug cs (branch d t (p, cp) s))) \<subseteq> A"
      using Cons(2,6) by (simp_all add: c plug_branch)
    have t: "rbt n t" using Cons(3) False by (simp add: short_def)
    have s: "rbt (Suc n) s" using Cons(4) by (simp add: c)
    then have sl: "s \<noteq> Leaf" by auto
    note rp = rb_reads [OF rep] rb_roots_differ [OF rep]
    obtain L where L: "rb_side False (Some p) h = Inr L" "(L \<noteq> rb_root t) = d"
      using rp(1) [of False] rp(7) sl by (cases d) auto
    have ps: "rb_side (\<not> d) (Some p) h = Inr (rb_root s)" using rp(1) [of "\<not> d"] by simp
    obtain v q cq w where sq: "s = branch d v (q, cq) w" using sl branch_cases [of s d] by fastforce
    have cq: "rb_color_of (rb_root s) h = Inr cq"
      using rb_reads(3) [of h "(\<not> d, (p, cp), t) # cs" d v q cq w] rep by (simp add: sq plug_branch branch_flip)
    have r0: "is_red (rb_root t) h = Inr False" using rp(4) False by simp
    have start: "RB_REMOVE_COLOR fuel (Some p) (rb_root t) h = (if cq = RB_RED then
         bindE (RB_SET_BLACKRED (rb_root s) (Some p) h) (\<lambda>h. bindE (RB_ROTATE d (Some p) h) (\<lambda>h.
         bindE (rb_side (\<not> d) (Some p) h) (\<lambda>tmp. fix_sibling (RB_REMOVE_COLOR (Suc k)) d (Some p) tmp h)))
       else fix_sibling (RB_REMOVE_COLOR (Suc k)) d (Some p) (rb_root s) h)"
      unfolding k RB_REMOVE_COLOR.simps(2) [of "Suc k"] r0 bindE.simps L ps cq Let_def using root_above [OF rep] by simp
    show ?thesis
    proof (cases "red s")
      case True
      then have R: "cq = RB_RED" "rbt (Suc n) v" "\<not> red v" and cpB: "cp = RB_BLACK"
        using s Cons(4) by (auto simp: sq c split: if_splits)
      let ?cs = "(d, (q, RB_BLACK), w) # cs"
      let ?T = "plug ?cs (branch d t (p, RB_RED) v)"
      have one: "leads (RB_SET_BLACKRED (Some q) (Some p) h) A h (plug cs (branch (\<not> d) (branch d v (q, RB_BLACK) w) (p, RB_RED) t))"
        by (rule leads_blackred) (use rep A in \<open>auto simp: sq branch_flip set_addrs_plug\<close>)
      have two: "leads (RB_ROTATE d (Some p) h) A h ?T"
        if "rb_rep h (plug cs (branch (\<not> d) (branch d v (q, RB_BLACK) w) (p, RB_RED) t))" for h
        using leads_rotate [of h cs d t p RB_RED v q RB_BLACK w A] that A by (simp add: branch_flip set_addrs_plug sq plug_branch)
      have three: "leads (bindE (rb_side (\<not> d) (Some p) h) (\<lambda>tmp. fix_sibling (RB_REMOVE_COLOR (Suc k)) d (Some p) tmp h)) A h
          (fix_tree (\<lambda>u. plug ?cs (paint RB_BLACK u)) ?cs d p RB_RED v t)" if r: "rb_rep h ?T" for h
      proof -
        have "leads (fix_sibling (RB_REMOVE_COLOR (Suc k)) d (Some p) (rb_root v) h) A h
            (fix_tree (\<lambda>u. plug ?cs (paint RB_BLACK u)) ?cs d p RB_RED v t)"
        proof (rule leads_fix_sibling [OF r R(2,3)])
          fix h' assume "rb_rep h' (plug ?cs (branch d t (p, RB_RED) (paint RB_RED v)))"
          then show "leads (RB_REMOVE_COLOR (Suc k) (rb_up ?cs) (Some p) h') A h'
              (plug ?cs (paint RB_BLACK (branch d t (p, RB_RED) (paint RB_RED v))))"
            using remove_color_painted [of h' ?cs "branch d t (p, RB_RED) (paint RB_RED v)" "Suc k" A "rb_up ?cs"] A
            by (simp add: set_addrs_plug sq)
        qed (use A in \<open>simp add: set_addrs_plug sq\<close>)
        then show ?thesis using rb_reads(1) [OF r, of "\<not> d"] by simp
      qed
      have "leads (bindE (RB_SET_BLACKRED (Some q) (Some p) h) (\<lambda>h. bindE (RB_ROTATE d (Some p) h) (\<lambda>h.
         bindE (rb_side (\<not> d) (Some p) h) (\<lambda>tmp. fix_sibling (RB_REMOVE_COLOR (Suc k)) d (Some p) tmp h)))) A h
          (fix_tree (\<lambda>u. plug ?cs (paint RB_BLACK u)) ?cs d p RB_RED v t)"
        by (rule leads_bind, rule one, rule leads_bind, erule two, erule three)
      then show ?thesis using start R False True by (simp add: c sq Let_def)
    next
      case sB: False
      have "leads (fix_sibling (RB_REMOVE_COLOR (Suc k)) d (Some p) (rb_root s) h) A h (fix_tree (del_fix cs) cs d p cp s t)"
      proof (rule leads_fix_sibling [OF rep s sB A])
        fix h' assume b: "\<not> red (sub d s)" "\<not> red (sub (\<not> d) s)"
          and r: "rb_rep h' (plug cs (branch d t (p, cp) (paint RB_RED s)))"
        let ?u = "branch d t (p, cp) (paint RB_RED s)"
        have "rbt n (paint RB_RED s)" using s sB b by (auto simp: sq)
        then have "short (if cp = RB_RED then n else Suc n) ?u"
          using t False by (cases cp) (auto simp: short_def)
        moreover have "ctx_rbt (Suc (if cp = RB_RED then n else Suc n)) cs" using Cons(4) by (auto simp: c split: if_splits)
        ultimately show "leads (RB_REMOVE_COLOR (Suc k) (rb_up cs) (Some p) h') A h' (del_fix cs ?u)"
          using Cons.IH [of h' ?u _ "Suc k"] r Cons(5) k A by (fastforce simp: c set_addrs_plug)
      qed
      moreover have "cq = RB_BLACK" using sB by (simp add: sq)
      ultimately show ?thesis using start False sB by (simp add: c)
    qed
  qed
qed

end
