(* ===== verification/Uv_Tree_Correct.thy ===== *)
theory Uv_Tree_Correct
  imports Uv_Tree_Colors
begin

text \<open>
  The red-black tree as the list of its addresses in order: insertion, removal, the searches and the steps from one entry to
  the next are operations on this list, and every operation leaves a red-black tree.
\<close>

section \<open>The list of a tree\<close>

definition rb_holds :: "rb_head \<Rightarrow> nat list \<Rightarrow> bool" where
  "rb_holds h xs \<longleftrightarrow> (\<exists>t. rb_rep h t \<and> red_black t \<and> addrs t = xs)"

lemma rb_holds_distinct: "rb_holds h xs \<Longrightarrow> distinct xs"
  by (auto simp: rb_holds_def rb_rep_def)

lemma rb_holds_init: "rb_holds (RB_INIT h) []"
  by (auto simp: rb_holds_def rb_rep_def RB_INIT_def red_black_def intro!: exI [of _ Leaf])

lemma rb_holds_empty: "rb_holds h xs \<Longrightarrow> RB_EMPTY h \<longleftrightarrow> xs = []"
  by (auto simp: rb_holds_def rb_rep_def RB_EMPTY_def addrs_def)

lemma height_addrs: "height t \<le> length (addrs t)"
  using height_le_size_tree [of t] by (simp add: addrs_def)

lemma length_ctx_addrs: "length cs \<le> length (ctx_addrs cs)"
proof (induction cs)
  case (Cons c cs)
  obtain d p cp s where "c = (d, (p, cp), s)" by (cases c) auto
  with Cons show ?case by simp
qed simp

lemma length_addrs_plug: "length (addrs (plug cs t)) = length (addrs t) + length (ctx_addrs cs)"
  using arg_cong [OF mset_addrs_plug, of size cs t] by simp

lemma leads_holds: "leads r A h t \<Longrightarrow> red_black t \<Longrightarrow> \<exists>h'. r = Inr h' \<and> rb_holds h' (addrs t) \<and> rb_frame A h h'"
  by (auto simp: leads_def rb_holds_def)

definition first :: "'a list \<Rightarrow> 'a option" where
  "first xs = (case xs of [] \<Rightarrow> None | x # _ \<Rightarrow> Some x)"

lemma first_simps [simp]: "first [] = None" "first (x # xs) = Some x" "first (xs @ ys) = (if xs = [] then first ys else first xs)"
  by (auto simp: first_def split: list.split)

section \<open>Searching\<close>

text \<open>The comparisons of the searched element with the entries, in their order, fall from above zero to below.\<close>

definition falls :: "(nat \<Rightarrow> int) \<Rightarrow> nat list \<Rightarrow> bool" where
  "falls c xs \<longleftrightarrow> sorted_wrt (\<lambda>a b. c a \<le> 0 \<longrightarrow> c b < 0) xs"

lemma falls_append: "falls c (xs @ x # ys) \<longleftrightarrow> falls c xs \<and> falls c ys \<and> (\<forall>a \<in> set xs. c a \<le> 0 \<longrightarrow> c x < 0) \<and>
    (\<forall>b \<in> set ys. c x \<le> 0 \<longrightarrow> c b < 0) \<and> (\<forall>a \<in> set xs. \<forall>b \<in> set ys. c a \<le> 0 \<longrightarrow> c b < 0)"
  by (auto simp: falls_def sorted_wrt_append)

lemma find_append: "find P (xs @ ys) = (case find P xs of None \<Rightarrow> find P ys | Some a \<Rightarrow> Some a)"
  by (induction xs) auto

lemma find_none: "find P xs = None \<longleftrightarrow> (\<forall>x \<in> set xs. \<not> P x)"
  by (induction xs) auto

lemma reads_Node:
  assumes "rb_rep h (plug cs (Node l (x, c) r))"
  shows "rb_side d (Some x) h = Inr (rb_root (if d then r else l))" "rb_parent (Some x) h = Inr (rb_up cs)"
  using rb_reads(1,2) [of h cs False l x c r] assms by (auto simp: Node_branch)

lemma rep_sub:
  assumes "rb_rep h (plug cs (Node l (x, c) r))"
  shows "rb_rep h (plug ((d, (x, c), if d then l else r) # cs) (if d then r else l))"
  using assms by (simp add: plug_branch branch_def)

lemma nfind_loop_eq:
  assumes "rb_rep h (plug cs t)" "falls c (addrs t)" "\<forall>a \<in> set (addrs t). cmp a = Inr (c a)" "height t < fuel"
  shows "nfind_loop fuel cmp (rb_root t) r h = Inr (case find (\<lambda>a. c a \<le> 0) (addrs t) of None \<Rightarrow> r | Some a \<Rightarrow> Some a)"
  using assms
proof (induction t arbitrary: cs fuel r)
  case (Node lt p rt)
  obtain x col where p: "p = (x, col)" by (cases p)
  obtain k where k: "fuel = Suc k" "height lt < k" "height rt < k" using Node.prems(4) by (cases fuel) auto
  have f: "falls c (addrs lt)" "falls c (addrs rt)" "\<forall>a \<in> set (addrs lt). c a \<le> 0 \<longrightarrow> c x < 0"
    using Node.prems(2) by (auto simp: p falls_append)
  note rd = reads_Node(1) [OF Node.prems(1) [unfolded p]] and sub = rep_sub [OF Node.prems(1) [unfolded p]]
  consider "c x = 0" | "c x < 0" | "c x > 0" by linarith
  then show ?case
  proof cases
    case 1
    then have "find (\<lambda>a. c a \<le> 0) (addrs lt) = None" using f(3) by (auto simp: find_none)
    with 1 show ?thesis using Node.prems(3) k by (simp add: p find_append)
  next
    case 2
    then show ?thesis using Node.prems(3) k rd [of False] Node.IH(1) [OF sub [of False, simplified] f(1) _ k(2), of "Some x"]
      by (auto simp: p find_append split: option.splits)
  next
    case 3
    then have "find (\<lambda>a. c a \<le> 0) (addrs lt) = None" using f(3) by (fastforce simp: find_none)
    then show ?thesis using 3 Node.prems(3) k rd [of True] Node.IH(2) [OF sub [of True, simplified] f(2) _ k(3), of r]
      by (auto simp: p find_append split: option.splits)
  qed
next
  case Leaf
  then show ?case by (cases fuel) simp_all
qed

lemma RB_NFIND_first:
  assumes "rb_holds h xs" "falls c xs" "\<forall>a \<in> set xs. cmp a = Inr (c a)" "length xs < fuel"
  shows "RB_NFIND fuel cmp h = Inr (find (\<lambda>a. c a \<le> 0) xs)"
proof -
  obtain t where t: "rb_rep h t" "addrs t = xs" using assms(1) by (auto simp: rb_holds_def)
  from nfind_loop_eq [of h "[]" t c cmp fuel None] t assms(2-4) height_addrs [of t] show ?thesis
    by (auto simp: RB_NFIND_def rb_rep_def split: option.split)
qed

lemma find_loop_eq:
  assumes "rb_rep h (plug cs t)" "falls c (addrs t)" "\<forall>a \<in> set (addrs t). cmp a = Inr (c a)" "height t < fuel"
  shows "find_loop fuel cmp (rb_root t) h = Inr (find (\<lambda>a. c a = 0) (addrs t))"
  using assms
proof (induction t arbitrary: cs fuel)
  case (Node lt p rt)
  obtain x col where p: "p = (x, col)" by (cases p)
  obtain k where k: "fuel = Suc k" "height lt < k" "height rt < k" using Node.prems(4) by (cases fuel) auto
  have f: "falls c (addrs lt)" "falls c (addrs rt)" "\<forall>a \<in> set (addrs lt). c a \<le> 0 \<longrightarrow> c x < 0" "\<forall>b \<in> set (addrs rt). c x \<le> 0 \<longrightarrow> c b < 0"
    using Node.prems(2) by (auto simp: p falls_append)
  note rd = reads_Node(1) [OF Node.prems(1) [unfolded p]] and sub = rep_sub [OF Node.prems(1) [unfolded p]]
  have l: "find (\<lambda>a. c a = 0) (addrs lt) = None" if "c x \<ge> 0" using f(3) that by (fastforce simp: find_none)
  have r: "find (\<lambda>a. c a = 0) (addrs rt) = None" if "c x \<le> 0" using f(4) that by (fastforce simp: find_none)
  consider "c x = 0" | "c x < 0" | "c x > 0" by linarith
  then show ?case
  proof cases
    case 1
    then show ?thesis using l Node.prems(3) k by (simp add: p find_append)
  next
    case 2
    then show ?thesis using r Node.prems(3) k rd [of False] Node.IH(1) [OF sub [of False, simplified] f(1) _ k(2)]
      by (auto simp: p find_append split: option.splits)
  next
    case 3
    then show ?thesis using l Node.prems(3) k rd [of True] Node.IH(2) [OF sub [of True, simplified] f(2) _ k(3)]
      by (auto simp: p find_append split: option.splits)
  qed
next
  case Leaf
  then show ?case by (cases fuel) simp_all
qed

lemma RB_FIND_equal:
  assumes "rb_holds h xs" "falls c xs" "\<forall>a \<in> set xs. cmp a = Inr (c a)" "length xs < fuel"
  shows "RB_FIND fuel cmp h = Inr (find (\<lambda>a. c a = 0) xs)"
proof -
  obtain t where t: "rb_rep h t" "addrs t = xs" using assms(1) by (auto simp: rb_holds_def)
  from find_loop_eq [of h "[]" t c cmp fuel] t assms(2-4) height_addrs [of t] show ?thesis
    by (auto simp: RB_FIND_def rb_rep_def)
qed

section \<open>From one entry to the next\<close>

text \<open>The addresses in the direction \<open>d\<close>, and those that follow a hole in it.\<close>

definition along :: "bool \<Rightarrow> nat list \<Rightarrow> nat list" where
  "along d xs = (if d then xs else rev xs)"

definition ahead :: "bool \<Rightarrow> rb_ctx \<Rightarrow> nat list" where
  "ahead d cs = (if d then after cs else rev (before cs))"

lemma along_branch: "along d (addrs (branch e t (x, c) s)) = (if d = e then along d (addrs s) @ x # along d (addrs t)
    else along d (addrs t) @ x # along d (addrs s))"
  by (auto simp: along_def addrs_branch)

lemma ahead_simps [simp]:
  "ahead d [] = []"
  "ahead d ((e, (x, c), s) # cs) = (if e = d then ahead d cs else x # along d (addrs s) @ ahead d cs)"
  by (auto simp: ahead_def along_def)

lemma descend_eq:
  assumes "rb_rep h (plug cs t)" "t \<noteq> Leaf" "height t \<le> fuel"
  shows "\<exists>ds m c r. descend fuel d (rb_root t) h = Inr (Some m) \<and> t = plug ds (branch d Leaf (m, c) r) \<and> (\<forall>e \<in> set ds. fst e = d)"
  using assms
proof (induction t arbitrary: cs fuel)
  case (Node l p r)
  obtain x c where p: "p = (x, c)" by (cases p)
  obtain k where k: "fuel = Suc k" using Node.prems(3) by (cases fuel) simp_all
  let ?t = "if d then r else l" and ?s = "if d then l else r"
  have N: "Node l p r = branch d ?t (x, c) ?s" by (simp add: p branch_def)
  have rd: "rb_side d (Some x) h = Inr (rb_root ?t)" using reads_Node(1) [of h cs l x c r d] Node.prems(1) by (simp add: p)
  show ?case
  proof (cases "?t = Leaf")
    case True
    then have "Node l p r = plug [] (branch d Leaf (x, c) ?s)" using N by simp
    moreover have "descend fuel d (rb_root (Node l p r)) h = Inr (Some x)" using rd k by (simp add: True p)
    ultimately show ?thesis by fastforce
  next
    case False
    have IH: "\<exists>ds m c r'. descend k d (rb_root ?t) h = Inr (Some m) \<and> ?t = plug ds (branch d Leaf (m, c) r') \<and> (\<forall>e \<in> set ds. fst e = d)"
      using Node.IH(1) [of _ k] Node.IH(2) [of _ k] Node.prems(1,3) False rep_sub [of h cs l x c r d] k by (cases d) (fastforce simp: p)+
    then obtain ds m c' r' where "descend k d (rb_root ?t) h = Inr (Some m)" "?t = plug ds (branch d Leaf (m, c') r')" "\<forall>e \<in> set ds. fst e = d"
      by blast
    then show ?thesis using rd k False
      by (intro exI [of _ "ds @ [(d, (x, c), ?s)]"] exI [of _ m] exI [of _ c'] exI [of _ r'])
        (simp only: N plug_append plug_branch plug.simps(1), auto simp: branch_def)
  qed
qed simp

lemma along_descend: "\<forall>e \<in> set ds. fst e = d \<Longrightarrow> first (along (\<not> d) (addrs (plug ds (branch d Leaf (m, c) r)))) = Some m"
proof (induction ds rule: rev_induct)
  case Nil
  then show ?case by (simp add: along_branch) (simp add: along_def)
next
  case (snoc e ds)
  obtain x c' s where "e = (d, (x, c'), s)" using snoc.prems by (cases e) auto
  moreover have "along (\<not> d) (addrs (plug ds (branch d Leaf (m, c) r))) \<noteq> []" using snoc by (auto simp: first_def)
  ultimately show ?case using snoc by (simp add: plug_append plug_branch along_branch)
qed

lemma climb_eq: "rb_rep h (plug cs t) \<Longrightarrow> t \<noteq> Leaf \<Longrightarrow> length cs < fuel \<Longrightarrow> climb fuel d (rb_root t) h = Inr (first (ahead d cs))"
proof (induction cs arbitrary: fuel t)
  case Nil
  obtain l x c r where "t = Node l (x, c) r" using Nil.prems(2) by (cases t) auto
  with Nil reads_Node(2) [of h "[]" l x c r] show ?case by (cases fuel) auto
next
  case (Cons e cs)
  obtain b p cp s where e: "e = (b, (p, cp), s)" by (cases e) auto
  obtain l x c r where t: "t = Node l (x, c) r" using Cons.prems(2) by (cases t) auto
  obtain k where k: "fuel = Suc k" using Cons.prems(3) by (cases fuel) simp_all
  have rep: "rb_rep h (plug cs (branch b t (p, cp) s))" using Cons.prems(1) by (simp add: e plug_branch)
  have up: "rb_parent (Some x) h = Inr (Some p)" using reads_Node(2) Cons.prems(1) by (fastforce simp: t e)
  have sd: "bindE (rb_side d (Some p) h) (\<lambda>c. Inr (c = Some x)) = Inr (b = d)"
    using rb_reads(1) [OF rep, of d] rb_roots_differ(1) [OF rep] by (auto simp: t)
  show ?case
  proof (cases "b = d")
    case True
    then show ?thesis using k up sd Cons.IH [of "branch b t (p, cp) s" k] rep Cons.prems(3) by (simp add: e t)
  next
    case False
    then show ?thesis using k up sd by (simp add: e t)
  qed
qed

lemma rb_step_eq:
  assumes rep: "rb_rep h (plug cs (branch d t (x, c) s))" and fuel: "length (addrs (plug cs (branch d t (x, c) s))) < fuel"
  shows "rb_step fuel d (Some x) h = Inr (first (along d (addrs t) @ ahead d cs))"
proof (cases "t = Leaf")
  case True
  have l: "length cs < fuel" using fuel length_ctx_addrs [of cs] by (simp add: length_addrs_plug)
  have c: "climb fuel d (Some x) h = Inr (first (ahead d cs))" using climb_eq [OF rep _ l, of d] by simp
  have "(if up = None then Inr False else bindE (rb_side (\<not> d) up h) (\<lambda>c. Inr (c = Some x))) = Inr (cs \<noteq> [] \<and> fst (hd cs) \<noteq> d)"
    if "up = rb_up cs" for up
  proof (cases cs)
    case (Cons e cs')
    obtain b p cp u where e: "e = (b, (p, cp), u)" by (cases e) auto
    have "rb_rep h (plug cs' (branch b (branch d t (x, c) s) (p, cp) u))" using rep by (simp add: Cons e plug_branch)
    from rb_reads(1) [OF this, of "\<not> d"] rb_roots_differ(1) [OF this] show ?thesis using that by (auto simp: Cons e)
  qed (use that in simp)
  moreover have "first (ahead d cs) = rb_up cs" if "cs \<noteq> []" "fst (hd cs) \<noteq> d" using that by (cases cs) auto
  ultimately show ?thesis using rb_reads(1) [OF rep, of d] rb_reads(2) [OF rep] c True by (simp add: rb_step_def along_def)
next
  case False
  have "rb_rep h (plug ((d, (x, c), s) # cs) t)" using rep by (simp add: plug_branch)
  moreover have "height t \<le> fuel" using fuel height_addrs [of t] by (cases d) (simp_all add: length_addrs_plug branch_def)
  ultimately obtain ds m cm r where
    d: "descend fuel (\<not> d) (rb_root t) h = Inr (Some m)" "t = plug ds (branch (\<not> d) Leaf (m, cm) r)" "\<forall>e \<in> set ds. fst e = (\<not> d)"
    using descend_eq [of h _ t fuel "\<not> d"] False by blast
  have "first (along d (addrs t)) = Some m" using along_descend [OF d(3), of m cm r] by (simp add: d(2))
  then have "first (along d (addrs t) @ ys) = Some m" for ys by (cases "along d (addrs t)") simp_all
  then show ?thesis using rb_reads(1) [OF rep, of d] d(1) False by (simp add: rb_step_def)
qed

lemma addrs_focus:
  assumes "addrs t = us @ x # vs" "distinct (addrs t)"
  shows "\<exists>cs l c r. t = plug cs (Node l (x, c) r) \<and> us = before cs @ addrs l \<and> vs = addrs r @ after cs"
proof -
  have "x \<in> fst ` set_tree t" using assms(1) by (metis addrs_def in_set_conv_decomp list.set_map set_inorder)
  then obtain c where "(x, c) \<in> set_tree t" by auto
  from plug_focus [OF this] obtain cs l r where t: "t = plug cs (Node l (x, c) r)" by blast
  then have e: "us @ x # vs = (before cs @ addrs l) @ x # (addrs r @ after cs)" "distinct (us @ x # vs)"
    using assms by (simp_all add: addrs_plug)
  from e(2) have "x \<notin> set us" "x \<notin> set vs" by simp_all
  with e(1) have "us = before cs @ addrs l \<and> vs = addrs r @ after cs" by (simp only: append_Cons_eq_iff simp_thms)
  with t show ?thesis by blast
qed

lemma RB_NEXT_PREV:
  assumes "rb_holds h (us @ x # vs)" "length (us @ x # vs) < fuel"
  shows "RB_NEXT fuel (Some x) h = Inr (first vs)" "RB_PREV fuel (Some x) h = Inr (first (rev us))"
proof -
  obtain t where t: "rb_rep h t" "addrs t = us @ x # vs" using assms(1) by (auto simp: rb_holds_def)
  moreover have "distinct (addrs t)" using t(1) by (simp add: rb_rep_def)
  ultimately obtain cs l c r where f: "t = plug cs (Node l (x, c) r)" "us = before cs @ addrs l" "vs = addrs r @ after cs"
    using addrs_focus by blast
  have "rb_rep h (plug cs (branch True r (x, c) l))" "rb_rep h (plug cs (branch False l (x, c) r))"
    using t(1) by (simp_all add: f branch_def)
  moreover have "length (addrs (plug cs (branch True r (x, c) l))) < fuel" "length (addrs (plug cs (branch False l (x, c) r))) < fuel"
    using assms(2) t(2) by (simp_all add: f(1) branch_def)
  ultimately show "RB_NEXT fuel (Some x) h = Inr (first vs)" "RB_PREV fuel (Some x) h = Inr (first (rev us))"
    using rb_step_eq by (simp_all add: RB_NEXT_def RB_PREV_def f along_def ahead_def)
qed

lemma minmax_loop_eq:
  assumes "rb_rep h (plug cs t)" "height t < fuel"
  shows "minmax_loop fuel val (rb_root t) up h = Inr (case first (along (val < 0) (addrs t)) of None \<Rightarrow> up | Some a \<Rightarrow> Some a)"
  using assms
proof (induction t arbitrary: cs fuel up)
  case (Node l p r)
  obtain x c where p: "p = (x, c)" by (cases p)
  obtain k where k: "fuel = Suc k" "height l < k" "height r < k" using Node.prems(2) by (cases fuel) auto
  note rd = reads_Node(1) [OF Node.prems(1) [unfolded p]] and sub = rep_sub [OF Node.prems(1) [unfolded p]]
  show ?case
  proof (cases "val < 0")
    case True
    then show ?thesis using k(1) rd [of False] Node.IH(1) [OF sub [of False, simplified] k(2), of "Some x"]
      by (cases "addrs l") (simp_all add: p along_def)
  next
    case False
    then show ?thesis using k(1) rd [of True] Node.IH(2) [OF sub [of True, simplified] k(3), of "Some x"]
      by (cases "addrs r" rule: rev_cases) (simp_all add: p along_def)
  qed
next
  case Leaf
  then show ?case by (cases fuel) (simp_all add: along_def)
qed

lemma RB_MINMAX_ends:
  assumes "rb_holds h xs" "length xs < fuel"
  shows "RB_MINMAX fuel val h = Inr (first (along (val < 0) xs))"
proof -
  obtain t where t: "rb_rep h t" "addrs t = xs" using assms(1) by (auto simp: rb_holds_def)
  from minmax_loop_eq [of h "[]" t fuel val None] t assms(2) height_addrs [of t] show ?thesis
    by (auto simp: RB_MINMAX_def rb_rep_def split: option.split)
qed

text \<open>\<open>RB_MIN\<close> and \<open>RB_MAX\<close>.\<close>

lemma RB_ends:
  assumes "rb_holds h (us @ x # vs)" "length (us @ x # vs) < fuel"
  shows "RB_MINMAX fuel RB_NEGINF h = Inr (Some (hd (us @ [x])))" "RB_MINMAX fuel RB_INF h = Inr (Some (last (x # vs)))"
proof -
  have "first (us @ x # vs) = Some (hd (us @ [x]))" "first (rev (us @ x # vs)) = Some (last (x # vs))"
    by (cases us, simp_all) (cases vs rule: rev_cases, simp_all)
  then show "RB_MINMAX fuel RB_NEGINF h = Inr (Some (hd (us @ [x])))" "RB_MINMAX fuel RB_INF h = Inr (Some (last (x # vs)))"
    using RB_MINMAX_ends [OF assms] by (simp_all add: RB_NEGINF_def RB_INF_def along_def)
qed

end
