(* ===== verification/Uv_Tree_Edit.thy ===== *)
theory Uv_Tree_Edit
  imports Uv_Tree_Correct
begin

text \<open>Insertion and removal on the list of the addresses of a red-black tree.\<close>

section \<open>Insertion\<close>

text \<open>The hole that the search ends in; \<open>k\<close> is the last comparison.\<close>

fun hole_side :: "rb_ctx \<Rightarrow> int \<Rightarrow> bool" where
  "hole_side [] k \<longleftrightarrow> True"
| "hole_side ((d, p, s) # cs) k \<longleftrightarrow> d = (\<not> k < 0)"

lemma insert_loop_hole:
  assumes "rb_rep h (plug cs t)" "falls c (addrs t)" "\<forall>a \<in> set (addrs t). cmp a = Inr (c a) \<and> c a \<noteq> 0" "height t < fuel"
    "hole_side cs k"
  shows "\<exists>cs' k'. insert_loop fuel cmp (rb_root t) (rb_up cs) k h = Inr (None, rb_up cs', k') \<and> hole_side cs' k' \<and>
     plug cs' Leaf = plug cs t \<and> before cs' = before cs @ filter (\<lambda>a. c a > 0) (addrs t)"
  using assms
proof (induction t arbitrary: cs fuel k)
  case Leaf
  then show ?case by (cases fuel) auto
next
  case (Node lt p rt)
  obtain x col where p: "p = (x, col)" by (cases p)
  obtain j where j: "fuel = Suc j" "height lt < j" "height rt < j" using Node.prems(4) by (cases fuel) auto
  have f: "falls c (addrs lt)" "falls c (addrs rt)" "\<forall>a \<in> set (addrs lt). c a \<le> 0 \<longrightarrow> c x < 0" "\<forall>b \<in> set (addrs rt). c x \<le> 0 \<longrightarrow> c b < 0"
    using Node.prems(2) by (auto simp: p falls_append)
  note rd = reads_Node(1) [OF Node.prems(1) [unfolded p]] and sub = rep_sub [OF Node.prems(1) [unfolded p]]
  have ok: "\<forall>a \<in> set (addrs lt). cmp a = Inr (c a) \<and> c a \<noteq> 0" "\<forall>a \<in> set (addrs rt). cmp a = Inr (c a) \<and> c a \<noteq> 0"
    using Node.prems(3) by (auto simp: p)
  show ?case
  proof (cases "c x < 0")
    case True
    have "hole_side ((False, (x, col), rt) # cs) (c x)" using True by simp
    from Node.IH(1) [OF sub [of False, simplified] f(1) ok(1) j(2) this] obtain cs' k' where
      "insert_loop j cmp (rb_root lt) (Some x) (c x) h = Inr (None, rb_up cs', k')" "hole_side cs' k'"
      "plug cs' Leaf = plug ((False, (x, col), rt) # cs) lt" "before cs' = before cs @ filter (\<lambda>a. c a > 0) (addrs lt)"
      by auto
    moreover have "filter (\<lambda>a. c a > 0) (addrs rt) = []" using f(4) True by (fastforce simp: filter_empty_conv)
    ultimately show ?thesis using True Node.prems(3) rd [of False] j(1)
      by (intro exI [of _ cs'] exI [of _ k']) (simp add: p plug_branch branch_def)
  next
    case False
    then have pos: "c x > 0" using Node.prems(3) by (auto simp: p)
    have "hole_side ((True, (x, col), lt) # cs) (c x)" using pos by simp
    from Node.IH(2) [OF sub [of True, simplified] f(2) ok(2) j(3) this] obtain cs' k' where
      "insert_loop j cmp (rb_root rt) (Some x) (c x) h = Inr (None, rb_up cs', k')" "hole_side cs' k'"
      "plug cs' Leaf = plug ((True, (x, col), lt) # cs) rt" "before cs' = before cs @ addrs lt @ x # filter (\<lambda>a. c a > 0) (addrs rt)"
      by auto
    moreover have "filter (\<lambda>a. c a > 0) (addrs lt) = addrs lt" using f(3) pos by (fastforce simp: filter_id_conv)
    ultimately show ?thesis using pos Node.prems(3) rd [of True] j(1)
      by (intro exI [of _ cs'] exI [of _ k']) (simp add: p plug_branch branch_def)
  qed
qed

lemma insert_loop_found:
  assumes "rb_rep h (plug cs t)" "falls c (addrs t)" "\<forall>a \<in> set (addrs t). cmp a = Inr (c a)" "height t < fuel"
    "a \<in> set (addrs t)" "c a = 0"
  shows "\<exists>up k'. insert_loop fuel cmp (rb_root t) r k h = Inr (Some a, up, k')"
  using assms
proof (induction t arbitrary: cs fuel k r)
  case (Node lt p rt)
  obtain x col where p: "p = (x, col)" by (cases p)
  obtain j where j: "fuel = Suc j" "height lt < j" "height rt < j" using Node.prems(4) by (cases fuel) auto
  have f: "falls c (addrs lt)" "falls c (addrs rt)" "\<forall>a \<in> set (addrs lt). c a \<le> 0 \<longrightarrow> c x < 0" "\<forall>b \<in> set (addrs rt). c x \<le> 0 \<longrightarrow> c b < 0"
    using Node.prems(2) by (auto simp: p falls_append)
  note rd = reads_Node(1) [OF Node.prems(1) [unfolded p]] and sub = rep_sub [OF Node.prems(1) [unfolded p]]
  consider "c x = 0" | "c x < 0" | "c x > 0" by linarith
  then show ?case
  proof cases
    case 1
    then have "a = x" using Node.prems(5,6) f(3,4) by (auto simp: p)
    then show ?thesis using 1 Node.prems(3) j by (auto simp: p)
  next
    case 2
    then have "a \<in> set (addrs lt)" using Node.prems(5,6) f(4) by (auto simp: p)
    then show ?thesis using 2 Node.prems(3,6) j rd [of False] Node.IH(1) [OF sub [of False, simplified] f(1) _ j(2)] 
      by (auto simp: p)
  next
    case 3
    then have "a \<in> set (addrs rt)" using Node.prems(5,6) f(3) by (auto simp: p)
    then show ?thesis using 3 Node.prems(3,6) j rd [of True] Node.IH(2) [OF sub [of True, simplified] f(2) _ j(3)] 
      by (auto simp: p)
  qed
qed simp

lemma link_entry:
  assumes rep: "rb_rep h (plug cs Leaf)" and e: "e \<notin> set (ctx_addrs cs)" "rbh_nodes h e \<noteq> None" and side: "hole_side cs k"
  shows "leads (bindE (RB_SET (Some e) (rb_up cs) h) (\<lambda>h.
       if rb_up cs \<noteq> None then set_side (\<not> k < 0) (Some e) (rb_up cs) h else Inr (h\<lparr>rbh_root := Some e\<rparr>)))
     (insert e (set (ctx_addrs cs))) h (plug cs (branch False Leaf (e, RB_RED) Leaf))"
proof -
  let ?E = "entry False None None (rb_up cs) RB_RED"
  let ?h1 = "put_entry e ?E h"
  obtain e0 where e0: "rbh_nodes h e = Some e0" using e(2) by blast
  have one: "RB_SET (Some e) (rb_up cs) h = Inr ?h1" using e0 by (simp add: RB_SET_def entry_def)
  have f1: "rb_frame {e} h ?h1" using e0 by (auto simp: rb_frame_def)
  have c1: "rb_ctx_linked (rbh_nodes ?h1) None cs" using rb_frame_ctx [OF f1, of cs] rep e(1) by (simp add: rb_rep_plug)
  show ?thesis
  proof (cases cs)
    case Nil
    then show ?thesis using one f1 rep by (auto simp: leads_def rb_rep_def rb_frame_def)
  next
    case (Cons x cs')
    obtain d p cp s where x: "x = (d, (p, cp), s)" by (cases x) auto
    have d: "d = (\<not> k < 0)" using side by (simp add: Cons x)
    have m: "rbh_nodes ?h1 p = Some (entry d None (rb_root s) (rb_up cs') cp)" using c1 by (simp add: Cons x)
    have ne: "e \<noteq> p" "e \<notin> set (addrs s)" "e \<notin> set (ctx_addrs cs')" using e(1) by (auto simp: Cons x)
    have pn: "p \<notin> set (addrs s)" "p \<notin> set (ctx_addrs cs')" using rep by (auto simp: rb_rep_plug Cons x)
    let ?h2 = "put_entry p (entry d (Some e) (rb_root s) (rb_up cs') cp) ?h1"
    have f2: "rb_frame {p} ?h1 ?h2" using m by (auto simp: rb_frame_def)
    have "rb_ctx_linked (rbh_nodes ?h2) (Some e) cs"
      using c1 rb_frame_linked [OF f2, of s] rb_frame_ctx [OF f2, of cs'] pn by (simp add: Cons x)
    moreover have "rb_linked (rbh_nodes ?h2) (rb_up cs) (branch False Leaf (e, RB_RED) Leaf)" using ne by (simp add: Cons x)
    ultimately have "rb_rep ?h2 (plug cs (branch False Leaf (e, RB_RED) Leaf))"
      using rep e(1) unfolding rb_rep_plug by (simp add: Cons x)
    moreover have "rb_frame (insert e (set (ctx_addrs cs))) h ?h2"
      by (rule rb_frame_trans [OF rb_frame_mono [OF f1] rb_frame_mono [OF f2]]) (auto simp: Cons x)
    moreover have "set_side (\<not> k < 0) (Some e) (Some p) ?h1 = Inr ?h2" using m by (simp add: set_side_def d)
    ultimately show ?thesis using one by (auto simp: leads_def Cons x)
  qed
qed

lemma RB_INSERT_list:
  assumes h: "rb_holds h xs" and cmp: "falls c xs" "\<forall>a \<in> set xs. cmp a = Inr (c a)" and fuel: "length xs < fuel"
  shows "if \<exists>a \<in> set xs. c a = 0 then \<exists>a \<in> set xs. c a = 0 \<and> RB_INSERT fuel cmp (Some e) h = Inr (Some a, h)
    else e \<notin> set xs \<longrightarrow> rbh_nodes h e \<noteq> None \<longrightarrow>
      (\<exists>h'. RB_INSERT fuel cmp (Some e) h = Inr (None, h') \<and>
         rb_holds h' (filter (\<lambda>a. c a > 0) xs @ e # filter (\<lambda>a. c a < 0) xs) \<and> rb_frame (insert e (set xs)) h h')"
proof -
  obtain t where t: "rb_rep h t" "red_black t" "addrs t = xs" using h by (auto simp: rb_holds_def)
  have root: "rbh_root h = rb_root t" using t(1) by (simp add: rb_rep_def)
  have ht: "height t < fuel" using height_addrs [of t] fuel t(3) by simp
  show ?thesis
  proof (cases "\<exists>a \<in> set xs. c a = 0")
    case True
    then obtain a where a: "a \<in> set xs" "c a = 0" by blast
    with insert_loop_found [of h "[]" t c cmp fuel a None 0] t cmp ht root show ?thesis
      by (auto simp: RB_INSERT_def)
  next
    case False
    show ?thesis
    proof (simp only: False if_False, intro impI)
      assume e: "e \<notin> set xs" "rbh_nodes h e \<noteq> None"
      have "\<forall>a \<in> set (addrs t). cmp a = Inr (c a) \<and> c a \<noteq> 0" using cmp(2) False t(3) by blast
      with insert_loop_hole [of h "[]" t c cmp fuel 0] t cmp(1) ht obtain cs k where
        cs: "insert_loop fuel cmp (rb_root t) None 0 h = Inr (None, rb_up cs, k)" "hole_side cs k" "plug cs Leaf = t"
          "before cs = filter (\<lambda>a. c a > 0) xs" by auto
      have xs: "xs = before cs @ after cs" "set (ctx_addrs cs) = set xs"
        using t(3) cs(3) addrs_plug [of cs Leaf] set_addrs_plug [of cs Leaf] by auto
      have af: "after cs = filter (\<lambda>a. c a < 0) xs"
      proof -
        have neg: "(\<not> c a > 0) = (c a < 0)" if "a \<in> set xs" for a using False that by force
        have "\<forall>a \<in> set (before cs). c a > 0" using cs(4) by auto
        then have "filter (\<lambda>a. c a < 0) (before cs) = []" by (fastforce simp: filter_empty_conv)
        moreover have "filter (\<lambda>a. c a > 0) (after cs) = []"
        proof -
          have "before cs = filter (\<lambda>a. c a > 0) (before cs) @ filter (\<lambda>a. c a > 0) (after cs)" using cs(4) xs(1) by (metis filter_append)
          moreover have "filter (\<lambda>a. c a > 0) (before cs) = before cs" using \<open>\<forall>a \<in> set (before cs). c a > 0\<close> by (simp add: filter_id_conv)
          ultimately show ?thesis by (metis append_self_conv)
        qed
        then have "\<forall>a \<in> set (after cs). c a < 0" using neg xs(1) by (auto simp: filter_empty_conv)
        then have "filter (\<lambda>a. c a < 0) (after cs) = after cs" by (simp add: filter_id_conv)
        ultimately show ?thesis using xs(1) by (metis filter_append append_Nil)
      qed
      let ?A = "insert e (set xs)" and ?t = "branch False Leaf (e, RB_RED) Leaf"
      have rep: "rb_rep h (plug cs Leaf)" using t(1) cs(3) by simp
      have link: "leads (bindE (RB_SET (Some e) (rb_up cs) h) (\<lambda>h.
           if rb_up cs \<noteq> None then set_side (\<not> k < 0) (Some e) (rb_up cs) h else Inr (h\<lparr>rbh_root := Some e\<rparr>)))
         ?A h (plug cs ?t)"
        using link_entry [OF rep _ e(2) cs(2)] e(1) xs(2) by simp
      obtain n where n: "rbt n Leaf" "ctx_rbt n cs" using t(2) cs(3) red_black_plug by metis
      have "length cs < fuel" using length_ctx_addrs [of cs] length_addrs_plug [of cs Leaf] fuel t(3) cs(3) by simp
      then have color: "leads (RB_INSERT_COLOR fuel (Some e) h') ?A h' (ins_fix cs ?t)" if "rb_rep h' (plug cs ?t)" for h'
        using leads_insert_color [OF that, of n fuel ?A] n xs(2) by (simp add: set_addrs_plug)
      have "leads (bindE (bindE (RB_SET (Some e) (rb_up cs) h) (\<lambda>h.
           if rb_up cs \<noteq> None then set_side (\<not> k < 0) (Some e) (rb_up cs) h else Inr (h\<lparr>rbh_root := Some e\<rparr>)))
         (RB_INSERT_COLOR fuel (Some e))) ?A h (ins_fix cs ?t)"
        by (rule leads_bind, rule link, erule color)
      moreover have "red_black (ins_fix cs ?t)" using ins_fix_ok [of n ?t cs] n by simp
      ultimately obtain h' where h': "bindE (bindE (RB_SET (Some e) (rb_up cs) h) (\<lambda>h.
           if rb_up cs \<noteq> None then set_side (\<not> k < 0) (Some e) (rb_up cs) h else Inr (h\<lparr>rbh_root := Some e\<rparr>)))
         (RB_INSERT_COLOR fuel (Some e)) = Inr h'" "rb_holds h' (addrs (ins_fix cs ?t))" "rb_frame ?A h h'"
        using leads_holds by blast
      have "addrs (ins_fix cs ?t) = filter (\<lambda>a. c a > 0) xs @ e # filter (\<lambda>a. c a < 0) xs"
        by (simp add: addrs_ins_fix addrs_plug cs(4) af addrs_branch)
      moreover have "RB_INSERT fuel cmp (Some e) h = Inr (None, h')"
        using h'(1) cs(1) root by (simp add: RB_INSERT_def res_simps)
      ultimately show "\<exists>h'. RB_INSERT fuel cmp (Some e) h = Inr (None, h') \<and>
         rb_holds h' (filter (\<lambda>a. c a > 0) xs @ e # filter (\<lambda>a. c a < 0) xs) \<and> rb_frame ?A h h'" using h' by metis
    qed
  qed
qed

section \<open>Removal\<close>

text \<open>An entry with at most one child is unlinked.\<close>

lemma unlink_entry:
  assumes rep: "rb_rep h (plug cs (branch d u (x, c) Leaf))"
  shows "leads (bindE (reparent (rb_up cs) (rb_root u) h) (replace_child (rb_up cs) (Some x) (rb_root u)))
     (set (addrs u) \<union> set (ctx_addrs cs)) h (plug cs u)"
proof -
  have lk: "rb_linked (rbh_nodes h) (Some x) u" "rb_ctx_linked (rbh_nodes h) (Some x) cs" "distinct (addrs u)"
    "distinct (ctx_addrs cs)" "x \<notin> set (ctx_addrs cs)" "set (addrs u) \<inter> set (ctx_addrs cs) = {}"
    "set (ctx_addrs cs) \<inter> set (addrs u) = {}" "rbh_root h = rb_ctx_root (Some x) cs"
    using rep by (auto simp: rb_rep_plug)
  from reparent_linked [OF lk(1,3), of "rb_up cs"] obtain h1 where
    h1: "reparent (rb_up cs) (rb_root u) h = Inr h1" "rb_linked (rbh_nodes h1) (rb_up cs) u" "rbh_root h1 = rbh_root h"
      and f1: "rb_frame (set (addrs u)) h h1" by blast
  have "rb_ctx_linked (rbh_nodes h1) (Some x) cs" using rb_frame_ctx [OF f1 lk(7)] lk(2) by simp
  from replace_child_linked [OF this lk(4), of "rb_root u"] lk(5,8) h1(3) obtain h2 where
    h2: "replace_child (rb_up cs) (Some x) (rb_root u) h1 = Inr h2" "rb_ctx_linked (rbh_nodes h2) (rb_root u) cs"
      "rbh_root h2 = rb_ctx_root (rb_root u) cs" and f2: "rb_frame (set (ctx_addrs cs)) h1 h2" by auto
  have "rb_rep h2 (plug cs u)" using rb_frame_linked [OF f2 lk(6)] h1(2) h2 lk by (simp add: rb_rep_plug)
  moreover have "rb_frame (set (addrs u) \<union> set (ctx_addrs cs)) h h2"
    by (rule rb_frame_trans [OF rb_frame_mono [OF f1] rb_frame_mono [OF f2]]) auto
  ultimately show ?thesis using h1(1) h2(1) by (simp add: leads_def)
qed

lemma leads_mono: "leads r A h t \<Longrightarrow> A \<subseteq> B \<Longrightarrow> leads r B h t"
  using rb_frame_mono by (auto simp: leads_def)

text \<open>What is left to do depends on the colour that went away.\<close>

lemma leads_remove_end:
  assumes rep: "rb_rep h (plug cs u)" and ok: "rbt n (branch d u (x, c) Leaf)" "ctx_rbt n cs" "c = RB_RED \<longrightarrow> up_black cs"
    and fuel: "length (addrs (plug cs u)) < fuel" and A: "set (addrs (plug cs u)) \<subseteq> A"
  shows "\<exists>t. leads (remove_end fuel c (rb_up cs) (rb_root u) h) A h t \<and> red_black t \<and> addrs t = addrs (plug cs u)"
proof (cases c)
  case RB_BLACK
  then obtain m where m: "n = Suc m" "rbt m u" using ok(1) by (cases n) auto
  then have "short m u" using rbt_paint_black by (auto simp: short_def)
  moreover have "length cs < fuel" using fuel length_ctx_addrs [of cs] by (simp add: length_addrs_plug)
  ultimately show ?thesis
    using leads_remove_color [OF rep, of m fuel A] del_fix_ok [of m u cs] addrs_del_fix [of cs u] ok(2) m A RB_BLACK
    by (auto simp: remove_end_def)
next
  case RB_RED
  then have "red_black (plug cs u)" using ok unfolding red_black_plug by auto
  then show ?thesis using leads_Inr [OF rep] RB_RED by (auto simp: remove_end_def)
qed

lemma red_black_focus:
  assumes "red_black (plug cs (branch d t (x, c) s))"
  shows "\<exists>n. rbt n (branch d t (x, c) s) \<and> ctx_rbt n cs \<and> (c = RB_RED \<longrightarrow> up_black cs)"
  using assms unfolding red_black_plug by auto

lemma leads_remove_single:
  assumes rep: "rb_rep h (plug cs (branch d u (x, c) Leaf))" and ok: "red_black (plug cs (branch d u (x, c) Leaf))"
    and fuel: "length (addrs (plug cs (branch d u (x, c) Leaf))) < fuel"
    and A: "set (addrs (plug cs (branch d u (x, c) Leaf))) \<subseteq> A"
  shows "\<exists>t. leads (remove_single fuel (Some x) (rb_root u) h) A h t \<and> red_black t \<and> addrs t = addrs (plug cs u)"
proof -
  obtain n where n: "rbt n (branch d u (x, c) Leaf)" "ctx_rbt n cs" "c = RB_RED \<longrightarrow> up_black cs" using red_black_focus [OF ok] by blast
  have f: "length (addrs (plug cs u)) < fuel" "set (addrs (plug cs u)) \<subseteq> A"
    using fuel A by (auto simp: length_addrs_plug set_addrs_plug addrs_branch split: if_splits)
  have one: "leads (bindE (reparent (rb_up cs) (rb_root u) h) (replace_child (rb_up cs) (Some x) (rb_root u))) A h (plug cs u)"
    by (rule leads_mono [OF unlink_entry [OF rep]]) (use f in \<open>simp add: set_addrs_plug\<close>)
  then obtain h1 where h1: "bindE (reparent (rb_up cs) (rb_root u) h) (replace_child (rb_up cs) (Some x) (rb_root u)) = Inr h1"
      "rb_rep h1 (plug cs u)" "rb_frame A h h1" by (auto simp: leads_def)
  from leads_remove_end [OF h1(2) n f] obtain t where
    t: "leads (remove_end fuel c (rb_up cs) (rb_root u) h1) A h1 t" "red_black t" "addrs t = addrs (plug cs u)" by blast
  have "entry_at (Some x) h = Inr (entry d (rb_root u) None (rb_up cs) c)" using rep by (simp add: rb_rep_plug)
  then have "remove_single fuel (Some x) (rb_root u) h =
      bindE (bindE (reparent (rb_up cs) (rb_root u) h) (replace_child (rb_up cs) (Some x) (rb_root u))) (remove_end fuel c (rb_up cs) (rb_root u))"
    by (simp add: remove_single_def)
  then have "leads (remove_single fuel (Some x) (rb_root u) h) A h t"
    using t(1) h1 rb_frame_trans [OF h1(3)] by (simp add: leads_def) blast
  with t show ?thesis by blast
qed

text \<open>Another address in the place of an entry.\<close>

lemma leads_take_place:
  assumes rep: "rb_rep h (plug cs (Node l (x, c) r))" and l: "l \<noteq> Leaf"
    and m: "m \<notin> set (addrs (plug cs (Node l (x, c) r)))" "rbh_nodes h m \<noteq> None"
  shows "leads (take_place (Some x) (Some m) h) (insert m (set (addrs (plug cs (Node l (x, c) r))))) h (plug cs (Node l (m, c) r))"
proof -
  let ?A = "insert m (set (addrs (plug cs (Node l (x, c) r))))" and ?E = "entry False (rb_root l) (rb_root r) (rb_up cs) c"
  have lk: "rbh_nodes h x = Some ?E" "rb_linked (rbh_nodes h) (Some x) l" "rb_linked (rbh_nodes h) (Some x) r"
      "rb_ctx_linked (rbh_nodes h) (Some x) cs" "rbh_root h = rb_ctx_root (Some x) cs"
    and dist: "distinct (addrs l)" "distinct (addrs r)" "distinct (ctx_addrs cs)"
    and neq: "m \<noteq> x" "m \<notin> set (addrs l)" "m \<notin> set (addrs r)" "m \<notin> set (ctx_addrs cs)" "x \<notin> set (addrs l)" "x \<notin> set (addrs r)"
      "x \<notin> set (ctx_addrs cs)"
    and disj: "set (addrs l) \<inter> set (addrs r) = {}" "set (addrs r) \<inter> set (addrs l) = {}" "set (addrs l) \<inter> set (ctx_addrs cs) = {}"
      "set (addrs r) \<inter> set (ctx_addrs cs) = {}" "set (ctx_addrs cs) \<inter> set (addrs l) = {}" "set (ctx_addrs cs) \<inter> set (addrs r) = {}"
    using rep m(1) by (auto simp: rb_rep_plug set_addrs_plug)
  define h1 where "h1 = put_entry m ?E h"
  have f1: "rb_frame {m} h h1" using m(2) by (auto simp: h1_def rb_frame_def)
  have "rb_ctx_linked (rbh_nodes h1) (Some x) cs" using rb_frame_ctx [OF f1, of cs] lk(4) neq by simp
  from replace_child_linked [OF this dist(3), of "Some m"] neq(7) lk(5) obtain h2 where
    h2: "replace_child (rb_up cs) (Some x) (Some m) h1 = Inr h2" "rb_ctx_linked (rbh_nodes h2) (Some m) cs"
      "rbh_root h2 = rb_ctx_root (Some m) cs" and f2: "rb_frame (set (ctx_addrs cs)) h1 h2" by (auto simp: h1_def)
  have "rb_linked (rbh_nodes h2) (Some x) l"
    using rb_frame_linked [OF f1, of l] rb_frame_linked [OF f2, of l] lk(2) neq disj by simp
  from reparent_linked [OF this dist(1), of "Some m"] obtain h3 where
    h3: "reparent (Some m) (rb_root l) h2 = Inr h3" "rb_linked (rbh_nodes h3) (Some m) l" "rbh_root h3 = rbh_root h2"
      and f3: "rb_frame (set (addrs l)) h2 h3" by blast
  have "rb_linked (rbh_nodes h3) (Some x) r"
    using rb_frame_linked [OF f1, of r] rb_frame_linked [OF f2, of r] rb_frame_linked [OF f3, of r] lk(3) neq disj by simp
  from reparent_linked [OF this dist(2), of "Some m"] obtain h4 where
    h4: "reparent (Some m) (rb_root r) h3 = Inr h4" "rb_linked (rbh_nodes h4) (Some m) r" "rbh_root h4 = rbh_root h3"
      and f4: "rb_frame (set (addrs r)) h3 h4" by blast
  have at: "rbh_nodes h1 x = Some ?E" "rbh_nodes h2 x = Some ?E" "rbh_nodes h3 x = Some ?E" "rbh_nodes h4 m = Some ?E"
    using rb_frame_same [OF f2] rb_frame_same [OF f3] rb_frame_same [OF f4] lk(1) neq by (simp_all add: h1_def)
  obtain em where em: "rbh_nodes h m = Some em" using m(2) by blast
  have "set_rb_parent (Some m) (rb_root l) h2 = Inr h3" using h3(1) l by (cases l) (simp_all add: reparent_def)
  then have "take_place (Some x) (Some m) h = Inr h4"
    using lk(1) em h2(1) h4(1) at by (simp add: take_place_def rb_side_def rb_parent_def h1_def)
  moreover have "rb_rep h4 (plug cs (Node l (m, c) r))"
    using rb_frame_linked [OF f4, of l] rb_frame_ctx [OF f3, of cs] rb_frame_ctx [OF f4, of cs] h2 h3 h4 at(4) dist neq disj
    by (auto simp: rb_rep_plug)
  moreover have "rb_frame ?A h h4"
    by (rule rb_frame_trans [OF rb_frame_mono [OF f1] rb_frame_trans [OF rb_frame_mono [OF f2]
          rb_frame_trans [OF rb_frame_mono [OF f3] rb_frame_mono [OF f4]]]]) (auto simp: set_addrs_plug)
  ultimately show ?thesis by (simp add: leads_def)
qed

text \<open>The leftmost entry of the right subtree takes the place of the entry.\<close>

lemma before_after_append: "before (ds @ cs) = before cs @ before ds" "after (ds @ cs) = after ds @ after cs"
proof (induction ds)
  case (Cons e ds)
  obtain d p s where "e = (d, p, s)" by (cases e)
  with Cons show "before ((e # ds) @ cs) = before cs @ before (e # ds)" "after ((e # ds) @ cs) = after (e # ds) @ after cs" by simp_all
qed simp_all

lemma before_left: "\<forall>e \<in> set ds. fst e = False \<Longrightarrow> before ds = []"
proof (induction ds)
  case (Cons e ds)
  then show ?case by (cases e) simp
qed simp

lemma ctx_rename:
  "ctx_rbt n (ds @ (d, (x, c), s) # cs) = ctx_rbt n (ds @ (d, (y, c), s) # cs)"
  "up_black (ds @ (d, (x, c), s) # cs) = up_black (ds @ (d, (y, c), s) # cs)"
proof (induction ds arbitrary: n)
  case (Cons e ds)
  { case 1
    show ?case using Cons by (cases e) simp
  next
    case 2
    show ?case by (cases e) simp }
qed simp_all

lemma up_rename:
  assumes "x \<notin> set (ctx_addrs ds)"
  shows "(if rb_up (ds @ (d, (x, c), s) # cs) = Some x then Some m else rb_up (ds @ (d, (x, c), s) # cs)) = rb_up (ds @ (d, (m, c), s) # cs)"
proof (cases ds)
  case (Cons e ds')
  obtain b p cp u where "e = (b, (p, cp), u)" by (cases e) auto
  with assms show ?thesis by (auto simp: Cons)
qed simp

lemma ctx_addrs_append [simp]: "ctx_addrs (ds @ cs) = ctx_addrs ds @ ctx_addrs cs"
proof (induction ds)
  case (Cons e ds)
  obtain b p cp u where "e = (b, (p, cp), u)" by (cases e) auto
  with Cons show ?case by simp
qed simp

lemma leads_remove_two:
  assumes rep: "rb_rep h (plug cs (Node l (x, c) r))" and ok: "red_black (plug cs (Node l (x, c) r))" and lr: "l \<noteq> Leaf" "r \<noteq> Leaf"
    and fuel: "length (addrs (plug cs (Node l (x, c) r))) < fuel" and A: "set (addrs (plug cs (Node l (x, c) r))) \<subseteq> A"
  shows "\<exists>t. leads (RB_REMOVE fuel (Some x) h) A h t \<and> red_black t \<and> addrs t = before cs @ addrs l @ addrs r @ after cs"
proof -
  have repr: "rb_rep h (plug ((True, (x, c), l) # cs) r)" using rep_sub [OF rep, of True] by simp
  have "height r \<le> fuel" using fuel height_addrs [of r] by (simp add: length_addrs_plug)
  from descend_eq [OF repr lr(2) this, of False] obtain ds m cm rm where
    d: "descend fuel False (rb_root r) h = Inr (Some m)" "r = plug ds (branch False Leaf (m, cm) rm)" "\<forall>e \<in> set ds. fst e = False"
    by blast
  let ?cs1 = "ds @ (True, (x, c), l) # cs" and ?cs2 = "ds @ (True, (m, c), l) # cs"
  let ?M = "branch True rm (m, cm) Leaf"
  have M: "branch False Leaf (m, cm) rm = ?M" using branch_flip [of True Leaf "(m, cm)" rm] by simp
  have T: "plug cs (Node l (x, c) r) = plug ?cs1 ?M" by (simp add: d(2) M plug_append plug_branch) (simp add: branch_def)
  have T1: "plug ?cs1 rm = plug cs (Node l (x, c) (plug ds rm))" by (simp add: plug_append plug_branch) (simp add: branch_def)
  have T2: "plug ?cs2 rm = plug cs (Node l (m, c) (plug ds rm))" by (simp add: plug_append plug_branch) (simp add: branch_def)
  have repM: "rb_rep h (plug ?cs1 ?M)" using rep T by simp
  have px: "x \<notin> set (ctx_addrs ds)" "m \<notin> set (addrs rm)" "m \<notin> set (ctx_addrs ?cs1)" using repM by (auto simp: rb_rep_plug)
  have pm: "rbh_nodes h m = Some (entry True (rb_root rm) None (rb_up ?cs1) cm)" using repM by (simp add: rb_rep_plug)
  have A1: "set (addrs rm) \<union> set (ctx_addrs ?cs1) \<subseteq> A" "m \<in> A" using A by (auto simp: T set_addrs_plug)
  from unlink_entry [OF repM] obtain h1 where
    h1: "bindE (reparent (rb_up ?cs1) (rb_root rm) h) (replace_child (rb_up ?cs1) (Some m) (rb_root rm)) = Inr h1"
      "rb_rep h1 (plug ?cs1 rm)" "rb_frame (set (addrs rm) \<union> set (ctx_addrs ?cs1)) h h1" by (auto simp: leads_def)
  have m1: "rbh_nodes h1 m = rbh_nodes h m" using rb_frame_same [OF h1(3)] px by simp
  have "leads (take_place (Some x) (Some m) h1) (insert m (set (addrs (plug cs (Node l (x, c) (plug ds rm)))))) h1 (plug ?cs2 rm)"
    unfolding T2 by (rule leads_take_place) (use h1(2) lr px pm m1 in \<open>simp_all add: T1 [symmetric] set_addrs_plug\<close>)
  then have "leads (take_place (Some x) (Some m) h1) A h1 (plug ?cs2 rm)"
    by (rule leads_mono) (use A1 in \<open>simp add: T1 [symmetric] set_addrs_plug\<close>)
  then obtain h2 where h2: "take_place (Some x) (Some m) h1 = Inr h2" "rb_rep h2 (plug ?cs2 rm)" "rb_frame A h1 h2"
    by (auto simp: leads_def)
  have "red_black (plug ?cs1 ?M)" using ok T by simp
  then obtain n where n: "rbt n ?M" "ctx_rbt n ?cs2" "cm = RB_RED \<longrightarrow> up_black ?cs2"
    using red_black_focus ctx_rename [where ds = ds and x = x and y = m] by blast
  have f: "length (addrs (plug ?cs2 rm)) < fuel" "set (addrs (plug ?cs2 rm)) \<subseteq> A"
    using fuel A1 by (auto simp: T length_addrs_plug set_addrs_plug addrs_branch)
  from leads_remove_end [OF h2(2) n f] obtain t where
    t: "leads (remove_end fuel cm (rb_up ?cs2) (rb_root rm) h2) A h2 t" "red_black t" "addrs t = addrs (plug ?cs2 rm)" by blast
  have "rb_parent (Some m) h1 = Inr (rb_up ?cs1)" using pm m1 by (simp add: rb_parent_def)
  then have "RB_REMOVE fuel (Some x) h = bindE (bindE (reparent (rb_up ?cs1) (rb_root rm) h)
      (replace_child (rb_up ?cs1) (Some m) (rb_root rm))) (\<lambda>h. bindE (rb_parent (Some m) h) (\<lambda>up. bindE (take_place (Some x) (Some m) h)
        (remove_end fuel cm (if up = Some x then Some m else rb_up ?cs1) (rb_root rm))))"
    using reads_Node(1) [OF rep, of False] reads_Node(1) [OF rep, of True] lr d(1) pm
    by (simp add: RB_REMOVE_def Let_def cong: if_cong)
  then have "RB_REMOVE fuel (Some x) h = remove_end fuel cm (rb_up ?cs2) (rb_root rm) h2"
    using h1(1) h2(1) \<open>rb_parent (Some m) h1 = _\<close> up_rename [OF px(1), of True c l cs m] by simp
  moreover have "rb_frame A h h2" using h1(3) h2(3) A1 rb_frame_mono rb_frame_trans by blast
  ultimately have "leads (RB_REMOVE fuel (Some x) h) A h t" using t(1) rb_frame_trans by (auto simp: leads_def)
  moreover have "addrs t = before cs @ addrs l @ addrs r @ after cs"
    using before_left [OF d(3)] t(3) by (simp add: d(2) addrs_plug before_after_append addrs_branch)
  ultimately show ?thesis using t(2) by blast
qed

lemma RB_REMOVE_list:
  assumes h: "rb_holds h xs" and x: "x \<in> set xs" and fuel: "length xs < fuel"
  shows "\<exists>h'. RB_REMOVE fuel (Some x) h = Inr h' \<and> rb_holds h' (remove1 x xs) \<and> rb_frame (set xs) h h'"
proof -
  obtain t where t: "rb_rep h t" "red_black t" "addrs t = xs" using h by (auto simp: rb_holds_def)
  then have dist: "distinct xs" by (auto simp: rb_rep_def)
  obtain us vs where xs: "xs = us @ x # vs" using split_list [OF x] by blast
  from addrs_focus [of t us x vs] t(3) dist xs obtain cs l c r where
    f: "t = plug cs (Node l (x, c) r)" "us = before cs @ addrs l" "vs = addrs r @ after cs" by auto
  have rm: "remove1 x xs = before cs @ addrs l @ addrs r @ after cs" using dist xs f(2,3) by (simp add: remove1_append)
  have "\<exists>t'. leads (RB_REMOVE fuel (Some x) h) (set xs) h t' \<and> red_black t' \<and> addrs t' = remove1 x xs"
  proof (cases "l = Leaf \<or> r = Leaf")
    case True
    define d where "d \<longleftrightarrow> l = Leaf"
    let ?u = "if d then r else l"
    have N: "Node l (x, c) r = branch d ?u (x, c) Leaf" using True by (auto simp: d_def branch_def)
    have "rb_rep h (plug cs (branch d ?u (x, c) Leaf))" "red_black (plug cs (branch d ?u (x, c) Leaf))"
      "length (addrs (plug cs (branch d ?u (x, c) Leaf))) < fuel" "set (addrs (plug cs (branch d ?u (x, c) Leaf))) \<subseteq> set xs"
      using t fuel by (simp_all add: f(1) flip: N)
    from leads_remove_single [OF this] obtain t' where
      "leads (remove_single fuel (Some x) (rb_root ?u) h) (set xs) h t'" "red_black t'" "addrs t' = addrs (plug cs ?u)" by blast
    moreover have "addrs (plug cs ?u) = remove1 x xs" using True by (auto simp: rm d_def addrs_plug)
    moreover have "RB_REMOVE fuel (Some x) h = remove_single fuel (Some x) (rb_root ?u) h"
      using reads_Node(1) [of h cs l x c r] t(1) True by (auto simp: RB_REMOVE_def f(1) d_def)
    ultimately show ?thesis by auto
  next
    case False
    then show ?thesis using leads_remove_two [of h cs l x c r fuel "set xs"] t fuel rm by (auto simp: f(1))
  qed
  then show ?thesis using leads_holds by metis
qed

end
