(* ===== verification/Uv_Tree_Samples.thy ===== *)
theory Uv_Tree_Samples
  imports Uv_Tree_Edit
begin

text \<open>A red-black tree of three entries on which the properties of the trees are applied.\<close>

definition sample_rb_leaf :: rb_entry where
  "sample_rb_leaf = \<lparr>rbe_left = None, rbe_right = None, rbe_parent = Some 5, rbe_color = RB_RED\<rparr>"

definition sample_rb_head :: rb_head where
  "sample_rb_head = \<lparr>rbh_root = Some 5, rbh_nodes =
     (\<lambda>a. if a = 5 then Some \<lparr>rbe_left = Some 3, rbe_right = Some 8, rbe_parent = None, rbe_color = RB_BLACK\<rparr>
          else if a < 10 then Some sample_rb_leaf else None)\<rparr>"

definition sample_compare :: "nat \<Rightarrow> nat \<Rightarrow> int" where
  "sample_compare a b = int a - int b"

lemma sample_rb_holds: "rb_holds sample_rb_head [3, 5, 8]"
  unfolding rb_holds_def
  by (rule exI [of _ "Node (Node Leaf (3, RB_RED) Leaf) (5, RB_BLACK) (Node Leaf (8, RB_RED) Leaf)"])
    (auto simp: rb_rep_def red_black_def sample_rb_head_def sample_rb_leaf_def entry_def intro: exI [of _ 1])

lemma sample_falls: "falls (sample_compare 6) [3, 5, 8]"
  by (simp add: falls_def sample_compare_def)

end
