(* ===== verification/Spec2Isabelle.thy ===== *)
theory Spec2Isabelle
  imports Samples Uv_Samples Uv_Loop_Samples Uv_Multicast Uv_Tree_Samples
begin

text \<open>
  A verification development for post_dns (\<open>src/\<close>), a DNS relay in C on libuv: it answers questions from
  three caches and relays the others to an upstream server.

  \<^bold>\<open>The program and its model.\<close> Each part is a theory; its operations are functions named like the C ones,
  which take the state they change and return it in a result (\<open>Prelude\<close>) that is either a value or the way
  the run leaves the language: an access out of bounds, a use after free, a null pointer, indeterminate
  memory, an overflowing counter, a lock taken twice, a loop that does not end.

  \<^item> \<open>Prelude\<close>: machine types, results, checked arrays, counted loops, bytes of integers, memory cells.
  \<^item> \<open>String_T\<close>, \<open>Utils\<close> (\<open>src/src/string_t.c\<close>, \<open>utils.c\<close>): counted strings are byte lists; splitting,
    hashing, address texts, byte swaps.
  \<^item> \<open>Hash_Table\<close> (\<open>hash_table.c\<close>): a table is a list of chains of nodes, a freed node is marked.
    \<open>Hash_Table_Correct\<close> has the invariant \<open>ht_inv\<close>, the abstraction \<open>ht_lookup\<close> to a map, the refinement
    of every operation and the locale \<open>name_table\<close>; \<open>Table_Data\<close> and \<open>Table_Runs\<close> say what every run keeps,
    also of a table that is not well formed any more.
  \<^item> \<open>Message\<close>, \<open>Message_Encode\<close> (\<open>message.c\<close>): decoder and encoder. \<open>Message_Wire\<close> specifies the wire
    format, \<open>Message_Names\<close> compressed names, \<open>Message_Roundtrip\<close> the round trip, \<open>Message_Feature\<close> the key of
    a request, \<open>Message_Departures\<close> where the code departs from the format.
  \<^item> \<open>Logging\<close>, \<open>Config\<close> (\<open>logging.c\<close>, \<open>config.c\<close>, the logging functions of \<open>message.c\<close>).
  \<^item> \<open>Cache\<close> with the locale \<open>dns_cache\<close>, and its three providers \<open>Ipv4_Cache\<close>, \<open>Ipv6_Cache\<close> and
    \<open>Cname_Cache\<close> (\<open>ipv4_cache.c\<close>, \<open>ipv6_cache.c\<close>, \<open>cname_cache.c\<close>), each interpreting the locale.
  \<^item> \<open>Inet\<close>, \<open>Inet6\<close>, \<open>Inet_Api\<close> (\<open>libuv/src/inet.c\<close>, \<open>strscpy.c\<close>, \<open>uv-common.c\<close>): the address conversions of the
    bundled libuv. \<open>Inet6_Parse\<close>, \<open>Inet6_Words\<close>, \<open>Inet6_Correct\<close> and \<open>Inet6_Text\<close> prove what is printed and read
    for IPv6.
  \<^item> \<open>Socket\<close> (\<open>socket.c\<close>): the globals of the server as the record \<open>server_t\<close>, the two receive callbacks
    and the functions that send. \<open>Socket_Correct\<close> and \<open>Upstream\<close> prove what the callbacks do for messages with
    one question: \<open>answer_of\<close> and \<open>outcome\<close> specify the first, \<open>v4_update\<close>, \<open>v6_update\<close> and \<open>learned\<close> the second.
  \<^item> \<open>Server_Main\<close> (\<open>main.c\<close>): start-up, the signal and timer callbacks, and the event loop as the step relation
    \<open>server_step\<close> over datagrams, timer ticks and signals. \<open>Exchange\<close>, \<open>In_Flight\<close> (many clients at once) and
    \<open>Lifecycle\<close> are about whole runs.
  \<^item> \<open>Uv_Heap\<close>, \<open>Uv_Timer\<close> (\<open>libuv/src/heap-inl.h\<close>, \<open>timer.c\<close>): the timers of the event loop and the pointer heap
    that orders them. \<open>Uv_Heap_Tree\<close> has trees, positions and contexts and the locale \<open>node_order\<close>, which
    \<open>Uv_Timer_Correct\<close> interprets for timers; \<open>Uv_Heap_Links\<close>, \<open>Uv_Heap_Slots\<close> and \<open>Uv_Heap_Edit\<close> relate pointers to
    trees, \<open>Uv_Heap_Order\<close> and \<open>Uv_Heap_Correct\<close> prove that the heap refines a set; \<open>Clear_Timer\<close> is about the timer
    \<open>main\<close> starts.
  \<^item> \<open>Uv_Idna\<close> (\<open>libuv/src/idna.c\<close>): the UTF-8 decoder and the Punycode encoder; \<open>Uv_Idna_Correct\<close> proves that the
    encoder returns within its buffer on every input, \<open>Uv_Utf8\<close> that the decoder inverts UTF-8, and \<open>Uv_Punycode\<close>, with the
    decoder of RFC 3492 as reference, that what is written is read back as the name.
  \<^item> \<open>Uv_Queue\<close> (\<open>libuv/src/queue.h\<close>): the circular queues on their pointers, proved to be lists, with the locale
    \<open>list_queue\<close> for the loop that empties one into another; the theories below use lists for them.
  \<^item> \<open>Uv_Tree\<close> (\<open>libuv/include/uv/tree.h\<close>): the red-black trees on their pointers. \<open>Uv_Tree_Links\<close> relates pointers and
    rotations to trees, \<open>Uv_Tree_Balance\<close> has the colours and the two ways to restore them as functions on trees,
    \<open>Uv_Tree_Colors\<close> proves that the loops compute these, and \<open>Uv_Tree_Correct\<close> and \<open>Uv_Tree_Edit\<close> that a tree is the list
    of its entries in order (\<open>rb_holds\<close>), with \<open>Uv_Tree_Samples\<close> for a concrete one.
  \<^item> \<open>Uv_Io\<close> (\<open>libuv/src/unix/core.c\<close>, \<open>uv-common.h\<close>): the record \<open>net\<close> with the sockets, requests, watchers and queues of
    the loop, and the answers of the kernel as lists that calls consume; \<open>Uv_Io_Correct\<close> is about the table of watchers.
  \<^item> \<open>Uv_Udp\<close> (\<open>libuv/src/unix/udp.c\<close>, \<open>uv-common.c\<close>, \<open>core.c\<close>): sockets. \<open>Uv_Udp_Correct\<close> gives the loops over the two
    queues of requests as functions on lists, \<open>Uv_Udp_Order\<close> the invariant \<open>udp_inv\<close> of a socket and the step relation
    \<open>udp_step\<close> over requests and writable events, \<open>Uv_Udp_Ends\<close> the end of sending, failed batches, closing and receiving.
    \<open>Uv_Multicast\<close> has the options, groups and names of a socket.
  \<^item> \<open>Relay\<close>: the callbacks of \<open>socket.c\<close> and \<open>utils.c\<close> as callbacks of these sockets; what they send and receive are
    datagrams of \<open>Uv_Udp\<close>.
  \<^item> \<open>Uv_Watch\<close> (\<open>libuv/src/unix/loop-watcher.c\<close>): the prepare, check and idle handles, and what a round of them calls.
  \<^item> \<open>Uv_Loop\<close> (\<open>libuv/src/unix/core.c\<close>, \<open>linux.c\<close>): \<open>uv_run\<close> and \<open>uv__io_poll\<close>. The record \<open>event_loop\<close> holds the sockets, the
    timers and the watchers; what they share is put into each part while it runs, and the callbacks act on the whole loop.
    \<open>Uv_Loop_Correct\<close> is about how long it waits, \<open>Uv_Loop_Rule\<close> carries what all callbacks keep through \<open>uv_run\<close>, and
    \<open>Uv_Interest\<close> has the invariant \<open>interest_ok\<close> of the table of watchers, the queue of the changed ones and the kernel.
  \<^item> \<open>Samples\<close>, \<open>Uv_Samples\<close>, \<open>Uv_Loop_Samples\<close>: the concrete inputs of the witnesses.

  \<^bold>\<open>Fuel.\<close> \<open>createName\<close> recurses on positions of the buffer and \<open>follow_cname\<close> on names of a table; both run
  with a fuel above the number of states they can pass without repeating one (\<open>createName_fuel\<close>,
  \<open>chain_fuel\<close>), so running out of it is proved to be divergence. The loops of the timer heap climb or descend
  at most as many levels as it has nodes, and \<open>uv__run_timers\<close> needs a round more than there are timers due.
  \<open>write_rest\<close> handles a larger character in each round, so it needs fewer rounds than the label has bytes.
  \<open>completed_loop\<close> and \<open>recvmsg_loop\<close> need a round more than there are requests and datagrams; the callbacks may make
  more of both, so the fuel is an argument. \<open>uv_run\<close> has one fuel for these loops and another for its own rounds and the
  waits of a poll, which depend on the kernel; a poll that must not block needs 48. Calls the kernel interrupts are repeated while it has answers; a call
  without an answer counts as one that does not return.

  \<^bold>\<open>Not modelled.\<close> The contents of freed memory and the leaks of buffers; \<open>printf\<close> and \<open>vsnprintf\<close> beyond the
  strings they insert; libuv's system calls, whose results are arguments; a second thread, the program having
  one; of libuv \<open>io_uring\<close>, the metrics, the watchers of the loop itself, the handles the program does not use, and Windows. The time, fresh memory, files and command line are arguments.
\<close>

section \<open>The relay\<close>









text \<open>C6: a reply from upstream is delivered to the client filed under its question and id, and its records
  go into the caches.\<close>

theorem reply_is_relayed:
  assumes "srv_inv s" "request m q number base"
    and "ht_room (ipv4_table s)" "ht_room (ipv6_table s)" "room_for (length (answer_list m)) (cname_table s)"
    and "ht_lookup (clients_hash_table s) (feature_of m) = Some address"
    and "ht_removable (clients_hash_table s) (feature_of m)"
  shows "\<exists>s'. query_socket_read now number base s = Inr s' \<and> srv_inv s' \<and>
     sent s' = sent s @ [\<lparr>pk_socket = Bind_Socket, pk_buf = wire_packet (prepare_message m), pk_to = address\<rparr>] \<and>
     ht_lookup (clients_hash_table s') = (ht_lookup (clients_hash_table s))(feature_of m := None) \<and>
     ht_lookup (ipv4_table s') = v4_update now (answer_list m) (ht_lookup (ipv4_table s)) \<and>
     ht_lookup (ipv6_table s') = v6_update now (answer_list m) (ht_lookup (ipv6_table s)) \<and>
     ht_lookup (cname_table s') = ht_lookup (cname_table s) ++ learned now (answer_list m)"
  by (rule query_socket_read_correct [OF assms])

theorem reply_is_relayed_witness:
  "\<exists>tc. hash_table_put hash_table_new (Some (feature_of sample_reply)) (Some sample_client) = Inr tc \<and>
     (\<exists>s'. query_socket_read 100 40 (sample_datagram sample_reply)
          (sample_server\<lparr>clients_hash_table := tc\<rparr>) = Inr s' \<and>
        sent s' = sent sample_server @ [\<lparr>pk_socket = Bind_Socket,
          pk_buf = wire_packet (prepare_message sample_reply), pk_to = sample_client\<rparr>])"
proof -
  let ?k = "feature_of sample_reply"
  from sample_put [of ?k sample_client] obtain tc where
    tc: "hash_table_put hash_table_new (Some ?k) (Some sample_client) = Inr tc" "ht_inv tc"
    "ht_lookup tc = [?k \<mapsto> sample_client]" "ht_removable tc ?k" by blast
  let ?s = "sample_server\<lparr>clients_hash_table := tc\<rparr>"
  have "srv_inv ?s" using sample_idle tc(2) by (simp add: idle_def srv_inv_def)
  from reply_is_relayed [OF this sample_request(2), of sample_client 100] tc sample_idle
    sample_room [of "length (answer_list sample_reply)"]
  show ?thesis by (auto simp: idle_def srv_room_def answer_list_def sample_reply_def)
qed

section \<open>Invariants of every run\<close>

text \<open>C7: whatever datagrams arrive and whatever else happens, a packet of the server socket goes to an
  address that has sent a datagram before, and a packet of the query socket goes to the upstream server.\<close>

theorem packets_go_where_they_should:
  assumes "server_runs (Running s) es (Running s')" "sends_to asked s"
    and "\<Union> (event_source ` set es) \<subseteq> asked" "p \<in> set (sent s')"
  shows "pk_to p \<in> (if pk_socket p = Bind_Socket then asked else {dns_address s})"
proof -
  from server_runs_sends_to [OF assms(1-3)] have "sends_to asked s'" "dns_address s' = dns_address s" by simp_all
  with assms(4) show ?thesis unfolding sends_to_def by metis
qed

theorem packets_go_where_they_should_witness:
  "\<exists>s' p. server_runs (Running sample_server)
       [Client_Datagram 21 (sample_datagram sample_query) sample_client] (Running s') \<and> p \<in> set (sent s') \<and>
     pk_to p \<in> (if pk_socket p = Bind_Socket then {sample_client} else {dns_address sample_server})"
proof -
  let ?e = "Client_Datagram 21 (sample_datagram sample_query) sample_client"
  have "room_for (length (answer_list sample_reply)) (cname_table sample_server)"
    by (simp add: sample_room answer_list_def sample_reply_def)
  moreover have "msg_id sample_reply = msg_id sample_query" by (simp add: sample_reply_def)
  ultimately obtain s1 where
    s1: "bind_socket_read sample_query 21 (sample_datagram sample_query) sample_client sample_server = Inr s1"
    "sent s1 \<noteq> []"
    using exchange_correct [OF sample_idle _ sample_request(1) sample_miss sample_request(2), of sample_query
        sample_client 100] by auto
  then have "server_step (Running sample_server) ?e (Running s1)" by (auto simp: server_step_simps)
  from server_runs.step [OF server_runs.idle this] have run: "server_runs (Running sample_server) [?e] (Running s1)"
    by simp
  have start: "sends_to {sample_client} sample_server"
    by (simp add: sends_to_def sample_server_def started_def sample_blank_def)
  from s1(2) obtain p where p: "p \<in> set (sent s1)" by (cases "sent s1") auto
  have "pk_to p \<in> (if pk_socket p = Bind_Socket then {sample_client} else {dns_address sample_server})"
    by (rule packets_go_where_they_should [OF run start _ p]) (simp add: event_source_def)
  with p run show ?thesis by blast
qed

text \<open>C8: as long as the clear timer has not fired, the three caches are well-formed tables without empty
  address lists, whatever bytes the datagrams hold.\<close>

theorem caches_stay_well_formed:
  assumes "server_runs (Running s) es (Running s')" "caches_inv s" "Clear_Timer \<notin> set es"
  shows "caches_inv s'"
  by (rule server_runs_caches [OF assms])

theorem caches_stay_well_formed_witness:
  "\<exists>s'. server_runs (Running sample_server) [Client_Datagram 0 [] sample_client, Signal 15] (Running s') \<and>
     caches_inv s'"
proof -
  let ?e = "Client_Datagram 0 [] sample_client"
  have "server_step (Running sample_server) ?e (Running sample_server)"
    by (auto simp: server_step_simps bind_socket_read_def)
  moreover have "server_step (Running sample_server) (Signal 15) (Running sample_server)"
    by (simp add: server_step_simps sigint_callback_def SIGINT_def)
  ultimately have run: "server_runs (Running sample_server) [?e, Signal 15] (Running sample_server)"
    using server_runs.step [OF server_runs.step [OF server_runs.idle]] by fastforce
  have "caches_inv sample_server" using sample_idle by (simp add: idle_def srv_inv_def caches_inv_def)
  from caches_stay_well_formed [OF run this] run show ?thesis by auto
qed

section \<open>The codec\<close>

text \<open>C21: decoding what the encoder wrote gives back the message, for every message with one question that
  fits a buffer.\<close>

theorem decode_encode:
  assumes "message_sound m" "query_count m = 1" "length (wire_message m) \<le> 1500" "message2buf m = Inr b"
  shows "buf2message b = Inr m"
  by (rule buf2message_message2buf [OF assms])

theorem decode_encode_witness:
  "\<exists>b. message2buf sample_reply = Inr b \<and> buf2message b = Inr sample_reply"
proof -
  have c: "query_count sample_reply = 1" "length (wire_message sample_reply) \<le> 1500"
    by (simp_all add: sample_wire_length) (simp add: sample_reply_def sample_query_def)
  obtain b where b: "message2buf sample_reply = Inr b"
    using message2buf_correct [OF message_sound_encodable [OF sample_reply_sound c]] by blast
  from decode_encode [OF sample_reply_sound c b] b show ?thesis by blast
qed



text \<open>C23: the decompressing parser \<open>createName\<close> succeeds exactly on the names of RFC 1035 that fit 512
  bytes, with their dotted form.\<close>

theorem parsed_names_are_the_names_of_the_buffer:
  "createName (createName_fuel buf) buf p (replicate 512 0) 0 = Inr (q, arr, pos) \<longleftrightarrow>
     (\<exists>ls. name_at buf p ls q \<and> arr = name_buf (dotted ls) \<and> pos = length (dotted ls) \<and> pos \<le> 512)"
  by (rule createName_correct)

text \<open>A run of \<open>createName\<close> that ends with any fuel ends with the fuel of the model, which depends on
  the size of the buffer only; so the model says \<open>Diverges\<close> only where the recursion does not end.\<close>

theorem name_fuel_is_enough:
  "length arr = 512 \<and> pos \<le> 512 \<longrightarrow>
     (createName (createName_fuel buf) buf p arr pos = Inl Diverges \<longleftrightarrow>
        (\<forall>n. createName n buf p arr pos = Inl Diverges)) \<and>
     (createName n buf p arr pos = Inr r \<longrightarrow> createName (createName_fuel buf) buf p arr pos = Inr r)"
  using createName_fuel_enough createName_ends by blast

text \<open>A compression pointer that points to itself makes the recursion endless.\<close>

theorem pointer_to_itself_diverges:
  assumes "rd buf p = Inr c" "c AND 0xC0 = 0xC0" "rd buf (p + 1) = Inr d"
    "unat (char2Short (c AND 0x3F) d) = p"
  shows "createName n buf p arr pos = Inl Diverges"
  by (rule createName_self_pointer [OF assms])

text \<open>C24: a decoded datagram has sections of the announced lengths, and each record carries the kind of
  data its type says, so that logging and freeing the message run without fault.\<close>

theorem decoded_messages_are_well_formed:
  assumes "buf2message b = Inr m" "12 < buf_len b"
  shows "message_ok m \<and> (\<exists>out. message_log m = Inr out \<and> message_free m = Inr out)"
proof -
  have "message_ok m" by (rule buf2message_ok [OF assms])
  with message_log_ok [OF this] message_free_ok show ?thesis by metis
qed

theorem decoded_messages_are_well_formed_witness:
  "\<exists>m. buf2message \<lparr>buf_base = sample_datagram sample_reply, buf_len = 40\<rparr> = Inr m \<and> message_ok m"
proof -
  have "buf2message \<lparr>buf_base = sample_datagram sample_reply, buf_len = 40\<rparr> = Inr sample_reply"
    using sample_request(2) by (intro buf2message_wire [OF sample_reply_sound]) (simp_all add: request_def)
  from decoded_messages_are_well_formed [OF this] this show ?thesis by auto
qed

text \<open>The key a client is filed under determines the question and the id of its request.\<close>

theorem feature_string_identifies_request:
  assumes "queries m = Some [q]" "queries m' = Some [q']" "query_count m = 1" "query_count m' = 1"
  shows "message2feature_string m = message2feature_string m' \<longleftrightarrow> q = q' \<and> msg_id m = msg_id m'"
  using message2feature_string_correct [OF assms(1)] message2feature_string_correct [OF assms(2)]
    feature_of_inject [OF assms(1,2)] assms(3,4) by simp

text \<open>With two questions the encoder places the second one inside the first, over its last two bytes,
  and announces more bytes than it wrote.\<close>

theorem second_question_overwrites_first:
  assumes "flags_ok (msg_flags m)" "queries m = Some [q1, q2]" "query_count m = 2"
    and "name_ok (q_name q1)" "name_ok (q_name q2)" "answer_count m = 0"
    and "length (q_name q1) + length (q_name q2) + 24 \<le> 1500"
  shows "message2buf m =
     Inr \<lparr>buf_base = filled 1500 (wire_header m @ wire_name (q_name q1) @ be16 (q_type q1) @ wire_query q2),
          buf_len = 28 + 2 * length (q_name q1) + length (q_name q2)\<rparr>"
  by (rule message2buf_two_questions [OF assms])

definition sample_double :: message_t where
  "sample_double = sample_query\<lparr>query_count := 2, queries := Some [sample_question, sample_question]\<rparr>"

text \<open>A record that is neither A, CNAME nor AAAA is written without length and data, and the position
  after it is two bytes too low.\<close>

theorem other_records_are_cut_short:
  assumes "answers m = Some rrs" "k < length rrs" "name_ok (rr_name (rrs ! k))"
    "length p + length (wire_rr_head (rrs ! k)) \<le> cap" "start + bufPos = length p"
    "rr_type (rrs ! k) \<notin> {1, 5, 28}"
  shows "put_record m start k (filled cap p, bufPos) =
     Inr (filled cap (p @ wire_rr_head (rrs ! k)), bufPos + length (wire_rr_head (rrs ! k)) - 2)"
  by (rule put_record_other_type [OF assms])

text \<open>A question for the root name makes the decoder write before its array, and a name of more than
  512 bytes past its end.\<close>

theorem question_names_out_of_bounds:
  "(rd buf p = Inr 0 \<longrightarrow> question_step buf k (p, qs) = Inl Out_Of_Bounds) \<and>
   (has_at buf p (wire_labels ls) \<and> labels_below 256 ls \<and> 512 < length (dotted ls) \<longrightarrow>
      question_step buf k (p, qs) = Inl Out_Of_Bounds)"
  using question_step_root question_step_overflow by blast

text \<open>\<open>string_split\<close> cuts a string at every separator: the pieces joined by it give the string, and no
  piece holds it.\<close>

theorem string_split_cuts_at_separators:
  "\<exists>arr. string_split str sep = Inr arr \<and> array arr = map Some (splits sep str) \<and>
     split_length arr = length (splits sep str) \<and> sep \<notin> \<Union> (set (map set (splits sep str))) \<and>
     concat (map (\<lambda>w. w @ [sep]) (splits sep str)) = str @ [sep]"
  using string_split_correct [of str sep] splits_pieces [of _ sep str] splits_join [of sep str] by auto

section \<open>Tables and caches\<close>

text \<open>C25: in a table within its invariant, \<open>hash_table_put\<close> succeeds and afterwards \<open>hash_table_get\<close>
  finds the stored data under that name and what was there before under every other name, also when
  the insertion resizes the table.\<close>

theorem put_then_get:
  assumes "ht_inv t" "ht_room t"
  shows "\<exists>t'. hash_table_put t (Some k) (Some d) = Inr t' \<and> ht_inv t' \<and>
     (\<forall>k'. hash_table_get t' k' = Inr (if k' = k then Some d else ht_lookup t k'))"
  using put_correct [OF assms, of k d] by (auto simp: ht.get_law)

theorem put_then_get_witness:
  "\<exists>t'. hash_table_put hash_table_new (Some [97, 46, 98]) (Some (7 :: nat)) = Inr t' \<and> ht_inv t' \<and>
     (\<forall>k'. hash_table_get t' k' =
        Inr (if k' = [97, 46, 98] then Some 7 else ht_lookup hash_table_new k'))"
  by (rule put_then_get) (rule new_correct)+

text \<open>C26: removing a name forgets it and nothing else, as long as at most one name follows it in the slot
  it heads, and it is in the chain when it does not head the slot.\<close>

theorem remove_then_get:
  assumes "ht_inv t" "ht_removable t k"
  shows "\<exists>t'. hash_table_remove t k = Inr t' \<and> ht_inv t' \<and>
     (\<forall>k'. hash_table_get t' k' = Inr (if k' = k then None else ht_lookup t k'))"
  using remove_correct [OF assms] by (auto simp: ht.get_law)

theorem remove_then_get_witness:
  "\<exists>t t'. hash_table_put hash_table_new (Some [97]) (Some (7 :: nat)) = Inr t \<and>
     hash_table_remove t [97] = Inr t' \<and> hash_table_get t' [97] = Inr None"
proof -
  from sample_put [of "[97]" "7 :: nat"] obtain t where
    "hash_table_put hash_table_new (Some [97]) (Some (7 :: nat)) = Inr t" "ht_inv t" "ht_removable t [97]" by blast
  with remove_then_get [of t "[97]"] show ?thesis by auto
qed

text \<open>C27: removing the first of three or more names of a slot frees the node of the third while it is still
  linked: every later access behind the second name is a use after free.\<close>

theorem remove_first_of_three_dangles:
  assumes "ht_inv t" "ht_entries t k = (k, v) # e1 # e2 # es"
  shows "\<exists>t'. hash_table_remove t k = Inr t' \<and>
     (\<forall>k'. ht_index (ht_capacity t) k' = ht_index (ht_capacity t) k \<and> k' \<noteq> fst e1 \<longrightarrow>
        hash_table_get t' k' = Inl Use_After_Free \<and>
        hash_table_put t' (Some k') (Some d) = Inl Use_After_Free)"
  using remove_dangles [OF assms, of d] by blast

text \<open>A table of one slot, so that all names share it.\<close>

definition one_slot :: "(string_t \<times> nat) list \<Rightarrow> nat hash_table_t" where
  "one_slot es = \<lparr>ht_table = [embed_bucket es], ht_lock = False, ht_count = length es, ht_capacity = 1,
     ht_threshold = 9\<rparr>"

lemma one_slot_facts:
  "distinct (map fst es) \<Longrightarrow> ht_inv (one_slot es)" "ht_entries (one_slot es) k = es" "ht_index 1 k = 0"
  by (simp_all add: ht_inv_def ht_wf_def one_slot_def bucket_ok_def ht_size_def ht_index_def ht_entries_def Let_def)

theorem remove_first_of_three_dangles_witness:
  "\<exists>t'. hash_table_remove (one_slot [([97], 1), ([98], 2), ([99], 3)]) [97] = Inr t' \<and>
     hash_table_get t' [99] = Inl Use_After_Free"
proof -
  let ?t = "one_slot [([97], 1), ([98], 2), ([99], 3)]"
  have inv: "ht_inv ?t" by (rule one_slot_facts) simp
  have e: "ht_entries ?t [97] = ([97], 1) # ([98], 2) # ([99], 3) # []" by (rule one_slot_facts)
  have "ht_index (ht_capacity ?t) k = 0" for k by (simp add: one_slot_def ht_index_def)
  with remove_first_of_three_dangles [OF inv e, of 0] show ?thesis by auto
qed

text \<open>Removing a name that is not in its non-empty slot dereferences a null pointer.\<close>

theorem remove_absent_crashes:
  assumes "ht_inv t" "ht_lookup t k = None" "ht_entries t k \<noteq> []"
  shows "hash_table_remove t k = Inl Null_Deref"
  using remove_absent [OF assms(1,2)] assms(3) by simp

text \<open>\<open>resize\<close> keeps what the table holds, but counts every entry a second time, so the counter is no
  longer the number of entries.\<close>

theorem resize_counts_twice:
  assumes "ht_wf t" "ht_count t + ht_size t \<le> INT_MAX" "2 * ht_capacity t + 1 \<le> INT_MAX"
  shows "\<exists>t'. resize t = Inr t' \<and> ht_wf t' \<and> ht_lookup t' = ht_lookup t \<and> ht_size t' = ht_size t \<and>
     ht_capacity t' = 2 * ht_capacity t + 1 \<and> ht_count t' = ht_count t + ht_size t"
  using resize_correct [OF assms] by blast

text \<open>C28: the two passes over the questions agree: the second writes exactly as many records as the first
  counted, so the array of answers is filled and not overrun.\<close>

theorem answer_array_is_filled_exactly:
  assumes "srv_inv s" "first_pass s qs = Inr st" "cached st" "\<not> banned st"
  shows "\<exists>rrs. second_pass (s\<lparr>ipv4_table := lookup_table st\<rparr>) qs (reply_count st) = Inr rrs \<and>
     length rrs = reply_count st"
  using second_pass_fits [OF assms] by metis

theorem answer_array_is_filled_exactly_witness:
  "\<exists>st rrs. first_pass sample_server [sample_question\<lparr>q_type := 2\<rparr>] = Inr st \<and>
     second_pass (sample_server\<lparr>ipv4_table := lookup_table st\<rparr>) [sample_question\<lparr>q_type := 2\<rparr>] (reply_count st) = Inr rrs \<and>
     length rrs = reply_count st"
proof -
  let ?st = "\<lparr>cached = True, banned = False, reply_count = 0, lookup_table = ipv4_table sample_server\<rparr>"
  have "first_pass sample_server [sample_question\<lparr>q_type := 2\<rparr>] = Inr ?st"
    by (simp add: first_pass_def forE_one lookup_query_def arr_get_def Let_def)
  moreover have "srv_inv sample_server" using sample_idle by (simp add: idle_def)
  ultimately show ?thesis
    using answer_array_is_filled_exactly [of sample_server "[sample_question\<lparr>q_type := 2\<rparr>]" ?st] by fastforce
qed

text \<open>C29: following aliases yields exactly the chain of aliases of the cache, with the fuel of the model.\<close>

theorem alias_loop_follows_the_chain:
  assumes "ht_inv t"
  shows "follow_cname (chain_fuel t) t domain = Inr (links, final) \<longleftrightarrow> cname_chain t domain links final"
  by (rule follow_cname_correct [OF assms])

theorem alias_loop_follows_the_chain_witness:
  "follow_cname (chain_fuel hash_table_new) hash_table_new sample_name = Inr ([], sample_name)"
proof -
  have "cname_chain hash_table_new sample_name [] sample_name"
    by (rule chain_end) (simp add: cname_next_def new_correct)
  with alias_loop_follows_the_chain [OF new_correct(1)] show ?thesis by simp
qed

text \<open>An alias that leads back to itself, which one reply from upstream can set up, keeps the loop of
  the request callback from ending.\<close>

theorem alias_cycle_never_ends:
  assumes "ht_inv t" "ht_lookup t domain = Some c" "cn_name c = domain"
  shows "follow_cname n t domain = Inl Diverges"
  by (rule follow_cname_cycle [OF assms(1), of 0]) (use assms(2,3) in \<open>simp add: cname_next_def\<close>)

text \<open>An entry put into the cache of A records is found again with its addresses and the time of the
  put, other names keep theirs; an entry marked manual stays as it was.\<close>

theorem ipv4_cache_keeps_what_is_put:
  assumes "ht_inv t" "ht_room t" "ipv4_cache_put now t k c = Inr t'"
  shows "ipv4_cache_get t' k' =
     Inr (if k' = k \<and> (\<nexists>old. ht_lookup t k = Some old \<and> v4_manual old) then Some (ipv4_item now c)
          else ht_lookup t k')"
proof (cases "\<exists>old. ht_lookup t k = Some old \<and> v4_manual old")
  case True
  with v4.put_law [OF assms(1,2), of now k c] assms(3) show ?thesis by (auto simp: v4.get_law)
next
  case False
  with v4.get_after_put [OF assms(1,2) _ assms(3), of k'] show ?thesis by auto
qed

text \<open>The mark an entry of the configuration file carries is dropped by the put, so no entry of the
  cache is manual and all of them expire.\<close>

theorem manual_mark_is_dropped:
  assumes "ht_inv t" "ht_room t" "ht_lookup t k = None" "ipv4_cache_put now t k c = Inr t'"
  shows "\<exists>e. ipv4_cache_get t' k = Inr (Some e) \<and> \<not> v4_manual e \<and> (now + v4_ttl c < later \<longrightarrow> ipv4_stale later e)"
  using v4.get_after_put [OF assms(1,2) _ assms(4), of k] assms(3)
  by (simp add: ipv4_item_def ipv4_stale_def)



section \<open>The process\<close>

text \<open>C32: a well-formed command line gives the configuration its options describe, later options
  overriding earlier ones; the level of the configuration stays at its default.\<close>

theorem options_are_applied_in_order:
  assumes "list_all cli_ok opts"
  shows "\<exists>logs. config_init level (prog # concat (map cli_args opts)) =
     Inr (Configured \<lparr>config = fold cli_apply opts default_config, logging_level = level, config_log = logs\<rparr>)"
  by (rule config_init_options [OF assms])

theorem options_are_applied_in_order_witness:
  "\<exists>logs. config_init logging_information_level
       [[112], [45, 115], [49], [120], [45, 115], [50]] =
     Inr (Configured \<lparr>config = default_config\<lparr>upstream_name := Some [50]\<rparr>,
       logging_level = logging_information_level, config_log = logs\<rparr>)"
  using options_are_applied_in_order [of "[Opt_server [49], Opt_word [120], Opt_server [50]]"
      logging_information_level "[112]"]
  by (simp add: char_at_def ascii_def)

text \<open>Started without a configuration file and with a dotted upstream address, the server comes up idle,
  with empty caches and that address.\<close>

theorem main_starts_idle:
  assumes "list_all cli_ok opts" "c = fold cli_apply opts default_config" "ipv4_config_file c = None"
    and "upstream_name c = Some u" "c_str u = dotted_quad (le32 up)" "\<forall>i. bind_result i = 0"
  shows "main blank bind_result frame files now level (prog # concat (map cli_args opts)) =
     Inr (Some (started blank up)) \<and> idle (started blank up)"
  by (rule main_correct [OF assms])

lemma default_upstream: "c_str (ascii ''10.3.9.44'') = dotted_quad (le32 0x2C09030A)"
  by (simp add: ascii_def c_str_def le32_def dotted_quad_def dec_digits.simps)

text \<open>C33: with a configuration file whose first line has two fields, start-up writes past the end of a
  stack array.\<close>

theorem configuration_file_overruns:
  assumes "list_all cli_ok opts" "c = fold cli_apply opts default_config" "ipv4_config_file c = Some fn"
    and "files fn = Some (name @ 32 # field @ 10 # rest)"
    and "{0, 10, 32} \<inter> set name = {}" "{0, 10, 32} \<inter> set field = {}" "length name + length field < 1000"
    and "upstream_name c = Some u" "c_str u = dotted_quad (le32 up)" "\<forall>i. bind_result i = 0"
  shows "main blank bind_result malloc_cells files now level (prog # concat (map cli_args opts)) = Inl Out_Of_Bounds"
  by (rule main_config_file [where files = files and fn = fn and name = name and field = field and rest = rest,
      OF assms])

theorem configuration_file_overruns_witness:
  "main sample_blank (\<lambda>_. 0) malloc_cells (\<lambda>_. Some ([97] @ 32 # [49] @ 10 # [])) 0 logging_information_level
     [[112], [45, 52], [102]] = Inl Out_Of_Bounds"
  using configuration_file_overruns [of "[Opt_ipv4 [102]]" _ "[102]" "\<lambda>_. Some ([97] @ 32 # [49] @ 10 # [])" "[97]"
      "[49]" "[]" "ascii ''10.3.9.44''" "0x2C09030A" "\<lambda>_. 0" sample_blank 0 logging_information_level "[112]"]
  by (simp add: default_config_def default_upstream) (simp add: ascii_def)

section \<open>Addresses\<close>

text \<open>C34: \<open>inet_pton4\<close> accepts exactly the canonical dotted texts, with their four bytes, and never reads or
  writes out of bounds.\<close>

theorem pton4_accepts_dotted_quads:
  "(inet_pton4 src = Inr (Inr bs) \<longleftrightarrow> length bs = 4 \<and> c_str src = dotted_quad bs) \<and> (\<exists>r. inet_pton4 src = Inr r)"
  using inet_pton4_correct inet_pton4_total by blast

text \<open>The text \<open>uv_ip4_name\<close> writes for an address is read back as that address by \<open>uv_ip4_addr\<close>.\<close>

theorem address_text_round_trip:
  assumes "16 \<le> n" "n \<le> length dst"
  shows "\<exists>s dst'. uv_ip4_name a dst n = Inr (0, dst') \<and> has_at dst' 0 (s @ [0]) \<and> 0 \<notin> set s \<and>
     uv_ip4_addr (Some s) port = Inr (0, \<lparr>sin_family = AF_INET, sin_port = htons port, s_addr = s_addr a\<rparr>)"
proof -
  let ?q = "dotted_quad (le32 (s_addr a))"
  have "uv_ip4_name a dst n = Inr (0, map Some (?q @ [0]) @ drop (Suc (length ?q)) dst)"
    using inet_ntop4_text [of "le32 (s_addr a)" n dst] assms by (simp add: uv_ip4_name_def uv_inet_ntop_def le32_def)
  moreover have "uv_ip4_addr (Some ?q) port =
      Inr (0, \<lparr>sin_family = AF_INET, sin_port = htons port, s_addr = s_addr a\<rparr>)"
    by (rule uv_ip4_addr_text) (simp add: c_str_self dotted_quad_text)
  ultimately show ?thesis
    using has_at_map_Some [of "?q @ [0]"] dotted_quad_text(1) [of "le32 (s_addr a)"] by blast
qed

text \<open>C35: the text \<open>uv_ip6_name\<close> writes for an IPv6 address, with its longest run of zeros shortened or an IPv4
  address at its end, fits 46 bytes and is read back as that address by \<open>uv_ip6_addr\<close>.\<close>

theorem ipv6_text_round_trip:
  assumes "length (sin6_addr a) = 16" "46 \<le> n" "n \<le> length dst"
  shows "\<exists>s dst'. uv_ip6_name a dst n = Inr (0, dst') \<and> has_at dst' 0 (s @ [0]) \<and> 0 \<notin> set s \<and> length s \<le> 45 \<and>
     uv_ip6_addr if_nametoindex s port =
       Inr (0, \<lparr>sin6_family = AF_INET6, sin6_port = htons port, sin6_flowinfo = 0, sin6_addr = sin6_addr a,
                sin6_scope_id = 0\<rparr>)"
proof -
  obtain s where "uv_ip6_name a dst n = Inr (0, map Some (s @ [0]) @ drop (Suc (length s)) dst)" "plain s" "length s \<le> 45"
    "\<forall>ifs port. uv_ip6_addr ifs s port = Inr (0, \<lparr>sin6_family = AF_INET6, sin6_port = htons port, sin6_flowinfo = 0,
        sin6_addr = sin6_addr a, sin6_scope_id = 0\<rparr>)"
    using uv_ip6_name_text [OF assms] by blast
  then show ?thesis using has_at_map_Some [of "s @ [0]"] unfolding plain_def by blast
qed

theorem ipv6_text_round_trip_witness:
  "\<exists>s dst'. uv_ip6_name sample_client6 (malloc_cells 46) 46 = Inr (0, dst') \<and> has_at dst' 0 (s @ [0]) \<and>
     uv_ip6_addr (\<lambda>_. 0) s 53 =
       Inr (0, \<lparr>sin6_family = AF_INET6, sin6_port = htons 53, sin6_flowinfo = 0, sin6_addr = sin6_addr sample_client6,
                sin6_scope_id = 0\<rparr>)"
  using ipv6_text_round_trip [of sample_client6 46 "malloc_cells 46" "\<lambda>_. 0" 53]
  by (auto simp: malloc_cells_def sample_client6_def)

text \<open>C36: on every text \<open>inet_pton6\<close> returns without leaving its arrays, and what it accepts is sixteen bytes.\<close>

theorem pton6_stays_in_bounds:
  "(\<exists>e. inet_pton6 src = Inr (Inl e)) \<or> (\<exists>bs. inet_pton6 src = Inr (Inr bs) \<and> length bs = 16)"
  using inet_pton6_total [of src] inet_pton6_length [of src] by (metis sum.exhaust)

section \<open>Timers\<close>

text \<open>C9: the pointer heap of the timers is a priority queue: with room for a node, inserting it adds it to the set
  the heap holds; the heap's minimum is a least element, removing any element takes just that one out, and so does
  dequeuing the minimum. No operation fails, and the order of the heap and the fullness of its rows are kept.\<close>

theorem timer_heap_is_a_priority_queue:
  assumes "holds (node_less_than m) h A" "x \<notin> A" "hp_nodes h x \<noteq> None" "unat (hp_nelts h) + 1 < 2 ^ 32"
  shows "\<exists>h1 k. heap_insert (node_less_than m) x h = Inr h1 \<and> holds (node_less_than m) h1 (insert x A) \<and>
     hp_nelts h1 = hp_nelts h + 1 \<and>
     heap_min h1 = Some k \<and> k \<in> insert x A \<and> (\<forall>y \<in> insert x A. \<not> node_less_than m y k) \<and>
     (\<forall>y \<in> insert x A. \<exists>h2. heap_remove (node_less_than m) y h1 = Inr h2 \<and>
        holds (node_less_than m) h2 (insert x A - {y}) \<and> hp_nelts h2 = hp_nelts h) \<and>
     (\<exists>h2. heap_dequeue (node_less_than m) h1 = Inr h2 \<and> holds (node_less_than m) h2 (insert x A - {k}))"
proof -
  obtain h1 where h1: "heap_insert (node_less_than m) x h = Inr h1" "holds (node_less_than m) h1 (insert x A)"
      "hp_nelts h1 = hp_nelts h + 1"
    using timer.heap_insert_holds [OF assms] by blast
  obtain k where k: "heap_min h1 = Some k" "k \<in> insert x A" "\<forall>y \<in> insert x A. \<not> node_less_than m y k"
    using timer.heap_min_holds [OF h1(2)] by (cases "heap_min h1") auto
  have rem: "\<exists>h2. heap_remove (node_less_than m) y h1 = Inr h2 \<and>
      holds (node_less_than m) h2 (insert x A - {y}) \<and> hp_nelts h2 = hp_nelts h" if "y \<in> insert x A" for y
    using timer.heap_remove_holds [OF h1(2) that] h1(3) by auto
  have "heap_dequeue (node_less_than m) h1 = heap_remove (node_less_than m) k h1"
    using k(1) by (simp add: heap_dequeue_def heap_min_def)
  then have "\<exists>h2. heap_dequeue (node_less_than m) h1 = Inr h2 \<and> holds (node_less_than m) h2 (insert x A - {k})"
    using rem [OF k(2)] by auto
  moreover have "\<forall>y \<in> insert x A. \<exists>h2. heap_remove (node_less_than m) y h1 = Inr h2 \<and>
      holds (node_less_than m) h2 (insert x A - {y}) \<and> hp_nelts h2 = hp_nelts h" using rem by blast
  ultimately show ?thesis using h1 k by blast
qed

theorem timer_heap_is_a_priority_queue_witness:
  "\<exists>h1 k. heap_insert (node_less_than (lp_timers sample_loop)) 1 sample_heap = Inr h1 \<and>
     holds (node_less_than (lp_timers sample_loop)) h1 {0, 1} \<and> heap_min h1 = Some k \<and> k \<in> {0, 1}"
  using timer_heap_is_a_priority_queue [OF sample_heap_holds, of 1 "lp_timers sample_loop"]
  by (auto simp: sample_heap_def insert_commute)

text \<open>C10: with callbacks that leave the loop alone, \<open>uv__run_timers\<close> returns as soon as its fuel exceeds the number of
  timers that are due, having called the callbacks of exactly these, each once, by time and then by the order
  they were started in; each is then stopped or due again after its repeat value, and all others are as before.\<close>

theorem timers_fire_in_order:
  assumes "timers_ok l" "lp_time l < - 1" "card (due l) < fuel"
    and "\<And>cb p s l. call cb p (s, l) = Inr (act cb p s, l)"
  shows "\<exists>ps l'. uv__run_timers fuel call (s, l) = Inr (run_callbacks act (lp_timers l) ps s, l') \<and>
     distinct ps \<and> set ps = due l \<and> sorted_wrt (\<lambda>p q. \<not> node_less_than (lp_timers l) q p) ps \<and>
     timers_ok l' \<and> lp_time l' = lp_time l \<and> due l' = {} \<and> (\<forall>q. q \<notin> due l \<longrightarrow> lp_timers l' q = lp_timers l q) \<and>
     (\<forall>q \<in> due l. \<exists>t t'. lp_timers l q = Some t \<and> lp_timers l' q = Some t' \<and> fired (lp_time l) t t')"
  by (rule uv__run_timers_due [OF assms])

theorem timers_fire_in_order_witness:
  "\<exists>l'. uv__run_timers 2 (\<lambda>cb p (s, l). Inr ((cb, p) # s, l)) ([], sample_loop) = Inr ([(3, 0)], l') \<and> due l' = {}"
proof -
  have "lp_time sample_loop < - 1" by (simp add: sample_loop_def)
  moreover have "card (due sample_loop) < 2" by (simp add: sample_loop_ok)
  ultimately obtain ps l' where
    "uv__run_timers 2 (\<lambda>cb p (s, l). Inr ((cb, p) # s, l)) ([], sample_loop) =
       Inr (run_callbacks (\<lambda>cb p s. (cb, p) # s) (lp_timers sample_loop) ps [], l')" "distinct ps" "set ps = {0}" "due l' = {}"
    using timers_fire_in_order [OF sample_loop_ok(1), where fuel = 2 and call = "\<lambda>cb p (s, l). Inr ((cb, p) # s, l)"
        and act = "\<lambda>cb p s. (cb, p) # s" and s = "[]"] unfolding sample_loop_ok(3) by auto
  moreover from this have "ps = [0]" by (cases ps; cases "tl ps") auto
  ultimately show ?thesis
    by (auto simp: run_callbacks_def sample_loop_def sample_timer_def container_of_def)
qed





text \<open>C18: the queue macros work on rings of pointers as on lists, and leave other queues alone: the two insertions, the
  removal of any node, the move to another head, the walk, and the loop that empties one queue into another.\<close>

theorem queue_macros_are_list_operations:
  assumes "ring m h xs" "ring m k ys" "set (h # xs) \<inter> set (k # ys) = {}" "queue_node m q" "q \<notin> set (h # xs @ k # ys)"
  shows "\<exists>m1 m2 m3 m4.
     QUEUE_INSERT_TAIL h q m = Inr m1 \<and> ring m1 h (xs @ [q]) \<and> ring m1 k ys \<and>
     QUEUE_INSERT_HEAD h q m = Inr m2 \<and> ring m2 h (q # xs) \<and> ring m2 k ys \<and>
     QUEUE_MOVE h q m = Inr m3 \<and> ring m3 h [] \<and> ring m3 q xs \<and> ring m3 k ys \<and>
     drain_queue (length xs + 1) h k m = Inr m4 \<and> ring m4 h [] \<and> ring m4 k (ys @ xs) \<and>
     QUEUE_EMPTY h m = Inr (xs = []) \<and> QUEUE_FOREACH (length xs) h m = Inr xs \<and>
     (\<forall>us x vs. xs = us @ x # vs \<longrightarrow>
        (\<exists>m5. QUEUE_REMOVE x m = Inr m5 \<and> ring m5 h (us @ vs) \<and> ring m5 k ys \<and> queue_node m5 x))"
proof -
  have q: "q \<notin> set (h # xs)" "q \<notin> set (k # ys)" using assms(5) by auto
  have frame: "ring m' k ys" if "only_nodes A m m'" "A \<subseteq> set (q # h # xs)" for A m'
  proof -
    have "set (k # ys) \<inter> A = {}" using that(2) assms(3) q(2) by auto
    then show ?thesis using only_nodes_ring [OF that(1), of k ys] assms(2) by simp
  qed
  obtain m1 where m1: "QUEUE_INSERT_TAIL h q m = Inr m1" "ring m1 h (xs @ [q])" "only_nodes (set (q # h # xs)) m m1"
    using QUEUE_INSERT_TAIL_ring [OF assms(1) q(1) assms(4)] .
  obtain m2 where m2: "QUEUE_INSERT_HEAD h q m = Inr m2" "ring m2 h (q # xs)" "only_nodes (set (q # h # xs)) m m2"
    using QUEUE_INSERT_HEAD_ring [OF assms(1) q(1) assms(4)] .
  obtain m3 where m3: "QUEUE_MOVE h q m = Inr m3" "ring m3 h []" "ring m3 q xs" "only_nodes (set (q # h # xs)) m m3"
    using QUEUE_MOVE_ring [OF assms(1) q(1) assms(4)] .
  obtain m4 where m4: "drain_queue (length xs + 1) h k m = Inr m4" "ring m4 h []" "ring m4 k (ys @ xs)"
    using drain_queue_moves [OF assms(1-3), of "length xs + 1"] by auto
  have "\<exists>m5. QUEUE_REMOVE x m = Inr m5 \<and> ring m5 h (us @ vs) \<and> ring m5 k ys \<and> queue_node m5 x" if xs: "xs = us @ x # vs" for us x vs
  proof -
    have r: "ring m h (us @ x # vs)" using assms(1) xs by simp
    obtain m5 where m5: "QUEUE_REMOVE x m = Inr m5" "ring m5 h (us @ vs)" "only_nodes (set (h # us @ x # vs)) m m5"
      by (rule QUEUE_REMOVE_ring [OF r])
    have "queue_node m5 x" using m5(3) node_atI [OF r, of x] by (simp add: only_nodes_def)
    moreover have "ring m5 k ys" using frame [OF m5(3)] xs by auto
    ultimately show ?thesis using m5(1,2) by blast
  qed
  then show ?thesis
    using m1(1,2) m2(1,2) m3(1-3) m4 frame [OF m1(3) subset_refl] frame [OF m2(3) subset_refl] frame [OF m3(4) subset_refl]
      QUEUE_EMPTY_ring [OF assms(1)] QUEUE_FOREACH_ring [OF assms(1) le_refl]
    by (intro exI [of _ m1] exI [of _ m2] exI [of _ m3] exI [of _ m4] conjI) simp_all
qed

theorem queue_macros_are_list_operations_witness:
  "\<exists>m1. QUEUE_INSERT_TAIL 0 3 sample_ring = Inr m1 \<and> ring m1 0 [1, 2, 3]"
  using queue_macros_are_list_operations [OF sample_ring(1,2) _ sample_ring(3)] by auto

text \<open>C16: from the creation of a socket, in every order of requests and of writable events, the requests are called back in
  the order in which they were made, none is lost and none is called back twice; the kernel was handed the datagrams of
  exactly those that did not fail, in that order; and while requests wait the loop watches the socket for writing.\<close>

theorem udp_requests_keep_their_order:
  assumes "uv_udp_init p n0 = Inr (0, n1)" "nt_wire n0 = []" "0 \<notin> set (nt_sends n0)" "frees_requests calls"
    and "udp_run calls p ([], [], n1) (acc, log, n)"
  shows "\<exists>done waiting. socket_queues p n = Some (done, waiting) \<and>
     map fst acc = map fst log @ done @ waiting \<and>
     map snd (nt_wire n) = handed_over acc (map snd log @ map (result_of n) done) \<and>
     (waiting \<noteq> [] \<longrightarrow> write_armed p n)"
  using udp_run_order [OF assms] by blast

theorem udp_requests_keep_their_order_witness:
  "\<exists>done waiting. socket_queues 5 sample_net3 = Some (done, waiting) \<and> [1] = [1] @ done @ waiting"
  using udp_requests_keep_their_order [OF sample_net1 _ _ sample_udp_calls sample_udp_run]
  by (auto simp: sample_net_def)

text \<open>C38: when the kernel refuses a batch for its first datagram, all requests of the batch, up to twenty, end with that
  error and nothing is sent, although the others were never tried.\<close>

theorem failed_batch_fails_as_a_whole:
  assumes "nt_udps n p = Some u" "queues_ok u n" "ud_write_queue u \<noteq> []" "nt_sends n = - e # rs" "0 < e" "0 \<notin> set rs"
    and "e \<noteq> EAGAIN" "e \<noteq> ENOBUFS" "e \<noteq> EINTR"
  shows "\<exists>n'. uv__udp_sendmsg p n = Inr n' \<and>
     socket_queues p n' = Some (ud_completed_queue u @ take 20 (ud_write_queue u), drop 20 (ud_write_queue u)) \<and>
     nt_wire n' = nt_wire n \<and> (\<forall>q \<in> set (take 20 (ud_write_queue u)). result_of n' q = - e)"
  using assms by (rule failed_batch)

theorem failed_batch_fails_as_a_whole_witness:
  "\<exists>n'. uv__udp_sendmsg 5 (sample_waiting [- 111]) = Inr n' \<and> socket_queues 5 n' = Some ([1, 2], []) \<and> nt_wire n' = [] \<and>
     result_of n' 1 = - 111 \<and> result_of n' 2 = - 111"
  using failed_batch_fails_as_a_whole [OF sample_waiting(1), of "[- 111]" 111 "[]"] sample_queues_ok [of "[- 111]"]
    sample_waiting by (simp add: EAGAIN_def ENOBUFS_def EINTR_def)

text \<open>C39: closing a socket calls every request back before the callback of the close: those that were done with their
  result, then those that still waited as cancelled, each queue in its order; nothing more is sent.\<close>

theorem closing_calls_every_request_back:
  assumes "nt_udps n p = Some u" "queues_ok u n" "io_fd u = - 1" "io_pevents u = 0" "frees_requests calls"
    and "length (ud_completed_queue u @ ud_write_queue u) < fuel"
  shows "\<exists>n'. uv__udp_finish_close fuel calls p (log, n) =
       Inr (log @ map (\<lambda>q. (q, result_of n q)) (ud_completed_queue u) @ map (\<lambda>q. (q, UV_ECANCELED)) (ud_write_queue u), n') \<and>
     socket_queues p n' = Some ([], []) \<and> nt_wire n' = nt_wire n"
  using assms by (rule finish_close_cancels)

theorem closing_calls_every_request_back_witness:
  "\<exists>n'. uv__udp_finish_close 3 sample_udp_calls 5 ([], sample_closing) = Inr ([(1, UV_ECANCELED), (2, UV_ECANCELED)], n') \<and>
     socket_queues 5 n' = Some ([], []) \<and> nt_wire n' = []"
  using closing_calls_every_request_back [OF sample_closing(1,2,3,4) sample_udp_calls, where fuel = 3 and log = "[]"] sample_closing(5-7) by simp

text \<open>C40: the datagrams that have arrived on a socket, up to its limit for one round, are handed to the receiving callback
  in their order, each with its bytes, cut to the size of the buffer and then marked as partial, and its sender; then
  the callback is told that nothing is left.\<close>

theorem datagrams_are_handed_on_in_order:
  assumes "notes_datagrams calls" "nt_udps n p = Some u" "receives u" "nt_recvs n = map Inr ds @ Inl EAGAIN # rs"
    "length ds < 32" "length ds < fuel"
  shows "uv__udp_recvmsg fuel calls p (s, n) =
     Inr (s @ map noted ds @ [(0, [], None, 0)], n\<lparr>nt_recvs := rs, nt_errno := EAGAIN\<rparr>)"
  using assms by (rule uv__udp_recvmsg_order)

theorem datagrams_are_handed_on_in_order_witness:
  "uv__udp_recvmsg 2 sample_notes 5 ([], sample_arrived) =
     Inr ([(3, [Some 1, Some 2, Some 3], Some sample_udp_addr, 0), (0, [], None, 0)], sample_arrived\<lparr>nt_recvs := [], nt_errno := EAGAIN\<rparr>)"
  using datagrams_are_handed_on_in_order [OF sample_notes sample_arrived, of 2 "[]"]
  by (simp add: noted_def UV__UDP_DGRAM_MAXSIZE_def)

text \<open>C20: every Unicode scalar value is read back from its UTF-8 bytes, whatever follows them, and exactly these bytes are
  consumed.\<close>

theorem utf8_is_decoded:
  assumes "scalar c"
  shows "uv__utf8_decode1 (utf8 c @ s) = Inr (c, s)"
  using assms by (rule decode1_utf8)

theorem utf8_is_decoded_witness: "uv__utf8_decode1 [0xE2, 0x82, 0xAC, 0x21] = Inr (0x20AC, [0x21])"
proof -
  have "utf8 0x20AC @ [0x21] = [0xE2, 0x82, 0xAC, 0x21]" by code_simp
  moreover have "scalar 0x20AC" by (simp add: scalar_def)
  ultimately show ?thesis using utf8_is_decoded [of "0x20AC" "[0x21]"] by simp
qed

text \<open>C19: a host name in UTF-8 is written label by label, each label of ASCII as it is and every other label as \<open>xn--\<close> and
  what the decoder of RFC 3492 reads as exactly this label; the labels are joined by dots, whichever of the four dots
  separated them, a zero ends the name, and what the buffer has no room for is cut off.\<close>

theorem host_names_are_written_in_punycode:
  assumes "\<forall>c \<in> set cs. scalar c" "length cs < 3855"
  shows "\<exists>ts. list_all2 ascii_label ts (labels_of [] cs) \<and>
    (let out = take cap (join_labels ts @ [0]) in uv__idna_toascii cap (concat (map utf8 cs)) = Inr (int (length out), out))"
  using assms by (rule toascii_labels)

theorem host_names_are_written_in_punycode_witness:
  "\<exists>t. rfc3492_decode t = Some [98, 252, 99, 104, 101, 114] \<and>
     uv__idna_toascii 64 (concat (map utf8 sample_host_name)) =
       (let out = take 64 (ascii ''xn--'' @ t @ [46, 100, 101, 0]) in Inr (int (length out), out))"
  using host_names_are_written_in_punycode [OF sample_host_name(1,2), of 64] unfolding sample_host_name(3)
  by (auto simp: list_all2_Cons2 ascii_label_def join_labels_def Let_def simp del: take_append length_take)

section \<open>Many clients at once\<close>



section \<open>The event loop\<close>

text \<open>C11: a poll with the timeout of \<open>uv_run\<close> never waits past a timer: each time it asks the kernel for events, a limited
  wait ends when the first active timer is due or before, however often the kernel wakes it up early, and a wait without
  limit happens only when no timer is active. A kernel that fails on any other wait makes no difference.\<close>

theorem polls_keep_to_the_timers:
  assumes "timers_ok (el_timers e)" "uv__backend_timeout e = Inr timeout" "kernel_call pwait" "steady_clock (el_time e) e"
  shows "uv__io_poll rounds fuel c (careful waits_for_timers pwait) timeout e = uv__io_poll rounds fuel c pwait timeout e"
  by (rule uv__io_poll_waits [OF assms])

theorem polls_keep_to_the_timers_witness:
  "\<exists>e. uv__io_poll 5 1 sample_loop_calls (careful waits_for_timers sample_kernel) 6 sample_event_loop = Inr e \<and> el_time e = 10"
  unfolding polls_keep_to_the_timers [OF sample_event_loop(1,2) sample_kernel(1) sample_event_loop(3)]
  by (rule sample_polled_loop)

text \<open>C15: \<open>uv_run\<close> with \<open>UV_RUN_NOWAIT\<close> never blocks: all its calls of the kernel have the timeout 0, whatever the
  callbacks do; and a poll with this timeout calls the kernel at most 48 times.\<close>

theorem nowait_never_blocks:
  "uv_run rounds fuel c (careful (\<lambda>t e. t = 0) pwait) UV_RUN_NOWAIT e = uv_run rounds fuel c pwait UV_RUN_NOWAIT e \<and>
   uv__io_poll (48 + k) fuel c pwait 0 e = uv__io_poll 48 fuel c pwait 0 e"
  by (rule conjI [OF uv_run_at_once uv__io_poll_rounds])





text \<open>C14: when a socket is closed while events are handed out, the events that wait for its descriptor are dropped, also
  when a new socket gets the same descriptor before their turn.\<close>

theorem closed_descriptors_get_no_events:
  assumes "uv__udp_close p n = Inr n1" "nt_udps n p = Some u" "io_fd u \<noteq> - 1" "nt_batch n = Some events"
    and "nt_batch n2 = nt_batch n1" "i < length events" "fst (events ! i) = io_fd u"
  shows "hand_out fuel calls i (Suc k) nevents (s, n2) = hand_out fuel calls (i + 1) k nevents (s, n2)"
  using udp_close_invalidates [OF assms(1-4)] assms(5-7) by (intro invalidated_is_skipped) simp_all

theorem closed_descriptors_get_no_events_witness:
  "hand_out 5 sample_udp_calls 1 1 0 ([], sample_shut) = Inr (0, [], sample_shut)"
proof -
  obtain u where "nt_udps sample_handing 5 = Some u" "io_fd u = 3"
    using sample_polled_socket by (auto simp: sample_handing_def)
  then show ?thesis
    using closed_descriptors_get_no_events [OF sample_shut, of u "[(4, POLLIN), (3, POLLIN)]" sample_shut 1 5 sample_udp_calls 0 0 "[]"]
    by (simp add: sample_handing_def)
qed

section \<open>The red-black tree\<close>

text \<open>C17: a red-black tree of \<open>tree.h\<close> is the ordered list of its entries. With a comparison that falls along the list,
  the searches find the entry that compares equal and the first that does not compare above, insertion returns the equal entry
  or puts the new one in its place and nothing else changes; removal takes an entry out, and the steps lead to its
  neighbours. Every operation returns within a fuel above the number of entries and leaves a balanced tree.\<close>

theorem red_black_tree_is_an_ordered_list:
  assumes "rb_holds h (us @ x # vs)" "length (us @ x # vs) < fuel"
    and "falls c (us @ x # vs)" "\<forall>a \<in> set (us @ x # vs). cmp a = Inr (c a)" "e \<notin> set (us @ x # vs)" "rbh_nodes h e \<noteq> None"
  shows "RB_FIND fuel cmp h = Inr (find (\<lambda>a. c a = 0) (us @ x # vs)) \<and>
    RB_NFIND fuel cmp h = Inr (find (\<lambda>a. c a \<le> 0) (us @ x # vs)) \<and>
    (if \<exists>a \<in> set (us @ x # vs). c a = 0 then \<exists>a. c a = 0 \<and> RB_INSERT fuel cmp (Some e) h = Inr (Some a, h)
     else \<exists>h'. RB_INSERT fuel cmp (Some e) h = Inr (None, h') \<and>
       rb_holds h' (filter (\<lambda>a. c a > 0) (us @ x # vs) @ e # filter (\<lambda>a. c a < 0) (us @ x # vs)) \<and>
       rb_frame (insert e (set (us @ x # vs))) h h') \<and>
    (\<exists>h'. RB_REMOVE fuel (Some x) h = Inr h' \<and> rb_holds h' (us @ vs) \<and> rb_frame (set (us @ x # vs)) h h') \<and>
    RB_NEXT fuel (Some x) h = Inr (first vs) \<and> RB_PREV fuel (Some x) h = Inr (first (rev us)) \<and>
    RB_MINMAX fuel RB_NEGINF h = Inr (Some (hd (us @ [x]))) \<and> RB_MINMAX fuel RB_INF h = Inr (Some (last (x # vs)))"
proof -
  let ?xs = "us @ x # vs"
  have rm: "remove1 x ?xs = us @ vs" using rb_holds_distinct [OF assms(1)] by (simp add: remove1_append)
  have ins: "if \<exists>a \<in> set ?xs. c a = 0 then \<exists>a. c a = 0 \<and> RB_INSERT fuel cmp (Some e) h = Inr (Some a, h)
     else \<exists>h'. RB_INSERT fuel cmp (Some e) h = Inr (None, h') \<and>
       rb_holds h' (filter (\<lambda>a. c a > 0) ?xs @ e # filter (\<lambda>a. c a < 0) ?xs) \<and> rb_frame (insert e (set ?xs)) h h'"
    using RB_INSERT_list [OF assms(1,3,4,2), of e] assms(5,6) by (cases "\<exists>a \<in> set ?xs. c a = 0") (simp_all only: if_True if_False, blast+)
  have rem: "\<exists>h'. RB_REMOVE fuel (Some x) h = Inr h' \<and> rb_holds h' (us @ vs) \<and> rb_frame (set ?xs) h h'"
    using RB_REMOVE_list [OF assms(1) _ assms(2), of x] unfolding rm by simp
  show ?thesis
    by (intro conjI RB_FIND_equal [OF assms(1,3,4,2)] RB_NFIND_first [OF assms(1,3,4,2)] ins rem RB_NEXT_PREV [OF assms(1,2)]
        RB_ends [OF assms(1,2)])
qed

theorem red_black_tree_is_an_ordered_list_witness:
  "\<exists>h h'. RB_INSERT 4 (\<lambda>b. Inr (sample_compare 6 b)) (Some 6) sample_rb_head = Inr (None, h) \<and> rb_holds h [3, 5, 6, 8] \<and>
     RB_REMOVE 4 (Some 5) sample_rb_head = Inr h' \<and> rb_holds h' [3, 8]"
  using red_black_tree_is_an_ordered_list [of sample_rb_head "[3]" 5 "[8]" 4 "sample_compare 6" "\<lambda>b. Inr (sample_compare 6 b)" 6]
    sample_rb_holds sample_falls
  by (fastforce simp: sample_compare_def sample_rb_head_def sample_rb_leaf_def)

end
